(* ===== verification/Quetz_Prelude.thy ===== *)
theory Quetz_Prelude
  imports Main "HOL-Library.Word"
begin

text \<open>
  Shared vocabulary of the development: the machine integers and error values of
  the code, byte vectors and the copies the code makes between them, flat byte
  memories addressed by 64-bit words, the two integer serialisations, and the
  generic facts on words and lists that the component theories rely on.
\<close>

unbundle bit_operations_syntax

type_synonym u8 = "8 word"
type_synonym u16 = "16 word"
type_synonym u32 = "32 word"
type_synonym u64 = "64 word"

text \<open>Proof collections: facts that bound or normalise machine arithmetic, and
  facts that evaluate the model on concrete inputs.\<close>

named_theorems word_facts
named_theorems quetz_eval

section \<open>Errors as values\<close>

text \<open>The exceptions the C++ code throws and the fatal error of the simulator.\<close>

datatype exn =
    Logic_error string
  | Invalid_argument string
  | Runtime_error string
  | Out_of_range string
  | Fatal string

type_synonym 'a result = "exn + 'a"

definition is_ok :: "'a result \<Rightarrow> bool" where
  "is_ok r = (case r of Inl _ \<Rightarrow> False | Inr _ \<Rightarrow> True)"

lemma is_ok_simps [simp]: "is_ok (Inr x)" "\<not> is_ok (Inl e)"
  by (simp_all add: is_ok_def)

lemma is_okE: "is_ok r \<Longrightarrow> (\<And>x. r = Inr x \<Longrightarrow> P) \<Longrightarrow> P"
  by (cases r) auto

fun res_bind :: "'a result \<Rightarrow> ('a \<Rightarrow> 'b result) \<Rightarrow> 'b result" where
  "res_bind (Inl e) f = Inl e"
| "res_bind (Inr x) f = f x"

lemma res_bind_Inr_iff: "res_bind r f = Inr y \<longleftrightarrow> (\<exists>x. r = Inr x \<and> f x = Inr y)"
  by (cases r) auto

lemma res_bind_Inl_iff: "res_bind r f = Inl e \<longleftrightarrow> r = Inl e \<or> (\<exists>x. r = Inr x \<and> f x = Inl e)"
  by (cases r) auto

fun res_map :: "('a \<Rightarrow> 'b result) \<Rightarrow> 'a list \<Rightarrow> 'b list result" where
  "res_map f [] = Inr []"
| "res_map f (x # xs) =
    res_bind (f x) (\<lambda>y. res_bind (res_map f xs) (\<lambda>ys. Inr (y # ys)))"

lemma res_map_Inr_iff:
  "res_map f xs = Inr ys \<longleftrightarrow> list_all2 (\<lambda>x y. f x = Inr y) xs ys"
  by (induction xs arbitrary: ys) (auto simp: res_bind_Inr_iff list_all2_Cons1)

lemma all_less_2 [quetz_eval]:
  "(\<forall>i < 2::nat. P i) \<longleftrightarrow> P 0 \<and> P 1"
  "(\<forall>i < Suc (Suc 0). P i) \<longleftrightarrow> P 0 \<and> P 1"
  "(\<forall>i < Suc 0. P i) \<longleftrightarrow> P 0"
  by (auto simp: less_Suc_eq numeral_2_eq_2)

lemma find_SomeD: "find P xs = Some x \<Longrightarrow> P x \<and> x \<in> set xs"
  by (auto simp: find_Some_iff)

lemma find_NoneD: "find P xs = None \<Longrightarrow> x \<in> set xs \<Longrightarrow> \<not> P x"
  by (auto simp: find_None_iff)

section \<open>Word arithmetic\<close>

lemma unat_less_64 [word_facts]: "unat (a :: u64) < 2 ^ 64"
  using unsigned_less [of a] by simp

lemma unat_less_32 [word_facts]: "unat (a :: u32) < 2 ^ 32"
  using unsigned_less [of a] by simp

lemma unat_less_8 [word_facts]: "unat (a :: u8) < 256"
  using unsigned_less [of a] by simp

lemma and_mask_unat:
  fixes a :: "'a::len word"
  shows "unat (a AND mask n) = unat a mod 2 ^ n"
proof -
  have "a AND mask n = take_bit n a"
    by (simp add: take_bit_eq_mask)
  then show ?thesis
    by (simp only: unsigned_take_bit_eq) (simp only: take_bit_eq_mod)
qed

lemma and_not_mask_eq:
  fixes a :: "'a::len word"
  shows "a AND NOT (mask n) = a - (a AND mask n)"
proof -
  have "(a AND NOT (mask n)) + (a AND mask n) = (a AND NOT (mask n)) OR (a AND mask n)"
    by (rule disjunctive_add) (auto simp: bit_simps)
  also have "\<dots> = a"
    by (rule bit_word_eqI) (auto simp: bit_simps)
  finally show ?thesis
    by (metis add_diff_cancel_right')
qed

lemma and_not_mask_unat:
  fixes a :: "'a::len word"
  shows "unat (a AND NOT (mask n)) = 2 ^ n * (unat a div 2 ^ n)"
proof -
  have le: "a AND mask n \<le> a"
    by (simp add: word_le_nat_alt and_mask_unat)
  have "unat (a - (a AND mask n)) = unat a - unat a mod 2 ^ n"
    using le by (simp add: unat_sub and_mask_unat)
  then show ?thesis
    by (simp add: and_not_mask_eq minus_mod_eq_mult_div)
qed

lemma drop_bit_unat:
  fixes a :: "'a::len word"
  shows "unat (drop_bit n a) = unat a div 2 ^ n"
  by (simp only: unat_drop_bit_eq) (simp only: drop_bit_eq_div)

lemma and_4095_unat: "unat (a AND 4095 :: 'a::len word) = unat a mod 4096"
  using and_mask_unat [of a 12] by (simp add: mask_numeral)

lemma unat_ucast_32_64 [simp, word_facts]: "unat (ucast (a :: u32) :: u64) = unat a"
  by (simp add: unsigned_ucast_eq take_bit_nat_eq_self_iff)
    (use unat_less_32 [of a] in simp)

lemma unat_of_nat_small: "n < 2 ^ LENGTH('a) \<Longrightarrow> unat (of_nat n :: 'a::len word) = n"
  by (simp add: unat_of_nat)

lemma ucast_32_64_of_nat: "(ucast (a :: u32) :: u64) = of_nat (unat a)"
  using unat_less_32 [of a] by (simp add: word_unat_eq_iff unat_of_nat)

lemma unat_suc_32: "parts < budget \<Longrightarrow> unat (parts + 1 :: u32) = unat parts + 1"
proof -
  assume "parts < budget"
  then have "unat parts + 1 < 2 ^ 32" using unat_less_32 [of budget] by (simp add: word_less_nat_alt)
  then show ?thesis by (simp add: unat_word_ariths)
qed

lemma budget_decr_32:
  assumes "parts < (budget :: u32)"
  shows "unat (budget - parts) = Suc (unat (budget - (parts + 1)))"
proof -
  have "unat (parts + 1) \<le> unat budget" using assms by (simp add: unat_suc_32 word_less_nat_alt)
  then have "unat (budget - (parts + 1)) = unat budget - (unat parts + 1)"
    using assms by (simp add: unat_sub word_le_nat_alt unat_suc_32)
  moreover have "unat (budget - parts) = unat budget - unat parts"
    using assms by (simp add: unat_sub less_imp_le)
  ultimately show ?thesis using assms by (simp add: word_less_nat_alt)
qed

lemma round_down_bounds:
  fixes x n :: nat
  assumes "0 < n"
  shows "n * (x div n) \<le> x" and "x < n * (x div n) + n"
  using mult_div_mod_eq [of n x] mod_less_divisor [OF assms, of x] by linarith+

lemma ranges_meet_iff:
  fixes p q n k :: nat
  assumes "0 < n" "0 < k"
  shows "{p..<p + n} \<inter> {q..<q + k} \<noteq> {} \<longleftrightarrow> p < q + k \<and> q < p + n"
proof
  assume "p < q + k \<and> q < p + n"
  then have "max p q \<in> {p..<p + n} \<inter> {q..<q + k}"
    using assms by (auto simp: max_def)
  then show "{p..<p + n} \<inter> {q..<q + k} \<noteq> {}" by blast
qed auto

lemma and_4095_zero_iff: "(a :: 'a::len word) AND 4095 = 0 \<longleftrightarrow> unat a mod 4096 = 0"
  by (metis and_4095_unat unat_eq_0 unsigned_0)

lemma unat_add_lt_64: "unat (a :: u64) + unat b < 2 ^ 64 \<Longrightarrow> unat (a + b) = unat a + unat b"
  by (simp add: unat_word_ariths)

lemma unat_mult_lt_64: "unat (a :: u64) * unat b < 2 ^ 64 \<Longrightarrow> unat (a * b) = unat a * unat b"
  by (simp add: unat_word_ariths)

lemma unat_of_nat_64: "n < 2 ^ 64 \<Longrightarrow> unat (of_nat n :: u64) = n"
  by (simp add: unat_of_nat)

lemma unat_add_of_nat_64:
  "unat (a :: u64) + n < 2 ^ 64 \<Longrightarrow> unat (a + of_nat n) = unat a + n"
  by (simp add: unat_word_ariths unat_of_nat)

lemma unat_diff_ge_64: "b \<le> a \<Longrightarrow> unat (a - b :: u64) = unat a - unat b"
  by (rule unat_sub)

section \<open>Byte vectors and flat memories\<close>

text \<open>\<open>copy_into dst off src\<close> is \<open>std::copy_n(src, n, dst.begin() + off)\<close>.\<close>

definition copy_into :: "'a list \<Rightarrow> nat \<Rightarrow> 'a list \<Rightarrow> 'a list" where
  "copy_into dst off src = take off dst @ src @ drop (off + length src) dst"

text \<open>\<open>vec_slice xs off n\<close> is the vector built from \<open>xs.begin() + off\<close> of length \<open>n\<close>.\<close>

definition vec_slice :: "'a list \<Rightarrow> nat \<Rightarrow> nat \<Rightarrow> 'a list" where
  "vec_slice xs off n = take n (drop off xs)"

lemma length_slice [simp]: "length (vec_slice xs off n) = min n (length xs - off)"
  by (simp add: vec_slice_def)

lemma nth_slice [simp]: "i < n \<Longrightarrow> off + i < length xs \<Longrightarrow> vec_slice xs off n ! i = xs ! (off + i)"
  by (simp add: vec_slice_def)

lemma length_copy_into [simp]:
  "off + length src \<le> length dst \<Longrightarrow> length (copy_into dst off src) = length dst"
  by (simp add: copy_into_def)

lemma nth_copy_into:
  assumes "off + length src \<le> length dst" and "i < length dst"
  shows "copy_into dst off src ! i =
    (if off \<le> i \<and> i < off + length src then src ! (i - off) else dst ! i)"
  using assms by (auto simp: copy_into_def nth_append min_def)

lemma take_copy_into:
  assumes "off + length src \<le> length dst"
  shows "take (off + length src) (copy_into dst off src) = take off dst @ src"
  using assms by (simp add: copy_into_def)

lemma take_slice: "take (off + n) xs = take off xs @ vec_slice xs off n"
  by (simp add: vec_slice_def take_add)

lemma copy_into_append:
  assumes "off + length xs + length ys \<le> length bs"
  shows "copy_into (copy_into bs off xs) (off + length xs) ys = copy_into bs off (xs @ ys)"
proof -
  have "off \<le> length bs" using assms by simp
  then show ?thesis by (simp add: copy_into_def min_def ac_simps)
qed

lemma copy_into_all: "length xs = length bs \<Longrightarrow> copy_into bs 0 xs = xs"
  by (simp add: copy_into_def)

lemma vec_slice_append: "vec_slice xs off (m + n) = vec_slice xs off m @ vec_slice xs (off + m) n"
  by (simp add: vec_slice_def take_add add.commute)

lemma vec_slice_0 [simp]: "vec_slice xs off 0 = []"
  by (simp add: vec_slice_def)

lemma copy_into_Nil [simp]: "copy_into bs off [] = bs"
  by (simp add: copy_into_def)

type_synonym mem = "u64 \<Rightarrow> u8"

definition mem_read :: "mem \<Rightarrow> u64 \<Rightarrow> nat \<Rightarrow> u8 list" where
  "mem_read m a n = map (\<lambda>i. m (a + of_nat i)) [0..<n]"

definition mem_write :: "mem \<Rightarrow> u64 \<Rightarrow> u8 list \<Rightarrow> mem" where
  "mem_write m a bs = (\<lambda>x. if unat (x - a) < length bs then bs ! unat (x - a) else m x)"

lemma length_mem_read [simp]: "length (mem_read m a n) = n"
  by (simp add: mem_read_def)

lemma nth_mem_read [simp]: "i < n \<Longrightarrow> mem_read m a n ! i = m (a + of_nat i)"
  by (simp add: mem_read_def)

lemma mem_read_eq_iff:
  "mem_read m a n = bs \<longleftrightarrow> length bs = n \<and> (\<forall>i<n. bs ! i = m (a + of_nat i))"
  by (auto simp: list_eq_iff_nth_eq)

lemma mem_read_add: "mem_read m a (i + j) = mem_read m a i @ mem_read m (a + of_nat i) j"
proof (rule nth_equalityI)
  fix k assume "k < length (mem_read m a (i + j))"
  then show "mem_read m a (i + j) ! k = (mem_read m a i @ mem_read m (a + of_nat i) j) ! k"
    by (cases "k < i") (auto simp: nth_append of_nat_diff)
qed simp

lemma mem_write_Nil [simp]: "mem_write m a [] = m"
  by (simp add: mem_write_def)

lemma mem_write_in:
  "i < length bs \<Longrightarrow> length bs \<le> 2 ^ 64 \<Longrightarrow> mem_write m a bs (a + of_nat i) = bs ! i"
  by (simp add: mem_write_def unat_of_nat)

lemma mem_write_out: "length bs \<le> unat (x - a) \<Longrightarrow> mem_write m a bs x = m x"
  by (simp add: mem_write_def)

lemma mem_read_write_same:
  "length bs \<le> 2 ^ 64 \<Longrightarrow> mem_read (mem_write m a bs) a (length bs) = bs"
  by (simp add: mem_read_eq_iff mem_write_in)

lemma mem_write_append:
  assumes "length bs + length cs \<le> 2 ^ 63"
  shows "mem_write (mem_write m a bs) (a + of_nat (length bs)) cs = mem_write m a (bs @ cs)"
proof
  fix x
  let ?k = "unat (x - a)" and ?n = "length bs"
  have eq: "x - (a + of_nat ?n) = (x - a) - of_nat ?n"
    by simp
  have nb: "unat (of_nat ?n :: u64) = ?n"
    using assms by (intro unat_of_nat_64) simp
  show "mem_write (mem_write m a bs) (a + of_nat ?n) cs x = mem_write m a (bs @ cs) x"
  proof (cases "?k < ?n")
    case True
    have "unat (x - (a + of_nat ?n)) = 2 ^ 64 + ?k - ?n"
      unfolding eq using True nb by (simp only: unat_sub_if' [of "x - a"]) simp
    then have "\<not> unat (x - (a + of_nat ?n)) < length cs"
      using True assms by simp
    then show ?thesis
      using True by (simp add: mem_write_def nth_append)
  next
    case False
    have "unat (x - (a + of_nat ?n)) = ?k - ?n"
      unfolding eq using False nb by (simp only: unat_sub_if' [of "x - a"]) simp
    then show ?thesis
      using False by (auto simp: mem_write_def nth_append)
  qed
qed

end
