(* ===== verification/Quetz_Window_Cache.thy ===== *)
theory Quetz_Window_Cache
  imports Quetz_Prelude
begin

text \<open>
  The ColdFire data cache of \<open>src/quetz_window_cache.h\<close>: 512 sets of four ways of
  16-byte lines, driven as a transaction machine. A request (\<open>access\<close>, \<open>movec\<close>,
  \<open>push\<close>) starts a transaction; \<open>next\<close> returns the next backing-memory action or
  the end of the transaction, and \<open>complete\<close> delivers the response to an action.
\<close>

section \<open>State\<close>

definition LineBytes :: nat where "LineBytes = 16"
definition Sets :: nat where "Sets = 512"
definition Ways :: nat where "Ways = 4"
definition CapacityBytes :: nat where "CapacityBytes = Sets * Ways * LineBytes"
definition DEC :: u32 where "DEC = 0x80000000"
definition DDPI :: u32 where "DDPI = 0x10000000"
definition DHLCK :: u32 where "DHLCK = 0x08000000"
definition DCINVA :: u32 where "DCINVA = 0x01000000"

lemmas wc_constants = LineBytes_def Sets_def Ways_def DEC_def DDPI_def DHLCK_def DCINVA_def

datatype action_kind = Done | Read | Write

record action =
  a_kind :: action_kind
  a_address :: u64
  a_size :: nat
  a_bytes :: "u8 list"

datatype pending_t =
  PNone | PFill | PBypassRead | PBypassWrite | PWriteThrough | PPush | PEvict

record line =
  l_bytes :: "u8 list"
  l_address :: u64
  l_valid :: bool
  l_dirty :: bool

definition empty_line :: line where
  "empty_line = \<lparr>l_bytes = replicate LineBytes 0, l_address = 0, l_valid = False, l_dirty = False\<rparr>"

text \<open>Slot numbers and byte counts are bounded by 2048 and 16 throughout (see the
  invariant), so they are natural numbers; addresses and control registers keep
  their machine width. \<open>NoSlot\<close> is \<open>None\<close>.\<close>

record wcache =
  wc_regions :: "(u64 \<times> u64) list"
  wc_cacr :: u32
  wc_acr :: "u32 list"
  wc_lines :: "nat \<Rightarrow> line"
  wc_replacement :: nat
  wc_pending_slot :: nat
  wc_dirty_discards :: u64
  wc_active :: bool
  wc_pushing :: bool
  wc_invalidate_push :: bool
  wc_write :: bool
  wc_pending :: pending_t
  wc_address :: u64
  wc_pending_address :: u64
  wc_count :: nat
  wc_offset :: nat
  wc_pending_size :: nat
  wc_bytes :: "u8 list"

definition wc_init :: wcache where
  "wc_init = \<lparr>wc_regions = [], wc_cacr = 0, wc_acr = [0, 0, 0, 0], wc_lines = (\<lambda>_. empty_line),
     wc_replacement = 0, wc_pending_slot = 0, wc_dirty_discards = 0, wc_active = False,
     wc_pushing = False, wc_invalidate_push = False, wc_write = False, wc_pending = PNone,
     wc_address = 0, wc_pending_address = 0, wc_count = 0, wc_offset = 0,
     wc_pending_size = 0, wc_bytes = []\<rparr>"

section \<open>Lookup, replacement and access mode\<close>

fun regionFor_in :: "(u64 \<times> u64) list \<Rightarrow> u64 \<Rightarrow> (u64 \<times> u64) option" where
  "regionFor_in [] address = None"
| "regionFor_in ((base, sz) # rs) address =
     (if address \<ge> base \<and> address - base < sz then Some (base, sz)
      else regionFor_in rs address)"

definition regionFor :: "wcache \<Rightarrow> u64 \<Rightarrow> (u64 \<times> u64) option" where
  "regionFor s address = regionFor_in (wc_regions s) address"

definition contains :: "wcache \<Rightarrow> u64 \<Rightarrow> bool" where
  "contains s address \<longleftrightarrow> regionFor s address \<noteq> None"

definition setIndex :: "u64 \<Rightarrow> nat" where
  "setIndex address = unat ((address div of_nat LineBytes) AND of_nat (Sets - 1))"

definition find_slot :: "wcache \<Rightarrow> u64 \<Rightarrow> nat option" where
  "find_slot s line_address =
     (let first = setIndex line_address * Ways in
      find (\<lambda>slot. l_valid (wc_lines s slot) \<and> l_address (wc_lines s slot) = line_address)
        [first ..< first + Ways])"

definition victim :: "wcache \<Rightarrow> nat \<Rightarrow> nat" where
  "victim s st =
     (let first_way = (if wc_cacr s AND DHLCK \<noteq> 0 then 2 else 0) in
      case find (\<lambda>way. \<not> l_valid (wc_lines s (st * Ways + way))) [first_way ..< Ways] of
        Some way \<Rightarrow> st * Ways + way
      | None \<Rightarrow>
          st * Ways + (if first_way \<noteq> 0 then 2 + wc_replacement s div 2 else wc_replacement s))"

text \<open>The address match of one data ACR.\<close>

definition acr_match :: "u32 \<Rightarrow> u64 \<Rightarrow> bool" where
  "acr_match acr address =
     (if acr AND 0x400 \<noteq> 0 then
        drop_bit 24 address = ucast (drop_bit 24 acr) \<and>
        ((drop_bit 20 address XOR ucast (drop_bit 20 acr))
           AND ucast (NOT (drop_bit 16 acr)) AND 15) = 0
      else
        ((drop_bit 24 address XOR ucast (drop_bit 24 acr))
           AND ucast (NOT (drop_bit 16 acr AND 0xff)) AND 0xff) = 0)"

fun mode_acrs :: "u32 list \<Rightarrow> u64 \<Rightarrow> u32 option" where
  "mode_acrs [] address = None"
| "mode_acrs (acr # rest) address =
     (let sm = drop_bit 13 acr AND 3 in
      if acr AND 0x8000 = 0 \<or> sm = 0 then mode_acrs rest address
      else if acr_match acr address then Some (drop_bit 5 acr AND 3)
      else mode_acrs rest address)"

definition mode :: "wcache \<Rightarrow> u64 \<Rightarrow> u32" where
  "mode s address =
     (if wc_cacr s AND DEC = 0 then 2
      else case mode_acrs (take 2 (wc_acr s)) address of
        Some m \<Rightarrow> m
      | None \<Rightarrow> drop_bit 25 (wc_cacr s) AND 3)"

section \<open>Starting a transaction\<close>

definition region_rejected :: "u64 \<Rightarrow> u64 \<Rightarrow> bool" where
  "region_rejected base sz \<longleftrightarrow>
     sz = 0 \<or> sz > 1024 * 1024 \<or> base > 0xFFFFFFFF \<or> sz - 1 > 0xFFFFFFFF - base \<or>
     base mod of_nat LineBytes \<noteq> 0 \<or> sz mod of_nat LineBytes \<noteq> 0"

definition addRegion :: "wcache \<Rightarrow> u64 \<Rightarrow> u64 \<Rightarrow> wcache result" where
  "addRegion s base sz =
     (if wc_active s then Inl (Logic_error ''region change during a window cache transaction'')
      else if region_rejected base sz then Inl (Invalid_argument
          ''window cache requires an aligned 16-byte to 1-MiB 32-bit window'')
      else if \<exists>(b, z) \<in> set (wc_regions s). base < b + z \<and> b < base + sz
        then Inl (Invalid_argument ''overlapping window cache regions'')
      else Inr (s\<lparr>wc_regions := wc_regions s @ [(base, sz)]\<rparr>))"

definition configure :: "wcache \<Rightarrow> u64 \<Rightarrow> u64 \<Rightarrow> wcache result" where
  "configure s base sz =
     (if wc_active s \<or> wc_regions s \<noteq> []
      then Inl (Logic_error ''window cache geometry cannot be changed after configuration'')
      else addRegion s base sz)"

definition wc_reset :: "wcache \<Rightarrow> wcache result" where
  "wc_reset s =
     (if wc_active s then Inl (Logic_error ''reset during a window cache transaction'')
      else Inr (s\<lparr>wc_cacr := 0, wc_acr := replicate (length (wc_acr s)) 0\<rparr>))"

definition start :: "wcache \<Rightarrow> wcache result" where
  "start s =
     (if wc_active s then Inl (Logic_error ''overlapping window cache transactions'')
      else Inr (s\<lparr>wc_active := True, wc_pending := PNone, wc_pushing := False,
                 wc_count := 0, wc_offset := 0, wc_bytes := [], wc_write := False\<rparr>))"

definition access :: "wcache \<Rightarrow> u64 \<Rightarrow> u32 \<Rightarrow> bool \<Rightarrow> u8 list \<Rightarrow> wcache result" where
  "access s address sz write bytes =
     (case (if sz = 0 \<or> sz > 8 then None else regionFor s address) of
        None \<Rightarrow> Inl (Invalid_argument ''invalid window cache access'')
      | Some (base, rsize) \<Rightarrow>
          if ucast sz > rsize - (address - base) \<or> (write \<and> length bytes \<noteq> unat sz)
          then Inl (Invalid_argument ''invalid window cache access'')
          else res_bind (start s) (\<lambda>s1.
            Inr (s1\<lparr>wc_address := address, wc_count := unat sz, wc_offset := 0,
                    wc_write := write,
                    wc_bytes := (if write then bytes else replicate (unat sz) 0)\<rparr>)))"

definition slot_indices :: "nat list" where
  "slot_indices = [0 ..< Sets * Ways]"

definition discard_lines :: "wcache \<Rightarrow> wcache" where
  "discard_lines s =
     s\<lparr>wc_dirty_discards := wc_dirty_discards s +
         of_nat (length (filter (\<lambda>i. l_valid (wc_lines s i) \<and> l_dirty (wc_lines s i)) slot_indices)),
       wc_lines := (\<lambda>i. (wc_lines s i)\<lparr>l_valid := False, l_dirty := False\<rparr>)\<rparr>"

definition movec :: "wcache \<Rightarrow> u32 \<Rightarrow> u32 \<Rightarrow> wcache result" where
  "movec s reg value =
     (if reg \<noteq> 2 \<and> \<not> (reg \<ge> 4 \<and> reg \<le> 7)
        then Inl (Invalid_argument ''unsupported ColdFire cache control register'')
      else if reg = 2 \<and> value AND 0x60000000 \<noteq> 0
        then Inl (Invalid_argument ''unsupported CACR write-protection/store-buffer controls'')
      else if (reg = 4 \<or> reg = 5) \<and> value AND 4 \<noteq> 0
        then Inl (Invalid_argument ''unsupported data ACR write protection'')
      else res_bind (start s) (\<lambda>s1.
        if reg = 2 then
          let s2 = (if value AND DCINVA \<noteq> 0 then discard_lines s1 else s1)
          in Inr (s2\<lparr>wc_cacr := value AND NOT (DCINVA OR 0x00040100)\<rparr>)
        else Inr (s1\<lparr>wc_acr := (wc_acr s1)[unat (reg - 4) := value]\<rparr>)))"

definition push :: "wcache \<Rightarrow> u16 \<Rightarrow> u32 \<Rightarrow> wcache result" where
  "push s instruction operand =
     (if instruction AND 0xff38 \<noteq> 0xf428 \<or> instruction AND 0xc0 = 0
        then Inl (Invalid_argument ''invalid ColdFire CPUSHL instruction'')
      else res_bind (start s) (\<lambda>s1.
        if instruction AND 0x40 = 0 then Inr s1
        else Inr (s1\<lparr>wc_pushing := True,
                     wc_invalidate_push := (wc_cacr s1 AND DDPI = 0),
                     wc_pending_slot :=
                       setIndex (ucast operand) * Ways + unat (operand AND of_nat (Ways - 1))\<rparr>)))"

section \<open>Running a transaction\<close>

definition update_line :: "wcache \<Rightarrow> nat \<Rightarrow> (line \<Rightarrow> line) \<Rightarrow> wcache" where
  "update_line s slot f = s\<lparr>wc_lines := (wc_lines s)(slot := f (wc_lines s slot))\<rparr>"

definition line_of :: "u64 \<Rightarrow> u64" where
  "line_of address = address AND NOT (of_nat LineBytes - 1)"

definition mk_action :: "action_kind \<Rightarrow> u64 \<Rightarrow> nat \<Rightarrow> u8 list \<Rightarrow> action" where
  "mk_action k a n bs = \<lparr>a_kind = k, a_address = a, a_size = n, a_bytes = bs\<rparr>"

text \<open>One iteration of the \<open>while\<close> loop of \<open>next\<close>: the updated state, and the action
  returned from inside the loop, if any.\<close>

definition next_iter :: "wcache \<Rightarrow> wcache \<times> action option" where
  "next_iter s0 =
     (let address = wc_address s0 + of_nat (wc_offset s0);
          line_address = line_of address;
          in_line = unat (address - line_address);
          psize = min (wc_count s0 - wc_offset s0) (LineBytes - in_line);
          s = s0\<lparr>wc_pending_size := psize, wc_pending_address := line_address\<rparr>;
          cache_mode = mode s address;
          payload = vec_slice (wc_bytes s) (wc_offset s) psize;
          slot = find_slot s line_address
      in if cache_mode \<ge> 2 \<or> (wc_write s \<and> cache_mode = 0 \<and> slot = None) then
           (s\<lparr>wc_pending := (if wc_write s then PBypassWrite else PBypassRead)\<rparr>,
            Some (mk_action (if wc_write s then Write else Read) address psize
              (if wc_write s then payload else [])))
         else case slot of
           None \<Rightarrow>
             (let vslot = victim s (setIndex line_address);
                  old = wc_lines s vslot;
                  s1 = s\<lparr>wc_pending_slot := vslot\<rparr>
              in if l_valid old \<and> l_dirty old
                 then (s1\<lparr>wc_pending := PEvict\<rparr>,
                       Some (mk_action Write (l_address old) LineBytes (l_bytes old)))
                 else (s1\<lparr>wc_pending := PFill\<rparr>, Some (mk_action Read line_address LineBytes [])))
         | Some sl \<Rightarrow>
             if wc_write s then
               (let s1 = update_line s sl (\<lambda>l. l\<lparr>l_bytes := copy_into (l_bytes l) in_line payload\<rparr>)
                in if cache_mode = 0
                   then (s1\<lparr>wc_pending := PWriteThrough, wc_pending_slot := sl\<rparr>,
                         Some (mk_action Write address psize payload))
                   else ((update_line s1 sl (\<lambda>l. l\<lparr>l_dirty := True\<rparr>))
                           \<lparr>wc_offset := wc_offset s + psize\<rparr>, None))
             else
               (s\<lparr>wc_bytes := copy_into (wc_bytes s) (wc_offset s)
                     (vec_slice (l_bytes (wc_lines s sl)) in_line psize),
                  wc_offset := wc_offset s + psize\<rparr>, None))"

lemma line_of_unat: "unat (line_of a) = 16 * (unat a div 16)"
  using and_not_mask_unat [of a 4] by (simp add: line_of_def LineBytes_def mask_numeral)

lemma line_of_le: "line_of a \<le> a"
  by (simp add: word_le_nat_alt line_of_unat)

lemma in_line_unat: "unat (a - line_of a) = unat a mod 16"
  using line_of_le [of a] by (simp add: unat_sub line_of_unat minus_mult_div_eq_mod)

lemma next_iter_progress:
  assumes "next_iter s = (s', None)" and "wc_offset s < wc_count s"
  shows "wc_count s' = wc_count s \<and> wc_offset s < wc_offset s'"
proof -
  have "unat (a - line_of a) < 16" for a
    by (simp add: in_line_unat)
  then show ?thesis
    using assms by (auto simp: next_iter_def Let_def update_line_def LineBytes_def
        split: if_splits option.splits)
qed

text \<open>\<open>next_loop\<close> is the \<open>while\<close> loop of \<open>next\<close> with the return after it.\<close>

definition finish :: "wcache \<Rightarrow> wcache \<times> action" where
  "finish s = (s\<lparr>wc_active := False\<rparr>, mk_action Done 0 0 (if wc_write s then [] else wc_bytes s))"

function next_loop :: "wcache \<Rightarrow> wcache \<times> action" where
  "next_loop s =
     (if wc_offset s < wc_count s then
        (case next_iter s of
           (s', Some act) \<Rightarrow> (s', act)
         | (s', None) \<Rightarrow> next_loop s')
      else finish s)"
  by auto
termination
  by (relation "measure (\<lambda>s. wc_count s - wc_offset s)")
     (auto dest!: next_iter_progress [OF sym])

declare next_loop.simps [simp del]

definition next_action :: "wcache \<Rightarrow> (wcache \<times> action) result" where
  "next_action s =
     (if \<not> wc_active s \<or> wc_pending s \<noteq> PNone
        then Inl (Logic_error ''window cache transaction ordering error'')
      else if wc_pushing s then
        (let ln = wc_lines s (wc_pending_slot s) in
         if l_valid ln \<and> l_dirty ln
         then Inr (s\<lparr>wc_pending := PPush\<rparr>,
                   mk_action Write (l_address ln) LineBytes (l_bytes ln))
         else
           Inr (finish ((if wc_invalidate_push s
                         then update_line s (wc_pending_slot s) (\<lambda>l. l\<lparr>l_valid := False\<rparr>)
                         else s)\<lparr>wc_pushing := False\<rparr>)))
      else Inr (next_loop s))"

definition complete :: "wcache \<Rightarrow> u8 list \<Rightarrow> wcache result" where
  "complete s bytes =
     (if \<not> wc_active s \<or> wc_pending s = PNone
        then Inl (Logic_error ''unexpected window cache memory response'')
      else case wc_pending s of
        PFill \<Rightarrow>
          if length bytes \<noteq> LineBytes then Inl (Runtime_error ''short window cache line fill'')
          else Inr (s\<lparr>wc_lines := (wc_lines s)(wc_pending_slot s :=
                         \<lparr>l_bytes = bytes, l_address = wc_pending_address s,
                          l_valid = True, l_dirty = False\<rparr>),
                      wc_replacement := (wc_replacement s + 1) mod Ways,
                      wc_pending := PNone\<rparr>)
      | PBypassRead \<Rightarrow>
          if length bytes \<noteq> wc_pending_size s then Inl (Runtime_error ''short window cache read'')
          else Inr (s\<lparr>wc_bytes := copy_into (wc_bytes s) (wc_offset s) bytes,
                      wc_offset := wc_offset s + wc_pending_size s,
                      wc_pending := PNone\<rparr>)
      | PPush \<Rightarrow>
          Inr ((update_line s (wc_pending_slot s)
                  (\<lambda>l. l\<lparr>l_dirty := False, l_valid := l_valid l \<and> \<not> wc_invalidate_push s\<rparr>))
                 \<lparr>wc_pushing := False, wc_pending := PNone\<rparr>)
      | PEvict \<Rightarrow>
          Inr ((update_line s (wc_pending_slot s) (\<lambda>l. l\<lparr>l_valid := False, l_dirty := False\<rparr>))
                 \<lparr>wc_pending := PNone\<rparr>)
      | PWriteThrough \<Rightarrow>
          Inr ((update_line s (wc_pending_slot s) (\<lambda>l. l\<lparr>l_dirty := False\<rparr>))
                 \<lparr>wc_offset := wc_offset s + wc_pending_size s, wc_pending := PNone\<rparr>)
      | _ \<Rightarrow>
          Inr (s\<lparr>wc_offset := wc_offset s + wc_pending_size s, wc_pending := PNone\<rparr>))"

section \<open>Well-formed caches\<close>

lemma setIndex_unat: "setIndex a = unat a div 16 mod 512"
  using and_mask_unat [of "a div 16" 9]
  by (simp add: setIndex_def LineBytes_def Sets_def mask_numeral unat_div)

lemma setIndex_less: "setIndex a < Sets"
  by (simp add: setIndex_unat Sets_def)

lemma setIndex_line_of [simp]: "setIndex (line_of a) = setIndex a"
  by (simp add: setIndex_unat line_of_unat)

lemma line_of_idem [simp]: "line_of (line_of a) = line_of a"
  by (simp add: word_unat_eq_iff line_of_unat)

lemma slot_in_set: "w < Ways \<Longrightarrow> setIndex a * Ways + w < Sets * Ways"
  using setIndex_less [of a] by (simp add: Ways_def Sets_def)

text \<open>Every line holds 16 bytes, a valid line is stored in the set of its address,
  and no address is cached twice.\<close>

definition line_wf :: "nat \<Rightarrow> line \<Rightarrow> bool" where
  "line_wf i l \<longleftrightarrow> length (l_bytes l) = LineBytes \<and>
     (l_valid l \<longrightarrow> line_of (l_address l) = l_address l \<and> setIndex (l_address l) = i div Ways)"

definition lines_wf :: "(nat \<Rightarrow> line) \<Rightarrow> bool" where
  "lines_wf ls \<longleftrightarrow> (\<forall>i < Sets * Ways. line_wf i (ls i)) \<and>
     (\<forall>i < Sets * Ways. \<forall>j < Sets * Ways.
        l_valid (ls i) \<and> l_valid (ls j) \<and> l_address (ls i) = l_address (ls j) \<longrightarrow> i = j)"

fun regions_disjoint :: "(u64 \<times> u64) list \<Rightarrow> bool" where
  "regions_disjoint [] = True"
| "regions_disjoint ((b, z) # rs) \<longleftrightarrow>
     (\<forall>(c, y) \<in> set rs. {unat b ..< unat b + unat z} \<inter> {unat c ..< unat c + unat y} = {}) \<and>
     regions_disjoint rs"

definition region_wf :: "u64 \<times> u64 \<Rightarrow> bool" where
  "region_wf r \<longleftrightarrow> 0 < unat (snd r) \<and> unat (snd r) \<le> 1048576 \<and>
     unat (fst r) + unat (snd r) \<le> 2 ^ 32 \<and> unat (fst r) mod 16 = 0 \<and> unat (snd r) mod 16 = 0"

definition wc_wf :: "wcache \<Rightarrow> bool" where
  "wc_wf s \<longleftrightarrow> lines_wf (wc_lines s) \<and> wc_replacement s < Ways \<and> length (wc_acr s) = 4 \<and>
     wc_pending_slot s < Sets * Ways \<and>
     list_all region_wf (wc_regions s) \<and> regions_disjoint (wc_regions s)"

lemma lines_wf_line: "lines_wf ls \<Longrightarrow> i < Sets * Ways \<Longrightarrow> line_wf i (ls i)"
  by (simp add: lines_wf_def)

lemma lines_wf_unique:
  "lines_wf ls \<Longrightarrow> i < Sets * Ways \<Longrightarrow> j < Sets * Ways \<Longrightarrow> l_valid (ls i) \<Longrightarrow> l_valid (ls j) \<Longrightarrow>
    l_address (ls i) = l_address (ls j) \<Longrightarrow> i = j"
  by (simp add: lines_wf_def)

text \<open>Changing one line keeps the lines well formed when the new line is well formed in
  its slot and, if it is valid, no other slot holds its address.\<close>

lemma lines_wf_update:
  assumes "lines_wf ls" "line_wf i l"
    and "\<And>j. j < Sets * Ways \<Longrightarrow> j \<noteq> i \<Longrightarrow> l_valid l \<Longrightarrow> l_valid (ls j) \<Longrightarrow> l_address (ls j) \<noteq> l_address l"
  shows "lines_wf (ls(i := l))"
  using assms unfolding lines_wf_def by (auto simp: fun_upd_def) metis+

text \<open>Changing the bytes or the flags of a line in place.\<close>

lemma lines_wf_modify:
  assumes w: "lines_wf ls" and i: "i < Sets * Ways"
    and f: "l_address l = l_address (ls i)" "length (l_bytes l) = LineBytes" "l_valid l \<longrightarrow> l_valid (ls i)"
  shows "lines_wf (ls(i := l))"
proof (rule lines_wf_update [OF w])
  show "line_wf i l"
    using lines_wf_line [OF w i] f by (auto simp: line_wf_def)
  fix j assume "j < Sets * Ways" "j \<noteq> i" "l_valid l" "l_valid (ls j)"
  then show "l_address (ls j) \<noteq> l_address l"
    using lines_wf_unique [OF w _ i, of j] f by auto
qed

lemma find_slot_cases:
  obtains (miss) "find_slot s a = None"
  | (hit) i where "find_slot s a = Some i" "setIndex a = i div Ways" "i < Sets * Ways"
      "l_valid (wc_lines s i)" "l_address (wc_lines s i) = a"
proof (cases "find_slot s a")
  case (Some i)
  have "i \<in> set [setIndex a * Ways ..< setIndex a * Ways + Ways]"
    and "l_valid (wc_lines s i) \<and> l_address (wc_lines s i) = a"
    using Some by (auto simp: find_slot_def Let_def find_Some_iff)
  then have "i div Ways = setIndex a" "l_valid (wc_lines s i)" "l_address (wc_lines s i) = a"
    by (auto simp: Ways_def)
  moreover from this have "i < Sets * Ways"
    using setIndex_less [of a] by (auto simp: Ways_def Sets_def)
  ultimately show ?thesis using Some hit by simp
qed (use miss in simp)

lemma find_slot_None:
  assumes "lines_wf (wc_lines s)" "find_slot s a = None" "i < Sets * Ways" "l_valid (wc_lines s i)"
  shows "l_address (wc_lines s i) \<noteq> a"
proof
  assume a: "l_address (wc_lines s i) = a"
  then have "setIndex a = i div Ways"
    using lines_wf_line [OF assms(1,3)] assms(4) by (simp add: line_wf_def)
  then have "i \<in> set [setIndex a * Ways ..< setIndex a * Ways + Ways]"
    by (auto simp: Ways_def)
  then show False
    using assms(2,4) a by (auto simp: find_slot_def Let_def find_None_iff)
qed

lemma find_slot_Some:
  assumes "lines_wf (wc_lines s)" "i < Sets * Ways" "l_valid (wc_lines s i)"
  shows "find_slot s (l_address (wc_lines s i)) = Some i"
proof (cases rule: find_slot_cases [of s "l_address (wc_lines s i)"])
  case miss
  then show ?thesis using find_slot_None [OF assms(1) _ assms(2,3)] by blast
next
  case (hit j)
  then show ?thesis
    using lines_wf_unique [OF assms(1) hit(3) assms(2) hit(4) assms(3) hit(5)] by (simp only:)
qed

lemma victim_cases:
  obtains (free) w where "victim s st = st * Ways + w" "w < Ways" "\<not> l_valid (wc_lines s (st * Ways + w))"
  | (full) w where "victim s st = st * Ways + w" "wc_replacement s < Ways \<longrightarrow> w < Ways"
      "(if wc_cacr s AND DHLCK \<noteq> 0 then 2 else 0) \<le> w"
      "\<forall>v \<in> {(if wc_cacr s AND DHLCK \<noteq> 0 then 2 else 0) ..< Ways}. l_valid (wc_lines s (st * Ways + v))"
proof (cases "find (\<lambda>way. \<not> l_valid (wc_lines s (st * Ways + way)))
    [(if wc_cacr s AND DHLCK \<noteq> 0 then 2 else 0) ..< Ways]")
  case (Some w)
  then have "victim s st = st * Ways + w"
    by (simp add: victim_def Let_def del: upt.simps)
  then show ?thesis using free find_SomeD [OF Some] by (auto split: if_splits)
next
  case None
  let ?w = "if wc_cacr s AND DHLCK \<noteq> 0 then 2 + wc_replacement s div 2 else wc_replacement s"
  have "victim s st = st * Ways + ?w"
    using None by (simp add: victim_def Let_def)
  moreover have "wc_replacement s < Ways \<longrightarrow> ?w < Ways" "(if wc_cacr s AND DHLCK \<noteq> 0 then 2 else 0) \<le> ?w"
    by (auto simp: Ways_def)
  ultimately show ?thesis using full find_NoneD [OF None] by auto
qed

lemma victim_in_set:
  assumes "wc_replacement s < Ways" "st < Sets"
  shows "victim s st div Ways = st" "victim s st < Sets * Ways"
proof -
  have "\<exists>w < Ways. victim s st = st * Ways + w"
    using assms(1) by (cases rule: victim_cases [of s st]) auto
  then obtain w where "w < Ways" "victim s st = st * Ways + w" by blast
  then show "victim s st div Ways = st" "victim s st < Sets * Ways"
    using assms(2) by (auto simp: Ways_def Sets_def)
qed

text \<open>The victim is an invalid way whenever the allocatable ways have one.\<close>

lemma victim_invalid:
  assumes "(if wc_cacr s AND DHLCK \<noteq> 0 then 2 else 0) \<le> w" "w < Ways" "\<not> l_valid (wc_lines s (st * Ways + w))"
  shows "\<not> l_valid (wc_lines s (victim s st))"
  using assms by (cases rule: victim_cases [of s st]) auto

section \<open>Every operation keeps the cache well formed\<close>

lemma wc_wf_field_update [simp]:
  "wc_wf (s\<lparr>wc_cacr := c\<rparr>) = wc_wf s"
  "wc_wf (s\<lparr>wc_active := b\<rparr>) = wc_wf s"
  "wc_wf (s\<lparr>wc_pending := p\<rparr>) = wc_wf s"
  "wc_wf (s\<lparr>wc_pushing := b\<rparr>) = wc_wf s"
  "wc_wf (s\<lparr>wc_invalidate_push := b\<rparr>) = wc_wf s"
  "wc_wf (s\<lparr>wc_write := b\<rparr>) = wc_wf s"
  "wc_wf (s\<lparr>wc_address := a\<rparr>) = wc_wf s"
  "wc_wf (s\<lparr>wc_pending_address := a\<rparr>) = wc_wf s"
  "wc_wf (s\<lparr>wc_pending_size := n\<rparr>) = wc_wf s"
  "wc_wf (s\<lparr>wc_count := n\<rparr>) = wc_wf s"
  "wc_wf (s\<lparr>wc_offset := n\<rparr>) = wc_wf s"
  "wc_wf (s\<lparr>wc_bytes := bs\<rparr>) = wc_wf s"
  by (simp_all add: wc_wf_def)

lemma wc_wf_init: "wc_wf wc_init"
  by (simp add: wc_wf_def wc_init_def lines_wf_def line_wf_def empty_line_def Ways_def Sets_def)

lemma start_wf: "wc_wf s \<Longrightarrow> start s = Inr s' \<Longrightarrow> wc_wf s'"
  by (auto simp: start_def split: if_splits)

lemma region_check_nat:
  assumes "\<not> region_rejected base sz"
  shows "region_wf (base, sz)"
proof -
  have z: "0 < unat sz" "unat sz \<le> 1048576" "unat base \<le> 4294967295"
    using assms by (auto simp: region_rejected_def not_less word_le_nat_alt unat_gt_0)
  have "unat (sz - 1) = unat sz - 1"
    using z by (simp add: unat_sub word_le_nat_alt)
  moreover have "unat (0xFFFFFFFF - base) = 4294967295 - unat base"
    using z by (simp add: unat_sub word_le_nat_alt)
  ultimately have "unat sz - 1 \<le> 4294967295 - unat base"
    using assms by (simp add: region_rejected_def not_less word_le_nat_alt)
  moreover have "unat base mod 16 = 0" "unat sz mod 16 = 0"
    using assms by (simp_all add: region_rejected_def LineBytes_def word_unat_eq_iff unat_mod)
  ultimately show ?thesis
    using z by (simp add: region_wf_def)
qed

lemma region_wf_disjoint:
  assumes "region_wf (b, z)" "region_wf (c, y)" "\<not> (c < b + z \<and> b < c + y)"
  shows "{unat b ..< unat b + unat z} \<inter> {unat c ..< unat c + unat y} = {}"
  using assms by (auto simp: region_wf_def word_less_nat_alt unat_word_ariths)

lemma regions_disjoint_snoc:
  "regions_disjoint (rs @ [(b, z)]) \<longleftrightarrow> regions_disjoint rs \<and>
     (\<forall>(c, y) \<in> set rs. {unat c ..< unat c + unat y} \<inter> {unat b ..< unat b + unat z} = {})"
  by (induction rs rule: regions_disjoint.induct) auto

lemma addRegion_wf:
  assumes w: "wc_wf s" and a: "addRegion s base sz = Inr s'"
  shows "wc_wf s'"
proof -
  have ok: "region_wf (base, sz)"
    and ov: "\<forall>(b, z) \<in> set (wc_regions s). \<not> (base < b + z \<and> b < base + sz)"
    and s': "s' = s\<lparr>wc_regions := wc_regions s @ [(base, sz)]\<rparr>"
    using a by (auto simp: addRegion_def split: if_splits intro!: region_check_nat)
  have "\<forall>(b, z) \<in> set (wc_regions s). {unat b ..< unat b + unat z} \<inter> {unat base ..< unat base + unat sz} = {}"
    using w ok ov region_wf_disjoint by (fastforce simp: wc_wf_def list_all_iff)
  then show ?thesis
    using w ok unfolding s' by (simp add: wc_wf_def regions_disjoint_snoc)
qed

lemma configure_wf: "wc_wf s \<Longrightarrow> configure s base sz = Inr s' \<Longrightarrow> wc_wf s'"
  by (auto simp: configure_def split: if_splits intro: addRegion_wf)

lemma reset_wf: "wc_wf s \<Longrightarrow> wc_reset s = Inr s' \<Longrightarrow> wc_wf s'"
  by (auto simp: wc_reset_def wc_wf_def split: if_splits)

lemma access_wf: "wc_wf s \<Longrightarrow> access s a n w bs = Inr s' \<Longrightarrow> wc_wf s'"
  by (auto simp: access_def start_def wc_wf_def split: if_splits option.splits)

lemma discard_lines_wf: "wc_wf s \<Longrightarrow> wc_wf (discard_lines s)"
  by (auto simp: wc_wf_def discard_lines_def lines_wf_def line_wf_def)

lemma movec_InrE:
  assumes "movec s reg v = Inr s'"
  obtains (cacr) s1 where "reg = 2" "v AND 0x60000000 = 0" "start s = Inr s1"
      "s' = (if v AND DCINVA \<noteq> 0 then discard_lines s1 else s1)\<lparr>wc_cacr := v AND NOT (DCINVA OR 0x00040100)\<rparr>"
  | (acr) s1 where "reg \<noteq> 2" "reg \<ge> 4" "reg \<le> 7" "start s = Inr s1"
      "s' = s1\<lparr>wc_acr := (wc_acr s1)[unat (reg - 4) := v]\<rparr>"
proof (cases "start s")
  case (Inl e)
  then show ?thesis using assms by (simp add: movec_def split: if_split_asm)
next
  case (Inr s1)
  show ?thesis
  proof (cases "reg = 2")
    case True
    then show ?thesis
      using assms Inr cacr [of s1] by (simp add: movec_def Let_def split: if_split_asm)
  next
    case False
    then show ?thesis
      using assms Inr acr [of s1] by (simp add: movec_def split: if_split_asm)
  qed
qed

lemma movec_wf:
  assumes "wc_wf s" "movec s reg v = Inr s'"
  shows "wc_wf s'"
  using assms(2)
proof (cases rule: movec_InrE)
  case (cacr s1)
  then show ?thesis
    using start_wf [OF assms(1) cacr(3)] discard_lines_wf by simp
next
  case (acr s1)
  then show ?thesis
    using start_wf [OF assms(1) acr(4)] by (simp add: wc_wf_def)
qed

lemma and_3_less_Ways: "unat ((x::u32) AND of_nat (Ways - 1)) < Ways"
  using and_mask_unat [of x 2] by (simp add: Ways_def mask_numeral)

lemma push_wf:
  assumes "wc_wf s" "push s ins a = Inr s'"
  shows "wc_wf s'"
proof -
  have "setIndex (ucast a) * Ways + unat (a AND of_nat (Ways - 1)) < Sets * Ways"
    by (rule slot_in_set) (rule and_3_less_Ways)
  then show ?thesis
    using assms by (auto simp: push_def res_bind_Inr_iff start_def wc_wf_def split: if_splits)
qed

lemma update_line_wf:
  assumes "wc_wf s" "i < Sets * Ways"
    and "l_address (f (wc_lines s i)) = l_address (wc_lines s i)"
    and "length (l_bytes (f (wc_lines s i))) = LineBytes" "l_valid (f (wc_lines s i)) \<longrightarrow> l_valid (wc_lines s i)"
  shows "wc_wf (update_line s i f)"
  using assms lines_wf_modify [of "wc_lines s" i "f (wc_lines s i)"]
  by (simp add: wc_wf_def update_line_def)

lemma wc_wf_length: "wc_wf s \<Longrightarrow> i < Sets * Ways \<Longrightarrow> length (l_bytes (wc_lines s i)) = LineBytes"
  by (simp add: wc_wf_def lines_wf_def line_wf_def)

text \<open>A transaction in progress only copies within the request buffer.\<close>

definition buffer_wf :: "wcache \<Rightarrow> bool" where
  "buffer_wf s \<longleftrightarrow> length (wc_bytes s) = wc_count s \<and> wc_offset s \<le> wc_count s \<and>
     (wc_pending s \<in> {PBypassRead, PBypassWrite, PWriteThrough} \<longrightarrow>
        wc_offset s + wc_pending_size s \<le> wc_count s) \<and>
     (wc_pending s = PFill \<longrightarrow> line_of (wc_pending_address s) = wc_pending_address s \<and>
        setIndex (wc_pending_address s) = wc_pending_slot s div Ways \<and>
        find_slot s (wc_pending_address s) = None)"

text \<open>The quantities of one loop iteration, and its outcomes one by one.\<close>

definition cur_addr :: "wcache \<Rightarrow> u64" where
  "cur_addr s = wc_address s + of_nat (wc_offset s)"

definition cur_size :: "wcache \<Rightarrow> nat" where
  "cur_size s = min (wc_count s - wc_offset s) (16 - unat (cur_addr s) mod 16)"

definition cur_payload :: "wcache \<Rightarrow> u8 list" where
  "cur_payload s = vec_slice (wc_bytes s) (wc_offset s) (cur_size s)"

definition prep :: "wcache \<Rightarrow> wcache" where
  "prep s = s\<lparr>wc_pending_size := cur_size s, wc_pending_address := line_of (cur_addr s)\<rparr>"

lemma prep_simps [simp]:
  "wc_lines (prep s) = wc_lines s" "wc_write (prep s) = wc_write s" "wc_bytes (prep s) = wc_bytes s"
  "wc_offset (prep s) = wc_offset s" "wc_count (prep s) = wc_count s" "wc_address (prep s) = wc_address s"
  "wc_active (prep s) = wc_active s" "wc_pushing (prep s) = wc_pushing s" "wc_cacr (prep s) = wc_cacr s"
  "wc_acr (prep s) = wc_acr s" "wc_replacement (prep s) = wc_replacement s" "wc_regions (prep s) = wc_regions s"
  "wc_pending_size (prep s) = cur_size s" "wc_pending_address (prep s) = line_of (cur_addr s)"
  "wc_pending_slot (prep s) = wc_pending_slot s" "wc_dirty_discards (prep s) = wc_dirty_discards s"
  "wc_pending (prep s) = wc_pending s"
  by (simp_all add: prep_def)

lemma wc_wf_prep [simp]: "wc_wf (prep s) = wc_wf s"
  by (simp add: prep_def)

lemma mode_cong: "wc_cacr s = wc_cacr t \<Longrightarrow> wc_acr s = wc_acr t \<Longrightarrow> mode s = mode t"
  by (intro ext) (simp only: mode_def)

lemma find_slot_cong: "wc_lines s = wc_lines t \<Longrightarrow> find_slot s = find_slot t"
  by (intro ext) (simp only: find_slot_def)

lemma victim_cong:
  "wc_lines s = wc_lines t \<Longrightarrow> wc_cacr s = wc_cacr t \<Longrightarrow> wc_replacement s = wc_replacement t \<Longrightarrow>
    victim s = victim t"
  by (intro ext) (simp only: victim_def)

lemma prep_lookup [simp]: "mode (prep s) = mode s" "find_slot (prep s) = find_slot s" "victim (prep s) = victim s"
  by (rule mode_cong find_slot_cong victim_cong; simp)+

definition bypasses :: "wcache \<Rightarrow> bool" where
  "bypasses s \<longleftrightarrow> mode s (cur_addr s) \<ge> 2 \<or>
     (wc_write s \<and> mode s (cur_addr s) = 0 \<and> find_slot s (line_of (cur_addr s)) = None)"

definition cur_victim :: "wcache \<Rightarrow> nat" where
  "cur_victim s = victim s (setIndex (cur_addr s))"

lemma next_iter_alt:
  "next_iter s =
     (if bypasses s then
        ((prep s)\<lparr>wc_pending := (if wc_write s then PBypassWrite else PBypassRead)\<rparr>,
         Some (mk_action (if wc_write s then Write else Read) (cur_addr s) (cur_size s)
           (if wc_write s then cur_payload s else [])))
      else case find_slot s (line_of (cur_addr s)) of
        None \<Rightarrow>
          (let old = wc_lines s (cur_victim s); s1 = (prep s)\<lparr>wc_pending_slot := cur_victim s\<rparr> in
           if l_valid old \<and> l_dirty old
           then (s1\<lparr>wc_pending := PEvict\<rparr>, Some (mk_action Write (l_address old) 16 (l_bytes old)))
           else (s1\<lparr>wc_pending := PFill\<rparr>, Some (mk_action Read (line_of (cur_addr s)) 16 [])))
      | Some sl \<Rightarrow>
          if wc_write s then
            (let s1 = update_line (prep s) sl
               (\<lambda>l. l\<lparr>l_bytes := copy_into (l_bytes l) (unat (cur_addr s) mod 16) (cur_payload s)\<rparr>) in
             if mode s (cur_addr s) = 0
             then (s1\<lparr>wc_pending := PWriteThrough, wc_pending_slot := sl\<rparr>,
                   Some (mk_action Write (cur_addr s) (cur_size s) (cur_payload s)))
             else ((update_line s1 sl (\<lambda>l. l\<lparr>l_dirty := True\<rparr>))\<lparr>wc_offset := wc_offset s + cur_size s\<rparr>, None))
          else
            ((prep s)\<lparr>wc_bytes := copy_into (wc_bytes s) (wc_offset s)
                (vec_slice (l_bytes (wc_lines s sl)) (unat (cur_addr s) mod 16) (cur_size s)),
               wc_offset := wc_offset s + cur_size s\<rparr>, None))"
  unfolding next_iter_def Let_def cur_addr_def [symmetric]
  unfolding in_line_unat LineBytes_def cur_size_def [symmetric]
  unfolding prep_def [symmetric]
  unfolding prep_simps prep_lookup cur_payload_def [symmetric] setIndex_line_of
  unfolding bypasses_def [symmetric] cur_victim_def [symmetric]
  by (rule refl)

lemma cur_size_pos: "wc_offset s < wc_count s \<Longrightarrow> 0 < cur_size s"
  by (simp add: cur_size_def)

lemma cur_size_fits: "wc_offset s \<le> wc_count s \<Longrightarrow> wc_offset s + cur_size s \<le> wc_count s"
  by (simp add: cur_size_def)

lemma cur_size_in_line: "unat (cur_addr s) mod 16 + cur_size s \<le> 16"
  by (simp add: cur_size_def)

lemma length_cur_payload: "length (cur_payload s) \<le> cur_size s"
  by (simp add: cur_payload_def)

lemma wc_wf_cur_victim:
  "wc_wf s \<Longrightarrow> cur_victim s div Ways = setIndex (cur_addr s) \<and> cur_victim s < Sets * Ways"
  using victim_in_set [of s "setIndex (cur_addr s)"] setIndex_less
  by (simp add: wc_wf_def cur_victim_def)

lemma wc_wf_set_slot: "wc_wf s \<Longrightarrow> i < Sets * Ways \<Longrightarrow> wc_wf (s\<lparr>wc_pending_slot := i\<rparr>)"
  by (simp add: wc_wf_def)

lemma find_slot_line_cong:
  assumes "find_slot s a = Some i"
  shows "i < Sets * Ways"
  using assms by (cases rule: find_slot_cases [of s a]) auto

lemma write_hit_wf:
  assumes "wc_wf s" "i < Sets * Ways"
  shows "wc_wf (update_line (prep s) i
     (\<lambda>l. l\<lparr>l_bytes := copy_into (l_bytes l) (unat (cur_addr s) mod 16) (cur_payload s)\<rparr>))"
  using assms length_cur_payload [of s] cur_size_in_line [of s] wc_wf_length [OF assms]
  by (intro update_line_wf) (auto simp: LineBytes_def)

lemma update_line_field [simp]:
  "wc_pending_slot (update_line s i f) = wc_pending_slot s" "wc_offset (update_line s i f) = wc_offset s"
  "wc_count (update_line s i f) = wc_count s" "wc_bytes (update_line s i f) = wc_bytes s"
  "wc_pending (update_line s i f) = wc_pending s" "wc_write (update_line s i f) = wc_write s"
  "wc_address (update_line s i f) = wc_address s" "wc_active (update_line s i f) = wc_active s"
  "wc_pushing (update_line s i f) = wc_pushing s" "wc_cacr (update_line s i f) = wc_cacr s"
  "wc_acr (update_line s i f) = wc_acr s" "wc_replacement (update_line s i f) = wc_replacement s"
  "wc_regions (update_line s i f) = wc_regions s" "wc_pending_size (update_line s i f) = wc_pending_size s"
  "wc_pending_address (update_line s i f) = wc_pending_address s"
  "wc_dirty_discards (update_line s i f) = wc_dirty_discards s"
  "wc_invalidate_push (update_line s i f) = wc_invalidate_push s"
  "wc_lines (update_line s i f) = (wc_lines s)(i := f (wc_lines s i))"
  by (simp_all add: update_line_def)

lemma next_iter_wf:
  assumes w: "wc_wf s" and n: "next_iter s = (s', r)"
  shows "wc_wf s'"
proof (cases "bypasses s")
  case True
  then show ?thesis using w n by (auto simp: next_iter_alt)
next
  case nb: False
  show ?thesis
  proof (cases "find_slot s (line_of (cur_addr s))")
    case None
    then show ?thesis
      using n nb w wc_wf_cur_victim [OF w] by (auto simp: next_iter_alt Let_def wc_wf_set_slot split: if_splits)
  next
    case (Some i)
    note i = find_slot_line_cong [OF Some]
    let ?s1 = "update_line (prep s) i
     (\<lambda>l. l\<lparr>l_bytes := copy_into (l_bytes l) (unat (cur_addr s) mod 16) (cur_payload s)\<rparr>)"
    have w1: "wc_wf ?s1" by (rule write_hit_wf [OF w i])
    have w2: "wc_wf (update_line ?s1 i (\<lambda>l. l\<lparr>l_dirty := True\<rparr>))"
      using wc_wf_length [OF w1 i] by (intro update_line_wf [OF w1 i]) auto
    show ?thesis
      using n nb Some w w1 w2 wc_wf_set_slot [of "?s1\<lparr>wc_pending := PWriteThrough\<rparr>", OF _ i]
      by (auto simp: next_iter_alt Let_def split: if_splits)
  qed
qed

lemma next_iter_buffer:
  assumes w: "wc_wf s" and b: "buffer_wf s" and p: "wc_pending s = PNone" and n: "next_iter s = (s', r)"
  shows "buffer_wf s'"
proof (cases "bypasses s")
  case True
  then show ?thesis using b p n cur_size_fits [of s]
    by (cases "wc_write s") (auto simp: next_iter_alt buffer_wf_def)
next
  case nb: False
  show ?thesis
  proof (cases "find_slot s (line_of (cur_addr s))")
    case None
    have "find_slot ((prep s)\<lparr>wc_pending_slot := cur_victim s, wc_pending := q\<rparr>) = find_slot s" for q
      by (rule find_slot_cong) simp
    then show ?thesis
      using n nb None b p wc_wf_cur_victim [OF w]
      by (auto simp: next_iter_alt Let_def buffer_wf_def split: if_splits)
  next
    case (Some i)
    have "length (vec_slice (l_bytes (wc_lines s i)) (unat (cur_addr s) mod 16) (cur_size s)) = cur_size s"
      using wc_wf_length [OF w find_slot_line_cong [OF Some]] cur_size_in_line [of s]
      by (simp add: LineBytes_def min_def) linarith
    then show ?thesis
      using n nb Some b p cur_size_fits [of s]
      by (auto simp: next_iter_alt Let_def buffer_wf_def split: if_splits)
  qed
qed

lemma next_loop_wf:
  assumes "wc_wf s" "buffer_wf s" "wc_pending s = PNone" "next_loop s = (s', act)"
  shows "wc_wf s' \<and> buffer_wf s'"
  using assms
proof (induction s rule: next_loop.induct)
  case (1 s)
  obtain t r where n: "next_iter s = (t, r)" by fastforce
  note wt = next_iter_wf [OF \<open>wc_wf s\<close> n] next_iter_buffer [OF \<open>wc_wf s\<close> \<open>buffer_wf s\<close> \<open>wc_pending s = PNone\<close> n]
  show ?case
  proof (cases "wc_offset s < wc_count s")
    case False
    then show ?thesis
      using "1.prems" by (auto simp: next_loop.simps [of s] finish_def buffer_wf_def)
  next
    case True
    show ?thesis
    proof (cases r)
      case (Some a)
      then show ?thesis using "1.prems" True n wt by (simp add: next_loop.simps [of s])
    next
      case None
      moreover from None n "1.prems" have "wc_pending t = PNone"
        by (auto simp: next_iter_alt Let_def split: if_splits option.splits)
      ultimately show ?thesis
        using "1.IH" [OF True n [symmetric]] "1.prems" True n wt by (simp add: next_loop.simps [of s])
    qed
  qed
qed

lemma finish_wf: "wc_wf s \<Longrightarrow> buffer_wf s \<Longrightarrow> finish s = (s', act) \<Longrightarrow> wc_wf s' \<and> buffer_wf s'"
  by (auto simp: finish_def buffer_wf_def find_slot_def)

lemma buffer_wf_idle:
  assumes "buffer_wf s" "wc_pending s = PNone" "wc_bytes t = wc_bytes s" "wc_count t = wc_count s"
    "wc_offset t = wc_offset s" "wc_pending t \<in> {PNone, PPush, PEvict}"
  shows "buffer_wf t"
  using assms by (auto simp: buffer_wf_def)

lemma next_action_wf:
  assumes w: "wc_wf s" and b: "buffer_wf s" and n: "next_action s = Inr (s', act)"
  shows "wc_wf s' \<and> buffer_wf s'"
proof -
  have act: "wc_active s" and p: "wc_pending s = PNone"
    using n by (auto simp: next_action_def split: if_splits)
  show ?thesis
  proof (cases "wc_pushing s")
    case False
    then show ?thesis using n act p next_loop_wf [OF w b p] by (simp add: next_action_def)
  next
    case True
    let ?i = "wc_pending_slot s"
    have i: "?i < Sets * Ways" using w by (simp add: wc_wf_def)
    have w': "wc_wf (update_line s ?i (\<lambda>l. l\<lparr>l_valid := False\<rparr>))"
      using wc_wf_length [OF w i] by (intro update_line_wf [OF w i]) auto
    have "wc_wf s' \<and> wc_bytes s' = wc_bytes s \<and> wc_count s' = wc_count s \<and> wc_offset s' = wc_offset s \<and>
        wc_pending s' \<in> {PNone, PPush, PEvict}"
      using n act p True w w'
      by (auto simp: next_action_def Let_def finish_def split: if_splits)
    then show ?thesis using buffer_wf_idle [OF b p] by blast
  qed
qed

lemma complete_wf:
  assumes w: "wc_wf s" and b: "buffer_wf s" and c: "complete s bytes = Inr s'"
  shows "wc_wf s' \<and> buffer_wf s'"
proof -
  let ?i = "wc_pending_slot s"
  have i: "?i < Sets * Ways" using w by (simp add: wc_wf_def)
  have lw: "lines_wf (wc_lines s)" using w by (simp add: wc_wf_def)
  have upd: "wc_wf (update_line s ?i f)"
    if "\<And>l. l_address (f l) = l_address l" "\<And>l. l_bytes (f l) = l_bytes l" "\<And>l. l_valid (f l) \<longrightarrow> l_valid l" for f
    using that wc_wf_length [OF w i] by (intro update_line_wf [OF w i]) auto
  have "wc_wf s'"
  proof (cases "wc_pending s = PFill")
    case True
    then have len: "length bytes = LineBytes"
      and pa: "line_of (wc_pending_address s) = wc_pending_address s"
        "setIndex (wc_pending_address s) = ?i div Ways" "find_slot s (wc_pending_address s) = None"
      using c b by (auto simp: complete_def buffer_wf_def split: if_splits)
    have "lines_wf ((wc_lines s)(?i := \<lparr>l_bytes = bytes, l_address = wc_pending_address s,
        l_valid = True, l_dirty = False\<rparr>))"
      using find_slot_None [OF lw pa(3)] len pa by (intro lines_wf_update [OF lw]) (auto simp: line_wf_def)
    then show ?thesis
      using c True w by (auto simp: complete_def wc_wf_def Ways_def split: if_splits)
  next
    case False
    then show ?thesis
      using c w by (cases "wc_pending s") (auto simp: complete_def intro!: upd split: if_splits)
  qed
  moreover have "buffer_wf s'"
    using c b by (cases "wc_pending s") (auto simp: complete_def buffer_wf_def split: if_splits)
  ultimately show ?thesis by simp
qed

section \<open>Reachable caches\<close>

text \<open>The public operations in any order and with any arguments; a call that throws
  leaves the object as it was.\<close>

inductive cache_step :: "wcache \<Rightarrow> wcache \<Rightarrow> bool" where
  step_configure: "configure s b z = Inr s' \<Longrightarrow> cache_step s s'"
| step_addRegion: "addRegion s b z = Inr s' \<Longrightarrow> cache_step s s'"
| step_reset: "wc_reset s = Inr s' \<Longrightarrow> cache_step s s'"
| step_access: "access s a n w bs = Inr s' \<Longrightarrow> cache_step s s'"
| step_movec: "movec s reg v = Inr s' \<Longrightarrow> cache_step s s'"
| step_push: "push s ins a = Inr s' \<Longrightarrow> cache_step s s'"
| step_next: "next_action s = Inr (s', act) \<Longrightarrow> cache_step s s'"
| step_complete: "complete s bs = Inr s' \<Longrightarrow> cache_step s s'"

inductive cache_reachable :: "wcache \<Rightarrow> bool" where
  reach_init: "cache_reachable wc_init"
| reach_step: "cache_reachable s \<Longrightarrow> cache_step s s' \<Longrightarrow> cache_reachable s'"

lemma start_buffer: "start s = Inr s' \<Longrightarrow> buffer_wf s'"
  by (auto simp: start_def buffer_wf_def split: if_splits)

lemma access_buffer: "access s a n w bs = Inr s' \<Longrightarrow> buffer_wf s'"
  by (auto simp: access_def start_def buffer_wf_def split: if_splits option.splits)

lemma buffer_wf_same:
  "buffer_wf s \<Longrightarrow> wc_bytes t = wc_bytes s \<Longrightarrow> wc_count t = wc_count s \<Longrightarrow> wc_offset t = wc_offset s \<Longrightarrow>
   wc_pending t = wc_pending s \<Longrightarrow> wc_pending_size t = wc_pending_size s \<Longrightarrow>
   wc_pending_address t = wc_pending_address s \<Longrightarrow> wc_pending_slot t = wc_pending_slot s \<Longrightarrow>
   wc_lines t = wc_lines s \<Longrightarrow> buffer_wf t"
  using find_slot_cong [of t s] by (simp add: buffer_wf_def)

lemma movec_buffer:
  assumes "movec s reg v = Inr s'"
  shows "buffer_wf s'"
  using assms
proof (cases rule: movec_InrE)
  case (cacr s1)
  then have "wc_pending s1 = PNone" by (auto simp: start_def split: if_splits)
  then show ?thesis
    using start_buffer [OF cacr(3)] cacr(4) by (auto simp: buffer_wf_def discard_lines_def)
next
  case (acr s1)
  then show ?thesis
    using buffer_wf_same [OF start_buffer [OF acr(4)], of s'] by simp
qed

lemma push_buffer: "push s ins a = Inr s' \<Longrightarrow> buffer_wf s'"
  by (auto simp: push_def res_bind_Inr_iff start_def buffer_wf_def split: if_splits)

lemma cache_step_wf:
  assumes "cache_step s s'" "wc_wf s \<and> buffer_wf s"
  shows "wc_wf s' \<and> buffer_wf s'"
  using assms
proof (cases rule: cache_step.cases)
  case (step_configure b z)
  then show ?thesis
    using configure_wf assms(2) buffer_wf_same [of s s']
    by (auto simp: configure_def addRegion_def split: if_splits)
next
  case (step_addRegion b z)
  then show ?thesis
    using addRegion_wf assms(2) buffer_wf_same [of s s'] by (auto simp: addRegion_def split: if_splits)
next
  case step_reset
  then show ?thesis
    using reset_wf assms(2) buffer_wf_same [of s s'] by (auto simp: wc_reset_def split: if_splits)
next
  case (step_access a n w bs)
  then show ?thesis using assms(2) access_wf access_buffer by blast
next
  case (step_movec reg v)
  then show ?thesis using assms(2) movec_wf movec_buffer by blast
next
  case (step_push ins a)
  then show ?thesis using assms(2) push_wf push_buffer by blast
next
  case (step_next act)
  then show ?thesis using assms(2) next_action_wf by blast
next
  case (step_complete bs)
  then show ?thesis using assms(2) complete_wf by blast
qed

text \<open>C5. Whatever sequence of operations a cache has gone through, its lines are
  sixteen bytes each, a valid line sits in the set of its address, no address is
  cached twice, the replacement counter and the pending slot index the arrays, the
  regions are aligned, within 32 bits and pairwise disjoint, and the running
  transaction stays within its request buffer.\<close>

theorem cache_reachable_wf:
  assumes "cache_reachable s"
  shows "wc_wf s \<and> buffer_wf s"
  using assms
proof (induction rule: cache_reachable.induct)
  case reach_init
  then show ?case
    using wc_wf_init by (simp add: buffer_wf_def wc_init_def)
next
  case (reach_step s s')
  then show ?case using cache_step_wf by blast
qed

text \<open>A cache over one window at \<open>0x40000000\<close>, as the concrete instance.\<close>

definition sample_cache :: wcache where
  "sample_cache = wc_init\<lparr>wc_regions := [(0x40000000, 0x10000)]\<rparr>"

lemma sample_cache_configured: "configure wc_init 0x40000000 0x10000 = Inr sample_cache"
  by (simp add: configure_def addRegion_def region_rejected_def LineBytes_def sample_cache_def wc_init_def)

theorem cache_reachable_wf_witness: "cache_reachable sample_cache \<and> wc_wf sample_cache \<and> buffer_wf sample_cache"
proof -
  have "cache_reachable sample_cache"
    by (rule reach_step [OF reach_init step_configure [OF sample_cache_configured]])
  then show ?thesis using cache_reachable_wf [of sample_cache] by blast
qed

end
