(* ===== verification/Quetz_Window_Cache_Refine.thy ===== *)
theory Quetz_Window_Cache_Refine
  imports Quetz_Window_Cache
begin

text \<open>
  Refinement of the window cache: together with its backing memory the cache
  behaves like the flat byte memory \<open>view\<close>, as long as the guest keeps to the
  access modes (no line is cached at a bypassed address, dirty lines only at
  copyback addresses). The interface of the backing memory is the locale
  \<open>line_memory\<close>, which only promises accesses within one 16-byte line.
\<close>

section \<open>Lines and addresses\<close>

lemma line_of_within:
  assumes "unat a mod 16 + n \<le> 16" "k < n"
  shows "line_of (a + of_nat k) = line_of a"
    and "unat (a + of_nat k) mod 16 = unat a mod 16 + k"
    and "unat (a + of_nat k) = unat a + k"
proof -
  have d: "unat a = 16 * (unat a div 16) + unat a mod 16" by simp
  have "unat a div 16 < 1152921504606846976" using unat_less_64 [of a] by simp
  then have "unat a + k < 18446744073709551616" using d assms by linarith
  then have "unat a + k < 2 ^ 64" by simp
  then show u: "unat (a + of_nat k) = unat a + k" by (rule unat_add_of_nat_64)
  have "(x + k) div 16 = x div 16 \<and> (x + k) mod 16 = x mod 16 + k" if "x mod 16 + k < 16" for x :: nat
  proof -
    have "(16 * q + r + k) div 16 = q \<and> (16 * q + r + k) mod 16 = r + k" if "r + k < 16" for q r :: nat
      using that by (simp add: add.assoc)
    from this [of "x mod 16" "x div 16"] show ?thesis using that by simp
  qed
  then have "(unat a + k) div 16 = unat a div 16" "(unat a + k) mod 16 = unat a mod 16 + k"
    using assms by simp_all
  then show "line_of (a + of_nat k) = line_of a" "unat (a + of_nat k) mod 16 = unat a mod 16 + k"
    using u by (simp_all add: word_unat_eq_iff line_of_unat)
qed

lemma line_of_base:
  assumes "line_of a = a"
  shows "unat a mod 16 = 0"
  using assms line_of_unat [of a] by (metis mod_mult_self1_is_0)

lemma line_of_offset: "line_of a + of_nat (unat a mod 16) = a"
  proof -
  have "of_nat (unat (a - line_of a)) = a - line_of a" by simp
  then show ?thesis unfolding in_line_unat by simp
qed

text \<open>A write inside one line, seen line by line.\<close>

lemma mem_write_line:
  assumes "unat a mod 16 + length bs \<le> 16"
  shows "mem_write m a bs x =
    (if line_of x = line_of a \<and> unat a mod 16 \<le> unat x mod 16 \<and> unat x mod 16 < unat a mod 16 + length bs
     then bs ! (unat x mod 16 - unat a mod 16) else m x)"
proof (cases "unat (x - a) < length bs")
  case True
  let ?k = "unat (x - a)"
  have "x = a + of_nat ?k" by simp
  then have "line_of x = line_of a" "unat x mod 16 = unat a mod 16 + ?k"
    using line_of_within(1,2) [OF assms True] by simp_all
  then show ?thesis using True by (simp add: mem_write_def)
next
  case False
  have "\<not> (line_of x = line_of a \<and> unat a mod 16 \<le> unat x mod 16 \<and> unat x mod 16 < unat a mod 16 + length bs)"
  proof
    assume h: "line_of x = line_of a \<and> unat a mod 16 \<le> unat x mod 16 \<and> unat x mod 16 < unat a mod 16 + length bs"
    then have "unat x div 16 = unat a div 16"
      by (metis line_of_unat mult_cancel1 zero_neq_numeral)
    then have "unat x = unat a + (unat x mod 16 - unat a mod 16)"
      using h by (metis add.assoc add_diff_cancel_left' le_add_diff_inverse mult_div_mod_eq)
    then have "unat (x - a) = unat x mod 16 - unat a mod 16"
      by (metis add_diff_cancel_left' le_add1 unat_sub word_le_nat_alt)
    then show False using False h by linarith
  qed
  then show ?thesis using False by (auto simp: mem_write_def)
qed

lemma drop_bit_line_of: "4 \<le> n \<Longrightarrow> drop_bit n (line_of a) = drop_bit n a"
proof -
  assume "4 \<le> n"
  then have p: "(2::nat) ^ n = 16 * 2 ^ (n - 4)"
    using power_add [of "2::nat" 4 "n - 4"] by simp
  show ?thesis
    unfolding word_unat_eq_iff drop_bit_unat line_of_unat p div_mult2_eq by simp
qed

lemma acr_match_line_of: "acr_match acr (line_of a) = acr_match acr a"
  by (simp add: acr_match_def drop_bit_line_of)

lemma mode_line_of: "mode s (line_of a) = mode s a"
proof -
  have "mode_acrs rs (line_of a) = mode_acrs rs a" for rs
    by (induction rs) (simp_all add: acr_match_line_of Let_def)
  then show ?thesis by (simp add: mode_def)
qed

section \<open>The memory a client sees\<close>

definition view :: "wcache \<Rightarrow> mem \<Rightarrow> mem" where
  "view s m a = (case find_slot s (line_of a) of
     None \<Rightarrow> m a
   | Some i \<Rightarrow> l_bytes (wc_lines s i) ! unat (a - line_of a))"

text \<open>Clean lines agree with the memory; a line is only cached at an address with a
  caching mode, and only dirty at an address with the copyback mode.\<close>

definition clean_agree :: "wcache \<Rightarrow> mem \<Rightarrow> bool" where
  "clean_agree s m \<longleftrightarrow> (\<forall>i < Sets * Ways. l_valid (wc_lines s i) \<and> \<not> l_dirty (wc_lines s i) \<longrightarrow>
     l_bytes (wc_lines s i) = mem_read m (l_address (wc_lines s i)) LineBytes)"

definition modes_kept :: "wcache \<Rightarrow> bool" where
  "modes_kept s \<longleftrightarrow> (\<forall>i < Sets * Ways. l_valid (wc_lines s i) \<longrightarrow>
     mode s (l_address (wc_lines s i)) < 2 \<and>
     (l_dirty (wc_lines s i) \<longrightarrow> mode s (l_address (wc_lines s i)) = 1))"

definition coherent :: "wcache \<Rightarrow> mem \<Rightarrow> bool" where
  "coherent s m \<longleftrightarrow> wc_wf s \<and> clean_agree s m \<and> modes_kept s"

lemma coherent_lines: "coherent s m \<Longrightarrow> lines_wf (wc_lines s)"
  by (simp add: coherent_def wc_wf_def)

lemma view_cases:
  assumes "lines_wf (wc_lines s)"
  obtains (miss) "find_slot s (line_of x) = None" "view s m x = m x"
      "\<And>i. i < Sets * Ways \<Longrightarrow> l_valid (wc_lines s i) \<Longrightarrow> l_address (wc_lines s i) \<noteq> line_of x"
  | (hit) i where "find_slot s (line_of x) = Some i" "i < Sets * Ways" "l_valid (wc_lines s i)"
      "l_address (wc_lines s i) = line_of x" "view s m x = l_bytes (wc_lines s i) ! (unat x mod 16)"
proof (cases rule: find_slot_cases [of s "line_of x"])
  case miss
  then show ?thesis
    using that(1) find_slot_None [OF assms miss] by (simp add: view_def)
next
  case (hit i)
  then show ?thesis
    using that(2) [of i] by (simp add: view_def in_line_unat)
qed

lemma view_hit:
  assumes "lines_wf (wc_lines s)" "i < Sets * Ways" "l_valid (wc_lines s i)" "l_address (wc_lines s i) = line_of x"
  shows "view s m x = l_bytes (wc_lines s i) ! (unat x mod 16)"
  using find_slot_Some [OF assms(1-3)] assms(4) by (simp add: view_def in_line_unat)

lemma view_miss:
  assumes "\<And>i. i < Sets * Ways \<Longrightarrow> l_valid (wc_lines s i) \<Longrightarrow> l_address (wc_lines s i) \<noteq> line_of x"
  shows "view s m x = m x"
  using assms by (cases rule: find_slot_cases [of s "line_of x"]) (auto simp: view_def)

lemma view_cong: "wc_lines s = wc_lines t \<Longrightarrow> view s m = view t m"
  using find_slot_cong [of s t] by (intro ext) (simp only: view_def)

lemma coherent_cong:
  assumes "wc_lines s = wc_lines t" "wc_cacr s = wc_cacr t" "wc_acr s = wc_acr t" "wc_wf s = wc_wf t"
  shows "coherent s m = coherent t m"
  using assms mode_cong [OF assms(2,3)] by (simp add: coherent_def clean_agree_def modes_kept_def)

text \<open>A clean line reads like the memory under it.\<close>

lemma clean_line_nth:
  assumes "clean_agree s m" "i < Sets * Ways" "l_valid (wc_lines s i)" "\<not> l_dirty (wc_lines s i)"
    "l_address (wc_lines s i) = line_of x"
  shows "l_bytes (wc_lines s i) ! (unat x mod 16) = m x"
proof -
  have "l_bytes (wc_lines s i) = mem_read m (line_of x) LineBytes"
    using assms by (auto simp: clean_agree_def)
  then show ?thesis
    by (simp add: LineBytes_def line_of_offset)
qed

text \<open>A write to the memory that stays in a line no valid slot holds keeps the clean
  lines clean.\<close>

lemma mem_write_other_line:
  assumes "unat a mod 16 + length bs \<le> 16" "line_of la = la" "la \<noteq> line_of a"
  shows "mem_read (mem_write m a bs) la LineBytes = mem_read m la LineBytes"
proof -
  have "line_of (la + of_nat k) = la" if "k < 16" for k
    using line_of_within(1) [of la 16 k] line_of_base [OF assms(2)] that assms(2) by simp
  then show ?thesis
    using assms by (simp add: mem_read_eq_iff LineBytes_def mem_write_line)
qed

text \<open>Pointwise description of a line update: slot \<open>i\<close> holds \<open>l\<close>, the others are as before.\<close>

lemma view_update:
  assumes w: "lines_wf (wc_lines s)" and w': "lines_wf (wc_lines t)" and i: "i < Sets * Ways"
    and t: "wc_lines t = (wc_lines s)(i := l)"
    and new: "\<And>x. l_valid l \<Longrightarrow> l_address l = line_of x \<Longrightarrow> l_bytes l ! (unat x mod 16) = v x"
    and gone: "\<And>x. l_valid (wc_lines s i) \<Longrightarrow> l_address (wc_lines s i) = line_of x \<Longrightarrow>
        (l_valid l \<longrightarrow> l_address l \<noteq> line_of x) \<Longrightarrow> q x = v x"
    and keep: "\<And>x j. j < Sets * Ways \<Longrightarrow> j \<noteq> i \<Longrightarrow> l_valid (wc_lines s j) \<Longrightarrow>
        l_address (wc_lines s j) = line_of x \<Longrightarrow> l_bytes (wc_lines s j) ! (unat x mod 16) = v x"
    and out: "\<And>x. (\<And>j. j < Sets * Ways \<Longrightarrow> l_valid (wc_lines s j) \<Longrightarrow> l_address (wc_lines s j) \<noteq> line_of x) \<Longrightarrow>
        (l_valid l \<longrightarrow> l_address l \<noteq> line_of x) \<Longrightarrow> q x = v x"
  shows "view t q = v"
proof
  fix x
  show "view t q x = v x"
    using w'
  proof (cases rule: view_cases [of t x q])
    case (hit j)
    then show ?thesis using new keep t by (cases "j = i") auto
  next
    case miss
    have nl: "l_valid l \<longrightarrow> l_address l \<noteq> line_of x"
      using miss(3) [OF i] t by auto
    have no: "l_address (wc_lines s j) \<noteq> line_of x" if "j < Sets * Ways" "j \<noteq> i" "l_valid (wc_lines s j)" for j
      using miss(3) [OF that(1)] t that by auto
    show ?thesis
    proof (cases "l_valid (wc_lines s i) \<and> l_address (wc_lines s i) = line_of x")
      case True
      then show ?thesis using gone nl miss(2) by simp
    next
      case False
      then have "l_address (wc_lines s j) \<noteq> line_of x" if "j < Sets * Ways" "l_valid (wc_lines s j)" for j
        using no that by (cases "j = i") auto
      then show ?thesis using out nl miss(2) by simp
    qed
  qed
qed

section \<open>The outcomes of one loop iteration\<close>

text \<open>A well-formed access in progress.\<close>

definition accessing :: "wcache \<Rightarrow> bool" where
  "accessing s \<longleftrightarrow> wc_active s \<and> wc_pending s = PNone \<and> \<not> wc_pushing s \<and>
     length (wc_bytes s) = wc_count s \<and> wc_offset s \<le> wc_count s \<and> wc_count s \<le> 8"

text \<open>\<open>advances s p t q d\<close>: from cache \<open>s\<close> and memory \<open>p\<close> the access moved on by \<open>d\<close> bytes
  to \<open>t\<close> and \<open>q\<close>, and the seen memory changed by exactly those bytes.\<close>

definition advances :: "wcache \<Rightarrow> mem \<Rightarrow> wcache \<Rightarrow> mem \<Rightarrow> nat \<Rightarrow> bool" where
  "advances s p t q d \<longleftrightarrow> accessing s \<and>
     coherent t q \<and> accessing t \<and> wc_address t = wc_address s \<and> wc_count t = wc_count s \<and>
     wc_write t = wc_write s \<and> wc_offset t = wc_offset s + d \<and>
     wc_regions t = wc_regions s \<and> wc_cacr t = wc_cacr s \<and> wc_acr t = wc_acr s \<and>
     wc_dirty_discards t = wc_dirty_discards s \<and>
     (if wc_write s
      then wc_bytes t = wc_bytes s \<and>
        view t q = mem_write (view s p) (cur_addr s) (vec_slice (wc_bytes s) (wc_offset s) d)
      else view t q = view s p \<and>
        wc_bytes t = copy_into (wc_bytes s) (wc_offset s) (mem_read (view s p) (cur_addr s) d))"

lemma advances_refl: "coherent s p \<Longrightarrow> accessing s \<Longrightarrow> advances s p s p 0"
  by (simp add: advances_def mem_read_def)

lemma advances_trans:
  assumes st: "advances s p t q d" and tu: "advances t q u r e"
  shows "advances s p u r (d + e)"
proof -
  have ca: "cur_addr t = cur_addr s + of_nat d"
    using st by (simp add: advances_def cur_addr_def)
  have len: "wc_offset s + d + e \<le> length (wc_bytes s)" "length (wc_bytes s) \<le> 8"
    using st tu by (auto simp: advances_def accessing_def)
  have l1: "length (vec_slice (wc_bytes s) (wc_offset s) d) = d"
    and l2: "length (vec_slice (wc_bytes s) (wc_offset s + d) e) = e"
    using len by auto
  show ?thesis
  proof (cases "wc_write s")
    case True
    have "mem_write (mem_write (view s p) (cur_addr s) (vec_slice (wc_bytes s) (wc_offset s) d))
        (cur_addr s + of_nat d) (vec_slice (wc_bytes s) (wc_offset s + d) e) =
      mem_write (view s p) (cur_addr s) (vec_slice (wc_bytes s) (wc_offset s) (d + e))"
      using mem_write_append [of "vec_slice (wc_bytes s) (wc_offset s) d"
          "vec_slice (wc_bytes s) (wc_offset s + d) e" "view s p" "cur_addr s"] len
      unfolding l1 l2 by (simp add: vec_slice_append)
    then show ?thesis using st tu True ca by (simp add: advances_def add.assoc)
  next
    case False
    have "copy_into (copy_into (wc_bytes s) (wc_offset s) (mem_read (view s p) (cur_addr s) d))
        (wc_offset s + d) (mem_read (view s p) (cur_addr s + of_nat d) e) =
      copy_into (wc_bytes s) (wc_offset s) (mem_read (view s p) (cur_addr s) (d + e))"
      using copy_into_append [of "wc_offset s" "mem_read (view s p) (cur_addr s) d"
          "mem_read (view s p) (cur_addr s + of_nat d) e" "wc_bytes s"] len
      by (simp add: mem_read_add)
    then show ?thesis using st tu False ca by (simp add: advances_def add.assoc)
  qed
qed

lemma length_payload: "accessing s \<Longrightarrow> length (cur_payload s) = cur_size s"
  using cur_size_fits [of s] by (auto simp: accessing_def cur_payload_def)

lemma cur_span: "accessing s \<Longrightarrow> unat (cur_addr s) mod 16 + length (cur_payload s) \<le> 16"
  using cur_size_in_line [of s] by (simp add: length_payload)

lemma line_length:
  "coherent s p \<Longrightarrow> i < Sets * Ways \<Longrightarrow> length (l_bytes (wc_lines s i)) = 16"
  using wc_wf_length [of s i] by (simp add: coherent_def LineBytes_def)

lemma line_aligned:
  "coherent s p \<Longrightarrow> i < Sets * Ways \<Longrightarrow> l_valid (wc_lines s i) \<Longrightarrow>
    line_of (l_address (wc_lines s i)) = l_address (wc_lines s i)"
  by (simp add: coherent_def wc_wf_def lines_wf_def line_wf_def)

lemma bypass_miss:
  assumes "coherent s p" "bypasses s"
  shows "find_slot s (line_of (cur_addr s)) = None"
proof (cases rule: find_slot_cases [of s "line_of (cur_addr s)"])
  case (hit i)
  then have "mode s (cur_addr s) < 2"
    using assms(1) mode_line_of [of s "cur_addr s"] by (auto simp: coherent_def modes_kept_def)
  then show ?thesis using assms(2) hit(1) by (auto simp: bypasses_def)
qed simp

text \<open>A write to the memory under no cached line.\<close>

lemma uncached_write:
  assumes c: "coherent s p" and f: "find_slot s (line_of a) = None" and sp: "unat a mod 16 + length bs \<le> 16"
  shows "clean_agree s (mem_write p a bs)" and "view s (mem_write p a bs) = mem_write (view s p) a bs"
proof -
  note lw = coherent_lines [OF c]
  note ne = find_slot_None [OF lw f]
  show "clean_agree s (mem_write p a bs)"
    using c ne line_aligned [OF c] mem_write_other_line [OF sp]
    by (auto simp: coherent_def clean_agree_def)
  show "view s (mem_write p a bs) = mem_write (view s p) a bs"
  proof
    fix x
    show "view s (mem_write p a bs) x = mem_write (view s p) a bs x"
      using lw
    proof (cases rule: view_cases [of s x p])
      case miss
      then show ?thesis
        using view_miss [of s x] by (simp add: mem_write_line [OF sp])
    next
      case (hit i)
      then have "line_of x \<noteq> line_of a" using ne by auto
      then show ?thesis
        using hit view_hit [OF lw hit(2-4)] by (simp add: mem_write_line [OF sp])
    qed
  qed
qed

lemma bypass_write_advances:
  assumes c: "coherent s p" and a: "accessing s" and b: "bypasses s" and w: "wc_write s"
  shows "advances s p ((prep s)\<lparr>wc_pending := PNone, wc_offset := wc_offset s + cur_size s\<rparr>)
    (mem_write p (cur_addr s) (cur_payload s)) (cur_size s)" (is "advances s p ?t ?q _")
proof -
  note u = uncached_write [OF c bypass_miss [OF c b] cur_span [OF a]]
  have v: "view ?t = view s" by (intro ext) (simp add: view_cong [of ?t s])
  have "coherent s ?q" using c u(1) by (simp add: coherent_def)
  then have "coherent ?t ?q" by (subst coherent_cong [of ?t s]) simp_all
  then show ?thesis
    using a w u(2) v cur_size_fits [of s] by (simp add: advances_def accessing_def cur_payload_def)
qed

lemma bypass_read_advances:
  assumes c: "coherent s p" and a: "accessing s" and b: "bypasses s" and w: "\<not> wc_write s"
  shows "advances s p ((prep s)\<lparr>wc_pending := PNone,
      wc_bytes := copy_into (wc_bytes s) (wc_offset s) (mem_read p (cur_addr s) (cur_size s)),
      wc_offset := wc_offset s + cur_size s\<rparr>) p (cur_size s)" (is "advances s p ?t _ _")
proof -
  have v: "view ?t = view s" by (intro ext) (simp add: view_cong [of ?t s])
  have m: "view s p (cur_addr s + of_nat k) = p (cur_addr s + of_nat k)" if "k < cur_size s" for k
    using bypass_miss [OF c b] line_of_within(1) [OF cur_size_in_line that] by (simp add: view_def)
  have r: "mem_read (view s p) (cur_addr s) (cur_size s) = mem_read p (cur_addr s) (cur_size s)"
    by (simp add: mem_read_eq_iff m)
  have "coherent ?t p" using c by (subst coherent_cong [of ?t s]) simp_all
  then show ?thesis
    using a w v r cur_size_fits [of s] by (simp add: advances_def accessing_def)
qed

lemma coherent_clean_agree: "coherent s p \<Longrightarrow> clean_agree s p"
  and coherent_wf: "coherent s p \<Longrightarrow> wc_wf s"
  and coherent_modes: "coherent s p \<Longrightarrow> modes_kept s"
  by (simp_all add: coherent_def)

text \<open>Writing a line back: the memory takes the bytes of slot \<open>i\<close>, whose line may then be
  dropped or kept clean.\<close>

lemma write_back:
  assumes c: "coherent s p" and i: "i < Sets * Ways" and vd: "l_valid (wc_lines s i)"
    and t: "wc_lines t = (wc_lines s)(i := l)" and l: "l_bytes l = l_bytes (wc_lines s i)"
      "l_address l = l_address (wc_lines s i)" "\<not> l_dirty l"
    and wt: "wc_wf t" and m: "wc_cacr t = wc_cacr s" "wc_acr t = wc_acr s"
  shows "coherent t (mem_write p (l_address (wc_lines s i)) (l_bytes (wc_lines s i)))" (is "coherent t ?q")
    and "view t (mem_write p (l_address (wc_lines s i)) (l_bytes (wc_lines s i))) = view s p"
proof -
  let ?L = "wc_lines s i"
  note lw = coherent_lines [OF c]
  have wlt: "lines_wf (wc_lines t)" using wt by (simp add: wc_wf_def)
  have al: "line_of (l_address ?L) = l_address ?L" by (rule line_aligned [OF c i vd])
  note len = line_length [OF c i]
  have sp: "unat (l_address ?L) mod 16 + length (l_bytes ?L) \<le> 16"
    using line_of_base [OF al] len by simp
  have other: "l_address (wc_lines s j) \<noteq> line_of (l_address ?L)"
    if "j < Sets * Ways" "j \<noteq> i" "l_valid (wc_lines s j)" for j
    using lines_wf_unique [OF lw that(1) i that(3) vd] that(2) al by auto
  have q: "?q x = (if line_of x = l_address ?L then l_bytes ?L ! (unat x mod 16) else p x)" for x
    using mem_write_line [OF sp, of p x] line_of_base [OF al] len al by simp
  have same: "mem_read ?q (l_address ?L) LineBytes = l_bytes ?L"
    using mem_read_write_same [of "l_bytes ?L" p "l_address ?L"] len by (simp add: LineBytes_def)
  have "clean_agree t ?q"
    using coherent_clean_agree [OF c] mem_write_other_line [OF sp] other line_aligned [OF c] same l
    unfolding clean_agree_def t by (auto simp: al)
  moreover have "modes_kept t"
    using coherent_modes [OF c] vd l mode_cong [OF m] unfolding modes_kept_def t by auto
  ultimately show "coherent t ?q" using wt by (simp add: coherent_def)
  show "view t ?q = view s p"
  proof (rule view_update [OF lw wlt i t])
    show "l_bytes l ! (unat x mod 16) = view s p x" if "l_valid l" "l_address l = line_of x" for x
      using view_hit [OF lw i vd] that l by simp
    show "?q x = view s p x" if "l_valid ?L" "l_address ?L = line_of x" for x
      using view_hit [OF lw i vd] that q by simp
    show "l_bytes (wc_lines s j) ! (unat x mod 16) = view s p x"
      if "j < Sets * Ways" "l_valid (wc_lines s j)" "l_address (wc_lines s j) = line_of x" for x j
      using view_hit [OF lw that] by simp
    show "?q x = view s p x"
      if "\<And>j. j < Sets * Ways \<Longrightarrow> l_valid (wc_lines s j) \<Longrightarrow> l_address (wc_lines s j) \<noteq> line_of x" for x
      using view_miss [OF that] q that [OF i vd] by auto
  qed
qed

lemma evict_advances:
  assumes c: "coherent s p" and a: "accessing s" and i: "i < Sets * Ways" and vd: "l_valid (wc_lines s i)"
  shows "advances s p ((update_line ((prep s)\<lparr>wc_pending_slot := i\<rparr>) i
      (\<lambda>l. l\<lparr>l_valid := False, l_dirty := False\<rparr>))\<lparr>wc_pending := PNone\<rparr>)
    (mem_write p (l_address (wc_lines s i)) (l_bytes (wc_lines s i))) 0" (is "advances s p ?t ?q 0")
proof -
  have "wc_wf (update_line ((prep s)\<lparr>wc_pending_slot := i\<rparr>) i (\<lambda>l. l\<lparr>l_valid := False, l_dirty := False\<rparr>))"
    using wc_wf_set_slot [of "prep s" i] coherent_wf [OF c] i line_length [OF c i]
    by (intro update_line_wf) (auto simp: LineBytes_def)
  then have wt: "wc_wf ?t" by simp
  note wb = write_back [OF c i vd, of ?t, OF _ _ _ _ wt]
  show ?thesis
    using a wb by (simp add: advances_def accessing_def mem_read_def)
qed

lemma fill_advances:
  assumes c: "coherent s p" and a: "accessing s" and f: "find_slot s (line_of (cur_addr s)) = None"
    and nb: "\<not> bypasses s" and nd: "\<not> (l_valid (wc_lines s (cur_victim s)) \<and> l_dirty (wc_lines s (cur_victim s)))"
  shows "advances s p ((prep s)\<lparr>wc_pending_slot := cur_victim s,
      wc_lines := (wc_lines s)(cur_victim s :=
         \<lparr>l_bytes = mem_read p (line_of (cur_addr s)) 16, l_address = line_of (cur_addr s),
          l_valid = True, l_dirty = False\<rparr>),
      wc_replacement := (wc_replacement s + 1) mod Ways, wc_pending := PNone\<rparr>) p 0" (is "advances s p ?t p 0")
proof -
  let ?i = "cur_victim s" and ?la = "line_of (cur_addr s)"
  let ?l = "\<lparr>l_bytes = mem_read p ?la 16, l_address = ?la, l_valid = True, l_dirty = False\<rparr>"
  note lw = coherent_lines [OF c] and vs = wc_wf_cur_victim [OF coherent_wf [OF c]]
  have i: "?i < Sets * Ways" using vs by simp
  note no = find_slot_None [OF lw f]
  have wlt: "lines_wf ((wc_lines s)(?i := ?l))"
    using no vs by (intro lines_wf_update [OF lw]) (auto simp: line_wf_def LineBytes_def)
  have wt: "wc_wf ?t"
    using coherent_wf [OF c] wlt i by (simp add: wc_wf_def Ways_def)
  have mt: "mode ?t = mode s" by (rule mode_cong) simp_all
  have "mode s ?la < 2"
    using nb mode_line_of [of s "cur_addr s"] by (auto simp: bypasses_def not_le)
  then have "modes_kept ?t"
    using coherent_modes [OF c] unfolding modes_kept_def mt by auto
  moreover have "clean_agree ?t p"
    using coherent_clean_agree [OF c] by (auto simp: clean_agree_def LineBytes_def)
  ultimately have ct: "coherent ?t p" using wt by (simp add: coherent_def)
  have "view ?t p = view s p"
  proof (rule view_update [OF lw _ i])
    show "lines_wf (wc_lines ?t)" "wc_lines ?t = (wc_lines s)(?i := ?l)" using wlt by simp_all
    show "l_bytes ?l ! (unat x mod 16) = view s p x" if "l_address ?l = line_of x" for x
      using that no view_miss [of s x p] by (simp add: line_of_offset)
    show "p x = view s p x" if "l_valid (wc_lines s ?i)" "l_address (wc_lines s ?i) = line_of x" for x
      using view_hit [OF lw i that] clean_line_nth [OF coherent_clean_agree [OF c] i that(1) _ that(2)] nd that
      by simp
    show "l_bytes (wc_lines s j) ! (unat x mod 16) = view s p x"
      if "j < Sets * Ways" "l_valid (wc_lines s j)" "l_address (wc_lines s j) = line_of x" for x j
      using view_hit [OF lw that] by simp
    show "p x = view s p x"
      if "\<And>j. j < Sets * Ways \<Longrightarrow> l_valid (wc_lines s j) \<Longrightarrow> l_address (wc_lines s j) \<noteq> line_of x" for x
      using view_miss [OF that] by simp
  qed
  then show ?thesis using a ct by (simp add: advances_def accessing_def mem_read_def)
qed

text \<open>Writing into a cached line, with or without the same write to the memory.\<close>

lemma line_write_view:
  assumes c: "coherent s p" and i: "i < Sets * Ways" "l_valid (wc_lines s i)" "l_address (wc_lines s i) = line_of a"
    and sp: "unat a mod 16 + length bs \<le> 16"
    and t: "wc_lines t = (wc_lines s)(i := l)" "lines_wf (wc_lines t)"
    and l: "l_bytes l = copy_into (l_bytes (wc_lines s i)) (unat a mod 16) bs" "l_valid l"
      "l_address l = l_address (wc_lines s i)"
    and q: "q = p \<or> q = mem_write p a bs"
  shows "view t q = mem_write (view s p) a bs"
proof (rule view_update [OF coherent_lines [OF c] t(2) i(1) t(1)])
  note lw = coherent_lines [OF c]
  have far: "line_of x \<noteq> line_of a"
    if "j < Sets * Ways" "j \<noteq> i" "l_valid (wc_lines s j)" "l_address (wc_lines s j) = line_of x" for x j
    using lines_wf_unique [OF lw that(1) i(1) that(3) i(2)] that i(3) by auto
  show "l_bytes l ! (unat x mod 16) = mem_write (view s p) a bs x" if "l_address l = line_of x" for x
    using view_hit [OF lw i(1,2), of x p] that l i(3) sp line_length [OF c i(1)]
    by (auto simp: mem_write_line [OF sp] nth_copy_into)
  show "q x = mem_write (view s p) a bs x"
    if "l_address (wc_lines s i) = line_of x" "l_valid l \<longrightarrow> l_address l \<noteq> line_of x" for x
    using that l by simp
  show "l_bytes (wc_lines s j) ! (unat x mod 16) = mem_write (view s p) a bs x"
    if "j < Sets * Ways" "j \<noteq> i" "l_valid (wc_lines s j)" "l_address (wc_lines s j) = line_of x" for x j
    using view_hit [OF lw that(1,3,4)] far [OF that] by (simp add: mem_write_line [OF sp])
  show "q x = mem_write (view s p) a bs x"
    if "\<And>j. j < Sets * Ways \<Longrightarrow> l_valid (wc_lines s j) \<Longrightarrow> l_address (wc_lines s j) \<noteq> line_of x" for x
  proof -
    have "line_of x \<noteq> line_of a" using that [OF i(1,2)] i(3) by simp
    then show ?thesis using q view_miss [OF that] by (auto simp: mem_write_line [OF sp])
  qed
qed

lemma write_hit_lines:
  assumes c: "coherent s p" and i: "i < Sets * Ways" "l_valid (wc_lines s i)"
    and sp: "unat a mod 16 + length bs \<le> 16"
  shows "lines_wf ((wc_lines s)(i := (wc_lines s i)\<lparr>l_bytes := copy_into (l_bytes (wc_lines s i)) (unat a mod 16) bs,
      l_dirty := d\<rparr>))"
  using line_length [OF c i(1)] sp
  by (intro lines_wf_modify [OF coherent_lines [OF c] i(1)]) (auto simp: LineBytes_def)

lemma copyback_hit_advances:
  assumes c: "coherent s p" and a: "accessing s" and f: "find_slot s (line_of (cur_addr s)) = Some i"
    and nb: "\<not> bypasses s" and w: "wc_write s" and m: "mode s (cur_addr s) \<noteq> 0"
  shows "advances s p ((update_line (update_line (prep s) i
       (\<lambda>l. l\<lparr>l_bytes := copy_into (l_bytes l) (unat (cur_addr s) mod 16) (cur_payload s)\<rparr>)) i
         (\<lambda>l. l\<lparr>l_dirty := True\<rparr>))\<lparr>wc_offset := wc_offset s + cur_size s\<rparr>) p (cur_size s)"
    (is "advances s p ?t p _")
  using f
proof (cases rule: find_slot_cases [of s "line_of (cur_addr s)"])
  case (hit j)
  then have i: "i < Sets * Ways" "l_valid (wc_lines s i)" "l_address (wc_lines s i) = line_of (cur_addr s)"
    using f by simp_all
  note sp = cur_span [OF a]
  let ?l = "(wc_lines s i)\<lparr>l_bytes := copy_into (l_bytes (wc_lines s i)) (unat (cur_addr s) mod 16) (cur_payload s),
      l_dirty := True\<rparr>"
  have t: "wc_lines ?t = (wc_lines s)(i := ?l)" by simp
  have lt: "lines_wf (wc_lines ?t)" unfolding t by (rule write_hit_lines [OF c i(1,2) sp])
  have mt: "mode ?t = mode s" by (rule mode_cong) simp_all
  have "mode s (cur_addr s) < 2" using nb by (auto simp: bypasses_def not_le)
  then have "mode s (cur_addr s) = 1" using m by (simp add: word_less_nat_alt word_unat_eq_iff)
  then have "modes_kept ?t"
    using coherent_modes [OF c] i mode_line_of [of s "cur_addr s"] unfolding modes_kept_def mt t by auto
  moreover have "clean_agree ?t p"
    using coherent_clean_agree [OF c] unfolding clean_agree_def t by auto
  moreover have "wc_wf ?t" using coherent_wf [OF c] lt by (simp add: wc_wf_def)
  ultimately have "coherent ?t p" by (simp add: coherent_def)
  moreover have "view ?t p = mem_write (view s p) (cur_addr s) (cur_payload s)"
    by (rule line_write_view [OF c i sp t lt]) (simp_all add: i)
  ultimately show ?thesis
    using a w cur_size_fits [of s] by (simp add: advances_def accessing_def cur_payload_def)
qed (use f in simp)

lemma writethrough_hit_advances:
  assumes c: "coherent s p" and a: "accessing s" and f: "find_slot s (line_of (cur_addr s)) = Some i"
    and w: "wc_write s" and m: "mode s (cur_addr s) = 0"
  shows "advances s p ((update_line ((update_line (prep s) i
       (\<lambda>l. l\<lparr>l_bytes := copy_into (l_bytes l) (unat (cur_addr s) mod 16) (cur_payload s)\<rparr>))
         \<lparr>wc_pending := PWriteThrough, wc_pending_slot := i\<rparr>) i
         (\<lambda>l. l\<lparr>l_dirty := False\<rparr>))\<lparr>wc_offset := wc_offset s + cur_size s, wc_pending := PNone\<rparr>)
     (mem_write p (cur_addr s) (cur_payload s)) (cur_size s)"
    (is "advances s p ?t ?q _")
  using f
proof (cases rule: find_slot_cases [of s "line_of (cur_addr s)"])
  case (hit j)
  then have i: "i < Sets * Ways" "l_valid (wc_lines s i)" "l_address (wc_lines s i) = line_of (cur_addr s)"
    using f by simp_all
  note sp = cur_span [OF a]
  let ?l = "(wc_lines s i)\<lparr>l_bytes := copy_into (l_bytes (wc_lines s i)) (unat (cur_addr s) mod 16) (cur_payload s),
      l_dirty := False\<rparr>"
  have t: "wc_lines ?t = (wc_lines s)(i := ?l)" by simp
  have lt: "lines_wf (wc_lines ?t)" unfolding t by (rule write_hit_lines [OF c i(1,2) sp])
  have mt: "mode ?t = mode s" by (rule mode_cong) simp_all
  have "mode s (line_of (cur_addr s)) = 0" using m by (simp add: mode_line_of)
  then have nd: "\<not> l_dirty (wc_lines s i)"
    using coherent_modes [OF c] i by (auto simp: modes_kept_def)
  have mk: "modes_kept ?t"
    using coherent_modes [OF c] i unfolding modes_kept_def mt t by auto
  have v: "view ?t ?q = mem_write (view s p) (cur_addr s) (cur_payload s)"
    by (rule line_write_view [OF c i sp t lt]) (simp_all add: i)
  have "l_bytes ?l = mem_read ?q (line_of (cur_addr s)) LineBytes"
  proof -
    have al: "line_of (line_of (cur_addr s)) = line_of (cur_addr s)" by simp
    have x: "line_of (line_of (cur_addr s) + of_nat k) = line_of (cur_addr s)"
      "unat (line_of (cur_addr s) + of_nat k) mod 16 = k" if "k < 16" for k
      using line_of_within(1,2) [of "line_of (cur_addr s)" 16 k] line_of_base [OF al] that by simp_all
    have "l_bytes (wc_lines s i) ! k = p (line_of (cur_addr s) + of_nat k)" if "k < 16" for k
      using clean_line_nth [OF coherent_clean_agree [OF c] i(1,2) nd,
          of "line_of (cur_addr s) + of_nat k"] x [OF that] i(3) by simp
    then show ?thesis
      using x sp line_length [OF c i(1)]
      by (simp add: list_eq_iff_nth_eq LineBytes_def mem_write_line [OF sp] nth_copy_into)
  qed
  then have "clean_agree ?t ?q"
    using coherent_clean_agree [OF c] mem_write_other_line [OF sp] line_aligned [OF c] i
      lines_wf_unique [OF coherent_lines [OF c]]
    unfolding clean_agree_def t by (auto; metis)
  moreover have "wc_wf ?t" using coherent_wf [OF c] lt i by (simp add: wc_wf_def)
  ultimately have "coherent ?t ?q" using mk by (simp add: coherent_def)
  then show ?thesis
    using a w v cur_size_fits [of s] by (simp add: advances_def accessing_def cur_payload_def)
qed (use f in simp)

lemma read_hit_advances:
  assumes c: "coherent s p" and a: "accessing s" and f: "find_slot s (line_of (cur_addr s)) = Some i"
    and w: "\<not> wc_write s"
  shows "advances s p ((prep s)\<lparr>wc_bytes := copy_into (wc_bytes s) (wc_offset s)
       (vec_slice (l_bytes (wc_lines s i)) (unat (cur_addr s) mod 16) (cur_size s)),
     wc_offset := wc_offset s + cur_size s\<rparr>) p (cur_size s)" (is "advances s p ?t p _")
  using f
proof (cases rule: find_slot_cases [of s "line_of (cur_addr s)"])
  case (hit j)
  then have i: "i < Sets * Ways" "l_valid (wc_lines s i)" "l_address (wc_lines s i) = line_of (cur_addr s)"
    using f by simp_all
  have v: "view ?t = view s" by (intro ext) (simp add: view_cong [of ?t s])
  have "view s p (cur_addr s + of_nat k) = l_bytes (wc_lines s i) ! (unat (cur_addr s) mod 16 + k)"
    if "k < cur_size s" for k
    using view_hit [OF coherent_lines [OF c] i(1,2), of "cur_addr s + of_nat k"] i(3)
      line_of_within(1,2) [OF cur_size_in_line that] by simp
  then have "mem_read (view s p) (cur_addr s) (cur_size s) =
      vec_slice (l_bytes (wc_lines s i)) (unat (cur_addr s) mod 16) (cur_size s)"
    using line_length [OF c i(1)] cur_size_in_line [of s] by (auto simp: mem_read_eq_iff)
  moreover have "coherent ?t p" using c by (subst coherent_cong [of ?t s]) simp_all
  ultimately show ?thesis
    using a w v cur_size_fits [of s] by (simp add: advances_def accessing_def)
qed (use f in simp)

section \<open>How many backing transactions an access takes\<close>

text \<open>An upper bound on the transactions still to come: two for a line that is not
  cached (victim writeback and fill), one for a bypass or a write-through, and two more
  if the access continues into the next line.\<close>

definition part_cost :: "wcache \<Rightarrow> nat" where
  "part_cost s = (if bypasses s then 1
     else case find_slot s (line_of (cur_addr s)) of
       Some i \<Rightarrow> if wc_write s \<and> mode s (cur_addr s) = 0 then 1 else 0
     | None \<Rightarrow> if l_valid (wc_lines s (cur_victim s)) \<and> l_dirty (wc_lines s (cur_victim s)) then 2 else 1)"

definition cost :: "wcache \<Rightarrow> nat" where
  "cost s = (if wc_offset s < wc_count s
     then part_cost s + (if wc_offset s + cur_size s < wc_count s then 2 else 0) else 0)"

lemma part_cost_le: "part_cost s \<le> 2"
  by (simp add: part_cost_def split: option.split)

lemma cost_le: "cost s \<le> 4"
  using part_cost_le [of s] by (simp add: cost_def)

text \<open>After a finished part the rest of an access of at most eight bytes fits in one line.\<close>

lemma cost_after_part:
  assumes a: "accessing s" and o: "wc_offset s < wc_count s"
    and t: "wc_address t = wc_address s" "wc_count t = wc_count s" "wc_offset t = wc_offset s + cur_size s"
  shows "cost t \<le> (if wc_offset s + cur_size s < wc_count s then 2 else 0)"
proof (cases "wc_offset s + cur_size s < wc_count s")
  case True
  have n: "cur_size s = 16 - unat (cur_addr s) mod 16"
    using True by (auto simp: cur_size_def min_def split: if_splits)
  have "cur_addr t = cur_addr s + of_nat (cur_size s)"
    using t by (simp add: cur_addr_def)
  moreover have "unat (cur_addr s + of_nat (cur_size s)) mod 16 = (unat (cur_addr s) + cur_size s) mod 16"
  proof -
    have "cur_size s \<le> 16" by (simp add: cur_size_def)
    then show ?thesis by (simp add: unat_word_ariths unat_of_nat mod_mod_cancel)
  qed
  moreover have "unat (cur_addr s) + cur_size s = 16 * (unat (cur_addr s) div 16) + 16"
    unfolding n using mult_div_mod_eq [of 16 "unat (cur_addr s)"] mod_less_divisor [of 16 "unat (cur_addr s)"]
    by linarith
  ultimately have "unat (cur_addr t) mod 16 = 0" by simp
  then have "cur_size t = wc_count t - wc_offset t"
    using a t by (auto simp: cur_size_def [of t] accessing_def min_def)
  then show ?thesis
    using True t part_cost_le [of t] by (simp add: cost_def)
next
  case False
  then show ?thesis using t by (simp add: cost_def)
qed

lemma cost_evict:
  assumes c: "coherent s p" and o: "wc_offset s < wc_count s" and nb: "\<not> bypasses s"
    and f: "find_slot s (line_of (cur_addr s)) = None"
    and vd: "l_valid (wc_lines s (cur_victim s))" "l_dirty (wc_lines s (cur_victim s))"
    and t: "wc_lines t = (wc_lines s)(cur_victim s := (wc_lines s (cur_victim s))\<lparr>l_valid := False, l_dirty := False\<rparr>)"
      "wc_address t = wc_address s" "wc_count t = wc_count s" "wc_offset t = wc_offset s" "wc_write t = wc_write s"
      "wc_cacr t = wc_cacr s" "wc_acr t = wc_acr s" "wc_replacement t = wc_replacement s"
  shows "cost t < cost s"
proof -
  let ?st = "setIndex (cur_addr s)"
  have ca: "cur_addr t = cur_addr s" "cur_size t = cur_size s" "mode t = mode s"
    using t mode_cong [of t s] by (simp_all add: cur_addr_def cur_size_def)
  have ft: "find_slot t (line_of (cur_addr s)) = None"
    using find_slot_None [OF coherent_lines [OF c] f] t(1)
    by (cases rule: find_slot_cases [of t "line_of (cur_addr s)"]) (auto split: if_splits)
  have "\<exists>w. cur_victim s = ?st * Ways + w \<and> w < Ways \<and> (if wc_cacr s AND DHLCK \<noteq> 0 then 2 else 0) \<le> w"
    using vd coherent_wf [OF c] unfolding cur_victim_def
    by (cases rule: victim_cases [of s ?st]) (auto simp: wc_wf_def)
  then obtain w where w: "cur_victim s = ?st * Ways + w" "w < Ways"
      "(if wc_cacr s AND DHLCK \<noteq> 0 then 2 else 0) \<le> w" by blast
  have "\<not> l_valid (wc_lines t (?st * Ways + w))" using t(1) w(1) by simp
  from victim_invalid [OF _ w(2) this] have "\<not> l_valid (wc_lines t (cur_victim t))"
    using w(3) unfolding cur_victim_def ca(1) t(6) by blast
  then have "part_cost t = 1"
    using nb f ft ca t by (simp add: part_cost_def bypasses_def)
  moreover have "part_cost s = 2" using nb f vd by (simp add: part_cost_def)
  ultimately show ?thesis using ca t o by (simp add: cost_def)
qed

lemma cost_fill:
  assumes nb: "\<not> bypasses s" and o: "wc_offset s < wc_count s" and f: "find_slot s (line_of (cur_addr s)) = None"
    and t: "find_slot t (line_of (cur_addr s)) = Some i"
      "wc_address t = wc_address s" "wc_count t = wc_count s" "wc_offset t = wc_offset s" "wc_write t = wc_write s"
      "wc_cacr t = wc_cacr s" "wc_acr t = wc_acr s"
  shows "cost t < cost s"
proof -
  have ca: "cur_addr t = cur_addr s" "cur_size t = cur_size s" "mode t = mode s"
    using t mode_cong [of t s] by (simp_all add: cur_addr_def cur_size_def)
  have "part_cost t = 0"
    using nb f t ca by (auto simp: part_cost_def bypasses_def)
  moreover have "1 \<le> part_cost s" using nb f by (simp add: part_cost_def)
  ultimately show ?thesis using ca t o by (simp add: cost_def)
qed

section \<open>One iteration with its backing action\<close>

text \<open>The iteration either continues without memory, or asks for one action within a
  line; once the action has been served and completed, the access has advanced and the
  bound on the remaining transactions is smaller.\<close>

definition served :: "wcache \<Rightarrow> mem \<Rightarrow> wcache \<Rightarrow> action \<Rightarrow> bool" where
  "served s p s' act \<longleftrightarrow>
     (a_kind act = Read \<and> unat (a_address act) mod 16 + a_size act \<le> 16 \<and>
        (\<exists>t d. complete s' (mem_read p (a_address act) (a_size act)) = Inr t \<and>
           advances s p t p d \<and> cost t < cost s)) \<or>
     (a_kind act = Write \<and> unat (a_address act) mod 16 + length (a_bytes act) \<le> 16 \<and>
        length (a_bytes act) = a_size act \<and>
        (\<exists>t d. complete s' [] = Inr t \<and>
           advances s p t (mem_write p (a_address act) (a_bytes act)) d \<and> cost t < cost s))"

lemma mk_action_simps [simp]:
  "a_kind (mk_action k a n bs) = k" "a_address (mk_action k a n bs) = a"
  "a_size (mk_action k a n bs) = n" "a_bytes (mk_action k a n bs) = bs"
  by (simp_all add: mk_action_def)

lemma advances_part_cost:
  assumes a: "advances s p t q (cur_size s)" and o: "wc_offset s < wc_count s" and pc: "k \<le> part_cost s"
  shows "cost t + k \<le> cost s"
proof -
  have "accessing s" "wc_address t = wc_address s" "wc_count t = wc_count s" "wc_offset t = wc_offset s + cur_size s"
    using a by (simp_all add: advances_def)
  from cost_after_part [OF this(1) o this(2-4)] show ?thesis
    using o pc by (auto simp: cost_def [of s] split: if_splits)
qed

lemma served_readI:
  assumes "complete s' (mem_read p a n) = Inr t" "advances s p t p d" "cost t < cost s" "unat a mod 16 + n \<le> 16"
  shows "served s p s' (mk_action Read a n [])"
  using assms by (auto simp: served_def)

lemma served_writeI:
  assumes "complete s' [] = Inr t" "advances s p t (mem_write p a bs) d" "cost t < cost s"
    "unat a mod 16 + length bs \<le> 16" "length bs = n"
  shows "served s p s' (mk_action Write a n bs)"
  using assms by (auto simp: served_def)

lemma bypass_served:
  assumes c: "coherent s p" and a: "accessing s" and o: "wc_offset s < wc_count s" and b: "bypasses s"
    and n: "next_iter s = (s', r)"
  shows "\<exists>act. r = Some act \<and> served s p s' act"
proof -
  have pc: "1 \<le> part_cost s" using b by (simp add: part_cost_def)
  have act: "wc_active s" using a by (simp add: accessing_def)
  show ?thesis
  proof (cases "wc_write s")
    case True
    note adv = bypass_write_advances [OF c a b True]
    have s': "s' = (prep s)\<lparr>wc_pending := PBypassWrite\<rparr>"
      and r: "r = Some (mk_action Write (cur_addr s) (cur_size s) (cur_payload s))"
      using n b True by (simp_all add: next_iter_alt)
    have "complete s' [] = Inr ((prep s)\<lparr>wc_pending := PNone, wc_offset := wc_offset s + cur_size s\<rparr>)"
      using act by (simp add: s' complete_def)
    then show ?thesis
      using served_writeI [OF _ adv] advances_part_cost [OF adv o pc] cur_span [OF a] length_payload [OF a] r
      by simp
  next
    case False
    note adv = bypass_read_advances [OF c a b False]
    have s': "s' = (prep s)\<lparr>wc_pending := PBypassRead\<rparr>"
      and r: "r = Some (mk_action Read (cur_addr s) (cur_size s) [])"
      using n b False by (simp_all add: next_iter_alt)
    have "complete s' (mem_read p (cur_addr s) (cur_size s)) = Inr ((prep s)\<lparr>wc_pending := PNone,
      wc_bytes := copy_into (wc_bytes s) (wc_offset s) (mem_read p (cur_addr s) (cur_size s)),
      wc_offset := wc_offset s + cur_size s\<rparr>)"
      using act by (simp add: s' complete_def)
    then show ?thesis
      using served_readI [OF _ adv] advances_part_cost [OF adv o pc] cur_size_in_line [of s] r by simp
  qed
qed

lemma miss_served:
  assumes c: "coherent s p" and a: "accessing s" and o: "wc_offset s < wc_count s" and nb: "\<not> bypasses s"
    and f: "find_slot s (line_of (cur_addr s)) = None" and n: "next_iter s = (s', r)"
  shows "\<exists>act. r = Some act \<and> served s p s' act"
proof -
  let ?i = "cur_victim s"
  have i: "?i < Sets * Ways" using wc_wf_cur_victim [OF coherent_wf [OF c]] by simp
  have act: "wc_active s" using a by (simp add: accessing_def)
  show ?thesis
  proof (cases "l_valid (wc_lines s ?i) \<and> l_dirty (wc_lines s ?i)")
    case True
    let ?t = "(update_line ((prep s)\<lparr>wc_pending_slot := ?i\<rparr>) ?i
      (\<lambda>l. l\<lparr>l_valid := False, l_dirty := False\<rparr>))\<lparr>wc_pending := PNone\<rparr>"
    have adv: "advances s p ?t (mem_write p (l_address (wc_lines s ?i)) (l_bytes (wc_lines s ?i))) 0"
      using True by (intro evict_advances [OF c a i]) simp
    have cst: "cost ?t < cost s"
      using True by (intro cost_evict [OF c o nb f]) simp_all
    have s': "s' = (prep s)\<lparr>wc_pending_slot := ?i, wc_pending := PEvict\<rparr>"
      and r: "r = Some (mk_action Write (l_address (wc_lines s ?i)) 16 (l_bytes (wc_lines s ?i)))"
      using n nb f True by (simp_all add: next_iter_alt Let_def)
    have "complete s' [] = Inr ?t"
      using act by (simp add: s' complete_def update_line_def)
    then show ?thesis
      using served_writeI [OF _ adv cst] line_of_base [OF line_aligned [OF c i]] line_length [OF c i] r True
      by simp
  next
    case False
    let ?l = "\<lparr>l_bytes = mem_read p (line_of (cur_addr s)) 16, l_address = line_of (cur_addr s),
          l_valid = True, l_dirty = False\<rparr>"
    let ?t = "(prep s)\<lparr>wc_pending_slot := ?i, wc_lines := (wc_lines s)(?i := ?l),
      wc_replacement := (wc_replacement s + 1) mod Ways, wc_pending := PNone\<rparr>"
    note adv = fill_advances [OF c a f nb False]
    have "find_slot ?t (l_address (wc_lines ?t ?i)) = Some ?i"
      using adv i by (intro find_slot_Some) (simp_all add: advances_def coherent_def wc_wf_def)
    then have cst: "cost ?t < cost s"
      by (intro cost_fill [OF nb o f]) simp_all
    have s': "s' = (prep s)\<lparr>wc_pending_slot := ?i, wc_pending := PFill\<rparr>"
      and r: "r = Some (mk_action Read (line_of (cur_addr s)) 16 [])"
      using n nb f False by (simp_all add: next_iter_alt Let_def)
    have "complete s' (mem_read p (line_of (cur_addr s)) 16) = Inr ?t"
      using act by (simp add: s' complete_def LineBytes_def)
    then show ?thesis
      using served_readI [OF _ adv cst] line_of_base [of "line_of (cur_addr s)"] r by simp
  qed
qed

lemma hit_served:
  assumes c: "coherent s p" and a: "accessing s" and o: "wc_offset s < wc_count s" and nb: "\<not> bypasses s"
    and f: "find_slot s (line_of (cur_addr s)) = Some i" and n: "next_iter s = (s', r)"
  shows "case r of None \<Rightarrow> \<exists>d. advances s p s' p d \<and> cost s' \<le> cost s | Some act \<Rightarrow> served s p s' act"
proof (cases "wc_write s \<and> mode s (cur_addr s) = 0")
  case True
  have act: "wc_active s" using a by (simp add: accessing_def)
  note adv = writethrough_hit_advances [OF c a f]
  have pc: "1 \<le> part_cost s" using nb f True by (simp add: part_cost_def)
  let ?u = "(update_line (prep s) i
       (\<lambda>l. l\<lparr>l_bytes := copy_into (l_bytes l) (unat (cur_addr s) mod 16) (cur_payload s)\<rparr>))
         \<lparr>wc_pending := PWriteThrough, wc_pending_slot := i\<rparr>"
  have s': "s' = ?u" and r: "r = Some (mk_action Write (cur_addr s) (cur_size s) (cur_payload s))"
    using n nb f True by (simp_all add: next_iter_alt Let_def)
  have "complete s' [] = Inr ((update_line ?u i (\<lambda>l. l\<lparr>l_dirty := False\<rparr>))
       \<lparr>wc_offset := wc_offset s + cur_size s, wc_pending := PNone\<rparr>)"
    using act by (simp add: s' complete_def)
  then show ?thesis
    using served_writeI [OF _ adv] advances_part_cost [OF adv o pc] cur_span [OF a] length_payload [OF a] r True
    by simp
next
  case False
  show ?thesis
  proof (cases "wc_write s")
    case True
    then have m: "mode s (cur_addr s) \<noteq> 0" using False by simp
    note adv = copyback_hit_advances [OF c a f nb True m]
    show ?thesis
      using n nb f True m adv advances_part_cost [OF adv o, of 0] by (auto simp: next_iter_alt Let_def)
  next
    case w: False
    note adv = read_hit_advances [OF c a f w]
    show ?thesis
      using n nb f w adv advances_part_cost [OF adv o, of 0] by (auto simp: next_iter_alt Let_def)
  qed
qed

lemma iter_served:
  assumes c: "coherent s p" and a: "accessing s" and o: "wc_offset s < wc_count s"
    and n: "next_iter s = (s', r)"
  shows "case r of None \<Rightarrow> \<exists>d. advances s p s' p d \<and> cost s' \<le> cost s | Some act \<Rightarrow> served s p s' act"
proof (cases "bypasses s")
  case True
  then show ?thesis using bypass_served [OF c a o True n] by auto
next
  case nb: False
  show ?thesis
  proof (cases "find_slot s (line_of (cur_addr s))")
    case None
    then show ?thesis using miss_served [OF c a o nb None n] by auto
  next
    case (Some i)
    then show ?thesis by (rule hit_served [OF c a o nb _ n])
  qed
qed

section \<open>Dropping clean lines\<close>

lemma drop_clean:
  assumes c: "coherent s p" and i: "i < Sets * Ways"
    and nd: "\<not> (l_valid (wc_lines s i) \<and> l_dirty (wc_lines s i))"
    and t: "wc_lines t = (wc_lines s)(i := (wc_lines s i)\<lparr>l_valid := False\<rparr>)" "wc_wf t"
      "wc_cacr t = wc_cacr s" "wc_acr t = wc_acr s"
  shows "coherent t p" and "view t p = view s p"
proof -
  note lw = coherent_lines [OF c]
  have lt: "lines_wf (wc_lines t)" using t(2) by (simp add: wc_wf_def)
  show "coherent t p"
    using coherent_clean_agree [OF c] coherent_modes [OF c] t(2) mode_cong [OF t(3,4)]
    unfolding coherent_def clean_agree_def modes_kept_def t(1) by auto
  show "view t p = view s p"
  proof (rule view_update [OF lw lt i t(1)])
    show "p x = view s p x" if "l_valid (wc_lines s i)" "l_address (wc_lines s i) = line_of x" for x
      using view_hit [OF lw i that] clean_line_nth [OF coherent_clean_agree [OF c] i that(1) _ that(2)] nd that
      by simp
    show "l_bytes (wc_lines s j) ! (unat x mod 16) = view s p x"
      if "j < Sets * Ways" "l_valid (wc_lines s j)" "l_address (wc_lines s j) = line_of x" for x j
      using view_hit [OF lw that] by simp
    show "p x = view s p x"
      if "\<And>j. j < Sets * Ways \<Longrightarrow> l_valid (wc_lines s j) \<Longrightarrow> l_address (wc_lines s j) \<noteq> line_of x" for x
      using view_miss [OF that] by simp
  qed simp
qed

text \<open>With no dirty line left, the memory is what the client sees.\<close>

lemma view_all_clean:
  assumes c: "coherent s p" and nd: "\<And>i. i < Sets * Ways \<Longrightarrow> \<not> (l_valid (wc_lines s i) \<and> l_dirty (wc_lines s i))"
  shows "view s p = p"
proof
  fix x
  show "view s p x = p x"
    using coherent_lines [OF c]
  proof (cases rule: view_cases [of s x p])
    case (hit i)
    then show ?thesis
      using clean_line_nth [OF coherent_clean_agree [OF c] hit(2,3) _ hit(4)] nd [OF hit(2)] by simp
  qed simp
qed

lemma coherent_no_lines:
  assumes "wc_wf s" "\<And>i. \<not> l_valid (wc_lines s i)"
  shows "coherent s p" and "view s p = p"
proof -
  show c: "coherent s p" using assms by (simp add: coherent_def clean_agree_def modes_kept_def)
  show "view s p = p" by (rule view_all_clean [OF c]) (simp add: assms)
qed

section \<open>Whole transactions\<close>

text \<open>What \<open>next\<close> returns for an access: the end of the access, or the action of an
  iteration of the loop that some number of cached bytes further on has reached.\<close>

lemma next_loop_served:
  assumes "coherent s p" "accessing s" "next_loop s = (s', act)"
  shows "(\<exists>t. advances s p t p (wc_count s - wc_offset s) \<and> (s', act) = finish t) \<or>
     (\<exists>t d. advances s p t p d \<and> cost t \<le> cost s \<and> served t p s' act)"
  using assms
proof (induction s rule: next_loop.induct)
  case (1 s)
  show ?case
  proof (cases "wc_offset s < wc_count s")
    case False
    then show ?thesis
      using 1 advances_refl [of s p] by (auto simp: next_loop.simps [of s] accessing_def)
  next
    case True
    obtain t r where n: "next_iter s = (t, r)" by fastforce
    note it = iter_served [OF "1.prems"(1,2) True n]
    show ?thesis
    proof (cases r)
      case (Some a)
      then have "(s', act) = (t, a)" using "1.prems" True n by (simp add: next_loop.simps [of s])
      then show ?thesis using it Some advances_refl [OF "1.prems"(1,2)] by auto
    next
      case None
      then obtain d where d: "advances s p t p d" "cost t \<le> cost s" using it by auto
      have nl: "next_loop t = (s', act)"
        using "1.prems" True n None by (simp add: next_loop.simps [of s])
      have ct: "coherent t p" "accessing t" using d by (simp_all add: advances_def)
      have cnt: "d + (wc_count t - wc_offset t) = wc_count s - wc_offset s"
        using d(1) by (auto simp: advances_def accessing_def)
      from "1.IH" [OF True n [symmetric] None ct nl] show ?thesis
        using advances_trans [OF d(1)] d(2) cnt by (metis le_trans)
    qed
  qed
qed

text \<open>A client runs a transaction: it serves the actions in order until the cache is done.
  The result is the cache, the backing memory and the bytes read; \<open>None\<close> is running out of
  fuel.\<close>

fun run_txn :: "('m \<Rightarrow> u64 \<Rightarrow> nat \<Rightarrow> u8 list) \<Rightarrow> ('m \<Rightarrow> u64 \<Rightarrow> u8 list \<Rightarrow> 'm) \<Rightarrow> nat \<Rightarrow>
    wcache \<Rightarrow> 'm \<Rightarrow> (wcache \<times> 'm \<times> u8 list) result option" where
  "run_txn mread mwrite 0 s m = None"
| "run_txn mread mwrite (Suc n) s m =
     (case next_action s of
        Inl e \<Rightarrow> Some (Inl e)
      | Inr (s1, act) \<Rightarrow>
          (case a_kind act of
             Done \<Rightarrow> Some (Inr (s1, m, a_bytes act))
           | Read \<Rightarrow>
               (case complete s1 (mread m (a_address act) (a_size act)) of
                  Inl e \<Rightarrow> Some (Inl e)
                | Inr s2 \<Rightarrow> run_txn mread mwrite n s2 m)
           | Write \<Rightarrow>
               (case complete s1 [] of
                  Inl e \<Rightarrow> Some (Inl e)
                | Inr s2 \<Rightarrow> run_txn mread mwrite n s2 (mwrite m (a_address act) (a_bytes act)))))"

text \<open>A sequence of CPUSHL instructions, each run to its end.\<close>

fun run_pushes :: "('m \<Rightarrow> u64 \<Rightarrow> nat \<Rightarrow> u8 list) \<Rightarrow> ('m \<Rightarrow> u64 \<Rightarrow> u8 list \<Rightarrow> 'm) \<Rightarrow> nat \<Rightarrow>
    u16 \<Rightarrow> u32 list \<Rightarrow> wcache \<Rightarrow> 'm \<Rightarrow> (wcache \<times> 'm) result option" where
  "run_pushes mread mwrite n ins [] s m = Some (Inr (s, m))"
| "run_pushes mread mwrite n ins (op # ops) s m =
     (case push s ins op of
        Inl e \<Rightarrow> Some (Inl e)
      | Inr s1 \<Rightarrow>
          (case run_txn mread mwrite n s1 m of
             None \<Rightarrow> None
           | Some (Inl e) \<Rightarrow> Some (Inl e)
           | Some (Inr (t, m2, _)) \<Rightarrow> run_pushes mread mwrite n ins ops t m2))"

definition push_slot :: "u32 \<Rightarrow> nat" where
  "push_slot op = setIndex (ucast op) * Ways + unat (op AND of_nat (Ways - 1))"

text \<open>The operand that selects a slot, and the operands of a sweep over the whole cache.\<close>

definition push_operand :: "nat \<Rightarrow> u32" where
  "push_operand i = of_nat (i div 4 * 16 + i mod 4)"

definition sweep_operands :: "u32 list" where
  "sweep_operands = map push_operand [0 ..< Sets * Ways]"

definition dirty_slot :: "wcache \<Rightarrow> nat \<Rightarrow> bool" where
  "dirty_slot s i \<longleftrightarrow> l_valid (wc_lines s i) \<and> l_dirty (wc_lines s i)"

lemma push_start:
  assumes "push s ins op = Inr s1" "ins AND 0x40 \<noteq> 0"
  shows "s1 = s\<lparr>wc_active := True, wc_pending := PNone, wc_pushing := True, wc_count := 0, wc_offset := 0,
      wc_bytes := [], wc_write := False, wc_invalidate_push := (wc_cacr s AND DDPI = 0),
      wc_pending_slot := push_slot op\<rparr>"
  using assms by (auto simp: push_def res_bind_Inr_iff start_def push_slot_def split: if_splits)

lemma push_slot_less: "push_slot op < Sets * Ways"
  unfolding push_slot_def by (rule slot_in_set) (rule and_3_less_Ways)

lemma push_slot_operand:
  assumes "i < Sets * Ways"
  shows "push_slot (push_operand i) = i"
proof -
  let ?k = "i div 4 * 16 + i mod 4"
  have d: "i div 4 < 512" using assms by (simp add: Sets_def Ways_def)
  have k: "?k < 8192" using d mod_less_divisor [of 4 i] by linarith
  then have u: "unat (push_operand i) = ?k"
    unfolding push_operand_def unat_of_nat by simp
  have "unat (ucast (push_operand i) :: u64) = ?k" using u by simp
  moreover have kd: "(x * 16 + y) div 16 = x \<and> (x * 16 + y) mod 4 = y" if "y < 4" for x y :: nat
  proof -
    have "x * 16 + y = 4 * (4 * x) + y" by simp
    then have "(x * 16 + y) mod 4 = y" using that by (metis mod_less mod_mult_self4)
    then show ?thesis using that by simp
  qed
  from kd [of "i mod 4" "i div 4"] have "?k div 16 = i div 4" "?k mod 4 = i mod 4" by simp_all
  ultimately have "setIndex (ucast (push_operand i)) = i div 4"
    using d by (simp add: setIndex_unat)
  moreover have "unat (push_operand i AND of_nat (Ways - 1)) = i mod 4"
    using and_mask_unat [of "push_operand i" 2] u \<open>?k mod 4 = i mod 4\<close> by (simp add: Ways_def mask_numeral)
  ultimately show ?thesis by (simp add: push_slot_def Ways_def)
qed

definition idle :: "wcache \<Rightarrow> bool" where
  "idle s \<longleftrightarrow> \<not> wc_active s"

text \<open>The interface of the backing memory: reads and writes within one line act on the bytes
  \<open>peek\<close> shows.\<close>

locale line_memory =
  fixes peek :: "'m \<Rightarrow> mem"
    and mread :: "'m \<Rightarrow> u64 \<Rightarrow> nat \<Rightarrow> u8 list"
    and mwrite :: "'m \<Rightarrow> u64 \<Rightarrow> u8 list \<Rightarrow> 'm"
  assumes mread_peek: "unat a mod 16 + n \<le> 16 \<Longrightarrow> mread m a n = mem_read (peek m) a n"
    and peek_mwrite: "unat a mod 16 + length bs \<le> 16 \<Longrightarrow> peek (mwrite m a bs) = mem_write (peek m) a bs"
begin

lemma run_access:
  assumes "coherent s (peek m)" "accessing s" "cost s < n"
  shows "\<exists>t m2. run_txn mread mwrite n s m =
      Some (Inr (t\<lparr>wc_active := False\<rparr>, m2, if wc_write s then [] else wc_bytes t)) \<and>
    advances s (peek m) t (peek m2) (wc_count s - wc_offset s)"
  using assms
proof (induction n arbitrary: s m)
  case 0
  then show ?case by simp
next
  case (Suc n)
  obtain s1 act where nl: "next_loop s = (s1, act)" by fastforce
  have na: "next_action s = Inr (s1, act)"
    using Suc.prems nl by (simp add: next_action_def accessing_def)
  from next_loop_served [OF Suc.prems(1,2) nl]
  consider (fin) t where "advances s (peek m) t (peek m) (wc_count s - wc_offset s)" "(s1, act) = finish t"
    | (go) t d where "advances s (peek m) t (peek m) d" "cost t \<le> cost s" "served t (peek m) s1 act"
    by blast
  then show ?case
  proof cases
    case fin
    then have "wc_write t = wc_write s" by (simp add: advances_def)
    then show ?thesis using fin na by (auto simp: finish_def)
  next
    case (go t d)
    have step: "\<exists>u m2. run_txn mread mwrite (Suc n) s m =
        Some (Inr (u\<lparr>wc_active := False\<rparr>, m2, if wc_write s then [] else wc_bytes u)) \<and>
        advances s (peek m) u (peek m2) (wc_count s - wc_offset s)"
      if run: "run_txn mread mwrite (Suc n) s m = run_txn mread mwrite n s2 mm"
        and adv: "advances t (peek m) s2 (peek mm) e" and cst: "cost s2 < cost t" for s2 mm e
    proof -
      have s2: "coherent s2 (peek mm)" "accessing s2" "cost s2 < n"
        using adv cst go(2) Suc.prems(3) by (simp_all add: advances_def)
      note tr = advances_trans [OF go(1) adv]
      have w: "wc_write s2 = wc_write s"
        and n: "d + e + (wc_count s2 - wc_offset s2) = wc_count s - wc_offset s"
        using tr by (auto simp: advances_def accessing_def)
      from Suc.IH [OF s2] obtain u m2 where u: "run_txn mread mwrite n s2 mm =
          Some (Inr (u\<lparr>wc_active := False\<rparr>, m2, if wc_write s2 then [] else wc_bytes u))"
        and au: "advances s2 (peek mm) u (peek m2) (wc_count s2 - wc_offset s2)" by blast
      show ?thesis
        using advances_trans [OF tr au] trans [OF run u] unfolding w n
        by - (rule exI [of _ u], rule exI [of _ m2], rule conjI)
    qed
    show ?thesis
      using go(3) unfolding served_def
    proof (elim disjE conjE exE)
      fix u e
      assume k: "a_kind act = Read" "unat (a_address act) mod 16 + a_size act \<le> 16"
        and cu: "complete s1 (mem_read (peek m) (a_address act) (a_size act)) = Inr u"
        and adv: "advances t (peek m) u (peek m) e" "cost u < cost t"
      show ?thesis
        by (rule step [OF _ adv]) (simp add: na k(1) mread_peek [OF k(2)] cu)
    next
      fix u e
      assume k: "a_kind act = Write" "unat (a_address act) mod 16 + length (a_bytes act) \<le> 16"
        and cu: "complete s1 [] = Inr u"
        and adv: "advances t (peek m) u (mem_write (peek m) (a_address act) (a_bytes act)) e" "cost u < cost t"
      show ?thesis
        by (rule step [OF _ _ adv(2), where mm = "mwrite m (a_address act) (a_bytes act)" and e = e])
          (simp_all add: na k(1) cu peek_mwrite [OF k(2)] adv(1))
    qed
  qed
qed

text \<open>An access from the call of \<open>access\<close> to its end.\<close>

lemma access_accessing:
  assumes a: "access s addr sz w bs = Inr s1" and c: "coherent s p"
  shows "accessing s1" "coherent s1 p" "view s1 p = view s p" "wc_address s1 = addr" "wc_count s1 = unat sz"
    "wc_offset s1 = 0" "wc_write s1 = w" "wc_bytes s1 = (if w then bs else replicate (unat sz) 0)"
    "wc_regions s1 = wc_regions s" "wc_cacr s1 = wc_cacr s" "wc_acr s1 = wc_acr s"
    "wc_dirty_discards s1 = wc_dirty_discards s" "length (wc_bytes s1) = unat sz"
proof -
  obtain b where r: "sz \<noteq> 0" "\<not> sz > 8" "\<not> wc_active s" "w \<Longrightarrow> length bs = unat sz"
    and s1: "s1 = s\<lparr>wc_active := True, wc_pending := PNone, wc_pushing := False, wc_address := addr,
       wc_count := unat sz, wc_offset := 0, wc_write := w,
       wc_bytes := (if w then bs else replicate (unat sz) 0)\<rparr>"
    using a by (auto simp: access_def start_def split: if_splits option.splits)
  have "unat sz \<le> 8" using r(2) by (simp add: not_less word_le_nat_alt)
  then show "accessing s1" using r(4) by (simp add: s1 accessing_def)
  show "coherent s1 p" using c by (subst coherent_cong [of s1 s]) (simp_all add: s1)
  show "view s1 p = view s p" by (rule view_cong) (simp add: s1)
qed (use a in \<open>auto simp: access_def start_def split: if_splits option.splits\<close>)

lemma access_run:
  assumes a: "access s addr sz w bs = Inr s1" and c: "coherent s (peek m)" and n: "5 \<le> n"
  shows "\<exists>t m2. run_txn mread mwrite n s1 m =
      Some (Inr (t, m2, if w then [] else mem_read (view s (peek m)) addr (unat sz))) \<and>
    idle t \<and> coherent t (peek m2) \<and> wc_regions t = wc_regions s \<and> wc_cacr t = wc_cacr s \<and> wc_acr t = wc_acr s \<and>
    view t (peek m2) = (if w then mem_write (view s (peek m)) addr bs else view s (peek m))"
proof -
  note s1 = access_accessing [OF a c]
  have "cost s1 < n" using cost_le [of s1] n by simp
  from run_access [OF s1(2,1) this] obtain t m2 where
    run: "run_txn mread mwrite n s1 m = Some (Inr (t\<lparr>wc_active := False\<rparr>, m2, if w then [] else wc_bytes t))"
    and adv: "advances s1 (peek m) t (peek m2) (unat sz)"
    unfolding s1 by auto
  let ?t = "t\<lparr>wc_active := False\<rparr>"
  have ca: "cur_addr s1 = addr" by (simp add: cur_addr_def s1)
  have ct: "coherent ?t (peek m2)"
    using adv by (subst coherent_cong [of ?t t]) (simp_all add: advances_def)
  have vt: "view ?t (peek m2) = view t (peek m2)" by (rule view_cong) simp
  have "length bs = unat sz" if w using s1(13) s1(8) that by simp
  then have v: "view t (peek m2) = (if w then mem_write (view s (peek m)) addr bs else view s (peek m))"
    using adv by (simp add: advances_def s1 ca vec_slice_def)
  have "wc_bytes t = mem_read (view s (peek m)) addr (unat sz)" if "\<not> w"
    using adv that s1(13) by (simp add: advances_def s1 ca copy_into_all)
  then show ?thesis
    using run ct v vt adv
    by (intro exI [of _ ?t] exI [of _ m2]) (auto simp: idle_def advances_def s1)
qed

text \<open>One CPUSHL of the data cache: the selected line is written back if it was dirty,
  and nothing else changes.\<close>

lemma push_run:
  assumes p: "push s ins op = Inr s1" "ins AND 0x40 \<noteq> 0" and c: "coherent s (peek m)" and n: "2 \<le> n"
  shows "\<exists>t m2. run_txn mread mwrite n s1 m = Some (Inr (t, m2, [])) \<and> idle t \<and> coherent t (peek m2) \<and>
    view t (peek m2) = view s (peek m) \<and> \<not> dirty_slot t (push_slot op) \<and>
    (\<forall>j. j \<noteq> push_slot op \<longrightarrow> wc_lines t j = wc_lines s j) \<and>
    wc_regions t = wc_regions s \<and> wc_cacr t = wc_cacr s \<and> wc_acr t = wc_acr s"
proof -
  let ?i = "push_slot op" and ?inv = "wc_cacr s AND DDPI = 0"
  note s1 = push_start [OF p] and i = push_slot_less [of op]
  have w1: "wc_wf s1" by (rule push_wf [OF coherent_wf [OF c] p(1)])
  have ln: "wc_lines s1 = wc_lines s" by (simp add: s1)
  obtain k where k: "n = Suc (Suc k)" using le_Suc_ex [OF n] by auto
  have quiet: "next_action u = Inr (u\<lparr>wc_active := False\<rparr>, mk_action Done 0 0 [])"
    if "wc_active u" "wc_pending u = PNone" "\<not> wc_pushing u" "wc_count u = 0" "wc_bytes u = []" for u
    using that by (simp add: next_action_def next_loop.simps [of u] finish_def)
  show ?thesis
  proof (cases "dirty_slot s ?i")
    case True
    let ?L = "wc_lines s ?i"
    let ?q = "mem_write (peek m) (l_address ?L) (l_bytes ?L)"
    let ?u = "(update_line (s1\<lparr>wc_pending := PPush\<rparr>) ?i
        (\<lambda>l. l\<lparr>l_dirty := False, l_valid := l_valid l \<and> \<not> ?inv\<rparr>))\<lparr>wc_pushing := False, wc_pending := PNone\<rparr>"
    let ?t = "?u\<lparr>wc_active := False\<rparr>"
    have vd: "l_valid ?L" "l_dirty ?L" using True by (simp_all add: dirty_slot_def)
    have na: "next_action s1 = Inr (s1\<lparr>wc_pending := PPush\<rparr>, mk_action Write (l_address ?L) 16 (l_bytes ?L))"
      using vd by (simp add: next_action_def s1 Let_def LineBytes_def)
    have cp: "complete (s1\<lparr>wc_pending := PPush\<rparr>) [] = Inr ?u"
      by (simp add: complete_def s1)
    have qu: "next_action ?u = Inr (?t, mk_action Done 0 0 [])" by (rule quiet) (simp_all add: s1)
    have sp: "unat (l_address ?L) mod 16 + length (l_bytes ?L) \<le> 16"
      using line_of_base [OF line_aligned [OF c i vd(1)]] line_length [OF c i] by simp
    have "wc_wf (update_line (s1\<lparr>wc_pending := PPush\<rparr>) ?i
        (\<lambda>l. l\<lparr>l_dirty := False, l_valid := l_valid l \<and> \<not> ?inv\<rparr>))"
      using w1 i line_length [OF c i] ln by (intro update_line_wf) (auto simp: LineBytes_def)
    then have wt: "wc_wf ?t" by simp
    have wb: "coherent ?t ?q" "view ?t ?q = view s (peek m)"
      using write_back [OF c i vd(1), of ?t, OF _ _ _ _ wt] by (simp_all add: s1)
    have pm: "peek (mwrite m (l_address ?L) (l_bytes ?L)) = ?q" by (rule peek_mwrite [OF sp])
    have "run_txn mread mwrite n s1 m = Some (Inr (?t, mwrite m (l_address ?L) (l_bytes ?L), []))"
      by (simp add: k na cp qu)
    then show ?thesis
      using wb pm by (intro exI [of _ ?t] exI [of _ "mwrite m (l_address ?L) (l_bytes ?L)"])
        (simp add: idle_def dirty_slot_def s1)
  next
    case False
    let ?v = "s1\<lparr>wc_pushing := False\<rparr>"
    let ?u = "if ?inv then update_line ?v ?i (\<lambda>l. l\<lparr>l_valid := False\<rparr>) else ?v"
    let ?t = "?u\<lparr>wc_active := False\<rparr>"
    have na: "next_action s1 = Inr (?t, mk_action Done 0 0 [])"
      using False by (auto simp: next_action_def s1 Let_def finish_def dirty_slot_def update_line_def)
    have run: "run_txn mread mwrite n s1 m = Some (Inr (?t, m, []))" by (simp add: k na)
    have ct: "coherent ?t (peek m) \<and> view ?t (peek m) = view s (peek m)"
    proof (cases ?inv)
      case True
      have "wc_wf (update_line ?v ?i (\<lambda>l. l\<lparr>l_valid := False\<rparr>))"
        using w1 i line_length [OF c i] ln by (intro update_line_wf) (auto simp: LineBytes_def)
      then have "wc_wf ?t" using True by simp
      then show ?thesis
        using drop_clean [OF c i, of ?t] False True by (simp add: dirty_slot_def s1)
    next
      case inv: False
      have "wc_wf ?t = wc_wf s" using coherent_wf [OF c] w1 inv by simp
      then show ?thesis
        using c inv coherent_cong [of ?t s "peek m"] view_cong [of ?t s "peek m"] by (simp add: s1)
    qed
    show ?thesis
      using run ct False by (intro exI [of _ ?t] exI [of _ m]) (auto simp: idle_def dirty_slot_def s1)
  qed
qed

lemma pushes_run:
  assumes "ins AND 0xff38 = 0xf428" "ins AND 0x40 \<noteq> 0" "coherent s (peek m)" "idle s" "2 \<le> n"
  shows "\<exists>t m2. run_pushes mread mwrite n ins ops s m = Some (Inr (t, m2)) \<and> idle t \<and> coherent t (peek m2) \<and>
    view t (peek m2) = view s (peek m) \<and>
    (\<forall>j. dirty_slot t j \<longrightarrow> dirty_slot s j \<and> j \<notin> push_slot ` set ops)"
  using assms
proof (induction ops arbitrary: s m)
  case Nil
  then show ?case by simp
next
  case (Cons op ops)
  have "ins AND 0xc0 \<noteq> 0"
  proof
    assume "ins AND 0xc0 = 0"
    then have "(ins AND 0xc0) AND 0x40 = 0" by simp
    then show False using Cons.prems(2) by (simp add: and.assoc)
  qed
  then obtain s1 where p: "push s ins op = Inr s1"
    using Cons.prems by (auto simp: push_def start_def idle_def)
  from push_run [OF p Cons.prems(2,3,5)] obtain t m2 where
    t: "run_txn mread mwrite n s1 m = Some (Inr (t, m2, []))" "idle t" "coherent t (peek m2)"
       "view t (peek m2) = view s (peek m)" "\<not> dirty_slot t (push_slot op)"
    and ln: "\<And>j. j \<noteq> push_slot op \<Longrightarrow> wc_lines t j = wc_lines s j" by blast
  have sub: "dirty_slot s j \<and> j \<noteq> push_slot op" if "dirty_slot t j" for j
    using that t(5) ln [of j] by (cases "j = push_slot op") (auto simp: dirty_slot_def)
  from Cons.IH [OF Cons.prems(1,2) t(3,2) Cons.prems(5)] show ?case
    using p t(1,4) sub by fastforce
qed

end

interpretation flat: line_memory "\<lambda>m. m" mem_read mem_write
  by unfold_locales simp_all

section \<open>Properties\<close>


text \<open>A cache with the window at \<open>0x40000000\<close> in copyback mode.\<close>

definition copyback_cache :: wcache where
  "copyback_cache = sample_cache\<lparr>wc_cacr := DEC OR 0x02000000\<rparr>"

lemma copyback_cache_coherent: "coherent copyback_cache m"
proof (rule coherent_no_lines)
  show "wc_wf copyback_cache"
    by (simp add: copyback_cache_def sample_cache_def wc_wf_def wc_init_def lines_wf_def line_wf_def
        empty_line_def Ways_def Sets_def region_wf_def)
  show "\<not> l_valid (wc_lines copyback_cache i)" for i
    by (simp add: copyback_cache_def sample_cache_def wc_init_def empty_line_def)
qed




text \<open>Writing CACR with the invalidate bit discards without writing back: no line stays
  valid, the client sees the backing memory from then on, in whatever mode the new register
  value sets, the number of dirty lines thrown away is added to the counter, and the
  invalidate bits do not stick in the register.\<close>

theorem movec_invalidate_discards:
  assumes "wc_wf s" "idle s" "value AND 0x60000000 = 0" "value AND DCINVA \<noteq> 0"
  shows "\<exists>t. movec s 2 value = Inr t \<and> coherent t m \<and> view t m = m \<and> (\<forall>i. \<not> l_valid (wc_lines t i)) \<and>
    wc_dirty_discards t = wc_dirty_discards s + of_nat (card {i. i < Sets * Ways \<and> dirty_slot s i}) \<and>
    wc_cacr t AND DCINVA = 0"
proof -
  let ?s1 = "s\<lparr>wc_active := True, wc_pending := PNone, wc_pushing := False,
                 wc_count := 0, wc_offset := 0, wc_bytes := [], wc_write := False\<rparr>"
  let ?t = "(discard_lines ?s1)\<lparr>wc_cacr := value AND NOT (DCINVA OR 0x00040100)\<rparr>"
  have mv: "movec s 2 value = Inr ?t"
    using assms by (simp add: movec_def start_def idle_def Let_def)
  have inv: "\<not> l_valid (wc_lines ?t i)" for i
    by (simp add: discard_lines_def)
  have cnt: "length (filter (\<lambda>i. l_valid (wc_lines s i) \<and> l_dirty (wc_lines s i)) slot_indices) =
      card {i. i < Sets * Ways \<and> dirty_slot s i}"
  proof -
    have "distinct (filter (dirty_slot s) slot_indices)" by (simp add: slot_indices_def)
    from distinct_card [OF this] have
      "card {i. i < Sets * Ways \<and> dirty_slot s i} = length (filter (dirty_slot s) slot_indices)"
      by (simp add: slot_indices_def conj_commute Collect_conj_eq [symmetric] set_filter)
    then show ?thesis unfolding dirty_slot_def [abs_def] by simp
  qed
  have "(value AND NOT (DCINVA OR 0x00040100)) AND DCINVA = 0"
    by (rule bit_word_eqI) (auto simp: bit_simps)
  then show ?thesis
    using mv inv cnt coherent_no_lines [OF movec_wf [OF assms(1) mv] inv, of m]
    by (intro exI [of _ ?t]) (simp add: discard_lines_def)
qed

theorem movec_invalidate_discards_witness:
  "\<exists>t. movec copyback_cache 2 0x81000000 = Inr t \<and> view t (\<lambda>_. 3) = (\<lambda>_. 3)"
  using movec_invalidate_discards [of copyback_cache "0x81000000" "\<lambda>_. 3"]
    coherent_wf [OF copyback_cache_coherent [of "\<lambda>_. 3"]]
  by (auto simp: DCINVA_def idle_def copyback_cache_def sample_cache_def wc_init_def)

lemma regionFor_in_Some:
  assumes "regionFor_in rs a = Some (b, z)"
  shows "(b, z) \<in> set rs" "b \<le> a" "unat a < unat b + unat z"
proof -
  show "(b, z) \<in> set rs"
    using assms by (induction rs a rule: regionFor_in.induct) (auto split: if_splits)
  have "b \<le> a \<and> a - b < z"
    using assms by (induction rs a rule: regionFor_in.induct) (auto split: if_splits)
  then show "b \<le> a" "unat a < unat b + unat z"
    by (auto simp: word_less_nat_alt word_le_nat_alt unat_sub)
qed

lemma regionFor_in_None:
  assumes "regionFor_in rs a = None" "(b, z) \<in> set rs"
  shows "\<not> (unat b \<le> unat a \<and> unat a < unat b + unat z)"
proof -
  have "\<not> (b \<le> a \<and> a - b < z)"
    using assms by (induction rs a rule: regionFor_in.induct) (auto split: if_splits)
  then show ?thesis
    by (auto simp: word_less_nat_alt word_le_nat_alt unat_sub)
qed

lemma region_unique:
  assumes "regions_disjoint rs" "(b, z) \<in> set rs" "(c, y) \<in> set rs"
    "unat b \<le> x" "x < unat b + unat z" "unat c \<le> x" "x < unat c + unat y"
  shows "(b, z) = (c, y)"
proof -
  have "x \<in> {unat b ..< unat b + unat z} \<inter> {unat c ..< unat c + unat y}" using assms by simp
  with assms(1-3) show ?thesis
    by (induction rs rule: regions_disjoint.induct) auto
qed

text \<open>An idle cache accepts an access exactly when it is one to eight bytes long, lies
  inside one configured region and, for a write, carries that many bytes; every other
  request is refused as an invalid argument.\<close>

theorem access_accepts_iff:
  assumes "wc_wf s" "idle s"
  shows "access s a sz w bs =
     (if 0 < unat sz \<and> unat sz \<le> 8 \<and> (w \<longrightarrow> length bs = unat sz) \<and>
        (\<exists>(b, z) \<in> set (wc_regions s). unat b \<le> unat a \<and> unat a + unat sz \<le> unat b + unat z)
      then Inr (s\<lparr>wc_active := True, wc_pending := PNone, wc_pushing := False, wc_address := a,
        wc_count := unat sz, wc_offset := 0, wc_write := w,
        wc_bytes := (if w then bs else replicate (unat sz) 0)\<rparr>)
      else Inl (Invalid_argument ''invalid window cache access''))"
proof -
  have reg: "region_wf r" if "r \<in> set (wc_regions s)" for r
    using that assms(1) by (auto simp: wc_wf_def list_all_iff)
  have z: "(sz = 0 \<or> sz > 8) \<longleftrightarrow> \<not> (0 < unat sz \<and> unat sz \<le> 8)"
    by (auto simp: word_less_nat_alt unat_gt_0)
  show ?thesis
  proof (cases "regionFor s a")
    case None
    then have "\<not> (unat b \<le> unat a \<and> unat a + unat sz \<le> unat b + unat z)" if "(b, z) \<in> set (wc_regions s)" "0 < unat sz" for b z
      using regionFor_in_None [OF None [unfolded regionFor_def] that(1)] that(2) by linarith
    then show ?thesis using None by (auto simp: access_def)
  next
    case (Some r)
    obtain b z where r: "r = (b, z)" by force
    note in_r = regionFor_in_Some [OF Some [unfolded regionFor_def r]]
    have fit: "ucast sz > z - (a - b) \<longleftrightarrow> \<not> unat a + unat sz \<le> unat b + unat z"
      using in_r(2,3) by (auto simp: word_less_nat_alt unat_sub word_le_nat_alt)
    have uniq: "(\<exists>(b, z) \<in> set (wc_regions s). unat b \<le> unat a \<and> unat a + unat sz \<le> unat b + unat z) \<longleftrightarrow>
        unat a + unat sz \<le> unat b + unat z" if "0 < unat sz"
    proof
      assume "\<exists>(b, z) \<in> set (wc_regions s). unat b \<le> unat a \<and> unat a + unat sz \<le> unat b + unat z"
      then obtain c y where c: "(c, y) \<in> set (wc_regions s)" "unat c \<le> unat a" "unat a + unat sz \<le> unat c + unat y"
        by blast
      have "(b, z) = (c, y)"
        using assms(1) in_r c that
        by (intro region_unique [OF _ in_r(1) c(1), of "unat a"]) (auto simp: wc_wf_def word_le_nat_alt)
      then show "unat a + unat sz \<le> unat b + unat z" using c by simp
    next
      assume "unat a + unat sz \<le> unat b + unat z"
      then show "\<exists>(b, z) \<in> set (wc_regions s). unat b \<le> unat a \<and> unat a + unat sz \<le> unat b + unat z"
        using in_r by (intro bexI [of _ "(b, z)"]) (auto simp: word_le_nat_alt)
    qed
    show ?thesis
      using z Some uniq assms(2) unfolding access_def r
      by (auto simp: fit start_def idle_def)
  qed
qed

theorem access_accepts_iff_witness:
  "access sample_cache 0x4000fffc 8 False [] = Inl (Invalid_argument ''invalid window cache access'') \<and>
   is_ok (access sample_cache 0x4000fff8 8 False [])"
proof -
  have "wc_wf sample_cache" "idle sample_cache"
    by (simp_all add: idle_def sample_cache_def wc_wf_def wc_init_def lines_wf_def line_wf_def
        empty_line_def Ways_def Sets_def region_wf_def)
  from access_accepts_iff [OF this, of "0x4000fffc" 8 False "[]"]
    access_accepts_iff [OF this, of "0x4000fff8" 8 False "[]"]
  show ?thesis by (simp add: sample_cache_def wc_init_def)
qed

end
