(* ===== verification/Quetz_Stats.thy ===== *)
theory Quetz_Stats
  imports Quetz_Prelude
begin

text \<open>
  The per-core statistics of \<open>src/quetz_stats.h\<close> and the names they are registered
  under (\<open>src/quetz_stats.cc\<close>). A call of \<open>addData\<close> appends an entry to the
  statistics trace of the component that makes it, so totals and orders are both
  observable.
\<close>

datatype core_stat =
    S_read_reqs
  | S_write_reqs
  | S_mmio_read_reqs
  | S_mmio_write_reqs
  | S_read_lat
  | S_write_lat
  | S_mmio_read_lat
  | S_mmio_write_lat
  | S_mmio_truncated_writes
  | S_cached_truncated_writes
  | S_mmio_doorbell_flushes
  | S_mmio_doorbell_flush_cycles
  | S_async_submits
  | S_async_completions
  | S_async_overlap_cycles
  | S_read_req_sizes
  | S_write_req_sizes
  | S_split_reads
  | S_split_writes
  | S_noop_count
  | S_insn_count
  | S_cycles
  | S_active_cycles
  | S_filtered_reads
  | S_filtered_writes
  | S_gpu_doorbell_writes
  | S_gpu_status_polls
  | S_gpu_other_reads
  | S_gpu_other_writes
  | S_stall_cycles
  | S_compute_stall_cycles
  | S_int_compute
  | S_fp_compute
  | S_vec_compute
  | S_branch

type_synonym stat_trace = "(core_stat \<times> u64) list"

fun stat_name :: "core_stat \<Rightarrow> string" where
  "stat_name S_read_reqs = ''read_requests''"
| "stat_name S_write_reqs = ''write_requests''"
| "stat_name S_mmio_read_reqs = ''mmio_read_requests''"
| "stat_name S_mmio_write_reqs = ''mmio_write_requests''"
| "stat_name S_read_lat = ''read_latency''"
| "stat_name S_write_lat = ''write_latency''"
| "stat_name S_mmio_read_lat = ''mmio_read_latency''"
| "stat_name S_mmio_write_lat = ''mmio_write_latency''"
| "stat_name S_mmio_truncated_writes = ''mmio_truncated_writes''"
| "stat_name S_cached_truncated_writes = ''cached_truncated_writes''"
| "stat_name S_mmio_doorbell_flushes = ''mmio_doorbell_flushes''"
| "stat_name S_mmio_doorbell_flush_cycles = ''mmio_doorbell_flush_cycles''"
| "stat_name S_async_submits = ''async_submits''"
| "stat_name S_async_completions = ''async_completions''"
| "stat_name S_async_overlap_cycles = ''async_overlap_cycles''"
| "stat_name S_read_req_sizes = ''read_request_sizes''"
| "stat_name S_write_req_sizes = ''write_request_sizes''"
| "stat_name S_split_reads = ''split_read_requests''"
| "stat_name S_split_writes = ''split_write_requests''"
| "stat_name S_noop_count = ''no_ops''"
| "stat_name S_insn_count = ''instruction_count''"
| "stat_name S_cycles = ''cycles''"
| "stat_name S_active_cycles = ''active_cycles''"
| "stat_name S_filtered_reads = ''filtered_reads''"
| "stat_name S_filtered_writes = ''filtered_writes''"
| "stat_name S_gpu_doorbell_writes = ''gpu_doorbell_writes''"
| "stat_name S_gpu_status_polls = ''gpu_status_polls''"
| "stat_name S_gpu_other_reads = ''gpu_other_reads''"
| "stat_name S_gpu_other_writes = ''gpu_other_writes''"
| "stat_name S_stall_cycles = ''stall_cycles''"
| "stat_name S_compute_stall_cycles = ''compute_stall_cycles''"
| "stat_name S_int_compute = ''int_compute''"
| "stat_name S_fp_compute = ''fp_compute''"
| "stat_name S_vec_compute = ''vec_compute''"
| "stat_name S_branch = ''branch''"

definition stat_total :: "core_stat \<Rightarrow> stat_trace \<Rightarrow> nat" where
  "stat_total st tr = sum_list (map (\<lambda>(s, v). if s = st then unat v else 0) tr)"

lemma stat_total_simps [simp]:
  "stat_total st [] = 0"
  "stat_total st ((s, v) # tr) = (if s = st then unat v else 0) + stat_total st tr"
  "stat_total st (tr @ tr') = stat_total st tr + stat_total st tr'"
  by (simp_all add: stat_total_def)

end
