(* ===== verification/Quetz_Memory_Span.thy ===== *)
theory Quetz_Memory_Span
  imports Quetz_Prelude
begin

text \<open>
  The address arithmetic of the memory path: \<open>src/quetz_memory_span.h\<close> (valid spans,
  chunks within cache lines, number of line slots) and
  \<open>src/quetz_balar_flush_range.h\<close> (the lines a coherence flush covers), with the
  little-endian integer codec of \<open>src/quetz_accelerator_port.h\<close> and the big-endian
  one of the SST window.
\<close>

section \<open>Spans and chunks\<close>

definition memorySpanValid :: "u64 \<Rightarrow> u64 \<Rightarrow> bool" where
  "memorySpanValid address bytes \<longleftrightarrow> bytes = 0 \<or> bytes - 1 \<le> (- 1) - address"

definition memoryChunkSize :: "u64 \<Rightarrow> u64 \<Rightarrow> u64 \<Rightarrow> u64 \<Rightarrow> u64" where
  "memoryChunkSize address remaining line_size request_limit =
     (let bytes = min remaining request_limit in
      if line_size \<noteq> 0 then min bytes (line_size - address mod line_size) else bytes)"

definition memorySlots :: "u64 \<Rightarrow> u32 \<Rightarrow> u64 \<Rightarrow> u32" where
  "memorySlots address bytes line_size =
     (if bytes = 0 then 0
      else ucast (1 + (address mod line_size + ucast bytes - 1) div line_size))"

text \<open>The sequence of chunks a loop over \<open>memoryChunkSize\<close> visits, at most \<open>b\<close> of them.\<close>

fun chunk_seq :: "u64 \<Rightarrow> u64 \<Rightarrow> u32 \<Rightarrow> nat \<Rightarrow> (u64 \<times> u32) list" where
  "chunk_seq line a r 0 = []"
| "chunk_seq line a r (Suc b) =
     (if r = 0 then []
      else let c = ucast (memoryChunkSize a (ucast r) line (ucast r)) :: u32
           in (a, c) # chunk_seq line (a + ucast c) (r - c) b)"

section \<open>Flush ranges\<close>

record flush_range =
  first_line :: u64
  fr_end :: u64
  line_count :: u64

definition computeBalarFlushRange :: "u64 \<Rightarrow> u64 \<Rightarrow> u64 \<Rightarrow> flush_range \<Rightarrow> bool \<times> flush_range" where
  "computeBalarFlushRange scratch flush_bytes line_size range0 =
     (if line_size = 0 \<or> flush_bytes > (- 1) - scratch then (False, range0)
      else
        let r1 = range0\<lparr>first_line := (scratch div line_size) * line_size,
                         fr_end := scratch + flush_bytes\<rparr>
        in if flush_bytes = 0 then (True, r1\<lparr>line_count := 0\<rparr>)
           else
             let span = fr_end r1 - first_line r1;
                 r2 = r1\<lparr>line_count := span div line_size + (if span mod line_size \<noteq> 0 then 1 else 0)\<rparr>
             in if line_count r2 = 0 then (True, r2)
                else
                  let steps = line_count r2 - 1
                  in if steps > ((- 1) - first_line r2) div line_size then (False, r2)
                     else (line_size \<le> (- 1) - (first_line r2 + steps * line_size), r2))"

section \<open>Integer codecs\<close>

fun accelDataToU64 :: "u8 list \<Rightarrow> u64" where
  "accelDataToU64 [] = 0"
| "accelDataToU64 (b # bs) = push_bit 8 (accelDataToU64 bs) OR ucast b"

fun accelU64ToData :: "u64 \<Rightarrow> nat \<Rightarrow> u8 list" where
  "accelU64ToData val 0 = []"
| "accelU64ToData val (Suc n) = ucast (val AND 0xFF) # accelU64ToData (drop_bit 8 val) n"

text \<open>The most-significant-byte-first reading of a window access.\<close>

definition be_value :: "u8 list \<Rightarrow> u64" where
  "be_value bs = foldl (\<lambda>v b. push_bit 8 v OR ucast b) 0 bs"

section \<open>Facts on chunks\<close>

lemma max64: "unat (- 1 - a :: u64) = 2 ^ 64 - 1 - unat a"
proof -
  have "unat (- 1 :: u64) = 2 ^ 64 - 1" by (simp add: unsigned_minus_1_eq_mask mask_eq_exp_minus_1)
  then show ?thesis
    using unat_less_64 [of a] by (simp add: unat_sub_if')
qed

lemma memorySpanValid_nat: "memorySpanValid a n \<longleftrightarrow> unat a + unat n \<le> 2 ^ 64"
proof (cases "n = 0")
  case False
  then have "0 < unat n" by (simp add: unat_gt_0)
  then have "unat (n - 1) = unat n - 1" by (simp add: unat_sub word_le_nat_alt)
  then show ?thesis
    using False \<open>0 < unat n\<close> unat_less_64 [of a] unat_less_64 [of n]
    by (simp add: memorySpanValid_def word_le_nat_alt max64) linarith
qed (use unat_less_64 [of a] in \<open>simp add: memorySpanValid_def less_imp_le\<close>)

text \<open>The chunk in natural numbers: the rest of the line or the rest of the access.\<close>

definition chunk_nat :: "nat \<Rightarrow> nat \<Rightarrow> nat \<Rightarrow> nat" where
  "chunk_nat line a r = (if line = 0 then r else min r (line - a mod line))"

lemma chunk_unat:
  "unat (ucast (memoryChunkSize a (ucast (r :: u32)) line (ucast r)) :: u32) =
    chunk_nat (unat line) (unat a) (unat r)"
proof -
  have m: "unat (memoryChunkSize a (ucast r) line (ucast r)) = chunk_nat (unat line) (unat a) (unat r)"
  proof (cases "line = 0")
    case False
    then have "0 < unat line" by (simp add: unat_gt_0)
    then have "unat (line - a mod line) = unat line - unat a mod unat line"
      by (simp add: unat_sub word_le_nat_alt unat_mod less_imp_le)
    then show ?thesis
      using False by (auto simp: memoryChunkSize_def chunk_nat_def Let_def min_def word_le_nat_alt unat_eq_0)
  qed (simp add: memoryChunkSize_def chunk_nat_def)
  have "chunk_nat (unat line) (unat a) (unat r) \<le> unat r" by (simp add: chunk_nat_def)
  then have "chunk_nat (unat line) (unat a) (unat r) < 2 ^ 32"
    using unat_less_32 [of r] by linarith
  then show ?thesis
    unfolding unsigned_ucast_eq m by (simp add: take_bit_nat_eq_self)
qed

lemma chunk_nat_pos: "0 < r \<Longrightarrow> 0 < chunk_nat line a r"
  by (simp add: chunk_nat_def)

lemma chunk_nat_le: "chunk_nat line a r \<le> r"
  by (simp add: chunk_nat_def)

abbreviation chunk_word :: "u64 \<Rightarrow> u64 \<Rightarrow> u32 \<Rightarrow> u32" where
  "chunk_word line a r \<equiv> ucast (memoryChunkSize a (ucast r) line (ucast r))"

lemma chunk_rest: "unat (r - chunk_word line a r) = unat r - chunk_nat (unat line) (unat a) (unat r)"
  using chunk_unat [of a r line] chunk_nat_le [of "unat line" "unat a" "unat r"]
  by (simp add: unat_sub word_le_nat_alt)

definition seq_bytes :: "(u64 \<times> u32) list \<Rightarrow> nat" where
  "seq_bytes cs = sum_list (map (\<lambda>(a, c). unat c) cs)"

lemma seq_bytes_simps [simp]:
  "seq_bytes [] = 0" "seq_bytes ((a, c) # cs) = unat c + seq_bytes cs"
  "seq_bytes (xs @ ys) = seq_bytes xs + seq_bytes ys"
  by (simp_all add: seq_bytes_def)

lemma length_chunk_seq: "length (chunk_seq line a r b) \<le> b"
  by (induction b arbitrary: a r) (simp_all add: Let_def)

lemma seq_bytes_le: "seq_bytes (chunk_seq line a r b) \<le> unat r"
proof (induction b arbitrary: a r)
  case (Suc b)
  show ?case
  proof (cases "r = 0")
    case False
    then show ?thesis
      using Suc [of "a + ucast (chunk_word line a r)" "r - chunk_word line a r"]
        chunk_nat_le [of "unat line" "unat a" "unat r"]
      by (simp add: Let_def chunk_rest chunk_unat)
  qed simp
qed simp

text \<open>Enough budget issues the whole access.\<close>

lemma seq_bytes_all: "unat r \<le> b \<Longrightarrow> seq_bytes (chunk_seq line a r b) = unat r"
proof (induction b arbitrary: a r)
  case (Suc b)
  show ?case
  proof (cases "r = 0")
    case False
    then have "0 < chunk_nat (unat line) (unat a) (unat r)" by (intro chunk_nat_pos) (simp add: unat_gt_0)
    then show ?thesis
      using Suc.IH [of "r - chunk_word line a r" "a + ucast (chunk_word line a r)"] Suc.prems False
        chunk_nat_le [of "unat line" "unat a" "unat r"]
      by (simp add: Let_def chunk_rest chunk_unat)
  qed simp
qed (simp add: unat_eq_0)

lemma chunk_seq_zero [simp]: "chunk_seq line a 0 b = []"
  by (cases b) simp_all

text \<open>A window of \<open>b + c\<close> requests is a window of \<open>b\<close> followed by one of \<open>c\<close> that starts where
  the first one stopped.\<close>

lemma chunk_seq_resume:
  "chunk_seq line a r (b + c) =
     (let cs = chunk_seq line a r b; n = of_nat (seq_bytes cs)
      in cs @ chunk_seq line (a + n) (r - of_nat (seq_bytes cs)) c)"
proof (induction b arbitrary: a r)
  case (Suc b)
  show ?case
  proof (cases "r = 0")
    case False
    note ucast_32_64_of_nat [of "chunk_word line a r"]
    then show ?thesis
      using False Suc.IH [of "a + ucast (chunk_word line a r)" "r - chunk_word line a r"]
      by (simp add: Let_def algebra_simps)
  qed simp
qed simp

lemma chunk_seq_nth:
  assumes "unat a + unat r \<le> 2 ^ 64" "i < length (chunk_seq line a r b)" "chunk_seq line a r b ! i = (x, c)"
  shows "unat x = unat a + seq_bytes (take i (chunk_seq line a r b)) \<and> 0 < unat c \<and>
    seq_bytes (take i (chunk_seq line a r b)) + unat c \<le> unat r \<and>
    (line \<noteq> 0 \<longrightarrow> unat x mod unat line + unat c \<le> unat line)"
  using assms
proof (induction b arbitrary: a r i)
  case (Suc b)
  let ?c = "chunk_word line a r" and ?cs = "chunk_seq line (a + ucast (chunk_word line a r)) (r - chunk_word line a r) b"
  have r0: "r \<noteq> 0" using Suc.prems(2) by (auto split: if_splits)
  have cpos: "0 < unat ?c" and cle: "unat ?c \<le> unat r" and crest: "unat (r - ?c) = unat r - unat ?c"
    using chunk_nat_pos [of "unat r"] chunk_nat_le r0 by (simp_all add: chunk_unat chunk_rest unat_gt_0)
  have seq: "chunk_seq line a r (Suc b) = (a, ?c) # ?cs" using r0 by (simp add: Let_def)
  note prems = Suc.prems(2,3) [unfolded seq]
  show ?case
    unfolding seq
  proof (cases i)
    case 0
    then have "x = a" "c = ?c" using prems by auto
    moreover have "unat a mod unat line + unat ?c \<le> unat line" if "line \<noteq> 0"
    proof -
      have "0 < unat line" using that by (simp add: unat_gt_0)
      from mod_less_divisor [OF this, of "unat a"] show ?thesis
        by (simp add: chunk_unat chunk_nat_def)
    qed
    ultimately show "unat x = unat a + seq_bytes (take i ((a, ?c) # ?cs)) \<and> 0 < unat c \<and>
        seq_bytes (take i ((a, ?c) # ?cs)) + unat c \<le> unat r \<and>
        (line \<noteq> 0 \<longrightarrow> unat x mod unat line + unat c \<le> unat line)"
      using 0 cpos cle by simp
  next
    case (Suc j)
    then have j: "j < length ?cs" "?cs ! j = (x, c)" using prems by simp_all
    have "r - ?c \<noteq> 0" using j(1) by auto
    then have lt: "unat ?c < unat r" using crest cle by (metis unat_eq_0 diff_is_0_eq linorder_not_le)
    then have u: "unat (a + ucast ?c) = unat a + unat ?c"
      using Suc.prems(1) by (intro trans [OF unat_add_lt_64]) simp_all
    have "unat (a + ucast ?c) + unat (r - ?c) \<le> 2 ^ 64"
      using u crest cle Suc.prems(1) by simp
    from Suc.IH [OF this j]
    show "unat x = unat a + seq_bytes (take i ((a, ?c) # ?cs)) \<and> 0 < unat c \<and>
        seq_bytes (take i ((a, ?c) # ?cs)) + unat c \<le> unat r \<and>
        (line \<noteq> 0 \<longrightarrow> unat x mod unat line + unat c \<le> unat line)"
      using u crest cle Suc by auto
  qed
qed simp

text \<open>How many chunks there are.\<close>

definition slots_nat :: "nat \<Rightarrow> nat \<Rightarrow> nat \<Rightarrow> nat" where
  "slots_nat line a r = (if r = 0 then 0 else 1 + (a mod line + r - 1) div line)"

lemma slots_nat_step:
  assumes "0 < line" "0 < r"
  shows "slots_nat line a r = 1 + slots_nat line (a + chunk_nat line a r) (r - chunk_nat line a r)"
proof (cases "r \<le> line - a mod line")
  case True
  have "a mod line < line" using assms(1) by simp
  then have "(a mod line + r - 1) div line = 0" using True assms by (intro div_less) linarith
  then show ?thesis using True assms by (simp add: slots_nat_def chunk_nat_def)
next
  case False
  let ?k = "line - a mod line"
  have lt: "a mod line < line" using assms(1) by simp
  have k: "chunk_nat line a r = ?k" using False assms by (simp add: chunk_nat_def)
  have "a + ?k = (a div line + 1) * line"
    using lt div_mult_mod_eq [of a line] unfolding distrib_right by linarith
  then have "(a + ?k) mod line = 0" by simp
  then have rest: "slots_nat line (a + ?k) (r - ?k) = 1 + (r - ?k - 1) div line"
    using False by (simp add: slots_nat_def del: diff_diff_left)
  have e: "a mod line + r - 1 = line + (r - ?k - 1)" using lt False by linarith
  have "(a mod line + r - 1) div line = 1 + (r - ?k - 1) div line"
    unfolding e using assms(1) by (simp only: div_add_self1)
  then have "slots_nat line a r = 1 + (1 + (r - ?k - 1) div line)"
    using assms(2) by (simp only: slots_nat_def) simp
  then show ?thesis unfolding k rest .
qed

lemma length_chunk_seq_slots:
  assumes "line \<noteq> 0" "unat a + unat r \<le> 2 ^ 64" "unat r \<le> b"
  shows "length (chunk_seq line a r b) = slots_nat (unat line) (unat a) (unat r)"
  using assms
proof (induction b arbitrary: a r)
  case 0
  then show ?case by (simp add: slots_nat_def)
next
  case (Suc b)
  show ?case
  proof (cases "r = 0")
    case True
    then show ?thesis by (simp add: slots_nat_def)
  next
    case False
    let ?c = "chunk_word line a r" and ?n = "chunk_nat (unat line) (unat a) (unat r)"
    have line: "0 < unat line" and r: "0 < unat r" using False Suc.prems by (simp_all add: unat_gt_0)
    have c: "unat ?c = ?n" "unat (r - ?c) = unat r - ?n" "0 < ?n" "?n \<le> unat r"
      using chunk_nat_pos [OF r] chunk_nat_le by (simp_all add: chunk_unat chunk_rest)
    show ?thesis
    proof (cases "?n = unat r")
      case True
      then have "r - ?c = 0" using c(2) by (simp add: unat_eq_0 [symmetric])
      then show ?thesis
        using False slots_nat_step [OF line r, of "unat a"] True by (simp add: Let_def slots_nat_def)
    next
      case False
      then have "unat a + ?n < 2 ^ 64" using c Suc.prems by linarith
      then have u: "unat (a + ucast ?c) = unat a + ?n"
        using c(1) by (intro trans [OF unat_add_lt_64]) simp_all
      have "length (chunk_seq line (a + ucast ?c) (r - ?c) b) = slots_nat (unat line) (unat a + ?n) (unat r - ?n)"
        using Suc.IH [of "a + ucast ?c" "r - ?c"] Suc.prems c u by simp
      then show ?thesis
        using \<open>r \<noteq> 0\<close> slots_nat_step [OF line r, of "unat a"] by (simp add: Let_def)
    qed
  qed
qed

lemma memorySlots_unat:
  assumes "line \<noteq> 0" "unat line \<le> 2 ^ 63" "unat a + unat r \<le> 2 ^ 64"
  shows "unat (memorySlots a r line) = slots_nat (unat line) (unat a) (unat r)"
proof (cases "r = 0")
  case True
  then show ?thesis by (simp add: memorySlots_def slots_nat_def)
next
  case False
  have line: "0 < unat line" and r: "0 < unat r" using False assms by (simp_all add: unat_gt_0)
  have lt: "unat a mod unat line < 2 ^ 63" using line assms(2) by (meson mod_less_divisor less_le_trans)
  have r32: "unat r < 2 ^ 32" by (rule unat_less_32)
  have s: "unat (a mod line + ucast r - 1) = unat a mod unat line + unat r - 1"
  proof -
    have "unat (a mod line + ucast r) = unat a mod unat line + unat r"
      using lt r32 by (intro trans [OF unat_add_lt_64]) (simp_all add: unat_mod)
    then show ?thesis using r by (simp add: unat_sub word_le_nat_alt)
  qed
  have len: "slots_nat (unat line) (unat a) (unat r) \<le> unat r"
    using length_chunk_seq_slots [OF assms(1,3), of "unat r"] length_chunk_seq [of line a r "unat r"] by simp
  let ?d = "(a mod line + ucast r - 1) div line"
  have d: "unat ?d = (unat a mod unat line + unat r - 1) div unat line" by (simp add: unat_div s)
  have sl: "slots_nat (unat line) (unat a) (unat r) = 1 + unat ?d"
    using r by (simp add: slots_nat_def d)
  then have "unat (1 + ?d) = 1 + unat ?d"
    using len r32 by (intro trans [OF unat_add_lt_64]) simp_all
  then show ?thesis
    using False len r32 sl by (simp add: memorySlots_def unsigned_ucast_eq take_bit_nat_eq_self)
qed

section \<open>Facts on flush ranges\<close>

text \<open>The lines that cover \<open>n\<close> bytes from \<open>a\<close>, in natural numbers.\<close>

definition cover_first :: "nat \<Rightarrow> nat \<Rightarrow> nat" where
  "cover_first line a = a div line * line"

definition cover_count :: "nat \<Rightarrow> nat \<Rightarrow> nat \<Rightarrow> nat" where
  "cover_count line a n =
     (a + n - cover_first line a) div line + (if (a + n - cover_first line a) mod line \<noteq> 0 then 1 else 0)"

lemma cover_bounds:
  assumes "0 < line" "0 < n"
  shows "cover_first line a \<le> a" "a < cover_first line a + line"
    "a + n \<le> cover_first line a + cover_count line a n * line"
    "cover_first line a + (cover_count line a n - 1) * line < a + n"
    "0 < cover_count line a n"
proof -
  let ?f = "cover_first line a" and ?s = "a + n - cover_first line a"
  show f: "?f \<le> a" "a < ?f + line"
    using div_mult_mod_eq [of a line] mod_less_divisor [OF assms(1), of a]
    unfolding cover_first_def by linarith+
  have s: "0 < ?s" "a + n = ?f + ?s" using f assms by linarith+
  have d: "?s = ?s div line * line + ?s mod line" by simp
  have q0: "cover_count line a n * line = ?s" if "?s mod line = 0"
    using d that by (simp add: cover_count_def)
  have q1: "cover_count line a n * line = ?s div line * line + line" if "?s mod line \<noteq> 0"
    using that by (simp add: cover_count_def distrib_right)
  have ml: "?s mod line < line" using assms(1) by simp
  have ge: "?s \<le> cover_count line a n * line" and lt: "cover_count line a n * line < ?s + line"
    using q0 q1 d ml assms(1) by (cases "?s mod line = 0"; linarith)+
  show "a + n \<le> ?f + cover_count line a n * line" using ge s by linarith
  show c: "0 < cover_count line a n"
    using ge s(1) by (cases "cover_count line a n") auto
  then have "(cover_count line a n - 1) * line = cover_count line a n * line - line"
    by (simp add: diff_mult_distrib)
  moreover have "line \<le> cover_count line a n * line" using c by simp
  ultimately show "?f + (cover_count line a n - 1) * line < a + n" using s lt by linarith
qed

lemma ceil_div_le:
  fixes x l :: nat
  assumes "0 < l"
  shows "x div l + (if x mod l \<noteq> 0 then 1 else 0) \<le> x"
proof -
  have "x div l \<le> x div l * l" using assms by simp
  then show ?thesis using div_mult_mod_eq [of x l] by (cases "x mod l = 0"; simp; linarith)
qed

lemma flush_range_words:
  fixes a n line :: u64
  assumes "line \<noteq> 0" "unat a + unat n < 2 ^ 64"
  shows "unat (a div line * line) = cover_first (unat line) (unat a)"
    and "unat (a + n) = unat a + unat n"
    and "unat (a + n - a div line * line) = unat a + unat n - cover_first (unat line) (unat a)"
    and "unat ((a + n - a div line * line) div line +
        (if (a + n - a div line * line) mod line \<noteq> 0 then 1 else 0)) = cover_count (unat line) (unat a) (unat n)"
proof -
  have l: "0 < unat line" using assms(1) by (simp add: unat_gt_0)
  have le: "unat a div unat line * unat line \<le> unat a" by simp
  show f: "unat (a div line * line) = cover_first (unat line) (unat a)"
    using le_less_trans [OF le unat_less_64 [of a]] unat_mult_lt_64 [of "a div line" line]
    unfolding cover_first_def unat_div by blast
  show e: "unat (a + n) = unat a + unat n" using assms(2) by (rule unat_add_lt_64)
  show s: "unat (a + n - a div line * line) = unat a + unat n - cover_first (unat line) (unat a)"
  proof -
    have "a div line * line \<le> a + n" unfolding word_le_nat_alt e f cover_first_def using le by linarith
    from unat_sub [OF this] show ?thesis unfolding e f .
  qed
  let ?s = "a + n - a div line * line"
  have m: "?s mod line \<noteq> 0 \<longleftrightarrow> (unat a + unat n - cover_first (unat line) (unat a)) mod unat line \<noteq> 0"
    unfolding s [symmetric] unat_mod [symmetric] by (simp add: unat_eq_0)
  have cc: "cover_count (unat line) (unat a) (unat n) =
      unat (?s div line) + (if ?s mod line \<noteq> 0 then 1 else 0)"
    by (simp add: cover_count_def m unat_div s)
  have "unat (?s div line) + (if ?s mod line \<noteq> 0 then 1 else 0) \<le> unat ?s"
    using ceil_div_le [OF l, of "unat ?s"] by (simp add: unat_div word_unat_eq_iff unat_mod)
  then show "unat (?s div line + (if ?s mod line \<noteq> 0 then 1 else 0)) = cover_count (unat line) (unat a) (unat n)"
    unfolding cc using unat_less_64 [of ?s] by (auto simp: unat_word_ariths)
qed

lemma flush_last_line:
  fixes first count line :: u64
  assumes "line \<noteq> 0" "unat first = f" "unat count = c" "0 < c"
  shows "(\<not> count - 1 > (- 1 - first) div line \<and> line \<le> - 1 - (first + (count - 1) * line)) \<longleftrightarrow>
    f + c * unat line < 2 ^ 64"
proof -
  have l: "0 < unat line" using assms(1) by (simp add: unat_gt_0)
  have s: "unat (count - 1) = c - 1" using assms(3,4) by (simp add: unat_sub word_le_nat_alt)
  have f: "f < 2 ^ 64" using unat_less_64 [of first] assms(2) by simp
  have cl: "c * unat line = (c - 1) * unat line + unat line" using assms(4) by (cases c) simp_all
  have g1: "\<not> count - 1 > (- 1 - first) div line \<longleftrightarrow> (c - 1) * unat line \<le> 2 ^ 64 - 1 - f"
    by (simp only: not_less word_le_nat_alt unat_div max64 s assms(2) less_eq_div_iff_mult_less_eq [OF l])
  show ?thesis
  proof (cases "(c - 1) * unat line \<le> 2 ^ 64 - 1 - f")
    case False
    then show ?thesis using g1 cl f by auto
  next
    case True
    then have lt: "f + (c - 1) * unat line < 2 ^ 64" using f by linarith
    then have m: "unat ((count - 1) * line) = (c - 1) * unat line"
      using unat_mult_lt_64 [of "count - 1" line] s by simp
    then have "unat (first + (count - 1) * line) = f + (c - 1) * unat line"
      using unat_add_lt_64 [of first "(count - 1) * line"] assms(2) lt by simp
    then have "line \<le> - 1 - (first + (count - 1) * line) \<longleftrightarrow> unat line \<le> 2 ^ 64 - 1 - (f + (c - 1) * unat line)"
      by (simp only: word_le_nat_alt max64)
    then show ?thesis using g1 True cl lt by auto
  qed
qed

section \<open>Facts on the codecs\<close>

text \<open>The mailbox carries a number; a write puts its \<open>n\<close> low bytes into memory order, least
  significant first or, in a big-endian window, most significant first.\<close>

definition packMailbox :: "bool \<Rightarrow> u64 \<Rightarrow> nat \<Rightarrow> u8 list" where
  "packMailbox be wval n =
     map (\<lambda>i. let shift = (if be then n - 1 - i else i) in ucast (drop_bit (8 * shift) wval AND 0xFF)) [0..<n]"

lemma push_or_unat:
  assumes "unat v < 2 ^ 56"
  shows "unat (push_bit 8 v OR ucast (b :: u8) :: u64) = 256 * unat v + unat b"
proof -
  have "push_bit 8 v OR ucast b = push_bit 8 v + (ucast b :: u64)"
    by (rule disjunctive_add [symmetric]) (auto simp: bit_simps dest: bit_imp_le_length)
  moreover have "unat (push_bit 8 v) = 256 * unat v"
    using assms unat_mult_lt_64 [of v 256] by (simp add: push_bit_eq_mult mult.commute)
  moreover have "unat (ucast b :: u64) = unat b"
    using unat_less_8 [of b] by (simp add: unsigned_ucast_eq take_bit_nat_eq_self)
  ultimately show ?thesis
    using assms unat_less_8 [of b] by (simp add: unat_add_lt_64)
qed

lemma accelDataToU64_bound:
  "length bs \<le> 8 \<Longrightarrow> unat (accelDataToU64 bs) < 256 ^ length bs"
proof (induction bs)
  case (Cons b bs)
  then have l: "length bs \<le> 7" and i: "unat (accelDataToU64 bs) < 256 ^ length bs" by simp_all
  have "(256::nat) ^ length bs \<le> 256 ^ 7" using l by (intro power_increasing) simp_all
  then have "unat (accelDataToU64 bs) < 2 ^ 56" using i by simp
  then show ?case
    using i unat_less_8 [of b] by (simp add: push_or_unat)
qed simp

lemma accelDataToU64_Cons:
  assumes "length bs \<le> 7"
  shows "unat (accelDataToU64 (b # bs)) = 256 * unat (accelDataToU64 bs) + unat b"
proof -
  have "unat (accelDataToU64 bs) < 256 ^ length bs" using assms by (intro accelDataToU64_bound) simp
  moreover have "(256::nat) ^ length bs \<le> 256 ^ 7" using assms by (intro power_increasing) simp_all
  ultimately show ?thesis by (simp add: push_or_unat)
qed

lemma length_accelU64ToData [simp]: "length (accelU64ToData v n) = n"
  by (induction n arbitrary: v) simp_all

lemma low_byte_unat: "unat (ucast (v AND 0xFF) :: u8) = unat (v :: u64) mod 256"
proof -
  have "unat (v AND 0xFF) = unat v mod 256" using and_mask_unat [of v 8] by (simp add: mask_numeral)
  then show ?thesis by (simp add: unsigned_ucast_eq take_bit_nat_eq_self)
qed

lemma le_roundtrip_value:
  "n \<le> 8 \<Longrightarrow> unat (accelDataToU64 (accelU64ToData v n)) = unat v mod 256 ^ n"
proof (induction n arbitrary: v)
  case (Suc n)
  have "unat (accelDataToU64 (accelU64ToData v (Suc n))) =
      256 * unat (accelDataToU64 (accelU64ToData (drop_bit 8 v) n)) + unat v mod 256"
    using Suc.prems accelDataToU64_Cons [of "accelU64ToData (drop_bit 8 v) n" "ucast (v AND 0xFF)"]
    by (simp add: low_byte_unat)
  also have "\<dots> = 256 * (unat v div 256 mod 256 ^ n) + unat v mod 256"
    using Suc by (simp add: drop_bit_unat)
  also have "\<dots> = unat v mod 256 ^ Suc n"
    by (simp add: mod_mult2_eq)
  finally show ?case .
qed simp

lemma le_roundtrip_bytes:
  "length bs \<le> 8 \<Longrightarrow> accelU64ToData (accelDataToU64 bs) (length bs) = bs"
proof (induction bs)
  case (Cons b bs)
  then have u: "unat (accelDataToU64 (b # bs)) = 256 * unat (accelDataToU64 bs) + unat b"
    by (intro accelDataToU64_Cons) simp
  have "ucast (accelDataToU64 (b # bs) AND 0xFF) = b"
    using unat_less_8 [of b] unfolding word_unat_eq_iff low_byte_unat u by simp
  moreover have "drop_bit 8 (accelDataToU64 (b # bs)) = accelDataToU64 bs"
    using unat_less_8 [of b] unfolding word_unat_eq_iff drop_bit_unat u by simp
  ultimately show ?case using Cons by simp
qed simp

lemma packMailbox_le: "packMailbox False v n = accelU64ToData v n"
proof (induction n arbitrary: v)
  case (Suc n)
  have "packMailbox False v (Suc n) = ucast (v AND 0xFF) # packMailbox False (drop_bit 8 v) n"
    unfolding packMailbox_def upt_conv_Cons [OF zero_less_Suc] map_Suc_upt [symmetric]
    by (simp add: drop_bit_drop_bit add.commute)
  then show ?case using Suc by simp
qed (simp add: packMailbox_def)

lemma packMailbox_be: "packMailbox True v n = rev (accelU64ToData v n)"
proof -
  have "packMailbox True v n = rev (packMailbox False v n)"
    by (rule nth_equalityI) (simp_all add: packMailbox_def rev_nth)
  then show ?thesis by (simp add: packMailbox_le)
qed

lemma be_value_rev: "be_value bs = accelDataToU64 (rev bs)"
proof -
  have "foldl (\<lambda>v b. push_bit 8 v OR ucast b) 0 (rev bs) = accelDataToU64 bs" for bs
    by (induction bs) simp_all
  from this [of "rev bs"] show ?thesis by (simp add: be_value_def)
qed

text \<open>What a client of a codec relies on, and what it gets.\<close>

locale byte_codec =
  fixes enc :: "u64 \<Rightarrow> nat \<Rightarrow> u8 list" and dec :: "u8 list \<Rightarrow> u64"
  assumes length_enc: "length (enc v n) = n"
    and dec_enc: "n \<le> 8 \<Longrightarrow> unat (dec (enc v n)) = unat v mod 256 ^ n"
    and enc_dec: "length bs \<le> 8 \<Longrightarrow> enc (dec bs) (length bs) = bs"
begin

lemma dec_enc_fits: "n \<le> 8 \<Longrightarrow> unat v < 256 ^ n \<Longrightarrow> dec (enc v n) = v"
  by (simp add: word_unat_eq_iff dec_enc)

lemma dec_enc_8: "dec (enc v 8) = v"
  using unat_less_64 [of v] by (intro dec_enc_fits) simp_all

lemma dec_inj: "length bs \<le> 8 \<Longrightarrow> length cs = length bs \<Longrightarrow> dec bs = dec cs \<Longrightarrow> bs = cs"
  by (metis enc_dec)

end

interpretation le: byte_codec accelU64ToData accelDataToU64
  by unfold_locales (simp_all add: le_roundtrip_value le_roundtrip_bytes)

interpretation window_be: byte_codec "packMailbox True" be_value
proof
  show "length (packMailbox True v n) = n" for v n by (simp add: packMailbox_def)
  show "unat (be_value (packMailbox True v n)) = unat v mod 256 ^ n" if "n \<le> 8" for v n
    using le.dec_enc [OF that] by (simp add: be_value_rev packMailbox_be)
  show "packMailbox True (be_value bs) (length bs) = bs" if "length bs \<le> 8" for bs
    using le.enc_dec [of "rev bs"] that by (simp add: be_value_rev packMailbox_be)
qed

section \<open>Properties\<close>

text \<open>The chunks of an access that does not wrap the address space tile it: with enough
  budget they are contiguous from the start address, sum up to the access, each is non-empty
  and stays within one cache line, and there are exactly as many as \<open>memorySlots\<close> announces.\<close>

theorem chunks_tile_access:
  assumes "memorySpanValid a (ucast r)" "line \<noteq> 0" "unat line \<le> 2 ^ 63" "unat r \<le> b"
  shows "let cs = chunk_seq line a r b in
    length cs = unat (memorySlots a r line) \<and> seq_bytes cs = unat r \<and>
    (\<forall>i < length cs. unat (fst (cs ! i)) = unat a + seq_bytes (take i cs) \<and> 0 < unat (snd (cs ! i)) \<and>
       unat (fst (cs ! i)) mod unat line + unat (snd (cs ! i)) \<le> unat line)"
proof -
  have v: "unat a + unat r \<le> 2 ^ 64" using assms(1) by (simp add: memorySpanValid_nat)
  show ?thesis
    using chunk_seq_nth [OF v] length_chunk_seq_slots [OF assms(2) v assms(4)]
      memorySlots_unat [OF assms(2,3) v] seq_bytes_all [OF assms(4)] assms(2)
    by (auto simp: Let_def) (metis prod.collapse)+
qed

theorem chunks_tile_access_witness:
  "memorySlots 0x103e 20 16 = 3 \<and> length (chunk_seq 16 0x103e 20 20) = 3"
proof -
  have s: "memorySlots 0x103e 20 16 = 3" by (simp add: memorySlots_def)
  have "memorySpanValid 0x103e (ucast (20::u32))" by (simp add: memorySpanValid_nat)
  then show ?thesis
    using chunks_tile_access [of "0x103e" 20 16 20] s by (simp add: Let_def)
qed

text \<open>C26. The flush range is computed exactly: the call succeeds if and only if the line size
  is not zero, the flushed bytes end inside the address space and so does the last covered line;
  then the lines start at or below the scratch address, contain every byte to flush, the first
  and the last of them are both needed, and nothing overflows.\<close>

theorem flush_range_exact:
  fixes a n line :: u64
  shows "case computeBalarFlushRange a n line r0 of (ok, r) \<Rightarrow>
     (ok \<longleftrightarrow> line \<noteq> 0 \<and> unat a + unat n < 2 ^ 64 \<and>
        (n \<noteq> 0 \<longrightarrow> cover_first (unat line) (unat a) +
           cover_count (unat line) (unat a) (unat n) * unat line < 2 ^ 64)) \<and>
     (ok \<and> n \<noteq> 0 \<longrightarrow>
        unat (first_line r) \<le> unat a \<and> unat a < unat (first_line r) + unat line \<and>
        unat (fr_end r) = unat a + unat n \<and> unat (first_line r) mod unat line = 0 \<and>
        unat (fr_end r) \<le> unat (first_line r) + unat (line_count r) * unat line \<and>
        unat (first_line r) + (unat (line_count r) - 1) * unat line < unat (fr_end r))"
proof (cases "line = 0 \<or> \<not> unat a + unat n < 2 ^ 64 \<or> n = 0")
  case True
  have "(n > - 1 - a) \<longleftrightarrow> \<not> unat a + unat n < 2 ^ 64"
    using unat_less_64 [of a] by (simp add: word_less_nat_alt max64) linarith
  then show ?thesis using True by (auto simp: computeBalarFlushRange_def Let_def)
next
  case False
  then have line: "line \<noteq> 0" "0 < unat line" and fit: "unat a + unat n < 2 ^ 64" and n: "n \<noteq> 0" "0 < unat n"
    by (simp_all add: unat_gt_0)
  note w = flush_range_words [OF line(1) fit]
  note b = cover_bounds [OF line(2) n(2), of "unat a"]
  have ne: "\<not> n > - 1 - a" using fit by (simp add: word_less_nat_alt max64)
  let ?c = "(a + n - a div line * line) div line + (if (a + n - a div line * line) mod line \<noteq> 0 then 1 else 0)"
  let ?r = "r0\<lparr>first_line := a div line * line, fr_end := a + n, line_count := ?c\<rparr>"
  have c0: "?c \<noteq> 0" using w(4) b(5) by (metis less_irrefl unat_0)
  have res: "computeBalarFlushRange a n line r0 =
      (\<not> ?c - 1 > (- 1 - a div line * line) div line \<and> line \<le> - 1 - (a div line * line + (?c - 1) * line), ?r)"
    using line(1) n(1) ne c0 by (simp add: computeBalarFlushRange_def Let_def)
  have ok: "(\<not> ?c - 1 > (- 1 - a div line * line) div line \<and> line \<le> - 1 - (a div line * line + (?c - 1) * line)) \<longleftrightarrow>
      cover_first (unat line) (unat a) + cover_count (unat line) (unat a) (unat n) * unat line < 2 ^ 64"
    using flush_last_line [OF line(1) w(1) w(4) b(5)] .
  show ?thesis
    unfolding res using ok line fit n b w by (simp add: cover_first_def)
qed

theorem flush_range_exact_witness:
  "fst (computeBalarFlushRange 0x1038 0x50 64 \<lparr>first_line = 0, fr_end = 0, line_count = 0\<rparr>) \<and>
   \<not> fst (computeBalarFlushRange (- 8) 16 64 \<lparr>first_line = 0, fr_end = 0, line_count = 0\<rparr>)"
  using flush_range_exact [where a = "0x1038" and n = "0x50" and line = 64 and ?r0.0 = "\<lparr>first_line = 0, fr_end = 0, line_count = 0\<rparr>"]
    flush_range_exact [where a = "- 8" and n = 16 and line = 64 and ?r0.0 = "\<lparr>first_line = 0, fr_end = 0, line_count = 0\<rparr>"]
  by (simp add: case_prod_beta cover_first_def cover_count_def)

text \<open>Mailbox values survive serialisation: a value of at most eight bytes that fits its
  size is read back unchanged from the bytes written for it, in the default order and in the
  byte order of a big-endian window alike, and up to eight bytes read as a number are written
  back unchanged.\<close>

theorem mailbox_codec_roundtrip:
  assumes "n \<le> 8" "unat v < 256 ^ n" "length bs \<le> 8"
  shows "accelDataToU64 (packMailbox False v n) = v \<and> be_value (packMailbox True v n) = v \<and>
    packMailbox False (accelDataToU64 bs) (length bs) = bs \<and> packMailbox True (be_value bs) (length bs) = bs"
  using le.dec_enc_fits [OF assms(1,2)] window_be.dec_enc_fits [OF assms(1,2)]
    le.enc_dec [OF assms(3)] window_be.enc_dec [OF assms(3)]
  by (simp add: packMailbox_le)

theorem mailbox_codec_roundtrip_witness:
  "be_value (packMailbox True 0x1234 2) = 0x1234 \<and> packMailbox False (accelDataToU64 [1, 2, 3]) 3 = [1, 2, 3]"
  using mailbox_codec_roundtrip [of 2 "0x1234" "[1, 2, 3]"] by (simp add: numeral_3_eq_3)

end
