(* ===== verification/Quetz_Ipc_Types.thy ===== *)
theory Quetz_Ipc_Types
  imports Quetz_Prelude
begin

text \<open>
  The shared-memory layout of \<open>include/quetz/quetz_ipc_types.h\<close>: command and
  instruction-class codes, the mailbox slots, the IRQ level slots and the native
  RAM regions, with the validation of the regions and their configuration. The
  layout offsets are those of an LP64 host. The theorems show that a region table
  accepted by the validation is disjoint and in bounds both in the guest address
  space and in the backing storage, and that configuring succeeds exactly on the
  region lists whose guest ranges are acceptable, wherever the segment is mapped.
\<close>

section \<open>Command codes\<close>

datatype shmem_cmd =
    CMD_NOP | CMD_READ | CMD_WRITE | CMD_EXIT | CMD_MMIO_READ_REQ
  | CMD_MMIO_WRITE_REQ | CMD_COMPUTE_RUN | CMD_CACHE_OP

fun cmd_code :: "shmem_cmd \<Rightarrow> u32" where
  "cmd_code CMD_NOP = 0"
| "cmd_code CMD_READ = 1"
| "cmd_code CMD_WRITE = 2"
| "cmd_code CMD_EXIT = 3"
| "cmd_code CMD_MMIO_READ_REQ = 4"
| "cmd_code CMD_MMIO_WRITE_REQ = 5"
| "cmd_code CMD_COMPUTE_RUN = 6"
| "cmd_code CMD_CACHE_OP = 7"

datatype insn_class =
    INT_MEM | FP_MEM | VEC_MEM | INT_COMPUTE | FP_COMPUTE | VEC_COMPUTE | BRANCH | OTHER

fun class_code :: "insn_class \<Rightarrow> u32" where
  "class_code INT_MEM = 0"
| "class_code FP_MEM = 1"
| "class_code VEC_MEM = 2"
| "class_code INT_COMPUTE = 3"
| "class_code FP_COMPUTE = 4"
| "class_code VEC_COMPUTE = 5"
| "class_code BRANCH = 6"
| "class_code OTHER = 7"

definition QUETZ_INSN_CLASS_COUNT :: u32 where "QUETZ_INSN_CLASS_COUNT = 8"
definition QUETZ_COMPUTE_RUN_MAX :: u32 where "QUETZ_COMPUTE_RUN_MAX = 4096"
definition QUETZ_CMD_DATA_BYTES :: u32 where "QUETZ_CMD_DATA_BYTES = 64"
definition QUETZ_MAX_MMIO_VCORES :: u32 where "QUETZ_MAX_MMIO_VCORES = 256"
definition QUETZ_MAX_IRQ_LINES :: u32 where "QUETZ_MAX_IRQ_LINES = 64"
definition QUETZ_SHM_MAGIC :: u32 where "QUETZ_SHM_MAGIC = 0x515A4D06"
definition QUETZ_MAX_NATIVE_REGIONS :: u32 where "QUETZ_MAX_NATIVE_REGIONS = 2"
definition QUETZ_NATIVE_REGION_BYTES :: u32 where "QUETZ_NATIVE_REGION_BYTES = 65536"

lemma cmd_code_inj: "cmd_code a = cmd_code b \<longleftrightarrow> a = b"
  by (cases a; cases b; simp)

lemma class_code_inj: "class_code a = class_code b \<longleftrightarrow> a = b"
  by (cases a; cases b; simp)

lemma class_code_bound: "class_code c < QUETZ_INSN_CLASS_COUNT"
  by (cases c; simp add: QUETZ_INSN_CLASS_COUNT_def)

lemmas ipc_constants = QUETZ_INSN_CLASS_COUNT_def QUETZ_COMPUTE_RUN_MAX_def
  QUETZ_CMD_DATA_BYTES_def QUETZ_MAX_MMIO_VCORES_def QUETZ_MAX_IRQ_LINES_def
  QUETZ_SHM_MAGIC_def QUETZ_MAX_NATIVE_REGIONS_def QUETZ_NATIVE_REGION_BYTES_def

declare ipc_constants [quetz_eval]

section \<open>Shared data\<close>

record quetz_command =
  qc_cmd :: u32
  qc_size :: u32
  qc_pc :: u64
  qc_addr :: u64
  qc_insn_class :: u32
  qc_data :: "u8 list"

record mmio_response_slot =
  ready :: u32
  resp_value :: u64

record mmio_sync_request =
  pending :: u32
  req_cmd :: u32
  req_size :: u32
  busy :: u32
  req_addr :: u64
  write_val :: u64

record irq_slot_t =
  irq_seq :: u32
  irq_level :: u32

record native_ram_region =
  nr_base :: u32
  nr_size :: u32
  nr_offset :: u32
  nr_reserved :: u32

text \<open>The slot arrays are functions of the vCPU (and line) index; the RAM bytes
  of the segment are addressed by their offset from its start.\<close>

record shared_data =
  num_cores :: u64
  sim_time :: u64
  sim_cycles :: u64
  child_attached :: u32
  mmio_slot :: "nat \<Rightarrow> mmio_response_slot"
  mmio_req :: "nat \<Rightarrow> mmio_sync_request"
  irq_slot :: "nat \<Rightarrow> nat \<Rightarrow> irq_slot_t"
  irq_generation :: u32
  cpu_reset_epoch :: "nat \<Rightarrow> u32"
  native_region_count :: u32
  native_regions :: "native_ram_region list"
  native_bytes :: "nat \<Rightarrow> u8"
  shm_magic :: u32

definition zero_slot :: mmio_response_slot where
  "zero_slot = \<lparr>ready = 0, resp_value = 0\<rparr>"

definition zero_req :: mmio_sync_request where
  "zero_req = \<lparr>pending = 0, req_cmd = 0, req_size = 0, busy = 0, req_addr = 0, write_val = 0\<rparr>"

definition zero_irq :: irq_slot_t where
  "zero_irq = \<lparr>irq_seq = 0, irq_level = 0\<rparr>"

definition zero_region :: native_ram_region where
  "zero_region = \<lparr>nr_base = 0, nr_size = 0, nr_offset = 0, nr_reserved = 0\<rparr>"

text \<open>\<open>offsetof(QuetzSharedData, native_ram_storage)\<close>: three 8-byte counters, two
  4-byte words, 256 response slots of 16 bytes, 256 request slots of 32 bytes,
  256 times 64 IRQ slots of 8 bytes, two 4-byte words, 256 reset epochs, the region
  count and two region descriptors of 16 bytes.\<close>

definition native_storage_begin :: u64 where
  "native_storage_begin =
    3 * 8 + 2 * 4 + 256 * 16 + 256 * 32 + 256 * 64 * 8 + 2 * 4 + 256 * 4 + 4 + 2 * 16"

definition native_storage_size :: u64 where
  "native_storage_size = (2 + 1) * 65536 - 1"

definition native_storage_end :: u64 where
  "native_storage_end = native_storage_begin + native_storage_size"

lemma native_storage_eval [quetz_eval]:
  "native_storage_begin = 144460" "native_storage_size = 196607" "native_storage_end = 341067"
  by (simp_all add: native_storage_begin_def native_storage_size_def native_storage_end_def)

section \<open>Native RAM regions\<close>

text \<open>The early returns of the validation loop: the checks on one region, and on a
  pair of regions. \<open>base\<close> is the address the segment is mapped at.\<close>

definition native_region_ok :: "u64 \<Rightarrow> native_ram_region \<Rightarrow> bool" where
  "native_region_ok base a \<longleftrightarrow>
     nr_size a \<noteq> 0 \<and> \<not> nr_size a > QUETZ_NATIVE_REGION_BYTES \<and>
     nr_base a AND 4095 = 0 \<and> nr_size a AND 4095 = 0 \<and>
     \<not> (ucast (nr_base a) :: u64) + ucast (nr_size a) > push_bit 32 1 \<and>
     \<not> (ucast (nr_offset a) :: u64) < native_storage_begin \<and>
     \<not> (ucast (nr_offset a) :: u64) > native_storage_end - ucast (nr_size a) \<and>
     nr_reserved a = 0 \<and>
     (base + ucast (nr_offset a)) AND 4095 = 0"

definition native_regions_overlap :: "native_ram_region \<Rightarrow> native_ram_region \<Rightarrow> bool" where
  "native_regions_overlap a b \<longleftrightarrow>
     ((ucast (nr_base a) :: u64) < ucast (nr_base b) + ucast (nr_size b) \<and>
      (ucast (nr_base b) :: u64) < ucast (nr_base a) + ucast (nr_size a)) \<or>
     (nr_offset a < nr_offset b + nr_size b \<and> nr_offset b < nr_offset a + nr_size a)"

definition quetz_native_regions_valid :: "u64 \<Rightarrow> shared_data \<Rightarrow> bool" where
  "quetz_native_regions_valid base sh \<longleftrightarrow>
     native_region_count sh \<le> QUETZ_MAX_NATIVE_REGIONS \<and>
     (\<forall>i < unat (native_region_count sh).
        native_region_ok base (native_regions sh ! i) \<and>
        (\<forall>j < i. \<not> native_regions_overlap (native_regions sh ! i) (native_regions sh ! j)))"

text \<open>The pointer the code returns, as an offset from the start of the segment.\<close>

definition quetz_native_ram :: "u64 \<Rightarrow> shared_data \<Rightarrow> u32 \<Rightarrow> nat option" where
  "quetz_native_ram base sh region =
     (if region \<ge> native_region_count sh \<or> \<not> quetz_native_regions_valid base sh then None
      else Some (unat (nr_offset (native_regions sh ! unat region))))"

definition native_first :: "u64 \<Rightarrow> u64" where
  "native_first base =
     (base + native_storage_begin + ucast QUETZ_NATIVE_REGION_BYTES - 1)
       AND NOT (ucast QUETZ_NATIVE_REGION_BYTES - 1)"

definition place_native_region :: "u64 \<Rightarrow> nat \<Rightarrow> native_ram_region \<Rightarrow> native_ram_region" where
  "place_native_region base i r =
     r\<lparr>nr_offset := ucast (native_first base - base) + of_nat i * QUETZ_NATIVE_REGION_BYTES,
       nr_reserved := 0\<rparr>"

text \<open>\<open>regions\<close> is \<open>None\<close> for the null pointer; the result is the returned flag and the
  updated segment.\<close>

definition quetz_configure_native_regions ::
    "u64 \<Rightarrow> shared_data \<Rightarrow> native_ram_region list option \<Rightarrow> u32 \<Rightarrow> bool \<times> shared_data" where
  "quetz_configure_native_regions base sh regions count =
     (if count > QUETZ_MAX_NATIVE_REGIONS \<or> (count \<noteq> 0 \<and> regions = None) then (False, sh)
      else
        let rs = (case regions of None \<Rightarrow> [] | Some rs \<Rightarrow> rs);
            placed = map (\<lambda>i. place_native_region base i (rs ! i)) [0..<unat count];
            sh' = sh\<lparr>native_region_count := count,
                     native_regions := copy_into (native_regions sh) 0 placed\<rparr>
        in if quetz_native_regions_valid base sh' then (True, sh')
           else (False, sh'\<lparr>native_region_count := 0\<rparr>))"

section \<open>The validation in terms of address ranges\<close>

abbreviation guest_range :: "native_ram_region \<Rightarrow> nat set" where
  "guest_range r \<equiv> {unat (nr_base r) ..< unat (nr_base r) + unat (nr_size r)}"

abbreviation storage_range :: "native_ram_region \<Rightarrow> nat set" where
  "storage_range r \<equiv> {unat (nr_offset r) ..< unat (nr_offset r) + unat (nr_size r)}"

text \<open>The conditions of the validation that only concern the guest side.\<close>

definition guest_region_ok :: "native_ram_region \<Rightarrow> bool" where
  "guest_region_ok r \<longleftrightarrow>
     0 < unat (nr_size r) \<and> unat (nr_size r) \<le> 65536 \<and>
     unat (nr_base r) mod 4096 = 0 \<and> unat (nr_size r) mod 4096 = 0 \<and>
     unat (nr_base r) + unat (nr_size r) \<le> 2 ^ 32"

lemma native_region_ok_nat:
  "native_region_ok base r \<longleftrightarrow>
     guest_region_ok r \<and> 144460 \<le> unat (nr_offset r) \<and>
     unat (nr_offset r) + unat (nr_size r) \<le> 341067 \<and> nr_reserved r = 0 \<and>
     (unat base + unat (nr_offset r)) mod 4096 = 0"
proof -
  have s: "nr_size r \<noteq> 0 \<longleftrightarrow> 0 < unat (nr_size r)"
    by (simp add: unat_gt_0)
  have b: "\<not> nr_size r > QUETZ_NATIVE_REGION_BYTES \<longleftrightarrow> unat (nr_size r) \<le> 65536"
    by (simp add: word_less_nat_alt ipc_constants not_less)
  have g: "\<not> (ucast (nr_base r) :: u64) + ucast (nr_size r) > push_bit 32 1 \<longleftrightarrow>
      unat (nr_base r) + unat (nr_size r) \<le> 2 ^ 32"
    using unat_less_32 [of "nr_base r"] unat_less_32 [of "nr_size r"]
    by (simp add: word_less_nat_alt not_less unat_word_ariths)
  have l: "\<not> (ucast (nr_offset r) :: u64) < native_storage_begin \<longleftrightarrow> 144460 \<le> unat (nr_offset r)"
    by (simp add: word_less_nat_alt not_less native_storage_eval)
  have u: "\<not> (ucast (nr_offset r) :: u64) > native_storage_end - ucast (nr_size r) \<longleftrightarrow>
      unat (nr_offset r) + unat (nr_size r) \<le> 341067" if "unat (nr_size r) \<le> 65536"
    using that by (simp add: word_less_nat_alt not_less native_storage_eval unat_sub_if')
       linarith
  have m: "(base + ucast (nr_offset r)) AND 4095 = 0 \<longleftrightarrow>
      (unat base + unat (nr_offset r)) mod 4096 = 0"
    by (simp add: and_4095_zero_iff unat_word_ariths mod_mod_cancel)
  show ?thesis
    unfolding native_region_ok_def guest_region_ok_def s b g l m
    using u by (auto simp: and_4095_zero_iff)
qed

lemma native_regions_overlap_nat:
  assumes "native_region_ok base a" "native_region_ok base b"
  shows "native_regions_overlap a b \<longleftrightarrow>
    guest_range a \<inter> guest_range b \<noteq> {} \<or> storage_range a \<inter> storage_range b \<noteq> {}"
proof -
  have bnd: "0 < unat (nr_size a)" "0 < unat (nr_size b)"
    "unat (nr_offset a) + unat (nr_size a) < 2 ^ 32" "unat (nr_offset b) + unat (nr_size b) < 2 ^ 32"
    using assms by (auto simp: native_region_ok_nat guest_region_ok_def)
  have "(ucast (nr_base a) :: u64) < ucast (nr_base b) + ucast (nr_size b) \<longleftrightarrow>
      unat (nr_base a) < unat (nr_base b) + unat (nr_size b)"
    and "(ucast (nr_base b) :: u64) < ucast (nr_base a) + ucast (nr_size a) \<longleftrightarrow>
      unat (nr_base b) < unat (nr_base a) + unat (nr_size a)"
    using unat_less_32 [of "nr_base a"] unat_less_32 [of "nr_size a"]
      unat_less_32 [of "nr_base b"] unat_less_32 [of "nr_size b"]
    by (simp_all add: word_less_nat_alt unat_word_ariths)
  moreover have "nr_offset a < nr_offset b + nr_size b \<longleftrightarrow>
      unat (nr_offset a) < unat (nr_offset b) + unat (nr_size b)"
    and "nr_offset b < nr_offset a + nr_size a \<longleftrightarrow>
      unat (nr_offset b) < unat (nr_offset a) + unat (nr_size a)"
    using bnd by (simp_all add: word_less_nat_alt unat_word_ariths)
  ultimately show ?thesis
    unfolding native_regions_overlap_def ranges_meet_iff [OF bnd(1,2)] by blast
qed

lemma native_first_offset:
  assumes "unat base + 341080 \<le> 2 ^ 64"
  shows "144460 \<le> unat (native_first base - base)"
    and "unat (native_first base - base) \<le> 144460 + 65535"
    and "(unat base + unat (native_first base - base)) mod 65536 = 0"
proof -
  let ?t = "base + native_storage_begin + ucast QUETZ_NATIVE_REGION_BYTES - 1"
  have t: "unat ?t = unat base + 209995"
    using assms by (simp add: native_storage_eval ipc_constants unat_word_ariths)
  have f: "unat (native_first base) = 65536 * ((unat base + 209995) div 65536)"
    using and_not_mask_unat [of ?t 16] unfolding t
    by (simp add: native_first_def ipc_constants mask_numeral)
  note rd = round_down_bounds [of 65536 "unat base + 209995", folded f, simplified]
  have le: "unat base \<le> unat (native_first base)"
    using rd by linarith
  then have d: "unat (native_first base - base) = unat (native_first base) - unat base"
    by (simp add: unat_sub word_le_nat_alt)
  show "144460 \<le> unat (native_first base - base)"
    and "unat (native_first base - base) \<le> 144460 + 65535"
    unfolding d using rd by linarith+
  show "(unat base + unat (native_first base - base)) mod 65536 = 0"
    unfolding d using le by (simp add: f)
qed

lemma place_native_region_ok:
  assumes "unat base + 341080 \<le> 2 ^ 64" "i < 2"
  shows "native_region_ok base (place_native_region base i r) \<longleftrightarrow> guest_region_ok r"
    and "unat (nr_offset (place_native_region base i r)) = unat (native_first base - base) + i * 65536"
proof -
  let ?d = "native_first base - base"
  note fo = native_first_offset [OF assms(1)]
  have u: "unat (ucast ?d :: u32) = unat ?d"
    using fo(2) by (simp add: unsigned_ucast_eq take_bit_nat_eq_self)
  show o: "unat (nr_offset (place_native_region base i r)) = unat ?d + i * 65536"
    using fo(2) u \<open>i < 2\<close>
    by (simp add: place_native_region_def ipc_constants unat_word_ariths unat_of_nat)
  have m: "(unat base + (unat ?d + i * 65536)) mod 4096 = 0"
  proof -
    have k: "(4096::nat) dvd 65536" by simp
    have "4096 dvd unat base + unat ?d"
      using fo(3) k by (meson dvd_trans mod_eq_0_iff_dvd)
    then have "4096 dvd (unat base + unat ?d) + i * 65536"
      using k by (rule dvd_add [OF _ dvd_mult])
    then show ?thesis by (simp add: add.assoc mod_eq_0_iff_dvd)
  qed
  have g: "guest_region_ok (place_native_region base i r) \<longleftrightarrow> guest_region_ok r"
    by (simp add: guest_region_ok_def place_native_region_def)
  show "native_region_ok base (place_native_region base i r) \<longleftrightarrow> guest_region_ok r"
    unfolding native_region_ok_nat o g using m fo(1,2) \<open>i < 2\<close>
    by (auto simp: guest_region_ok_def place_native_region_def)
qed

lemma native_regions_valid_ok:
  "quetz_native_regions_valid base sh \<Longrightarrow> i < unat (native_region_count sh) \<Longrightarrow>
    native_region_ok base (native_regions sh ! i)"
  by (simp add: quetz_native_regions_valid_def)

lemma native_regions_valid_apart:
  assumes v: "quetz_native_regions_valid base sh"
    and i: "i < unat (native_region_count sh)" and j: "j < unat (native_region_count sh)"
    and ne: "i \<noteq> j"
  shows "guest_range (native_regions sh ! i) \<inter> guest_range (native_regions sh ! j) = {}"
    and "storage_range (native_regions sh ! i) \<inter> storage_range (native_regions sh ! j) = {}"
proof -
  have "\<not> native_regions_overlap (native_regions sh ! max i j) (native_regions sh ! min i j)"
    using v i j ne by (auto simp: quetz_native_regions_valid_def max_def min_def)
  then show "guest_range (native_regions sh ! i) \<inter> guest_range (native_regions sh ! j) = {}"
    and "storage_range (native_regions sh ! i) \<inter> storage_range (native_regions sh ! j) = {}"
    using native_regions_overlap_nat [OF native_regions_valid_ok [OF v i] native_regions_valid_ok [OF v j]]
      native_regions_overlap_nat [OF native_regions_valid_ok [OF v j] native_regions_valid_ok [OF v i]]
    by (auto simp: max_def min_def split: if_splits)
qed

text \<open>A placed table: its regions only meet where the guest ranges meet, because the
  storage blocks are a whole region apart.\<close>

lemma placed_overlap:
  assumes b: "unat base + 341080 \<le> 2 ^ 64" and ij: "i < 2" "j < i"
    and g: "guest_region_ok r" "guest_region_ok q"
  shows "native_regions_overlap (place_native_region base i r) (place_native_region base j q) \<longleftrightarrow>
    guest_range r \<inter> guest_range q \<noteq> {}"
proof -
  have j2: "j < 2" using ij by simp
  have sz: "nr_size (place_native_region base k x) = nr_size x"
    "nr_base (place_native_region base k x) = nr_base x" for k x
    by (simp_all add: place_native_region_def)
  have "storage_range (place_native_region base i r) \<inter> storage_range (place_native_region base j q) = {}"
    using g(2) ij unfolding place_native_region_ok(2) [OF b ij(1)] place_native_region_ok(2) [OF b j2] sz
    by (auto simp: guest_region_ok_def)
  then show ?thesis
    using native_regions_overlap_nat [of base "place_native_region base i r" "place_native_region base j q"]
      place_native_region_ok(1) [OF b ij(1), of r] place_native_region_ok(1) [OF b j2, of q] g
    by (simp add: sz)
qed

text \<open>The segment after the table has been written, before it is validated.\<close>

definition placed_table :: "u64 \<Rightarrow> shared_data \<Rightarrow> native_ram_region list \<Rightarrow> u32 \<Rightarrow> shared_data" where
  "placed_table base sh rs count =
     sh\<lparr>native_region_count := count,
        native_regions := copy_into (native_regions sh) 0
          (map (\<lambda>i. place_native_region base i (rs ! i)) [0..<unat count])\<rparr>"

lemma placed_table_nth:
  "i < unat count \<Longrightarrow>
    native_regions (placed_table base sh rs count) ! i = place_native_region base i (rs ! i)"
  by (simp add: placed_table_def copy_into_def nth_append)

lemma placed_table_valid:
  assumes b: "unat base + 341080 \<le> 2 ^ 64" and c: "count \<le> 2"
  shows "quetz_native_regions_valid base (placed_table base sh rs count) \<longleftrightarrow>
    (\<forall>i < unat count. guest_region_ok (rs ! i) \<and>
        (\<forall>j < i. guest_range (rs ! i) \<inter> guest_range (rs ! j) = {}))"
proof -
  have lt: "i < 2" if "i < unat count" for i
    using c that by (simp add: word_le_nat_alt)
  have cnt: "native_region_count (placed_table base sh rs count) = count"
    by (simp add: placed_table_def)
  have ok: "native_region_ok base (native_regions (placed_table base sh rs count) ! i) \<longleftrightarrow>
      guest_region_ok (rs ! i)" if "i < unat count" for i
    using place_native_region_ok(1) [OF b lt [OF that]] by (simp add: placed_table_nth that)
  have ov: "native_regions_overlap (native_regions (placed_table base sh rs count) ! i)
      (native_regions (placed_table base sh rs count) ! j) \<longleftrightarrow>
      guest_range (rs ! i) \<inter> guest_range (rs ! j) \<noteq> {}"
    if "i < unat count" "j < i" "guest_region_ok (rs ! i)" "guest_region_ok (rs ! j)" for i j
    using placed_overlap [OF b lt [OF that(1)] that(2-4)] that by (simp add: placed_table_nth)
  have c': "count \<le> QUETZ_MAX_NATIVE_REGIONS"
    using c by (simp add: ipc_constants)
  have "(\<forall>i < unat count. native_region_ok base (native_regions (placed_table base sh rs count) ! i) \<and>
        (\<forall>j < i. \<not> native_regions_overlap (native_regions (placed_table base sh rs count) ! i)
           (native_regions (placed_table base sh rs count) ! j))) \<longleftrightarrow>
    (\<forall>i < unat count. guest_region_ok (rs ! i) \<and>
        (\<forall>j < i. guest_range (rs ! i) \<inter> guest_range (rs ! j) = {}))" (is "?L \<longleftrightarrow> ?R")
  proof
    assume L: ?L
    then have g: "guest_region_ok (rs ! i)" if "i < unat count" for i
      using that ok by blast
    show ?R
      using L g ov by (meson less_trans)
  next
    assume R: ?R
    then have g: "guest_region_ok (rs ! i)" if "i < unat count" for i
      using that by blast
    show ?L
      using R g ov ok by (meson less_trans)
  qed
  then show ?thesis
    unfolding quetz_native_regions_valid_def cnt using c' by simp
qed

text \<open>A segment with two native regions, for the concrete instances.\<close>

definition zero_shared :: shared_data where
  "zero_shared = \<lparr>num_cores = 0, sim_time = 0, sim_cycles = 0, child_attached = 0,
     mmio_slot = (\<lambda>_. zero_slot), mmio_req = (\<lambda>_. zero_req), irq_slot = (\<lambda>_ _. zero_irq),
     irq_generation = 0, cpu_reset_epoch = (\<lambda>_. 0), native_region_count = 0,
     native_regions = [zero_region, zero_region], native_bytes = (\<lambda>_. 0), shm_magic = 0\<rparr>"

lemma zero_shared_fields [simp]: "native_regions zero_shared = [zero_region, zero_region]"
  by (simp add: zero_shared_def)

definition sample_regions :: "native_ram_region list" where
  "sample_regions =
     [\<lparr>nr_base = 0x20000000, nr_size = 0x8000, nr_offset = 0, nr_reserved = 0\<rparr>,
      \<lparr>nr_base = 0x20010000, nr_size = 0x10000, nr_offset = 0, nr_reserved = 7\<rparr>]"

definition sample_shared :: shared_data where
  "sample_shared = zero_shared\<lparr>native_region_count := 2, native_regions :=
     [\<lparr>nr_base = 0x20000000, nr_size = 0x8000, nr_offset = 196608, nr_reserved = 0\<rparr>,
      \<lparr>nr_base = 0x20010000, nr_size = 0x10000, nr_offset = 262144, nr_reserved = 0\<rparr>]\<rparr>"

lemma sample_shared_valid: "quetz_native_regions_valid 0 sample_shared"
  by (simp add: quetz_native_regions_valid_def sample_shared_def native_region_ok_def
      native_regions_overlap_def ipc_constants native_storage_eval all_less_2)

section \<open>Properties\<close>

text \<open>Whenever the region table passes the validation, every region lies inside
  the 32-bit guest address space and inside the RAM storage of the segment, its host
  address is page aligned, and two different regions share neither a guest address nor
  a byte of storage.\<close>

theorem native_regions_valid_sound:
  assumes "quetz_native_regions_valid base sh"
    and "i < unat (native_region_count sh)" and "j < unat (native_region_count sh)"
  shows "guest_range (native_regions sh ! i) \<subseteq> {0 ..< 2 ^ 32} \<and>
    storage_range (native_regions sh ! i) \<subseteq>
      {unat native_storage_begin ..< unat native_storage_end} \<and>
    (unat base + unat (nr_offset (native_regions sh ! i))) mod 4096 = 0 \<and>
    (i \<noteq> j \<longrightarrow>
      guest_range (native_regions sh ! i) \<inter> guest_range (native_regions sh ! j) = {} \<and>
      storage_range (native_regions sh ! i) \<inter> storage_range (native_regions sh ! j) = {})"
  using native_regions_valid_apart [OF assms] native_regions_valid_ok [OF assms(1,2)]
  by (simp add: native_region_ok_nat guest_region_ok_def native_storage_eval)

theorem native_regions_valid_sound_witness:
  "guest_range (native_regions sample_shared ! 0) \<inter> guest_range (native_regions sample_shared ! 1) = {} \<and>
   storage_range (native_regions sample_shared ! 0) \<inter>
     storage_range (native_regions sample_shared ! 1) = {}"
  using native_regions_valid_sound [of 0 sample_shared 0 1] sample_shared_valid
  by (simp add: sample_shared_def)

text \<open>Configuration decides exactly the guest side: wherever the segment is mapped
  below the end of the address space, the regions are accepted if and only if there are
  at most two of them, each is a page-aligned range of at most 64 KiB of the 32-bit
  address space, and no two of them overlap; on acceptance every region has a backing
  pointer, and on refusal of a list of at most two regions the table is left empty.\<close>

theorem configure_native_regions_exact:
  assumes "unat base + 341080 \<le> 2 ^ 64" "length rs = unat count" "length (native_regions sh) = 2"
  shows "case quetz_configure_native_regions base sh (Some rs) count of (ok, sh') \<Rightarrow>
     (ok \<longleftrightarrow> count \<le> 2 \<and> (\<forall>i < length rs. guest_region_ok (rs ! i) \<and>
        (\<forall>j < i. guest_range (rs ! i) \<inter> guest_range (rs ! j) = {}))) \<and>
     (ok \<longrightarrow> (\<forall>i < length rs. quetz_native_ram base sh' (of_nat i) =
        Some (unat (native_first base - base) + i * 65536))) \<and>
     (\<not> ok \<longrightarrow> (if count \<le> 2 then native_region_count sh' = 0 else sh' = sh))"
proof (cases "count \<le> 2")
  case True
  have conf: "quetz_configure_native_regions base sh (Some rs) count =
     (if quetz_native_regions_valid base (placed_table base sh rs count)
      then (True, placed_table base sh rs count)
      else (False, (placed_table base sh rs count)\<lparr>native_region_count := 0\<rparr>))"
    using True by (simp add: quetz_configure_native_regions_def placed_table_def ipc_constants Let_def not_less [symmetric])
  have ram: "quetz_native_ram base (placed_table base sh rs count) (of_nat i) =
      Some (unat (native_first base - base) + i * 65536)"
    if "quetz_native_regions_valid base (placed_table base sh rs count)" "i < unat count" for i
  proof -
    have i2: "i < 2" using that True by (simp add: word_le_nat_alt)
    then have u: "unat (of_nat i :: u32) = i" by (simp add: unat_of_nat)
    have "\<not> native_region_count (placed_table base sh rs count) \<le> of_nat i"
      using that u by (simp add: placed_table_def word_le_nat_alt)
    then show ?thesis
      using that u place_native_region_ok(2) [OF assms(1) i2]
      by (simp add: quetz_native_ram_def placed_table_nth)
  qed
  show ?thesis
    unfolding conf using placed_table_valid [OF assms(1) True] ram True assms(2) by simp
next
  case False
  then show ?thesis
    by (auto simp: quetz_configure_native_regions_def ipc_constants)
qed

theorem configure_native_regions_exact_witness:
  "fst (quetz_configure_native_regions 0 zero_shared (Some sample_regions) 2) \<and>
   native_region_count (snd (quetz_configure_native_regions 0 zero_shared
     (Some [hd sample_regions, hd sample_regions]) 2)) = 0"
  using configure_native_regions_exact [of 0 sample_regions 2 zero_shared]
    configure_native_regions_exact [of 0 "[hd sample_regions, hd sample_regions]" 2 zero_shared]
  by (simp add: sample_regions_def zero_shared_fields guest_region_ok_def all_less_2 case_prod_beta)

end
