(* ===== verification/Quetz_Mem_Issue.thy ===== *)
theory Quetz_Mem_Issue
  imports Quetz_Stats Quetz_Memory_Span Quetz_Ipc_Types
begin

text \<open>
  \<open>MemRequestEmitter\<close> of \<open>src/quetz_mem_issue.cc\<close>: guest accesses become memory
  requests, split at cache lines and issued under a budget, with the cursor kept by
  the caller, and responses are matched to the outstanding requests. Request
  identifiers come from the memory interface; they are a parameter \<open>ids\<close>, the
  supply of fresh identifiers, and the simulated time is the argument \<open>now\<close>.
\<close>

section \<open>Model\<close>

datatype issue_path = CACHED | MMIO

record mem_request =
  mr_id :: nat
  mr_write :: bool
  mr_addr :: u64
  mr_size :: u32
  mr_data :: "u8 list"

record pending_req =
  issue_cycle :: u64
  is_mmio :: bool

text \<open>\<open>em_sent\<close> is the trace of requests handed to the links, with the link.\<close>

record emitter =
  em_line_size :: u64
  em_mem_link :: bool
  em_mmio_link :: bool
  em_next :: nat
  em_pending :: "nat \<Rightarrow> pending_req option"
  em_pending_count :: u32
  em_sent :: "(issue_path \<times> mem_request) list"
  em_stats :: stat_trace

definition emitter_init :: "u64 \<Rightarrow> emitter" where
  "emitter_init line = \<lparr>em_line_size = line, em_mem_link = False, em_mmio_link = False, em_next = 0,
     em_pending = Map.empty, em_pending_count = 0, em_sent = [], em_stats = []\<rparr>"

definition setLink :: "emitter \<Rightarrow> bool \<Rightarrow> emitter" where
  "setLink e link = e\<lparr>em_mem_link := link\<rparr>"

definition setMmioLink :: "emitter \<Rightarrow> bool \<Rightarrow> emitter" where
  "setMmioLink e link = e\<lparr>em_mmio_link := link\<rparr>"

definition linkFor :: "emitter \<Rightarrow> issue_path \<Rightarrow> bool" where
  "linkFor e path = (if path = MMIO then em_mmio_link e else em_mem_link e)"

definition slotsNeeded :: "emitter \<Rightarrow> u64 \<Rightarrow> u32 \<Rightarrow> issue_path \<Rightarrow> u32" where
  "slotsNeeded e vaddr sz path = (if path = MMIO then 1 else memorySlots vaddr sz (em_line_size e))"

definition addData :: "core_stat \<Rightarrow> u64 \<Rightarrow> emitter \<Rightarrow> emitter" where
  "addData st v e = e\<lparr>em_stats := em_stats e @ [(st, v)]\<rparr>"

text \<open>Creating a request, entering it in the table and sending it.\<close>

definition send_request ::
    "(nat \<Rightarrow> nat) \<Rightarrow> u64 \<Rightarrow> issue_path \<Rightarrow> bool \<Rightarrow> u64 \<Rightarrow> u32 \<Rightarrow> u8 list \<Rightarrow> core_stat \<Rightarrow> emitter \<Rightarrow> emitter" where
  "send_request ids now path write addr sz data st e =
     (let i = ids (em_next e);
          r = \<lparr>mr_id = i, mr_write = write, mr_addr = addr, mr_size = sz, mr_data = data\<rparr>
      in (addData st 1 e)\<lparr>em_next := em_next e + 1,
           em_pending := (em_pending e)(i \<mapsto> \<lparr>issue_cycle = now, is_mmio = (path = MMIO)\<rparr>),
           em_pending_count := em_pending_count e + 1,
           em_sent := em_sent e @ [(path, r)]\<rparr>)"

text \<open>The loops over the chunks; the budget left decreases in every round.\<close>

function read_loop ::
    "(nat \<Rightarrow> nat) \<Rightarrow> u64 \<Rightarrow> emitter \<Rightarrow> u64 \<Rightarrow> u32 \<Rightarrow> u32 \<Rightarrow> u32 \<Rightarrow> u32 \<Rightarrow> emitter \<times> u32 \<times> u32" where
  "read_loop ids now e addr offset remaining parts budget =
     (if remaining > 0 \<and> parts < budget then
        let chunk = ucast (memoryChunkSize addr (ucast remaining) (em_line_size e) (ucast remaining));
            e1 = (if offset \<noteq> 0 then addData S_split_reads 1 e else e);
            e2 = send_request ids now CACHED False addr chunk [] S_read_reqs e1
        in read_loop ids now e2 (addr + ucast chunk) (offset + chunk) (remaining - chunk) (parts + 1) budget
      else (e, offset, parts))"
  by auto
termination
proof (relation "measure (\<lambda>(ids, now, e, addr, offset, remaining, parts, budget). unat (budget - parts))")
  show "wf (measure (\<lambda>(ids, now, e, addr, offset, remaining, parts, budget). unat (budget - parts)))"
    by simp
  have "unat (budget - (parts + 1)) < unat (budget - parts)" if "parts < budget" for budget parts :: u32
    using budget_decr_32 [OF that] by simp
  then show "((ids, now, e2, addr + ucast chunk, offset + chunk, remaining - chunk, parts + 1, budget),
      ids, now, e, addr, offset, remaining, parts, budget)
      \<in> measure (\<lambda>(ids, now, e, addr, offset, remaining, parts, budget). unat (budget - parts))"
    if "remaining > 0 \<and> parts < budget" for ids now e2 addr offset remaining e and chunk parts budget :: u32
    using that by simp
qed

declare read_loop.simps [simp del]

definition kDataCap :: u32 where "kDataCap = QUETZ_CMD_DATA_BYTES"

text \<open>The payload of one write chunk: zeros overwritten with the captured bytes.\<close>

definition write_chunk_data :: "u8 list option \<Rightarrow> u32 \<Rightarrow> u32 \<Rightarrow> u8 list" where
  "write_chunk_data raw_data data_offset chunk =
     (case raw_data of
        Some raw \<Rightarrow>
          if data_offset < kDataCap then
            let avail = kDataCap - data_offset;
                copy_n = (if chunk < avail then chunk else avail)
            in copy_into (replicate (unat chunk) 0) 0 (vec_slice raw (unat data_offset) (unat copy_n))
          else replicate (unat chunk) 0
      | None \<Rightarrow> replicate (unat chunk) 0)"

function write_loop ::
    "(nat \<Rightarrow> nat) \<Rightarrow> u64 \<Rightarrow> u8 list option \<Rightarrow> emitter \<Rightarrow> u64 \<Rightarrow> u32 \<Rightarrow> u32 \<Rightarrow> u32 \<Rightarrow> u32 \<Rightarrow> u32 \<Rightarrow>
      emitter \<times> u32 \<times> u32" where
  "write_loop ids now raw e addr data_offset offset remaining parts budget =
     (if remaining > 0 \<and> parts < budget then
        let chunk = ucast (memoryChunkSize addr (ucast remaining) (em_line_size e) (ucast remaining));
            e1 = (if offset \<noteq> 0 then addData S_split_writes 1 e else e);
            e2 = send_request ids now CACHED True addr chunk (write_chunk_data raw data_offset chunk)
                   S_write_reqs e1
        in write_loop ids now raw e2 (addr + ucast chunk) (data_offset + chunk) (offset + chunk)
             (remaining - chunk) (parts + 1) budget
      else (e, offset, parts))"
  by auto
termination
proof (relation "measure (\<lambda>(ids, now, raw, e, addr, doff, offset, remaining, parts, budget). unat (budget - parts))")
  show "wf (measure (\<lambda>(ids, now, raw, e, addr, doff, offset, remaining, parts, budget). unat (budget - parts)))"
    by simp
  have "unat (budget - (parts + 1)) < unat (budget - parts)" if "parts < budget" for budget parts :: u32
    using budget_decr_32 [OF that] by simp
  then show "((ids, now, raw, e2, addr + ucast chunk, doff + chunk, offset + chunk, remaining - chunk, parts + 1, budget),
      ids, now, raw, e, addr, doff, offset, remaining, parts, budget)
      \<in> measure (\<lambda>(ids, now, raw, e, addr, doff, offset, remaining, parts, budget). unat (budget - parts))"
    if "remaining > 0 \<and> parts < budget"
    for ids now raw e2 addr doff offset remaining e and chunk parts budget :: u32
    using that by simp
qed

declare write_loop.simps [simp del]

text \<open>The windows return the emitter, the updated cursor and the number of requests sent.\<close>

definition issueReadWindow ::
    "(nat \<Rightarrow> nat) \<Rightarrow> u64 \<Rightarrow> emitter \<Rightarrow> u64 \<Rightarrow> u32 \<Rightarrow> issue_path \<Rightarrow> u32 \<Rightarrow> u32 \<Rightarrow> (emitter \<times> u32 \<times> u32) result" where
  "issueReadWindow ids now e vaddr sz path offset budget =
     (if sz = 0 \<or> budget = 0 then Inr (e, offset, 0)
      else if \<not> memorySpanValid vaddr (ucast sz) then Inl (Fatal ''Memory read wraps the address space.'')
      else
        let e1 = (if path \<noteq> MMIO \<and> offset = 0 then addData S_read_req_sizes (ucast sz) e else e)
        in if \<not> linkFor e1 path then Inl (Fatal ''read but link is not connected'')
           else if path = MMIO then
             Inr (send_request ids now MMIO False vaddr sz [] S_mmio_read_reqs e1, sz, 1)
           else
             Inr (read_loop ids now e1 (vaddr + ucast offset) offset (sz - offset) 0 budget))"

definition issueRead :: "(nat \<Rightarrow> nat) \<Rightarrow> u64 \<Rightarrow> emitter \<Rightarrow> u64 \<Rightarrow> u32 \<Rightarrow> issue_path \<Rightarrow> emitter result" where
  "issueRead ids now e vaddr sz path =
     res_bind (issueReadWindow ids now e vaddr sz path 0 (- 1)) (\<lambda>(e1, _, _). Inr e1)"

definition issueWriteWindow ::
    "(nat \<Rightarrow> nat) \<Rightarrow> u64 \<Rightarrow> emitter \<Rightarrow> u64 \<Rightarrow> u32 \<Rightarrow> u8 list option \<Rightarrow> issue_path \<Rightarrow> u32 \<Rightarrow> u32 \<Rightarrow>
      (emitter \<times> u32 \<times> u32) result" where
  "issueWriteWindow ids now e vaddr sz raw path offset budget =
     (if sz = 0 \<or> budget = 0 then Inr (e, offset, 0)
      else if \<not> memorySpanValid vaddr (ucast (min sz QUETZ_CMD_DATA_BYTES))
        then Inl (Fatal ''Memory write wraps the address space.'')
      else
        let e1 = (if path \<noteq> MMIO \<and> offset = 0 then addData S_write_req_sizes (ucast sz) e else e)
        in if \<not> linkFor e1 path then Inl (Fatal ''write but link is not connected'')
           else if path = MMIO then
             let issue_size = (if sz > kDataCap then kDataCap else sz);
                 e2 = (if sz > kDataCap then addData S_mmio_truncated_writes 1 e1 else e1);
                 data = (case raw of
                           Some bs \<Rightarrow> copy_into (replicate (unat issue_size) 0) 0 (take (unat issue_size) bs)
                         | None \<Rightarrow> replicate (unat issue_size) 0)
             in Inr (send_request ids now MMIO True vaddr issue_size data S_mmio_write_reqs e2, sz, 1)
           else
             let issue_size = (if sz > kDataCap then kDataCap else sz);
                 e2 = (if sz > kDataCap \<and> offset = 0 then addData S_cached_truncated_writes 1 e1 else e1)
             in case write_loop ids now raw e2 (vaddr + ucast offset) offset offset (issue_size - offset) 0 budget of
                  (e3, offset', parts) \<Rightarrow> Inr (e3, if offset' = issue_size then sz else offset', parts))"

definition issueWrite ::
    "(nat \<Rightarrow> nat) \<Rightarrow> u64 \<Rightarrow> emitter \<Rightarrow> u64 \<Rightarrow> u32 \<Rightarrow> u8 list option \<Rightarrow> issue_path \<Rightarrow> emitter result" where
  "issueWrite ids now e vaddr sz raw path =
     res_bind (issueWriteWindow ids now e vaddr sz raw path 0 (- 1)) (\<lambda>(e1, _, _). Inr e1)"

record mem_response =
  rsp_id :: nat
  rsp_is_read :: bool

text \<open>The outputs of a matched response are its latency, direction and path.\<close>

definition emitter_handleResponse ::
    "u64 \<Rightarrow> emitter \<Rightarrow> mem_response \<Rightarrow> emitter \<times> (u64 \<times> bool \<times> bool) option" where
  "emitter_handleResponse now e resp =
     (case em_pending e (rsp_id resp) of
        None \<Rightarrow> (e, None)
      | Some p \<Rightarrow>
          (e\<lparr>em_pending := (em_pending e)(rsp_id resp := None),
             em_pending_count := em_pending_count e - 1\<rparr>,
           Some (if now \<ge> issue_cycle p then now - issue_cycle p else 0, rsp_is_read resp, is_mmio p)))"

definition pendingCount :: "emitter \<Rightarrow> u32" where
  "pendingCount e = em_pending_count e"

section \<open>The issue loops over natural budgets\<close>

text \<open>Both loops are the same iteration of a step that sends one chunk.\<close>

fun issue_iter :: "(u64 \<Rightarrow> u32 \<Rightarrow> u32 \<Rightarrow> emitter \<Rightarrow> emitter) \<Rightarrow> u64 \<Rightarrow> nat \<Rightarrow> emitter \<Rightarrow> u64 \<Rightarrow> u32 \<Rightarrow> u32 \<Rightarrow>
    emitter \<times> u64 \<times> u32 \<times> u32 \<times> nat" where
  "issue_iter f line 0 e a off r = (e, a, off, r, 0)"
| "issue_iter f line (Suc n) e a off r =
     (if r = 0 then (e, a, off, r, 0)
      else let c = chunk_word line a r
           in case issue_iter f line n (f a off c e) (a + ucast c) (off + c) (r - c) of
                (e', a', off', r', k) \<Rightarrow> (e', a', off', r', Suc k))"

definition read_step :: "(nat \<Rightarrow> nat) \<Rightarrow> u64 \<Rightarrow> u64 \<Rightarrow> u32 \<Rightarrow> u32 \<Rightarrow> emitter \<Rightarrow> emitter" where
  "read_step ids now a off c e =
     send_request ids now CACHED False a c [] S_read_reqs (if off \<noteq> 0 then addData S_split_reads 1 e else e)"

definition write_step :: "(nat \<Rightarrow> nat) \<Rightarrow> u64 \<Rightarrow> u8 list option \<Rightarrow> u64 \<Rightarrow> u32 \<Rightarrow> u32 \<Rightarrow> emitter \<Rightarrow> emitter" where
  "write_step ids now raw a off c e =
     send_request ids now CACHED True a c (write_chunk_data raw off c) S_write_reqs
       (if off \<noteq> 0 then addData S_split_writes 1 e else e)"

lemma send_request_fields [simp]:
  "em_line_size (send_request ids now path w a c d st e) = em_line_size e"
  "em_mem_link (send_request ids now path w a c d st e) = em_mem_link e"
  "em_mmio_link (send_request ids now path w a c d st e) = em_mmio_link e"
  "em_next (send_request ids now path w a c d st e) = em_next e + 1"
  "em_pending_count (send_request ids now path w a c d st e) = em_pending_count e + 1"
  by (simp_all add: send_request_def addData_def Let_def)

lemma addData_fields [simp]:
  "em_line_size (addData st v e) = em_line_size e" "em_mem_link (addData st v e) = em_mem_link e"
  "em_mmio_link (addData st v e) = em_mmio_link e" "em_next (addData st v e) = em_next e"
  "em_pending (addData st v e) = em_pending e" "em_pending_count (addData st v e) = em_pending_count e"
  "em_sent (addData st v e) = em_sent e" "em_stats (addData st v e) = em_stats e @ [(st, v)]"
  by (simp_all add: addData_def)

lemma linkFor_addData [simp]: "linkFor (addData st v e) path = linkFor e path"
  by (simp add: linkFor_def)

lemma step_line [simp]:
  "em_line_size (read_step ids now a off c e) = em_line_size e"
  "em_line_size (write_step ids now raw a off c e) = em_line_size e"
  by (simp_all add: read_step_def write_step_def)

lemma read_loop_iter:
  "parts \<le> budget \<Longrightarrow> read_loop ids now e a off r parts budget =
    (case issue_iter (read_step ids now) (em_line_size e) (unat (budget - parts)) e a off r of
       (e', _, off', _, k) \<Rightarrow> (e', off', parts + of_nat k))"
proof (induction ids now e a off r parts budget rule: read_loop.induct)
  case (1 ids now e a off r parts budget)
  show ?case
  proof (cases "r > 0 \<and> parts < budget")
    case False
    then have "r = 0 \<or> parts = budget" using "1.prems" by (auto simp: not_less)
    then show ?thesis
      by (cases "unat (budget - parts)") (auto simp: read_loop.simps [of ids now e a off r])
  next
    case True
    then have p: "parts + 1 \<le> budget" using unat_suc_32 [of parts budget]
      by (simp add: word_le_nat_alt word_less_nat_alt)
    have r0: "r \<noteq> 0" using True by auto
    show ?thesis
      using True r0 budget_decr_32 [of parts budget] "1.IH" [OF True refl refl refl p]
      by (simp add: read_loop.simps [of ids now e a off r] read_step_def [symmetric] Let_def
          split: prod.split)
  qed
qed

lemma write_loop_iter:
  "parts \<le> budget \<Longrightarrow> doff = off \<Longrightarrow> write_loop ids now raw e a doff off r parts budget =
    (case issue_iter (write_step ids now raw) (em_line_size e) (unat (budget - parts)) e a off r of
       (e', _, off', _, k) \<Rightarrow> (e', off', parts + of_nat k))"
proof (induction ids now raw e a doff off r parts budget rule: write_loop.induct)
  case (1 ids now raw e a doff off r parts budget)
  show ?case
  proof (cases "r > 0 \<and> parts < budget")
    case False
    then have "r = 0 \<or> parts = budget" using "1.prems" by (auto simp: not_less)
    then show ?thesis
      by (cases "unat (budget - parts)") (auto simp: write_loop.simps [of ids now raw e a off off r] "1.prems"(2))
  next
    case True
    then have p: "parts + 1 \<le> budget" using unat_suc_32 [of parts budget]
      by (simp add: word_le_nat_alt word_less_nat_alt)
    have r0: "r \<noteq> 0" using True by auto
    show ?thesis
      using True r0 budget_decr_32 [of parts budget] "1.IH" [OF True refl refl refl p] "1.prems"
      by (simp add: write_loop.simps [of ids now raw e a off off r] write_step_def [symmetric] Let_def
          split: prod.split)
  qed
qed

lemma issue_iter_count: "issue_iter f line n e a off r = (e', a', off', r', k) \<Longrightarrow> k \<le> n"
  by (induction n arbitrary: e a off r e' a' off' r' k) (auto simp: Let_def split: if_splits prod.splits)

lemma issue_iter_cursor:
  "issue_iter f line n e a off r = (e', a', off', r', k) \<Longrightarrow>
    let b = seq_bytes (chunk_seq line a r n) in
    a' = a + of_nat b \<and> off' = off + of_nat b \<and> r' = r - of_nat b \<and> k = length (chunk_seq line a r n)"
proof (induction n arbitrary: e a off r e' a' off' r' k)
  case (Suc n)
  show ?case
  proof (cases "r = 0")
    case False
    define c where "c = chunk_word line a r"
    from Suc.prems False obtain k0 where
      it: "issue_iter f line n (f a off c e) (a + ucast c) (off + c) (r - c) = (e', a', off', r', k0)" "k = Suc k0"
      by (auto simp: Let_def c_def split: prod.splits)
    have seq: "chunk_seq line a r (Suc n) = (a, c) # chunk_seq line (a + ucast c) (r - c) n"
      using False by (simp add: Let_def c_def)
    show ?thesis
      using Suc.IH [OF it(1)] it(2) unfolding seq
      by (simp add: Let_def add.assoc diff_diff_eq)
  qed (use Suc.prems in simp)
qed simp

text \<open>A window of \<open>n + m\<close> chunks is a window of \<open>n\<close> chunks continued by one of \<open>m\<close>.\<close>

lemma issue_iter_resume:
  "issue_iter f line n e a off r = (e1, a1, off1, r1, k1) \<Longrightarrow>
   issue_iter f line m e1 a1 off1 r1 = (e2, a2, off2, r2, k2) \<Longrightarrow>
   issue_iter f line (n + m) e a off r = (e2, a2, off2, r2, k1 + k2)"
proof (induction n arbitrary: e a off r k1)
  case (Suc n)
  show ?case
  proof (cases "r = 0")
    case True
    then show ?thesis using Suc.prems by (cases m) auto
  next
    case False
    then show ?thesis
      using Suc by (auto simp: Let_def split: prod.splits)
  qed
qed simp

section \<open>What the loops send\<close>

fun reqs_of :: "(nat \<Rightarrow> nat) \<Rightarrow> nat \<Rightarrow> bool \<Rightarrow> u8 list option \<Rightarrow> u32 \<Rightarrow> (u64 \<times> u32) list \<Rightarrow>
    (issue_path \<times> mem_request) list" where
  "reqs_of ids n w raw off [] = []"
| "reqs_of ids n w raw off ((a, c) # cs) =
     (CACHED, \<lparr>mr_id = ids n, mr_write = w, mr_addr = a, mr_size = c,
               mr_data = (if w then write_chunk_data raw off c else [])\<rparr>)
     # reqs_of ids (Suc n) w raw (off + c) cs"

definition loop_step :: "bool \<Rightarrow> (nat \<Rightarrow> nat) \<Rightarrow> u64 \<Rightarrow> u8 list option \<Rightarrow> u64 \<Rightarrow> u32 \<Rightarrow> u32 \<Rightarrow> emitter \<Rightarrow> emitter" where
  "loop_step w ids now raw = (if w then write_step ids now raw else read_step ids now)"

lemma loop_step_fields [simp]:
  "em_line_size (loop_step w ids now raw a off c e) = em_line_size e"
  "em_mem_link (loop_step w ids now raw a off c e) = em_mem_link e"
  "em_mmio_link (loop_step w ids now raw a off c e) = em_mmio_link e"
  "em_next (loop_step w ids now raw a off c e) = Suc (em_next e)"
  "em_pending_count (loop_step w ids now raw a off c e) = em_pending_count e + 1"
  "em_sent (loop_step w ids now raw a off c e) = em_sent e @
     [(CACHED, \<lparr>mr_id = ids (em_next e), mr_write = w, mr_addr = a, mr_size = c,
        mr_data = (if w then write_chunk_data raw off c else [])\<rparr>)]"
  by (simp_all add: loop_step_def read_step_def write_step_def send_request_def Let_def)

lemma issue_iter_effect:
  "issue_iter (loop_step w ids now raw) line n e a off r = (e', a', off', r', k) \<Longrightarrow>
    em_sent e' = em_sent e @ reqs_of ids (em_next e) w raw off (chunk_seq line a r n) \<and>
    em_next e' = em_next e + k \<and> em_pending_count e' = em_pending_count e + of_nat k \<and>
    em_line_size e' = em_line_size e \<and> em_mem_link e' = em_mem_link e \<and> em_mmio_link e' = em_mmio_link e"
proof (induction n arbitrary: e a off r e' a' off' r' k)
  case (Suc n)
  show ?case
  proof (cases "r = 0")
    case False
    define c where "c = chunk_word line a r"
    from Suc.prems False obtain k0 where
      it: "issue_iter (loop_step w ids now raw) line n (loop_step w ids now raw a off c e)
          (a + ucast c) (off + c) (r - c) = (e', a', off', r', k0)" "k = Suc k0"
      by (auto simp: Let_def c_def split: prod.splits)
    have seq: "chunk_seq line a r (Suc n) = (a, c) # chunk_seq line (a + ucast c) (r - c) n"
      using False by (simp add: Let_def c_def)
    show ?thesis
      using Suc.IH [OF it(1)] it(2) unfolding seq by simp
  qed (use Suc.prems in simp)
qed simp

lemma length_reqs_of [simp]: "length (reqs_of ids n w raw off cs) = length cs"
  by (induction cs arbitrary: n off) auto

lemma nth_reqs_of:
  "i < length cs \<Longrightarrow> fst (reqs_of ids n w raw off cs ! i) = CACHED \<and>
    mr_addr (snd (reqs_of ids n w raw off cs ! i)) = fst (cs ! i) \<and>
    mr_size (snd (reqs_of ids n w raw off cs ! i)) = snd (cs ! i) \<and>
    mr_write (snd (reqs_of ids n w raw off cs ! i)) = w"
proof (induction cs arbitrary: n off i)
  case (Cons x cs)
  then show ?case by (cases x; cases i) auto
qed simp

lemma sum_sizes_reqs:
  "sum_list (map (unat \<circ> mr_size \<circ> snd) (take i (reqs_of ids n w raw off cs))) = seq_bytes (take i cs)"
proof (induction cs arbitrary: n off i)
  case (Cons x cs)
  then show ?case by (cases x; cases i) auto
qed simp

lemma seq_bytes_pos: "r \<noteq> 0 \<Longrightarrow> 0 < n \<Longrightarrow> 0 < seq_bytes (chunk_seq line a r n)"
  using chunk_nat_pos [of "unat r" "unat line" "unat a"]
  by (cases n) (auto simp: Let_def chunk_unat unat_gt_0)

text \<open>The write payloads put together are the captured bytes.\<close>

lemma write_chunk_data_slice:
  assumes "length raw = 64" "unat off + unat c \<le> 64" "unat c \<noteq> 0"
  shows "write_chunk_data (Some raw) off c = vec_slice raw (unat off) (unat c)"
proof -
  have lt: "off < kDataCap"
    using assms by (simp add: kDataCap_def ipc_constants word_less_nat_alt)
  have av: "unat (kDataCap - off) = 64 - unat off"
    using lt by (simp add: unat_sub less_imp_le) (simp add: kDataCap_def ipc_constants)
  let ?n = "if c < kDataCap - off then c else kDataCap - off"
  have n: "unat ?n = unat c"
    using assms av by (auto simp: word_less_nat_alt)
  have "length (vec_slice raw (unat off) (unat c)) = unat c" using assms by simp
  then show ?thesis
    using lt n by (simp add: write_chunk_data_def Let_def copy_into_all)
qed

lemma write_payloads:
  assumes "length raw = 64" "unat off + unat r \<le> 64" "unat r \<le> n"
  shows "concat (map (mr_data \<circ> snd) (reqs_of ids i True (Some raw) off (chunk_seq line a r n))) =
    vec_slice raw (unat off) (unat r)"
  using assms
proof (induction n arbitrary: a off r i)
  case (Suc n)
  show ?case
  proof (cases "r = 0")
    case False
    define c where "c = chunk_word line a r"
    have c: "0 < unat c" "unat c \<le> unat r" "unat (r - c) = unat r - unat c"
      using chunk_nat_pos [of "unat r"] chunk_nat_le False
      by (simp_all add: c_def chunk_unat chunk_rest unat_gt_0)
    have o: "unat (off + c) = unat off + unat c"
      using c Suc.prems by (simp add: unat_word_ariths)
    have seq: "chunk_seq line a r (Suc n) = (a, c) # chunk_seq line (a + ucast c) (r - c) n"
      using False by (simp add: Let_def c_def)
    have w: "write_chunk_data (Some raw) off c = vec_slice raw (unat off) (unat c)"
      using c Suc.prems by (intro write_chunk_data_slice) simp_all
    have "concat (map (mr_data \<circ> snd) (reqs_of ids (Suc i) True (Some raw) (off + c)
        (chunk_seq line (a + ucast c) (r - c) n))) = vec_slice raw (unat off + unat c) (unat r - unat c)"
    proof -
      have "unat (r - c) \<le> n" "unat (off + c) + unat (r - c) \<le> 64" using c o Suc.prems by linarith+
      from Suc.IH [OF Suc.prems(1) this(2,1)] show ?thesis unfolding o c(3) .
    qed
    then show ?thesis
      unfolding seq using w vec_slice_append [of raw "unat off" "unat c" "unat r - unat c"] c(2)
      by (simp add: comp_def)
  qed simp
qed (simp add: unat_eq_0)

section \<open>Outstanding requests\<close>

definition pending_inv :: "(nat \<Rightarrow> nat) \<Rightarrow> emitter \<Rightarrow> bool" where
  "pending_inv ids e \<longleftrightarrow> dom (em_pending e) \<subseteq> ids ` {..<em_next e} \<and>
     em_pending_count e = of_nat (card (dom (em_pending e)))"

lemma send_request_pending:
  assumes "inj ids" "pending_inv ids e"
  shows "pending_inv ids (send_request ids now path w a c d st e)"
proof -
  have fin: "finite (dom (em_pending e))"
    using assms(2) by (meson finite_imageI finite_lessThan finite_subset pending_inv_def)
  have new: "ids (em_next e) \<notin> dom (em_pending e)"
    using assms by (auto simp: pending_inv_def dest: injD)
  have "dom (em_pending (send_request ids now path w a c d st e)) = insert (ids (em_next e)) (dom (em_pending e))"
    by (simp add: send_request_def Let_def)
  then show ?thesis
    using assms(2) fin new by (auto simp: pending_inv_def)
qed

lemma handleResponse_pending:
  assumes "pending_inv ids e" "emitter_handleResponse now e resp = (e', out)"
  shows "pending_inv ids e'"
proof (cases "em_pending e (rsp_id resp)")
  case None
  then show ?thesis using assms by (simp add: emitter_handleResponse_def)
next
  case (Some p)
  have fin: "finite (dom (em_pending e))"
    using assms(1) by (meson finite_imageI finite_lessThan finite_subset pending_inv_def)
  have d: "rsp_id resp \<in> dom (em_pending e)" using Some by auto
  have e': "e' = e\<lparr>em_pending := (em_pending e)(rsp_id resp := None), em_pending_count := em_pending_count e - 1\<rparr>"
    using assms(2) Some by (auto simp: emitter_handleResponse_def)
  have "card (dom (em_pending e)) = Suc (card (dom (em_pending e) - {rsp_id resp}))"
    using fin d by (metis card.remove)
  then show ?thesis
    using assms(1) unfolding pending_inv_def e' by auto
qed

text \<open>The emitter's operations in any order.\<close>

inductive emitter_step :: "(nat \<Rightarrow> nat) \<Rightarrow> emitter \<Rightarrow> emitter \<Rightarrow> bool" for ids where
  es_link: "emitter_step ids e (setLink e b)"
| es_mmio_link: "emitter_step ids e (setMmioLink e b)"
| es_read: "issueReadWindow ids now e va sz path off budget = Inr (e', off', k) \<Longrightarrow> emitter_step ids e e'"
| es_write: "issueWriteWindow ids now e va sz raw path off budget = Inr (e', off', k) \<Longrightarrow> emitter_step ids e e'"
| es_response: "emitter_handleResponse now e resp = (e', out) \<Longrightarrow> emitter_step ids e e'"

inductive emitter_reachable :: "(nat \<Rightarrow> nat) \<Rightarrow> u64 \<Rightarrow> emitter \<Rightarrow> bool" for ids line where
  er_init: "emitter_reachable ids line (emitter_init line)"
| er_step: "emitter_reachable ids line e \<Longrightarrow> emitter_step ids e e' \<Longrightarrow> emitter_reachable ids line e'"

lemma pending_inv_addData [simp]: "pending_inv ids (addData st v e) = pending_inv ids e"
  by (simp add: pending_inv_def)

lemma loop_step_pending:
  "inj ids \<Longrightarrow> pending_inv ids e \<Longrightarrow> pending_inv ids (loop_step w ids now raw a off c e)"
  by (auto simp: loop_step_def read_step_def write_step_def intro!: send_request_pending)

lemma issue_iter_pending:
  assumes "inj ids"
  shows "pending_inv ids e \<Longrightarrow>
    pending_inv ids (fst (issue_iter (loop_step w ids now raw) line n e a off r))"
proof (induction n arbitrary: e a off r)
  case (Suc n)
  then show ?case
    using loop_step_pending [OF assms Suc.prems]
    by (auto simp: Let_def split: prod.split) (metis fst_conv)
qed simp

lemma read_loop_step: "read_step ids now = loop_step False ids now None"
  and write_loop_step: "write_step ids now raw = loop_step True ids now raw"
  by (simp_all add: loop_step_def)

lemma issueReadWindow_pending:
  assumes "inj ids" "pending_inv ids e" "issueReadWindow ids now e va sz path off budget = Inr (e', off', k)"
  shows "pending_inv ids e'"
proof -
  have lp: "pending_inv ids e3" if "read_loop ids now e2 a o2 r 0 budget = (e3, x, y)" "pending_inv ids e2"
    for e2 a o2 r e3 x y
    using issue_iter_pending [OF assms(1) that(2), of False now None] that(1)
    by (simp add: read_loop_iter read_loop_step split: prod.splits) (metis fst_conv)
  show ?thesis
    using assms
    by (auto simp: issueReadWindow_def Let_def send_request_pending split: if_splits dest!: lp)
qed

lemma issueWriteWindow_pending:
  assumes "inj ids" "pending_inv ids e" "issueWriteWindow ids now e va sz raw path off budget = Inr (e', off', k)"
  shows "pending_inv ids e'"
proof -
  have lp: "pending_inv ids e3" if "write_loop ids now raw e2 a o2 o2 r 0 budget = (e3, x, y)" "pending_inv ids e2"
    for e2 a o2 r e3 x y
    using issue_iter_pending [OF assms(1) that(2), of True now raw] that(1)
    by (simp add: write_loop_iter write_loop_step split: prod.splits) (metis fst_conv)
  show ?thesis
    using assms
    by (auto simp: issueWriteWindow_def Let_def send_request_pending split: if_splits prod.splits
        dest!: lp)
qed

section \<open>Properties\<close>

text \<open>At every reachable state of the emitter the pending counter equals the number of
  requests that were sent and not yet answered (as a 32-bit number), and every outstanding
  identifier was handed out by this emitter; so the counter reaches zero exactly when the last
  response arrives, whatever order the responses come in.\<close>

theorem pending_count_exact:
  assumes "inj ids" "emitter_reachable ids line e"
  shows "em_pending_count e = of_nat (card (dom (em_pending e))) \<and>
    dom (em_pending e) \<subseteq> ids ` {..<em_next e}"
proof -
  have "pending_inv ids e"
    using assms(2)
  proof (induction rule: emitter_reachable.induct)
    case er_init
    then show ?case by (simp add: pending_inv_def emitter_init_def)
  next
    case (er_step e e')
    from er_step.hyps(2) show ?case
    proof cases
      case (es_link b)
      then show ?thesis using er_step.IH by (simp add: setLink_def pending_inv_def)
    next
      case (es_mmio_link b)
      then show ?thesis using er_step.IH by (simp add: setMmioLink_def pending_inv_def)
    next
      case (es_read now va sz path off budget off' k)
      then show ?thesis using er_step.IH issueReadWindow_pending [OF assms(1)] by blast
    next
      case (es_write now va sz raw path off budget off' k)
      then show ?thesis using er_step.IH issueWriteWindow_pending [OF assms(1)] by blast
    next
      case (es_response now resp out)
      then show ?thesis using er_step.IH handleResponse_pending by blast
    qed
  qed
  then show ?thesis by (simp add: pending_inv_def)
qed

definition linked_emitter :: emitter where
  "linked_emitter = setMmioLink (setLink (emitter_init 64) True) True"

theorem pending_count_exact_witness:
  "\<exists>e k. issueReadWindow (\<lambda>n. n) 5 linked_emitter 0x1000 4 MMIO 0 1 = Inr (e, 4, k) \<and>
     em_pending_count e = of_nat (card (dom (em_pending e)))"
proof -
  obtain e where e: "issueReadWindow (\<lambda>n. n) 5 linked_emitter 0x1000 4 MMIO 0 1 = Inr (e, 4, 1)"
    by (simp add: issueReadWindow_def memorySpanValid_nat linkFor_def linked_emitter_def setMmioLink_def
        setLink_def)
  have "emitter_reachable (\<lambda>n. n) 64 linked_emitter"
    unfolding linked_emitter_def by (intro er_step [OF er_step [OF er_init es_link] es_mmio_link])
  then have "emitter_reachable (\<lambda>n. n) 64 e" using er_step es_read [OF e] by blast
  from pending_count_exact [OF _ this] show ?thesis using e by auto
qed

text \<open>A cached read that is issued in two windows does exactly what one window with the
  summed budget does: the same requests with the same identifiers, the same statistics and
  the same cursor, so resuming an access across ticks is invisible to the memory system.\<close>

theorem read_windows_compose:
  assumes "issueReadWindow ids now e va sz CACHED off b1 = Inr (e1, off1, k1)"
    and "issueReadWindow ids now e1 va sz CACHED off1 b2 = Inr (e2, off2, k2)"
    and "b1 \<noteq> 0" "off \<le> sz" "unat b1 + unat b2 < 2 ^ 32"
  shows "issueReadWindow ids now e va sz CACHED off (b1 + b2) = Inr (e2, off2, k1 + k2)"
proof (cases "sz = 0 \<or> b2 = 0")
  case True
  then have "e2 = e1 \<and> off2 = off1 \<and> k2 = 0" using assms(2) by (auto simp: issueReadWindow_def)
  moreover have "sz = 0 \<Longrightarrow> issueReadWindow ids now e va sz CACHED off (b1 + b2) =
      issueReadWindow ids now e va sz CACHED off b1" by (simp add: issueReadWindow_def)
  ultimately show ?thesis using assms(1) True by auto
next
  case False
  define e0 where "e0 = (if off = 0 then addData S_read_req_sizes (ucast sz) e else e)"
  define f where "f = read_step ids now"
  have ok: "sz \<noteq> 0" "b2 \<noteq> 0" "memorySpanValid va (ucast sz)" "linkFor e CACHED"
    using False assms(1,3) by (auto simp: issueReadWindow_def Let_def split: if_splits)
  have n: "unat (b1 + b2) = unat b1 + unat b2" "b1 + b2 \<noteq> 0"
    using assms(3,5) by (auto simp: unat_word_ariths word_unat_eq_iff)
  have le: "em_line_size e0 = em_line_size e" by (simp add: e0_def)
  have rl1: "read_loop ids now e0 (va + ucast off) off (sz - off) 0 b1 = (e1, off1, k1)"
    using assms(1,3) ok by (auto simp: issueReadWindow_def Let_def e0_def)
  then obtain a1 r1 c1 where it1: "issue_iter f (em_line_size e) (unat b1) e0 (va + ucast off) off (sz - off) =
      (e1, a1, off1, r1, c1)" and k1: "k1 = of_nat c1"
    by (auto simp: read_loop_iter le f_def split: prod.splits)
  define b where "b = seq_bytes (chunk_seq (em_line_size e) (va + ucast off) (sz - off) (unat b1))"
  note cur = issue_iter_cursor [OF it1, folded b_def, unfolded Let_def]
  have eff: "em_line_size e1 = em_line_size e" "linkFor e1 CACHED"
    using issue_iter_effect [OF it1 [unfolded f_def read_loop_step]] ok(4) by (auto simp: le linkFor_def e0_def)
  have bs: "b \<le> unat sz - unat off"
    using seq_bytes_le [of "em_line_size e" "va + ucast off" "sz - off" "unat b1"] assms(4)
    by (simp add: b_def unat_sub)
  have fit: "unat off + b \<le> unat sz" using bs assms(4) by (simp add: word_le_nat_alt)
  have u1: "unat off1 = unat off + b"
    using cur fit unat_less_32 [of sz] by (simp add: unat_word_ariths unat_of_nat)
  have "0 < b" if "off = 0"
    using that ok(1) seq_bytes_pos [of "sz - off" "unat b1"] assms(3) by (simp add: b_def unat_gt_0)
  then have o1: "off1 \<noteq> 0" using u1 by (metis add_is_0 less_irrefl unat_0 unat_eq_0)
  have a1: "a1 = va + ucast off1"
  proof -
    have "(ucast off1 :: u64) = ucast off + of_nat b"
      using u1 fit unat_less_32 [of sz] by (simp add: word_unat_eq_iff unat_word_ariths unat_of_nat)
    then show ?thesis using cur by simp
  qed
  have r1: "r1 = sz - off1" using cur by simp
  have rl2: "read_loop ids now e1 a1 off1 r1 0 b2 = (e2, off2, k2)"
    using assms(2) ok eff o1 unfolding a1 r1 by (auto simp: issueReadWindow_def Let_def split: if_splits)
  then obtain a2 r2 c2 where it2: "issue_iter f (em_line_size e) (unat b2) e1 a1 off1 r1 = (e2, a2, off2, r2, c2)"
    and k2: "k2 = of_nat c2"
    by (auto simp: read_loop_iter eff f_def split: prod.splits)
  note it = issue_iter_resume [OF it1 it2]
  have "read_loop ids now e0 (va + ucast off) off (sz - off) 0 (b1 + b2) = (e2, off2, k1 + k2)"
    using it by (simp add: read_loop_iter le n(1) f_def k1 k2)
  then show ?thesis
    using ok n(2) by (auto simp: issueReadWindow_def Let_def e0_def split: if_splits)
qed

theorem read_windows_compose_witness:
  "\<exists>e1 o1 k1 e2 o2 k2. issueReadWindow (\<lambda>n. n) 0 linked_emitter 0x103c 8 CACHED 0 1 = Inr (e1, o1, k1) \<and>
     issueReadWindow (\<lambda>n. n) 0 e1 0x103c 8 CACHED o1 1 = Inr (e2, o2, k2) \<and>
     issueReadWindow (\<lambda>n. n) 0 linked_emitter 0x103c 8 CACHED 0 2 = Inr (e2, o2, k1 + k2)"
proof -
  let ?w = "\<lambda>e off. issueReadWindow (\<lambda>n. n) 0 e 0x103c 8 CACHED off 1"
  have ok: "case ?w e off of Inr x \<Rightarrow> linkFor (fst x) CACHED | Inl _ \<Rightarrow> False" if "linkFor e CACHED" for e off
  proof -
    have "linkFor (fst (read_loop (\<lambda>n. n) 0 e2 a o2 r 0 1)) CACHED" if "linkFor e2 CACHED" for e2 a o2 r
      using that by (auto simp: read_loop_iter read_loop_step linkFor_def Let_def split: prod.split)
    then show ?thesis
      using that by (simp add: issueReadWindow_def memorySpanValid_nat Let_def)
  qed
  have "linkFor linked_emitter CACHED" by (simp add: linked_emitter_def linkFor_def setMmioLink_def setLink_def)
  from ok [OF this, of 0] obtain e1 o1 k1 where w1: "?w linked_emitter 0 = Inr (e1, o1, k1)" "linkFor e1 CACHED"
    by (auto split: sum.splits)
  from ok [OF w1(2), of o1] obtain e2 o2 k2 where w2: "?w e1 o1 = Inr (e2, o2, k2)" by (auto split: sum.splits)
  from read_windows_compose [OF w1(1) w2] show ?thesis using w1(1) w2 by simp
qed



end
