(* ===== verification/Quetz_Region.thy ===== *)
theory Quetz_Region
  imports Quetz_Stats Quetz_Memory_Span Quetz_Ipc_Types
begin

text \<open>
  The guest memory map: the region handlers of \<open>src/quetz_region_handlers.cc\<close>, the
  first-match table of \<open>src/quetz_region_table.cc\<close> and the access strategy of
  \<open>src/quetz_mem_access.cc\<close>. A handler is its address range and its kind with the
  kind's state; an access returns the handler, the statistics it adds and the
  action the pipeline has to take.
\<close>

section \<open>Handlers\<close>

datatype mem_action = FORWARD | FORWARD_MMIO | CONSUME | END_SIM

datatype handler_kind =
    HForward
  | HFiltered
  | HUart (tx_offset: u32) (uart_tx_buf: "u8 list")
  | HGpuTrace (doorbell_offset: u32) (status_offset: u32) (max_payload_log: u32)
      (doorbell_count: u64) (poll_count: u64) (recent_doorbell_lo: "u64 list")
  | HMmioForward
  | HTestFinisher (pass_value: u32) (wrote: bool) (last_value: u32)

record region_handler =
  rh_start :: u64
  rh_end :: u64
  rh_kind :: handler_kind

definition mk_handler :: "u64 \<Rightarrow> u64 \<Rightarrow> handler_kind \<Rightarrow> region_handler" where
  "mk_handler s e k = \<lparr>rh_start = s, rh_end = e, rh_kind = k\<rparr>"

text \<open>The constructors with their parameter defaults.\<close>

definition new_uart :: "u32 \<Rightarrow> handler_kind" where
  "new_uart txo = HUart txo []"

definition new_gpu_trace :: "u32 \<Rightarrow> u32 \<Rightarrow> u32 \<Rightarrow> handler_kind" where
  "new_gpu_trace db st mx = HGpuTrace db st mx 0 0 []"

definition new_test_finisher :: "u32 \<Rightarrow> handler_kind" where
  "new_test_finisher pv = HTestFinisher pv False 0"

named_theorems handler_defs \<open>definitions of the handler methods\<close>

type_synonym access_result = "region_handler \<times> stat_trace \<times> mem_action"

subsection \<open>Forward, filtered and MMIO handlers\<close>

definition forward_onRead :: "region_handler \<Rightarrow> quetz_command \<Rightarrow> access_result" where
  [handler_defs]: "forward_onRead h cmd = (h, [], FORWARD)"

definition forward_onWrite :: "region_handler \<Rightarrow> quetz_command \<Rightarrow> access_result" where
  [handler_defs]: "forward_onWrite h cmd = (h, [], FORWARD)"

definition filtered_onRead :: "region_handler \<Rightarrow> quetz_command \<Rightarrow> access_result" where
  [handler_defs]: "filtered_onRead h cmd = (h, [(S_filtered_reads, 1)], CONSUME)"

definition filtered_onWrite :: "region_handler \<Rightarrow> quetz_command \<Rightarrow> access_result" where
  [handler_defs]: "filtered_onWrite h cmd = (h, [(S_filtered_writes, 1)], CONSUME)"

definition mmio_forward_onRead :: "region_handler \<Rightarrow> quetz_command \<Rightarrow> access_result" where
  [handler_defs]: "mmio_forward_onRead h cmd = (h, [], FORWARD_MMIO)"

definition mmio_forward_onWrite :: "region_handler \<Rightarrow> quetz_command \<Rightarrow> access_result" where
  [handler_defs]: "mmio_forward_onWrite h cmd = (h, [], FORWARD_MMIO)"

subsection \<open>UART\<close>

definition uart_onRead :: "region_handler \<Rightarrow> quetz_command \<Rightarrow> access_result" where
  [handler_defs]: "uart_onRead h cmd = (h, [(S_filtered_reads, 1)], CONSUME)"

definition uart_onWrite :: "u32 \<Rightarrow> u8 list \<Rightarrow> region_handler \<Rightarrow> quetz_command \<Rightarrow> access_result" where
  [handler_defs]: "uart_onWrite txo buf h cmd =
     (if qc_size cmd \<ge> 1 \<and> qc_addr cmd - rh_start h = ucast txo
      then h\<lparr>rh_kind := HUart txo (buf @ [qc_data cmd ! 0])\<rparr> else h,
      [(S_filtered_writes, 1)], CONSUME)"

subsection \<open>GPU trace\<close>

text \<open>The low bytes of the payload, least significant first: at most \<open>cap\<close> of them.\<close>

definition payload_le :: "quetz_command \<Rightarrow> nat \<Rightarrow> 'a::len word" where
  "payload_le cmd cap =
     foldl (\<lambda>val i. val OR push_bit (8 * i) (ucast (qc_data cmd ! i))) 0 [0..<min (unat (qc_size cmd)) cap]"

definition decodeDoorbellLo :: "quetz_command \<Rightarrow> u64" where
  "decodeDoorbellLo cmd = payload_le cmd (min 64 8)"

definition recordDoorbellPayload :: "u32 \<Rightarrow> u64 list \<Rightarrow> u64 \<Rightarrow> u64 list" where
  "recordDoorbellPayload mx log payload =
     (let log' = log @ [payload] in if length log' > unat mx then tl log' else log')"

definition gpu_trace_onRead ::
    "u32 \<Rightarrow> u32 \<Rightarrow> u32 \<Rightarrow> u64 \<Rightarrow> u64 \<Rightarrow> u64 list \<Rightarrow> region_handler \<Rightarrow> quetz_command \<Rightarrow> access_result" where
  [handler_defs]: "gpu_trace_onRead db st mx dc pc log h cmd =
     (if qc_addr cmd - rh_start h = ucast st
      then (h\<lparr>rh_kind := HGpuTrace db st mx dc (pc + 1) log\<rparr>, [(S_gpu_status_polls, 1)], CONSUME)
      else (h, [(S_gpu_other_reads, 1)], CONSUME))"

definition gpu_trace_onWrite ::
    "u32 \<Rightarrow> u32 \<Rightarrow> u32 \<Rightarrow> u64 \<Rightarrow> u64 \<Rightarrow> u64 list \<Rightarrow> region_handler \<Rightarrow> quetz_command \<Rightarrow> access_result" where
  [handler_defs]: "gpu_trace_onWrite db st mx dc pc log h cmd =
     (if qc_addr cmd - rh_start h = ucast db
      then (h\<lparr>rh_kind := HGpuTrace db st mx (dc + 1) pc (recordDoorbellPayload mx log (decodeDoorbellLo cmd))\<rparr>,
            [(S_gpu_doorbell_writes, 1)], CONSUME)
      else (h, [(S_gpu_other_writes, 1)], CONSUME))"

subsection \<open>Test finisher\<close>

definition finisher_onRead :: "region_handler \<Rightarrow> quetz_command \<Rightarrow> access_result" where
  [handler_defs]: "finisher_onRead h cmd = (h, [(S_filtered_reads, 1)], CONSUME)"

definition finisher_onWrite :: "u32 \<Rightarrow> region_handler \<Rightarrow> quetz_command \<Rightarrow> access_result" where
  [handler_defs]: "finisher_onWrite pv h cmd =
     (h\<lparr>rh_kind := HTestFinisher pv True (payload_le cmd 4)\<rparr>, [(S_filtered_writes, 1)], END_SIM)"

subsection \<open>Dispatch on the kind of handler\<close>

definition onRead :: "region_handler \<Rightarrow> quetz_command \<Rightarrow> access_result" where
  [handler_defs]: "onRead h cmd =
     (case rh_kind h of
        HForward \<Rightarrow> forward_onRead h cmd
      | HFiltered \<Rightarrow> filtered_onRead h cmd
      | HUart txo buf \<Rightarrow> uart_onRead h cmd
      | HGpuTrace db st mx dc pc log \<Rightarrow> gpu_trace_onRead db st mx dc pc log h cmd
      | HMmioForward \<Rightarrow> mmio_forward_onRead h cmd
      | HTestFinisher pv w lv \<Rightarrow> finisher_onRead h cmd)"

definition onWrite :: "region_handler \<Rightarrow> quetz_command \<Rightarrow> access_result" where
  [handler_defs]: "onWrite h cmd =
     (case rh_kind h of
        HForward \<Rightarrow> forward_onWrite h cmd
      | HFiltered \<Rightarrow> filtered_onWrite h cmd
      | HUart txo buf \<Rightarrow> uart_onWrite txo buf h cmd
      | HGpuTrace db st mx dc pc log \<Rightarrow> gpu_trace_onWrite db st mx dc pc log h cmd
      | HMmioForward \<Rightarrow> mmio_forward_onWrite h cmd
      | HTestFinisher pv w lv \<Rightarrow> finisher_onWrite pv h cmd)"

subsection \<open>What \<open>finish\<close> prints\<close>

datatype finish_msg =
    Uart_msg "u8 list"
  | Gpu_trace_msg u64 u64 "u64 list"
  | Test_finish_msg u32 bool

definition bswap32 :: "u32 \<Rightarrow> u32" where
  "bswap32 x = push_bit 24 (x AND 0xFF) OR push_bit 8 (x AND 0xFF00) OR
     (drop_bit 8 x AND 0xFF00) OR (drop_bit 24 x AND 0xFF)"

text \<open>The UART text is printed as a C string.\<close>

definition uart_finish :: "u8 list \<Rightarrow> finish_msg list" where
  "uart_finish buf = (if buf \<noteq> [] then [Uart_msg (takeWhile (\<lambda>b. b \<noteq> 0) buf)] else [])"

definition gpu_trace_finish :: "u64 \<Rightarrow> u64 \<Rightarrow> u64 list \<Rightarrow> finish_msg list" where
  "gpu_trace_finish dc pc log = (if dc = 0 \<and> pc = 0 then [] else [Gpu_trace_msg dc pc log])"

definition finisher_finish :: "u32 \<Rightarrow> bool \<Rightarrow> u32 \<Rightarrow> finish_msg list" where
  "finisher_finish pv w lv = (if \<not> w then [] else [Test_finish_msg lv (lv = pv \<or> bswap32 lv = pv)])"

definition handler_finish :: "region_handler \<Rightarrow> finish_msg list" where
  "handler_finish h =
     (case rh_kind h of
        HUart txo buf \<Rightarrow> uart_finish buf
      | HGpuTrace db st mx dc pc log \<Rightarrow> gpu_trace_finish dc pc log
      | HTestFinisher pv w lv \<Rightarrow> finisher_finish pv w lv
      | _ \<Rightarrow> [])"

section \<open>The table and the access strategy\<close>

definition handler_owns :: "region_handler \<Rightarrow> u64 \<Rightarrow> bool" where
  "handler_owns h addr \<longleftrightarrow> addr \<ge> rh_start h \<and> addr \<le> rh_end h"

text \<open>Handlers are referred to by their position; \<open>None\<close> entries are null pointers.\<close>

definition findHandler :: "region_handler option list \<Rightarrow> u64 \<Rightarrow> nat option" where
  "findHandler hs addr =
     find (\<lambda>i. case hs ! i of Some h \<Rightarrow> handler_owns h addr | None \<Rightarrow> False) [0..<length hs]"

record mem_access =
  ma_table :: "region_handler option list"
  ma_filter_unmatched :: bool

definition handleMemoryAccess ::
    "mem_access \<Rightarrow> quetz_command \<Rightarrow> mem_access \<times> stat_trace \<times> mem_action" where
  "handleMemoryAccess ma cmd =
     (if qc_cmd cmd \<noteq> cmd_code CMD_READ \<and> qc_cmd cmd \<noteq> cmd_code CMD_WRITE then (ma, [], FORWARD)
      else case findHandler (ma_table ma) (qc_addr cmd) of
        None \<Rightarrow>
          if ma_filter_unmatched ma
          then (ma, [(if qc_cmd cmd = cmd_code CMD_READ then S_filtered_reads else S_filtered_writes, 1)], CONSUME)
          else (ma, [], FORWARD)
      | Some i \<Rightarrow>
          (case ma_table ma ! i of
             None \<Rightarrow> (ma, [], FORWARD)
           | Some h \<Rightarrow>
               (case (if qc_cmd cmd = cmd_code CMD_READ then onRead h cmd else onWrite h cmd) of
                  (h', st, act) \<Rightarrow> (ma\<lparr>ma_table := (ma_table ma)[i := Some h']\<rparr>, st, act))))"

definition access_finish :: "mem_access \<Rightarrow> finish_msg list" where
  "access_finish ma = concat (map (\<lambda>h. case h of Some h' \<Rightarrow> handler_finish h' | None \<Rightarrow> []) (ma_table ma))"

section \<open>The handler interface\<close>

text \<open>What the strategy relies on: a handler keeps its range, and an access is counted by
  exactly one statistics entry if it is not forwarded and by none if it is; a read never ends
  the simulation.\<close>

definition counted :: "stat_trace \<Rightarrow> mem_action \<Rightarrow> bool" where
  "counted st act \<longleftrightarrow>
     (if act = FORWARD \<or> act = FORWARD_MMIO then st = [] else (\<exists>s. st = [(s, 1)]))"

locale region_handler_if =
  fixes on_read :: "'h \<Rightarrow> quetz_command \<Rightarrow> 'h \<times> stat_trace \<times> mem_action"
    and on_write :: "'h \<Rightarrow> quetz_command \<Rightarrow> 'h \<times> stat_trace \<times> mem_action"
    and owns :: "'h \<Rightarrow> u64 \<Rightarrow> bool"
  assumes owns_read: "owns (fst (on_read h cmd)) = owns h"
    and owns_write: "owns (fst (on_write h cmd)) = owns h"
    and read_counted: "counted (fst (snd (on_read h cmd))) (snd (snd (on_read h cmd)))"
    and write_counted: "counted (fst (snd (on_write h cmd))) (snd (snd (on_write h cmd)))"
    and read_no_end: "snd (snd (on_read h cmd)) \<noteq> END_SIM"
begin

definition on_access :: "bool \<Rightarrow> 'h \<Rightarrow> quetz_command \<Rightarrow> 'h \<times> stat_trace \<times> mem_action" where
  "on_access rd h cmd = (if rd then on_read h cmd else on_write h cmd)"

lemma access_owns: "owns (fst (on_access rd h cmd)) = owns h"
  by (simp add: on_access_def owns_read owns_write)

lemma access_counted: "counted (fst (snd (on_access rd h cmd))) (snd (snd (on_access rd h cmd)))"
  by (simp add: on_access_def read_counted write_counted)

lemma end_is_write: "snd (snd (on_access rd h cmd)) = END_SIM \<Longrightarrow> \<not> rd"
  by (auto simp: on_access_def read_no_end split: if_splits)

end

interpretation handlers: region_handler_if onRead onWrite handler_owns
  by unfold_locales
    (auto simp: handler_defs handler_owns_def counted_def fun_eq_iff split: handler_kind.splits)

section \<open>Facts on the table\<close>

lemma findHandler_Some:
  assumes "findHandler hs addr = Some i"
  shows "i < length hs \<and> (\<exists>h. hs ! i = Some h \<and> handler_owns h addr) \<and>
    (\<forall>j < i. \<forall>h. hs ! j = Some h \<longrightarrow> \<not> handler_owns h addr)"
proof -
  from assms obtain k where k: "k < length [0..<length hs]" "i = [0..<length hs] ! k"
    "case hs ! i of Some h \<Rightarrow> handler_owns h addr | None \<Rightarrow> False"
    "\<forall>j < k. \<not> (case hs ! ([0..<length hs] ! j) of Some h \<Rightarrow> handler_owns h addr | None \<Rightarrow> False)"
    unfolding findHandler_def find_Some_iff by blast
  then show ?thesis by (auto split: option.splits)
qed

lemma findHandler_None:
  assumes "findHandler hs addr = None" "j < length hs" "hs ! j = Some h"
  shows "\<not> handler_owns h addr"
  using assms by (auto simp: findHandler_def find_None_iff dest!: spec [of _ j])

lemma findHandler_update:
  assumes "hs ! i = Some h" "handler_owns h' = handler_owns h"
  shows "findHandler (hs[i := Some h']) = findHandler hs"
proof
  fix a
  have "(case hs[i := Some h'] ! j of Some h \<Rightarrow> handler_owns h a | None \<Rightarrow> False) =
      (case hs ! j of Some h \<Rightarrow> handler_owns h a | None \<Rightarrow> False)" if "j < length hs" for j
    using assms that by (cases "j = i") auto
  then show "findHandler (hs[i := Some h']) a = findHandler hs a"
    unfolding findHandler_def by (auto intro: find_cong)
qed

lemma handleMemoryAccess_cases:
  obtains (skip) "qc_cmd cmd \<noteq> cmd_code CMD_READ" "qc_cmd cmd \<noteq> cmd_code CMD_WRITE"
      "handleMemoryAccess ma cmd = (ma, [], FORWARD)"
  | (unmatched) "findHandler (ma_table ma) (qc_addr cmd) = None"
      "handleMemoryAccess ma cmd = (if ma_filter_unmatched ma
        then (ma, [(if qc_cmd cmd = cmd_code CMD_READ then S_filtered_reads else S_filtered_writes, 1)], CONSUME)
        else (ma, [], FORWARD))"
  | (matched) i h h' st act where "findHandler (ma_table ma) (qc_addr cmd) = Some i" "i < length (ma_table ma)"
      "ma_table ma ! i = Some h" "handlers.on_access (qc_cmd cmd = cmd_code CMD_READ) h cmd = (h', st, act)"
      "handleMemoryAccess ma cmd = (ma\<lparr>ma_table := (ma_table ma)[i := Some h']\<rparr>, st, act)"
proof (cases "qc_cmd cmd \<noteq> cmd_code CMD_READ \<and> qc_cmd cmd \<noteq> cmd_code CMD_WRITE"; cases "findHandler (ma_table ma) (qc_addr cmd)")
  assume rw: "\<not> (qc_cmd cmd \<noteq> cmd_code CMD_READ \<and> qc_cmd cmd \<noteq> cmd_code CMD_WRITE)"
    and None: "findHandler (ma_table ma) (qc_addr cmd) = None"
  have "handleMemoryAccess ma cmd = (if ma_filter_unmatched ma
        then (ma, [(if qc_cmd cmd = cmd_code CMD_READ then S_filtered_reads else S_filtered_writes, 1)], CONSUME)
        else (ma, [], FORWARD))"
    unfolding handleMemoryAccess_def if_not_P [OF rw] None by simp
  with None show ?thesis by (rule unmatched)
next
  fix i
  assume rw: "\<not> (qc_cmd cmd \<noteq> cmd_code CMD_READ \<and> qc_cmd cmd \<noteq> cmd_code CMD_WRITE)"
    and Some: "findHandler (ma_table ma) (qc_addr cmd) = Some i"
  obtain h where h: "i < length (ma_table ma)" "ma_table ma ! i = Some h"
    using findHandler_Some [OF Some] by blast
  obtain h' st act where a: "handlers.on_access (qc_cmd cmd = cmd_code CMD_READ) h cmd = (h', st, act)"
    by (metis prod_cases3)
  have "handleMemoryAccess ma cmd = (ma\<lparr>ma_table := (ma_table ma)[i := Some h']\<rparr>, st, act)"
    unfolding handleMemoryAccess_def if_not_P [OF rw] Some
    using h a by (simp add: handlers.on_access_def)
  with Some h a show ?thesis by (rule matched)
qed (use skip in \<open>simp_all add: handleMemoryAccess_def\<close>)

section \<open>Sequences of accesses\<close>

fun run_accesses :: "mem_access \<Rightarrow> quetz_command list \<Rightarrow> mem_access \<times> stat_trace \<times> mem_action list" where
  "run_accesses ma [] = (ma, [], [])"
| "run_accesses ma (c # cs) =
     (case handleMemoryAccess ma c of (ma1, st, act) \<Rightarrow>
      case run_accesses ma1 cs of (ma2, st2, acts) \<Rightarrow> (ma2, st @ st2, act # acts))"

lemma handleMemoryAccess_counted:
  assumes "handleMemoryAccess ma cmd = (ma', st, act)"
  shows "counted st act \<and> findHandler (ma_table ma') = findHandler (ma_table ma) \<and>
    ma_filter_unmatched ma' = ma_filter_unmatched ma \<and> (act = END_SIM \<longrightarrow> qc_cmd cmd = cmd_code CMD_WRITE)"
proof (cases rule: handleMemoryAccess_cases [of cmd ma])
  case skip
  then show ?thesis using assms by (simp add: counted_def)
next
  case unmatched
  then show ?thesis using assms by (auto simp: counted_def split: if_splits)
next
  case (matched i h h' st' act')
  have eq: "ma' = ma\<lparr>ma_table := (ma_table ma)[i := Some h']\<rparr>" "st' = st" "act' = act"
    using matched(5) assms by auto
  have "counted st act" "handler_owns h' = handler_owns h"
    using handlers.access_counted [of "qc_cmd cmd = cmd_code CMD_READ" h cmd]
      handlers.access_owns [of "qc_cmd cmd = cmd_code CMD_READ" h cmd] matched(4) eq by simp_all
  moreover have "act = END_SIM \<Longrightarrow> qc_cmd cmd \<noteq> cmd_code CMD_READ"
    using handlers.end_is_write [of "qc_cmd cmd = cmd_code CMD_READ" h cmd] matched(4) eq by auto
  moreover have "act = END_SIM \<Longrightarrow> qc_cmd cmd = cmd_code CMD_READ \<or> qc_cmd cmd = cmd_code CMD_WRITE"
    using assms by (auto simp: handleMemoryAccess_def split: if_splits)
  ultimately show ?thesis
    using findHandler_update [OF matched(3)] eq by auto
qed

section \<open>Properties\<close>

text \<open>C27. Routing is stable and every access is accounted for: whatever sequence of accesses
  the guest makes, the table routes each address to the same handler as at the start, and the
  number of statistics entries the accesses add is the number of accesses that were not
  forwarded. A read never ends the simulation.\<close>

theorem accesses_accounted:
  assumes "run_accesses ma cs = (ma', st, acts)"
  shows "findHandler (ma_table ma') = findHandler (ma_table ma) \<and> length acts = length cs \<and>
    length st = length (filter (\<lambda>a. a \<noteq> FORWARD \<and> a \<noteq> FORWARD_MMIO) acts) \<and>
    (\<forall>i < length cs. acts ! i = END_SIM \<longrightarrow> qc_cmd (cs ! i) = cmd_code CMD_WRITE)"
  using assms
proof (induction ma cs arbitrary: ma' st acts rule: run_accesses.induct)
  case (2 ma c cs)
  obtain ma1 st1 act where h: "handleMemoryAccess ma c = (ma1, st1, act)" by (metis prod_cases3)
  obtain ma2 st2 acts2 where r: "run_accesses ma1 cs = (ma2, st2, acts2)" by (metis prod_cases3)
  have eq: "ma' = ma2" "st = st1 @ st2" "acts = act # acts2" using "2.prems" h r by simp_all
  note c = handleMemoryAccess_counted [OF h] and ih = "2.IH" [OF h [symmetric] refl r]
  have "length st1 = (if act \<noteq> FORWARD \<and> act \<noteq> FORWARD_MMIO then 1 else 0)"
    using c by (auto simp: counted_def)
  then show ?case
    using c ih unfolding eq by (auto simp: nth_Cons split: nat.split)
qed simp

text \<open>A map with a UART below a filtered catch-all range, and two accesses.\<close>

definition sample_access :: mem_access where
  "sample_access = \<lparr>ma_table = [Some (mk_handler 0x1000 0x10ff (new_uart 0)),
     Some (mk_handler 0 0xffff HFiltered)], ma_filter_unmatched = False\<rparr>"

definition sample_cmd :: "shmem_cmd \<Rightarrow> u64 \<Rightarrow> quetz_command" where
  "sample_cmd c a = \<lparr>qc_cmd = cmd_code c, qc_size = 1, qc_pc = 0, qc_addr = a, qc_insn_class = 0,
     qc_data = 65 # replicate 63 0\<rparr>"

theorem accesses_accounted_witness:
  "\<exists>ma' st acts. run_accesses sample_access [sample_cmd CMD_WRITE 0x1000, sample_cmd CMD_READ 0x20000] = (ma', st, acts) \<and>
     length acts = 2 \<and> findHandler (ma_table ma') = findHandler (ma_table sample_access)"
proof -
  obtain ma' st acts where r: "run_accesses sample_access
      [sample_cmd CMD_WRITE 0x1000, sample_cmd CMD_READ 0x20000] = (ma', st, acts)"
    by (metis prod_cases3)
  from accesses_accounted [OF r] r show ?thesis by simp
qed

text \<open>The first matching handler wins: the handler found for an address contains it and no
  earlier one does, and none is found only if no handler contains it.\<close>

theorem findHandler_first_match:
  "case findHandler hs addr of
     Some i \<Rightarrow> i < length hs \<and> (\<exists>h. hs ! i = Some h \<and> handler_owns h addr) \<and>
       (\<forall>j < i. \<forall>h. hs ! j = Some h \<longrightarrow> \<not> handler_owns h addr)
   | None \<Rightarrow> (\<forall>j < length hs. \<forall>h. hs ! j = Some h \<longrightarrow> \<not> handler_owns h addr)"
  using findHandler_Some findHandler_None by (auto split: option.split)

theorem findHandler_first_match_witness:
  "findHandler (ma_table sample_access) 0x1000 = Some 0 \<and>
   handler_owns (the (ma_table sample_access ! 0)) 0x1000"
proof -
  have f: "findHandler (ma_table sample_access) 0x1000 = Some 0"
    by (simp add: findHandler_def sample_access_def handler_owns_def mk_handler_def upt_rec)
  then show ?thesis
    using findHandler_first_match [of "ma_table sample_access" "0x1000"] by auto
qed

text \<open>The GPU trace keeps the last doorbell payloads: after any number of recorded
  payloads the log holds exactly the most recent ones, up to its limit.\<close>

theorem doorbell_log_recent:
  "foldl (recordDoorbellPayload mx) [] ps = drop (length ps - unat mx) ps"
proof (induction ps rule: rev_induct)
  case (snoc p ps)
  let ?d = "length ps - unat mx"
  show ?case
  proof (cases "length ps < unat mx")
    case True
    then show ?thesis using snoc by (simp add: recordDoorbellPayload_def)
  next
    case False
    then have "tl (drop ?d ps @ [p]) = drop (Suc ?d) (ps @ [p])"
      by (cases "unat mx = 0") (auto simp: drop_Suc tl_drop)
    then show ?thesis
      using snoc False by (simp add: recordDoorbellPayload_def Suc_diff_le)
  qed
qed simp

end
