(* ===== verification/Quetz_Stages.thy ===== *)
theory Quetz_Stages
  imports Quetz_Mem_Issue Quetz_Region
begin

text \<open>
  The stages of the per-core event pipeline: the default input, filter, transform and output stages
  (\<open>src/quetz_pipeline_input.cc\<close>, \<open>_filter.cc\<close>, \<open>_transform.cc\<close>, \<open>_output.cc\<close>) and the logging
  output stage (\<open>src/quetz_logging_pipeline_output.cc\<close>). The command tunnel is the list of commands
  it currently holds; the statistics object the stages share is the statistics trace of the emitter.
  The facts say what the input stage still has to deliver, which requests an operation sends,
  window by window, and that routing does not depend on the state of the handlers. What a pipeline relies on in an output
  stage is the locale \<open>output_stage\<close>, which both output stages fulfil.
\<close>

section \<open>Events and operations\<close>

record pipe_event =
  ev_cmd :: quetz_command
  ev_stall :: u32

record mem_op =
  mo_is_read :: bool
  mo_is_mmio :: bool
  mo_addr :: u64
  mo_size :: u32
  mo_pc :: u64
  mo_data :: "u8 list"

record core_ctx =
  max_queue_len :: u32
  max_issue_per_cycle :: u32
  max_pending :: u32
  max_insts :: u64
  detailed_tracking :: bool
  exec_latency :: "u32 list"
  compute_latency :: "u32 list"

section \<open>Input stage\<close>

record pipe_input =
  run_nop :: quetz_command
  run_remaining :: u32
  run_stall :: u32

function drainRun :: "pipe_event list \<Rightarrow> pipe_input \<Rightarrow> u32 \<Rightarrow> pipe_event list \<times> pipe_input" where
  "drainRun q inp mx =
     (if run_remaining inp > 0 \<and> length q < unat mx
      then drainRun (q @ [\<lparr>ev_cmd = run_nop inp, ev_stall = run_stall inp\<rparr>])
             (inp\<lparr>run_remaining := run_remaining inp - 1\<rparr>) mx
      else (q, inp))"
  by auto
termination
proof (relation "measure (\<lambda>(q, inp, mx). unat (run_remaining inp))")
  have "unat (x - 1) < unat x" if "x > 0" for x :: u32
    using that by (simp add: unat_sub word_le_nat_alt word_less_nat_alt)
  then show "((q @ [\<lparr>ev_cmd = run_nop inp, ev_stall = run_stall inp\<rparr>],
      inp\<lparr>run_remaining := run_remaining inp - 1\<rparr>, mx), q, inp, mx)
      \<in> measure (\<lambda>(q, inp, mx). unat (run_remaining inp))"
    if "run_remaining inp > 0 \<and> length q < unat mx" for q :: "pipe_event list" and inp :: pipe_input and mx :: u32
    using that by simp
qed simp

declare drainRun.simps [simp del]

definition start_run :: "core_ctx \<Rightarrow> quetz_command \<Rightarrow> pipe_input" where
  "start_run ctx cmd =
     \<lparr>run_nop = cmd\<lparr>qc_cmd := cmd_code CMD_NOP, qc_size := 0\<rparr>,
      run_remaining = (if qc_size cmd \<noteq> 0 then qc_size cmd else 1),
      run_stall = (if qc_insn_class cmd < QUETZ_INSN_CLASS_COUNT
                   then compute_latency ctx ! unat (qc_insn_class cmd) else 0)\<rparr>"

definition event_stall :: "core_ctx \<Rightarrow> quetz_command \<Rightarrow> u32" where
  "event_stall ctx cmd =
     (if qc_insn_class cmd < QUETZ_INSN_CLASS_COUNT then
        if qc_cmd cmd = cmd_code CMD_READ \<or> qc_cmd cmd = cmd_code CMD_WRITE
          then exec_latency ctx ! unat (qc_insn_class cmd)
        else if qc_cmd cmd = cmd_code CMD_NOP then compute_latency ctx ! unat (qc_insn_class cmd)
        else 0
      else 0)"

text \<open>The loop of \<open>refill\<close> over the commands in the tunnel.\<close>

fun refill_loop :: "core_ctx \<Rightarrow> pipe_event list \<Rightarrow> pipe_input \<Rightarrow> quetz_command list \<Rightarrow> u32 \<Rightarrow>
    pipe_event list \<times> pipe_input \<times> quetz_command list \<times> bool" where
  "refill_loop ctx q inp [] mx = (q, inp, [], False)"
| "refill_loop ctx q inp (cmd # src) mx =
     (if length q < unat mx \<and> run_remaining inp = 0 then
        if qc_cmd cmd = cmd_code CMD_COMPUTE_RUN then
          (case drainRun q (start_run ctx cmd) mx of (q', inp') \<Rightarrow> refill_loop ctx q' inp' src mx)
        else
          let q' = q @ [\<lparr>ev_cmd = cmd, ev_stall = event_stall ctx cmd\<rparr>]
          in if qc_cmd cmd = cmd_code CMD_EXIT then (q', inp, src, True)
             else refill_loop ctx q' inp src mx
      else (q, inp, cmd # src, False))"

definition refill :: "core_ctx \<Rightarrow> pipe_event list \<Rightarrow> pipe_input \<Rightarrow> quetz_command list \<Rightarrow> u32 \<Rightarrow>
    pipe_event list \<times> pipe_input \<times> quetz_command list \<times> bool" where
  "refill ctx q inp src mx =
     (case drainRun q inp mx of (q', inp') \<Rightarrow> refill_loop ctx q' inp' src mx)"

section \<open>Filter and transform stages\<close>

definition filter_handle ::
    "mem_access option \<Rightarrow> quetz_command \<Rightarrow> mem_access option \<times> stat_trace \<times> mem_action \<times> bool" where
  "filter_handle strat cmd =
     (case strat of
        None \<Rightarrow> (None, [], FORWARD, False)
      | Some ma \<Rightarrow>
          (case handleMemoryAccess ma cmd of (ma', st, act) \<Rightarrow> (Some ma', st, act, act = CONSUME)))"

datatype transform_result = STALL | CONSUMED_NOOP | EMIT_MEMOP | HALT_EXIT

definition class_stat :: "u32 \<Rightarrow> stat_trace" where
  "class_stat c =
     (if c = class_code INT_COMPUTE then [(S_int_compute, 1)]
      else if c = class_code FP_COMPUTE then [(S_fp_compute, 1)]
      else if c = class_code VEC_COMPUTE then [(S_vec_compute, 1)]
      else if c = class_code BRANCH then [(S_branch, 1)]
      else [])"

definition op_of :: "quetz_command \<Rightarrow> mem_action \<Rightarrow> mem_op" where
  "op_of cmd act =
     \<lparr>mo_is_read = (qc_cmd cmd = cmd_code CMD_READ), mo_is_mmio = (act = FORWARD_MMIO),
      mo_addr = qc_addr cmd, mo_size = qc_size cmd, mo_pc = qc_pc cmd, mo_data = qc_data cmd\<rparr>"

definition transform_process ::
    "core_ctx \<Rightarrow> pipe_event \<Rightarrow> mem_op \<Rightarrow> mem_action \<Rightarrow> pipe_event \<times> stat_trace \<times> mem_op \<times> transform_result" where
  "transform_process ctx ev op act =
     (let cmd = ev_cmd ev in
      if qc_cmd cmd = cmd_code CMD_EXIT then (ev, [], op, HALT_EXIT)
      else if act = END_SIM then (ev, [], op, HALT_EXIT)
      else if ev_stall ev > 0 then
        (ev\<lparr>ev_stall := ev_stall ev - 1\<rparr>,
         [(if qc_cmd cmd = cmd_code CMD_NOP then S_compute_stall_cycles else S_stall_cycles, 1)], op, STALL)
      else if qc_cmd cmd = cmd_code CMD_NOP then
        (ev, [(S_noop_count, 1), (S_insn_count, 1)] @
             (if detailed_tracking ctx then class_stat (qc_insn_class cmd) else []), op, CONSUMED_NOOP)
      else (ev, [], op_of cmd act, EMIT_MEMOP))"

section \<open>Output stages\<close>

text \<open>\<open>issueAvailable\<close> of the default output stage: the emitter, the retained cursor, the
  number of requests sent and whether the access is complete.\<close>

definition issueAvailable ::
    "(nat \<Rightarrow> nat) \<Rightarrow> u64 \<Rightarrow> emitter \<Rightarrow> u32 \<Rightarrow> mem_op \<Rightarrow> u32 \<Rightarrow> (emitter \<times> u32 \<times> u32 \<times> bool) result" where
  "issueAvailable ids now em offset op budget =
     (let path = (if mo_is_mmio op then MMIO else CACHED) in
      res_bind
        (if mo_is_read op then issueReadWindow ids now em (mo_addr op) (mo_size op) path offset budget
         else issueWriteWindow ids now em (mo_addr op) (mo_size op) (Some (mo_data op)) path offset budget)
        (\<lambda>(em', offset', issued).
           let complete = (offset' = mo_size op)
           in Inr (em', if complete then 0 else offset', issued, complete)))"

definition op_path :: "mem_op \<Rightarrow> issue_path" where
  "op_path op = (if mo_is_mmio op then MMIO else CACHED)"

definition output_slotsNeeded :: "emitter \<Rightarrow> mem_op \<Rightarrow> u32" where
  "output_slotsNeeded em op = slotsNeeded em (mo_addr op) (mo_size op) (op_path op)"

definition output_issue :: "(nat \<Rightarrow> nat) \<Rightarrow> u64 \<Rightarrow> emitter \<Rightarrow> mem_op \<Rightarrow> emitter result" where
  "output_issue ids now em op =
     (if mo_is_read op then issueRead ids now em (mo_addr op) (mo_size op) (op_path op)
      else issueWrite ids now em (mo_addr op) (mo_size op) (Some (mo_data op)) (op_path op))"

text \<open>An output stage owns its cursor. The logging stage prints the core, direction, address and size of an
  access when it is issued, in one go or with the last of its windows, and leaves the rest to a default stage.\<close>

record default_output =
  do_emitter :: emitter
  do_offset :: u32

definition default_available ::
    "(nat \<Rightarrow> nat) \<Rightarrow> u64 \<Rightarrow> default_output \<Rightarrow> mem_op \<Rightarrow> u32 \<Rightarrow> (default_output \<times> u32 \<times> bool) result" where
  "default_available ids now d op budget =
     res_bind (issueAvailable ids now (do_emitter d) (do_offset d) op budget)
       (\<lambda>(em, off, n, complete). Inr (\<lparr>do_emitter = em, do_offset = off\<rparr>, n, complete))"

record logging_output =
  lo_delegate :: default_output
  lo_core_id :: u32
  lo_log :: "(u32 \<times> bool \<times> u64 \<times> u32) list"

text \<open>A stage after \<open>configure\<close>, which creates the delegate.\<close>

definition logging_configure :: "u32 \<Rightarrow> emitter \<Rightarrow> logging_output" where
  "logging_configure core_id em = \<lparr>lo_delegate = \<lparr>do_emitter = em, do_offset = 0\<rparr>, lo_core_id = core_id, lo_log = []\<rparr>"

definition log_op :: "mem_op \<Rightarrow> logging_output \<Rightarrow> logging_output" where
  "log_op op l = l\<lparr>lo_log := lo_log l @ [(lo_core_id l, mo_is_read op, mo_addr op, mo_size op)]\<rparr>"

definition logging_slotsNeeded :: "logging_output \<Rightarrow> mem_op \<Rightarrow> u32" where
  "logging_slotsNeeded l op = output_slotsNeeded (do_emitter (lo_delegate l)) op"

definition logging_issue :: "(nat \<Rightarrow> nat) \<Rightarrow> u64 \<Rightarrow> logging_output \<Rightarrow> mem_op \<Rightarrow> logging_output result" where
  "logging_issue ids now l op =
     res_bind (output_issue ids now (do_emitter (lo_delegate l)) op)
       (\<lambda>em. Inr ((log_op op l)\<lparr>lo_delegate := (lo_delegate l)\<lparr>do_emitter := em\<rparr>\<rparr>))"

definition logging_available ::
    "(nat \<Rightarrow> nat) \<Rightarrow> u64 \<Rightarrow> logging_output \<Rightarrow> mem_op \<Rightarrow> u32 \<Rightarrow> (logging_output \<times> u32 \<times> bool) result" where
  "logging_available ids now l op budget =
     res_bind (default_available ids now (lo_delegate l) op budget)
       (\<lambda>(d, n, complete). Inr ((if complete then log_op op else (\<lambda>l. l)) (l\<lparr>lo_delegate := d\<rparr>), n, complete))"

definition logging_pendingCount :: "logging_output \<Rightarrow> u32" where
  "logging_pendingCount l = pendingCount (do_emitter (lo_delegate l))"

definition logging_handleResponse ::
    "u64 \<Rightarrow> logging_output \<Rightarrow> mem_response \<Rightarrow> logging_output \<times> (u64 \<times> bool \<times> bool) option" where
  "logging_handleResponse now l resp =
     (case emitter_handleResponse now (do_emitter (lo_delegate l)) resp of
        (em, out) \<Rightarrow> (l\<lparr>lo_delegate := (lo_delegate l)\<lparr>do_emitter := em\<rparr>\<rparr>, out))"

section \<open>The event stream\<close>

text \<open>The events the input stage still has to deliver: the rest of the current compute run and
  the expansion of the commands in the tunnel.\<close>

definition run_event :: "pipe_input \<Rightarrow> pipe_event" where
  "run_event inp = \<lparr>ev_cmd = run_nop inp, ev_stall = run_stall inp\<rparr>"

definition run_events :: "pipe_input \<Rightarrow> pipe_event list" where
  "run_events inp = replicate (unat (run_remaining inp)) (run_event inp)"

definition expand :: "core_ctx \<Rightarrow> quetz_command \<Rightarrow> pipe_event list" where
  "expand ctx cmd =
     (if qc_cmd cmd = cmd_code CMD_COMPUTE_RUN then run_events (start_run ctx cmd)
      else [\<lparr>ev_cmd = cmd, ev_stall = event_stall ctx cmd\<rparr>])"

definition undelivered :: "core_ctx \<Rightarrow> pipe_input \<Rightarrow> quetz_command list \<Rightarrow> pipe_event list" where
  "undelivered ctx inp src = run_events inp @ concat (map (expand ctx) src)"

lemma drainRun_spec:
  assumes "drainRun q inp mx = (q', inp')"
  shows "q' @ run_events inp' = q @ run_events inp" "\<exists>n. q' = q @ replicate n (run_event inp)"
    "run_remaining inp' = 0 \<or> unat mx \<le> length q'" "length q \<le> unat mx \<Longrightarrow> length q' \<le> unat mx"
proof -
  have "q' @ run_events inp' = q @ run_events inp \<and> (\<exists>n. q' = q @ replicate n (run_event inp)) \<and>
    (run_remaining inp' = 0 \<or> unat mx \<le> length q') \<and> (length q \<le> unat mx \<longrightarrow> length q' \<le> unat mx)"
    using assms
  proof (induction q inp mx rule: drainRun.induct)
    case (1 q inp mx)
    show ?case
    proof (cases "run_remaining inp > 0 \<and> length q < unat mx")
      case False
      then have "drainRun q inp mx = (q, inp)" by (subst drainRun.simps) (rule if_not_P)
      then have "q' = q" "inp' = inp" using "1.prems" by simp_all
      moreover have "run_remaining inp = 0 \<or> unat mx \<le> length q"
        using False by (auto simp: word_less_nat_alt unat_eq_0 unat_gt_0)
      ultimately show ?thesis by (auto intro: exI [of _ 0])
    next
      case True
      let ?i = "inp\<lparr>run_remaining := run_remaining inp - 1\<rparr>"
      have dr: "drainRun (q @ [\<lparr>ev_cmd = run_nop inp, ev_stall = run_stall inp\<rparr>]) ?i mx = (q', inp')"
        using "1.prems" True by (simp add: drainRun.simps [of q inp])
      have u: "unat (run_remaining inp) = Suc (unat (run_remaining inp - 1))"
        using True by (simp add: unat_sub word_le_nat_alt word_less_nat_alt)
      have ev: "run_event ?i = run_event inp" by (simp add: run_event_def)
      have evs: "run_events inp = run_event inp # run_events ?i"
        unfolding run_events_def ev by (simp add: u)
      note ih = "1.IH" [OF True dr, folded run_event_def]
      from ih obtain n where "q' = (q @ [run_event inp]) @ replicate n (run_event inp)"
        unfolding ev by blast
      then have "q' = q @ replicate (Suc n) (run_event inp)" by simp
      then show ?thesis
        using ih True evs by (intro conjI exI [of _ "Suc n"]) (simp_all, linarith?)
    qed
  qed
  then show "q' @ run_events inp' = q @ run_events inp" "\<exists>n. q' = q @ replicate n (run_event inp)"
    "run_remaining inp' = 0 \<or> unat mx \<le> length q'" "length q \<le> unat mx \<Longrightarrow> length q' \<le> unat mx"
    by auto
qed

definition is_exit :: "pipe_event \<Rightarrow> bool" where
  "is_exit ev \<longleftrightarrow> qc_cmd (ev_cmd ev) = cmd_code CMD_EXIT"

lemma refill_loop_spec:
  "refill_loop ctx q inp src mx = (q', inp', src', ex) \<Longrightarrow>
   q' @ undelivered ctx inp' src' = q @ undelivered ctx inp src \<and> (\<exists>r. q' = q @ r) \<and>
   (unat mx \<le> length q' \<or> (src' = [] \<and> run_remaining inp' = 0) \<or> run_remaining inp \<noteq> 0 \<or> (\<exists>e \<in> set q'. is_exit e)) \<and>
   (length q \<le> unat mx \<longrightarrow> length q' \<le> unat mx)"
proof (induction ctx q inp src mx rule: refill_loop.induct)
  case (1 ctx q inp mx)
  then show ?case by auto
next
  case (2 ctx q inp cmd src mx)
  show ?case
  proof (cases "length q < unat mx \<and> run_remaining inp = 0")
    case False
    then show ?thesis using "2.prems" by auto
  next
    case True
    have none: "run_events inp = []" using True by (simp add: run_events_def)
    show ?thesis
    proof (cases "qc_cmd cmd = cmd_code CMD_COMPUTE_RUN")
      case run: True
      obtain q1 i1 where d: "drainRun q (start_run ctx cmd) mx = (q1, i1)" by fastforce
      note ds = drainRun_spec [OF d]
      have rl: "refill_loop ctx q1 i1 src mx = (q', inp', src', ex)" using "2.prems" True run d by simp
      note ih = "2.IH"(1) [OF True run d [symmetric] rl]
      have ev: "q1 @ undelivered ctx i1 src = q @ undelivered ctx inp (cmd # src)"
        using ds(1) none run by (simp add: undelivered_def expand_def)
      obtain r0 where r0: "q1 = q @ r0" using ds(2) by blast
      have grow: "unat mx \<le> length q1 \<Longrightarrow> unat mx \<le> length q'" using ih by auto
      show ?thesis
        using ih ev ds(3,4) r0 True grow by auto
    next
      case nr: False
      let ?q = "q @ [\<lparr>ev_cmd = cmd, ev_stall = event_stall ctx cmd\<rparr>]"
      have ev: "?q @ undelivered ctx inp src = q @ undelivered ctx inp (cmd # src)"
        using none nr by (simp add: undelivered_def expand_def)
      show ?thesis
      proof (cases "qc_cmd cmd = cmd_code CMD_EXIT")
        case e: True
        then have "q' = ?q" "inp' = inp" "src' = src" using "2.prems" True nr by (simp_all add: Let_def)
        then show ?thesis using ev True e by (auto simp: is_exit_def)
      next
        case ne: False
        have rl: "refill_loop ctx ?q inp src mx = (q', inp', src', ex)"
          using "2.prems" True nr ne by (simp add: Let_def)
        from "2.IH"(2) [OF True nr refl ne rl] show ?thesis using ev True by auto
      qed
    qed
  qed
qed

lemma refill_spec:
  assumes "refill ctx q inp src mx = (q', inp', src', ex)"
  shows "q' @ undelivered ctx inp' src' = q @ undelivered ctx inp src" "\<exists>r. q' = q @ r"
    "unat mx \<le> length q' \<or> (src' = [] \<and> run_remaining inp' = 0) \<or> (\<exists>e \<in> set q'. is_exit e)"
    "length q \<le> unat mx \<Longrightarrow> length q' \<le> unat mx"
proof -
  obtain q1 i1 where d: "drainRun q inp mx = (q1, i1)" by fastforce
  note ds = drainRun_spec [OF d]
  have rl: "refill_loop ctx q1 i1 src mx = (q', inp', src', ex)" using assms d by (simp add: refill_def)
  note rs = refill_loop_spec [OF rl]
  show "q' @ undelivered ctx inp' src' = q @ undelivered ctx inp src"
    using rs ds(1) by (simp add: undelivered_def)
  show "\<exists>r. q' = q @ r" using rs ds(2) by auto
  have "unat mx \<le> length q1 \<Longrightarrow> unat mx \<le> length q'" using rs by auto
  then show "unat mx \<le> length q' \<or> (src' = [] \<and> run_remaining inp' = 0) \<or> (\<exists>e \<in> set q'. is_exit e)"
    using rs ds(3) by blast
  show "length q' \<le> unat mx" if "length q \<le> unat mx" using rs ds(4) [OF that] by simp
qed

section \<open>Budgets\<close>

definition sends :: "(nat \<Rightarrow> nat) \<Rightarrow> emitter \<Rightarrow> u32 \<Rightarrow> emitter \<Rightarrow> bool" where
  "sends ids e n e' \<longleftrightarrow> em_pending_count e' = em_pending_count e + n \<and>
     length (em_sent e') = length (em_sent e) + unat n \<and> em_next e' = em_next e + unat n \<and>
     dom (em_pending e') = dom (em_pending e) \<union> ids ` {em_next e..<em_next e'}"

lemma issue_iter_dom:
  "issue_iter (loop_step w ids now raw) line n e a off r = (e', a', off', r', k) \<Longrightarrow>
    dom (em_pending e') = dom (em_pending e) \<union> ids ` {em_next e..<em_next e + k}"
proof (induction n arbitrary: e a off r e' a' off' r' k)
  case (Suc n)
  show ?case
  proof (cases "r = 0")
    case False
    define c where "c = chunk_word line a r"
    let ?e = "loop_step w ids now raw a off c e"
    from Suc.prems False obtain k0 where
      it: "issue_iter (loop_step w ids now raw) line n ?e (a + ucast c) (off + c) (r - c) = (e', a', off', r', k0)"
        "k = Suc k0"
      by (auto simp: Let_def c_def split: prod.splits)
    have d: "dom (em_pending ?e) = insert (ids (em_next e)) (dom (em_pending e))"
      by (simp add: loop_step_def read_step_def write_step_def send_request_def Let_def)
    have "{em_next e..<em_next e + k} = insert (em_next e) {Suc (em_next e)..<Suc (em_next e) + k0}"
      using it(2) by auto
    then show ?thesis using Suc.IH [OF it(1)] d by auto
  qed (use Suc.prems in simp)
qed simp

lemma loop_effect:
  fixes budget :: u32
  assumes "issue_iter (loop_step w ids now raw) line (unat budget) e a off r = (e', a', off', r', k)"
  shows "of_nat k \<le> budget \<and> sends ids e (of_nat k) e'"
proof -
  have k: "k \<le> unat budget" by (rule issue_iter_count [OF assms])
  then have u: "unat (of_nat k :: u32) = k"
    using unat_less_32 [of budget] by (intro unat_of_nat_small) auto
  moreover have "k = length (chunk_seq line a r (unat budget))"
    using issue_iter_cursor [OF assms] by (simp add: Let_def)
  ultimately show ?thesis
    using issue_iter_effect [OF assms] issue_iter_dom [OF assms] k by (simp add: sends_def word_le_nat_alt)
qed

lemma sends_refl [simp]: "sends ids e 0 e"
  by (simp add: sends_def)

lemma sends_addData [simp]: "sends ids (addData st v e) n e' = sends ids e n e'"
  by (simp add: sends_def)

lemma sends_request [simp]: "sends ids e 1 (send_request ids now path w a c d st e)"
  by (simp add: sends_def) (simp add: send_request_def Let_def)

lemma sends_request_addData [simp]:
  "sends ids e 1 (send_request ids now path w a c d st (addData st' v e))"
  using sends_request [of ids "addData st' v e" now path w a c d st] by (simp only: sends_addData)

lemma issueReadWindow_sends:
  assumes "issueReadWindow ids now e a sz path off budget = Inr (e', off', k)"
  shows "k \<le> budget \<and> sends ids e k e'"
proof (cases "sz = 0 \<or> budget = 0")
  case False
  then have b: "1 \<le> budget" by (simp add: word_le_nat_alt Suc_le_eq unat_gt_0)
  show ?thesis
  proof (cases path)
    case MMIO
    then show ?thesis using assms False b
      by (auto simp: issueReadWindow_def Let_def split: if_splits)
  next
    case CACHED
    define e1 where "e1 = (if off = 0 then addData S_read_req_sizes (ucast sz) e else e)"
    have "read_loop ids now e1 (a + ucast off) off (sz - off) 0 budget = (e', off', k)"
      using assms False CACHED by (auto simp: issueReadWindow_def Let_def e1_def split: if_splits)
    then have "k \<le> budget \<and> sends ids e1 k e'"
      by (auto simp: read_loop_iter read_loop_step dest!: loop_effect split: prod.splits)
    then show ?thesis by (auto simp: e1_def split: if_splits)
  qed
qed (use assms in \<open>auto simp: issueReadWindow_def\<close>)

lemma issueWriteWindow_sends:
  assumes "issueWriteWindow ids now e a sz raw path off budget = Inr (e', off', k)"
  shows "k \<le> budget \<and> sends ids e k e'"
proof (cases "sz = 0 \<or> budget = 0")
  case False
  then have b: "1 \<le> budget" by (simp add: word_le_nat_alt Suc_le_eq unat_gt_0)
  show ?thesis
  proof (cases path)
    case MMIO
    then show ?thesis using assms False b
      by (auto simp: issueWriteWindow_def Let_def split: if_splits)
  next
    case CACHED
    define e1 where "e1 = (if off = 0 then addData S_write_req_sizes (ucast sz) e else e)"
    define e2 where "e2 = (if sz > kDataCap \<and> off = 0 then addData S_cached_truncated_writes 1 e1 else e1)"
    define isz where "isz = (if sz > kDataCap then kDataCap else sz)"
    obtain off1 where "write_loop ids now raw e2 (a + ucast off) off off (isz - off) 0 budget = (e', off1, k)"
      using assms False CACHED
      by (auto simp: issueWriteWindow_def Let_def e1_def e2_def isz_def split: if_splits prod.splits)
    then have "k \<le> budget \<and> sends ids e2 k e'"
      using loop_effect [where w = True and ids = ids and now = now and raw = raw]
      by (auto simp: write_loop_iter loop_step_def split: prod.splits)
    then show ?thesis by (auto simp: e1_def e2_def split: if_splits)
  qed
qed (use assms in \<open>auto simp: issueWriteWindow_def\<close>)

lemma issueAvailable_sends:
  assumes "issueAvailable ids now em off op budget = Inr (em', off', count, cpl)"
  shows "count \<le> budget \<and> sends ids em count em'"
  using assms
  by (auto simp: issueAvailable_def Let_def res_bind_Inr_iff split: if_splits
      dest: issueReadWindow_sends issueWriteWindow_sends)

section \<open>Requests on the wire\<close>

text \<open>A request without its identifier, and the requests an operation still has to send from a
  cursor on: one MMIO request, or the chunks of the rest of the access. A store sends at most the
  bytes the command carries.\<close>

type_synonym wire = "issue_path \<times> bool \<times> u64 \<times> u32 \<times> u8 list"

definition wire_of :: "issue_path \<times> mem_request \<Rightarrow> wire" where
  "wire_of x = (fst x, mr_write (snd x), mr_addr (snd x), mr_size (snd x), mr_data (snd x))"

fun chunk_wires :: "mem_op \<Rightarrow> u32 \<Rightarrow> (u64 \<times> u32) list \<Rightarrow> wire list" where
  "chunk_wires op off [] = []"
| "chunk_wires op off ((a, c) # cs) =
     (CACHED, \<not> mo_is_read op, a, c, if mo_is_read op then [] else write_chunk_data (Some (mo_data op)) off c)
     # chunk_wires op (off + c) cs"

definition op_bytes :: "mem_op \<Rightarrow> u32" where
  "op_bytes op = (if mo_is_read op then mo_size op else min (mo_size op) kDataCap)"

definition op_rest :: "u64 \<Rightarrow> mem_op \<Rightarrow> u32 \<Rightarrow> wire list" where
  "op_rest line op off =
     (if mo_size op = 0 then []
      else if mo_is_mmio op then
        [(MMIO, \<not> mo_is_read op, mo_addr op, op_bytes op,
          if mo_is_read op then [] else write_chunk_data (Some (mo_data op)) 0 (op_bytes op))]
      else chunk_wires op off (chunk_seq line (mo_addr op + ucast off) (op_bytes op - off) (unat (op_bytes op - off))))"

lemma wire_reqs:
  "w = (\<not> mo_is_read op) \<Longrightarrow> (w \<Longrightarrow> raw = Some (mo_data op)) \<Longrightarrow>
   map wire_of (reqs_of ids n w raw off cs) = chunk_wires op off cs"
  by (induction cs arbitrary: n off) (auto simp: wire_of_def)

lemma chunk_wires_append:
  "chunk_wires op off (xs @ ys) = chunk_wires op off xs @ chunk_wires op (off + of_nat (seq_bytes xs)) ys"
  by (induction xs arbitrary: off) (auto simp: add.assoc)

lemma chunk_seq_enough: "unat r \<le> b \<Longrightarrow> chunk_seq line a r b = chunk_seq line a r (unat r)"
  using chunk_seq_resume [of line a r "unat r" "b - unat r"] seq_bytes_all [of r "unat r" line a]
  by (simp add: Let_def)

lemma chunk_seq_split:
  assumes "cs = chunk_seq line a r b" "n = seq_bytes cs"
  shows "chunk_seq line a r (unat r) = cs @ chunk_seq line (a + of_nat n) (r - of_nat n) (unat (r - of_nat n))"
proof -
  have "n \<le> unat r" using seq_bytes_le assms by blast
  then have "unat (of_nat n :: u32) = n" using unat_less_32 [of r] by (intro unat_of_nat_small) simp
  with \<open>n \<le> unat r\<close> have n: "unat (r - of_nat n) \<le> unat r" by (simp add: unat_sub word_le_nat_alt)
  have "chunk_seq line a r (unat r) = chunk_seq line a r (b + unat r)" by (rule chunk_seq_enough [symmetric]) simp
  also have "\<dots> = cs @ chunk_seq line (a + of_nat n) (r - of_nat n) (unat r)"
    using chunk_seq_resume [of line a r b "unat r"] assms by (simp add: Let_def)
  finally show ?thesis using chunk_seq_enough [OF n] by simp
qed

text \<open>A window sends a first part of what was left and moves the cursor to the rest.\<close>

lemma loop_wires:
  fixes off :: u32
  assumes "issue_iter (loop_step w ids now raw) line (unat budget) e (mo_addr op + ucast off) off (op_bytes op - off) = (e', a', off', r', k)"
    and "w = (\<not> mo_is_read op)" "w \<Longrightarrow> raw = Some (mo_data op)" "off \<le> op_bytes op" "\<not> mo_is_mmio op" "mo_size op \<noteq> 0"
  obtains new where "map wire_of (em_sent e') = map wire_of (em_sent e) @ new"
    "op_rest line op off = new @ op_rest line op off'" "off' \<le> op_bytes op" "budget \<noteq> 0 \<Longrightarrow> off < op_bytes op \<Longrightarrow> off < off'"
proof -
  define cs where "cs = chunk_seq line (mo_addr op + ucast off) (op_bytes op - off) (unat budget)"
  define n where "n = seq_bytes cs"
  have off': "off' = off + of_nat n" using issue_iter_cursor [OF assms(1)] by (simp add: Let_def cs_def n_def)
  have le: "unat off + n \<le> unat (op_bytes op)"
    using seq_bytes_le [of line "mo_addr op + ucast off" "op_bytes op - off" "unat budget"] assms(4)
    by (simp add: n_def cs_def unat_sub word_le_nat_alt)
  have u: "unat off' = unat off + n"
    using le unat_less_32 [of "op_bytes op"] by (simp add: off' unat_word_ariths unat_of_nat)
  have a: "mo_addr op + ucast off + of_nat n = mo_addr op + (ucast off' :: u64)"
    using u le unat_less_32 [of "op_bytes op"] by (simp add: word_unat_eq_iff unat_word_ariths unat_of_nat mod_simps add.assoc)
  have r: "op_bytes op - off - of_nat n = op_bytes op - off'" by (simp add: off')
  have "op_rest line op off = chunk_wires op off cs @ op_rest line op off'"
    using assms(5,6) chunk_seq_split [OF cs_def n_def] unfolding a r
    by (simp add: op_rest_def chunk_wires_append off' n_def)
  moreover have "map wire_of (em_sent e') = map wire_of (em_sent e) @ chunk_wires op off cs"
    using issue_iter_effect [OF assms(1)] wire_reqs [OF assms(2,3)] by (simp add: cs_def)
  moreover have "off < off'" if "budget \<noteq> 0" "off < op_bytes op"
  proof -
    have "op_bytes op - off \<noteq> 0" using that(2) by auto
    then have "0 < n" using that(1) seq_bytes_pos by (simp add: n_def cs_def unat_gt_0)
    then show ?thesis using u by (simp add: word_less_nat_alt)
  qed
  ultimately show thesis using that le u by (simp add: word_le_nat_alt)
qed

lemma mmio_wires:
  assumes "mo_is_mmio op" "mo_size op \<noteq> 0" "budget \<noteq> 0"
    and "issueAvailable ids now em off op budget = Inr (em', off', count, cpl)"
  shows "map wire_of (em_sent em') = map wire_of (em_sent em) @ op_rest line op off \<and> em_line_size em' = em_line_size em \<and> cpl \<and> off' = 0"
proof -
  have sent: "map wire_of (em_sent (send_request ids now MMIO w a c d st e)) = map wire_of (em_sent e) @ [(MMIO, w, a, c, d)]" for w a c d st e
    by (simp add: send_request_def Let_def wire_of_def)
  have b: "op_bytes op = (if mo_is_read op then mo_size op else if mo_size op > kDataCap then kDataCap else mo_size op)"
    by (auto simp: op_bytes_def min_def)
  have d: "write_chunk_data (Some bs) 0 c = copy_into (replicate (unat c) 0) 0 (take (unat c) bs)" if "\<not> c > kDataCap" for bs c
    using that by (auto simp: write_chunk_data_def Let_def kDataCap_def ipc_constants vec_slice_def)
  show ?thesis
  proof (cases "mo_is_read op")
    case True
    then show ?thesis using assms b
      by (auto simp: issueAvailable_def issueReadWindow_def op_rest_def sent Let_def split: if_splits)
  next
    case False
    then show ?thesis using assms(1-3) assms(4) [unfolded issueAvailable_def issueWriteWindow_def]
      by (auto simp: op_rest_def b d sent Let_def split: if_splits)
  qed
qed

lemma issueAvailable_wires:
  assumes "issueAvailable ids now em off op budget = Inr (em', off', count, cpl)"
    and "off \<le> op_bytes op" "budget \<noteq> 0" "line = em_line_size em"
  obtains new where "map wire_of (em_sent em') = map wire_of (em_sent em) @ new" "em_line_size em' = line"
    "op_rest line op off = new @ (if cpl then [] else op_rest line op off')"
    "if cpl then off' = 0 else off < off' \<and> off' \<le> op_bytes op"
proof (cases "mo_size op = 0 \<or> mo_is_mmio op")
  case True
  show thesis
  proof (cases "mo_size op = 0")
    case z: True
    then have "off = 0" using assms(2) by (simp add: op_bytes_def split: if_splits)
    then show thesis using that [of "[]"] assms(1,4) z
      by (auto simp: issueAvailable_def issueReadWindow_def issueWriteWindow_def op_rest_def Let_def split: if_splits)
  next
    case False
    then show thesis using that mmio_wires [OF _ False assms(3,1), of line] True assms(4) by auto
  qed
next
  case False
  then have nz: "mo_size op \<noteq> 0" "\<not> mo_is_mmio op" by auto
  have "\<exists>w raw e1 a1 off1 r1 k1. issue_iter (loop_step w ids now raw) line (unat budget) e1 (mo_addr op + ucast off) off (op_bytes op - off)
        = (em', a1, off1, r1, k1) \<and> w = (\<not> mo_is_read op) \<and> (w \<longrightarrow> raw = Some (mo_data op)) \<and>
      em_sent e1 = em_sent em \<and> em_line_size e1 = line \<and> cpl = (off1 = op_bytes op) \<and> off' = (if cpl then 0 else off1)"
  proof (cases "mo_is_read op")
    case True
    define e1 where "e1 = (if off = 0 then addData S_read_req_sizes (ucast (mo_size op)) em else em)"
    have e1: "em_line_size e1 = line" "em_sent e1 = em_sent em" by (auto simp: e1_def assms(4))
    obtain off1 where "read_loop ids now e1 (mo_addr op + ucast off) off (mo_size op - off) 0 budget = (em', off1, count)"
        "cpl = (off1 = mo_size op)" "off' = (if cpl then 0 else off1)"
      using assms(1,3) nz True
      by (auto simp: issueAvailable_def issueReadWindow_def Let_def e1_def res_bind_Inr_iff split: if_splits)
    then show ?thesis using True e1
      by (intro exI [of _ False] exI [of _ None] exI [of _ e1])
        (auto simp: read_loop_iter read_loop_step op_bytes_def split: prod.splits)
  next
    case False
    define e1 where "e1 = (if off = 0 then addData S_write_req_sizes (ucast (mo_size op)) em else em)"
    define e2 where "e2 = (if mo_size op > kDataCap \<and> off = 0 then addData S_cached_truncated_writes 1 e1 else e1)"
    have e2: "em_line_size e2 = line" "em_sent e2 = em_sent em" by (auto simp: e1_def e2_def assms(4))
    have b: "op_bytes op = (if mo_size op > kDataCap then kDataCap else mo_size op)" using False by (auto simp: op_bytes_def min_def)
    obtain off2 where w2: "issueWriteWindow ids now em (mo_addr op) (mo_size op) (Some (mo_data op)) CACHED off budget = Inr (em', off2, count)"
        "cpl = (off2 = mo_size op)" "off' = (if cpl then 0 else off2)"
      using assms(1) nz(2) False by (auto simp: issueAvailable_def Let_def res_bind_Inr_iff)
    obtain off1 where wl: "write_loop ids now (Some (mo_data op)) e2 (mo_addr op + ucast off) off off (op_bytes op - off) 0 budget = (em', off1, count)"
        "off2 = (if off1 = op_bytes op then mo_size op else off1)"
      using w2(1) assms(3) nz(1) unfolding b
      by (auto simp: issueWriteWindow_def Let_def e1_def e2_def split: if_splits prod.splits)
    then obtain a1 r1 k1 where it: "issue_iter (loop_step True ids now (Some (mo_data op))) line (unat budget) e2 (mo_addr op + ucast off) off
        (op_bytes op - off) = (em', a1, off1, r1, k1)"
      by (auto simp: write_loop_iter write_loop_step e2 split: prod.splits)
    have "off1 \<le> op_bytes op" using loop_wires [OF it _ _ assms(2) nz(2,1)] False by blast
    moreover have "op_bytes op \<le> mo_size op" using False by (simp add: op_bytes_def)
    ultimately have "cpl = (off1 = op_bytes op)" "off' = (if cpl then 0 else off1)" using wl(2) w2(2,3) by auto
    then show ?thesis using it False e2
      by (intro exI [of _ True] exI [of _ "Some (mo_data op)"] exI [of _ e2]) auto
  qed
  then obtain w raw e1 a1 off1 r1 k1 where it: "issue_iter (loop_step w ids now raw) line (unat budget) e1 (mo_addr op + ucast off) off
      (op_bytes op - off) = (em', a1, off1, r1, k1)" and w: "w = (\<not> mo_is_read op)" "w \<Longrightarrow> raw = Some (mo_data op)"
    and e1: "em_sent e1 = em_sent em" "em_line_size e1 = line" and c: "cpl = (off1 = op_bytes op)" "off' = (if cpl then 0 else off1)"
    by blast
  from loop_wires [OF it w assms(2) nz(2,1)] obtain new where new: "map wire_of (em_sent em') = map wire_of (em_sent em) @ new"
      "op_rest line op off = new @ op_rest line op off1" "off1 \<le> op_bytes op" "budget \<noteq> 0 \<Longrightarrow> off < op_bytes op \<Longrightarrow> off < off1"
    using e1 by auto
  have "off1 = op_bytes op" if "off = op_bytes op" using it that by (cases "unat budget") auto
  then have "off < off1" if "\<not> cpl" using new(4) assms(2,3) c(1) that by (cases "off = op_bytes op") auto
  moreover have "op_rest line op (op_bytes op) = []" using nz by (simp add: op_rest_def)
  moreover have "em_line_size em' = line" using issue_iter_effect [OF it] e1 by simp
  ultimately show thesis using that [of new] new c by (auto split: if_splits)
qed

section \<open>The output stage interface\<close>

text \<open>What a pipeline relies on: a window sends no more requests than its budget and counts them; what it sends is
  the first part of what the access still has to send, and it completes the access or moves the cursor
  forward.\<close>

locale output_stage =
  fixes available :: "(nat \<Rightarrow> nat) \<Rightarrow> u64 \<Rightarrow> 's \<Rightarrow> mem_op \<Rightarrow> u32 \<Rightarrow> ('s \<times> u32 \<times> bool) result"
    and em :: "'s \<Rightarrow> emitter"
    and cursor :: "'s \<Rightarrow> u32"
  assumes within_budget: "available ids now s op b = Inr (s', n, c) \<Longrightarrow> n \<le> b \<and> sends ids (em s) n (em s')"
    and window: "available ids now s op b = Inr (s', n, c) \<Longrightarrow> cursor s \<le> op_bytes op \<Longrightarrow> b \<noteq> 0 \<Longrightarrow>
      \<exists>new. map wire_of (em_sent (em s')) = map wire_of (em_sent (em s)) @ new \<and> em_line_size (em s') = em_line_size (em s) \<and>
        op_rest (em_line_size (em s)) op (cursor s) = new @ (if c then [] else op_rest (em_line_size (em s)) op (cursor s')) \<and>
        (if c then cursor s' = 0 else cursor s < cursor s' \<and> cursor s' \<le> op_bytes op)"
begin

text \<open>The windows of one access, each with its time and budget, until it is complete.\<close>

fun windows :: "(nat \<Rightarrow> nat) \<Rightarrow> mem_op \<Rightarrow> (u64 \<times> u32) list \<Rightarrow> 's \<Rightarrow> ('s \<times> bool) result" where
  "windows ids op [] s = Inr (s, False)"
| "windows ids op ((now, b) # ws) s =
     res_bind (available ids now s op b) (\<lambda>(s', n, c). if c then Inr (s', True) else windows ids op ws s')"

lemma windows_send:
  assumes "windows ids op ws s = Inr (s', True)" "cursor s \<le> op_bytes op" "\<forall>(now, b) \<in> set ws. b \<noteq> 0"
  shows "map wire_of (em_sent (em s')) = map wire_of (em_sent (em s)) @ op_rest (em_line_size (em s)) op (cursor s) \<and> cursor s' = 0"
  using assms
proof (induction ws arbitrary: s)
  case (Cons w ws)
  obtain now b where w: "w = (now, b)" by fastforce
  from Cons.prems(1) obtain s1 n c where a: "available ids now s op b = Inr (s1, n, c)"
      "if c then s' = s1 else windows ids op ws s1 = Inr (s', True)"
    unfolding w by (auto simp: res_bind_Inr_iff split: if_splits)
  from window [OF a(1) Cons.prems(2)] Cons.prems(3) w obtain new where
    "map wire_of (em_sent (em s1)) = map wire_of (em_sent (em s)) @ new" "em_line_size (em s1) = em_line_size (em s)"
    "op_rest (em_line_size (em s)) op (cursor s) = new @ (if c then [] else op_rest (em_line_size (em s)) op (cursor s1))"
    "if c then cursor s1 = 0 else cursor s < cursor s1 \<and> cursor s1 \<le> op_bytes op" by auto
  then show ?case using Cons.IH [of s1] a(2) Cons.prems(3) by (cases c) auto
qed simp

text \<open>As many windows as there are bytes, and one for an access without bytes, are enough.\<close>

lemma windows_end:
  assumes "windows ids op ws s = Inr (s', False)" "cursor s \<le> op_bytes op" "\<forall>(now, b) \<in> set ws. b \<noteq> 0"
  shows "length ws + unat (cursor s) \<le> unat (op_bytes op)"
  using assms
proof (induction ws arbitrary: s)
  case (Cons w ws)
  obtain now b where w: "w = (now, b)" by fastforce
  from Cons.prems(1) obtain s1 n where a: "available ids now s op b = Inr (s1, n, False)" "windows ids op ws s1 = Inr (s', False)"
    unfolding w by (auto simp: res_bind_Inr_iff split: if_splits)
  from window [OF a(1) Cons.prems(2)] Cons.prems(3) w have "cursor s < cursor s1" "cursor s1 \<le> op_bytes op" by auto
  then show ?case using Cons.IH [OF a(2)] Cons.prems(3) by (simp add: word_less_nat_alt)
qed (simp add: word_le_nat_alt)

end

lemma default_available_iff:
  "default_available ids now d op b = Inr (d', n, c) \<longleftrightarrow>
     issueAvailable ids now (do_emitter d) (do_offset d) op b = Inr (do_emitter d', do_offset d', n, c)"
  by (cases d') (auto simp: default_available_def res_bind_Inr_iff)

interpretation default: output_stage default_available do_emitter do_offset
proof
  show "n \<le> b \<and> sends ids (do_emitter s) n (do_emitter s')" if "default_available ids now s op b = Inr (s', n, c)" for ids now s op b s' n c
    using issueAvailable_sends that [unfolded default_available_iff] by blast
  show "\<exists>new. map wire_of (em_sent (do_emitter s')) = map wire_of (em_sent (do_emitter s)) @ new \<and>
      em_line_size (do_emitter s') = em_line_size (do_emitter s) \<and>
      op_rest (em_line_size (do_emitter s)) op (do_offset s) = new @ (if c then [] else op_rest (em_line_size (do_emitter s)) op (do_offset s')) \<and>
      (if c then do_offset s' = 0 else do_offset s < do_offset s' \<and> do_offset s' \<le> op_bytes op)"
    if "default_available ids now s op b = Inr (s', n, c)" "do_offset s \<le> op_bytes op" "b \<noteq> 0" for ids now s op b s' n c
    using issueAvailable_wires [OF that(1) [unfolded default_available_iff] that(2,3) refl] by metis
qed

text \<open>The logging stage is the default stage with a log beside it.\<close>

lemma logging_available_iff:
  "logging_available ids now l op b = Inr (l', n, c) \<longleftrightarrow>
     default_available ids now (lo_delegate l) op b = Inr (lo_delegate l', n, c) \<and>
     l' = (if c then log_op op else (\<lambda>l. l)) (l\<lparr>lo_delegate := lo_delegate l'\<rparr>)"
  by (auto simp: logging_available_def log_op_def res_bind_Inr_iff)

interpretation logging: output_stage logging_available "do_emitter \<circ> lo_delegate" "do_offset \<circ> lo_delegate"
proof (unfold_locales, goal_cases)
  case (1 ids now s op b s' n c)
  then show ?case using default.within_budget [of ids now "lo_delegate s" op b "lo_delegate s'" n c] by (simp add: logging_available_iff)
next
  case (2 ids now s op b s' n c)
  then show ?case using default.window [of ids now "lo_delegate s" op b "lo_delegate s'" n c] unfolding logging_available_iff comp_apply by blast
qed

lemma logging_windows:
  "logging.windows ids op ws l = Inr (l', fin) \<longleftrightarrow>
     default.windows ids op ws (lo_delegate l) = Inr (lo_delegate l', fin) \<and>
     l' = (if fin then log_op op else (\<lambda>l. l)) (l\<lparr>lo_delegate := lo_delegate l'\<rparr>)"
proof (induction ws arbitrary: l)
  case Nil
  then show ?case by (cases l; cases l') auto
next
  case (Cons w ws)
  obtain now b where w: "w = (now, b)" by fastforce
  show ?case
  proof (cases "default_available ids now (lo_delegate l) op b")
    case (Inl e)
    then have "logging_available ids now l op b = Inl e" by (simp add: logging_available_def)
    then show ?thesis unfolding w using Inl by simp
  next
    case (Inr x)
    obtain d n c where x: "x = (d, n, c)" by (metis prod_cases3)
    have "logging_available ids now l op b = Inr ((if c then log_op op else (\<lambda>l. l)) (l\<lparr>lo_delegate := d\<rparr>), n, c)"
      using Inr x by (simp add: logging_available_def)
    then show ?thesis unfolding w using Inr x Cons.IH [of "l\<lparr>lo_delegate := d\<rparr>"] by (cases c) (auto simp: log_op_def)
  qed
qed

section \<open>Routing\<close>

text \<open>The part of the memory map that never changes decides what happens to an access.\<close>

fun fixed_kind :: "handler_kind \<Rightarrow> handler_kind" where
  "fixed_kind (HUart txo buf) = HUart txo []"
| "fixed_kind (HGpuTrace db st mx dc pc log) = HGpuTrace db st mx 0 0 []"
| "fixed_kind (HTestFinisher pv w lv) = HTestFinisher pv False 0"
| "fixed_kind k = k"

definition fixed_handler :: "region_handler \<Rightarrow> region_handler" where
  "fixed_handler h = h\<lparr>rh_kind := fixed_kind (rh_kind h)\<rparr>"

definition fixed_map :: "mem_access \<Rightarrow> mem_access" where
  "fixed_map ma = ma\<lparr>ma_table := map (map_option fixed_handler) (ma_table ma)\<rparr>"

definition action_of :: "mem_access option \<Rightarrow> quetz_command \<Rightarrow> mem_action" where
  "action_of strat cmd = (case strat of None \<Rightarrow> FORWARD | Some ma \<Rightarrow> snd (snd (handleMemoryAccess ma cmd)))"

definition cmd_wires :: "mem_access option \<Rightarrow> u64 \<Rightarrow> quetz_command \<Rightarrow> wire list" where
  "cmd_wires strat line cmd =
     (if qc_cmd cmd = cmd_code CMD_NOP \<or> action_of strat cmd \<in> {CONSUME, END_SIM} then []
      else op_rest line (op_of cmd (action_of strat cmd)) 0)"

lemma fixed_access:
  "fixed_handler (fst (onRead h cmd)) = fixed_handler h" "snd (snd (onRead (fixed_handler h) cmd)) = snd (snd (onRead h cmd))"
  "fixed_handler (fst (onWrite h cmd)) = fixed_handler h" "snd (snd (onWrite (fixed_handler h) cmd)) = snd (snd (onWrite h cmd))"
  by (cases "rh_kind h"; simp add: fixed_handler_def handler_defs)+

lemma fixed_owns: "handler_owns (fixed_handler h) = handler_owns h"
  by (simp add: fun_eq_iff handler_owns_def fixed_handler_def)

lemma findHandler_fixed: "findHandler (map (map_option fixed_handler) hs) addr = findHandler hs addr"
proof -
  have "(case map (map_option fixed_handler) hs ! i of Some h \<Rightarrow> handler_owns h addr | None \<Rightarrow> False) =
      (case hs ! i of Some h \<Rightarrow> handler_owns h addr | None \<Rightarrow> False)" if "i \<in> set [0..<length hs]" for i
    using that by (cases "hs ! i") (simp_all add: fixed_owns)
  then show ?thesis unfolding findHandler_def by (intro find_cong) simp_all
qed

lemma handleMemoryAccess_fixed:
  assumes "handleMemoryAccess ma cmd = (ma', st, act)"
  shows "fixed_map ma' = fixed_map ma" "snd (snd (handleMemoryAccess (fixed_map ma) cmd)) = act"
proof -
  let ?rd = "qc_cmd cmd = cmd_code CMD_READ"
  have f: "findHandler (ma_table (fixed_map ma)) (qc_addr cmd) = findHandler (ma_table ma) (qc_addr cmd)"
    by (simp add: fixed_map_def findHandler_fixed)
  have "fixed_map ma' = fixed_map ma \<and> snd (snd (handleMemoryAccess (fixed_map ma) cmd)) = act"
  proof (cases "findHandler (ma_table ma) (qc_addr cmd)")
    case None
    then show ?thesis using assms f by (auto simp: handleMemoryAccess_def fixed_map_def split: if_splits)
  next
    case (Some i)
    then obtain h where i: "i < length (ma_table ma)" "ma_table ma ! i = Some h"
      using findHandler_Some [OF Some] by (auto split: option.splits)
    then have n: "ma_table (fixed_map ma) ! i = Some (fixed_handler h)" by (simp add: fixed_map_def)
    have u: "map (map_option fixed_handler) ((ma_table ma)[i := Some h']) = map (map_option fixed_handler) (ma_table ma)"
      if "fixed_handler h' = fixed_handler h" for h'
      using i that list_update_id [of "map (map_option fixed_handler) (ma_table ma)" i] by (simp add: map_update)
    show ?thesis
      using assms f Some i n u [OF fixed_access(1) [of h cmd]] u [OF fixed_access(3) [of h cmd]] fixed_access(2,4) [of h cmd]
      by (auto simp: handleMemoryAccess_def fixed_map_def split: if_splits prod.splits)
  qed
  then show "fixed_map ma' = fixed_map ma" "snd (snd (handleMemoryAccess (fixed_map ma) cmd)) = act" by auto
qed

lemma action_of_fixed:
  assumes "map_option fixed_map s = map_option fixed_map s'"
  shows "action_of s cmd = action_of s' cmd"
proof -
  have "snd (snd (handleMemoryAccess ma cmd)) = snd (snd (handleMemoryAccess (fixed_map ma) cmd))" for ma
    using handleMemoryAccess_fixed(2) [of ma cmd] by (metis prod.collapse)
  then show ?thesis using assms unfolding action_of_def by (cases s; cases s') (auto, metis)
qed

end
