(* ===== verification/Quetz_Pipeline.thy ===== *)
theory Quetz_Pipeline
  imports Quetz_Stages
begin

text \<open>
  \<open>QuetzEventPipeline\<close> (\<open>src/quetz_pipeline.cc\<close>) over the default stages. A cycle conserves the event
  stream, respects the limits, and sends the requests of the commands it retires in order; cycles that are not
  blocked by the limit on outstanding requests use up the work.
\<close>

section \<open>The pipeline\<close>

record pipeline =
  pl_ctx :: core_ctx
  pl_input :: pipe_input
  pl_filter :: "mem_access option"
  pl_emitter :: emitter
  pl_offset :: u32
  pl_inst_count :: u64
  pl_halted :: bool
  pl_refill_hit_cap :: bool
  pl_coreQ :: "pipe_event list"
  pl_pending_op :: mem_op
  pl_has_pending_op :: bool
  pl_guest_exit :: bool

definition isDrained :: "pipeline \<Rightarrow> bool" where
  "isDrained p \<longleftrightarrow> em_pending_count (pl_emitter p) = 0 \<and>
     (pl_halted p \<or> (pl_coreQ p = [] \<and> \<not> pl_refill_hit_cap p))"

definition pl_stat :: "stat_trace \<Rightarrow> pipeline \<Rightarrow> pipeline" where
  "pl_stat st p = p\<lparr>pl_emitter := (pl_emitter p)\<lparr>em_stats := em_stats (pl_emitter p) @ st\<rparr>\<rparr>"

text \<open>\<open>checkMaxInsts\<close> halts the pipeline; its result is the halt flag afterwards.\<close>

definition checkMaxInsts :: "pipeline \<Rightarrow> pipeline \<times> bool" where
  "checkMaxInsts p =
     (if max_insts (pl_ctx p) > 0 \<and> pl_inst_count p \<ge> max_insts (pl_ctx p)
      then (p\<lparr>pl_halted := True\<rparr>, True) else (p, False))"

definition pop_count :: "pipeline \<Rightarrow> pipeline" where
  "pop_count p = p\<lparr>pl_coreQ := tl (pl_coreQ p), pl_inst_count := pl_inst_count p + 1\<rparr>"

definition issueMemOp :: "(nat \<Rightarrow> nat) \<Rightarrow> u64 \<Rightarrow> pipeline \<Rightarrow> u32 \<Rightarrow> (pipeline \<times> u32 \<times> bool) result" where
  "issueMemOp ids now p issued =
     (let pend = em_pending_count (pl_emitter p);
          mi = max_issue_per_cycle (pl_ctx p); mp = max_pending (pl_ctx p);
          budget = min (if issued < mi then mi - issued else 0) (if pend < mp then mp - pend else 0)
      in if budget = 0 then Inr (p, issued, False)
         else res_bind (issueAvailable ids now (pl_emitter p) (pl_offset p) (pl_pending_op p) budget)
           (\<lambda>(em', offset', count, complete).
              if count > budget then Inl (Fatal ''Pipeline output exceeded its issue budget.'')
              else if \<not> complete \<and> count = 0 \<and> issued = 0 \<and> pend = 0
                then Inl (Fatal ''Pipeline output cannot split an access'')
              else
                let p1 = p\<lparr>pl_emitter := em', pl_offset := offset'\<rparr>
                in if \<not> complete then Inr (p1, issued + count, False)
                   else Inr (fst (checkMaxInsts (pl_stat [(S_insn_count, 1)]
                               (pop_count (p1\<lparr>pl_has_pending_op := False\<rparr>)))), issued + count, True)))"

text \<open>How one iteration of the loop in \<open>tick\<close> ends: it continues, jumps to \<open>done\<close>, or
  returns.\<close>

datatype iter_end = Continue | Goto_done | Return

definition tick_iter :: "(nat \<Rightarrow> nat) \<Rightarrow> u64 \<Rightarrow> pipeline \<Rightarrow> u32 \<Rightarrow> (pipeline \<times> u32 \<times> iter_end) result" where
  "tick_iter ids now p issued =
     (if pl_has_pending_op p then
        res_bind (issueMemOp ids now p issued)
          (\<lambda>(p', issued', ok). Inr (p', issued', if \<not> ok then Goto_done
                                     else if pl_halted p' then Goto_done else Continue))
      else
        let ev = hd (pl_coreQ p); cmd = ev_cmd ev;
            rw = (qc_cmd cmd = cmd_code CMD_READ \<or> qc_cmd cmd = cmd_code CMD_WRITE)
        in case (if rw then filter_handle (pl_filter p) cmd else (pl_filter p, [], FORWARD, False)) of
             (strat', st, act, consumed) \<Rightarrow>
               let p1 = pl_stat st (p\<lparr>pl_filter := strat'\<rparr>)
               in if consumed then
                    (case checkMaxInsts (pop_count (pl_stat [(S_insn_count, 1)] p1)) of
                       (p2, stop) \<Rightarrow> Inr (p2, issued, if stop then Return else Continue))
                  else
                    (case transform_process (pl_ctx p) ev (pl_pending_op p) act of
                       (ev', st2, op', res) \<Rightarrow>
                         let p2 = pl_stat st2 (p1\<lparr>pl_coreQ := ev' # tl (pl_coreQ p1), pl_pending_op := op'\<rparr>)
                         in case res of
                              HALT_EXIT \<Rightarrow>
                                Inr (p2\<lparr>pl_guest_exit := (qc_cmd cmd = cmd_code CMD_EXIT), pl_halted := True,
                                        pl_coreQ := tl (pl_coreQ p2)\<rparr>, issued, Return)
                            | STALL \<Rightarrow> Inr (p2, issued, Goto_done)
                            | CONSUMED_NOOP \<Rightarrow>
                                (case checkMaxInsts (pop_count p2) of
                                   (p3, stop) \<Rightarrow> Inr (p3, issued, if stop then Return else Continue))
                            | EMIT_MEMOP \<Rightarrow> Inr (p2\<lparr>pl_has_pending_op := True\<rparr>, issued, Continue)))"

definition loop_measure :: "pipeline \<Rightarrow> nat" where
  "loop_measure p = 2 * length (pl_coreQ p) + (if pl_has_pending_op p then 0 else 1)"

lemma pl_stat_fields [simp]:
  "pl_coreQ (pl_stat st p) = pl_coreQ p" "pl_has_pending_op (pl_stat st p) = pl_has_pending_op p"
  "pl_ctx (pl_stat st p) = pl_ctx p" "pl_halted (pl_stat st p) = pl_halted p"
  "pl_inst_count (pl_stat st p) = pl_inst_count p" "pl_offset (pl_stat st p) = pl_offset p"
  "pl_pending_op (pl_stat st p) = pl_pending_op p" "pl_input (pl_stat st p) = pl_input p"
  "pl_refill_hit_cap (pl_stat st p) = pl_refill_hit_cap p" "pl_filter (pl_stat st p) = pl_filter p"
  "em_pending_count (pl_emitter (pl_stat st p)) = em_pending_count (pl_emitter p)"
  "em_sent (pl_emitter (pl_stat st p)) = em_sent (pl_emitter p)"
  "em_stats (pl_emitter (pl_stat st p)) = em_stats (pl_emitter p) @ st"
  "em_line_size (pl_emitter (pl_stat st p)) = em_line_size (pl_emitter p)" "pl_guest_exit (pl_stat st p) = pl_guest_exit p"
  by (simp_all add: pl_stat_def)

lemma checkMaxInsts_fields [simp]:
  "pl_coreQ (fst (checkMaxInsts p)) = pl_coreQ p" "pl_has_pending_op (fst (checkMaxInsts p)) = pl_has_pending_op p"
  "pl_ctx (fst (checkMaxInsts p)) = pl_ctx p" "pl_inst_count (fst (checkMaxInsts p)) = pl_inst_count p"
  "pl_emitter (fst (checkMaxInsts p)) = pl_emitter p" "pl_input (fst (checkMaxInsts p)) = pl_input p"
  "pl_refill_hit_cap (fst (checkMaxInsts p)) = pl_refill_hit_cap p" "pl_offset (fst (checkMaxInsts p)) = pl_offset p"
  "pl_filter (fst (checkMaxInsts p)) = pl_filter p" "pl_pending_op (fst (checkMaxInsts p)) = pl_pending_op p"
  "pl_guest_exit (fst (checkMaxInsts p)) = pl_guest_exit p"
  by (simp_all add: checkMaxInsts_def)

lemma pop_count_fields [simp]:
  "pl_coreQ (pop_count p) = tl (pl_coreQ p)" "pl_inst_count (pop_count p) = pl_inst_count p + 1"
  "pl_has_pending_op (pop_count p) = pl_has_pending_op p" "pl_ctx (pop_count p) = pl_ctx p"
  "pl_emitter (pop_count p) = pl_emitter p" "pl_input (pop_count p) = pl_input p"
  "pl_refill_hit_cap (pop_count p) = pl_refill_hit_cap p" "pl_halted (pop_count p) = pl_halted p"
  "pl_offset (pop_count p) = pl_offset p" "pl_filter (pop_count p) = pl_filter p"
  "pl_pending_op (pop_count p) = pl_pending_op p" "pl_guest_exit (pop_count p) = pl_guest_exit p"
  by (simp_all add: pop_count_def)

lemma issueMemOp_cases:
  assumes "issueMemOp ids now p issued = Inr (p', issued', ok)"
  obtains (none) "p' = p" "issued' = issued" "\<not> ok"
      "max_issue_per_cycle (pl_ctx p) \<le> issued \<or> max_pending (pl_ctx p) \<le> em_pending_count (pl_emitter p)"
  | (partial) em' off' count budget where "\<not> ok" "p' = p\<lparr>pl_emitter := em', pl_offset := off'\<rparr>"
      "issued' = issued + count" "count \<le> budget"
      "budget \<le> max_issue_per_cycle (pl_ctx p) - issued" "issued < max_issue_per_cycle (pl_ctx p)"
      "budget \<le> max_pending (pl_ctx p) - em_pending_count (pl_emitter p)"
      "em_pending_count (pl_emitter p) < max_pending (pl_ctx p)"
      "issueAvailable ids now (pl_emitter p) (pl_offset p) (pl_pending_op p) budget = Inr (em', off', count, False)"
      "budget \<noteq> 0"
  | (complete) em' off' count budget where "ok"
      "p' = fst (checkMaxInsts (pl_stat [(S_insn_count, 1)]
         (pop_count (p\<lparr>pl_emitter := em', pl_offset := off', pl_has_pending_op := False\<rparr>))))"
      "issued' = issued + count" "count \<le> budget"
      "budget \<le> max_issue_per_cycle (pl_ctx p) - issued" "issued < max_issue_per_cycle (pl_ctx p)"
      "budget \<le> max_pending (pl_ctx p) - em_pending_count (pl_emitter p)"
      "em_pending_count (pl_emitter p) < max_pending (pl_ctx p)"
      "issueAvailable ids now (pl_emitter p) (pl_offset p) (pl_pending_op p) budget = Inr (em', off', count, True)"
      "budget \<noteq> 0"
proof -
  define pend where "pend = em_pending_count (pl_emitter p)"
  define mi where "mi = max_issue_per_cycle (pl_ctx p)"
  define mp where "mp = max_pending (pl_ctx p)"
  define budget where "budget = min (if issued < mi then mi - issued else 0) (if pend < mp then mp - pend else 0)"
  note assms' = assms [unfolded issueMemOp_def Let_def, folded pend_def mi_def mp_def, folded budget_def]
  show thesis
  proof (cases "budget = 0")
    case True
    then have "mi \<le> issued \<or> mp \<le> pend"
      by (auto simp: budget_def min_def word_le_nat_alt word_less_nat_alt unat_sub split: if_splits)
    then show thesis using assms' none True by (simp add: mi_def mp_def pend_def)
  next
    case False
    then have b: "issued < mi" "pend < mp" "budget \<le> mi - issued" "budget \<le> mp - pend"
      by (auto simp: budget_def min_def split: if_splits)
    obtain em' off' count cpl where
      ia: "issueAvailable ids now (pl_emitter p) (pl_offset p) (pl_pending_op p) budget = Inr (em', off', count, cpl)"
      using assms' False by (auto simp: res_bind_Inr_iff)
    have cb: "count \<le> budget" using assms' False ia by (auto split: if_splits)
    show thesis
    proof (cases cpl)
      case True
      then show thesis
        using assms' False ia cb b by (intro complete [where em' = em' and off' = off' and count = count and budget = budget]) (auto simp: mi_def mp_def pend_def split: if_splits)
    next
      case nc: False
      then show thesis
        using assms' False ia cb b by (intro partial [where em' = em' and off' = off' and count = count and budget = budget]) (auto simp: mi_def mp_def pend_def split: if_splits)
    qed
  qed
qed

lemma tick_iter_decreases:
  assumes "tick_iter ids now p issued = Inr (p', issued', Continue)" "pl_coreQ p \<noteq> []"
  shows "loop_measure p' < loop_measure p"
proof (cases "pl_has_pending_op p")
  case True
  then obtain ok where m: "issueMemOp ids now p issued = Inr (p', issued', ok)" "ok"
    using assms(1) by (auto simp: tick_iter_def res_bind_Inr_iff split: if_splits)
  from m(1) show ?thesis
    using m(2) True assms(2)
    by (cases rule: issueMemOp_cases) (auto simp: loop_measure_def length_tl neq_Nil_conv)
next
  case False
  then show ?thesis
    using assms
    by (auto simp: tick_iter_def Let_def loop_measure_def checkMaxInsts_def pop_count_def neq_Nil_conv
        split: prod.splits if_splits transform_result.splits)
qed

function tick_loop :: "(nat \<Rightarrow> nat) \<Rightarrow> u64 \<Rightarrow> pipeline \<Rightarrow> u32 \<Rightarrow> (pipeline \<times> u32 \<times> iter_end) result" where
  "tick_loop ids now p issued =
     (if pl_coreQ p = [] then Inr (p, issued, Goto_done)
      else case tick_iter ids now p issued of
             Inl e \<Rightarrow> Inl e
           | Inr (p', issued', r) \<Rightarrow>
               if r = Continue then tick_loop ids now p' issued' else Inr (p', issued', r))"
  by auto
termination
  by (relation "measure (\<lambda>(ids, now, p, issued). loop_measure p)")
     (auto dest: tick_iter_decreases)

declare tick_loop.simps [simp del]

definition tick :: "(nat \<Rightarrow> nat) \<Rightarrow> u64 \<Rightarrow> pipeline \<Rightarrow> quetz_command list \<Rightarrow> (pipeline \<times> quetz_command list) result" where
  "tick ids now p src =
     (if pl_halted p then Inr (p, src)
      else case refill (pl_ctx p) (pl_coreQ p) (pl_input p) src (max_queue_len (pl_ctx p)) of
        (q, inp, src', _) \<Rightarrow>
          let p1 = p\<lparr>pl_coreQ := q, pl_input := inp,
                     pl_refill_hit_cap := (max_queue_len (pl_ctx p) > 0 \<and> length q \<ge> unat (max_queue_len (pl_ctx p)))\<rparr>
          in res_bind (tick_loop ids now p1 0)
               (\<lambda>(p2, issued, r).
                  if r = Return then Inr (p2, src')
                  else Inr (pl_stat ((if issued > 0 then [(S_active_cycles, 1)] else []) @ [(S_cycles, 1)]) p2, src')))"

text \<open>The constructor, with the limits it refuses.\<close>

definition new_pipeline :: "core_ctx \<Rightarrow> u64 \<Rightarrow> mem_access option \<Rightarrow> pipeline result" where
  "new_pipeline ctx line strat =
     (if max_queue_len ctx = 0 \<or> max_issue_per_cycle ctx = 0 \<or> max_pending ctx = 0 \<or> line = 0
      then Inl (Fatal ''Pipeline queue, issue, pending and cache-line limits must be nonzero.'')
      else Inr \<lparr>pl_ctx = ctx,
        pl_input = \<lparr>run_nop = \<lparr>qc_cmd = 0, qc_size = 0, qc_pc = 0, qc_addr = 0, qc_insn_class = 0,
                                 qc_data = replicate 64 0\<rparr>, run_remaining = 0, run_stall = 0\<rparr>,
        pl_filter = strat, pl_emitter = emitter_init line, pl_offset = 0, pl_inst_count = 0,
        pl_halted = False, pl_refill_hit_cap = False, pl_coreQ = [],
        pl_pending_op = \<lparr>mo_is_read = False, mo_is_mmio = False, mo_addr = 0, mo_size = 0, mo_pc = 0,
                         mo_data = replicate 64 0\<rparr>,
        pl_has_pending_op = False, pl_guest_exit = False\<rparr>)"

text \<open>Responses from the memory system.\<close>

definition pipeline_handleResponse ::
    "u64 \<Rightarrow> pipeline \<Rightarrow> mem_response \<Rightarrow> pipeline \<times> (u64 \<times> bool \<times> bool) option" where
  "pipeline_handleResponse now p resp =
     (case emitter_handleResponse now (pl_emitter p) resp of (em, out) \<Rightarrow> (p\<lparr>pl_emitter := em\<rparr>, out))"

definition pipeline_finish :: "pipeline \<Rightarrow> finish_msg list" where
  "pipeline_finish p = (case pl_filter p of Some ma \<Rightarrow> access_finish ma | None \<Rightarrow> [])"

section \<open>What a cycle does\<close>

definition pend_ok :: "pipeline \<Rightarrow> bool" where
  "pend_ok p \<longleftrightarrow>
     (if pl_has_pending_op p
      then pl_coreQ p \<noteq> [] \<and> \<not> is_exit (hd (pl_coreQ p)) \<and>
        mo_size (pl_pending_op p) = qc_size (ev_cmd (hd (pl_coreQ p))) \<and> pl_offset p \<le> op_bytes (pl_pending_op p)
      else pl_offset p = 0)"

text \<open>The cycles the queued events take at most when nothing blocks them.\<close>

definition event_work :: "pipe_event \<Rightarrow> nat" where
  "event_work ev = unat (ev_stall ev) + unat (qc_size (ev_cmd ev)) + 2"

definition queue_work :: "pipeline \<Rightarrow> nat" where
  "queue_work p = sum_list (map event_work (pl_coreQ p)) - (if pl_has_pending_op p then 1 + unat (pl_offset p) else 0)"

text \<open>The requests sent are those of the retired commands and a first part of those of the
  operation being issued.\<close>

definition wires_ok :: "mem_access option \<Rightarrow> u64 \<Rightarrow> quetz_command list \<Rightarrow> pipeline \<Rightarrow> bool" where
  "wires_ok strat line ret p \<longleftrightarrow>
     em_line_size (pl_emitter p) = line \<and> map_option fixed_map (pl_filter p) = map_option fixed_map strat \<and>
     (\<exists>part. map wire_of (em_sent (pl_emitter p)) = concat (map (cmd_wires strat line) ret) @ part \<and>
        (if pl_has_pending_op p
         then cmd_wires strat line (ev_cmd (hd (pl_coreQ p))) = part @ op_rest line (pl_pending_op p) (pl_offset p)
         else part = []))"

text \<open>The count of outstanding requests is their number; request identifiers are fresh.\<close>

definition outstanding_ok :: "(nat \<Rightarrow> nat) \<Rightarrow> emitter \<Rightarrow> bool" where
  "outstanding_ok ids e \<longleftrightarrow> inj ids \<and> dom (em_pending e) \<subseteq> ids ` {..<em_next e} \<and>
     unat (em_pending_count e) = card (dom (em_pending e))"

lemma outstanding_sends:
  assumes "outstanding_ok ids e" "sends ids e n e'"
    and "unat (em_pending_count e + n) = unat (em_pending_count e) + unat n"
  shows "outstanding_ok ids e'"
proof -
  let ?new = "ids ` {em_next e..<em_next e'}"
  have s: "em_pending_count e' = em_pending_count e + n" "em_next e' = em_next e + unat n"
      "dom (em_pending e') = dom (em_pending e) \<union> ?new" using assms(2) by (auto simp: sends_def)
  have inj: "inj ids" and sub: "dom (em_pending e) \<subseteq> ids ` {..<em_next e}"
    using assms(1) by (auto simp: outstanding_ok_def)
  have "dom (em_pending e) \<inter> ?new = {}"
    using sub injD [OF inj] by fastforce
  moreover have "finite (dom (em_pending e))" using sub finite_surj [of "{..<em_next e}"] by blast
  moreover have "card ?new = unat n" using s(2) inj by (simp add: card_image inj_on_subset)
  ultimately have "card (dom (em_pending e')) = card (dom (em_pending e)) + unat n"
    unfolding s(3) by (simp add: card_Un_disjoint)
  moreover have "dom (em_pending e') \<subseteq> ids ` {..<em_next e'}" unfolding s(3) using sub s(2) by fastforce
  ultimately show ?thesis using assms s(1) inj by (simp add: outstanding_ok_def)
qed

lemma outstanding_cong:
  "em_pending e' = em_pending e \<Longrightarrow> em_pending_count e' = em_pending_count e \<Longrightarrow> em_next e' = em_next e \<Longrightarrow>
   outstanding_ok ids e' = outstanding_ok ids e"
  by (simp add: outstanding_ok_def)

lemma outstanding_pl_stat [simp]:
  "outstanding_ok ids (pl_emitter (pl_stat st p)) = outstanding_ok ids (pl_emitter p)"
  by (rule outstanding_cong) (simp_all add: pl_stat_def)

definition limits_ok :: "(nat \<Rightarrow> nat) \<Rightarrow> pipeline \<Rightarrow> u32 \<Rightarrow> bool" where
  "limits_ok ids p issued \<longleftrightarrow> em_pending_count (pl_emitter p) \<le> max_pending (pl_ctx p) \<and>
     issued \<le> max_issue_per_cycle (pl_ctx p) \<and> outstanding_ok ids (pl_emitter p)"

text \<open>The commands \<open>ret\<close> were retired and counted; \<open>fin\<close> holds the command that ended the run, if
  any.\<close>

definition advanced ::
    "(nat \<Rightarrow> nat) \<Rightarrow> pipeline \<Rightarrow> u32 \<Rightarrow> quetz_command list \<Rightarrow> quetz_command list \<Rightarrow> pipeline \<Rightarrow> u32 \<Rightarrow> bool" where
  "advanced ids p i ret fin p' i' \<longleftrightarrow>
     pl_ctx p' = pl_ctx p \<and> pl_input p' = pl_input p \<and> pl_refill_hit_cap p' = pl_refill_hit_cap p \<and>
     pend_ok p' \<and> limits_ok ids p' i' \<and>
     length (em_sent (pl_emitter p')) + unat i = length (em_sent (pl_emitter p)) + unat i' \<and>
     map ev_cmd (pl_coreQ p) = ret @ fin @ map ev_cmd (pl_coreQ p') \<and>
     pl_inst_count p' = pl_inst_count p + of_nat (length ret) \<and>
     (\<forall>c \<in> set ret. qc_cmd c \<noteq> cmd_code CMD_EXIT) \<and> length fin \<le> 1 \<and> (fin \<noteq> [] \<longrightarrow> pl_halted p' \<and> \<not> pl_has_pending_op p') \<and>
     pl_guest_exit p' = (if fin = [] then pl_guest_exit p else qc_cmd (hd fin) = cmd_code CMD_EXIT) \<and>
     queue_work p' \<le> queue_work p \<and>
     (\<forall>strat line ret0. wires_ok strat line ret0 p \<longrightarrow> wires_ok strat line (ret0 @ ret) p')"

lemma advanced_refl: "pend_ok p \<Longrightarrow> limits_ok ids p i \<Longrightarrow> advanced ids p i [] [] p i"
  by (simp add: advanced_def)

lemma advanced_trans:
  "advanced ids p i r1 [] p1 i1 \<Longrightarrow> advanced ids p1 i1 r2 f p2 i2 \<Longrightarrow> advanced ids p i (r1 @ r2) f p2 i2"
  by (auto simp: advanced_def append_assoc [symmetric] simp del: append_assoc)

lemma sub_budget_32:
  fixes a b c m :: u32
  assumes "c \<le> b" "b \<le> m - a" "a < m"
  shows "a + c \<le> m" "unat (a + c) = unat a + unat c"
proof -
  have "unat (m - a) = unat m - unat a" using assms(3) by (simp add: unat_sub less_imp_le)
  then have "unat a + unat c \<le> unat m"
    using assms by (simp add: word_le_nat_alt word_less_nat_alt)
  then show "unat (a + c) = unat a + unat c"
    using unat_less_32 [of m] by (simp add: unat_word_ariths)
  then show "a + c \<le> m" using \<open>unat a + unat c \<le> unat m\<close> by (simp add: word_le_nat_alt)
qed

lemma unaffected [simp]:
  "queue_work (pl_stat st p) = queue_work p" "queue_work (fst (checkMaxInsts p)) = queue_work p"
  "wires_ok strat line ret (pl_stat st p) = wires_ok strat line ret p"
  "wires_ok strat line ret (fst (checkMaxInsts p)) = wires_ok strat line ret p"
  "pend_ok (pl_stat st p) = pend_ok p" "pend_ok (fst (checkMaxInsts p)) = pend_ok p"
  by (simp_all add: queue_work_def wires_ok_def pend_ok_def)

lemma op_bytes_le: "op_bytes op \<le> mo_size op"
  by (simp add: op_bytes_def)

lemma issue_partial:
  assumes "pl_has_pending_op p" "pend_ok p" "budget \<noteq> 0" "p' = p\<lparr>pl_emitter := em', pl_offset := off'\<rparr>"
    and "issueAvailable ids now (pl_emitter p) (pl_offset p) (pl_pending_op p) budget = Inr (em', off', count, False)"
  shows "pend_ok p'" "queue_work p' < queue_work p" "wires_ok strat line ret0 p \<Longrightarrow> wires_ok strat line ret0 p'"
proof -
  from assms(1,2) obtain ev q where q: "pl_coreQ p = ev # q" "mo_size (pl_pending_op p) = qc_size (ev_cmd ev)"
    and off: "pl_offset p \<le> op_bytes (pl_pending_op p)" by (cases "pl_coreQ p") (auto simp: pend_ok_def)
  from issueAvailable_wires [OF assms(5) off assms(3) refl] obtain new where
    w: "map wire_of (em_sent em') = map wire_of (em_sent (pl_emitter p)) @ new" "em_line_size em' = em_line_size (pl_emitter p)"
      "op_rest (em_line_size (pl_emitter p)) (pl_pending_op p) (pl_offset p) =
         new @ op_rest (em_line_size (pl_emitter p)) (pl_pending_op p) off'"
    and o: "pl_offset p < off'" "off' \<le> op_bytes (pl_pending_op p)" by auto
  have le: "unat off' \<le> unat (qc_size (ev_cmd ev))"
    using order_trans [OF o(2) op_bytes_le] q(2) by (simp add: word_le_nat_alt)
  show "pend_ok p'" using assms(1,2,4) o(2) by (simp add: pend_ok_def)
  show "queue_work p' < queue_work p"
    using assms(1,4) q o(1) le by (simp add: queue_work_def event_work_def word_less_nat_alt)
  show "wires_ok strat line ret0 p'" if ok: "wires_ok strat line ret0 p"
  proof -
    from ok have l: "em_line_size (pl_emitter p) = line" by (simp add: wires_ok_def)
    from ok obtain part where "map wire_of (em_sent (pl_emitter p)) = concat (map (cmd_wires strat line) ret0) @ part"
        "cmd_wires strat line (ev_cmd (hd (pl_coreQ p))) = part @ op_rest line (pl_pending_op p) (pl_offset p)"
      using assms(1) by (auto simp: wires_ok_def)
    then show ?thesis using ok w assms(1,4) unfolding l by (auto simp: wires_ok_def intro: exI [of _ "part @ new"])
  qed
qed

lemma issue_complete:
  assumes "pl_has_pending_op p" "pend_ok p" "budget \<noteq> 0"
    and "p' = pop_count (p\<lparr>pl_emitter := em', pl_offset := off', pl_has_pending_op := False\<rparr>)"
    and "issueAvailable ids now (pl_emitter p) (pl_offset p) (pl_pending_op p) budget = Inr (em', off', count, True)"
  shows "pend_ok p'" "queue_work p' < queue_work p"
    "wires_ok strat line ret0 p \<Longrightarrow> wires_ok strat line (ret0 @ [ev_cmd (hd (pl_coreQ p))]) p'"
proof -
  from assms(1,2) obtain ev q where q: "pl_coreQ p = ev # q" "mo_size (pl_pending_op p) = qc_size (ev_cmd ev)"
    and off: "pl_offset p \<le> op_bytes (pl_pending_op p)" by (cases "pl_coreQ p") (auto simp: pend_ok_def)
  from issueAvailable_wires [OF assms(5) off assms(3) refl] have
    w: "map wire_of (em_sent em') = map wire_of (em_sent (pl_emitter p)) @
         op_rest (em_line_size (pl_emitter p)) (pl_pending_op p) (pl_offset p)" "em_line_size em' = em_line_size (pl_emitter p)"
      "off' = 0" by auto
  have "unat (pl_offset p) \<le> unat (qc_size (ev_cmd ev))"
    using order_trans [OF off op_bytes_le] q(2) by (simp add: word_le_nat_alt)
  then show "queue_work p' < queue_work p" using assms(1,4) q by (simp add: queue_work_def event_work_def)
  show "pend_ok p'" using assms(4) w(3) by (simp add: pend_ok_def)
  show "wires_ok strat line (ret0 @ [ev_cmd (hd (pl_coreQ p))]) p'" if "wires_ok strat line ret0 p"
    using that w assms(1,4) by (auto simp: wires_ok_def)
qed

lemma issueMemOp_advanced:
  assumes "issueMemOp ids now p issued = Inr (p', issued', ok)"
    and "pl_has_pending_op p" "pend_ok p" "limits_ok ids p issued"
  shows "\<exists>ret. advanced ids p issued ret [] p' issued'"
    and "issued < max_issue_per_cycle (pl_ctx p) \<Longrightarrow> em_pending_count (pl_emitter p) < max_pending (pl_ctx p) \<Longrightarrow>
      queue_work p' < queue_work p"
proof -
  from assms(2,3) obtain ev q where q: "pl_coreQ p = ev # q" "\<not> is_exit ev"
    by (cases "pl_coreQ p") (auto simp: pend_ok_def)
  have "(\<exists>ret. advanced ids p issued ret [] p' issued') \<and> (issued < max_issue_per_cycle (pl_ctx p) \<longrightarrow>
      em_pending_count (pl_emitter p) < max_pending (pl_ctx p) \<longrightarrow> queue_work p' < queue_work p)"
    using assms(1)
  proof (cases rule: issueMemOp_cases)
    case none
    then show ?thesis using advanced_refl assms(3,4) by (auto simp: not_less)
  next
    case (partial em' off' count budget)
    note s = issueAvailable_sends [OF partial(9)]
    note o = outstanding_sends [OF _ conjunct2 [OF s] sub_budget_32(2) [OF partial(4,7,8)]]
    note i = issue_partial [OF assms(2,3) partial(10,2,9)]
    have "advanced ids p issued [] [] p' issued'"
      unfolding advanced_def using i(1,3) less_imp_le [OF i(2)]
        s o assms(4) partial sub_budget_32 [OF partial(4,5,6)] sub_budget_32 [OF partial(4,7,8)]
      by (simp add: sends_def limits_ok_def)
    then show ?thesis using i(2) by blast
  next
    case (complete em' off' count budget)
    note s = issueAvailable_sends [OF complete(9)]
    note o = outstanding_sends [OF _ conjunct2 [OF s] sub_budget_32(2) [OF complete(4,7,8)]]
    note i = issue_complete [OF assms(2,3) complete(10) refl complete(9)]
    have "advanced ids p issued [ev_cmd ev] [] p' issued'"
      unfolding advanced_def complete(2) using i(1,3) less_imp_le [OF i(2)] q
        s o assms(4) complete(3-8) sub_budget_32 [OF complete(4,5,6)] sub_budget_32 [OF complete(4,7,8)]
      by (simp add: sends_def limits_ok_def is_exit_def)
    then show ?thesis using i(2) unfolding complete(2) by auto
  qed
  then show "\<exists>ret. advanced ids p issued ret [] p' issued'"
    and "issued < max_issue_per_cycle (pl_ctx p) \<Longrightarrow> em_pending_count (pl_emitter p) < max_pending (pl_ctx p) \<Longrightarrow>
      queue_work p' < queue_work p" by auto
qed

lemma transform_process_cmd:
  assumes "transform_process ctx ev op act = (ev', st, op', res)"
  shows "ev_cmd ev' = ev_cmd ev" "res = HALT_EXIT \<or> \<not> is_exit ev"
    "ev_stall ev' = (if res = STALL then ev_stall ev - 1 else ev_stall ev)" "res = STALL \<Longrightarrow> 0 < ev_stall ev"
    "res = EMIT_MEMOP \<Longrightarrow> op' = op_of (ev_cmd ev) act \<and> act \<noteq> END_SIM \<and> qc_cmd (ev_cmd ev) \<noteq> cmd_code CMD_NOP"
    "res = CONSUMED_NOOP \<Longrightarrow> qc_cmd (ev_cmd ev) = cmd_code CMD_NOP"
  using assms by (auto simp: transform_process_def Let_def is_exit_def split: if_splits)

lemma filter_action:
  assumes "(if qc_cmd cmd = cmd_code CMD_READ \<or> qc_cmd cmd = cmd_code CMD_WRITE then filter_handle strat cmd
      else (strat, [], FORWARD, False)) = (strat', st, act, cons)"
  shows "map_option fixed_map strat' = map_option fixed_map strat" "act = action_of strat cmd" "cons = (act = CONSUME)"
proof -
  have "map_option fixed_map strat' = map_option fixed_map strat \<and> act = action_of strat cmd \<and> cons = (act = CONSUME)"
  proof (cases "qc_cmd cmd = cmd_code CMD_READ \<or> qc_cmd cmd = cmd_code CMD_WRITE")
    case True
    show ?thesis
    proof (cases strat)
      case (Some ma)
      obtain ma' st' act' where h: "handleMemoryAccess ma cmd = (ma', st', act')" by (metis prod_cases3)
      show ?thesis using assms True Some h handleMemoryAccess_fixed(1) [OF h] by (auto simp: filter_handle_def action_of_def)
    qed (use assms True in \<open>auto simp: filter_handle_def action_of_def\<close>)
  qed (use assms in \<open>auto simp: action_of_def handleMemoryAccess_def split: option.splits\<close>)
  then show "map_option fixed_map strat' = map_option fixed_map strat" "act = action_of strat cmd" "cons = (act = CONSUME)" by auto
qed

lemma wires_idle:
  assumes "wires_ok strat line ret0 p" "\<not> pl_has_pending_op p" "\<not> pl_has_pending_op p'"
    and "em_sent (pl_emitter p') = em_sent (pl_emitter p)" "em_line_size (pl_emitter p') = em_line_size (pl_emitter p)"
    and "map_option fixed_map (pl_filter p') = map_option fixed_map (pl_filter p)"
    and "\<And>c. c \<in> set ret \<Longrightarrow> qc_cmd c = cmd_code CMD_NOP \<or> action_of (pl_filter p) c = CONSUME"
  shows "wires_ok strat line (ret0 @ ret) p'"
proof -
  have "map_option fixed_map (pl_filter p) = map_option fixed_map strat" using assms(1) by (simp add: wires_ok_def)
  from action_of_fixed [OF this] have "cmd_wires strat line c = []" if "c \<in> set ret" for c
    using assms(7) [OF that] by (auto simp: cmd_wires_def)
  then have "concat (map (cmd_wires strat line) ret) = []" by simp
  then show ?thesis using assms by (simp add: wires_ok_def)
qed

lemma wires_begin:
  assumes "wires_ok strat line ret0 p" "\<not> pl_has_pending_op p" "pl_has_pending_op p'"
    and "em_sent (pl_emitter p') = em_sent (pl_emitter p)" "em_line_size (pl_emitter p') = em_line_size (pl_emitter p)"
    and "map_option fixed_map (pl_filter p') = map_option fixed_map (pl_filter p)"
    and "ev_cmd (hd (pl_coreQ p')) = c" "pl_offset p' = 0" "pl_pending_op p' = op_of c (action_of (pl_filter p) c)"
    and "action_of (pl_filter p) c \<notin> {CONSUME, END_SIM}" "qc_cmd c \<noteq> cmd_code CMD_NOP"
  shows "wires_ok strat line ret0 p'"
proof -
  have "map_option fixed_map (pl_filter p) = map_option fixed_map strat" using assms(1) by (simp add: wires_ok_def)
  then have "cmd_wires strat line c = op_rest line (op_of c (action_of (pl_filter p) c)) 0"
    using assms(10,11) action_of_fixed [of "pl_filter p" strat c] by (simp add: cmd_wires_def)
  then show ?thesis using assms by (simp add: wires_ok_def)
qed

text \<open>An iteration that is not blocked: it retires or ends the run and uses up work.\<close>

definition works :: "(nat \<Rightarrow> nat) \<Rightarrow> pipeline \<Rightarrow> u32 \<Rightarrow> iter_end \<Rightarrow> pipeline \<Rightarrow> u32 \<Rightarrow> bool" where
  "works ids p i r p' i' \<longleftrightarrow> (\<exists>ret fin. advanced ids p i ret fin p' i' \<and> (fin \<noteq> [] \<longrightarrow> r = Return)) \<and> queue_work p' < queue_work p"

lemma worksI: "advanced ids p i ret fin p' i' \<Longrightarrow> fin \<noteq> [] \<longrightarrow> r = Return \<Longrightarrow> queue_work p' < queue_work p \<Longrightarrow> works ids p i r p' i'"
  unfolding works_def by blast

lemma consume_works:
  assumes "\<not> pl_has_pending_op p" "pend_ok p" "limits_ok ids p issued" "pl_coreQ p = ev # q" "\<not> is_exit ev"
    and "map_option fixed_map strat' = map_option fixed_map (pl_filter p)" "action_of (pl_filter p) (ev_cmd ev) = CONSUME"
  shows "works ids p issued r (fst (checkMaxInsts (pop_count (pl_stat st' (pl_stat st (p\<lparr>pl_filter := strat'\<rparr>)))))) issued"
proof -
  define p1 where "p1 = pop_count (pl_stat st' (pl_stat st (p\<lparr>pl_filter := strat'\<rparr>)))"
  have w: "queue_work p1 < queue_work p" using assms(1,4) by (simp add: p1_def queue_work_def event_work_def)
  have "wires_ok s l (r0 @ [ev_cmd ev]) p1" if "wires_ok s l r0 p" for s l r0
    by (rule wires_idle [OF that assms(1)]) (use assms in \<open>auto simp: p1_def\<close>)
  then have "advanced ids p issued [ev_cmd ev] [] (fst (checkMaxInsts p1)) issued"
    unfolding advanced_def using w assms by (simp add: p1_def limits_ok_def pend_ok_def is_exit_def)
  then show ?thesis using w unfolding p1_def works_def by auto
qed

lemma transform_works:
  assumes "\<not> pl_has_pending_op p" "pend_ok p" "limits_ok ids p issued" "pl_coreQ p = ev # q"
    and "map_option fixed_map strat' = map_option fixed_map (pl_filter p)" "act = action_of (pl_filter p) (ev_cmd ev)" "act \<noteq> CONSUME"
    and "transform_process (pl_ctx p) ev (pl_pending_op p) act = (ev', st2, op', res)"
    and "p2 = pl_stat st2 ((pl_stat st (p\<lparr>pl_filter := strat'\<rparr>))\<lparr>pl_coreQ := ev' # tl (pl_coreQ p), pl_pending_op := op'\<rparr>)"
  shows "res = STALL \<Longrightarrow> works ids p issued r p2 issued"
    and "res = CONSUMED_NOOP \<Longrightarrow> works ids p issued r (fst (checkMaxInsts (pop_count p2))) issued"
    and "res = EMIT_MEMOP \<Longrightarrow> works ids p issued r (p2\<lparr>pl_has_pending_op := True\<rparr>) issued"
    and "res = HALT_EXIT \<Longrightarrow> works ids p issued Return
      (p2\<lparr>pl_guest_exit := (qc_cmd (ev_cmd ev) = cmd_code CMD_EXIT), pl_halted := True, pl_coreQ := tl (pl_coreQ p2)\<rparr>) issued"
proof -
  note t = transform_process_cmd [OF assms(8)]
  have p2: "pl_coreQ p2 = ev' # q" "pl_pending_op p2 = op'" "pl_filter p2 = strat'" "pl_has_pending_op p2 = False" "pl_offset p2 = 0"
      "pl_ctx p2 = pl_ctx p" "pl_input p2 = pl_input p" "pl_refill_hit_cap p2 = pl_refill_hit_cap p" "pl_inst_count p2 = pl_inst_count p"
      "pl_guest_exit p2 = pl_guest_exit p" "limits_ok ids p2 issued"
      "em_sent (pl_emitter p2) = em_sent (pl_emitter p)" "em_line_size (pl_emitter p2) = em_line_size (pl_emitter p)"
    using assms(1-4) by (simp_all add: assms(9) limits_ok_def pend_ok_def)
  have w2: "queue_work p2 + (if res = STALL then 1 else 0) = queue_work p"
    using assms(1,4) p2 t(1,3,4) by (auto simp: queue_work_def event_work_def word_less_nat_alt unat_sub word_le_nat_alt)
  have idle: "wires_ok s l (r0 @ ret) p3" if "wires_ok s l r0 p" "\<not> pl_has_pending_op p3" "pl_emitter p3 = pl_emitter p2" "pl_filter p3 = strat'"
      "\<And>c. c \<in> set ret \<Longrightarrow> qc_cmd c = cmd_code CMD_NOP" for s l r0 ret p3
    by (rule wires_idle [OF that(1) assms(1)]) (use that p2 assms(5) in auto)
  show "works ids p issued r p2 issued" if "res = STALL"
  proof (rule worksI)
    show "advanced ids p issued [] [] p2 issued"
      using w2 that assms(4) t(1) p2 idle [of _ _ _ p2 "[]"] by (simp add: advanced_def pend_ok_def)
  qed (use w2 that in auto)
  show "works ids p issued r (fst (checkMaxInsts (pop_count p2))) issued" if c: "res = CONSUMED_NOOP"
  proof (rule worksI)
    have w: "queue_work (pop_count p2) < queue_work p" using w2 c p2 by (simp add: queue_work_def event_work_def)
    then show "queue_work (fst (checkMaxInsts (pop_count p2))) < queue_work p" by simp
    show "advanced ids p issued [ev_cmd ev] [] (fst (checkMaxInsts (pop_count p2))) issued"
      unfolding advanced_def using w assms(4) t(1,2,6) p2 c idle [of _ _ _ "pop_count p2" "[ev_cmd ev]"]
      by (simp add: pend_ok_def limits_ok_def is_exit_def)
  qed simp
  show "works ids p issued r (p2\<lparr>pl_has_pending_op := True\<rparr>) issued" if e: "res = EMIT_MEMOP"
  proof (rule worksI)
    show w: "queue_work (p2\<lparr>pl_has_pending_op := True\<rparr>) < queue_work p"
      using w2 e p2 by (simp add: queue_work_def event_work_def)
    have "wires_ok s l r0 (p2\<lparr>pl_has_pending_op := True\<rparr>)" if "wires_ok s l r0 p" for s l r0
      by (rule wires_begin [OF that assms(1), where c = "ev_cmd ev"]) (use assms(5-7) p2 t(1,5) e in auto)
    then show "advanced ids p issued [] [] (p2\<lparr>pl_has_pending_op := True\<rparr>) issued"
      unfolding advanced_def using w assms(4) t(1,2,5) p2 e by (simp add: pend_ok_def limits_ok_def is_exit_def op_of_def)
  qed simp
  let ?h = "p2\<lparr>pl_guest_exit := (qc_cmd (ev_cmd ev) = cmd_code CMD_EXIT), pl_halted := True, pl_coreQ := tl (pl_coreQ p2)\<rparr>"
  show "works ids p issued Return ?h issued" if h: "res = HALT_EXIT"
  proof (rule worksI)
    show w: "queue_work ?h < queue_work p" using w2 h p2 by (simp add: queue_work_def event_work_def)
    show "advanced ids p issued [] [ev_cmd ev] ?h issued"
      unfolding advanced_def using w assms(4) t(1) p2 idle [of _ _ _ ?h "[]"] by (simp add: pend_ok_def limits_ok_def)
  qed simp
qed

lemma tick_iter_works:
  assumes "tick_iter ids now p issued = Inr (p', issued', r)" "pl_coreQ p \<noteq> []"
    and "pend_ok p" "limits_ok ids p issued" "\<not> pl_has_pending_op p"
  shows "works ids p issued r p' issued'"
proof -
  from assms(2) obtain ev q where q: "pl_coreQ p = ev # q" by (cases "pl_coreQ p") auto
  let ?rw = "qc_cmd (ev_cmd ev) = cmd_code CMD_READ \<or> qc_cmd (ev_cmd ev) = cmd_code CMD_WRITE"
  obtain strat' st act cons where f:
    "(if ?rw then filter_handle (pl_filter p) (ev_cmd ev) else (pl_filter p, [], FORWARD, False)) = (strat', st, act, cons)"
    by (metis prod_cases4)
  note fa = filter_action [OF f]
  note it = assms(1) [unfolded tick_iter_def Let_def if_not_P [OF assms(5)] q list.sel f prod.case]
  show ?thesis
  proof (cases cons)
    case True
    then have "\<not> is_exit ev" using f by (auto simp: is_exit_def split: if_splits)
    from consume_works [OF assms(5,3,4) q this fa(1)] show ?thesis
      using it True fa by (auto simp: case_prod_beta)
  next
    case False
    obtain ev' st2 op' res where tp: "transform_process (pl_ctx p) ev (pl_pending_op p) act = (ev', st2, op', res)"
      by (metis prod_cases4)
    have "act \<noteq> CONSUME" using fa False by simp
    note w = transform_works [OF assms(5,3,4) q fa(1,2) this tp refl]
    show ?thesis using it False tp w by (cases res) (auto simp: case_prod_beta)
  qed
qed

lemma tick_iter_advanced:
  assumes "tick_iter ids now p issued = Inr (p', issued', r)" "pl_coreQ p \<noteq> []"
    and "pend_ok p" "limits_ok ids p issued"
  shows "\<exists>ret fin. advanced ids p issued ret fin p' issued' \<and> (fin \<noteq> [] \<longrightarrow> r = Return)"
    and "\<not> pl_has_pending_op p \<or> issued < max_issue_per_cycle (pl_ctx p) \<and> em_pending_count (pl_emitter p) < max_pending (pl_ctx p) \<Longrightarrow>
      queue_work p' < queue_work p"
proof -
  have "(\<exists>ret fin. advanced ids p issued ret fin p' issued' \<and> (fin \<noteq> [] \<longrightarrow> r = Return)) \<and>
    (\<not> pl_has_pending_op p \<or> issued < max_issue_per_cycle (pl_ctx p) \<and> em_pending_count (pl_emitter p) < max_pending (pl_ctx p) \<longrightarrow>
      queue_work p' < queue_work p)"
  proof (cases "pl_has_pending_op p")
    case True
    then obtain ok where "issueMemOp ids now p issued = Inr (p', issued', ok)"
      using assms(1) by (auto simp: tick_iter_def res_bind_Inr_iff split: if_splits)
    from issueMemOp_advanced [OF this True assms(3,4)] show ?thesis using True by blast
  next
    case False
    then show ?thesis using tick_iter_works [OF assms] unfolding works_def by blast
  qed
  then show "\<exists>ret fin. advanced ids p issued ret fin p' issued' \<and> (fin \<noteq> [] \<longrightarrow> r = Return)"
    and "\<not> pl_has_pending_op p \<or> issued < max_issue_per_cycle (pl_ctx p) \<and> em_pending_count (pl_emitter p) < max_pending (pl_ctx p) \<Longrightarrow>
      queue_work p' < queue_work p" by blast+
qed

lemma tick_loop_advanced:
  "tick_loop ids now p issued = Inr (p', issued', r) \<Longrightarrow> pend_ok p \<Longrightarrow> limits_ok ids p issued \<Longrightarrow>
   \<exists>ret fin. advanced ids p issued ret fin p' issued'"
proof (induction ids now p issued rule: tick_loop.induct)
  case (1 ids now p issued)
  show ?case
  proof (cases "pl_coreQ p = []")
    case True
    then show ?thesis using "1.prems" by (auto simp: tick_loop.simps [of ids now p] intro: advanced_refl)
  next
    case False
    obtain p1 i1 r1 where it: "tick_iter ids now p issued = Inr (p1, i1, r1)"
      using "1.prems"(1) False by (auto simp: tick_loop.simps [of ids now p] split: sum.splits)
    obtain ret fin where a: "advanced ids p issued ret fin p1 i1" "fin \<noteq> [] \<longrightarrow> r1 = Return"
      using tick_iter_advanced [OF it False "1.prems"(2,3)] by blast
    show ?thesis
    proof (cases "r1 = Continue")
      case True
      have "tick_loop ids now p1 i1 = Inr (p', issued', r)"
        using "1.prems"(1) False it True by (simp add: tick_loop.simps [of ids now p])
      moreover have "pend_ok p1" "limits_ok ids p1 i1" using a(1) by (auto simp: advanced_def)
      ultimately obtain ret2 fin2 where "advanced ids p1 i1 ret2 fin2 p' issued'"
        using "1.IH" [OF False it refl refl True] by blast
      moreover have "fin = []" using a(2) True by auto
      ultimately show ?thesis using advanced_trans a(1) by blast
    next
      case nc: False
      then show ?thesis using "1.prems"(1) False it a(1) by (auto simp: tick_loop.simps [of ids now p])
    qed
  qed
qed

lemma tick_loop_works:
  assumes "tick_loop ids now p issued = Inr (p', issued', r)" "pend_ok p" "limits_ok ids p issued" "pl_coreQ p \<noteq> []"
    and "\<not> pl_has_pending_op p \<or> issued < max_issue_per_cycle (pl_ctx p) \<and> em_pending_count (pl_emitter p) < max_pending (pl_ctx p)"
  shows "queue_work p' < queue_work p"
proof -
  obtain p1 i1 r1 where it: "tick_iter ids now p issued = Inr (p1, i1, r1)"
    using assms(1,4) by (auto simp: tick_loop.simps [of ids now p] split: sum.splits)
  note a = tick_iter_advanced [OF it assms(4,2,3)]
  have "queue_work p1 < queue_work p" using a(2) assms(5) by blast
  moreover have "queue_work p' \<le> queue_work p1"
  proof (cases "r1 = Continue")
    case True
    then have l: "tick_loop ids now p1 i1 = Inr (p', issued', r)" using assms(1,4) it by (simp add: tick_loop.simps [of ids now p])
    obtain ret fin where "advanced ids p issued ret fin p1 i1" using a(1) by blast
    then have "pend_ok p1" "limits_ok ids p1 i1" by (auto simp: advanced_def)
    then show ?thesis using tick_loop_advanced [OF l] by (auto simp: advanced_def)
  next
    case False
    then show ?thesis using assms(1,4) it by (simp add: tick_loop.simps [of ids now p])
  qed
  ultimately show ?thesis by simp
qed

lemma pl_stat_Nil: "pl_stat [] p = p"
  by (simp add: pl_stat_def)

lemma tick_advanced:
  assumes "tick ids now p src = Inr (p', src')" "\<not> pl_halted p" "pend_ok p" "limits_ok ids p 0"
  obtains q inp ex p1 p2 issued ret fin st where
    "refill (pl_ctx p) (pl_coreQ p) (pl_input p) src (max_queue_len (pl_ctx p)) = (q, inp, src', ex)"
    "p1 = p\<lparr>pl_coreQ := q, pl_input := inp,
       pl_refill_hit_cap := (max_queue_len (pl_ctx p) > 0 \<and> length q \<ge> unat (max_queue_len (pl_ctx p)))\<rparr>"
    "advanced ids p1 0 ret fin p2 issued" "p' = pl_stat st p2"
    "q \<noteq> [] \<and> 0 < max_issue_per_cycle (pl_ctx p) \<and>
      (\<not> pl_has_pending_op p \<or> em_pending_count (pl_emitter p) < max_pending (pl_ctx p)) \<longrightarrow> queue_work p2 < queue_work p1"
proof -
  obtain q inp sr ex where rf:
    "refill (pl_ctx p) (pl_coreQ p) (pl_input p) src (max_queue_len (pl_ctx p)) = (q, inp, sr, ex)"
    by (metis prod_cases4)
  define p1 where "p1 = p\<lparr>pl_coreQ := q, pl_input := inp,
       pl_refill_hit_cap := (max_queue_len (pl_ctx p) > 0 \<and> length q \<ge> unat (max_queue_len (pl_ctx p)))\<rparr>"
  note tk = assms(1) [unfolded tick_def if_not_P [OF assms(2)] rf prod.case Let_def, folded p1_def]
  then obtain p2 issued r where lp: "tick_loop ids now p1 0 = Inr (p2, issued, r)"
    by (cases "tick_loop ids now p1 0") auto
  define st :: stat_trace where "st = (if r = Return then [] else (if issued > 0 then [(S_active_cycles, 1)] else []) @ [(S_cycles, 1)])"
  have l: "tick_loop ids now p1 0 = Inr (p2, issued, r)" "p' = pl_stat st p2" "sr = src'"
    using tk lp by (auto simp: st_def pl_stat_Nil split: if_splits)
  have ok: "pend_ok p1" "limits_ok ids p1 0"
    using assms(3,4) refill_spec(2) [OF rf] by (auto simp: pend_ok_def limits_ok_def p1_def split: if_splits)
  obtain ret fin where "advanced ids p1 0 ret fin p2 issued"
    using tick_loop_advanced [OF l(1) ok] by blast
  then show thesis using that rf p1_def l(2,3) tick_loop_works [OF l(1) ok] by (simp add: p1_def)
qed

text \<open>The states a core's pipeline can be in: responses and cycles interleave in any order, and
  each cycle finds any list of commands in the tunnel.\<close>

inductive pipeline_reachable :: "(nat \<Rightarrow> nat) \<Rightarrow> core_ctx \<Rightarrow> pipeline \<Rightarrow> bool" for ids ctx where
  init: "new_pipeline ctx line strat = Inr p \<Longrightarrow>
     pipeline_reachable ids ctx (p\<lparr>pl_emitter := setMmioLink (setLink (pl_emitter p) mem) mmio\<rparr>)"
| tick: "pipeline_reachable ids ctx p \<Longrightarrow> tick ids now p src = Inr (p', src') \<Longrightarrow> pipeline_reachable ids ctx p'"
| response: "pipeline_reachable ids ctx p \<Longrightarrow> pipeline_handleResponse now p resp = (p', out) \<Longrightarrow>
     pipeline_reachable ids ctx p'"

definition pipeline_inv :: "(nat \<Rightarrow> nat) \<Rightarrow> core_ctx \<Rightarrow> pipeline \<Rightarrow> bool" where
  "pipeline_inv ids ctx p \<longleftrightarrow> pl_ctx p = ctx \<and> pend_ok p \<and> limits_ok ids p 0 \<and>
     length (pl_coreQ p) \<le> unat (max_queue_len ctx)"

lemma tick_inv:
  assumes "tick ids now p src = Inr (p', src')" "pipeline_inv ids ctx p"
  shows "pipeline_inv ids ctx p'"
proof (cases "pl_halted p")
  case True
  then show ?thesis using assms by (simp add: tick_def)
next
  case False
  have inv: "pl_ctx p = ctx" "pend_ok p" "limits_ok ids p 0" "length (pl_coreQ p) \<le> unat (max_queue_len ctx)"
    using assms(2) by (auto simp: pipeline_inv_def)
  from tick_advanced [OF assms(1) False inv(2,3)] obtain q inp ex p1 p2 issued ret fin st where
    rf: "refill (pl_ctx p) (pl_coreQ p) (pl_input p) src (max_queue_len (pl_ctx p)) = (q, inp, src', ex)"
    and p1: "p1 = p\<lparr>pl_coreQ := q, pl_input := inp,
       pl_refill_hit_cap := (max_queue_len (pl_ctx p) > 0 \<and> length q \<ge> unat (max_queue_len (pl_ctx p)))\<rparr>"
    and adv: "advanced ids p1 0 ret fin p2 issued" "p' = pl_stat st p2" .
  have "length q \<le> unat (max_queue_len ctx)" using refill_spec(4) [OF rf] inv by simp
  moreover have "length q = length ret + length fin + length (pl_coreQ p2)"
  proof -
    have "map ev_cmd q = ret @ fin @ map ev_cmd (pl_coreQ p2)" using adv(1) p1 by (simp add: advanced_def)
    from arg_cong [OF this, of length] show ?thesis by simp
  qed
  ultimately show ?thesis
    using adv inv p1 by (auto simp: pipeline_inv_def advanced_def limits_ok_def pend_ok_def)
qed

lemma response_inv:
  assumes "pipeline_handleResponse now p resp = (p', out)" "pipeline_inv ids ctx p"
  shows "pipeline_inv ids ctx p'"
proof (cases "em_pending (pl_emitter p) (rsp_id resp)")
  case None
  then have "p' = p" using assms(1) by (simp add: pipeline_handleResponse_def emitter_handleResponse_def)
  then show ?thesis using assms(2) by simp
next
  case (Some pr)
  let ?e = "pl_emitter p"
  have o: "inj ids" "dom (em_pending ?e) \<subseteq> ids ` {..<em_next ?e}"
      "unat (em_pending_count ?e) = card (dom (em_pending ?e))"
    using assms(2) by (auto simp: pipeline_inv_def limits_ok_def outstanding_ok_def)
  have fin: "finite (dom (em_pending ?e))" using o(2) finite_surj [of "{..<em_next ?e}"] by blast
  have "0 < card (dom (em_pending ?e))" using Some fin by (auto simp: card_gt_0_iff)
  then have u: "unat (em_pending_count ?e - 1) = card (dom (em_pending ?e)) - 1"
    using o(3) by (subst unat_sub) (simp_all add: word_le_nat_alt)
  have p': "p' = p\<lparr>pl_emitter := ?e\<lparr>em_pending := (em_pending ?e)(rsp_id resp := None),
      em_pending_count := em_pending_count ?e - 1\<rparr>\<rparr>"
    using assms(1) Some by (simp add: pipeline_handleResponse_def emitter_handleResponse_def)
  have d: "card (dom ((em_pending ?e)(rsp_id resp := None))) = card (dom (em_pending ?e)) - 1"
    using Some by (simp add: card_Diff_singleton domI)
  have "outstanding_ok ids (pl_emitter p')"
    using o u d p' by (auto simp: outstanding_ok_def)
  moreover have "em_pending_count ?e - 1 \<le> max_pending (pl_ctx p)"
    using assms(2) u o(3) by (auto simp: pipeline_inv_def limits_ok_def word_le_nat_alt)
  ultimately show ?thesis
    using assms(2) p' by (simp add: pipeline_inv_def limits_ok_def pend_ok_def)
qed

text \<open>A two-entry queue, a compute run of three and an exit command.\<close>

definition sample_ctx :: core_ctx where
  "sample_ctx = \<lparr>max_queue_len = 2, max_issue_per_cycle = 1, max_pending = 4, max_insts = 0,
     detailed_tracking = False, exec_latency = replicate 8 0, compute_latency = replicate 8 0\<rparr>"

definition sample_src :: "quetz_command list" where
  "sample_src = [(sample_cmd CMD_COMPUTE_RUN 0)\<lparr>qc_size := 3\<rparr>, sample_cmd CMD_EXIT 0]"

definition sample_pipeline :: pipeline where
  "sample_pipeline = (case new_pipeline sample_ctx 64 None of Inr p \<Rightarrow> p)"

lemma sample_pipeline_init: "new_pipeline sample_ctx 64 None = Inr sample_pipeline"
  by (simp add: sample_pipeline_def new_pipeline_def sample_ctx_def)

lemma sample_pipeline_inv: "pipeline_inv id sample_ctx sample_pipeline" "\<not> pl_halted sample_pipeline"
  by (simp_all add: sample_pipeline_def new_pipeline_def sample_ctx_def pipeline_inv_def pend_ok_def
      limits_ok_def outstanding_ok_def emitter_init_def)

lemma sample_tick: "is_ok (tick id 0 sample_pipeline sample_src)"
  by code_simp

section \<open>Properties\<close>

text \<open>C12. No event is lost, duplicated or reordered: the commands queued, in the current run and in
  the tunnel before a cycle are the commands it retired, followed by the exit or end-of-simulation
  command if one ended the run, followed by those still to come; the instruction counter advances
  by the number retired, none of which is an exit, and the core halts if a command ended the run.\<close>

theorem tick_conserves_events:
  assumes "pipeline_inv ids ctx p" "\<not> pl_halted p" "tick ids now p src = Inr (p', src')"
  shows "\<exists>ret fin.
    map ev_cmd (pl_coreQ p @ undelivered ctx (pl_input p) src) =
      ret @ fin @ map ev_cmd (pl_coreQ p' @ undelivered ctx (pl_input p') src') \<and>
    pl_inst_count p' = pl_inst_count p + of_nat (length ret) \<and>
    (\<forall>c \<in> set ret. qc_cmd c \<noteq> cmd_code CMD_EXIT) \<and> length fin \<le> 1 \<and> (fin \<noteq> [] \<longrightarrow> pl_halted p')"
proof -
  have inv: "pl_ctx p = ctx" "pend_ok p" "limits_ok ids p 0" using assms(1) by (auto simp: pipeline_inv_def)
  from tick_advanced [OF assms(3,2) inv(2,3)] obtain q inp ex p1 p2 issued ret fin st where
    rf: "refill (pl_ctx p) (pl_coreQ p) (pl_input p) src (max_queue_len (pl_ctx p)) = (q, inp, src', ex)"
    and p1: "p1 = p\<lparr>pl_coreQ := q, pl_input := inp,
       pl_refill_hit_cap := (max_queue_len (pl_ctx p) > 0 \<and> length q \<ge> unat (max_queue_len (pl_ctx p)))\<rparr>"
    and adv: "advanced ids p1 0 ret fin p2 issued" "p' = pl_stat st p2" .
  have "map ev_cmd q = ret @ fin @ map ev_cmd (pl_coreQ p2)" "pl_input p2 = inp"
    using adv(1) p1 by (simp_all add: advanced_def)
  then have "map ev_cmd (q @ undelivered ctx inp src') =
      ret @ fin @ map ev_cmd (pl_coreQ p' @ undelivered ctx (pl_input p') src')"
    using adv(2) by simp
  moreover have "q @ undelivered ctx inp src' = pl_coreQ p @ undelivered ctx (pl_input p) src"
    using refill_spec(1) [OF rf] inv(1) by simp
  moreover have "pl_inst_count p' = pl_inst_count p + of_nat (length ret)"
      "\<forall>c \<in> set ret. qc_cmd c \<noteq> cmd_code CMD_EXIT" "length fin \<le> 1" "fin \<noteq> [] \<longrightarrow> pl_halted p'"
    using adv p1 by (simp_all add: advanced_def)
  ultimately show ?thesis by metis
qed

theorem tick_conserves_events_witness:
  "\<exists>p' src' ret fin. tick id 0 sample_pipeline sample_src = Inr (p', src') \<and>
     map ev_cmd (pl_coreQ sample_pipeline @ undelivered sample_ctx (pl_input sample_pipeline) sample_src) =
       ret @ fin @ map ev_cmd (pl_coreQ p' @ undelivered sample_ctx (pl_input p') src')"
proof -
  obtain p' src' where t: "tick id 0 sample_pipeline sample_src = Inr (p', src')"
    using sample_tick by (auto elim: is_okE)
  show ?thesis using tick_conserves_events [OF sample_pipeline_inv t] t by blast
qed

text \<open>Limits hold in every reachable state, whatever the order of cycles and responses: the
  core queue never exceeds its length, the number of outstanding requests never exceeds the
  pending limit, and the count is exactly the number of requests awaiting a response. A command
  with a partly issued access stays at the head of the queue.\<close>

theorem pipeline_limits:
  assumes "inj ids" "pipeline_reachable ids ctx p"
  shows "length (pl_coreQ p) \<le> unat (max_queue_len ctx) \<and>
    em_pending_count (pl_emitter p) \<le> max_pending ctx \<and>
    unat (em_pending_count (pl_emitter p)) = card (dom (em_pending (pl_emitter p))) \<and>
    (pl_has_pending_op p \<longrightarrow> pl_coreQ p \<noteq> [] \<and> qc_cmd (ev_cmd (hd (pl_coreQ p))) \<noteq> cmd_code CMD_EXIT)"
proof -
  from assms(2) have "pipeline_inv ids ctx p"
  proof (induction rule: pipeline_reachable.induct)
    case (init line strat p mem mmio)
    then show ?case
      using assms(1)
      by (auto simp: new_pipeline_def pipeline_inv_def pend_ok_def limits_ok_def outstanding_ok_def
          emitter_init_def setLink_def setMmioLink_def split: if_splits)
  qed (blast intro: tick_inv response_inv)+
  then show ?thesis
    by (auto simp: pipeline_inv_def pend_ok_def limits_ok_def outstanding_ok_def is_exit_def)
qed

theorem pipeline_limits_witness:
  "\<exists>p. pipeline_reachable id sample_ctx p \<and> length (pl_coreQ p) \<le> 2 \<and> em_pending_count (pl_emitter p) \<le> 4"
proof -
  have r: "pipeline_reachable id sample_ctx (sample_pipeline\<lparr>pl_emitter :=
      setMmioLink (setLink (pl_emitter sample_pipeline) True) True\<rparr>)"
    by (rule pipeline_reachable.init [OF sample_pipeline_init])
  from pipeline_limits [OF _ r] r show ?thesis by (force simp: sample_ctx_def)
qed

text \<open>A drained core has nothing left: if after a cycle the pipeline reports drained
  although it has not halted, then the tunnel and the current compute run are exhausted, the queue
  is empty and no request is outstanding. A cycle sends at most the issue width.\<close>

theorem drained_is_exhausted:
  assumes "pipeline_inv ids ctx p" "\<not> pl_halted p" "tick ids now p src = Inr (p', src')"
  shows "length (em_sent (pl_emitter p')) \<le> length (em_sent (pl_emitter p)) + unat (max_issue_per_cycle ctx) \<and>
    (isDrained p' \<and> \<not> pl_halted p' \<and> 0 < max_queue_len ctx \<longrightarrow>
      pl_coreQ p' = [] \<and> undelivered ctx (pl_input p') src' = [] \<and> src' = [] \<and>
      dom (em_pending (pl_emitter p')) = {})"
proof -
  have inv: "pl_ctx p = ctx" "pend_ok p" "limits_ok ids p 0" using assms(1) by (auto simp: pipeline_inv_def)
  from tick_advanced [OF assms(3,2) inv(2,3)] obtain q inp ex p1 p2 issued ret fin st where
    rf: "refill (pl_ctx p) (pl_coreQ p) (pl_input p) src (max_queue_len (pl_ctx p)) = (q, inp, src', ex)"
    and p1: "p1 = p\<lparr>pl_coreQ := q, pl_input := inp,
       pl_refill_hit_cap := (max_queue_len (pl_ctx p) > 0 \<and> length q \<ge> unat (max_queue_len (pl_ctx p)))\<rparr>"
    and adv: "advanced ids p1 0 ret fin p2 issued" "p' = pl_stat st p2" .
  have same: "pl_input p' = inp" "limits_ok ids p2 issued" "pl_ctx p2 = ctx"
      "pl_refill_hit_cap p' = (max_queue_len ctx > 0 \<and> length q \<ge> unat (max_queue_len ctx))"
      "map ev_cmd q = ret @ fin @ map ev_cmd (pl_coreQ p')"
      "length (em_sent (pl_emitter p')) = length (em_sent (pl_emitter p)) + unat issued"
    using adv p1 inv(1) by (simp_all add: advanced_def)
  have "unat issued \<le> unat (max_issue_per_cycle ctx)"
    using same(2,3) by (auto simp: limits_ok_def word_le_nat_alt)
  moreover have "pl_coreQ p' = [] \<and> undelivered ctx (pl_input p') src' = [] \<and> src' = [] \<and>
      dom (em_pending (pl_emitter p')) = {}"
    if d: "isDrained p'" "\<not> pl_halted p'" "0 < max_queue_len ctx"
  proof -
    have e: "pl_coreQ p' = []" "\<not> pl_refill_hit_cap p'" "em_pending_count (pl_emitter p') = 0"
      using d by (auto simp: isDrained_def)
    have "fin = []" using adv d(2) by (auto simp: advanced_def)
    then have "map ev_cmd q = ret" using same(5) e(1) by simp
    then have "\<forall>ev \<in> set q. \<not> is_exit ev" using adv(1) by (auto simp: advanced_def is_exit_def)
    then have s: "src' = []" "run_remaining inp = 0"
      using refill_spec(3) [OF rf] e(2) same(4) d(3) inv(1) by auto
    have o: "outstanding_ok ids (pl_emitter p')" using same(2) adv(2) by (simp add: limits_ok_def)
    then have "finite (dom (em_pending (pl_emitter p')))"
      by (meson finite_imageI finite_lessThan finite_subset outstanding_ok_def)
    then have "dom (em_pending (pl_emitter p')) = {}" using o e(3) by (simp add: outstanding_ok_def)
    then show ?thesis using e(1) s same(1) by (simp add: undelivered_def run_events_def)
  qed
  ultimately show ?thesis using same(6) by auto
qed

theorem drained_is_exhausted_witness:
  "\<exists>p'. tick id 0 sample_pipeline [] = Inr (p', []) \<and> isDrained p' \<and> \<not> pl_halted p' \<and> pl_coreQ p' = []"
proof -
  have ok: "case tick id 0 sample_pipeline [] of Inr (p', src') \<Rightarrow> isDrained p' \<and> \<not> pl_halted p' | Inl _ \<Rightarrow> False"
    by code_simp
  obtain p' src' where t: "tick id 0 sample_pipeline [] = Inr (p', src')"
    using ok by (auto split: sum.splits)
  have "0 < max_queue_len sample_ctx" by (simp add: sample_ctx_def)
  then show ?thesis using drained_is_exhausted [OF sample_pipeline_inv t] t ok by auto
qed

end
