(* ===== verification/Quetz_Ipc_Client.thy ===== *)
theory Quetz_Ipc_Client
  imports Quetz_Ipc_Types
begin

text \<open>
  Both ends of the shared-memory mailbox: the SST side of \<open>src/quetz_mmio_sync.h\<close>, the
  QEMU client of \<open>qemu-overlay/quetz_ipc_client.c\<close> (attach, detach, CPU reset epochs,
  native RAM lookup, IRQ drain) and the cache adapter of
  \<open>include/quetz/quetz_coldfire_cache.h\<close>. Segments live in a store indexed by their
  identity, because several clients may map the same one; a client handle stands for
  the client pointer. The blocking MMIO calls are modelled as programs of atomic steps in
  the theory of the mailbox protocol.
\<close>

section \<open>SST side\<close>

type_synonym mmio_sync = "shared_data option"

definition sync_bind :: "shared_data option \<Rightarrow> mmio_sync" where
  "sync_bind sh = sh"

definition clearSlot :: "mmio_sync \<Rightarrow> u32 \<Rightarrow> mmio_sync" where
  "clearSlot s vcpu =
     (if vcpu \<ge> QUETZ_MAX_MMIO_VCORES then s
      else map_option (\<lambda>sh. sh\<lparr>mmio_slot := (mmio_slot sh)(unat vcpu := \<lparr>ready = 0, resp_value = 0\<rparr>)\<rparr>) s)"

definition clearIrqSlots :: "mmio_sync \<Rightarrow> u32 \<Rightarrow> mmio_sync" where
  "clearIrqSlots s vcpu =
     (if vcpu \<ge> QUETZ_MAX_MMIO_VCORES then s
      else map_option (\<lambda>sh. sh\<lparr>irq_slot := (irq_slot sh)(unat vcpu :=
        (\<lambda>l. if l < unat QUETZ_MAX_IRQ_LINES then \<lparr>irq_seq = 0, irq_level = 0\<rparr> else irq_slot sh (unat vcpu) l))\<rparr>) s)"

text \<open>The three stores of \<open>postIrq\<close>, in order: the level, the slot's sequence number, the
  generation.\<close>

definition irq_store_level :: "nat \<Rightarrow> nat \<Rightarrow> u32 \<Rightarrow> shared_data \<Rightarrow> shared_data" where
  "irq_store_level v l lv sh = sh\<lparr>irq_slot := (irq_slot sh)(v := (irq_slot sh v)(l := (irq_slot sh v l)\<lparr>irq_level := lv\<rparr>))\<rparr>"

definition irq_store_seq :: "nat \<Rightarrow> nat \<Rightarrow> shared_data \<Rightarrow> shared_data" where
  "irq_store_seq v l sh = sh\<lparr>irq_slot := (irq_slot sh)(v := (irq_slot sh v)(l :=
     (irq_slot sh v l)\<lparr>irq_seq := irq_seq (irq_slot sh v l) + 1\<rparr>))\<rparr>"

definition irq_store_gen :: "shared_data \<Rightarrow> shared_data" where
  "irq_store_gen sh = sh\<lparr>irq_generation := irq_generation sh + 1\<rparr>"

definition postIrq :: "mmio_sync \<Rightarrow> u32 \<Rightarrow> u32 \<Rightarrow> u32 \<Rightarrow> mmio_sync" where
  "postIrq s vcpu line level =
     (if vcpu \<ge> QUETZ_MAX_MMIO_VCORES \<or> line \<ge> QUETZ_MAX_IRQ_LINES then s
      else map_option (\<lambda>sh. irq_store_gen (irq_store_seq (unat vcpu) (unat line)
             (irq_store_level (unat vcpu) (unat line) level sh))) s)"

definition slot_store_value :: "nat \<Rightarrow> u64 \<Rightarrow> shared_data \<Rightarrow> shared_data" where
  "slot_store_value v x sh = sh\<lparr>mmio_slot := (mmio_slot sh)(v := (mmio_slot sh v)\<lparr>resp_value := x\<rparr>)\<rparr>"

definition slot_store_ready :: "nat \<Rightarrow> u32 \<Rightarrow> shared_data \<Rightarrow> shared_data" where
  "slot_store_ready v x sh = sh\<lparr>mmio_slot := (mmio_slot sh)(v := (mmio_slot sh v)\<lparr>ready := x\<rparr>)\<rparr>"

definition postResponse :: "mmio_sync \<Rightarrow> u32 \<Rightarrow> u64 \<Rightarrow> mmio_sync" where
  "postResponse s vcpu value =
     (if vcpu \<ge> QUETZ_MAX_MMIO_VCORES then s
      else map_option (\<lambda>sh. slot_store_ready (unat vcpu) 1 (slot_store_value (unat vcpu) value sh)) s)"

text \<open>One poll of \<open>waitResponse\<close>: \<open>None\<close> while the response is not ready, otherwise its value and
  the segment with the slot released.\<close>

definition waitResponse_poll :: "u32 \<Rightarrow> shared_data \<Rightarrow> (u64 \<times> shared_data) option" where
  "waitResponse_poll vcpu sh =
     (if ready (mmio_slot sh (unat vcpu)) = 0 then None
      else Some (resp_value (mmio_slot sh (unat vcpu)), slot_store_ready (unat vcpu) 0 sh))"

section \<open>Attaching\<close>

record ipc_client =
  cl_seg :: nat
  cl_base :: u64
  cl_map_size :: u64
  cl_irq_seq :: "nat \<Rightarrow> nat \<Rightarrow> u32"
  cl_irq_gen :: u32

text \<open>What the operating system answers for a shared-memory name: the size reported for the
  descriptor (\<open>None\<close> if \<open>fstat\<close> fails), whether the header can be mapped, the header fields, and
  the address of the full mapping (\<open>None\<close> if it fails).\<close>

record shm_object =
  so_size :: "int option"
  so_hdr_mapped :: bool
  so_shmSegSize :: u64
  so_offset :: u64
  so_map :: "u64 option"
  so_seg :: nat

definition sizeof_internal :: u64 where "sizeof_internal = 32"

text \<open>\<open>sizeof(QuetzSharedData)\<close>: the native storage, the magic aligned to four bytes and its
  padding, rounded up to eight bytes.\<close>

definition sizeof_shared :: u64 where
  "sizeof_shared = ((native_storage_end + 3) div 4 * 4 + 8 + 7) div 8 * 8"

definition header_rejected :: "u64 \<Rightarrow> u64 \<Rightarrow> u64 \<Rightarrow> bool" where
  "header_rejected map_size seg_size shared_off \<longleftrightarrow>
     map_size < sizeof_internal \<or> map_size > seg_size \<or> shared_off > map_size \<or>
     sizeof_shared > map_size - shared_off"

definition map_shmem :: "shm_object option \<Rightarrow> (nat \<Rightarrow> shared_data) \<Rightarrow> ipc_client option" where
  "map_shmem obj segs =
     (case obj of None \<Rightarrow> None
      | Some so \<Rightarrow>
          (case so_size so of None \<Rightarrow> None
           | Some n \<Rightarrow>
               if n \<le> 0 then None
               else if \<not> so_hdr_mapped so then None
               else if header_rejected (so_shmSegSize so) (word_of_int n) (so_offset so) then None
               else (case so_map so of None \<Rightarrow> None
                     | Some addr \<Rightarrow>
                         let sh = segs (so_seg so); base = addr + so_offset so
                         in if shm_magic sh \<noteq> QUETZ_SHM_MAGIC then None
                            else if \<not> quetz_native_regions_valid base sh then None
                            else Some \<lparr>cl_seg = so_seg so, cl_base = base, cl_map_size = so_shmSegSize so,
                                       cl_irq_seq = (\<lambda>_ _. 0), cl_irq_gen = 0\<rparr>)))"

text \<open>The process-wide state: the registered clients (newest first), the reset epochs, the client
  objects and the segments.\<close>

record ipc_process =
  reset_clients :: "nat list"
  reset_epochs :: "nat \<Rightarrow> u32"
  clients :: "nat \<Rightarrow> ipc_client option"
  segments :: "nat \<Rightarrow> shared_data"

definition store_epoch :: "nat \<Rightarrow> u32 \<Rightarrow> shared_data \<Rightarrow> shared_data" where
  "store_epoch v e sh = sh\<lparr>cpu_reset_epoch := (cpu_reset_epoch sh)(v := e)\<rparr>"

fun store_epochs_in :: "nat \<Rightarrow> u32 \<Rightarrow> (nat \<Rightarrow> ipc_client option) \<Rightarrow> nat list \<Rightarrow> (nat \<Rightarrow> shared_data) \<Rightarrow>
    nat \<Rightarrow> shared_data" where
  "store_epochs_in v e cls [] segs = segs"
| "store_epochs_in v e cls (c # cs) segs =
     store_epochs_in v e cls cs
       (case cls c of Some cl \<Rightarrow> segs(cl_seg cl := store_epoch v e (segs (cl_seg cl))) | None \<Rightarrow> segs)"

definition quetz_ipc_cpu_reset :: "u32 \<Rightarrow> ipc_process \<Rightarrow> ipc_process result" where
  "quetz_ipc_cpu_reset vcpu p =
     (if vcpu \<ge> QUETZ_MAX_MMIO_VCORES then Inl (Fatal ''quetz-ipc: reset CPU index out of range'')
      else
        let epoch = reset_epochs p (unat vcpu) + 1
        in Inr (p\<lparr>reset_epochs := (reset_epochs p)(unat vcpu := epoch),
                  segments := store_epochs_in (unat vcpu) epoch (clients p) (reset_clients p) (segments p)\<rparr>))"

fun publish_epochs :: "(nat \<Rightarrow> u32) \<Rightarrow> nat list \<Rightarrow> shared_data \<Rightarrow> shared_data" where
  "publish_epochs es [] sh = sh"
| "publish_epochs es (v # vs) sh = publish_epochs es vs (store_epoch v (es v) sh)"

text \<open>\<open>fresh\<close> is the handle \<open>calloc\<close> returns, \<open>None\<close> for a null pointer.\<close>

definition quetz_ipc_attach :: "nat option \<Rightarrow> shm_object option \<Rightarrow> ipc_process \<Rightarrow> ipc_process \<times> nat option" where
  "quetz_ipc_attach fresh obj p =
     (case fresh of None \<Rightarrow> (p, None)
      | Some h \<Rightarrow>
          (case map_shmem obj (segments p) of
             None \<Rightarrow> (p, None)
           | Some cl \<Rightarrow>
               (p\<lparr>segments := (segments p)(cl_seg cl :=
                    publish_epochs (reset_epochs p) [0..<unat QUETZ_MAX_MMIO_VCORES] (segments p (cl_seg cl))),
                  clients := (clients p)(h \<mapsto> cl),
                  reset_clients := h # reset_clients p\<rparr>, Some h)))"

definition quetz_ipc_detach :: "nat option \<Rightarrow> ipc_process \<Rightarrow> ipc_process" where
  "quetz_ipc_detach client p =
     (case client of None \<Rightarrow> p
      | Some h \<Rightarrow> p\<lparr>reset_clients := remove1 h (reset_clients p), clients := (clients p)(h := None)\<rparr>)"

section \<open>Queries\<close>

definition quetz_ipc_vcpu_count :: "shared_data option \<Rightarrow> u32" where
  "quetz_ipc_vcpu_count sh = (case sh of Some s \<Rightarrow> ucast (num_cores s) | None \<Rightarrow> 0)"

definition quetz_ipc_native_region_count :: "shared_data option \<Rightarrow> u32" where
  "quetz_ipc_native_region_count sh = (case sh of Some s \<Rightarrow> native_region_count s | None \<Rightarrow> 0)"

definition quetz_ipc_native_region :: "shared_data option \<Rightarrow> u32 \<Rightarrow> (u32 \<times> u32) option" where
  "quetz_ipc_native_region sh index =
     (case sh of None \<Rightarrow> None
      | Some s \<Rightarrow> if index \<ge> native_region_count s then None
                  else Some (nr_base (native_regions s ! unat index), nr_size (native_regions s ! unat index)))"

text \<open>The result is the offset of the backing bytes in the segment.\<close>

definition quetz_ipc_native_ram :: "u64 \<Rightarrow> shared_data option \<Rightarrow> u32 \<Rightarrow> u32 \<Rightarrow> nat option" where
  "quetz_ipc_native_ram mapped sh base sz =
     (case sh of None \<Rightarrow> None
      | Some s \<Rightarrow>
          (case find (\<lambda>i. nr_base (native_regions s ! i) = base \<and> nr_size (native_regions s ! i) = sz)
                  [0..<unat (native_region_count s)] of
             None \<Rightarrow> None | Some i \<Rightarrow> quetz_native_ram mapped s (of_nat i)))"

record m68k_cache_env =
  quetz_cache_region_base :: "u32 list"
  quetz_cache_region_size :: "u32 list"
  quetz_cache_region_count :: u32
  quetz_cache_ram :: bool

fun copy_cache_regions :: "shared_data option \<Rightarrow> nat list \<Rightarrow> m68k_cache_env \<Rightarrow> m68k_cache_env option" where
  "copy_cache_regions sh [] env = Some env"
| "copy_cache_regions sh (i # is) env =
     (case quetz_ipc_native_region sh (of_nat i) of
        None \<Rightarrow> None
      | Some (b, s) \<Rightarrow> copy_cache_regions sh is
          (env\<lparr>quetz_cache_region_base := (quetz_cache_region_base env)[i := b],
               quetz_cache_region_size := (quetz_cache_region_size env)[i := s]\<rparr>))"

definition quetz_coldfire_configure_cache :: "m68k_cache_env \<Rightarrow> shared_data option \<Rightarrow> m68k_cache_env option" where
  "quetz_coldfire_configure_cache env sh =
     (let count = quetz_ipc_native_region_count sh
      in if count > QUETZ_MAX_NATIVE_REGIONS then None
         else case copy_cache_regions sh [0..<unat count] env of
                None \<Rightarrow> None
              | Some e \<Rightarrow> Some (e\<lparr>quetz_cache_region_count := count, quetz_cache_ram := (count \<noteq> 0)\<rparr>))"

section \<open>IRQ drain\<close>

record irq_change =
  ic_vcore :: u32
  ic_line :: u32
  ic_level :: u32

definition read_irq :: "shared_data \<Rightarrow> nat \<Rightarrow> nat \<Rightarrow> irq_change" where
  "read_irq sh v l = \<lparr>ic_vcore = of_nat v, ic_line = of_nat l, ic_level = irq_level (irq_slot sh v l)\<rparr>"

definition shadow_seq :: "nat \<Rightarrow> nat \<Rightarrow> u32 \<Rightarrow> ipc_client \<Rightarrow> ipc_client" where
  "shadow_seq v l s cl = cl\<lparr>cl_irq_seq := (cl_irq_seq cl)(v := (cl_irq_seq cl v)(l := s))\<rparr>"

text \<open>The scan over the slots: the client, the changes written and whether the scan was complete.\<close>

fun drain_loop :: "shared_data \<Rightarrow> u32 \<Rightarrow> (nat \<times> nat) list \<Rightarrow> ipc_client \<Rightarrow> u32 \<Rightarrow>
    ipc_client \<times> irq_change list \<times> bool" where
  "drain_loop sh max_out [] cl n = (cl, [], True)"
| "drain_loop sh max_out ((v, l) # ss) cl n =
     (let s = irq_seq (irq_slot sh v l)
      in if s = cl_irq_seq cl v l then drain_loop sh max_out ss cl n
         else
           let cl1 = shadow_seq v l s cl; c = read_irq sh v l
           in if n + 1 = max_out then (cl1, [c], False)
              else case drain_loop sh max_out ss cl1 (n + 1) of (cl2, cs, fin) \<Rightarrow> (cl2, c # cs, fin))"

definition drain_slots :: "shared_data \<Rightarrow> u32 \<Rightarrow> (nat \<times> nat) list" where
  "drain_slots sh max_lines =
     List.product [0..<unat (min (num_cores sh) (ucast QUETZ_MAX_MMIO_VCORES))]
       [0..<unat (min max_lines QUETZ_MAX_IRQ_LINES)]"

definition quetz_ipc_irq_drain :: "shared_data \<Rightarrow> ipc_client \<Rightarrow> u32 \<Rightarrow> u32 \<Rightarrow> ipc_client \<times> irq_change list" where
  "quetz_ipc_irq_drain sh cl max_lines max_out =
     (if max_out = 0 then (cl, [])
      else
        let gen = irq_generation sh
        in if gen = cl_irq_gen cl then (cl, [])
           else case drain_loop sh max_out (drain_slots sh max_lines) cl 0 of
                  (cl', cs, fin) \<Rightarrow> (if fin then cl'\<lparr>cl_irq_gen := gen\<rparr> else cl', cs))"

section \<open>Reset epochs\<close>

lemma store_epoch_fields [simp]:
  "cpu_reset_epoch (store_epoch v e sh) = (cpu_reset_epoch sh)(v := e)"
  "shm_magic (store_epoch v e sh) = shm_magic sh"
  "native_region_count (store_epoch v e sh) = native_region_count sh"
  "native_regions (store_epoch v e sh) = native_regions sh"
  "store_epoch v e (store_epoch v e sh) = store_epoch v e sh"
  by (simp_all add: store_epoch_def)

lemma store_epochs_in_at:
  "store_epochs_in v e cls cs segs s =
     (if \<exists>c \<in> set cs. \<exists>cl. cls c = Some cl \<and> cl_seg cl = s then store_epoch v e (segs s) else segs s)"
proof (induction cs arbitrary: segs)
  case (Cons c cs)
  show ?case by (cases "cls c") (auto simp: Cons.IH)
qed simp

lemma publish_epochs_fields [simp]:
  "cpu_reset_epoch (publish_epochs es vs sh) v = (if v \<in> set vs then es v else cpu_reset_epoch sh v)"
  "shm_magic (publish_epochs es vs sh) = shm_magic sh"
  "native_region_count (publish_epochs es vs sh) = native_region_count sh"
  "native_regions (publish_epochs es vs sh) = native_regions sh"
  by (induction vs arbitrary: sh) auto

text \<open>Any sequence of attaches, detaches and CPU resets in one process. A new handle is not in use,
  and a detached one is registered.\<close>

inductive ipc_reachable :: "ipc_process \<Rightarrow> bool" where
  init: "ipc_reachable \<lparr>reset_clients = [], reset_epochs = (\<lambda>_. 0), clients = (\<lambda>_. None), segments = segs\<rparr>"
| attach: "ipc_reachable p \<Longrightarrow> clients p h = None \<Longrightarrow> quetz_ipc_attach (Some h) obj p = (p', r) \<Longrightarrow> ipc_reachable p'"
| detach: "ipc_reachable p \<Longrightarrow> clients p h \<noteq> None \<Longrightarrow> quetz_ipc_detach (Some h) p = p' \<Longrightarrow> ipc_reachable p'"
| reset: "ipc_reachable p \<Longrightarrow> quetz_ipc_cpu_reset v p = Inr p' \<Longrightarrow> ipc_reachable p'"

definition epochs_ok :: "ipc_process \<Rightarrow> bool" where
  "epochs_ok p \<longleftrightarrow> distinct (reset_clients p) \<and> set (reset_clients p) = dom (clients p) \<and>
     (\<forall>h cl v. clients p h = Some cl \<longrightarrow> v < 256 \<longrightarrow>
        cpu_reset_epoch (segments p (cl_seg cl)) v = reset_epochs p v)"

lemma attach_epochs:
  assumes "epochs_ok p" "clients p h = None" "quetz_ipc_attach (Some h) obj p = (p', r)"
  shows "epochs_ok p'"
proof (cases "map_shmem obj (segments p)")
  case None
  then show ?thesis using assms by (simp add: quetz_ipc_attach_def)
next
  case (Some cl)
  then have p': "p' = p\<lparr>segments := (segments p)(cl_seg cl :=
      publish_epochs (reset_epochs p) [0..<256] (segments p (cl_seg cl))),
      clients := (clients p)(h \<mapsto> cl), reset_clients := h # reset_clients p\<rparr>"
    using assms(3) by (simp add: quetz_ipc_attach_def ipc_constants)
  have "h \<notin> set (reset_clients p)" using assms(1,2) by (auto simp: epochs_ok_def)
  then show ?thesis using assms(1) unfolding p' by (auto simp: epochs_ok_def)
qed

lemma reset_epochs_ok:
  assumes "epochs_ok p" "quetz_ipc_cpu_reset v p = Inr p'"
  shows "epochs_ok p'"
proof -
  define epoch where "epoch = reset_epochs p (unat v) + 1"
  have p': "p' = p\<lparr>reset_epochs := (reset_epochs p)(unat v := epoch),
      segments := store_epochs_in (unat v) epoch (clients p) (reset_clients p) (segments p)\<rparr>"
    using assms(2) by (auto simp: quetz_ipc_cpu_reset_def Let_def epoch_def split: if_splits)
  have "cpu_reset_epoch (store_epochs_in (unat v) epoch (clients p) (reset_clients p) (segments p) (cl_seg cl)) u =
      ((reset_epochs p)(unat v := epoch)) u" if "clients p h = Some cl" "u < 256" for h cl u
  proof -
    have "h \<in> set (reset_clients p)" using that assms(1) by (auto simp: epochs_ok_def)
    then have ex: "\<exists>c \<in> set (reset_clients p). \<exists>cl'. clients p c = Some cl' \<and> cl_seg cl' = cl_seg cl"
      using that by blast
    have "cpu_reset_epoch (segments p (cl_seg cl)) u = reset_epochs p u"
      using that assms(1) by (auto simp: epochs_ok_def)
    then show ?thesis unfolding store_epochs_in_at if_P [OF ex] by simp
  qed
  then show ?thesis using assms(1) unfolding p' by (auto simp: epochs_ok_def)
qed

section \<open>Properties\<close>

text \<open>C31. Reset epochs reach every client: after any sequence of attaches, detaches and CPU resets,
  the clients notified by a reset are exactly the attached ones, without repetition, and every
  segment a client has mapped carries the current reset epoch of every vCPU, whether the reset came
  before or after the attach.\<close>

theorem reset_epochs_published:
  assumes "ipc_reachable p"
  shows "distinct (reset_clients p) \<and> set (reset_clients p) = dom (clients p) \<and>
    (\<forall>h cl v. clients p h = Some cl \<longrightarrow> v < 256 \<longrightarrow>
       cpu_reset_epoch (segments p (cl_seg cl)) v = reset_epochs p v)"
proof -
  from assms have "epochs_ok p"
  proof (induction rule: ipc_reachable.induct)
    case (init segs)
    then show ?case by (simp add: epochs_ok_def)
  next
    case (detach p h p')
    then show ?case by (auto simp: epochs_ok_def quetz_ipc_detach_def split: if_splits)
  qed (blast intro: attach_epochs reset_epochs_ok)+
  then show ?thesis by (simp add: epochs_ok_def)
qed

definition sample_segment :: shared_data where
  "sample_segment = \<lparr>num_cores = 2, sim_time = 0, sim_cycles = 0, child_attached = 0,
     mmio_slot = (\<lambda>_. zero_slot), mmio_req = (\<lambda>_. zero_req), irq_slot = (\<lambda>_ _. zero_irq),
     irq_generation = 0, cpu_reset_epoch = (\<lambda>_. 0), native_region_count = 0,
     native_regions = replicate 2 zero_region, native_bytes = (\<lambda>_. 0), shm_magic = QUETZ_SHM_MAGIC\<rparr>"

definition sample_object :: shm_object where
  "sample_object = \<lparr>so_size = Some 0x100000, so_hdr_mapped = True, so_shmSegSize = 0x100000, so_offset = 64,
     so_map = Some 0x10000000, so_seg = 5\<rparr>"

definition sample_process :: ipc_process where
  "sample_process = \<lparr>reset_clients = [], reset_epochs = (\<lambda>_. 0), clients = (\<lambda>_. None),
     segments = (\<lambda>_. sample_segment)\<rparr>"

definition sample_client :: ipc_client where
  "sample_client = \<lparr>cl_seg = 5, cl_base = 0x10000040, cl_map_size = 0x100000, cl_irq_seq = (\<lambda>_ _. 0), cl_irq_gen = 0\<rparr>"

lemma sample_map: "map_shmem (Some sample_object) (\<lambda>_. sample_segment) = Some sample_client"
  by (simp add: map_shmem_def sample_client_def sample_object_def sample_segment_def
      header_rejected_def sizeof_internal_def sizeof_shared_def quetz_eval quetz_native_regions_valid_def
      zero_region_def Let_def)

theorem reset_epochs_published_witness:
  "\<exists>p. ipc_reachable p \<and> reset_clients p = [7] \<and> cpu_reset_epoch (segments p 5) 1 = reset_epochs p 1 \<and>
     reset_epochs p 1 = 1"
proof -
  let ?p0 = "sample_process"
  obtain p1 where r: "quetz_ipc_cpu_reset 1 ?p0 = Inr p1"
    by (auto simp: quetz_ipc_cpu_reset_def ipc_constants Let_def word_le_nat_alt)
  have p1: "reset_clients p1 = []" "clients p1 = (\<lambda>_. None)" "segments p1 = (\<lambda>_. sample_segment)" "reset_epochs p1 1 = 1"
    using r by (auto simp: quetz_ipc_cpu_reset_def Let_def sample_process_def split: if_splits)
  define p2 where "p2 = fst (quetz_ipc_attach (Some 7) (Some sample_object) p1)"
  then have a: "quetz_ipc_attach (Some 7) (Some sample_object) p1 = (p2, snd (quetz_ipc_attach (Some 7) (Some sample_object) p1))"
    by simp
  have p2: "reset_clients p2 = [7]" "reset_epochs p2 1 = 1"
    by (simp_all add: p2_def quetz_ipc_attach_def p1 sample_map del: One_nat_def)
  have cl: "clients p2 7 = Some sample_client" "cl_seg sample_client = 5"
    by (simp_all add: p2_def quetz_ipc_attach_def p1(1-3) sample_map) (simp add: sample_client_def)
  have "ipc_reachable p1" using ipc_reachable.reset [OF ipc_reachable.init r [unfolded sample_process_def]] .
  then have r2: "ipc_reachable p2" by (rule ipc_reachable.attach [OF _ _ a]) (simp add: p1(2))
  have "cpu_reset_epoch (segments p2 5) 1 = reset_epochs p2 1"
    using reset_epochs_published [OF r2] cl by (metis one_less_numeral_iff semiring_norm(76))
  then show ?thesis using r2 p2 cl by auto
qed

text \<open>Only a sound segment is attached: a successful attach means that the header and the whole
  shared structure lie inside the mapping, the mapping lies inside the segment, the layout magic
  is right and the native RAM table is valid, and nothing but the reset epochs of that segment
  is written.\<close>

theorem attach_validates:
  assumes "quetz_ipc_attach fresh obj p = (p', Some h)" "obj = Some so" "so_size so = Some n" "n < 2 ^ 63"
  shows "clients p' h \<noteq> None \<and> fresh = Some h \<and>
    unat (so_offset so) + unat sizeof_shared \<le> unat (so_shmSegSize so) \<and> int (unat (so_shmSegSize so)) \<le> n \<and>
    shm_magic (segments p' (so_seg so)) = QUETZ_SHM_MAGIC \<and>
    quetz_native_regions_valid (cl_base (the (clients p' h))) (segments p' (so_seg so)) \<and>
    (\<forall>s. s \<noteq> so_seg so \<longrightarrow> segments p' s = segments p s)"
proof -
  obtain cl where fr: "fresh = Some h" and ms: "map_shmem obj (segments p) = Some cl"
    and p': "p' = p\<lparr>segments := (segments p)(cl_seg cl :=
      publish_epochs (reset_epochs p) [0..<unat QUETZ_MAX_MMIO_VCORES] (segments p (cl_seg cl))),
      clients := (clients p)(h \<mapsto> cl), reset_clients := h # reset_clients p\<rparr>"
    using assms(1) by (auto simp: quetz_ipc_attach_def split: option.splits)
  have hdr: "\<not> header_rejected (so_shmSegSize so) (word_of_int n) (so_offset so)" "0 < n"
    and cl: "cl_seg cl = so_seg so" "shm_magic (segments p (so_seg so)) = QUETZ_SHM_MAGIC"
      "quetz_native_regions_valid (cl_base cl) (segments p (so_seg so))"
    using ms assms(2,3) by (auto simp: map_shmem_def Let_def split: option.splits if_splits)
  have le: "so_offset so \<le> so_shmSegSize so" "sizeof_shared \<le> so_shmSegSize so - so_offset so"
      "so_shmSegSize so \<le> word_of_int n"
    using hdr(1) by (auto simp: header_rejected_def not_less)
  have "unat (so_shmSegSize so - so_offset so) = unat (so_shmSegSize so) - unat (so_offset so)"
    using le(1) by (simp add: unat_sub)
  then have "unat (so_offset so) + unat sizeof_shared \<le> unat (so_shmSegSize so)"
    using le(1,2) by (simp add: word_le_nat_alt)
  moreover have "uint (word_of_int n :: u64) = n"
    using hdr(2) assms(4) by (simp add: uint_word_of_int)
  then have "int (unat (so_shmSegSize so)) \<le> n"
    using le(3) by (simp add: word_le_def)
  moreover have "quetz_native_regions_valid (cl_base cl) (publish_epochs es vs (segments p (so_seg so)))" for es vs
    using cl(3) by (simp add: quetz_native_regions_valid_def)
  ultimately show ?thesis using fr p' cl by simp
qed

theorem attach_validates_witness:
  "case quetz_ipc_attach (Some 7) (Some sample_object) sample_process of
     (p', r) \<Rightarrow> r = Some 7 \<and> shm_magic (segments p' 5) = QUETZ_SHM_MAGIC"
proof -
  obtain p' where a: "quetz_ipc_attach (Some 7) (Some sample_object) sample_process = (p', Some 7)"
    by (simp add: quetz_ipc_attach_def sample_process_def sample_map)
  from attach_validates [OF a refl, of "0x100000"] a show ?thesis by (simp add: sample_object_def)
qed

end
