(* ===== verification/Quetz_Mailbox_Protocol.thy ===== *)
theory Quetz_Mailbox_Protocol
  imports Quetz_Ipc_Client
begin

text \<open>
  The synchronous MMIO mailbox of one vCPU as a concurrent protocol. Guest threads run
  \<open>quetz_ipc_mmio_read\<close> and \<open>quetz_ipc_mmio_write\<close> (with \<open>quetz_ipc_lock\<close>, \<open>clear_slot\<close>,
  \<open>wait_slot\<close> and \<open>quetz_ipc_unlock\<close>), SST runs the mailbox poll of
  \<open>QuetzCPU::pollMmioSyncMailbox\<close> and answers with \<open>postResponse\<close>. Every load and store is a step
  and the steps of all threads interleave; a compare-and-swap that fails and a futex wait
  that times out leave the state unchanged and are not steps. The theorem shows that calls are
  serialised and that each gets the answer SST gave to its own request.
\<close>

section \<open>Programs\<close>

record mmio_call =
  c_write :: bool
  c_addr :: u64
  c_size :: u32
  c_val :: u64

record mbox_mem =
  mm_req :: mmio_sync_request
  mm_slot :: mmio_response_slot

datatype thread_pc =
    T_idle
  | T_lock mmio_call
  | T_clear_ready mmio_call
  | T_clear_value mmio_call
  | T_addr mmio_call
  | T_size mmio_call
  | T_wval mmio_call
  | T_cmd mmio_call
  | T_pending mmio_call
  | T_wait mmio_call
  | T_value mmio_call
  | T_release mmio_call u64
  | T_unlock mmio_call u64

abbreviation upd_req :: "(mmio_sync_request \<Rightarrow> mmio_sync_request) \<Rightarrow> mbox_mem \<Rightarrow> mbox_mem" where
  "upd_req f m \<equiv> m\<lparr>mm_req := f (mm_req m)\<rparr>"

abbreviation upd_slot :: "(mmio_response_slot \<Rightarrow> mmio_response_slot) \<Rightarrow> mbox_mem \<Rightarrow> mbox_mem" where
  "upd_slot f m \<equiv> m\<lparr>mm_slot := f (mm_slot m)\<rparr>"

text \<open>\<open>quetz_ipc_lock\<close>: one attempt of the compare-and-swap.\<close>

definition quetz_ipc_lock_try :: "mbox_mem \<Rightarrow> mbox_mem option" where
  "quetz_ipc_lock_try m = (if busy (mm_req m) = 0 then Some (upd_req (\<lambda>r. r\<lparr>busy := 1\<rparr>) m) else None)"

definition quetz_ipc_unlock :: "mbox_mem \<Rightarrow> mbox_mem" where
  "quetz_ipc_unlock m = upd_req (\<lambda>r. r\<lparr>busy := 0\<rparr>) m"

text \<open>\<open>wait_slot\<close>: the load of the flag, the load of the value, the release of the slot.\<close>

definition wait_slot_poll :: "mbox_mem \<Rightarrow> bool" where
  "wait_slot_poll m \<longleftrightarrow> ready (mm_slot m) \<noteq> 0"

definition call_cmd :: "mmio_call \<Rightarrow> u32" where
  "call_cmd c = cmd_code (if c_write c then CMD_MMIO_WRITE_REQ else CMD_MMIO_READ_REQ)"

definition call_wval :: "mmio_call \<Rightarrow> u64" where
  "call_wval c = (if c_write c then c_val c else 0)"

fun thread_step :: "mbox_mem \<Rightarrow> thread_pc \<Rightarrow> (mbox_mem \<times> thread_pc) option" where
  "thread_step m T_idle = None"
| "thread_step m (T_lock c) = map_option (\<lambda>m'. (m', T_clear_ready c)) (quetz_ipc_lock_try m)"
| "thread_step m (T_clear_ready c) = Some (upd_slot (\<lambda>s. s\<lparr>ready := 0\<rparr>) m, T_clear_value c)"
| "thread_step m (T_clear_value c) = Some (upd_slot (\<lambda>s. s\<lparr>resp_value := 0\<rparr>) m, T_addr c)"
| "thread_step m (T_addr c) = Some (upd_req (\<lambda>r. r\<lparr>req_addr := c_addr c\<rparr>) m, T_size c)"
| "thread_step m (T_size c) = Some (upd_req (\<lambda>r. r\<lparr>req_size := c_size c\<rparr>) m, T_wval c)"
| "thread_step m (T_wval c) = Some (upd_req (\<lambda>r. r\<lparr>write_val := call_wval c\<rparr>) m, T_cmd c)"
| "thread_step m (T_cmd c) = Some (upd_req (\<lambda>r. r\<lparr>req_cmd := call_cmd c\<rparr>) m, T_pending c)"
| "thread_step m (T_pending c) = Some (upd_req (\<lambda>r. r\<lparr>pending := 1\<rparr>) m, T_wait c)"
| "thread_step m (T_wait c) = (if wait_slot_poll m then Some (m, T_value c) else None)"
| "thread_step m (T_value c) = Some (m, T_release c (resp_value (mm_slot m)))"
| "thread_step m (T_release c v) = Some (upd_slot (\<lambda>s. s\<lparr>ready := 0\<rparr>) m, T_unlock c v)"
| "thread_step m (T_unlock c v) = Some (quetz_ipc_unlock m, T_idle)"

text \<open>The guard of both calls; a call that fails it returns at once without touching the mailbox.\<close>

definition mmio_call_guard :: "shared_data option \<Rightarrow> u32 \<Rightarrow> bool" where
  "mmio_call_guard sd vcpu \<longleftrightarrow> (case sd of None \<Rightarrow> False
     | Some s \<Rightarrow> \<not> (ucast vcpu \<ge> num_cores s \<or> vcpu \<ge> QUETZ_MAX_MMIO_VCORES))"

definition quetz_ipc_mmio_read :: "shared_data option \<Rightarrow> u32 \<Rightarrow> u64 \<Rightarrow> u32 \<Rightarrow> thread_pc" where
  "quetz_ipc_mmio_read sd vcpu addr sz =
     (if mmio_call_guard sd vcpu then T_lock \<lparr>c_write = False, c_addr = addr, c_size = sz, c_val = 0\<rparr> else T_idle)"

definition quetz_ipc_mmio_write :: "shared_data option \<Rightarrow> u32 \<Rightarrow> u64 \<Rightarrow> u32 \<Rightarrow> u64 \<Rightarrow> thread_pc" where
  "quetz_ipc_mmio_write sd vcpu addr sz value =
     (if mmio_call_guard sd vcpu then T_lock \<lparr>c_write = True, c_addr = addr, c_size = sz, c_val = value\<rparr> else T_idle)"

text \<open>SST's side: the request is copied field by field, the slot is released, the request is served
  and answered.\<close>

type_synonym mreq = "u32 \<times> u64 \<times> u32 \<times> u64"

datatype server_pc =
    S_idle
  | S_cmd
  | S_addr u32
  | S_size u32 u64
  | S_wval u32 u64 u32
  | S_clear mreq
  | S_serve mreq
  | S_value u64
  | S_ready

fun server_step :: "mbox_mem \<Rightarrow> server_pc \<Rightarrow> (mbox_mem \<times> server_pc) option" where
  "server_step m S_idle = (if pending (mm_req m) = 0 then None else Some (m, S_cmd))"
| "server_step m S_cmd = Some (m, S_addr (req_cmd (mm_req m)))"
| "server_step m (S_addr c) = Some (m, S_size c (req_addr (mm_req m)))"
| "server_step m (S_size c a) = Some (m, S_wval c a (req_size (mm_req m)))"
| "server_step m (S_wval c a s) = Some (m, S_clear (c, a, s, write_val (mm_req m)))"
| "server_step m (S_clear r) = Some (upd_req (\<lambda>r. r\<lparr>pending := 0\<rparr>) m, S_serve r)"
| "server_step m (S_serve r) = None"
| "server_step m (S_value v) = Some (upd_slot (\<lambda>s. s\<lparr>resp_value := v\<rparr>) m, S_ready)"
| "server_step m S_ready = Some (upd_slot (\<lambda>s. s\<lparr>ready := 1\<rparr>) m, S_idle)"

text \<open>The system, with the log of answers SST gave and the log of calls that returned.\<close>

record mbox =
  mb_mem :: mbox_mem
  mb_thr :: "nat \<Rightarrow> thread_pc"
  mb_srv :: server_pc
  mb_served :: "(mreq \<times> u64) list"
  mb_done :: "(mreq \<times> u64) list"

definition request_of :: "mmio_call \<Rightarrow> mreq" where
  "request_of c = (call_cmd c, c_addr c, c_size c, call_wval c)"

fun returned :: "thread_pc \<Rightarrow> (mreq \<times> u64) list" where
  "returned (T_unlock c v) = [(request_of c, v)]"
| "returned _ = []"

inductive mb_step :: "mbox \<Rightarrow> mbox \<Rightarrow> bool" where
  call: "mb_thr s t = T_idle \<Longrightarrow>
     pc = quetz_ipc_mmio_read sd vcpu a sz \<or> pc = quetz_ipc_mmio_write sd vcpu a sz v \<Longrightarrow>
     mb_step s (s\<lparr>mb_thr := (mb_thr s)(t := pc)\<rparr>)"
| thread: "thread_step (mb_mem s) (mb_thr s t) = Some (m, pc) \<Longrightarrow>
     mb_step s (s\<lparr>mb_mem := m, mb_thr := (mb_thr s)(t := pc), mb_done := mb_done s @ returned (mb_thr s t)\<rparr>)"
| server: "server_step (mb_mem s) (mb_srv s) = Some (m, pc) \<Longrightarrow>
     mb_step s (s\<lparr>mb_mem := m, mb_srv := pc\<rparr>)"
| serve: "mb_srv s = S_serve r \<Longrightarrow>
     mb_step s (s\<lparr>mb_srv := S_value v, mb_served := mb_served s @ [(r, v)]\<rparr>)"

definition mb_init :: mbox where
  "mb_init = \<lparr>mb_mem = \<lparr>mm_req = zero_req, mm_slot = zero_slot\<rparr>, mb_thr = (\<lambda>_. T_idle), mb_srv = S_idle,
     mb_served = [], mb_done = []\<rparr>"

inductive mb_reachable :: "mbox \<Rightarrow> bool" where
  init: "mb_reachable mb_init"
| step: "mb_reachable s \<Longrightarrow> mb_step s s' \<Longrightarrow> mb_reachable s'"

section \<open>The invariant\<close>

fun crit :: "thread_pc \<Rightarrow> bool" where
  "crit T_idle = False" | "crit (T_lock c) = False" | "crit _ = True"

definition quiet :: "mbox \<Rightarrow> bool" where
  "quiet s \<longleftrightarrow> mb_srv s = S_idle \<and> pending (mm_req (mb_mem s)) = 0 \<and> mb_served s = mb_done s"

definition answered :: "mbox \<Rightarrow> mreq \<Rightarrow> u64 \<Rightarrow> bool" where
  "answered s r v \<longleftrightarrow> mb_srv s = S_idle \<and> pending (mm_req (mb_mem s)) = 0 \<and>
     mb_served s = mb_done s @ [(r, v)]"

definition mem_request :: "mbox_mem \<Rightarrow> mreq" where
  "mem_request m = (req_cmd (mm_req m), req_addr (mm_req m), req_size (mm_req m), write_val (mm_req m))"

text \<open>What SST has copied so far agrees with the request in the mailbox.\<close>

fun copied :: "server_pc \<Rightarrow> mreq \<Rightarrow> bool" where
  "copied S_idle r = True"
| "copied S_cmd r = True"
| "copied (S_addr c) (c', a', s', w') = (c = c')"
| "copied (S_size c a) (c', a', s', w') = (c = c' \<and> a = a')"
| "copied (S_wval c a s) (c', a', s', w') = (c = c' \<and> a = a' \<and> s = s')"
| "copied (S_clear r') r = (r' = r)"
| "copied _ r = False"

definition waiting :: "mbox \<Rightarrow> mreq \<Rightarrow> bool" where
  "waiting s r \<longleftrightarrow> mem_request (mb_mem s) = r \<and>
     (pending (mm_req (mb_mem s)) = 1 \<and> ready (mm_slot (mb_mem s)) = 0 \<and> mb_served s = mb_done s \<and> copied (mb_srv s) r \<or>
      pending (mm_req (mb_mem s)) = 0 \<and> ready (mm_slot (mb_mem s)) = 0 \<and> mb_served s = mb_done s \<and> mb_srv s = S_serve r \<or>
      pending (mm_req (mb_mem s)) = 0 \<and> ready (mm_slot (mb_mem s)) = 0 \<and>
        (\<exists>v. mb_served s = mb_done s @ [(r, v)] \<and>
          (mb_srv s = S_value v \<or> mb_srv s = S_ready \<and> resp_value (mm_slot (mb_mem s)) = v)) \<or>
      ready (mm_slot (mb_mem s)) = 1 \<and> answered s r (resp_value (mm_slot (mb_mem s))))"

fun phase :: "mbox \<Rightarrow> thread_pc \<Rightarrow> bool" where
  "phase s T_idle = True"
| "phase s (T_lock c) = True"
| "phase s (T_clear_ready c) = quiet s"
| "phase s (T_clear_value c) = (quiet s \<and> ready (mm_slot (mb_mem s)) = 0)"
| "phase s (T_addr c) = (quiet s \<and> ready (mm_slot (mb_mem s)) = 0)"
| "phase s (T_size c) = (quiet s \<and> ready (mm_slot (mb_mem s)) = 0 \<and> req_addr (mm_req (mb_mem s)) = c_addr c)"
| "phase s (T_wval c) = (quiet s \<and> ready (mm_slot (mb_mem s)) = 0 \<and> req_addr (mm_req (mb_mem s)) = c_addr c \<and>
     req_size (mm_req (mb_mem s)) = c_size c)"
| "phase s (T_cmd c) = (quiet s \<and> ready (mm_slot (mb_mem s)) = 0 \<and> req_addr (mm_req (mb_mem s)) = c_addr c \<and>
     req_size (mm_req (mb_mem s)) = c_size c \<and> write_val (mm_req (mb_mem s)) = call_wval c)"
| "phase s (T_pending c) = (quiet s \<and> ready (mm_slot (mb_mem s)) = 0 \<and> mem_request (mb_mem s) = request_of c)"
| "phase s (T_wait c) = waiting s (request_of c)"
| "phase s (T_value c) = (ready (mm_slot (mb_mem s)) = 1 \<and> answered s (request_of c) (resp_value (mm_slot (mb_mem s))))"
| "phase s (T_release c v) = (ready (mm_slot (mb_mem s)) = 1 \<and> answered s (request_of c) v)"
| "phase s (T_unlock c v) = (ready (mm_slot (mb_mem s)) = 0 \<and> answered s (request_of c) v)"

definition mb_inv :: "mbox \<Rightarrow> bool" where
  "mb_inv s \<longleftrightarrow> (\<forall>t. phase s (mb_thr s t)) \<and> (\<forall>t t'. crit (mb_thr s t) \<longrightarrow> crit (mb_thr s t') \<longrightarrow> t = t') \<and>
     (if busy (mm_req (mb_mem s)) = 0 then (\<forall>t. \<not> crit (mb_thr s t)) \<and> quiet s
      else \<exists>t. crit (mb_thr s t))"

lemma phase_not_crit [simp]: "\<not> crit pc \<Longrightarrow> phase s pc"
  by (cases pc) auto

lemmas mb_facts = quiet_def answered_def waiting_def mem_request_def request_of_def quetz_ipc_lock_try_def
  quetz_ipc_unlock_def wait_slot_poll_def

lemma owner_step:
  assumes "crit (mb_thr s t)" "phase s (mb_thr s t)" "thread_step (mb_mem s) (mb_thr s t) = Some (m, pc)"
  defines "s' \<equiv> s\<lparr>mb_mem := m, mb_thr := (mb_thr s)(t := pc), mb_done := mb_done s @ returned (mb_thr s t)\<rparr>"
  shows "phase s' pc \<and> (if crit pc then busy (mm_req m) = busy (mm_req (mb_mem s)) else busy (mm_req m) = 0 \<and> quiet s')"
  using assms(1-3) unfolding s'_def
  by (cases "mb_thr s t") (auto simp: mb_facts split: if_splits)

lemma thread_inv:
  assumes inv: "mb_inv s" and st: "thread_step (mb_mem s) (mb_thr s t) = Some (m, pc)"
  shows "mb_inv (s\<lparr>mb_mem := m, mb_thr := (mb_thr s)(t := pc), mb_done := mb_done s @ returned (mb_thr s t)\<rparr>)"
    (is "mb_inv ?s")
proof (cases "crit (mb_thr s t)")
  case True
  have others: "\<not> crit (mb_thr s u)" if "u \<noteq> t" for u using inv True that unfolding mb_inv_def by blast
  have "busy (mm_req (mb_mem s)) \<noteq> 0" using inv True by (auto simp: mb_inv_def)
  then show ?thesis
    using owner_step [OF True _ st] inv others unfolding mb_inv_def by (auto split: if_splits)
next
  case False
  then obtain c where c: "mb_thr s t = T_lock c" using st by (cases "mb_thr s t") auto
  then have b: "busy (mm_req (mb_mem s)) = 0" "m = upd_req (\<lambda>r. r\<lparr>busy := 1\<rparr>) (mb_mem s)" "pc = T_clear_ready c"
    using st by (auto simp: quetz_ipc_lock_try_def split: if_splits)
  then show ?thesis
    using inv c by (auto simp: mb_inv_def quiet_def)
qed

text \<open>SST moves only while a call waits for it.\<close>

lemma server_owner:
  assumes "mb_inv s" "mb_srv s \<noteq> S_idle \<or> pending (mm_req (mb_mem s)) \<noteq> 0"
  obtains t c where "mb_thr s t = T_wait c" "waiting s (request_of c)" "ready (mm_slot (mb_mem s)) = 0"
    "busy (mm_req (mb_mem s)) \<noteq> 0"
proof -
  have b: "busy (mm_req (mb_mem s)) \<noteq> 0" using assms by (auto simp: mb_inv_def quiet_def)
  then obtain t where t: "crit (mb_thr s t)" "phase s (mb_thr s t)" using assms(1) by (auto simp: mb_inv_def)
  then have "\<exists>c. mb_thr s t = T_wait c \<and> ready (mm_slot (mb_mem s)) = 0"
    using assms(2) by (cases "mb_thr s t") (auto simp: quiet_def answered_def waiting_def)
  then show thesis using that t b by auto
qed

lemma server_phase_inv:
  assumes inv: "mb_inv s" and "mb_thr s t = T_wait c" and "busy (mm_req (mb_mem s)) \<noteq> 0"
    and "waiting s' (request_of c)" "mb_thr s' = mb_thr s" "busy (mm_req (mb_mem s')) = busy (mm_req (mb_mem s))"
  shows "mb_inv s'"
proof -
  have "\<not> crit (mb_thr s u)" if "u \<noteq> t" for u using inv assms(2) that unfolding mb_inv_def by (metis crit.simps(10))
  then have "phase s' (mb_thr s' u)" for u using assms by (cases "u = t") auto
  then show ?thesis using assms unfolding mb_inv_def by simp
qed

lemma server_inv:
  assumes inv: "mb_inv s" and st: "server_step (mb_mem s) (mb_srv s) = Some (m, pc)"
  shows "mb_inv (s\<lparr>mb_mem := m, mb_srv := pc\<rparr>)"
proof -
  have "mb_srv s \<noteq> S_idle \<or> pending (mm_req (mb_mem s)) \<noteq> 0" using st by (cases "mb_srv s") auto
  from server_owner [OF inv this] obtain t c where o: "mb_thr s t = T_wait c" "waiting s (request_of c)"
      "ready (mm_slot (mb_mem s)) = 0" "busy (mm_req (mb_mem s)) \<noteq> 0" .
  have "waiting (s\<lparr>mb_mem := m, mb_srv := pc\<rparr>) (request_of c) \<and> busy (mm_req m) = busy (mm_req (mb_mem s))"
    using o(2,3) st by (cases "mb_srv s") (auto simp: waiting_def answered_def mem_request_def request_of_def split: if_splits)
  then show ?thesis by (intro server_phase_inv [OF inv o(1,4)]) auto
qed

lemma serve_inv:
  assumes inv: "mb_inv s" and st: "mb_srv s = S_serve r"
  shows "mb_inv (s\<lparr>mb_srv := S_value v, mb_served := mb_served s @ [(r, v)]\<rparr>)"
proof -
  have "mb_srv s \<noteq> S_idle \<or> pending (mm_req (mb_mem s)) \<noteq> 0" using st by auto
  from server_owner [OF inv this] obtain t c where o: "mb_thr s t = T_wait c" "waiting s (request_of c)"
      "ready (mm_slot (mb_mem s)) = 0" "busy (mm_req (mb_mem s)) \<noteq> 0" .
  have "waiting (s\<lparr>mb_srv := S_value v, mb_served := mb_served s @ [(r, v)]\<rparr>) (request_of c)"
    using o(2,3) st by (auto simp: waiting_def answered_def)
  then show ?thesis by (intro server_phase_inv [OF inv o(1,4)]) auto
qed

lemma call_inv:
  assumes inv: "mb_inv s" and "mb_thr s t = T_idle" "\<not> crit pc"
  shows "mb_inv (s\<lparr>mb_thr := (mb_thr s)(t := pc)\<rparr>)"
proof -
  have ph: "phase (s\<lparr>mb_thr := f\<rparr>) q = phase s q" for f q
    by (cases q) (simp_all add: quiet_def answered_def waiting_def)
  show ?thesis using assms unfolding mb_inv_def ph
    by (auto simp: quiet_def) (metis crit.simps(1))
qed

lemma mb_reachable_inv: "mb_reachable s \<Longrightarrow> mb_inv s"
proof (induction rule: mb_reachable.induct)
  case init
  then show ?case by (simp add: mb_init_def mb_inv_def quiet_def zero_req_def)
next
  case (step s s')
  from step.hyps(2) step.IH show ?case
  proof cases
    case (call t pc sd vcpu a sz v)
    then have "\<not> crit pc" by (auto simp: quetz_ipc_mmio_read_def quetz_ipc_mmio_write_def split: if_splits)
    then show ?thesis using call call_inv step.IH by blast
  qed (auto intro: thread_inv server_inv serve_inv)
qed

section \<open>Properties\<close>

text \<open>C8. Every call gets its own answer, whatever the interleaving of guest threads and SST: the
  calls that have returned got exactly the answers SST gave, each to its own request and in the
  order SST served them, at most one answer is still to be collected, and no two threads are
  between lock and unlock at once. When no call is in progress the mailbox is free.\<close>

theorem mailbox_calls_matched:
  assumes "mb_reachable s"
  shows "mb_done s = take (length (mb_done s)) (mb_served s) \<and> length (mb_served s) \<le> length (mb_done s) + 1 \<and>
    (\<forall>t t'. crit (mb_thr s t) \<longrightarrow> crit (mb_thr s t') \<longrightarrow> t = t') \<and>
    ((\<forall>t. \<not> crit (mb_thr s t)) \<longrightarrow> mb_served s = mb_done s \<and> busy (mm_req (mb_mem s)) = 0 \<and>
       pending (mm_req (mb_mem s)) = 0)"
proof -
  note inv = mb_reachable_inv [OF assms]
  have "mb_done s = take (length (mb_done s)) (mb_served s) \<and> length (mb_served s) \<le> length (mb_done s) + 1"
  proof (cases "busy (mm_req (mb_mem s)) = 0")
    case False
    then obtain t where "crit (mb_thr s t)" "phase s (mb_thr s t)" using inv by (auto simp: mb_inv_def)
    then show ?thesis by (cases "mb_thr s t") (auto simp: quiet_def answered_def waiting_def)
  qed (use inv in \<open>auto simp: mb_inv_def quiet_def\<close>)
  then show ?thesis using inv by (auto simp: mb_inv_def quiet_def split: if_splits)
qed

text \<open>A read by thread 3 that has just been accepted.\<close>

definition sample_mbox :: mbox where
  "sample_mbox = mb_init\<lparr>mb_thr := (\<lambda>_. T_idle)(3 := T_lock \<lparr>c_write = False, c_addr = 64, c_size = 4, c_val = 0\<rparr>)\<rparr>"

lemma sample_call_reachable: "mb_reachable sample_mbox"
proof -
  have "quetz_ipc_mmio_read (Some sample_segment) 1 64 4 = T_lock \<lparr>c_write = False, c_addr = 64, c_size = 4, c_val = 0\<rparr>"
    by (simp add: quetz_ipc_mmio_read_def mmio_call_guard_def sample_segment_def ipc_constants word_le_nat_alt)
  then have "mb_step mb_init (mb_init\<lparr>mb_thr := (mb_thr mb_init)(3 := T_lock \<lparr>c_write = False, c_addr = 64, c_size = 4, c_val = 0\<rparr>)\<rparr>)"
    by (intro mb_step.call [where sd = "Some sample_segment" and vcpu = 1 and a = 64 and sz = 4]) (auto simp: mb_init_def)
  from mb_reachable.step [OF mb_reachable.init this] show ?thesis by (simp add: mb_init_def sample_mbox_def)
qed

theorem mailbox_calls_matched_witness:
  "mb_reachable sample_mbox \<and> mb_thr sample_mbox 3 \<noteq> T_idle \<and> mb_served sample_mbox = mb_done sample_mbox"
proof -
  have "\<not> crit (mb_thr sample_mbox t)" for t by (simp add: sample_mbox_def)
  then have "mb_served sample_mbox = mb_done sample_mbox"
    using mailbox_calls_matched [OF sample_call_reachable] by blast
  moreover have "mb_thr sample_mbox 3 \<noteq> T_idle" by (simp add: sample_mbox_def)
  ultimately show ?thesis using sample_call_reachable by blast
qed

text \<open>C28. The protocol cannot get stuck: as long as some call is in progress, a guest thread or SST can
  take a step, or SST is serving the request of a waiting call.\<close>

theorem mailbox_progress:
  assumes "mb_reachable s" "mb_thr s t \<noteq> T_idle"
  shows "(\<exists>u. thread_step (mb_mem s) (mb_thr s u) \<noteq> None) \<or> server_step (mb_mem s) (mb_srv s) \<noteq> None \<or>
    (\<exists>u c. mb_thr s u = T_wait c \<and> mb_srv s = S_serve (request_of c))"
proof -
  note inv = mb_reachable_inv [OF assms(1)]
  show ?thesis
  proof (cases "busy (mm_req (mb_mem s)) = 0")
    case True
    then have "\<not> crit (mb_thr s t)" using inv by (simp add: mb_inv_def)
    then obtain c where "mb_thr s t = T_lock c" using assms(2) by (cases "mb_thr s t") auto
    then have "thread_step (mb_mem s) (mb_thr s t) \<noteq> None" using True by (simp add: quetz_ipc_lock_try_def)
    then show ?thesis by blast
  next
    case False
    then obtain u where u: "crit (mb_thr s u)" "phase s (mb_thr s u)" using inv by (auto simp: mb_inv_def)
    show ?thesis
    proof (cases "\<exists>c. mb_thr s u = T_wait c")
      case True
      then obtain c where c: "mb_thr s u = T_wait c" "waiting s (request_of c)" using u by auto
      then show ?thesis
        by (cases "mb_srv s") (auto simp: waiting_def answered_def wait_slot_poll_def intro!: exI [of _ u])
    next
      case False
      then have "thread_step (mb_mem s) (mb_thr s u) \<noteq> None" using u(1) by (cases "mb_thr s u") auto
      then show ?thesis by blast
    qed
  qed
qed

theorem mailbox_progress_witness:
  "mb_thr sample_mbox 3 \<noteq> T_idle \<and>
   ((\<exists>u. thread_step (mb_mem sample_mbox) (mb_thr sample_mbox u) \<noteq> None) \<or>
    server_step (mb_mem sample_mbox) (mb_srv sample_mbox) \<noteq> None \<or>
    (\<exists>u c. mb_thr sample_mbox u = T_wait c \<and> mb_srv sample_mbox = S_serve (request_of c)))"
proof -
  have busy: "mb_thr sample_mbox 3 \<noteq> T_idle" by (simp add: sample_mbox_def)
  from mailbox_progress [OF sample_call_reachable busy] busy show ?thesis by blast
qed

end
