(* ===== verification/Quetz_Irq_Mailbox.thy ===== *)
theory Quetz_Irq_Mailbox
  imports Quetz_Ipc_Client
begin

text \<open>
  The IRQ level mailbox under concurrency. SST posts a level with three stores
  (\<open>postIrq\<close>), QEMU drains with one load of the generation and two loads per changed slot
  (\<open>quetz_ipc_irq_drain\<close>); the loads and stores interleave in any order that keeps each side's
  program order, which is what the acquire and release accesses provide. The theorems show
  that the atomic steps of a drain run alone compute \<open>quetz_ipc_irq_drain\<close>, and that skipping
  the scan on an unchanged generation never hides a level.
\<close>

section \<open>Steps\<close>

datatype drain_pc =
    D_idle
  | D_scan u32 "(nat \<times> nat) list" u32
  | D_level u32 "nat \<times> nat" "(nat \<times> nat) list" u32

fun drain_step :: "u32 \<Rightarrow> shared_data \<Rightarrow> ipc_client \<Rightarrow> drain_pc \<Rightarrow> ipc_client \<times> irq_change list \<times> drain_pc" where
  "drain_step mx sh cl D_idle = (cl, [], D_idle)"
| "drain_step mx sh cl (D_scan gen [] n) = (cl\<lparr>cl_irq_gen := gen\<rparr>, [], D_idle)"
| "drain_step mx sh cl (D_scan gen ((v, l) # ss) n) =
     (let s = irq_seq (irq_slot sh v l)
      in if s = cl_irq_seq cl v l then (cl, [], D_scan gen ss n)
         else (shadow_seq v l s cl, [], D_level gen (v, l) ss n))"
| "drain_step mx sh cl (D_level gen (v, l) ss n) =
     (cl, [read_irq sh v l], if n + 1 = mx then D_idle else D_scan gen ss (n + 1))"

datatype poster_pc = P_idle | P_level nat nat | P_seq nat nat

type_synonym levels = "nat \<times> nat \<Rightarrow> u32"

definition apply_change :: "levels \<Rightarrow> irq_change \<Rightarrow> levels" where
  "apply_change view c = view((unat (ic_vcore c), unat (ic_line c)) := ic_level c)"

text \<open>The system: the segment, the client, the levels the client has reported so far, the
  program points of both sides, and history counters: posts begun, stores of each sequence number
  and of the generation, and how many of them the client's shadows and the current scan have
  seen.\<close>

record irq_sys =
  is_sh :: shared_data
  is_cl :: ipc_client
  is_view :: levels
  is_poster :: poster_pc
  is_drain :: drain_pc
  is_posts :: nat
  is_cnt :: "nat \<times> nat \<Rightarrow> nat"
  is_ccnt :: "nat \<times> nat \<Rightarrow> nat"
  is_gens :: nat
  is_cgens :: nat
  is_dgens :: nat

text \<open>The counters after a step of the drain.\<close>

fun drain_ghost :: "drain_pc \<Rightarrow> irq_sys \<Rightarrow> irq_sys" where
  "drain_ghost (D_scan gen [] n) st = st\<lparr>is_cgens := is_dgens st\<rparr>"
| "drain_ghost (D_scan gen ((v, l) # ss) n) st = st\<lparr>is_ccnt := (is_ccnt st)((v, l) := is_cnt st (v, l))\<rparr>"
| "drain_ghost _ st = st"

inductive irq_step :: "u32 \<Rightarrow> u32 \<Rightarrow> irq_sys \<Rightarrow> irq_sys \<Rightarrow> bool" for ml mx where
  post_level: "is_poster st = P_idle \<Longrightarrow> v < 256 \<Longrightarrow> l < 64 \<Longrightarrow>
     irq_step ml mx st (st\<lparr>is_sh := irq_store_level v l lv (is_sh st), is_poster := P_level v l,
       is_posts := is_posts st + 1\<rparr>)"
| post_seq: "is_poster st = P_level v l \<Longrightarrow>
     irq_step ml mx st (st\<lparr>is_sh := irq_store_seq v l (is_sh st), is_poster := P_seq v l,
       is_cnt := (is_cnt st)((v, l) := is_cnt st (v, l) + 1)\<rparr>)"
| post_gen: "is_poster st = P_seq v l \<Longrightarrow>
     irq_step ml mx st (st\<lparr>is_sh := irq_store_gen (is_sh st), is_poster := P_idle, is_gens := is_gens st + 1\<rparr>)"
| start: "is_drain st = D_idle \<Longrightarrow> irq_generation (is_sh st) \<noteq> cl_irq_gen (is_cl st) \<Longrightarrow>
     irq_step ml mx st (st\<lparr>is_drain := D_scan (irq_generation (is_sh st)) (drain_slots (is_sh st) ml) 0,
       is_dgens := is_gens st\<rparr>)"
| drain: "is_drain st \<noteq> D_idle \<Longrightarrow> drain_step mx (is_sh st) (is_cl st) (is_drain st) = (cl, cs, pc) \<Longrightarrow>
     irq_step ml mx st ((drain_ghost (is_drain st) st)\<lparr>is_cl := cl, is_view := foldl apply_change (is_view st) cs,
       is_drain := pc\<rparr>)"

text \<open>At the start the slots have been cleared, the client has just attached and no level has been
  reported.\<close>

definition irq_init :: "irq_sys \<Rightarrow> bool" where
  "irq_init st \<longleftrightarrow>
     (\<forall>v l. irq_slot (is_sh st) v l = zero_irq) \<and> irq_generation (is_sh st) = 0 \<and>
     (\<forall>v l. cl_irq_seq (is_cl st) v l = 0) \<and> cl_irq_gen (is_cl st) = 0 \<and> is_view st = (\<lambda>_. 0) \<and>
     is_poster st = P_idle \<and> is_drain st = D_idle \<and> is_posts st = 0 \<and> is_cnt st = (\<lambda>_. 0) \<and>
     is_ccnt st = (\<lambda>_. 0) \<and> is_gens st = 0 \<and> is_cgens st = 0 \<and> is_dgens st = 0"

inductive irq_reachable :: "u32 \<Rightarrow> u32 \<Rightarrow> irq_sys \<Rightarrow> bool" for ml mx where
  init: "irq_init st \<Longrightarrow> irq_reachable ml mx st"
| step: "irq_reachable ml mx st \<Longrightarrow> irq_step ml mx st st' \<Longrightarrow> irq_reachable ml mx st'"

section \<open>The invariant\<close>

definition seqs_ok :: "irq_sys \<Rightarrow> bool" where
  "seqs_ok st \<longleftrightarrow>
     (\<forall>v l. irq_seq (irq_slot (is_sh st) v l) = of_nat (is_cnt st (v, l)) \<and>
        cl_irq_seq (is_cl st) v l = of_nat (is_ccnt st (v, l)) \<and> is_ccnt st (v, l) \<le> is_cnt st (v, l) \<and>
        is_cnt st (v, l) + (if is_poster st = P_level v l then 1 else 0) \<le> is_posts st) \<and>
     irq_generation (is_sh st) = of_nat (is_gens st) \<and> cl_irq_gen (is_cl st) = of_nat (is_cgens st) \<and>
     is_cgens st \<le> is_gens st \<and> is_gens st + (if is_poster st = P_idle then 0 else 1) \<le> is_posts st"

definition view_ok :: "irq_sys \<Rightarrow> bool" where
  "view_ok st \<longleftrightarrow> (\<forall>v l. is_ccnt st (v, l) = is_cnt st (v, l) \<longrightarrow> is_poster st \<noteq> P_level v l \<longrightarrow>
     (\<forall>g ss n. is_drain st \<noteq> D_level g (v, l) ss n) \<longrightarrow> is_view st (v, l) = irq_level (irq_slot (is_sh st) v l))"

text \<open>A slot whose change the client has not seen is announced: the generation has moved past the
  one noted, or the poster is about to move it.\<close>

definition announced :: "irq_sys \<Rightarrow> nat \<Rightarrow> (nat \<times> nat) set \<Rightarrow> bool" where
  "announced st g ss \<longleftrightarrow> (\<forall>p \<in> ss. is_ccnt st p < is_cnt st p \<longrightarrow>
     g < is_gens st \<or> (\<exists>v l. is_poster st = P_seq v l))"

definition scan_ok :: "u32 \<Rightarrow> irq_sys \<Rightarrow> bool" where
  "scan_ok ml st \<longleftrightarrow> (\<forall>g ss n. is_drain st = D_scan g ss n \<or> (\<exists>p. is_drain st = D_level g p ss n) \<longrightarrow>
     g = of_nat (is_dgens st) \<and> is_dgens st \<le> is_gens st \<and>
     announced st (is_dgens st) (set (drain_slots (is_sh st) ml) - set ss) \<and>
     set ss \<subseteq> set (drain_slots (is_sh st) ml)) \<and>
   (\<forall>g p ss n. is_drain st = D_level g p ss n \<longrightarrow> p \<in> set (drain_slots (is_sh st) ml))"

definition irq_inv :: "u32 \<Rightarrow> irq_sys \<Rightarrow> bool" where
  "irq_inv ml st \<longleftrightarrow> seqs_ok st \<and> view_ok st \<and>
     announced st (is_cgens st) (set (drain_slots (is_sh st) ml)) \<and> scan_ok ml st"

lemma irq_store_fields [simp]:
  "irq_slot (irq_store_level v l lv sh) v' l' =
     (if v' = v \<and> l' = l then (irq_slot sh v l)\<lparr>irq_level := lv\<rparr> else irq_slot sh v' l')"
  "irq_slot (irq_store_seq v l sh) v' l' =
     (if v' = v \<and> l' = l then (irq_slot sh v l)\<lparr>irq_seq := irq_seq (irq_slot sh v l) + 1\<rparr> else irq_slot sh v' l')"
  "irq_slot (irq_store_gen sh) = irq_slot sh"
  "irq_generation (irq_store_level v l lv sh) = irq_generation sh"
  "irq_generation (irq_store_seq v l sh) = irq_generation sh"
  "irq_generation (irq_store_gen sh) = irq_generation sh + 1"
  "num_cores (irq_store_level v l lv sh) = num_cores sh" "num_cores (irq_store_seq v l sh) = num_cores sh"
  "num_cores (irq_store_gen sh) = num_cores sh"
  by (simp_all add: irq_store_level_def irq_store_seq_def irq_store_gen_def)

lemma drain_slots_store [simp]:
  "drain_slots (irq_store_level v l lv sh) ml = drain_slots sh ml"
  "drain_slots (irq_store_seq v l sh) ml = drain_slots sh ml"
  "drain_slots (irq_store_gen sh) ml = drain_slots sh ml"
  by (simp_all add: drain_slots_def)

lemma shadow_seq_fields [simp]:
  "cl_irq_seq (shadow_seq v l s cl) v' l' = (if v' = v \<and> l' = l then s else cl_irq_seq cl v' l')"
  "cl_irq_gen (shadow_seq v l s cl) = cl_irq_gen cl"
  by (simp_all add: shadow_seq_def)

lemma slot_index_bounds: "(v, l) \<in> set (drain_slots sh ml) \<Longrightarrow> v < 256 \<and> l < 64"
proof -
  have m: "unat (min x y) \<le> unat y" for x y :: "'a::len word"
    by (simp add: min_def word_le_nat_alt)
  assume "(v, l) \<in> set (drain_slots sh ml)"
  then show ?thesis
    using m [of "num_cores sh" "ucast QUETZ_MAX_MMIO_VCORES"] m [of ml QUETZ_MAX_IRQ_LINES]
    by (simp add: drain_slots_def ipc_constants)
qed

lemma word_counts_eq:
  assumes "a < 2 ^ 32" "b < 2 ^ 32"
  shows "(of_nat a :: u32) = of_nat b \<longleftrightarrow> a = b"
proof -
  have "unat (of_nat a :: u32) = a" "unat (of_nat b :: u32) = b"
    using assms by (simp_all add: unat_of_nat_small)
  then show ?thesis by metis
qed

lemma announced_mono:
  "announced st g ss \<Longrightarrow> (\<And>p. p \<in> ss' \<Longrightarrow> is_ccnt st' p < is_cnt st' p \<Longrightarrow> p \<in> ss \<and> is_ccnt st p < is_cnt st p) \<Longrightarrow>
   is_gens st \<le> is_gens st' \<Longrightarrow> (\<And>v l. is_poster st = P_seq v l \<Longrightarrow> is_poster st' = P_seq v l) \<Longrightarrow> g' \<le> g \<Longrightarrow>
   announced st' g' ss'"
  unfolding announced_def by (meson le_trans linorder_not_le order_less_le_trans)

lemma post_level_inv:
  assumes "irq_inv ml st" "is_poster st = P_idle"
  shows "irq_inv ml (st\<lparr>is_sh := irq_store_level v l lv (is_sh st), is_poster := P_level v l, is_posts := is_posts st + 1\<rparr>)"
proof -
  let ?st = "st\<lparr>is_sh := irq_store_level v l lv (is_sh st), is_poster := P_level v l, is_posts := is_posts st + 1\<rparr>"
  have "announced ?st g ss = announced st g ss" for g ss
    using assms(2) by (simp add: announced_def)
  moreover have "seqs_ok ?st" using assms by (auto simp: irq_inv_def seqs_ok_def intro: le_SucI)
  moreover have "view_ok ?st" using assms by (auto simp: irq_inv_def view_ok_def)
  ultimately show ?thesis using assms by (simp add: irq_inv_def scan_ok_def)
qed

lemma post_seq_inv:
  assumes "irq_inv ml st" "is_poster st = P_level v l"
  shows "irq_inv ml (st\<lparr>is_sh := irq_store_seq v l (is_sh st), is_poster := P_seq v l,
       is_cnt := (is_cnt st)((v, l) := is_cnt st (v, l) + 1)\<rparr>)"
proof -
  let ?st = "st\<lparr>is_sh := irq_store_seq v l (is_sh st), is_poster := P_seq v l,
       is_cnt := (is_cnt st)((v, l) := is_cnt st (v, l) + 1)\<rparr>"
  have "announced ?st g ss" for g ss by (simp add: announced_def)
  moreover have "seqs_ok ?st" using assms by (auto simp: irq_inv_def seqs_ok_def intro: le_SucI split: if_splits)
  moreover have "view_ok ?st" using assms by (auto simp: irq_inv_def view_ok_def seqs_ok_def) (metis Suc_n_not_le_n)
  ultimately show ?thesis using assms by (simp add: irq_inv_def scan_ok_def)
qed

lemma post_gen_inv:
  assumes "irq_inv ml st" "is_poster st = P_seq v l"
  shows "irq_inv ml (st\<lparr>is_sh := irq_store_gen (is_sh st), is_poster := P_idle, is_gens := is_gens st + 1\<rparr>)"
proof -
  let ?st = "st\<lparr>is_sh := irq_store_gen (is_sh st), is_poster := P_idle, is_gens := is_gens st + 1\<rparr>"
  have "announced ?st g ss" if "g \<le> is_gens st" for g ss using that by (simp add: announced_def)
  moreover have "seqs_ok ?st" using assms by (auto simp: irq_inv_def seqs_ok_def split: if_splits)
  moreover have "view_ok ?st" using assms by (auto simp: irq_inv_def view_ok_def)
  ultimately show ?thesis using assms by (auto simp: irq_inv_def scan_ok_def seqs_ok_def)
qed

lemma start_inv:
  assumes "irq_inv ml st" "is_drain st = D_idle"
  shows "irq_inv ml (st\<lparr>is_drain := D_scan (irq_generation (is_sh st)) (drain_slots (is_sh st) ml) 0,
       is_dgens := is_gens st\<rparr>)"
  using assms by (auto simp: irq_inv_def scan_ok_def seqs_ok_def view_ok_def announced_def)

lemma drain_inv:
  assumes inv: "irq_inv ml st" and small: "is_posts st < 2 ^ 32"
    and busy: "is_drain st \<noteq> D_idle" and st: "drain_step mx (is_sh st) (is_cl st) (is_drain st) = (cl, cs, pc)"
  shows "irq_inv ml ((drain_ghost (is_drain st) st)\<lparr>is_cl := cl, is_view := foldl apply_change (is_view st) cs,
       is_drain := pc\<rparr>)"
proof (cases "is_drain st")
  case D_idle
  then show ?thesis using busy by simp
next
  case (D_scan g ss n)
  have sq: "irq_seq (irq_slot (is_sh st) v l) = of_nat (is_cnt st (v, l))"
      "cl_irq_seq (is_cl st) v l = of_nat (is_ccnt st (v, l))" "is_ccnt st (v, l) \<le> is_cnt st (v, l)"
      "is_cnt st (v, l) < 2 ^ 32" for v l
  proof -
    have "is_cnt st (v, l) + (if is_poster st = P_level v l then 1 else 0) \<le> is_posts st"
      using inv unfolding irq_inv_def seqs_ok_def by blast
    then show "is_cnt st (v, l) < 2 ^ 32" using small by linarith
  qed (use inv in \<open>auto simp: irq_inv_def seqs_ok_def\<close>)
  have an: "g = of_nat (is_dgens st)" "is_dgens st \<le> is_gens st"
      "announced st (is_dgens st) (set (drain_slots (is_sh st) ml) - set ss)" "set ss \<subseteq> set (drain_slots (is_sh st) ml)"
    using inv D_scan by (auto simp: irq_inv_def scan_ok_def)
  show ?thesis
  proof (cases ss)
    case Nil
    then have e: "cl = (is_cl st)\<lparr>cl_irq_gen := g\<rparr>" "cs = []" "pc = D_idle" using st D_scan by auto
    show ?thesis
      using inv an unfolding D_scan Nil e
      by (simp add: irq_inv_def scan_ok_def announced_def seqs_ok_def view_ok_def Nil D_scan)
  next
    case (Cons p ss')
    obtain v l where p: "p = (v, l)" by fastforce
    define same where "same \<longleftrightarrow> is_ccnt st (v, l) = is_cnt st (v, l)"
    have eq: "irq_seq (irq_slot (is_sh st) v l) = cl_irq_seq (is_cl st) v l \<longleftrightarrow> same"
      using sq [of v l] word_counts_eq [of "is_cnt st (v, l)" "is_ccnt st (v, l)"] by (auto simp: same_def)
    have e: "cl = (if same then is_cl st else shadow_seq v l (irq_seq (irq_slot (is_sh st) v l)) (is_cl st))"
        "cs = []" "pc = (if same then D_scan g ss' n else D_level g (v, l) ss' n)"
      using st D_scan Cons p eq by (auto simp: Let_def split: if_splits)
    define st' where "st' = (drain_ghost (is_drain st) st)\<lparr>is_cl := cl, is_view := foldl apply_change (is_view st) cs, is_drain := pc\<rparr>"
    have g: "is_ccnt st' = (is_ccnt st)((v, l) := is_cnt st (v, l))" "is_cnt st' = is_cnt st" "is_sh st' = is_sh st"
        "is_poster st' = is_poster st" "is_gens st' = is_gens st" "is_cgens st' = is_cgens st"
        "is_dgens st' = is_dgens st" "is_view st' = is_view st" "is_posts st' = is_posts st" "is_cl st' = cl"
        "is_drain st' = pc"
      using D_scan Cons p e(2) by (simp_all add: st'_def)
    have "seqs_ok st'"
      using inv sq [of v l] unfolding irq_inv_def seqs_ok_def g e(1) same_def by auto
    moreover have "view_ok st'"
      using inv D_scan unfolding irq_inv_def view_ok_def g e(3) same_def by auto
    moreover have "announced st' (is_cgens st') (set (drain_slots (is_sh st') ml))"
      using inv unfolding irq_inv_def announced_def g by auto
    moreover have "announced st' (is_dgens st) (set (drain_slots (is_sh st) ml) - set ss')"
      using an(3) unfolding announced_def g Cons p by auto
    then have "scan_ok ml st'"
      using an(1,2,4) p Cons unfolding scan_ok_def g e(3) by (auto split: if_splits)
    ultimately show ?thesis by (simp add: irq_inv_def st'_def)
  qed
next
  case (D_level g p ss n)
  obtain v l where p: "p = (v, l)" by fastforce
  have e: "cl = is_cl st" "cs = [read_irq (is_sh st) v l]" "pc = (if n + 1 = mx then D_idle else D_scan g ss (n + 1))"
    using st D_level p by auto
  have an: "g = of_nat (is_dgens st)" "is_dgens st \<le> is_gens st" "(v, l) \<in> set (drain_slots (is_sh st) ml)"
      "announced st (is_dgens st) (set (drain_slots (is_sh st) ml) - set ss)" "set ss \<subseteq> set (drain_slots (is_sh st) ml)"
    using inv D_level p by (auto simp: irq_inv_def scan_ok_def)
  have "unat (of_nat v :: u32) = v" "unat (of_nat l :: u32) = l"
    using slot_index_bounds [OF an(3)] by (auto intro!: unat_of_nat_small)
  then have ac: "foldl apply_change (is_view st) cs = (is_view st)((v, l) := irq_level (irq_slot (is_sh st) v l))"
    by (simp add: e(2) apply_change_def read_irq_def)
  let ?st = "st\<lparr>is_cl := cl, is_view := foldl apply_change (is_view st) cs, is_drain := pc\<rparr>"
  have "seqs_ok ?st" using inv e(1) by (simp add: irq_inv_def seqs_ok_def)
  moreover have "view_ok ?st" unfolding ac using inv D_level p by (auto simp: irq_inv_def view_ok_def e(3))
  moreover have "announced ?st g' ss' = announced st g' ss'" for g' ss' by (simp add: announced_def)
  ultimately have "irq_inv ml ?st"
    using inv an by (auto simp: irq_inv_def scan_ok_def e(3) split: if_splits)
  then show ?thesis using D_level p by simp
qed

lemma irq_reachable_inv:
  assumes "irq_reachable ml mx st" "is_posts st < 2 ^ 32"
  shows "irq_inv ml st"
  using assms
proof (induction rule: irq_reachable.induct)
  case (init st)
  then show ?case
    by (simp add: irq_init_def irq_inv_def seqs_ok_def view_ok_def announced_def scan_ok_def zero_irq_def)
next
  case (step st st')
  from step.hyps(2) have "is_posts st \<le> is_posts st'"
  proof cases
    case (drain cl cs pc)
    then show ?thesis by (cases "(is_drain st, st)" rule: drain_ghost.cases) auto
  qed auto
  then have inv: "irq_inv ml st" "is_posts st < 2 ^ 32" using step by auto
  from step.hyps(2) show ?case
    by cases (use inv post_level_inv post_seq_inv post_gen_inv start_inv drain_inv in auto)
qed

section \<open>A drain run alone\<close>

definition drained_to :: "irq_sys \<Rightarrow> irq_sys \<Rightarrow> bool" where
  "drained_to st st' \<longleftrightarrow> is_sh st' = is_sh st \<and> is_poster st' = is_poster st \<and> is_posts st' = is_posts st \<and>
     is_drain st' = D_idle"

lemma drain_ghost_fields [simp]:
  "is_sh (drain_ghost pc st) = is_sh st" "is_poster (drain_ghost pc st) = is_poster st"
  "is_posts (drain_ghost pc st) = is_posts st"
  by (cases "(pc, st)" rule: drain_ghost.cases; simp)+

lemma drain_micro:
  assumes "is_drain st \<noteq> D_idle" "drain_step mx (is_sh st) (is_cl st) (is_drain st) = (cl, cs, pc)"
  obtains st1 where "irq_step ml mx st st1" "is_sh st1 = is_sh st" "is_poster st1 = is_poster st"
    "is_posts st1 = is_posts st" "is_cl st1 = cl" "is_view st1 = foldl apply_change (is_view st) cs" "is_drain st1 = pc"
  using irq_step.drain [OF assms] by (rule that) simp_all

lemma drain_run:
  "is_drain st = D_scan g ss n \<Longrightarrow> unat n < unat mx \<Longrightarrow>
   drain_loop (is_sh st) mx ss (is_cl st) n = (cl', cs, fin) \<Longrightarrow>
   (\<exists>st'. (irq_step ml mx)\<^sup>*\<^sup>* st st' \<and> drained_to st st' \<and>
     is_cl st' = (if fin then cl'\<lparr>cl_irq_gen := g\<rparr> else cl') \<and> is_view st' = foldl apply_change (is_view st) cs) \<and>
   (\<not> fin \<longrightarrow> unat n + length cs = unat mx)"
proof (induction ss arbitrary: st n cl' cs)
  case Nil
  obtain st1 where "irq_step ml mx st st1" "is_sh st1 = is_sh st" "is_poster st1 = is_poster st"
      "is_posts st1 = is_posts st" "is_cl st1 = (is_cl st)\<lparr>cl_irq_gen := g\<rparr>" "is_view st1 = is_view st" "is_drain st1 = D_idle"
    by (rule drain_micro [of st mx]) (use Nil in auto)
  then show ?case using Nil by (auto simp: drained_to_def intro!: exI [of _ st1])
next
  case (Cons p ss)
  obtain v l where p: "p = (v, l)" by fastforce
  let ?s = "irq_seq (irq_slot (is_sh st) v l)"
  show ?case
  proof (cases "?s = cl_irq_seq (is_cl st) v l")
    case True
    obtain st1 where s1: "irq_step ml mx st st1" "is_sh st1 = is_sh st" "is_poster st1 = is_poster st"
        "is_posts st1 = is_posts st" "is_cl st1 = is_cl st" "is_view st1 = is_view st" "is_drain st1 = D_scan g ss n"
      by (rule drain_micro [of st mx]) (use Cons.prems True p in auto)
    then have "drain_loop (is_sh st1) mx ss (is_cl st1) n = (cl', cs, fin)" using Cons.prems True p by simp
    from Cons.IH [OF s1(7) Cons.prems(2) this] s1 show ?thesis
      unfolding drained_to_def by (metis converse_rtranclp_into_rtranclp)
  next
    case False
    let ?cl = "shadow_seq v l ?s (is_cl st)"
    obtain st1 where s1: "irq_step ml mx st st1" "is_sh st1 = is_sh st" "is_poster st1 = is_poster st"
        "is_posts st1 = is_posts st" "is_cl st1 = ?cl" "is_view st1 = is_view st" "is_drain st1 = D_level g (v, l) ss n"
      by (rule drain_micro [of st mx]) (use Cons.prems False p in \<open>auto simp: Let_def\<close>)
    let ?c = "read_irq (is_sh st) v l"
    obtain st2 where s2: "irq_step ml mx st1 st2" "is_sh st2 = is_sh st" "is_poster st2 = is_poster st"
        "is_posts st2 = is_posts st" "is_cl st2 = ?cl" "is_view st2 = apply_change (is_view st) ?c"
        "is_drain st2 = (if n + 1 = mx then D_idle else D_scan g ss (n + 1))"
      by (rule drain_micro [of st1 mx]) (use s1 in auto)
    have s12: "(irq_step ml mx)\<^sup>*\<^sup>* st st2" using s1(1) s2(1) by (meson r_into_rtranclp rtranclp.rtrancl_into_rtrancl)
    show ?thesis
    proof (cases "n + 1 = mx")
      case stop: True
      then have e: "cl' = ?cl" "cs = [?c]" "\<not> fin" using Cons.prems False p by (auto simp: Let_def)
      have "unat n + 1 = unat mx" using stop Cons.prems(2) unat_suc_32 [of n mx] by (simp add: word_less_nat_alt)
      then show ?thesis using s12 s2 e stop by (auto simp: drained_to_def intro!: exI [of _ st2])
    next
      case go: False
      obtain cs2 where d: "drain_loop (is_sh st2) mx ss (is_cl st2) (n + 1) = (cl', cs2, fin)" "cs = ?c # cs2"
        using Cons.prems(3) False p go s2 by (auto simp: Let_def split: prod.splits)
      have u: "unat (n + 1) = unat n + 1" using Cons.prems(2) unat_suc_32 [of n mx] by (simp add: word_less_nat_alt)
      have "unat (n + 1) \<noteq> unat mx" using go by (metis word_unat_eq_iff)
      then have lt: "unat (n + 1) < unat mx" using u Cons.prems(2) by linarith
      have dr: "is_drain st2 = D_scan g ss (n + 1)" using s2(7) go by simp
      from Cons.IH [OF dr lt d(1)] s12 s2 d(2) u show ?thesis
        unfolding drained_to_def by (auto intro: rtranclp_trans)
    qed
  qed
qed

lemma quiescent_view:
  assumes "irq_inv ml st" "is_posts st < 2 ^ 32" "is_poster st = P_idle" "is_drain st = D_idle"
    and "cl_irq_gen (is_cl st) = irq_generation (is_sh st)" "(v, l) \<in> set (drain_slots (is_sh st) ml)"
  shows "is_view st (v, l) = irq_level (irq_slot (is_sh st) v l)"
proof -
  have g: "is_cgens st \<le> is_gens st" "is_gens st \<le> is_posts st" "is_ccnt st (v, l) \<le> is_cnt st (v, l)"
      "(of_nat (is_cgens st) :: u32) = of_nat (is_gens st)"
    using assms(1,3,5) by (auto simp: irq_inv_def seqs_ok_def)
  then have "is_cgens st = is_gens st"
    using word_counts_eq [of "is_cgens st" "is_gens st"] assms(2) by linarith
  then have "is_ccnt st (v, l) = is_cnt st (v, l)"
    using assms(1,3,6) g(3) by (fastforce simp: irq_inv_def announced_def)
  then show ?thesis using assms(1,3,4) by (simp add: irq_inv_def view_ok_def)
qed

lemma drain_loop_length:
  "drain_loop sh mx ss cl n = (cl', cs, fin) \<Longrightarrow> unat n < unat mx \<Longrightarrow> unat n + length cs \<le> unat mx"
proof (induction ss arbitrary: cl n cl' cs)
  case (Cons p ss)
  obtain v l where p: "p = (v, l)" by fastforce
  have u: "unat (n + 1) = unat n + 1" using Cons.prems(2) unat_suc_32 [of n mx] by (simp add: word_less_nat_alt)
  show ?case
  proof (cases "n + 1 = mx \<or> irq_seq (irq_slot sh v l) = cl_irq_seq cl v l")
    case False
    then obtain cs2 where d: "drain_loop sh mx ss (shadow_seq v l (irq_seq (irq_slot sh v l)) cl) (n + 1) = (cl', cs2, fin)"
        "length cs = Suc (length cs2)"
      using Cons.prems(1) p by (auto simp: Let_def split: prod.splits)
    have "unat (n + 1) \<noteq> unat mx" using False by (metis word_unat_eq_iff)
    then have "unat (n + 1) < unat mx" using u Cons.prems(2) by linarith
    from Cons.IH [OF d(1) this] d(2) u show ?thesis by simp
  qed (use Cons p u in \<open>auto simp: Let_def split: if_splits\<close>)
qed simp

lemma drain_length: "quetz_ipc_irq_drain sh cl ml mx = (cl', cs) \<Longrightarrow> length cs \<le> unat mx"
  using drain_loop_length [of sh mx "drain_slots sh ml" cl 0]
  by (auto simp: quetz_ipc_irq_drain_def Let_def unat_gt_0 split: if_splits prod.splits)

text \<open>A whole drain from an idle client: the state it reaches, and what an unfilled buffer means.\<close>

lemma drain_call:
  assumes "irq_reachable ml mx st" "is_drain st = D_idle" "mx \<noteq> 0"
    and "quetz_ipc_irq_drain (is_sh st) (is_cl st) ml mx = (cl', cs)"
  obtains st2 where "irq_reachable ml mx st2" "drained_to st st2" "is_cl st2 = cl'"
    "is_view st2 = foldl apply_change (is_view st) cs"
    "length cs < unat mx \<Longrightarrow> cl_irq_gen cl' = irq_generation (is_sh st)"
proof (cases "irq_generation (is_sh st) = cl_irq_gen (is_cl st)")
  case True
  then have "cs = []" "cl' = is_cl st"
    using assms(3,4) by (auto simp: quetz_ipc_irq_drain_def split: if_splits)
  then show thesis using that [of st] assms(1,2) True by (simp add: drained_to_def)
next
  case False
  define st1 where "st1 = st\<lparr>is_drain := D_scan (irq_generation (is_sh st)) (drain_slots (is_sh st) ml) 0,
      is_dgens := is_gens st\<rparr>"
  have r1: "irq_reachable ml mx st1"
    using irq_reachable.step [OF assms(1) irq_step.start [OF assms(2) False]] by (simp add: st1_def)
  obtain cl1 fin where d: "drain_loop (is_sh st) mx (drain_slots (is_sh st) ml) (is_cl st) 0 = (cl1, cs, fin)"
      "cl' = (if fin then cl1\<lparr>cl_irq_gen := irq_generation (is_sh st)\<rparr> else cl1)"
    using assms(3,4) False by (auto simp: quetz_ipc_irq_drain_def Let_def split: prod.splits)
  have run: "\<exists>st2. (irq_step ml mx)\<^sup>*\<^sup>* st1 st2 \<and> drained_to st1 st2 \<and> is_cl st2 = cl' \<and>
      is_view st2 = foldl apply_change (is_view st) cs" "length cs < unat mx \<Longrightarrow> fin"
    using drain_run [of st1 "irq_generation (is_sh st)" "drain_slots (is_sh st) ml" 0 mx cl1 cs fin ml] d assms(3)
    by (auto simp: st1_def unat_gt_0)
  then obtain st2 where s2: "(irq_step ml mx)\<^sup>*\<^sup>* st1 st2" "drained_to st1 st2" "is_cl st2 = cl'"
      "is_view st2 = foldl apply_change (is_view st) cs" by blast
  from s2(1) r1 have "irq_reachable ml mx st2"
    by (induction rule: rtranclp_induct) (auto intro: irq_reachable.step)
  moreover have "drained_to st st2" using s2(2) by (simp add: drained_to_def st1_def)
  ultimately show thesis using that s2(3,4) run(2) d(2) by simp
qed

lemma drain_delivers:
  assumes "irq_reachable ml mx st" "is_posts st < 2 ^ 32" "is_poster st = P_idle" "is_drain st = D_idle"
    and "quetz_ipc_irq_drain (is_sh st) (is_cl st) ml mx = (cl', cs)" "length cs < unat mx"
    and "(v, l) \<in> set (drain_slots (is_sh st) ml)"
  shows "foldl apply_change (is_view st) cs (v, l) = irq_level (irq_slot (is_sh st) v l)"
proof -
  have "mx \<noteq> 0" using assms(6) by auto
  from drain_call [OF assms(1,4) this assms(5)] obtain st2 where s2: "irq_reachable ml mx st2" "drained_to st st2"
      "is_cl st2 = cl'" "is_view st2 = foldl apply_change (is_view st) cs" "cl_irq_gen cl' = irq_generation (is_sh st)"
    using assms(6) by metis
  have e: "is_sh st2 = is_sh st" "is_poster st2 = P_idle" "is_posts st2 = is_posts st" "is_drain st2 = D_idle"
    using s2(2) assms(3) by (auto simp: drained_to_def)
  have "irq_inv ml st2" using irq_reachable_inv s2(1) e(3) assms(2) by simp
  from quiescent_view [OF this] e s2 assms(2,7) show ?thesis by simp
qed

section \<open>Properties\<close>


definition sample_irq :: irq_sys where
  "sample_irq = \<lparr>is_sh = sample_segment, is_cl = sample_client, is_view = (\<lambda>_. 0), is_poster = P_idle,
     is_drain = D_idle, is_posts = 0, is_cnt = (\<lambda>_. 0), is_ccnt = (\<lambda>_. 0), is_gens = 0, is_cgens = 0, is_dgens = 0\<rparr>"

definition sample_posted :: irq_sys where
  "sample_posted = sample_irq\<lparr>is_sh := irq_store_gen (irq_store_seq 0 3 (irq_store_level 0 3 1 sample_segment)),
     is_posts := 1, is_cnt := (\<lambda>_. 0)((0, 3) := 1), is_gens := 1\<rparr>"

lemma sample_posted_reachable: "irq_reachable 4 64 sample_posted"
proof -
  have "irq_reachable 4 64 sample_irq"
    by (rule irq_reachable.init) (simp add: irq_init_def sample_irq_def sample_segment_def sample_client_def)
  from irq_reachable.step [OF this irq_step.post_level [of _ 0 3 4 64 1]]
  have "irq_reachable 4 64 (sample_irq\<lparr>is_sh := irq_store_level 0 3 1 sample_segment, is_poster := P_level 0 3, is_posts := 1\<rparr>)"
    by (simp add: sample_irq_def)
  from irq_reachable.step [OF this irq_step.post_seq [of _ 0 3 4 64]]
  have "irq_reachable 4 64 (sample_irq\<lparr>is_sh := irq_store_seq 0 3 (irq_store_level 0 3 1 sample_segment),
      is_poster := P_seq 0 3, is_posts := 1, is_cnt := (\<lambda>_. 0)((0, 3) := 1)\<rparr>)"
    by (simp add: sample_irq_def)
  from irq_reachable.step [OF this irq_step.post_gen [of _ 0 3 4 64]] show ?thesis
    by (simp add: sample_irq_def sample_posted_def)
qed


end
