(* ===== verification/Quetz_Bridge.thy ===== *)
theory Quetz_Bridge
  imports Quetz_Mailbox_Protocol Quetz_Irq_Mailbox
begin

text \<open>
  The QEMU MMIO bridge device of \<open>qemu-overlay/hw/misc/sst_mmio_bridge.c\<close>: mailbox selection,
  the MMIO callbacks, the IRQ poll timer, realize and unrealize. QEMU's services are inputs: the
  running CPU, the attached segment, the interrupt controllers found and the virtual clock. A call of
  \<open>exit\<close> or \<open>error_setg\<close> is an error value. The theorem shows that a poll ends and leaves
  every polled input of the controller at the level posted for it.
\<close>

section \<open>Device\<close>

record bridge =
  br_shmname :: string
  br_base :: u64
  br_size :: u64
  br_vcpu_id :: u32
  br_per_vcpu :: bool
  br_mapped :: bool
  br_ipc :: "ipc_client option"
  br_irq_count :: u32
  br_irq_poll_ns :: u64
  br_intc_type :: string
  br_irq_timer :: "u64 option"
  br_irqs :: "bool list"

text \<open>The property defaults; empty strings stand for unset ones.\<close>

definition bridge_defaults :: bridge where
  "bridge_defaults = \<lparr>br_shmname = [], br_base = 0, br_size = 0x400, br_vcpu_id = 0, br_per_vcpu = False,
     br_mapped = False, br_ipc = None, br_irq_count = 0, br_irq_poll_ns = 10000, br_intc_type = [],
     br_irq_timer = None, br_irqs = []\<rparr>"

definition sst_mmio_vcpu :: "bridge \<Rightarrow> shared_data option \<Rightarrow> u32 option \<Rightarrow> u32 result" where
  "sst_mmio_vcpu s sd current_cpu =
     res_bind
       (if br_per_vcpu s then
          (case current_cpu of
             None \<Rightarrow> Inl (Fatal ''sst-mmio-bridge: per-vcpu access requires a running CPU'')
           | Some i \<Rightarrow> Inr i)
        else Inr (br_vcpu_id s))
       (\<lambda>vcpu. if vcpu \<ge> quetz_ipc_vcpu_count sd \<or> vcpu \<ge> QUETZ_MAX_MMIO_VCORES
               then Inl (Fatal ''sst-mmio-bridge: vCPU has no configured mailbox'') else Inr vcpu)"

definition sst_mmio_read :: "bridge \<Rightarrow> shared_data option \<Rightarrow> u32 option \<Rightarrow> u64 \<Rightarrow> u32 \<Rightarrow> (u32 \<times> thread_pc) result" where
  "sst_mmio_read s sd cur offset sz =
     res_bind (sst_mmio_vcpu s sd cur)
       (\<lambda>vcpu. Inr (vcpu, quetz_ipc_mmio_read sd vcpu (br_base s + offset) sz))"

definition sst_mmio_write :: "bridge \<Rightarrow> shared_data option \<Rightarrow> u32 option \<Rightarrow> u64 \<Rightarrow> u64 \<Rightarrow> u32 \<Rightarrow> (u32 \<times> thread_pc) result" where
  "sst_mmio_write s sd cur offset value sz =
     res_bind (sst_mmio_vcpu s sd cur)
       (\<lambda>vcpu. Inr (vcpu, quetz_ipc_mmio_write sd vcpu (br_base s + offset) sz value))"

section \<open>IRQ poll\<close>

fun apply_irqs :: "irq_change list \<Rightarrow> bool list \<Rightarrow> bool list result" where
  "apply_irqs [] irqs = Inr irqs"
| "apply_irqs (c # cs) irqs =
     (if ic_vcore c \<noteq> 0 then Inl (Fatal ''sst-mmio-bridge: unsupported IRQ line'')
      else apply_irqs cs (irqs[unat (ic_line c) := (ic_level c \<noteq> 0)]))"

text \<open>The slots whose sequence number the client has not seen.\<close>

definition unseen :: "shared_data \<Rightarrow> ipc_client \<Rightarrow> nat \<times> nat \<Rightarrow> bool" where
  "unseen sh cl = (\<lambda>(v, l). irq_seq (irq_slot sh v l) \<noteq> cl_irq_seq cl v l)"

lemma drain_loop_spec:
  "distinct ss \<Longrightarrow> drain_loop sh mx ss cl n = (cl', cs, fin) \<Longrightarrow>
   \<exists>ss1 ss2. ss = ss1 @ ss2 \<and> (fin \<longrightarrow> ss2 = []) \<and> cs = map (\<lambda>(v, l). read_irq sh v l) (filter (unseen sh cl) ss1) \<and>
     cl_irq_gen cl' = cl_irq_gen cl \<and>
     (\<forall>v l. cl_irq_seq cl' v l = (if (v, l) \<in> set ss1 then irq_seq (irq_slot sh v l) else cl_irq_seq cl v l))"
proof (induction ss arbitrary: cl n cl' cs)
  case Nil
  then show ?case by (auto intro!: exI [of _ "[]"])
next
  case (Cons p ss)
  obtain v l where p: "p = (v, l)" by fastforce
  have d: "distinct ss" "(v, l) \<notin> set ss" using Cons.prems(1) p by auto
  show ?case
  proof (cases "unseen sh cl (v, l)")
    case False
    then have dl: "drain_loop sh mx ss cl n = (cl', cs, fin)" using Cons.prems(2) p by (simp add: unseen_def)
    from Cons.IH [OF d(1) dl] obtain ss1 ss2 where s: "ss = ss1 @ ss2" "fin \<longrightarrow> ss2 = []"
        "cs = map (\<lambda>(v, l). read_irq sh v l) (filter (unseen sh cl) ss1)" "cl_irq_gen cl' = cl_irq_gen cl"
        "\<forall>v l. cl_irq_seq cl' v l = (if (v, l) \<in> set ss1 then irq_seq (irq_slot sh v l) else cl_irq_seq cl v l)"
      by blast
    then show ?thesis using False p
      by (intro exI [of _ "(v, l) # ss1"] exI [of _ ss2]) (auto simp: unseen_def)
  next
    case True
    let ?cl = "shadow_seq v l (irq_seq (irq_slot sh v l)) cl"
    have same: "filter (unseen sh ?cl) xs = filter (unseen sh cl) xs" if "(v, l) \<notin> set xs" for xs
      using that by (intro filter_cong) (auto simp: unseen_def)
    show ?thesis
    proof (cases "n + 1 = mx")
      case stop: True
      then have "cl' = ?cl" "cs = [read_irq sh v l]" "\<not> fin"
        using Cons.prems(2) True p by (auto simp: unseen_def Let_def)
      then show ?thesis using True p by (intro exI [of _ "[(v, l)]"] exI [of _ ss]) auto
    next
      case go: False
      then obtain cs2 where dl: "drain_loop sh mx ss ?cl (n + 1) = (cl', cs2, fin)" "cs = read_irq sh v l # cs2"
        using Cons.prems(2) True p by (auto simp: unseen_def Let_def split: prod.splits)
      from Cons.IH [OF d(1) dl(1)] obtain ss1 ss2 where s: "ss = ss1 @ ss2" "fin \<longrightarrow> ss2 = []"
          "cs2 = map (\<lambda>(v, l). read_irq sh v l) (filter (unseen sh ?cl) ss1)" "cl_irq_gen cl' = cl_irq_gen ?cl"
          "\<forall>v l. cl_irq_seq cl' v l = (if (v, l) \<in> set ss1 then irq_seq (irq_slot sh v l) else cl_irq_seq ?cl v l)"
        by blast
      then show ?thesis using True p d(2) dl(2) same [of ss1]
        by (intro exI [of _ "(v, l) # ss1"] exI [of _ ss2]) auto
    qed
  qed
qed

lemma distinct_drain_slots: "distinct (drain_slots sh ml)"
  by (simp add: drain_slots_def distinct_product)

definition unseen_count :: "shared_data \<Rightarrow> u32 \<Rightarrow> ipc_client \<Rightarrow> nat" where
  "unseen_count sh ml cl = length (filter (unseen sh cl) (drain_slots sh ml))"

lemma drain_reduces_unseen:
  assumes "quetz_ipc_irq_drain sh cl ml mx = (cl', cs)"
  shows "unseen_count sh ml cl' + length cs = unseen_count sh ml cl"
proof (cases "mx = 0 \<or> irq_generation sh = cl_irq_gen cl")
  case True
  then show ?thesis using assms by (auto simp: quetz_ipc_irq_drain_def split: if_splits)
next
  case False
  obtain cl1 fin where d: "drain_loop sh mx (drain_slots sh ml) cl 0 = (cl1, cs, fin)"
      "cl_irq_seq cl' = cl_irq_seq cl1"
    using assms False by (auto simp: quetz_ipc_irq_drain_def Let_def split: prod.splits if_splits)
  obtain ss1 ss2 where s: "drain_slots sh ml = ss1 @ ss2"
      "cs = map (\<lambda>(v, l). read_irq sh v l) (filter (unseen sh cl) ss1)"
      "\<forall>v l. cl_irq_seq cl1 v l = (if (v, l) \<in> set ss1 then irq_seq (irq_slot sh v l) else cl_irq_seq cl v l)"
    using drain_loop_spec [OF distinct_drain_slots d(1)] by blast
  have dis: "set ss1 \<inter> set ss2 = {}" using distinct_drain_slots [of sh ml] s(1) by simp
  have "filter (unseen sh cl') ss1 = []" using s(3) d(2) by (auto simp: unseen_def filter_empty_conv)
  moreover have "filter (unseen sh cl') ss2 = filter (unseen sh cl) ss2"
    using s(3) d(2) dis by (intro filter_cong) (auto simp: unseen_def)
  ultimately show ?thesis using s(1,2) by (simp add: unseen_count_def)
qed

text \<open>The loop of the poll; \<open>sh\<close> is the segment as the poll sees it.\<close>

function irq_poll_loop :: "shared_data \<Rightarrow> u32 \<Rightarrow> ipc_client \<Rightarrow> bool list \<Rightarrow> (ipc_client \<times> bool list) result" where
  "irq_poll_loop sh ml cl irqs =
     (case quetz_ipc_irq_drain sh cl ml QUETZ_MAX_IRQ_LINES of
        (cl', cs) \<Rightarrow>
          (case apply_irqs cs irqs of
             Inl e \<Rightarrow> Inl e
           | Inr irqs' \<Rightarrow>
               if length cs = unat QUETZ_MAX_IRQ_LINES then irq_poll_loop sh ml cl' irqs' else Inr (cl', irqs')))"
  by auto
termination
proof (relation "measure (\<lambda>(sh, ml, cl, irqs). unseen_count sh ml cl)", simp)
  fix sh ml cl irqs cl' cs irqs'
  assume "(cl', cs) = quetz_ipc_irq_drain sh cl ml QUETZ_MAX_IRQ_LINES" "length cs = unat QUETZ_MAX_IRQ_LINES"
  then show "((sh, ml, cl', irqs'), sh, ml, cl, irqs) \<in> measure (\<lambda>(sh, ml, cl, irqs). unseen_count sh ml cl)"
    using drain_reduces_unseen [of sh cl ml QUETZ_MAX_IRQ_LINES cl' cs] by (simp add: ipc_constants)
qed

declare irq_poll_loop.simps [simp del]

definition sst_mmio_bridge_irq_poll :: "bridge \<Rightarrow> ipc_client \<Rightarrow> shared_data \<Rightarrow> u64 \<Rightarrow> bridge result" where
  "sst_mmio_bridge_irq_poll s cl sh now =
     res_bind (irq_poll_loop sh (br_irq_count s) cl (br_irqs s))
       (\<lambda>(cl', irqs). Inr (s\<lparr>br_ipc := Some cl', br_irqs := irqs, br_irq_timer := Some (now + br_irq_poll_ns s)\<rparr>))"

section \<open>Realize and unrealize\<close>

text \<open>\<open>intcs\<close> is the number of controllers of the requested type on the machine.\<close>

definition sst_mmio_bridge_irq_init :: "bridge \<Rightarrow> nat \<Rightarrow> u64 \<Rightarrow> bridge result" where
  "sst_mmio_bridge_irq_init s intcs now =
     (if br_intc_type s = [] then Inl (Fatal ''IRQ routing requires explicit intc-type'')
      else if br_irq_count s > QUETZ_MAX_IRQ_LINES then Inl (Fatal ''irq-count exceeds the shared IRQ mailbox size'')
      else if br_irq_poll_ns s = 0 then Inl (Fatal ''irq-poll-ns must be greater than 0'')
      else if intcs \<noteq> 1 then Inl (Fatal ''needs exactly one interrupt controller'')
      else Inr (s\<lparr>br_irqs := replicate (unat (br_irq_count s)) False, br_irq_timer := Some (now + br_irq_poll_ns s)\<rparr>))"

text \<open>\<open>att\<close> is the result of \<open>quetz_ipc_attach\<close>: the client and its segment.\<close>

definition sst_mmio_bridge_realize ::
    "bridge \<Rightarrow> (ipc_client \<times> shared_data) option \<Rightarrow> nat \<Rightarrow> u64 \<Rightarrow> bridge result" where
  "sst_mmio_bridge_realize s att intcs now =
     (if br_shmname s = [] then Inl (Fatal ''shmname property required'')
      else if br_size s = 0 then Inl (Fatal ''size must be > 0'')
      else case att of
        None \<Rightarrow> Inl (Fatal ''failed to attach shmem'')
      | Some (cl, sd) \<Rightarrow>
          let vcpus = quetz_ipc_vcpu_count (Some sd)
          in if vcpus = 0 \<or> vcpus > QUETZ_MAX_MMIO_VCORES \<or>
                (\<not> br_per_vcpu s \<and> (br_vcpu_id s \<ge> vcpus \<or> vcpus > 1))
             then Inl (Fatal ''multicore requires per-vcpu=on'')
             else
               let s1 = s\<lparr>br_ipc := Some cl, br_mapped := True\<rparr>
               in if br_irq_count s > 0 then sst_mmio_bridge_irq_init s1 intcs now else Inr s1)"

definition sst_mmio_bridge_unrealize :: "bridge \<Rightarrow> bridge" where
  "sst_mmio_bridge_unrealize s = s\<lparr>br_irq_timer := None, br_irqs := [], br_mapped := False, br_ipc := None\<rparr>"

section \<open>Properties\<close>

lemma apply_irqs_view:
  "apply_irqs cs irqs = Inr irqs' \<Longrightarrow> \<forall>l < length irqs. irqs ! l = (view (0, l) \<noteq> 0) \<Longrightarrow>
   length irqs' = length irqs \<and> (\<forall>l < length irqs. irqs' ! l = (foldl apply_change view cs (0, l) \<noteq> 0))"
proof (induction cs irqs arbitrary: view rule: apply_irqs.induct)
  case (2 c cs irqs)
  let ?irqs = "irqs[unat (ic_line c) := (ic_level c \<noteq> 0)]"
  have v: "ic_vcore c = 0" and r: "apply_irqs cs ?irqs = Inr irqs'"
    using "2.prems"(1) by (auto split: if_splits)
  have "\<forall>l < length ?irqs. ?irqs ! l = (apply_change view c (0, l) \<noteq> 0)"
    using "2.prems"(2) v by (auto simp: apply_change_def nth_list_update)
  from "2.IH" [OF _ r this] v show ?case by simp
qed simp

lemma irq_poll_loop_levels:
  assumes "irq_poll_loop sh ml cl irqs = Inr (cl', irqs')"
    and "irq_reachable ml QUETZ_MAX_IRQ_LINES st" "is_sh st = sh" "is_cl st = cl"
      "is_posts st < 2 ^ 32" "is_poster st = P_idle" "is_drain st = D_idle"
      "\<forall>l < length irqs. irqs ! l = (is_view st (0, l) \<noteq> 0)"
  shows "length irqs' = length irqs \<and>
    (\<forall>l < length irqs. (0, l) \<in> set (drain_slots sh ml) \<longrightarrow> irqs' ! l = (irq_level (irq_slot sh 0 l) \<noteq> 0))"
  using assms
proof (induction sh ml cl irqs arbitrary: st rule: irq_poll_loop.induct)
  case (1 sh ml cl irqs)
  obtain cl1 cs where d: "quetz_ipc_irq_drain sh cl ml QUETZ_MAX_IRQ_LINES = (cl1, cs)" by fastforce
  obtain irqs1 where a: "apply_irqs cs irqs = Inr irqs1"
    using "1.prems"(1) d by (auto simp: irq_poll_loop.simps [of sh ml cl irqs] split: sum.splits)
  have m0: "QUETZ_MAX_IRQ_LINES \<noteq> 0" by (simp add: ipc_constants)
  have d': "quetz_ipc_irq_drain (is_sh st) (is_cl st) ml QUETZ_MAX_IRQ_LINES = (cl1, cs)" using d "1.prems"(3,4) by simp
  note av = apply_irqs_view [OF a "1.prems"(8)]
  show ?case
  proof (cases "length cs = unat QUETZ_MAX_IRQ_LINES")
    case True
    then have rec: "irq_poll_loop sh ml cl1 irqs1 = Inr (cl', irqs')"
      using "1.prems"(1) d a by (simp add: irq_poll_loop.simps [of sh ml cl irqs])
    obtain st2 where s2: "irq_reachable ml QUETZ_MAX_IRQ_LINES st2" "drained_to st st2" "is_cl st2 = cl1"
        "is_view st2 = foldl apply_change (is_view st) cs"
      by (rule drain_call [OF "1.prems"(2,7) m0 d'])
    from "1.IH" [OF d [symmetric] a True rec s2(1)] s2 av "1.prems" show ?thesis
      by (simp add: drained_to_def)
  next
    case False
    have "unat (QUETZ_MAX_IRQ_LINES) \<le> 64" by (simp add: ipc_constants)
    then have e: "irqs' = irqs1"
      using "1.prems"(1) d a False by (simp add: irq_poll_loop.simps [of sh ml cl irqs])
    have lt: "length cs < unat QUETZ_MAX_IRQ_LINES"
      using False drain_length [OF d'] m0 by simp
    show ?thesis
      using av e drain_delivers [OF "1.prems"(2,5,6,7) d' lt] "1.prems"(3) by auto
  qed
qed

text \<open>C29. The IRQ poll ends and brings the interrupt controller up to date: however posts and earlier
  polls interleaved, a poll that does not meet a change for another vCPU leaves every polled input at
  the level posted last for vCPU 0 and arms the timer again.\<close>

theorem irq_poll_levels:
  assumes "sst_mmio_bridge_irq_poll s (is_cl st) (is_sh st) now = Inr s'"
    and "irq_reachable (br_irq_count s) QUETZ_MAX_IRQ_LINES st" "is_posts st < 2 ^ 32"
      "is_poster st = P_idle" "is_drain st = D_idle"
    and "length (br_irqs s) = unat (br_irq_count s)" "br_irq_count s \<le> QUETZ_MAX_IRQ_LINES" "num_cores (is_sh st) \<noteq> 0"
      "\<forall>l < length (br_irqs s). br_irqs s ! l = (is_view st (0, l) \<noteq> 0)"
  shows "length (br_irqs s') = length (br_irqs s) \<and> br_irq_timer s' = Some (now + br_irq_poll_ns s) \<and>
    (\<forall>l < length (br_irqs s'). br_irqs s' ! l = (irq_level (irq_slot (is_sh st) 0 l) \<noteq> 0))"
proof -
  obtain cl' irqs' where l: "irq_poll_loop (is_sh st) (br_irq_count s) (is_cl st) (br_irqs s) = Inr (cl', irqs')"
      "s' = s\<lparr>br_ipc := Some cl', br_irqs := irqs', br_irq_timer := Some (now + br_irq_poll_ns s)\<rparr>"
    using assms(1) by (auto simp: sst_mmio_bridge_irq_poll_def res_bind_Inr_iff)
  have "unat (min (br_irq_count s) QUETZ_MAX_IRQ_LINES) = unat (br_irq_count s)" using assms(7) by (simp add: min_def)
  moreover have "min (num_cores (is_sh st)) (ucast QUETZ_MAX_MMIO_VCORES) \<noteq> 0"
    using assms(8) by (simp add: min_def ipc_constants)
  ultimately have "(0, l) \<in> set (drain_slots (is_sh st) (br_irq_count s))" if "l < length (br_irqs s)" for l
    using that assms(6) by (simp add: drain_slots_def unat_gt_0)
  then show ?thesis
    using irq_poll_loop_levels [OF l(1) assms(2) refl refl assms(3-5,9)] l(2) by auto
qed

definition sample_bridge :: bridge where
  "sample_bridge = bridge_defaults\<lparr>br_shmname := ''q'', br_irq_count := 4, br_intc_type := ''plic'', br_irqs := replicate 4 False\<rparr>"

theorem irq_poll_levels_witness:
  "case sst_mmio_bridge_irq_poll sample_bridge (is_cl sample_posted) (is_sh sample_posted) 7 of
     Inr s' \<Rightarrow> br_irqs s' ! 3 = True | Inl _ \<Rightarrow> False"
proof -
  have "is_ok (sst_mmio_bridge_irq_poll sample_bridge (is_cl sample_posted) (is_sh sample_posted) 7)" by code_simp
  then obtain s' where p: "sst_mmio_bridge_irq_poll sample_bridge (is_cl sample_posted) (is_sh sample_posted) 7 = Inr s'"
    by (auto elim: is_okE)
  have r: "irq_reachable (br_irq_count sample_bridge) QUETZ_MAX_IRQ_LINES sample_posted"
    using sample_posted_reachable by (simp add: sample_bridge_def ipc_constants)
  have n: "num_cores (is_sh sample_posted) \<noteq> 0" by (simp add: sample_posted_def) (simp add: sample_segment_def)
  have "length (br_irqs s') = 4 \<and> (\<forall>l < length (br_irqs s'). br_irqs s' ! l = (irq_level (irq_slot (is_sh sample_posted) 0 l) \<noteq> 0))"
    using irq_poll_levels [OF p r _ _ _ _ _ n]
    by (simp add: sample_posted_def sample_irq_def sample_bridge_def ipc_constants)
  then show ?thesis using p by (simp add: sample_posted_def)
qed

text \<open>Once realized, the bridge routes every access to a mailbox that exists: an access by a running
  vCPU below the configured count is passed on with its address relative to the base, to its own
  mailbox in per-vCPU mode and to mailbox 0 otherwise.\<close>

theorem bridge_access_routed:
  assumes "sst_mmio_bridge_realize s (Some (cl, sd)) intcs now = Inr s'" "i < quetz_ipc_vcpu_count (Some sd)"
  shows "sst_mmio_read s' (Some sd) (Some i) offset sz =
      Inr (if br_per_vcpu s then i else 0, T_lock \<lparr>c_write = False, c_addr = br_base s + offset, c_size = sz, c_val = 0\<rparr>) \<and>
    sst_mmio_write s' (Some sd) (Some i) offset value sz =
      Inr (if br_per_vcpu s then i else 0, T_lock \<lparr>c_write = True, c_addr = br_base s + offset, c_size = sz, c_val = value\<rparr>)"
proof -
  define n where "n = quetz_ipc_vcpu_count (Some sd)"
  have r: "n \<noteq> 0" "n \<le> QUETZ_MAX_MMIO_VCORES" "br_per_vcpu s \<or> (br_vcpu_id s < n \<and> n \<le> 1)"
      "br_per_vcpu s' = br_per_vcpu s" "br_vcpu_id s' = br_vcpu_id s" "br_base s' = br_base s"
    using assms(1)
    by (auto simp: sst_mmio_bridge_realize_def sst_mmio_bridge_irq_init_def Let_def n_def not_less not_le split: if_splits)
  define v where "v = (if br_per_vcpu s then i else 0)"
  have sel: "(if br_per_vcpu s then i else br_vcpu_id s) = v"
  proof -
    have "unat (br_vcpu_id s) = 0" if "\<not> br_per_vcpu s"
      using r(3) that by (auto simp: word_less_nat_alt word_le_nat_alt)
    then show ?thesis by (auto simp: v_def unat_eq_0)
  qed
  have v: "v < n" using assms(2) r(1) by (auto simp: v_def n_def [symmetric] word_gt_0)
  have "unat n \<le> unat (num_cores sd)" by (simp add: n_def quetz_ipc_vcpu_count_def unsigned_ucast_eq take_bit_nat_less_eq_self)
  then have "\<not> ucast v \<ge> num_cores sd" "\<not> v \<ge> QUETZ_MAX_MMIO_VCORES" "\<not> v \<ge> n"
    using v r(2) by (auto simp: word_le_nat_alt word_less_nat_alt)
  then have ok: "sst_mmio_vcpu s' (Some sd) (Some i) = Inr v" "mmio_call_guard (Some sd) v"
    using sel r by (auto simp: sst_mmio_vcpu_def mmio_call_guard_def n_def [symmetric] split: if_splits)
  then show ?thesis
    by (simp add: sst_mmio_read_def sst_mmio_write_def quetz_ipc_mmio_read_def quetz_ipc_mmio_write_def r v_def [symmetric])
qed

theorem bridge_access_routed_witness:
  "\<exists>s'. sst_mmio_bridge_realize (bridge_defaults\<lparr>br_shmname := ''q'', br_per_vcpu := True\<rparr>) (Some (sample_client, sample_segment)) 0 0 = Inr s' \<and>
     sst_mmio_read s' (Some sample_segment) (Some 1) 8 4 = Inr (1, T_lock \<lparr>c_write = False, c_addr = 8, c_size = 4, c_val = 0\<rparr>)"
proof -
  let ?s = "bridge_defaults\<lparr>br_shmname := ''q'', br_per_vcpu := True\<rparr>"
  have "is_ok (sst_mmio_bridge_realize ?s (Some (sample_client, sample_segment)) 0 0)" by code_simp
  then obtain s' where r: "sst_mmio_bridge_realize ?s (Some (sample_client, sample_segment)) 0 0 = Inr s'"
    by (auto elim: is_okE)
  have "1 < quetz_ipc_vcpu_count (Some sample_segment)" by code_simp
  from bridge_access_routed [OF r this] r show ?thesis by (simp add: bridge_defaults_def)
qed

end
