(* ===== verification/Quetz_Window_Bank.thy ===== *)
theory Quetz_Window_Bank
  imports Quetz_Window_Cache_Refine
begin

text \<open>
  The per-vCPU window caches of \<open>src/quetz_window_cache_bank.h\<close>: configuration, the registry
  of outstanding backing requests, completion and reset. The theorem shows that at most one
  request per vCPU is outstanding, that it belongs to an active cache, and that a response is
  delivered to the cache that issued it.
\<close>

record wbank_state =
  bs_cache :: wcache
  bs_outstanding :: bool

record wbank =
  wb_states :: "wbank_state list"
  wb_pending :: "nat \<Rightarrow> (u32 \<times> bool) option"

definition wb_init :: wbank where
  "wb_init = \<lparr>wb_states = [], wb_pending = (\<lambda>_. None)\<rparr>"

definition bank_active :: "wbank \<Rightarrow> bool" where
  "bank_active b \<longleftrightarrow> (\<exists>rid. wb_pending b rid \<noteq> None) \<or> (\<exists>st \<in> set (wb_states b). wc_active (bs_cache st))"

text \<open>\<open>states_.at(vcpu)\<close>.\<close>

definition state_at :: "wbank \<Rightarrow> u32 \<Rightarrow> wbank_state result" where
  "state_at b vcpu = (if unat vcpu < length (wb_states b) then Inr (wb_states b ! unat vcpu)
     else Inl (Out_of_range ''vector::at''))"

definition set_state :: "wbank \<Rightarrow> u32 \<Rightarrow> wbank_state \<Rightarrow> wbank" where
  "set_state b vcpu st = b\<lparr>wb_states := (wb_states b)[unat vcpu := st]\<rparr>"

definition bank_cache :: "wbank \<Rightarrow> u32 \<Rightarrow> wcache result" where
  "bank_cache b vcpu = res_bind (state_at b vcpu) (\<lambda>st. Inr (bs_cache st))"

definition bank_configure :: "wbank \<Rightarrow> u32 \<Rightarrow> u64 \<Rightarrow> u64 \<Rightarrow> wbank result" where
  "bank_configure b cores base sz =
     (if cores < 1 \<or> cores > 2 \<or> bank_active b
      then Inl (Invalid_argument ''window cache bank requires one or two idle CPUs'')
      else res_bind (res_map (\<lambda>_. configure wc_init base sz) [0..<unat cores])
        (\<lambda>cs. Inr (b\<lparr>wb_states := map (\<lambda>c. \<lparr>bs_cache = c, bs_outstanding = False\<rparr>) cs\<rparr>)))"

definition bank_addRegion :: "wbank \<Rightarrow> u64 \<Rightarrow> u64 \<Rightarrow> wbank result" where
  "bank_addRegion b base sz =
     (if bank_active b then Inl (Logic_error ''adding a cache region during an active transaction'')
      else res_bind (res_map (\<lambda>st. res_bind (addRegion (bs_cache st) base sz) (\<lambda>c. Inr (st\<lparr>bs_cache := c\<rparr>))) (wb_states b))
        (\<lambda>sts. Inr (b\<lparr>wb_states := sts\<rparr>)))"

definition bank_issued :: "wbank \<Rightarrow> u32 \<Rightarrow> nat \<Rightarrow> bool \<Rightarrow> wbank result" where
  "bank_issued b vcpu rid read =
     res_bind (state_at b vcpu) (\<lambda>st.
       if \<not> wc_active (bs_cache st) \<or> bs_outstanding st \<or> wb_pending b rid \<noteq> None
       then Inl (Logic_error ''overlapping window cache backing request'')
       else Inr ((set_state b vcpu (st\<lparr>bs_outstanding := True\<rparr>))\<lparr>wb_pending := (wb_pending b)(rid \<mapsto> (vcpu, read))\<rparr>))"

definition bank_complete :: "wbank \<Rightarrow> nat \<Rightarrow> u32 \<Rightarrow> bool \<Rightarrow> u8 list \<Rightarrow> wbank result" where
  "bank_complete b rid vcpu read bytes =
     (if wb_pending b rid \<noteq> Some (vcpu, read)
      then Inl (Logic_error ''window cache response ownership/type mismatch'')
      else res_bind (state_at b vcpu) (\<lambda>st.
        res_bind (complete (bs_cache st) bytes) (\<lambda>c.
          Inr ((set_state b vcpu (st\<lparr>bs_cache := c, bs_outstanding := False\<rparr>))
                 \<lparr>wb_pending := (wb_pending b)(rid := None)\<rparr>))))"

definition bank_resetCore :: "wbank \<Rightarrow> u32 \<Rightarrow> wbank result" where
  "bank_resetCore b vcpu =
     res_bind (state_at b vcpu) (\<lambda>st.
       if bs_outstanding st \<or> wc_active (bs_cache st)
       then Inl (Logic_error ''window cache reset during an outstanding transaction'')
       else res_bind (wc_reset (bs_cache st)) (\<lambda>c. Inr (set_state b vcpu (st\<lparr>bs_cache := c\<rparr>))))"

text \<open>The owner of a cache runs an operation on it while no request is outstanding.\<close>

definition bank_update :: "wbank \<Rightarrow> u32 \<Rightarrow> wcache \<Rightarrow> wbank" where
  "bank_update b vcpu c = set_state b vcpu ((wb_states b ! unat vcpu)\<lparr>bs_cache := c\<rparr>)"

section \<open>Ownership of requests\<close>

definition bank_inv :: "wbank \<Rightarrow> bool" where
  "bank_inv b \<longleftrightarrow>
     (\<forall>rid v rd. wb_pending b rid = Some (v, rd) \<longrightarrow> unat v < length (wb_states b) \<and>
        bs_outstanding (wb_states b ! unat v) \<and> wc_active (bs_cache (wb_states b ! unat v))) \<and>
     (\<forall>i j v rd rd'. wb_pending b i = Some (v, rd) \<longrightarrow> wb_pending b j = Some (v, rd') \<longrightarrow> i = j) \<and>
     (\<forall>k < length (wb_states b). bs_outstanding (wb_states b ! k) \<longrightarrow>
        (\<exists>rid v rd. wb_pending b rid = Some (v, rd) \<and> unat v = k))"

text \<open>Every history of the bank. \<open>run\<close> stands for the operations of the caches themselves, which
  their owner performs only while no request is outstanding.\<close>

inductive bank_step :: "wbank \<Rightarrow> wbank \<Rightarrow> bool" where
  configure: "bank_configure b n base sz = Inr b' \<Longrightarrow> bank_step b b'"
| region: "bank_addRegion b base sz = Inr b' \<Longrightarrow> bank_step b b'"
| issued: "bank_issued b v rid rd = Inr b' \<Longrightarrow> bank_step b b'"
| completed: "bank_complete b rid v rd bs = Inr b' \<Longrightarrow> bank_step b b'"
| reset: "bank_resetCore b v = Inr b' \<Longrightarrow> bank_step b b'"
| run: "state_at b v = Inr st \<Longrightarrow> \<not> bs_outstanding st \<Longrightarrow> cache_step (bs_cache st) c \<Longrightarrow>
     bank_step b (bank_update b v c)"

inductive bank_reachable :: "wbank \<Rightarrow> bool" where
  init: "bank_reachable wb_init"
| step: "bank_reachable b \<Longrightarrow> bank_step b b' \<Longrightarrow> bank_reachable b'"

lemma no_pair_None: "(\<forall>a b. x \<noteq> Some (a, b)) \<longleftrightarrow> x = None"
  by (cases x) auto

lemma state_at_Inr: "state_at b v = Inr st \<longleftrightarrow> unat v < length (wb_states b) \<and> st = wb_states b ! unat v"
  by (auto simp: state_at_def split: if_splits)

lemma complete_active: "complete c bs = Inr c' \<Longrightarrow> wc_active c' = wc_active c"
  by (auto simp: complete_def update_line_def split: if_splits pending_t.splits)

text \<open>Replacing the cache of a vCPU without an outstanding request.\<close>

lemma bank_inv_quiet_update:
  assumes "bank_inv b" "k < length (wb_states b)" "\<not> bs_outstanding (wb_states b ! k)" "\<not> bs_outstanding st"
  shows "bank_inv (b\<lparr>wb_states := (wb_states b)[k := st]\<rparr>)"
  using assms unfolding bank_inv_def by (auto simp: nth_list_update)

lemma bank_inv_no_requests:
  assumes "\<forall>rid. wb_pending b rid = None" "\<forall>st \<in> set (wb_states b). \<not> bs_outstanding st"
  shows "bank_inv b"
  using assms by (auto simp: bank_inv_def)

lemma bank_active_no_pending: "\<not> bank_active b \<Longrightarrow> wb_pending b rid = None"
  by (metis bank_active_def)

lemma quiet_not_outstanding:
  assumes "bank_inv b" "\<not> bank_active b" "st \<in> set (wb_states b)"
  shows "\<not> bs_outstanding st"
  using assms by (force simp: bank_inv_def bank_active_def in_set_conv_nth)

lemma bank_step_inv:
  assumes "bank_step b b'" "bank_inv b"
  shows "bank_inv b'"
  using assms(1)
proof cases
  case (configure n base sz)
  then have "\<not> bank_active b" by (auto simp: bank_configure_def split: if_splits)
  then show ?thesis using configure bank_active_no_pending [of b]
    by (intro bank_inv_no_requests) (auto simp: bank_configure_def res_bind_Inr_iff split: if_splits)
next
  case (region base sz)
  then have na: "\<not> bank_active b" and rm: "list_all2 (\<lambda>st y. res_bind (addRegion (bs_cache st) base sz) (\<lambda>c. Inr (st\<lparr>bs_cache := c\<rparr>)) = Inr y)
      (wb_states b) (wb_states b')" and p: "wb_pending b' = wb_pending b"
    by (auto simp: bank_addRegion_def res_bind_Inr_iff res_map_Inr_iff split: if_splits)
  have "\<not> bs_outstanding st" if "st \<in> set (wb_states b')" for st
  proof -
    from that rm obtain st0 where "st0 \<in> set (wb_states b)" "bs_outstanding st = bs_outstanding st0"
      by (auto simp: list_all2_conv_all_nth in_set_conv_nth res_bind_Inr_iff) (metis nth_mem wbank_state.select_convs(2) wbank_state.surjective wbank_state.update_convs(1))
    then show ?thesis using quiet_not_outstanding [OF assms(2) na] by simp
  qed
  then show ?thesis using p na bank_active_no_pending by (intro bank_inv_no_requests) auto
next
  case (issued v rid rd)
  let ?st = "wb_states b ! unat v"
  have c: "unat v < length (wb_states b)" "wc_active (bs_cache ?st)" "\<not> bs_outstanding ?st" "wb_pending b rid = None"
    and b': "b' = (set_state b v (?st\<lparr>bs_outstanding := True\<rparr>))\<lparr>wb_pending := (wb_pending b)(rid \<mapsto> (v, rd))\<rparr>"
    using issued by (simp_all add: bank_issued_def res_bind_Inr_iff state_at_Inr no_pair_None split: if_splits)
  have none: "wb_pending b i \<noteq> Some (v, rd')" for i rd' using c(3) assms(2) by (auto simp: bank_inv_def)
  have pb: "wb_pending b' i = (if i = rid then Some (v, rd) else wb_pending b i)" for i by (simp add: b')
  have sb: "wb_states b' = (wb_states b)[unat v := ?st\<lparr>bs_outstanding := True\<rparr>]" by (simp add: b' set_state_def)
  note inv = assms(2) [unfolded bank_inv_def]
  show ?thesis
    unfolding bank_inv_def
  proof (intro conjI allI impI)
    fix i w r assume p: "wb_pending b' i = Some (w, r)"
    show "unat w < length (wb_states b')" "bs_outstanding (wb_states b' ! unat w)" "wc_active (bs_cache (wb_states b' ! unat w))"
      using p inv c by (auto simp: pb sb nth_list_update split: if_splits)
  next
    fix i j w r r' assume "wb_pending b' i = Some (w, r)" "wb_pending b' j = Some (w, r')"
    then show "i = j" using inv none by (auto simp: pb split: if_splits)
  next
    fix k assume k: "k < length (wb_states b')" "bs_outstanding (wb_states b' ! k)"
    show "\<exists>i w r. wb_pending b' i = Some (w, r) \<and> unat w = k"
    proof (cases "k = unat v")
      case True
      then show ?thesis using pb by metis
    next
      case False
      then obtain i w r where "wb_pending b i = Some (w, r)" "unat w = k" using k inv by (auto simp: sb)
      moreover have "i \<noteq> rid" using calculation c(4) by auto
      ultimately show ?thesis using pb by metis
    qed
  qed
next
  case (completed rid v rd bs)
  let ?st = "wb_states b ! unat v"
  obtain c where c: "unat v < length (wb_states b)" "wb_pending b rid = Some (v, rd)" "complete (bs_cache ?st) bs = Inr c"
    and b': "b' = (set_state b v (?st\<lparr>bs_cache := c, bs_outstanding := False\<rparr>))\<lparr>wb_pending := (wb_pending b)(rid := None)\<rparr>"
    using completed by (auto simp: bank_complete_def res_bind_Inr_iff state_at_Inr split: if_splits)
  have only: "unat w \<noteq> unat v" if "wb_pending b i = Some (w, rd')" "i \<noteq> rid" for i w rd'
    using that c(2) assms(2) unfolding bank_inv_def by (metis word_unat_eq_iff)
  have pb: "wb_pending b' i = (if i = rid then None else wb_pending b i)" for i by (simp add: b')
  have sb: "wb_states b' = (wb_states b)[unat v := ?st\<lparr>bs_cache := c, bs_outstanding := False\<rparr>]"
    by (simp add: b' set_state_def)
  note inv = assms(2) [unfolded bank_inv_def]
  show ?thesis
    unfolding bank_inv_def
  proof (intro conjI allI impI)
    fix i w r assume p: "wb_pending b' i = Some (w, r)"
    then have "wb_pending b i = Some (w, r)" "unat w \<noteq> unat v" using only by (auto simp: pb split: if_splits)
    then show "unat w < length (wb_states b')" "bs_outstanding (wb_states b' ! unat w)" "wc_active (bs_cache (wb_states b' ! unat w))"
      using inv by (auto simp: sb)
  next
    fix i j w r r' assume "wb_pending b' i = Some (w, r)" "wb_pending b' j = Some (w, r')"
    then show "i = j" using inv by (auto simp: pb split: if_splits)
  next
    fix k assume k: "k < length (wb_states b')" "bs_outstanding (wb_states b' ! k)"
    then have "k \<noteq> unat v" by (auto simp: sb)
    then obtain i w r where "wb_pending b i = Some (w, r)" "unat w = k" using k inv by (auto simp: sb)
    moreover have "i \<noteq> rid" using calculation c(2) \<open>k \<noteq> unat v\<close> by auto
    ultimately show "\<exists>i w r. wb_pending b' i = Some (w, r) \<and> unat w = k" using pb by metis
  qed
next
  case (reset v)
  then show ?thesis
    using bank_inv_quiet_update [OF assms(2)]
    by (auto simp: bank_resetCore_def res_bind_Inr_iff state_at_Inr set_state_def split: if_splits)
next
  case (run v st c)
  then show ?thesis
    using bank_inv_quiet_update [OF assms(2), of "unat v"] by (auto simp: bank_update_def set_state_def state_at_Inr)
qed

section \<open>Properties\<close>

text \<open>C30. Backing requests are owned: in every state the bank can reach, a registered request belongs
  to a configured vCPU whose cache is active, no vCPU has two, and a vCPU is marked outstanding
  exactly while it has one; a response is accepted only for the vCPU and direction it was issued
  for.\<close>

theorem bank_requests_owned:
  assumes "bank_reachable b"
  shows "(\<forall>rid v rd. wb_pending b rid = Some (v, rd) \<longrightarrow> unat v < length (wb_states b) \<and>
        bs_outstanding (wb_states b ! unat v) \<and> wc_active (bs_cache (wb_states b ! unat v))) \<and>
     (\<forall>i j v rd rd'. wb_pending b i = Some (v, rd) \<longrightarrow> wb_pending b j = Some (v, rd') \<longrightarrow> i = j) \<and>
     (\<forall>k < length (wb_states b). bs_outstanding (wb_states b ! k) \<longrightarrow>
        (\<exists>rid v rd. wb_pending b rid = Some (v, rd) \<and> unat v = k)) \<and>
     (\<forall>rid v rd bs. is_ok (bank_complete b rid v rd bs) \<longrightarrow> wb_pending b rid = Some (v, rd))"
proof -
  from assms have "bank_inv b"
  proof (induction rule: bank_reachable.induct)
    case init
    then show ?case by (rule bank_inv_no_requests) (auto simp: wb_init_def)
  qed (rule bank_step_inv)
  then show ?thesis unfolding bank_inv_def by (auto simp: bank_complete_def split: if_splits)
qed

theorem bank_requests_owned_witness:
  "\<exists>b. bank_reachable b \<and> length (wb_states b) = 2 \<and> (\<forall>rid v rd. wb_pending b rid = Some (v, rd) \<longrightarrow> unat v < 2)"
proof -
  define b where "b = wb_init\<lparr>wb_states := [\<lparr>bs_cache = sample_cache, bs_outstanding = False\<rparr>, \<lparr>bs_cache = sample_cache, bs_outstanding = False\<rparr>]\<rparr>"
  have "bank_configure wb_init 2 0x40000000 0x10000 = Inr b"
    using sample_cache_configured
    by (simp add: bank_configure_def bank_active_def wb_init_def b_def upt_rec)
  then have r: "bank_reachable b" using bank_reachable.init bank_reachable.step bank_step.configure by blast
  have len: "length (wb_states b) = 2" by (simp add: b_def)
  have "unat v < 2" if "wb_pending b rid = Some (v, rd)" for rid v rd
    using bank_requests_owned [OF r] that len by metis
  with r len show ?thesis by blast
qed

end
