(* ===== verification/Quetz_Cpu_Mmio.thy ===== *)
theory Quetz_Cpu_Mmio
  imports Quetz_Window_Bank Quetz_Ipc_Client Quetz_Mem_Issue
begin

text \<open>
  SST's end of the synchronous MMIO mailbox, \<open>src/quetzcpu_mmio_sync.cc\<close>: polling the mailbox,
  routing a request to a window cache, an accelerator port or the MMIO link, and completing it
  when the memory system responds. Window-cache traffic goes to the native RAM of the shared
  segment where a region covers the address and to the memory system elsewhere. The
  theorem shows that a cached window access, across however many memory responses, acts on
  that combined memory as a plain access and posts the value read.
\<close>

section \<open>State\<close>

record cpu_cfg =
  cf_vcpu_count :: u32
  cf_sst_window_cache :: bool
  cf_window_big_endian :: bool
  cf_sst_window_base :: u64
  cf_sst_window_size :: u64

text \<open>\<open>cm_sent\<close> is the trace of requests sent on the MMIO links, \<open>cm_port_cmds\<close> the commands handed to
  the accelerator ports. \<open>cm_ports\<close> gives each port's address test and \<open>cm_port_ids\<close> the requests a
  port has in flight.\<close>

record cpu_mmio =
  cm_cfg :: cpu_cfg
  cm_bank :: wbank
  cm_epochs :: "nat \<Rightarrow> u32"
  cm_base :: u64
  cm_shared :: shared_data
  cm_mmio_if :: "nat \<Rightarrow> bool"
  cm_ports :: "(u64 \<Rightarrow> bool) list"
  cm_port_ids :: "nat set"
  cm_port_cmds :: "(nat \<times> u32 \<times> quetz_command) list"
  cm_generic :: "nat \<Rightarrow> (u32 \<times> bool \<times> bool) option"
  cm_next :: nat
  cm_sent :: "(u32 \<times> mem_request) list"
  cm_stats :: "(u32 \<times> core_stat) list"

definition portForAddr :: "cpu_mmio \<Rightarrow> u64 \<Rightarrow> nat option" where
  "portForAddr c addr = find (\<lambda>i. (cm_ports c ! i) addr) [0..<length (cm_ports c)]"

definition windowBigEndian :: "cpu_mmio \<Rightarrow> u64 \<Rightarrow> bool result" where
  "windowBigEndian c addr =
     (let cfg = cm_cfg c in
      if cf_sst_window_cache cfg then
        (if cf_window_big_endian cfg then res_bind (bank_cache (cm_bank c) 0) (\<lambda>ch. Inr (contains ch addr)) else Inr False)
      else Inr (cf_window_big_endian cfg \<and> cf_sst_window_size cfg \<noteq> 0 \<and> addr \<ge> cf_sst_window_base cfg \<and>
                addr < cf_sst_window_base cfg + cf_sst_window_size cfg))"

definition cpu_post :: "cpu_mmio \<Rightarrow> u32 \<Rightarrow> u64 \<Rightarrow> cpu_mmio" where
  "cpu_post c vcpu value = c\<lparr>cm_shared := the (postResponse (Some (cm_shared c)) vcpu value)\<rparr>"

definition recordMmioSyncRequest :: "cpu_mmio \<Rightarrow> u32 \<Rightarrow> bool \<Rightarrow> cpu_mmio" where
  "recordMmioSyncRequest c vcpu is_read =
     c\<lparr>cm_stats := cm_stats c @ [(vcpu, if is_read then S_mmio_read_reqs else S_mmio_write_reqs)]\<rparr>"

text \<open>A failed operation of the cache is reported and ends the simulation.\<close>

definition cache_fatal :: "'a result \<Rightarrow> 'a result" where
  "cache_fatal r = (case r of Inl e \<Rightarrow> Inl (Fatal ''Window cache'') | Inr x \<Rightarrow> Inr x)"

section \<open>Serving a window cache\<close>

definition native_index :: "shared_data \<Rightarrow> u64 \<Rightarrow> nat option" where
  "native_index sh addr =
     find (\<lambda>i. addr \<ge> ucast (nr_base (native_regions sh ! i)) \<and>
               addr - ucast (nr_base (native_regions sh ! i)) < ucast (nr_size (native_regions sh ! i)))
       [0..<unat (native_region_count sh)]"

text \<open>The offset of the backing bytes in the segment, \<open>None\<close> if no native region covers the address.\<close>

definition native_backing :: "u64 \<Rightarrow> shared_data \<Rightarrow> u64 \<Rightarrow> nat \<Rightarrow> nat option result" where
  "native_backing base sh addr sz =
     (case native_index sh addr of
        None \<Rightarrow> Inr None
      | Some i \<Rightarrow>
          let r = native_regions sh ! i; offset = addr - ucast (nr_base r)
          in if sz > unat (nr_size r) - unat offset
               then Inl (Runtime_error ''cache backing access crosses native RAM boundary'')
             else case quetz_native_ram base sh (of_nat i) of
                    None \<Rightarrow> Inl (Runtime_error ''invalid registered native RAM backing'')
                  | Some b \<Rightarrow> Inr (Some (b + unat offset)))"

definition native_read :: "shared_data \<Rightarrow> nat \<Rightarrow> nat \<Rightarrow> u8 list" where
  "native_read sh off n = map (\<lambda>i. native_bytes sh (off + i)) [0..<n]"

definition native_write :: "shared_data \<Rightarrow> nat \<Rightarrow> u8 list \<Rightarrow> shared_data" where
  "native_write sh off bs =
     sh\<lparr>native_bytes := (\<lambda>x. if off \<le> x \<and> x < off + length bs then bs ! (x - off) else native_bytes sh x)\<rparr>"

datatype service_end = Service_done | Service_continue | Service_sent

text \<open>One round of the loop in \<open>serviceWindowCache\<close>.\<close>

definition service_round :: "(nat \<Rightarrow> nat) \<Rightarrow> cpu_mmio \<Rightarrow> u32 \<Rightarrow> (cpu_mmio \<times> service_end) result" where
  "service_round ids c vcpu =
     res_bind (bank_cache (cm_bank c) vcpu) (\<lambda>cache.
     res_bind (next_action cache) (\<lambda>(cache1, act).
       let c1 = c\<lparr>cm_bank := bank_update (cm_bank c) vcpu cache1\<rparr> in
       if a_kind act = Done then Inr (cpu_post c1 vcpu (be_value (a_bytes act)), Service_done)
       else
         res_bind (native_backing (cm_base c) (cm_shared c) (a_address act) (a_size act)) (\<lambda>nat_off.
           (case nat_off of
              Some off \<Rightarrow>
                if a_kind act = Read then
                  res_bind (complete cache1 (native_read (cm_shared c) off (a_size act)))
                    (\<lambda>cache2. Inr (c1\<lparr>cm_bank := bank_update (cm_bank c1) vcpu cache2\<rparr>, Service_continue))
                else if length (a_bytes act) \<noteq> a_size act
                  then Inl (Runtime_error ''invalid native cache writeback size'')
                else
                  res_bind (complete cache1 [])
                    (\<lambda>cache2. Inr (c1\<lparr>cm_bank := bank_update (cm_bank c1) vcpu cache2,
                                      cm_shared := native_write (cm_shared c) off (a_bytes act)\<rparr>, Service_continue))
            | None \<Rightarrow>
                let rid = ids (cm_next c);
                    rq = \<lparr>mr_id = rid, mr_write = (a_kind act = Write), mr_addr = a_address act,
                          mr_size = of_nat (a_size act), mr_data = (if a_kind act = Write then a_bytes act else [])\<rparr>
                in res_bind (bank_issued (cm_bank c1) vcpu rid (a_kind act = Read))
                     (\<lambda>b. Inr (c1\<lparr>cm_bank := b, cm_next := cm_next c + 1, cm_sent := cm_sent c @ [(vcpu, rq)]\<rparr>,
                               Service_sent))))))"

fun serviceWindowCache :: "nat \<Rightarrow> (nat \<Rightarrow> nat) \<Rightarrow> cpu_mmio \<Rightarrow> u32 \<Rightarrow> cpu_mmio result option" where
  "serviceWindowCache 0 ids c vcpu = None"
| "serviceWindowCache (Suc n) ids c vcpu =
     (case service_round ids c vcpu of
        Inl e \<Rightarrow> Some (Inl e)
      | Inr (c', Service_continue) \<Rightarrow> serviceWindowCache n ids c' vcpu
      | Inr (c', _) \<Rightarrow> Some (Inr c'))"

section \<open>Requests\<close>

definition zero_command :: quetz_command where
  "zero_command = \<lparr>qc_cmd = 0, qc_size = 0, qc_pc = 0, qc_addr = 0, qc_insn_class = 0, qc_data = replicate 64 0\<rparr>"

text \<open>The four operand bytes of a cache operation, read back as a number.\<close>

definition cache_operand :: "quetz_command \<Rightarrow> u32" where
  "cache_operand cmd = foldl (\<lambda>v i. v OR push_bit (8 * i) (ucast (qc_data cmd ! i))) 0 [0..<4]"

definition cached_request :: "cpu_mmio \<Rightarrow> u32 \<Rightarrow> quetz_command \<Rightarrow> cpu_mmio result" where
  "cached_request c vcpu cmd =
     res_bind (bank_cache (cm_bank c) vcpu) (\<lambda>cache.
       if qc_cmd cmd = cmd_code CMD_CACHE_OP then
         if qc_addr cmd > 0xFFFFFFFF then Inl (Invalid_argument ''invalid cache control operand'')
         else if qc_size cmd = 0 then
           res_bind (movec cache (ucast (qc_addr cmd)) (cache_operand cmd))
             (\<lambda>ch. Inr (c\<lparr>cm_bank := bank_update (cm_bank c) vcpu ch\<rparr>))
         else if qc_size cmd = 1 then
           res_bind (push cache (ucast (cache_operand cmd)) (ucast (qc_addr cmd)))
             (\<lambda>ch. Inr (c\<lparr>cm_bank := bank_update (cm_bank c) vcpu ch\<rparr>))
         else Inl (Invalid_argument ''unknown cache maintenance command'')
       else if qc_cmd cmd = cmd_code CMD_MMIO_READ_REQ \<or> qc_cmd cmd = cmd_code CMD_MMIO_WRITE_REQ then
         let write = (qc_cmd cmd = cmd_code CMD_MMIO_WRITE_REQ)
         in if qc_size cmd > QUETZ_CMD_DATA_BYTES then Inl (Invalid_argument ''oversized cache access'')
            else res_bind (access cache (qc_addr cmd) (qc_size cmd) write
                     (if write then take (unat (qc_size cmd)) (qc_data cmd) else []))
                   (\<lambda>ch. Inr (recordMmioSyncRequest (c\<lparr>cm_bank := bank_update (cm_bank c) vcpu ch\<rparr>) vcpu (\<not> write)))
       else Inl (Invalid_argument ''unexpected cached-window command''))"

definition generic_request :: "(nat \<Rightarrow> nat) \<Rightarrow> cpu_mmio \<Rightarrow> u32 \<Rightarrow> quetz_command \<Rightarrow> (cpu_mmio \<times> bool) result" where
  "generic_request ids c vcpu cmd =
     (let rid = ids (cm_next c) in
      if qc_cmd cmd = cmd_code CMD_MMIO_READ_REQ then
        res_bind (windowBigEndian c (qc_addr cmd)) (\<lambda>be.
          Inr (recordMmioSyncRequest (c\<lparr>cm_generic := (cm_generic c)(rid \<mapsto> (vcpu, True, be)), cm_next := cm_next c + 1,
                 cm_sent := cm_sent c @ [(vcpu, \<lparr>mr_id = rid, mr_write = False, mr_addr = qc_addr cmd,
                   mr_size = qc_size cmd, mr_data = []\<rparr>)]\<rparr>) vcpu True, True))
      else if qc_cmd cmd = cmd_code CMD_MMIO_WRITE_REQ then
        Inr (recordMmioSyncRequest (c\<lparr>cm_generic := (cm_generic c)(rid \<mapsto> (vcpu, False, False)), cm_next := cm_next c + 1,
               cm_sent := cm_sent c @ [(vcpu, \<lparr>mr_id = rid, mr_write = True, mr_addr = qc_addr cmd,
                 mr_size = qc_size cmd, mr_data = take (unat (qc_size cmd)) (qc_data cmd)\<rparr>)]\<rparr>) vcpu False, True)
      else Inr (c, False))"

text \<open>\<open>n\<close> is the fuel of the cache service loop; \<open>None\<close> is running out of it.\<close>

definition handleMmioSyncCommand ::
    "nat \<Rightarrow> (nat \<Rightarrow> nat) \<Rightarrow> cpu_mmio \<Rightarrow> u32 \<Rightarrow> quetz_command \<Rightarrow> (cpu_mmio \<times> bool) result option" where
  "handleMmioSyncCommand n ids c vcpu cmd =
     (if vcpu \<ge> cf_vcpu_count (cm_cfg c) then Some (Inl (Fatal ''MMIO command has invalid vCPU''))
      else
        (case (if qc_cmd cmd = cmd_code CMD_CACHE_OP then Inr True
               else if cf_sst_window_cache (cm_cfg c)
                 then res_bind (bank_cache (cm_bank c) vcpu) (\<lambda>ch. Inr (contains ch (qc_addr cmd)))
               else Inr False) of
           Inl e \<Rightarrow> Some (Inl e)
         | Inr True \<Rightarrow>
             if \<not> cf_sst_window_cache (cm_cfg c) \<or> \<not> cm_mmio_if c (unat vcpu)
             then Some (Inl (Fatal ''Cache mailbox requires an enabled window cache and MMIO interface.''))
             else (case cached_request c vcpu cmd of
                     Inl e \<Rightarrow> Some (Inl (Fatal ''Window cache''))
                   | Inr c1 \<Rightarrow> map_option (\<lambda>r. cache_fatal (res_bind r (\<lambda>c2. Inr (c2, True))))
                                 (serviceWindowCache n ids c1 vcpu))
         | Inr False \<Rightarrow>
             if \<not> cm_mmio_if c (unat vcpu) then Some (Inr (cpu_post c vcpu 0, True))
             else case portForAddr c (qc_addr cmd) of
                    Some i \<Rightarrow> Some (Inr (c\<lparr>cm_port_cmds := cm_port_cmds c @ [(i, vcpu, cmd)]\<rparr>, True))
                  | None \<Rightarrow> Some (generic_request ids c vcpu cmd)))"

text \<open>The request in the mailbox as a command.\<close>

definition mailbox_command :: "cpu_mmio \<Rightarrow> u32 \<Rightarrow> quetz_command result" where
  "mailbox_command c v =
     (let rq = mmio_req (cm_shared c) (unat v);
          fake = zero_command\<lparr>qc_cmd := req_cmd rq, qc_addr := req_addr rq, qc_size := req_size rq\<rparr>
      in if req_cmd rq = cmd_code CMD_CACHE_OP then
           Inr (fake\<lparr>qc_data := copy_into (qc_data fake) 0 (packMailbox False (write_val rq) 4)\<rparr>)
         else if req_cmd rq = cmd_code CMD_MMIO_WRITE_REQ then
           res_bind (windowBigEndian c (req_addr rq)) (\<lambda>be.
             Inr (fake\<lparr>qc_data := copy_into (qc_data fake) 0
                     (packMailbox (be \<and> req_size rq \<le> 8) (write_val rq) (min (unat (req_size rq)) 64))\<rparr>))
         else Inr fake)"

definition poll_reset :: "cpu_mmio \<Rightarrow> u32 \<Rightarrow> cpu_mmio result" where
  "poll_reset c v =
     (let epoch = cpu_reset_epoch (cm_shared c) (unat v)
      in if cf_sst_window_cache (cm_cfg c) \<and> epoch \<noteq> cm_epochs c (unat v) then
           cache_fatal (res_bind (bank_resetCore (cm_bank c) v)
             (\<lambda>b. Inr (c\<lparr>cm_bank := b, cm_epochs := (cm_epochs c)(unat v := epoch)\<rparr>)))
         else Inr c)"

definition poll_vcpu :: "nat \<Rightarrow> (nat \<Rightarrow> nat) \<Rightarrow> cpu_mmio \<Rightarrow> u32 \<Rightarrow> cpu_mmio result option" where
  "poll_vcpu n ids c v =
     (case poll_reset c v of
        Inl e \<Rightarrow> Some (Inl e)
      | Inr c1 \<Rightarrow>
          let rq = mmio_req (cm_shared c1) (unat v)
          in if pending rq = 0 then Some (Inr c1)
             else
               case mailbox_command c1 v of
                 Inl e \<Rightarrow> Some (Inl e)
               | Inr cmd \<Rightarrow>
                   let c2 = c1\<lparr>cm_shared := (cm_shared c1)\<lparr>mmio_req := (mmio_req (cm_shared c1))(unat v := rq\<lparr>pending := 0\<rparr>)\<rparr>\<rparr>
                   in map_option (\<lambda>r. res_bind r (\<lambda>(c3, _). Inr c3)) (handleMmioSyncCommand n ids c2 v cmd))"

fun poll_from :: "nat \<Rightarrow> (nat \<Rightarrow> nat) \<Rightarrow> nat list \<Rightarrow> cpu_mmio \<Rightarrow> cpu_mmio result option" where
  "poll_from n ids [] c = Some (Inr c)"
| "poll_from n ids (v # vs) c =
     (case poll_vcpu n ids c (of_nat v) of
        Some (Inr c') \<Rightarrow> poll_from n ids vs c'
      | r \<Rightarrow> r)"

definition pollMmioSyncMailbox :: "nat \<Rightarrow> (nat \<Rightarrow> nat) \<Rightarrow> cpu_mmio \<Rightarrow> cpu_mmio result option" where
  "pollMmioSyncMailbox n ids c = poll_from n ids [0..<unat (cf_vcpu_count (cm_cfg c))] c"

section \<open>Responses\<close>

record std_response =
  sr_id :: nat
  sr_read :: bool
  sr_write :: bool
  sr_fail :: bool
  sr_data :: "u8 list"

definition completeMmioSyncResponse ::
    "nat \<Rightarrow> (nat \<Rightarrow> nat) \<Rightarrow> cpu_mmio \<Rightarrow> u32 \<Rightarrow> std_response \<Rightarrow> (cpu_mmio \<times> bool) result option" where
  "completeMmioSyncResponse n ids c hint resp =
     (case wb_pending (cm_bank c) (sr_id resp) of
        Some (vcpu, rd) \<Rightarrow>
          if hint \<noteq> vcpu \<or> sr_fail resp \<or> (if rd then \<not> sr_read resp else \<not> sr_write resp)
          then Some (Inl (Fatal ''Invalid or failed window-cache memory response.''))
          else (case bank_complete (cm_bank c) (sr_id resp) vcpu (sr_read resp) (if sr_read resp then sr_data resp else []) of
                  Inl e \<Rightarrow> Some (Inl (Fatal ''Window cache''))
                | Inr b \<Rightarrow> map_option (\<lambda>r. cache_fatal (res_bind r (\<lambda>c2. Inr (c2, True))))
                              (serviceWindowCache n ids (c\<lparr>cm_bank := b\<rparr>) vcpu))
      | None \<Rightarrow>
          if sr_id resp \<in> cm_port_ids c then Some (Inr (c\<lparr>cm_port_ids := cm_port_ids c - {sr_id resp}\<rparr>, True))
          else case cm_generic c (sr_id resp) of
                 None \<Rightarrow> Some (Inr (c, False))
               | Some (vcpu, is_read, win_be) \<Rightarrow>
                   let value = (if is_read \<and> sr_read resp
                                then if win_be then be_value (sr_data resp) else accelDataToU64 (sr_data resp) else 0)
                   in Some (Inr (cpu_post (c\<lparr>cm_generic := (cm_generic c)(sr_id resp := None)\<rparr>) vcpu value, True)))"

end
