(* ===== verification/Quetz_Cpu_Mmio_Refine.thy ===== *)
theory Quetz_Cpu_Mmio_Refine
  imports Quetz_Cpu_Mmio
begin

text \<open>
  The memory behind the window caches, native RAM and memory system together, as an instance of
  the line memory the cache relies on, and the composition of mailbox requests, cache service
  and memory responses into one access.
\<close>

section \<open>Native RAM and the memory system as one memory\<close>

type_synonym backing = "shared_data \<times> mem"

definition backing_at :: "u64 \<Rightarrow> shared_data \<Rightarrow> u64 \<Rightarrow> nat option" where
  "backing_at base sh a =
     (if quetz_native_regions_valid base sh
      then map_option (\<lambda>i. unat (nr_offset (native_regions sh ! i)) + unat (a - ucast (nr_base (native_regions sh ! i))))
             (native_index sh a)
      else None)"

definition backing_peek :: "u64 \<Rightarrow> backing \<Rightarrow> mem" where
  "backing_peek base m x = (case backing_at base (fst m) x of Some off \<Rightarrow> native_bytes (fst m) off | None \<Rightarrow> snd m x)"

definition backing_read :: "u64 \<Rightarrow> backing \<Rightarrow> u64 \<Rightarrow> nat \<Rightarrow> u8 list" where
  "backing_read base m a n = (case backing_at base (fst m) a of Some off \<Rightarrow> native_read (fst m) off n
     | None \<Rightarrow> mem_read (snd m) a n)"

definition backing_write :: "u64 \<Rightarrow> backing \<Rightarrow> u64 \<Rightarrow> u8 list \<Rightarrow> backing" where
  "backing_write base m a bs = (case backing_at base (fst m) a of Some off \<Rightarrow> (native_write (fst m) off bs, snd m)
     | None \<Rightarrow> (fst m, mem_write (snd m) a bs))"

text \<open>An address lies in a valid native region exactly if its line does.\<close>

definition in_region :: "native_ram_region \<Rightarrow> u64 \<Rightarrow> bool" where
  "in_region r a \<longleftrightarrow> a \<ge> ucast (nr_base r) \<and> a - ucast (nr_base r) < ucast (nr_size r)"

lemma native_index_in_region: "native_index sh a = find (\<lambda>i. in_region (native_regions sh ! i) a) [0..<unat (native_region_count sh)]"
  by (simp add: native_index_def in_region_def)

lemma in_region_nat: "in_region r a \<longleftrightarrow> unat (nr_base r) \<le> unat a \<and> unat a < unat (nr_base r) + unat (nr_size r)"
  by (auto simp: in_region_def word_le_nat_alt word_less_nat_alt unat_sub)

lemma region_offset: "in_region r a \<Longrightarrow> unat (a - ucast (nr_base r)) = unat a - unat (nr_base r)"
  by (simp add: in_region_def word_le_nat_alt unat_sub)

lemma line_addr_add:
  assumes "unat (a :: u64) mod 16 + i < 16"
  shows "unat (a + of_nat i) = unat a + i"
proof -
  have "unat a div 16 < 2 ^ 60" using unat_less_64 [of a] by (simp add: less_mult_imp_div_less)
  then have "16 * (unat a div 16) + 16 \<le> 2 ^ 64" by simp
  moreover have "unat a = 16 * (unat a div 16) + unat a mod 16" by simp
  ultimately have "unat a + i < 2 ^ 64" using assms by linarith
  then show ?thesis by (rule unat_add_of_nat_64)
qed

lemma in_region_line:
  assumes "guest_region_ok r" "unat a mod 16 + i < 16"
  shows "in_region r (a + of_nat i) = in_region r a"
proof -
  have m: "unat (nr_base r) mod 4096 = 0" "unat (nr_size r) mod 4096 = 0"
    using assms(1) by (auto simp: guest_region_ok_def)
  obtain b s where bs: "unat (nr_base r) = 16 * b" "unat (nr_base r) + unat (nr_size r) = 16 * s"
  proof -
    have "16 dvd unat (nr_base r)" "16 dvd unat (nr_size r)"
      using m by (auto intro: dvd_trans [of 16 4096])
    then show thesis using that by (metis dvd_add dvdE)
  qed
  define q k where "q = unat a div 16" and "k = unat a mod 16"
  have u: "unat a = 16 * q + k" "k + i < 16" using assms(2) by (simp_all add: q_def k_def)
  have "16 * b \<le> 16 * q + k + i \<longleftrightarrow> 16 * b \<le> 16 * q + k" "16 * q + k + i < 16 * s \<longleftrightarrow> 16 * q + k < 16 * s"
  proof -
    have le: "16 * b \<le> 16 * q + j \<longleftrightarrow> b \<le> q" "16 * q + j < 16 * s \<longleftrightarrow> q < s" if "j < 16" for j
      using that by (intro iffI; linarith)+
    show "16 * b \<le> 16 * q + k + i \<longleftrightarrow> 16 * b \<le> 16 * q + k" "16 * q + k + i < 16 * s \<longleftrightarrow> 16 * q + k < 16 * s"
      using u(2) le [of "k + i"] le [of k] by (simp_all add: add.assoc)
  qed
  then show ?thesis unfolding in_region_nat line_addr_add [OF assms(2)] bs(2) unfolding bs(1) u(1) by blast
qed

lemma native_index_line:
  assumes "quetz_native_regions_valid base sh" "unat a mod 16 + i < 16"
  shows "native_index sh (a + of_nat i) = native_index sh a"
  unfolding native_index_in_region
  using assms native_regions_valid_ok [OF assms(1)] in_region_line [OF _ assms(2)]
  by (intro find_cong) (auto simp: native_region_ok_nat)

lemma native_index_Some:
  assumes "native_index sh a = Some i"
  shows "i < unat (native_region_count sh)" "in_region (native_regions sh ! i) a"
  using assms unfolding native_index_in_region by (auto dest: find_SomeD)

lemma backing_at_line:
  assumes "unat a mod 16 + i < 16"
  shows "backing_at base sh (a + of_nat i) = map_option (\<lambda>off. off + i) (backing_at base sh a)"
proof (cases "quetz_native_regions_valid base sh")
  case True
  show ?thesis
  proof (cases "native_index sh a")
    case (Some k)
    let ?r = "native_regions sh ! k"
    have ok: "guest_region_ok ?r"
      using native_regions_valid_ok [OF True native_index_Some(1) [OF Some]] by (simp add: native_region_ok_nat)
    have r: "in_region ?r a" "in_region ?r (a + of_nat i)"
      using native_index_Some(2) [OF Some] in_region_line [OF ok assms] by auto
    have "unat (a + of_nat i - ucast (nr_base ?r)) = unat (a - ucast (nr_base ?r)) + i"
      unfolding region_offset [OF r(1)] region_offset [OF r(2)] line_addr_add [OF assms]
      using r(1) by (simp add: in_region_nat)
    then show ?thesis using True Some native_index_line [OF True assms] by (simp add: backing_at_def)
  qed (use True native_index_line [OF True assms] in \<open>simp add: backing_at_def\<close>)
qed (simp add: backing_at_def)

lemma native_write_regions [simp]:
  "native_regions (native_write sh off bs) = native_regions sh"
  "native_region_count (native_write sh off bs) = native_region_count sh"
  by (simp_all add: native_write_def)

lemma native_write_bytes:
  "native_bytes (native_write sh off bs) x = (if off \<le> x \<and> x < off + length bs then bs ! (x - off) else native_bytes sh x)"
  by (simp add: native_write_def)

lemma native_index_cong:
  "native_regions sh' = native_regions sh \<Longrightarrow> native_region_count sh' = native_region_count sh \<Longrightarrow>
   native_index sh' = native_index sh \<and> quetz_native_regions_valid base sh' = quetz_native_regions_valid base sh"
  by (simp add: native_index_def quetz_native_regions_valid_def fun_eq_iff)

lemma backing_at_cong:
  "native_regions sh' = native_regions sh \<Longrightarrow> native_region_count sh' = native_region_count sh \<Longrightarrow>
   backing_at base sh' = backing_at base sh"
  using native_index_cong [of sh' sh base] by (simp add: backing_at_def fun_eq_iff)

lemma backing_at_native_write [simp]: "backing_at base (native_write sh off bs) = backing_at base sh"
  by (rule backing_at_cong) simp_all

text \<open>Distinct addresses have distinct backing bytes.\<close>

lemma backing_at_inj:
  assumes "backing_at base sh a = Some off" "backing_at base sh b = Some off"
  shows "a = b"
proof -
  have v: "quetz_native_regions_valid base sh" using assms(1) by (simp add: backing_at_def split: if_splits)
  obtain i j where i: "native_index sh a = Some i" "off = unat (nr_offset (native_regions sh ! i)) + (unat a - unat (nr_base (native_regions sh ! i)))"
    and j: "native_index sh b = Some j" "off = unat (nr_offset (native_regions sh ! j)) + (unat b - unat (nr_base (native_regions sh ! j)))"
    using assms v region_offset native_index_Some(2) by (auto simp: backing_at_def)
  note ri = native_index_Some [OF i(1)] and rj = native_index_Some [OF j(1)]
  have "off \<in> storage_range (native_regions sh ! i)" "off \<in> storage_range (native_regions sh ! j)"
    using i(2) j(2) ri(2) rj(2) by (auto simp: in_region_nat)
  then have "i = j" using native_regions_valid_apart(2) [OF v ri(1) rj(1)] by auto
  then show ?thesis using i(2) j(2) ri(2) rj(2) by (auto simp: in_region_nat word_unat_eq_iff)
qed

lemma line_offset_add:
  assumes "unat (x - a) < n" "unat (a :: u64) mod 16 + n \<le> 16"
  shows "x = a + of_nat (unat (x - a)) \<and> unat a mod 16 + unat (x - a) < 16"
  using assms by simp

interpretation backing: line_memory "backing_peek base" "backing_read base" "backing_write base" for base
proof
  fix a :: u64 and n :: nat and m :: backing
  assume n: "unat a mod 16 + n \<le> 16"
  then have at: "backing_at base (fst m) (a + of_nat i) = map_option (\<lambda>off. off + i) (backing_at base (fst m) a)"
    if "i < n" for i using that by (intro backing_at_line) simp
  show "backing_read base m a n = mem_read (backing_peek base m) a n"
    by (cases "backing_at base (fst m) a") (auto simp: backing_read_def native_read_def mem_read_def backing_peek_def at)
next
  fix a :: u64 and bs :: "u8 list" and m :: backing
  assume n: "unat a mod 16 + length bs \<le> 16"
  show "backing_peek base (backing_write base m a bs) = mem_write (backing_peek base m) a bs"
  proof
    fix x
    let ?at = "backing_at base (fst m)"
    have inside: "?at x = map_option (\<lambda>off. off + unat (x - a)) (?at a)" if "unat (x - a) < length bs"
      using line_offset_add [OF that n] backing_at_line [of a "unat (x - a)" base "fst m"] by metis
    have hit: "unat (x - a) < length bs" if "?at a = Some off" "?at x = Some off'" "off \<le> off'" "off' < off + length bs" for off off'
    proof -
      define d where "d = off' - off"
      have d: "off' = off + d" "d < length bs" using that(3,4) by (auto simp: d_def)
      then have "?at (a + of_nat d) = Some off'"
        using backing_at_line [of a d base "fst m"] that(1) n by simp
      then have "x = a + of_nat d" using backing_at_inj that(2) by blast
      moreover have "unat (of_nat d :: u64) = d" using d(2) n by (intro unat_of_nat_small) simp
      ultimately show ?thesis using d(2) by simp
    qed
    show "backing_peek base (backing_write base m a bs) x = mem_write (backing_peek base m) a bs x"
    proof (cases "?at a")
      case None
      then show ?thesis using inside
        by (auto simp: backing_write_def backing_peek_def mem_write_def split: option.split)
    next
      case (Some off)
      show ?thesis
      proof (cases "unat (x - a) < length bs")
        case True
        then show ?thesis using inside Some
          by (simp add: backing_write_def backing_peek_def mem_write_def native_write_bytes)
      next
        case False
        have "\<not> (off \<le> off' \<and> off' < off + length bs)" if "?at x = Some off'" for off'
          using hit [OF Some that] False by blast
        then show ?thesis using False Some
          by (auto simp: backing_write_def backing_peek_def mem_write_def native_write_bytes split: option.split)
      qed
    qed
  qed
qed

section \<open>A transaction driven by the memory system\<close>

lemma native_backing_eq:
  assumes "quetz_native_regions_valid base sh" "unat a mod 16 + n \<le> 16"
  shows "native_backing base sh a n = Inr (backing_at base sh a)"
proof (cases "native_index sh a")
  case (Some i)
  let ?r = "native_regions sh ! i"
  note i = native_index_Some [OF Some]
  have ok: "guest_region_ok ?r" using native_regions_valid_ok [OF assms(1) i(1)] by (simp add: native_region_ok_nat)
  have fits: "\<not> n > unat (nr_size ?r) - unat (a - ucast (nr_base ?r))"
  proof (cases n)
    case (Suc k)
    then have "in_region ?r (a + of_nat k)" using in_region_line [OF ok, of a k] i(2) assms(2) by simp
    then show ?thesis
      using Suc line_addr_add [of a k] assms(2) i(2) by (simp add: region_offset in_region_nat)
  qed simp
  have u: "unat (of_nat i :: u32) = i"
    using i(1) unat_less_32 [of "native_region_count sh"] by (intro unat_of_nat_small) simp
  then have "quetz_native_ram base sh (of_nat i) = Some (unat (nr_offset ?r))"
    using assms(1) i(1) by (simp add: quetz_native_ram_def word_le_nat_alt)
  then show ?thesis using Some fits assms(1) by (simp add: native_backing_def backing_at_def Let_def)
qed (use assms in \<open>simp add: native_backing_def backing_at_def\<close>)

text \<open>The memory system answers the request sent last.\<close>

definition sst_response :: "mem \<Rightarrow> mem_request \<Rightarrow> std_response" where
  "sst_response m rq = \<lparr>sr_id = mr_id rq, sr_read = (\<not> mr_write rq), sr_write = mr_write rq, sr_fail = False,
     sr_data = (if mr_write rq then [] else mem_read m (mr_addr rq) (unat (mr_size rq)))\<rparr>"

definition sst_memory :: "mem \<Rightarrow> mem_request \<Rightarrow> mem" where
  "sst_memory m rq = (if mr_write rq then mem_write m (mr_addr rq) (mr_data rq) else m)"

fun drive :: "nat \<Rightarrow> nat \<Rightarrow> (nat \<Rightarrow> nat) \<Rightarrow> cpu_mmio \<Rightarrow> mem \<Rightarrow> u32 \<Rightarrow> (cpu_mmio \<times> mem) result option" where
  "drive F 0 ids c m v = None"
| "drive F (Suc n) ids c m v =
     (if \<not> bs_outstanding (wb_states (cm_bank c) ! unat v) then Some (Inr (c, m))
      else let rq = snd (last (cm_sent c))
           in case completeMmioSyncResponse F ids c v (sst_response m rq) of
                None \<Rightarrow> None
              | Some (Inl e) \<Rightarrow> Some (Inl e)
              | Some (Inr (c', _)) \<Rightarrow> drive F n ids c' (sst_memory m rq) v)"

text \<open>The CPU while vCPU \<open>v\<close> has cache \<open>s\<close> and no request outstanding.\<close>

definition settled :: "(nat \<Rightarrow> nat) \<Rightarrow> cpu_mmio \<Rightarrow> u32 \<Rightarrow> wcache \<Rightarrow> bool" where
  "settled ids c v s \<longleftrightarrow> inj ids \<and> unat v < length (wb_states (cm_bank c)) \<and>
     wb_states (cm_bank c) ! unat v = \<lparr>bs_cache = s, bs_outstanding = False\<rparr> \<and>
     (\<forall>j \<ge> cm_next c. wb_pending (cm_bank c) (ids j) = None) \<and>
     quetz_native_regions_valid (cm_base c) (cm_shared c)"

lemma settled_update [simp]:
  "settled ids c v s \<Longrightarrow> bank_cache (cm_bank c) v = Inr s"
  "settled ids c v s \<Longrightarrow> wb_states (bank_update (cm_bank c) v s') ! unat v = \<lparr>bs_cache = s', bs_outstanding = False\<rparr>"
  "settled ids c v s \<Longrightarrow> settled ids (c\<lparr>cm_bank := bank_update (cm_bank c) v s'\<rparr>) v s'"
  by (simp_all add: settled_def bank_cache_def state_at_def bank_update_def set_state_def)

lemma bank_update_twice [simp]: "bank_update (bank_update b v s) v s' = bank_update b v s'"
  by (cases "unat v < length (wb_states b)") (simp_all add: bank_update_def set_state_def list_update_beyond)

lemma service_native:
  assumes "settled ids c v s" "next_action s = Inr (s1, act)" "a_kind act \<noteq> Done"
    and "unat (a_address act) mod 16 + a_size act \<le> 16" "a_kind act = Write \<Longrightarrow> length (a_bytes act) = a_size act"
    and "backing_at (cm_base c) (cm_shared c) (a_address act) = Some off"
    and "complete s1 (if a_kind act = Read then native_read (cm_shared c) off (a_size act) else []) = Inr s2"
  shows "service_round ids c v = Inr (c\<lparr>cm_bank := bank_update (cm_bank c) v s2,
      cm_shared := (if a_kind act = Read then cm_shared c else native_write (cm_shared c) off (a_bytes act))\<rparr>, Service_continue)"
proof -
  have nb: "native_backing (cm_base c) (cm_shared c) (a_address act) (a_size act) = Inr (Some off)"
    using native_backing_eq assms(1,4,6) by (simp add: settled_def)
  have "a_kind act = Read \<or> a_kind act = Write" using assms(3) by (cases "a_kind act") auto
  then show ?thesis
    using assms nb by (auto simp: service_round_def Let_def)
qed

lemma service_send:
  assumes "settled ids c v s" "next_action s = Inr (s1, act)" "a_kind act \<noteq> Done" "wc_active s1"
    and "unat (a_address act) mod 16 + a_size act \<le> 16" "a_kind act = Write \<Longrightarrow> length (a_bytes act) = a_size act"
    and "backing_at (cm_base c) (cm_shared c) (a_address act) = None"
    and "complete s1 (if a_kind act = Read then mem_read m (a_address act) (a_size act) else []) = Inr s2"
  shows "\<exists>c1 c2. service_round ids c v = Inr (c1, Service_sent) \<and> bs_outstanding (wb_states (cm_bank c1) ! unat v) \<and>
    completeMmioSyncResponse F ids c1 v (sst_response m (snd (last (cm_sent c1)))) =
      map_option (\<lambda>r. cache_fatal (res_bind r (\<lambda>c. Inr (c, True)))) (serviceWindowCache F ids c2 v) \<and>
    sst_memory m (snd (last (cm_sent c1))) = (if a_kind act = Read then m else mem_write m (a_address act) (a_bytes act)) \<and>
    settled ids c2 v s2 \<and> cm_shared c2 = cm_shared c \<and> cm_base c2 = cm_base c"
proof -
  let ?rid = "ids (cm_next c)"
  let ?rq = "\<lparr>mr_id = ?rid, mr_write = (a_kind act = Write), mr_addr = a_address act, mr_size = of_nat (a_size act),
      mr_data = (if a_kind act = Write then a_bytes act else [])\<rparr>"
  let ?b0 = "bank_update (cm_bank c) v s1"
  define b1 where "b1 = (set_state ?b0 v \<lparr>bs_cache = s1, bs_outstanding = True\<rparr>)\<lparr>wb_pending := (wb_pending (cm_bank c))(?rid \<mapsto> (v, a_kind act = Read))\<rparr>"
  define c1 where "c1 = c\<lparr>cm_bank := b1, cm_next := cm_next c + 1, cm_sent := cm_sent c @ [(v, ?rq)]\<rparr>"
  define c2 where "c2 = c1\<lparr>cm_bank := (bank_update (cm_bank c) v s2)\<lparr>wb_pending := (wb_pending (cm_bank c))(?rid := None)\<rparr>\<rparr>"
  have st: "unat v < length (wb_states (cm_bank c))" "wb_states (cm_bank c) ! unat v = \<lparr>bs_cache = s, bs_outstanding = False\<rparr>"
      "wb_pending (cm_bank c) ?rid = None" "inj ids"
    using assms(1) by (auto simp: settled_def)
  have kind: "a_kind act = Read \<or> a_kind act = Write" using assms(3) by (cases "a_kind act") auto
  have nb: "native_backing (cm_base c) (cm_shared c) (a_address act) (a_size act) = Inr None"
    using native_backing_eq assms(1,5,7) by (simp add: settled_def)
  have iss: "bank_issued ?b0 v ?rid (a_kind act = Read) = Inr b1"
    using st assms(4) by (simp add: bank_issued_def state_at_def bank_update_def set_state_def b1_def)
  have "service_round ids c v = Inr (c1, Service_sent)"
    using assms(1-3) nb iss by (simp add: service_round_def Let_def c1_def)
  moreover have sz: "unat (of_nat (a_size act) :: u32) = a_size act" using assms(5) by (intro unat_of_nat_small) simp
  have cm: "bank_complete b1 ?rid v (a_kind act = Read) (if a_kind act = Read then mem_read m (a_address act) (a_size act) else [])
      = Inr (cm_bank c2)"
    using st assms(8)
    by (simp add: bank_complete_def state_at_def b1_def set_state_def bank_update_def c2_def c1_def)
  have "completeMmioSyncResponse F ids c1 v (sst_response m (snd (last (cm_sent c1)))) =
      map_option (\<lambda>r. cache_fatal (res_bind r (\<lambda>c. Inr (c, True)))) (serviceWindowCache F ids c2 v)"
    using kind cm sz
    by (auto simp: completeMmioSyncResponse_def c1_def b1_def sst_response_def c2_def)
  moreover have "sst_memory m (snd (last (cm_sent c1))) = (if a_kind act = Read then m else mem_write m (a_address act) (a_bytes act))"
    using kind by (auto simp: sst_memory_def c1_def)
  moreover have "settled ids c2 v s2" "cm_shared c2 = cm_shared c" "cm_base c2 = cm_base c"
    using assms(1) st by (auto simp: settled_def c2_def c1_def bank_update_def set_state_def)
  moreover have "bs_outstanding (wb_states (cm_bank c1) ! unat v)"
    using st by (simp add: c1_def b1_def set_state_def bank_update_def)
  ultimately show ?thesis by blast
qed

lemma next_action_active:
  "next_action s = Inr (s1, act) \<Longrightarrow> accessing s \<Longrightarrow> a_kind act \<noteq> Done \<Longrightarrow> complete s1 bs = Inr s2 \<Longrightarrow> wc_active s1"
  by (auto simp: complete_def split: if_splits)

text \<open>What has been posted for vCPU \<open>v\<close> at the end.\<close>

definition settled_post :: "(nat \<Rightarrow> nat) \<Rightarrow> u64 \<Rightarrow> u32 \<Rightarrow> cpu_mmio \<Rightarrow> wcache \<Rightarrow> shared_data \<Rightarrow> u64 \<Rightarrow> bool" where
  "settled_post ids base v c t sh value \<longleftrightarrow> bank_cache (cm_bank c) v = Inr t \<and>
     \<not> bs_outstanding (wb_states (cm_bank c) ! unat v) \<and> cm_base c = base \<and>
     Some (cm_shared c) = postResponse (Some sh) v value"

lemma postResponse_the: "Some (the (postResponse (Some sh) v x)) = postResponse (Some sh) v x"
  by (simp add: postResponse_def)

lemma drive_more: "drive F n ids c m v = Some r \<Longrightarrow> drive F (Suc n) ids c m v = Some r"
proof (induction n arbitrary: c m)
  case (Suc n)
  show ?case
    using Suc.prems
    by (subst drive.simps(2), subst (asm) drive.simps(2))
      (auto simp: Let_def Suc.IH split: if_splits option.splits sum.splits prod.splits simp del: drive.simps)
qed simp

lemma drive_access:
  assumes "settled ids c v s" "coherent s (backing_peek (cm_base c) (cm_shared c, m))" "accessing s" "cost s < n" "n \<le> F" "n \<le> G"
  shows "\<exists>c1 c' t sh' m' bs. serviceWindowCache G ids c v = Some (Inr c1) \<and> drive F n ids c1 m v = Some (Inr (c', m')) \<and>
    run_txn (backing_read (cm_base c)) (backing_write (cm_base c)) n s (cm_shared c, m) = Some (Inr (t, (sh', m'), bs)) \<and>
    settled_post ids (cm_base c) v c' t sh' (be_value bs)"
  using assms
proof (induction n arbitrary: c s m G)
  case (Suc n)
  let ?base = "cm_base c"
  let ?p = "backing_peek ?base (cm_shared c, m)"
  obtain G' where G: "G = Suc G'" "n \<le> G'" using Suc.prems(6) by (cases G) auto
  obtain s1 act where nl: "next_loop s = (s1, act)" by fastforce
  have na: "next_action s = Inr (s1, act)" using Suc.prems(3) nl by (simp add: next_action_def accessing_def)
  have step: ?case
    if go: "advances s ?p t ?p d" "cost t \<le> cost s"
      and act: "a_kind act \<noteq> Done" "unat (a_address act) mod 16 + a_size act \<le> 16"
        "a_kind act = Write \<Longrightarrow> length (a_bytes act) = a_size act"
      and cu: "complete s1 (if a_kind act = Read then backing_read ?base (cm_shared c, m) (a_address act) (a_size act) else []) = Inr u"
      and adv: "advances t ?p u (backing_peek ?base (if a_kind act = Read then (cm_shared c, m)
          else backing_write ?base (cm_shared c, m) (a_address act) (a_bytes act))) e" "cost u < cost t" for t d u e
  proof -
    have kind: "a_kind act = Read \<or> a_kind act = Write" using act(1) by (cases "a_kind act") auto
    have cost: "cost u < n" "accessing u" using adv go Suc.prems(4) by (auto simp: advances_def)
    have n_le: "n \<le> F" using Suc.prems(5) by simp
    show ?thesis
    proof (cases "backing_at ?base (cm_shared c) (a_address act)")
      case (Some off)
      let ?c = "c\<lparr>cm_bank := bank_update (cm_bank c) v u,
        cm_shared := (if a_kind act = Read then cm_shared c else native_write (cm_shared c) off (a_bytes act))\<rparr>"
      have sr: "service_round ids c v = Inr (?c, Service_continue)"
        by (rule service_native [OF Suc.prems(1) na act(1,2,3) Some]) (use cu kind Some in \<open>auto simp: backing_read_def\<close>)
      have se: "settled ids ?c v u"
        using Suc.prems(1) native_index_cong [of "native_write (cm_shared c) off (a_bytes act)" "cm_shared c" ?base]
        by (auto simp: settled_def bank_update_def set_state_def)
      have m2: "(if a_kind act = Read then (cm_shared c, m) else backing_write ?base (cm_shared c, m) (a_address act) (a_bytes act)) = (cm_shared ?c, m)"
        using Some by (simp add: backing_write_def)
      have co: "coherent u (backing_peek (cm_base ?c) (cm_shared ?c, m))" using adv(1) m2 by (simp add: advances_def)
      have run: "run_txn (backing_read ?base) (backing_write ?base) (Suc n) s (cm_shared c, m) =
          run_txn (backing_read ?base) (backing_write ?base) n u (cm_shared ?c, m)"
        using na kind cu Some by (auto simp: backing_write_def)
      from Suc.IH [OF se co cost(2,1) n_le G(2)] obtain c1 c' t' sh' m' bs where ih:
        "serviceWindowCache G' ids ?c v = Some (Inr c1)" "drive F n ids c1 m v = Some (Inr (c', m'))"
        "run_txn (backing_read ?base) (backing_write ?base) n u (cm_shared ?c, m) = Some (Inr (t', (sh', m'), bs))"
        "settled_post ids ?base v c' t' sh' (be_value bs)" by auto
      have "serviceWindowCache G ids c v = Some (Inr c1)" unfolding G(1) using sr ih(1) by simp
      moreover have "drive F (Suc n) ids c1 m v = Some (Inr (c', m'))" using drive_more [OF ih(2)] by simp
      ultimately show ?thesis using ih(3,4) run by metis
    next
      case None
      have cu': "complete s1 (if a_kind act = Read then mem_read m (a_address act) (a_size act) else []) = Inr u"
        using cu None by (cases "a_kind act = Read") (simp_all add: backing_read_def)
      from service_send [OF Suc.prems(1) na act(1) next_action_active [OF na Suc.prems(3) act(1) cu'] act(2,3) None cu', where F = F]
      obtain c1 c2 where sd: "service_round ids c v = Inr (c1, Service_sent)" "bs_outstanding (wb_states (cm_bank c1) ! unat v)"
        "completeMmioSyncResponse F ids c1 v (sst_response m (snd (last (cm_sent c1)))) =
          map_option (\<lambda>r. cache_fatal (res_bind r (\<lambda>c. Inr (c, True)))) (serviceWindowCache F ids c2 v)"
        "sst_memory m (snd (last (cm_sent c1))) = (if a_kind act = Read then m else mem_write m (a_address act) (a_bytes act))"
        "settled ids c2 v u" "cm_shared c2 = cm_shared c" "cm_base c2 = ?base" by blast
      let ?m = "sst_memory m (snd (last (cm_sent c1)))"
      have m2: "(if a_kind act = Read then (cm_shared c, m) else backing_write ?base (cm_shared c, m) (a_address act) (a_bytes act)) = (cm_shared c2, ?m)"
        using None sd(4,6) by (simp add: backing_write_def)
      have co: "coherent u (backing_peek (cm_base c2) (cm_shared c2, ?m))" using adv(1) m2 sd(7) by (simp add: advances_def)
      have run: "run_txn (backing_read ?base) (backing_write ?base) (Suc n) s (cm_shared c, m) =
          run_txn (backing_read ?base) (backing_write ?base) n u (cm_shared c2, ?m)"
        using na kind cu m2 by (auto split: if_splits)
      from Suc.IH [OF sd(5) co cost(2,1) n_le n_le] obtain c3 c' t' sh' m' bs where ih:
        "serviceWindowCache F ids c2 v = Some (Inr c3)" "drive F n ids c3 ?m v = Some (Inr (c', m'))"
        "run_txn (backing_read ?base) (backing_write ?base) n u (cm_shared c2, ?m) = Some (Inr (t', (sh', m'), bs))"
        "settled_post ids ?base v c' t' sh' (be_value bs)" using sd(7) by auto
      have "serviceWindowCache G ids c v = Some (Inr c1)" unfolding G(1) using sd(1) by simp
      moreover have "drive F (Suc n) ids c1 m v = Some (Inr (c', m'))"
        using sd(2,3) ih(1,2) by (simp add: Let_def cache_fatal_def)
      ultimately show ?thesis using ih(3,4) run by metis
    qed
  qed
  from next_loop_served [OF Suc.prems(2,3) nl]
  consider (fin) t where "advances s ?p t ?p (wc_count s - wc_offset s)" "(s1, act) = finish t"
    | (go) t d where "advances s ?p t ?p d" "cost t \<le> cost s" "served t ?p s1 act" by blast
  then show ?case
  proof cases
    case fin
    then have k: "a_kind act = Done" by (simp add: finish_def)
    let ?c = "cpu_post (c\<lparr>cm_bank := bank_update (cm_bank c) v s1\<rparr>) v (be_value (a_bytes act))"
    have "service_round ids c v = Inr (?c, Service_done)" using Suc.prems(1) na k by (simp add: service_round_def Let_def)
    moreover have "\<not> bs_outstanding (wb_states (cm_bank ?c) ! unat v)" "settled_post ids ?base v ?c s1 (cm_shared c) (be_value (a_bytes act))"
      using Suc.prems(1) postResponse_the
      by (auto simp: settled_post_def cpu_post_def settled_def bank_update_def set_state_def bank_cache_def state_at_def)
    ultimately show ?thesis using na k G(1) by auto
  next
    case (go t d)
    show ?thesis
      using go(3) unfolding served_def
    proof (elim disjE conjE exE)
      fix u e
      assume k: "a_kind act = Read" "unat (a_address act) mod 16 + a_size act \<le> 16"
        and cu: "complete s1 (mem_read ?p (a_address act) (a_size act)) = Inr u"
        and adv: "advances t ?p u ?p e" "cost u < cost t"
      show ?thesis
        by (rule step [where e = e, OF go(1,2) _ k(2) _ _ _ adv(2)]) (simp_all add: k(1) cu backing.mread_peek [OF k(2)] adv(1))
    next
      fix u e
      assume k: "a_kind act = Write" "unat (a_address act) mod 16 + length (a_bytes act) \<le> 16" "length (a_bytes act) = a_size act"
        and cu: "complete s1 [] = Inr u"
        and adv: "advances t ?p u (mem_write ?p (a_address act) (a_bytes act)) e" "cost u < cost t"
      show ?thesis
        by (rule step [where e = e, OF go(1,2) _ _ _ _ _ adv(2)])
          (use k(2,3) in \<open>simp_all add: k(1) cu backing.peek_mwrite [OF k(2)] adv(1)\<close>)
    qed
  qed
qed simp

section \<open>Properties\<close>

text \<open>A command the cached window of vCPU \<open>v\<close> takes as a request.\<close>

definition window_request :: "cpu_mmio \<Rightarrow> u32 \<Rightarrow> quetz_command \<Rightarrow> wcache \<Rightarrow> bool" where
  "window_request c v cmd s \<longleftrightarrow> v < cf_vcpu_count (cm_cfg c) \<and> cf_sst_window_cache (cm_cfg c) \<and> cm_mmio_if c (unat v) \<and>
     contains s (qc_addr cmd) \<and> qc_size cmd \<le> QUETZ_CMD_DATA_BYTES \<and>
     (qc_cmd cmd = cmd_code CMD_MMIO_READ_REQ \<or> qc_cmd cmd = cmd_code CMD_MMIO_WRITE_REQ)"

lemma window_request_handled:
  assumes "settled ids c v s" "window_request c v cmd s" "w = (qc_cmd cmd = cmd_code CMD_MMIO_WRITE_REQ)"
    and "access s (qc_addr cmd) (qc_size cmd) w (if w then take (unat (qc_size cmd)) (qc_data cmd) else []) = Inr s1"
  shows "handleMmioSyncCommand n ids c v cmd = map_option (\<lambda>r. cache_fatal (res_bind r (\<lambda>c2. Inr (c2, True))))
    (serviceWindowCache n ids (recordMmioSyncRequest (c\<lparr>cm_bank := bank_update (cm_bank c) v s1\<rparr>) v (\<not> w)) v)"
proof -
  have "qc_cmd cmd \<noteq> cmd_code CMD_CACHE_OP" using assms(2) by (auto simp: window_request_def)
  then show ?thesis
    using assms by (auto simp: handleMmioSyncCommand_def cached_request_def window_request_def Let_def not_le)
qed

lemma settled_record [simp]:
  "settled ids (recordMmioSyncRequest c v r) v s = settled ids c v s"
  "cm_shared (recordMmioSyncRequest c v r) = cm_shared c"
  "cm_base (recordMmioSyncRequest c v r) = cm_base c"
  by (simp_all add: recordMmioSyncRequest_def settled_def)

text \<open>C7. A guest access to the cached window is served to the end. From a vCPU whose cache
  has nothing outstanding, handling an accepted read or write request and letting the memory
  system answer each request the CPU sends finishes after at most five answers, although some
  lines live in native RAM of the shared segment and some behind the memory interface. The
  mailbox then holds the value of the bytes the guest sees at that address (0 for a write),
  the cache is idle and coherent with the two backings again, and what the guest sees has
  changed by exactly the written bytes.\<close>

theorem window_access_end_to_end:
  assumes "settled ids c v s" "coherent s (backing_peek (cm_base c) (cm_shared c, m))"
    and "window_request c v cmd s" "w = (qc_cmd cmd = cmd_code CMD_MMIO_WRITE_REQ)"
    and "bs = (if w then take (unat (qc_size cmd)) (qc_data cmd) else [])"
    and "access s (qc_addr cmd) (qc_size cmd) w bs = Inr s1"
  shows "\<exists>c1 c' t sh' m'. handleMmioSyncCommand 5 ids c v cmd = Some (Inr (c1, True)) \<and>
    drive 5 5 ids c1 m v = Some (Inr (c', m')) \<and> bank_cache (cm_bank c') v = Inr t \<and>
    \<not> bs_outstanding (wb_states (cm_bank c') ! unat v) \<and>
    idle t \<and> coherent t (backing_peek (cm_base c) (sh', m')) \<and>
    Some (cm_shared c') = postResponse (Some sh') v
      (if w then 0 else be_value (mem_read (view s (backing_peek (cm_base c) (cm_shared c, m))) (qc_addr cmd) (unat (qc_size cmd)))) \<and>
    view t (backing_peek (cm_base c) (sh', m')) =
      (if w then mem_write (view s (backing_peek (cm_base c) (cm_shared c, m))) (qc_addr cmd) bs
       else view s (backing_peek (cm_base c) (cm_shared c, m)))"
proof -
  let ?c = "recordMmioSyncRequest (c\<lparr>cm_bank := bank_update (cm_bank c) v s1\<rparr>) v (\<not> w)"
  have se: "settled ids ?c v s1" using assms(1) by simp
  note acc = backing.access_accessing [OF assms(6,2)]
  have co: "coherent s1 (backing_peek (cm_base ?c) (cm_shared ?c, m))" using acc(2) by simp
  from drive_access [OF se co acc(1), of 5 5 5] cost_le [of s1] obtain c1 c' t sh' m' out where d:
    "serviceWindowCache 5 ids ?c v = Some (Inr c1)" "drive 5 5 ids c1 m v = Some (Inr (c', m'))"
    "run_txn (backing_read (cm_base c)) (backing_write (cm_base c)) 5 s1 (cm_shared c, m) = Some (Inr (t, (sh', m'), out))"
    "settled_post ids (cm_base c) v c' t sh' (be_value out)" by auto
  have "handleMmioSyncCommand 5 ids c v cmd = Some (Inr (c1, True))"
    using window_request_handled [OF assms(1,3,4)] assms(5,6) d(1) by (simp add: cache_fatal_def)
  moreover have "be_value [] = 0" by (simp add: be_value_def)
  ultimately show ?thesis
    using backing.access_run [OF assms(6,2), of 5] d(2,3,4) by (auto simp: settled_post_def)
qed

definition sample_native :: shared_data where
  "sample_native = sample_segment\<lparr>native_region_count := 1,
     native_regions := [\<lparr>nr_base = 0x40000000, nr_size = 0x1000, nr_offset = 0x24000, nr_reserved = 0\<rparr>, zero_region]\<rparr>"

definition sample_cpu :: cpu_mmio where
  "sample_cpu = \<lparr>cm_cfg = \<lparr>cf_vcpu_count = 1, cf_sst_window_cache = True, cf_window_big_endian = True,
        cf_sst_window_base = 0x40000000, cf_sst_window_size = 0x10000\<rparr>,
     cm_bank = wb_init\<lparr>wb_states := [\<lparr>bs_cache = copyback_cache, bs_outstanding = False\<rparr>]\<rparr>,
     cm_epochs = (\<lambda>_. 0), cm_base = 0x10000000, cm_shared = sample_native, cm_mmio_if = (\<lambda>_. True), cm_ports = [],
     cm_port_ids = {}, cm_port_cmds = [], cm_generic = (\<lambda>_. None), cm_next = 0, cm_sent = [], cm_stats = []\<rparr>"

definition sample_write :: quetz_command where
  "sample_write = zero_command\<lparr>qc_cmd := cmd_code CMD_MMIO_WRITE_REQ, qc_addr := 0x40000ffc, qc_size := 8,
     qc_data := [1, 2, 3, 4, 5, 6, 7, 8] @ replicate 56 0\<rparr>"

lemma sample_native_valid: "quetz_native_regions_valid 0x10000000 sample_native"
  by code_simp

lemma sample_settled: "settled (\<lambda>n. n) sample_cpu 0 copyback_cache"
  using sample_native_valid by (simp add: settled_def sample_cpu_def wb_init_def)

lemma sample_write_access: "is_ok (access copyback_cache 0x40000ffc 8 True [1, 2, 3, 4, 5, 6, 7, 8])"
  by code_simp

text \<open>A write across the end of the native region, whose two lines have different backings.\<close>

theorem window_access_end_to_end_witness:
  "\<exists>c1 c' t sh' m'. handleMmioSyncCommand 5 (\<lambda>n. n) sample_cpu 0 sample_write = Some (Inr (c1, True)) \<and>
     drive 5 5 (\<lambda>n. n) c1 (\<lambda>_. 9) 0 = Some (Inr (c', m')) \<and> bank_cache (cm_bank c') 0 = Inr t \<and> idle t \<and>
     view t (backing_peek 0x10000000 (sh', m')) 0x40001000 = 5"
proof -
  obtain s1 where a: "access copyback_cache 0x40000ffc 8 True [1, 2, 3, 4, 5, 6, 7, 8] = Inr s1"
    using sample_write_access by (rule is_okE)
  have w: "True = (qc_cmd sample_write = cmd_code CMD_MMIO_WRITE_REQ)" by (simp add: sample_write_def)
  have q: "window_request sample_cpu 0 sample_write copyback_cache" by code_simp
  have b: "[1, 2, 3, 4, 5, 6, 7, 8] = (if True then take (unat (qc_size sample_write)) (qc_data sample_write) else [])"
    by (simp add: sample_write_def)
  have f: "qc_addr sample_write = 0x40000ffc" "qc_size sample_write = 8" "cm_base sample_cpu = 0x10000000"
    by (simp_all add: sample_write_def sample_cpu_def)
  from window_access_end_to_end [OF sample_settled copyback_cache_coherent q w b, unfolded f, OF a, of "\<lambda>_. 9"]
  obtain c1 c' t sh' m' where r: "handleMmioSyncCommand 5 (\<lambda>n. n) sample_cpu 0 sample_write = Some (Inr (c1, True))"
    "drive 5 5 (\<lambda>n. n) c1 (\<lambda>_. 9) 0 = Some (Inr (c', m'))" "bank_cache (cm_bank c') 0 = Inr t" "idle t"
    "view t (backing_peek 0x10000000 (sh', m')) =
       mem_write (view copyback_cache (backing_peek 0x10000000 (cm_shared sample_cpu, \<lambda>_. 9))) 0x40000ffc [1, 2, 3, 4, 5, 6, 7, 8]"
    by auto
  have "view t (backing_peek 0x10000000 (sh', m')) 0x40001000 = 5" unfolding r(5) by (simp add: mem_write_def)
  then show ?thesis using r by blast
qed

end
