(* ===== verification/Quetz_Decoders.thy ===== *)
theory Quetz_Decoders
  imports Quetz_Ipc_Types
begin

text \<open>
  The instruction decoders of the QEMU plugin: the RISC-V and AArch64 classifiers of
  \<open>src/qemu_plugin/decoder_riscv.h\<close> and \<open>decoder_aarch64.h\<close>, the size rule for other targets, the
  classifier objects of \<open>insn_classifier.h\<close>, the prefix registry of \<open>registry.h\<close> that chooses one,
  and the ColdFire cache instructions of \<open>coldfire_cache_ops.h\<close>. A \<open>switch\<close> is a chain of
  conditionals in the order of its cases.
\<close>

section \<open>RISC-V\<close>

definition classify_rvc_rv64 :: "u32 \<Rightarrow> insn_class" where
  "classify_rvc_rv64 enc =
     (let quad = enc AND 0x3; fn3 = drop_bit 13 enc AND 0x7 in
      if quad = 0 then
        if fn3 = 1 then FP_MEM
        else if fn3 = 2 then INT_MEM
        else if fn3 = 3 then INT_MEM
        else if fn3 = 5 then FP_MEM
        else if fn3 = 6 then INT_MEM
        else if fn3 = 7 then INT_MEM
        else INT_COMPUTE
      else if quad = 1 then
        if fn3 = 5 then BRANCH
        else if fn3 = 6 then BRANCH
        else if fn3 = 7 then BRANCH
        else INT_COMPUTE
      else if fn3 = 1 then FP_MEM
      else if fn3 = 2 then INT_MEM
      else if fn3 = 3 then INT_MEM
      else if fn3 = 4 then
        let rs2 = drop_bit 2 enc AND 0x1F
        in if rs2 \<noteq> 0 then INT_COMPUTE
           else let bit12 = drop_bit 12 enc AND 0x1; rd = drop_bit 7 enc AND 0x1F
                in if bit12 = 0 then BRANCH
                   else if rd = 0 then OTHER
                   else BRANCH
      else if fn3 = 5 then FP_MEM
      else if fn3 = 6 then INT_MEM
      else if fn3 = 7 then INT_MEM
      else INT_COMPUTE)"

definition classify_riscv_insn :: "u32 \<Rightarrow> insn_class" where
  "classify_riscv_insn enc =
     (if enc AND 0x3 \<noteq> 0x3 then classify_rvc_rv64 enc
      else let opcode = enc AND 0x7F; funct3 = drop_bit 12 enc AND 0x7 in
        if opcode \<in> {0x03, 0x23} then INT_MEM
        else if opcode \<in> {0x07, 0x27} then
          if funct3 = 2 \<or> funct3 = 3 \<or> funct3 = 4 then FP_MEM else VEC_MEM
        else if opcode = 0x2F then INT_MEM
        else if opcode \<in> {0x43, 0x47, 0x4B, 0x4F} then FP_COMPUTE
        else if opcode = 0x53 then FP_COMPUTE
        else if opcode = 0x57 then VEC_COMPUTE
        else if opcode \<in> {0x63, 0x67, 0x6F} then BRANCH
        else if opcode \<in> {0x13, 0x33, 0x1B, 0x3B, 0x17, 0x37, 0x0F} then INT_COMPUTE
        else if opcode = 0x73 then OTHER
        else OTHER)"

section \<open>AArch64 and the size rule\<close>

definition classify_aarch64_insn :: "u32 \<Rightarrow> insn_class" where
  "classify_aarch64_insn enc =
     (if enc AND push_bit 27 1 \<noteq> 0 \<and> \<not> enc AND push_bit 25 1 \<noteq> 0
        then if enc AND push_bit 26 1 \<noteq> 0 then VEC_MEM else INT_MEM
      else let grp = drop_bit 25 enc AND 0xF in
        if grp \<in> {0x8, 0x9} then INT_COMPUTE
        else if grp \<in> {0x5, 0xD} then INT_COMPUTE
        else if grp = 0x7 then VEC_COMPUTE
        else if grp \<in> {0xE, 0xF} then FP_COMPUTE
        else if grp \<in> {0x2, 0x3, 0xA, 0xB} then BRANCH
        else if grp = 0x1 then VEC_COMPUTE
        else OTHER)"

definition classify_by_size :: "u32 \<Rightarrow> insn_class" where
  "classify_by_size sz = (if sz \<ge> 16 then VEC_MEM else INT_MEM)"

section \<open>Classifier objects\<close>

datatype insn_classifier = RiscvInsnClassifier | Aarch64InsnClassifier | GenericInsnClassifier

fun classify :: "insn_classifier \<Rightarrow> u32 \<Rightarrow> insn_class" where
  "classify RiscvInsnClassifier enc = classify_riscv_insn enc"
| "classify Aarch64InsnClassifier enc = classify_aarch64_insn enc"
| "classify GenericInsnClassifier enc = OTHER"

fun usesPreciseMemCallbacks :: "insn_classifier \<Rightarrow> bool" where
  "usesPreciseMemCallbacks RiscvInsnClassifier = True"
| "usesPreciseMemCallbacks Aarch64InsnClassifier = True"
| "usesPreciseMemCallbacks GenericInsnClassifier = False"

fun refineMemClass :: "insn_classifier \<Rightarrow> insn_class \<Rightarrow> u32 \<Rightarrow> insn_class" where
  "refineMemClass GenericInsnClassifier cls sz = classify_by_size sz"
| "refineMemClass c cls sz = cls"

section \<open>Registry\<close>

text \<open>The first loop of \<open>findByPrefix\<close>, with the best factory so far and the length of its prefix.\<close>

fun best_prefix :: "string \<Rightarrow> (string \<times> 'a) list \<Rightarrow> 'a option \<Rightarrow> nat \<Rightarrow> 'a option" where
  "best_prefix target [] best n = best"
| "best_prefix target (e # es) best n =
     (if fst e = [] then best_prefix target es best n
      else if length target \<ge> length (fst e) \<and> take (length (fst e)) target = fst e \<and> length (fst e) > n
        then best_prefix target es (Some (snd e)) (length (fst e))
      else best_prefix target es best n)"

definition findByPrefix :: "(string \<times> 'a) list \<Rightarrow> string \<Rightarrow> 'a option" where
  "findByPrefix entries target =
     (case best_prefix target entries None 0 of
        Some f \<Rightarrow> Some f
      | None \<Rightarrow> map_option snd (find (\<lambda>e. fst e = []) entries))"

section \<open>ColdFire cache instructions\<close>

record coldfire_cache_op =
  op_valid :: bool
  op_kind :: u32
  op_control :: u16
  op_instruction :: u16
  op_source :: u32

definition be16 :: "u8 \<Rightarrow> u8 \<Rightarrow> u16" where
  "be16 a b = push_bit 8 (ucast a) OR ucast b"

definition decodeColdFireCacheOp :: "u8 list \<Rightarrow> nat \<Rightarrow> coldfire_cache_op" where
  "decodeColdFireCacheOp bytes sz =
     (let op = \<lparr>op_valid = False, op_kind = 0, op_control = 0, op_instruction = 0, op_source = 0\<rparr> in
      if sz < 2 then op
      else
        let instr = be16 (bytes ! 0) (bytes ! 1); op1 = op\<lparr>op_instruction := instr\<rparr> in
        if instr = 0x4e7b \<and> sz \<ge> 4 then
          let ext = be16 (bytes ! 2) (bytes ! 3); ctl = ext AND 0x0fff
          in op1\<lparr>op_control := ctl, op_source := ucast (drop_bit 12 ext :: u16),
                 op_valid := (ctl = 0x002 \<or> (ctl \<ge> 0x004 \<and> ctl \<le> 0x007))\<rparr>
        else if instr AND 0xff38 = 0xf428 then
          op1\<lparr>op_valid := True, op_kind := 1, op_source := 8 + (ucast instr AND 7)\<rparr>
        else op1)"

section \<open>What the decoders promise\<close>

definition is_mem_class :: "insn_class \<Rightarrow> bool" where
  "is_mem_class c \<longleftrightarrow> c = INT_MEM \<or> c = FP_MEM \<or> c = VEC_MEM"

lemma and_7_cases: "(x AND 7 :: u32) \<in> {0, 1, 2, 3, 4, 5, 6, 7}"
proof -
  have "unat (x AND 7) < 8" using and_mask_unat [of x 3] by (simp add: mask_numeral)
  then have "unat (x AND 7) \<in> {0, 1, 2, 3, 4, 5, 6, 7}" by auto
  then show ?thesis by (auto simp: word_unat_eq_iff)
qed

text \<open>A register number of a valid operation is one of the sixteen D and A registers.\<close>

lemma op_source_bound:
  assumes "op_valid (decodeColdFireCacheOp bytes sz)"
  shows "op_source (decodeColdFireCacheOp bytes sz) < 16"
proof -
  have d: "unat (ucast (drop_bit 12 (e :: u16)) :: u32) < 16" for e
  proof -
    have "unat e < 2 ^ 16" using unsigned_less [of e] by simp
    then have "unat (drop_bit 12 e) < 16" by (simp add: drop_bit_unat)
    then show ?thesis by (simp add: unsigned_ucast_eq take_bit_nat_eq_self)
  qed
  have a: "8 + (x AND 7 :: u32) < 16" for x
  proof -
    have "unat (x AND 7) < 8" using and_mask_unat [of x 3] by (simp add: mask_numeral)
    then show ?thesis by (simp add: word_less_nat_alt unat_word_ariths)
  qed
  show ?thesis
    using assms d a unfolding decodeColdFireCacheOp_def Let_def
    by (auto simp: word_less_nat_alt split: if_splits)
qed

text \<open>The longest registered prefix wins, and the empty prefix is the fallback.\<close>

definition prefix_of :: "string \<Rightarrow> string \<Rightarrow> bool" where
  "prefix_of target p \<longleftrightarrow> take (length p) target = p"

lemma prefix_of_length: "prefix_of target p \<Longrightarrow> length p \<le> length target"
  unfolding prefix_of_def by (metis length_take min.cobounded1)

definition longest :: "string \<Rightarrow> (string \<times> 'a) list \<Rightarrow> nat \<Rightarrow> bool" where
  "longest target es n \<longleftrightarrow> (\<forall>e \<in> set es. prefix_of target (fst e) \<longrightarrow> length (fst e) \<le> n)"

lemma best_prefix_spec:
  "best_prefix target es best n = Some f \<Longrightarrow>
     (\<exists>p. (p, f) \<in> set es \<and> prefix_of target p \<and> longest target es (length p) \<and> n < length p)
     \<or> best = Some f \<and> longest target es n"
proof (induction es arbitrary: best n)
  case (Cons e es)
  show ?case
  proof (cases "fst e \<noteq> [] \<and> length target \<ge> length (fst e) \<and> take (length (fst e)) target = fst e \<and> length (fst e) > n")
    case True
    with Cons.prems have b: "best_prefix target es (Some (snd e)) (length (fst e)) = Some f" by simp
    from Cons.IH [OF b] show ?thesis
    proof (elim disjE exE conjE)
      fix p assume "(p, f) \<in> set es" "prefix_of target p" "longest target es (length p)" "length (fst e) < length p"
      then show ?thesis using True by (intro disjI1 exI [of _ p]) (auto simp: longest_def)
    next
      assume "Some (snd e) = Some f" "longest target es (length (fst e))"
      then have "(fst e, f) = e" "longest target (e # es) (length (fst e))" by (auto simp: longest_def)
      then show ?thesis using True by (intro disjI1 exI [of _ "fst e"]) (auto simp: prefix_of_def)
    qed
  next
    case False
    with Cons.prems have b: "best_prefix target es best n = Some f" by (auto split: if_splits)
    have "prefix_of target (fst e) \<Longrightarrow> length (fst e) \<le> n"
      using False prefix_of_length [of target "fst e"] by (auto simp: prefix_of_def not_less)
    then have l: "longest target es k \<Longrightarrow> n \<le> k \<Longrightarrow> longest target (e # es) k" for k
      by (auto simp: longest_def)
    from Cons.IH [OF b] l show ?thesis by (auto intro: less_imp_le)
  qed
qed (simp add: longest_def)

lemma best_prefix_Some: "best_prefix target es (Some x) n \<noteq> None"
  by (induction es arbitrary: x n) auto

lemma best_prefix_found:
  assumes "e \<in> set es" "prefix_of target (fst e)" "fst e \<noteq> []" "n > 0 \<longrightarrow> b \<noteq> None"
  shows "best_prefix target es b n \<noteq> None"
  using assms(1,4)
proof (induction es arbitrary: b n)
  case (Cons d es)
  show ?case
  proof (cases "e = d")
    case True
    then show ?thesis
      using assms(2,3) prefix_of_length [OF assms(2)] Cons.prems(2) best_prefix_Some [of target es]
      by (auto simp: prefix_of_def)
  next
    case False
    then show ?thesis using Cons by (auto split: if_splits)
  qed
qed simp

text \<open>A classifier or handler chosen for a target is the one registered under its longest prefix;
  only when no registered prefix matches is it the fallback registered under the empty one.\<close>

lemma findByPrefix_longest:
  assumes "findByPrefix entries target = Some f"
  shows "\<exists>p. (p, f) \<in> set entries \<and> prefix_of target p \<and> longest target entries (length p)"
proof (cases "best_prefix target entries None 0")
  case (Some g)
  with assms have "best_prefix target entries None 0 = Some f" by (simp add: findByPrefix_def)
  from best_prefix_spec [OF this] show ?thesis by auto
next
  case None
  have none: "prefix_of target (fst e) \<Longrightarrow> fst e = []" if "e \<in> set entries" for e
    using best_prefix_found [OF that, of target 0 None] None by auto
  from assms None obtain e where "find (\<lambda>e. fst e = []) entries = Some e" "f = snd e"
    by (auto simp: findByPrefix_def)
  then have "([], f) \<in> set entries" by (auto simp: find_Some_iff) (metis nth_mem prod.collapse)
  then show ?thesis using none by (intro exI [of _ "[]"]) (auto simp: prefix_of_def longest_def)
qed

end
