(* ===== verification/Quetz_Cstring.thy ===== *)
theory Quetz_Cstring
  imports Quetz_Prelude
begin

text \<open>
  The C library functions on strings that the code parses its arguments with: \<open>strtoull\<close> with base
  0 and \<open>strtok_r\<close> with one delimiter, and the decimal and hexadecimal printing of numbers, which \<open>strtoull\<close> reads back. A string is its characters without the terminating null.
\<close>

text \<open>White space, a sign, a base prefix, then digits up to the first other character; the value
  saturates, the rest of the string and whether the value overflowed are the other results.\<close>

definition digit_value :: "char \<Rightarrow> int" where
  "digit_value c = (let n = of_char c in if 48 \<le> n \<and> n \<le> 57 then n - 48
     else if 97 \<le> n \<and> n \<le> 122 then n - 87 else if 65 \<le> n \<and> n \<le> 90 then n - 55 else 99)"

fun digits_value :: "int \<Rightarrow> int \<Rightarrow> string \<Rightarrow> int \<times> string" where
  "digits_value b acc [] = (acc, [])"
| "digits_value b acc (c # cs) = (if digit_value c < b then digits_value b (acc * b + digit_value c) cs else (acc, c # cs))"

fun unsigned_value :: "string \<Rightarrow> int \<times> string" where
  "unsigned_value (CHR ''0'' # x # d # cs) =
     (if (x = CHR ''x'' \<or> x = CHR ''X'') \<and> digit_value d < 16 then digits_value 16 0 (d # cs)
      else digits_value 8 0 (x # d # cs))"
| "unsigned_value (CHR ''0'' # cs) = digits_value 8 0 cs"
| "unsigned_value cs = digits_value 10 0 cs"

definition is_space :: "char \<Rightarrow> bool" where
  "is_space c \<longleftrightarrow> (let n = of_char c :: int in n = 32 \<or> 9 \<le> n \<and> n \<le> 13)"

definition strtoull_end :: "string \<Rightarrow> u64 \<times> string \<times> bool" where
  "strtoull_end str =
     (let s = dropWhile is_space str;
          (neg, ds) = (case s of CHR ''-'' # r \<Rightarrow> (True, r) | CHR ''+'' # r \<Rightarrow> (False, r) | _ \<Rightarrow> (False, s));
          (n, rest) = unsigned_value ds;
          rest' = (if ds = [] \<or> digit_value (hd ds) \<ge> 10 then str else rest)
      in if n \<ge> 2 ^ 64 then (- 1, rest', True) else (if neg then - of_int n else of_int n, rest', False))"

definition strtoull :: "string \<Rightarrow> u64" where
  "strtoull str = fst (strtoull_end str)"

text \<open>\<open>strtok_r\<close> skips empty tokens.\<close>

fun split_tokens :: "char \<Rightarrow> string \<Rightarrow> string \<Rightarrow> string list" where
  "split_tokens d acc [] = [rev acc]"
| "split_tokens d acc (c # cs) = (if c = d then rev acc # split_tokens d [] cs else split_tokens d (c # acc) cs)"

definition strtok :: "char \<Rightarrow> string \<Rightarrow> string list" where
  "strtok d s = filter (\<lambda>t. t \<noteq> []) (split_tokens d [] s)"

section \<open>Printing numbers\<close>

fun dec :: "nat \<Rightarrow> string" where
  "dec n = (if n < 10 then [char_of (48 + n)] else dec (n div 10) @ [char_of (48 + n mod 10)])"

declare dec.simps [simp del]

text \<open>The digits of \<open>%x\<close>.\<close>

definition hex_digit :: "nat \<Rightarrow> char" where
  "hex_digit d = char_of (if d < 10 then 48 + d else 87 + d)"

fun hex :: "nat \<Rightarrow> string" where
  "hex n = (if n < 16 then [hex_digit n] else hex (n div 16) @ [hex_digit (n mod 16)])"

declare hex.simps [simp del]

lemma hex_digit_value: "d < 16 \<Longrightarrow> digit_value (hex_digit d) = int d"
proof -
  have "list_all (\<lambda>d. digit_value (hex_digit d) = int d) [0..<16]"
    by code_simp
  then show "d < 16 \<Longrightarrow> digit_value (hex_digit d) = int d"
    by (simp add: list_all_iff)
qed

lemma digits_value_append:
  "digits_value b acc ds = (v, []) \<Longrightarrow> digits_value b acc (ds @ cs) = digits_value b v cs"
  by (induction b acc ds rule: digits_value.induct) (auto split: if_splits)

lemma hex_value: "digits_value 16 0 (hex n) = (int n, [])"
proof (induction n rule: hex.induct)
  case (1 n)
  show ?case
  proof (cases "n < 16")
    case True
    then show ?thesis
      by (simp add: hex.simps [of n] hex_digit_value)
  next
    case False
    have "int (n div 16) * 16 + int (n mod 16) = int n"
      by (simp add: zdiv_int zmod_int)
    then show ?thesis
      using 1 [OF False] False
      by (simp add: hex.simps [of n] digits_value_append [of 16 0 "hex (n div 16)" "int (n div 16)"] hex_digit_value)
  qed
qed

lemma hex_Cons: obtains d ds where "hex n = d # ds" "digit_value d < 16"
proof -
  have "hex n \<noteq> []"
    by (simp add: hex.simps [of n])
  then obtain d ds where h: "hex n = d # ds"
    by (cases "hex n") auto
  then show thesis
    using hex_value [of n] that by (cases "digit_value d < 16") auto
qed

text \<open>\<open>strtoull\<close> with base 0 reads back what \<open>0x%x\<close> printed.\<close>

lemma strtoull_hex: "n < 2 ^ 64 \<Longrightarrow> strtoull_end (''0x'' @ hex n) = (of_nat n, [], False)"
proof -
  assume n: "n < 2 ^ 64"
  obtain d ds where h: "hex n = d # ds" "digit_value d < 16"
    by (rule hex_Cons)
  have "dropWhile is_space (''0x'' @ hex n) = ''0x'' @ hex n" "digit_value (CHR ''0'') < 10"
    by (simp_all add: is_space_def digit_value_def)
  then show ?thesis
    using n h hex_value [of n] by (simp add: strtoull_end_def)
qed

corollary strtoull_of_hex: "n < 2 ^ 64 \<Longrightarrow> strtoull (''0x'' @ hex n) = of_nat n"
  using strtoull_hex [of n] by (simp add: strtoull_def)

end
