(* ===== verification/Quetz_Plugin.thy ===== *)
theory Quetz_Plugin
  imports Quetz_Decoders Quetz_Pipeline Quetz_Ipc_Client Quetz_Cstring
begin

text \<open>
  The QEMU side of the trace rings, \<open>src/qemu_plugin/plugin_state.cpp\<close>, \<open>mem_access_handler.cpp\<close>, the
  callbacks of \<open>instrument.cpp\<close> and the exit callback of \<open>plugin_main.cpp\<close>. Each vCPU has its own
  ring, modelled as the list of commands written to it, and an accumulator for a run of compute
  instructions of one class. The host is little endian and the plugin API is version 4. The
  theorem shows that batching is invisible: what the pipeline's input stage expands from
  a ring is the program-order stream the callbacks saw.
\<close>

section \<open>State\<close>

definition PLUGIN_MAX_VCPUS :: u32 where "PLUGIN_MAX_VCPUS = 256"

record plugin =
  pg_shmem_name :: string
  pg_detailed :: bool
  pg_system_mode :: bool
  pg_cache_ops :: bool
  pg_configured_vcpus :: u32
  pg_classifier :: insn_classifier
  pg_mmio_base :: u64
  pg_mmio_size :: u64
  pg_win_base :: u64
  pg_win_size :: u64
  pg_mem_seen :: "nat \<Rightarrow> bool"
  pg_prev_cls :: "nat \<Rightarrow> insn_class"
  pg_run_cls :: "nat \<Rightarrow> insn_class"
  pg_run_count :: "nat \<Rightarrow> u32"
  pg_run_pc :: "nat \<Rightarrow> u64"
  pg_ring :: "nat \<Rightarrow> quetz_command list"

definition require_vcpu :: "plugin \<Rightarrow> u32 \<Rightarrow> unit result" where
  "require_vcpu p vcpu =
     (if vcpu \<ge> pg_configured_vcpus p \<or> vcpu \<ge> PLUGIN_MAX_VCPUS
      then Inl (Fatal ''vCPU exceeds the configured trace rings'') else Inr ())"

definition writeMessage :: "nat \<Rightarrow> quetz_command \<Rightarrow> plugin \<Rightarrow> plugin" where
  "writeMessage v cmd p = p\<lparr>pg_ring := (pg_ring p)(v := pg_ring p v @ [cmd])\<rparr>"

definition run_command :: "plugin \<Rightarrow> nat \<Rightarrow> quetz_command" where
  "run_command p v = \<lparr>qc_cmd = cmd_code CMD_COMPUTE_RUN, qc_size = pg_run_count p v, qc_pc = pg_run_pc p v,
     qc_addr = 0, qc_insn_class = class_code (pg_run_cls p v), qc_data = replicate 64 0\<rparr>"

definition flush_run :: "u32 \<Rightarrow> plugin \<Rightarrow> plugin result" where
  "flush_run vcpu p =
     res_bind (require_vcpu p vcpu) (\<lambda>_.
       let v = unat vcpu in
       if pg_run_count p v = 0 then Inr p
       else Inr ((writeMessage v (run_command p v) p)\<lparr>pg_run_count := (pg_run_count p)(v := 0)\<rparr>))"

definition accumulate_compute :: "u32 \<Rightarrow> u64 \<Rightarrow> insn_class \<Rightarrow> plugin \<Rightarrow> plugin result" where
  "accumulate_compute vcpu pc cls p =
     res_bind (require_vcpu p vcpu) (\<lambda>_.
       let v = unat vcpu in
       res_bind (if pg_run_count p v > 0 \<and> pg_run_cls p v \<noteq> cls then flush_run vcpu p else Inr p) (\<lambda>p1.
         let p2 = p1\<lparr>pg_run_cls := (pg_run_cls p1)(v := cls), pg_run_pc := (pg_run_pc p1)(v := pc),
                     pg_run_count := (pg_run_count p1)(v := pg_run_count p1 v + 1)\<rparr>
         in if pg_run_count p2 v \<ge> QUETZ_COMPUTE_RUN_MAX then flush_run vcpu p2 else Inr p2))"

definition write_cmd :: "u32 \<Rightarrow> shmem_cmd \<Rightarrow> u32 \<Rightarrow> u64 \<Rightarrow> u64 \<Rightarrow> insn_class \<Rightarrow> u8 list option \<Rightarrow> plugin \<Rightarrow> plugin result" where
  "write_cmd vcpu type sz pc addr cls store_data p =
     res_bind (require_vcpu p vcpu) (\<lambda>_.
       Inr (writeMessage (unat vcpu)
         \<lparr>qc_cmd = cmd_code type, qc_size = sz, qc_pc = pc, qc_addr = addr, qc_insn_class = class_code cls,
          qc_data = (case store_data of
                       Some bs \<Rightarrow> let n = (if sz < 64 then unat sz else 64) in take n bs @ replicate (64 - n) 0
                     | None \<Rightarrow> replicate 64 0)\<rparr> p))"

section \<open>Memory accesses\<close>

datatype mem_value = VALUE_U8 u8 | VALUE_U16 u16 | VALUE_U32 u32 | VALUE_U64 u64 | VALUE_U128 u64 u64

text \<open>What QEMU reports of an access.\<close>

record meminfo =
  mi_is_store :: bool
  mi_size_shift :: u32
  mi_value :: mem_value

definition host_bytes :: "nat \<Rightarrow> 'a::len word \<Rightarrow> u8 list" where
  "host_bytes n v = map (\<lambda>i. ucast (drop_bit (8 * i) v)) [0..<n]"

fun value_bytes :: "mem_value \<Rightarrow> u8 list" where
  "value_bytes (VALUE_U8 x) = [x]"
| "value_bytes (VALUE_U16 x) = host_bytes 2 x"
| "value_bytes (VALUE_U32 x) = host_bytes 4 x"
| "value_bytes (VALUE_U64 x) = host_bytes 8 x"
| "value_bytes (VALUE_U128 lo hi) = host_bytes 8 lo @ host_bytes 8 hi"

definition access_size :: "meminfo \<Rightarrow> u32" where
  "access_size info = (if mi_size_shift info < 8 then push_bit (unat (mi_size_shift info)) 1 else 128)"

definition store_buf :: "meminfo \<Rightarrow> u8 list option" where
  "store_buf info =
     (if mi_is_store info \<and> access_size info \<le> 64
      then Some (copy_into (replicate 64 0) 0 (value_bytes (mi_value info))) else None)"

definition in_aperture :: "u64 \<Rightarrow> u64 \<Rightarrow> u64 \<Rightarrow> bool" where
  "in_aperture base sz a \<longleftrightarrow> sz \<noteq> 0 \<and> a \<ge> base \<and> a < base + sz"

definition mem_handle :: "u32 \<Rightarrow> meminfo \<Rightarrow> u64 \<Rightarrow> u64 \<Rightarrow> insn_class \<Rightarrow> plugin \<Rightarrow> plugin result" where
  "mem_handle vcpu info vaddr pc cls p =
     (if vcpu \<ge> PLUGIN_MAX_VCPUS then Inr p
      else if in_aperture (pg_mmio_base p) (pg_mmio_size p) vaddr then flush_run vcpu p
      else if in_aperture (pg_win_base p) (pg_win_size p) vaddr then flush_run vcpu p
      else
        let sz = access_size info;
            p1 = p\<lparr>pg_mem_seen := (pg_mem_seen p)(unat vcpu := True)\<rparr>;
            cls1 = (if \<not> usesPreciseMemCallbacks (pg_classifier p) then refineMemClass (pg_classifier p) cls sz else cls)
        in res_bind (flush_run vcpu p1)
             (write_cmd vcpu (if mi_is_store info then CMD_WRITE else CMD_READ) sz pc vaddr cls1 (store_buf info)))"

section \<open>Callbacks\<close>

definition emit_nop_now :: "u32 \<Rightarrow> u64 \<Rightarrow> insn_class \<Rightarrow> plugin \<Rightarrow> plugin result" where
  "emit_nop_now vcpu pc cls p = accumulate_compute vcpu pc cls p"

definition handle_exec_delayed :: "u32 \<Rightarrow> u64 \<Rightarrow> insn_class \<Rightarrow> plugin \<Rightarrow> plugin result" where
  "handle_exec_delayed vcpu pc cls p =
     (if vcpu \<ge> PLUGIN_MAX_VCPUS then Inr p
      else
        let v = unat vcpu; prev_cls = pg_prev_cls p v; had_mem = pg_mem_seen p v;
            p1 = p\<lparr>pg_prev_cls := (pg_prev_cls p)(v := cls), pg_mem_seen := (pg_mem_seen p)(v := False)\<rparr>
        in if \<not> had_mem then accumulate_compute vcpu pc prev_cls p1 else Inr p1)"

text \<open>The callbacks a translated instruction registers; \<open>None\<close> is a null entry of the table.\<close>

datatype insn_cb = Cb_mem insn_class | Cb_nop insn_class | Cb_exec_delayed_other

definition g_emit_nop_cbs :: "insn_cb option list" where
  "g_emit_nop_cbs = [None, None, None, Some (Cb_nop INT_COMPUTE), Some (Cb_nop FP_COMPUTE), Some (Cb_nop VEC_COMPUTE),
     Some (Cb_nop BRANCH), Some (Cb_nop OTHER)]"

definition tb_trans_insn :: "insn_classifier \<Rightarrow> u32 \<Rightarrow> insn_cb option list" where
  "tb_trans_insn c enc =
     (if \<not> usesPreciseMemCallbacks c then [Some (Cb_mem INT_MEM), Some Cb_exec_delayed_other]
      else
        let cls = classify c enc; is_mem = (cls = INT_MEM \<or> cls = FP_MEM \<or> cls = VEC_MEM)
        in if is_mem then [Some (Cb_mem (if cls = FP_MEM then FP_MEM else if cls = VEC_MEM then VEC_MEM else INT_MEM))]
           else [g_emit_nop_cbs ! unat (class_code cls)])"

definition exit_command :: quetz_command where
  "exit_command = \<lparr>qc_cmd = cmd_code CMD_EXIT, qc_size = 0, qc_pc = 0, qc_addr = 0, qc_insn_class = 0, qc_data = replicate 64 0\<rparr>"

fun exit_rings :: "nat list \<Rightarrow> plugin \<Rightarrow> plugin result" where
  "exit_rings [] p = Inr p"
| "exit_rings (v # vs) p =
     res_bind (require_vcpu p (of_nat v)) (\<lambda>_.
     res_bind (flush_run (of_nat v) p) (\<lambda>p1. exit_rings vs (writeMessage v exit_command p1)))"

text \<open>\<open>num_vcpus\<close> is QEMU's count, at least one.\<close>

definition cb_atexit :: "int \<Rightarrow> plugin \<Rightarrow> plugin result" where
  "cb_atexit num_vcpus p = exit_rings [0..<nat (if num_vcpus \<le> 0 then 1 else num_vcpus)] p"

section \<open>Installation\<close>

record qemu_info =
  qi_target_name :: "string option"
  qi_system_emulation :: bool
  qi_smp_vcpus :: int

definition plugin_globals :: plugin where
  "plugin_globals = \<lparr>pg_shmem_name = [], pg_detailed = False, pg_system_mode = False, pg_cache_ops = False,
     pg_configured_vcpus = 0, pg_classifier = GenericInsnClassifier, pg_mmio_base = 0, pg_mmio_size = 0,
     pg_win_base = 0, pg_win_size = 0, pg_mem_seen = (\<lambda>_. False), pg_prev_cls = (\<lambda>_. INT_MEM),
     pg_run_cls = (\<lambda>_. INT_MEM), pg_run_count = (\<lambda>_. 0), pg_run_pc = (\<lambda>_. 0), pg_ring = (\<lambda>_. [])\<rparr>"

definition plugin_arg :: "string \<Rightarrow> plugin \<Rightarrow> plugin" where
  "plugin_arg arg p =
     (if take 8 arg = ''shmname='' then p\<lparr>pg_shmem_name := drop 8 arg\<rparr>
      else if arg = ''cache_ops=1'' then p\<lparr>pg_cache_ops := True\<rparr>
      else if take 9 arg = ''detailed='' then p\<lparr>pg_detailed := (take 1 (drop 9 arg) = ''1'')\<rparr>
      else if take 10 arg = ''mmio_base='' then p\<lparr>pg_mmio_base := strtoull (drop 10 arg)\<rparr>
      else if take 10 arg = ''mmio_size='' then p\<lparr>pg_mmio_size := strtoull (drop 10 arg)\<rparr>
      else if take 9 arg = ''win_base='' then p\<lparr>pg_win_base := strtoull (drop 9 arg)\<rparr>
      else if take 9 arg = ''win_size='' then p\<lparr>pg_win_size := strtoull (drop 9 arg)\<rparr>
      else p)"

definition plugin_classifiers :: "(string \<times> insn_classifier) list" where
  "plugin_classifiers = [(''riscv'', RiscvInsnClassifier), (''aarch64'', Aarch64InsnClassifier), ([], GenericInsnClassifier)]"

text \<open>\<open>tunnel\<close> is what attaching to the named segment gives; attaching is announced in it at the end.\<close>

definition qemu_plugin_install ::
    "qemu_info option \<Rightarrow> string list \<Rightarrow> (string \<Rightarrow> shared_data option) \<Rightarrow> (plugin \<times> shared_data) result" where
  "qemu_plugin_install info argv tunnel =
     (let target = (case info of Some i \<Rightarrow> (case qi_target_name i of Some t \<Rightarrow> t | None \<Rightarrow> []) | None \<Rightarrow> []);
          p0 = plugin_globals\<lparr>pg_system_mode := (case info of Some i \<Rightarrow> qi_system_emulation i | None \<Rightarrow> False)\<rparr> in
      case findByPrefix plugin_classifiers target of
        None \<Rightarrow> Inl (Fatal ''no classifier/handler for target'')
      | Some cl \<Rightarrow>
          let p1 = p0\<lparr>pg_classifier := cl, pg_mem_seen := (\<lambda>i. if i < 256 then False else pg_mem_seen p0 i),
                      pg_prev_cls := (\<lambda>i. if i < 256 then OTHER else pg_prev_cls p0 i),
                      pg_run_count := (\<lambda>i. if i < 256 then 0 else pg_run_count p0 i)\<rparr>;
              p2 = fold plugin_arg argv p1
          in if pg_cache_ops p2 \<and> (target \<noteq> ''m68k'' \<or> \<not> pg_system_mode p2 \<or> pg_win_size p2 = 0)
               then Inl (Fatal ''cache_ops=1 requires ColdFire system mode and an SST-backed window'')
             else if pg_shmem_name p2 = [] then Inl (Fatal ''no shmname argument'')
             else case tunnel (pg_shmem_name p2) of
                    None \<Rightarrow> Inl (Fatal ''failed to attach to shmem'')
                  | Some sh \<Rightarrow>
                      let p3 = p2\<lparr>pg_configured_vcpus := ucast (num_cores sh)\<rparr>
                      in if pg_configured_vcpus p3 = 0 \<or> pg_configured_vcpus p3 > PLUGIN_MAX_VCPUS \<or>
                            (pg_system_mode p3 \<and> (case info of Some i \<Rightarrow> qi_smp_vcpus i \<noteq> sint (pg_configured_vcpus p3) | None \<Rightarrow> True))
                           then Inl (Fatal ''configured trace-ring count does not match the QEMU vCPU topology'')
                         else Inr (p3, sh\<lparr>child_attached := child_attached sh + 1\<rparr>))"

section \<open>Runs of the plugin\<close>

text \<open>A callback as QEMU fires it, with the vCPU, the program counter and, for an access, its
  description and address.\<close>

datatype plugin_event = Fire u32 insn_cb u64 meminfo u64

fun fire :: "plugin_event \<Rightarrow> plugin \<Rightarrow> plugin result" where
  "fire (Fire v (Cb_nop cls) pc info va) p = emit_nop_now v pc cls p"
| "fire (Fire v Cb_exec_delayed_other pc info va) p = handle_exec_delayed v pc OTHER p"
| "fire (Fire v (Cb_mem cls) pc info va) p = mem_handle v info va pc cls p"

fun plugin_run :: "plugin_event list \<Rightarrow> plugin \<Rightarrow> plugin result" where
  "plugin_run [] p = Inr p"
| "plugin_run (e # es) p = res_bind (fire e p) (plugin_run es)"

section \<open>The program-order stream\<close>

text \<open>The specification: each event contributes at once, without batching. A compute instruction is
  its class, an access the command it puts on the ring. \<open>seen\<close> and \<open>prev\<close> are the delayed mode's
  memory flag and previous class.\<close>

datatype traced = T_compute u32 | T_access quetz_command | T_exit

definition access_command :: "plugin \<Rightarrow> meminfo \<Rightarrow> u64 \<Rightarrow> u64 \<Rightarrow> insn_class \<Rightarrow> quetz_command" where
  "access_command p info vaddr pc cls =
     \<lparr>qc_cmd = cmd_code (if mi_is_store info then CMD_WRITE else CMD_READ), qc_size = access_size info, qc_pc = pc,
      qc_addr = vaddr,
      qc_insn_class = class_code (if usesPreciseMemCallbacks (pg_classifier p) then cls else classify_by_size (access_size info)),
      qc_data = (case store_buf info of None \<Rightarrow> replicate 64 0
                 | Some bs \<Rightarrow> take (unat (access_size info)) bs @ replicate (64 - unat (access_size info)) 0)\<rparr>"

definition traced_access :: "plugin \<Rightarrow> u64 \<Rightarrow> bool" where
  "traced_access p va \<longleftrightarrow> \<not> in_aperture (pg_mmio_base p) (pg_mmio_size p) va \<and>
     \<not> in_aperture (pg_win_base p) (pg_win_size p) va"

fun program_order :: "plugin \<Rightarrow> u32 \<Rightarrow> bool \<Rightarrow> insn_class \<Rightarrow> plugin_event list \<Rightarrow> traced list" where
  "program_order p v seen prev [] = []"
| "program_order p v seen prev (Fire w cb pc info va # es) =
     (if w \<noteq> v then program_order p v seen prev es
      else case cb of
        Cb_nop cls \<Rightarrow> T_compute (class_code cls) # program_order p v seen prev es
      | Cb_exec_delayed_other \<Rightarrow>
          (if seen then [] else [T_compute (class_code prev)]) @ program_order p v False OTHER es
      | Cb_mem cls \<Rightarrow>
          if traced_access p va then T_access (access_command p info va pc cls) # program_order p v True prev es
          else program_order p v seen prev es)"

definition traced_of :: "quetz_command \<Rightarrow> traced" where
  "traced_of c = (if qc_cmd c = cmd_code CMD_NOP then T_compute (qc_insn_class c)
                  else if qc_cmd c = cmd_code CMD_EXIT then T_exit else T_access c)"

text \<open>What the input stage will deliver from a ring, and what is still in the accumulator.\<close>

definition delivered :: "core_ctx \<Rightarrow> quetz_command list \<Rightarrow> traced list" where
  "delivered ctx cmds = map traced_of (map ev_cmd (concat (map (expand ctx) cmds)))"

definition batched :: "plugin \<Rightarrow> nat \<Rightarrow> traced list" where
  "batched p v = replicate (unat (pg_run_count p v)) (T_compute (class_code (pg_run_cls p v)))"

definition stream :: "core_ctx \<Rightarrow> plugin \<Rightarrow> nat \<Rightarrow> traced list" where
  "stream ctx p v = delivered ctx (pg_ring p v) @ batched p v"

text \<open>Every run in the accumulator and on a ring is shorter than the cap.\<close>

definition run_size_ok :: "quetz_command \<Rightarrow> bool" where
  "run_size_ok c \<longleftrightarrow> (qc_cmd c = cmd_code CMD_COMPUTE_RUN \<longrightarrow> 0 < qc_size c \<and> qc_size c \<le> QUETZ_COMPUTE_RUN_MAX)"

definition runs_ok :: "plugin \<Rightarrow> bool" where
  "runs_ok p \<longleftrightarrow> (\<forall>v. pg_run_count p v < QUETZ_COMPUTE_RUN_MAX \<and> (\<forall>c \<in> set (pg_ring p v). run_size_ok c))"

section \<open>Batching is invisible\<close>

lemma delivered_append [simp]: "delivered ctx (xs @ ys) = delivered ctx xs @ delivered ctx ys"
  by (simp add: delivered_def)

lemma delivered_Nil [simp]: "delivered ctx [] = []"
  by (simp add: delivered_def)

lemma delivered_run:
  "pg_run_count p v \<noteq> 0 \<Longrightarrow> delivered ctx [run_command p v] = batched p v"
  by (simp add: delivered_def batched_def run_command_def expand_def run_events_def run_event_def start_run_def traced_of_def)

lemma delivered_single:
  "qc_cmd c \<noteq> cmd_code CMD_COMPUTE_RUN \<Longrightarrow> delivered ctx [c] = [traced_of c]"
  by (simp add: delivered_def expand_def)

lemma batched_zero [simp]: "pg_run_count p v = 0 \<Longrightarrow> batched p v = []"
  by (simp add: batched_def)

lemma writeMessage_fields [simp]:
  "pg_ring (writeMessage v c p) = (pg_ring p)(v := pg_ring p v @ [c])"
  "pg_run_count (writeMessage v c p) = pg_run_count p"
  "pg_run_cls (writeMessage v c p) = pg_run_cls p"
  "pg_mem_seen (writeMessage v c p) = pg_mem_seen p"
  "pg_prev_cls (writeMessage v c p) = pg_prev_cls p"
  "pg_configured_vcpus (writeMessage v c p) = pg_configured_vcpus p"
  "pg_classifier (writeMessage v c p) = pg_classifier p"
  "pg_mmio_base (writeMessage v c p) = pg_mmio_base p" "pg_mmio_size (writeMessage v c p) = pg_mmio_size p"
  "pg_win_base (writeMessage v c p) = pg_win_base p" "pg_win_size (writeMessage v c p) = pg_win_size p"
  by (simp_all add: writeMessage_def)

definition same_config :: "plugin \<Rightarrow> plugin \<Rightarrow> bool" where
  "same_config p q \<longleftrightarrow> pg_configured_vcpus q = pg_configured_vcpus p \<and> pg_classifier q = pg_classifier p \<and>
     pg_mmio_base q = pg_mmio_base p \<and> pg_mmio_size q = pg_mmio_size p \<and>
     pg_win_base q = pg_win_base p \<and> pg_win_size q = pg_win_size p"

text \<open>\<open>emits ctx p v out q\<close>: from \<open>p\<close> to \<open>q\<close> the stream of \<open>v\<close> grew by \<open>out\<close> and no other stream changed.\<close>

definition emits :: "core_ctx \<Rightarrow> plugin \<Rightarrow> nat \<Rightarrow> traced list \<Rightarrow> plugin \<Rightarrow> bool" where
  "emits ctx p v out q \<longleftrightarrow> runs_ok q \<and> same_config p q \<and>
     (\<forall>w. stream ctx q w = stream ctx p w @ (if w = v then out else []))"

lemma emits_trans:
  "emits ctx p v xs q \<Longrightarrow> emits ctx q v ys r \<Longrightarrow> emits ctx p v (xs @ ys) r"
  by (auto simp: emits_def same_config_def)

lemma stream_cong:
  "pg_ring q = pg_ring p \<Longrightarrow> pg_run_count q = pg_run_count p \<Longrightarrow> pg_run_cls q = pg_run_cls p \<Longrightarrow> stream ctx q = stream ctx p"
  by (auto simp: stream_def batched_def fun_eq_iff)

lemma flush_run_emits:
  assumes "flush_run vcpu p = Inr q" "runs_ok p"
  shows "emits ctx p (unat vcpu) [] q" "pg_run_count q (unat vcpu) = 0"
    "pg_mem_seen q = pg_mem_seen p" "pg_prev_cls q = pg_prev_cls p"
proof -
  let ?v = "unat vcpu"
  consider (empty) "q = p" "pg_run_count p ?v = 0"
    | (run) "q = (writeMessage ?v (run_command p ?v) p)\<lparr>pg_run_count := (pg_run_count p)(?v := 0)\<rparr>" "pg_run_count p ?v \<noteq> 0"
    using assms(1) by (auto simp: flush_run_def res_bind_Inr_iff Let_def split: if_splits)
  then have "emits ctx p ?v [] q \<and> pg_run_count q ?v = 0 \<and> pg_mem_seen q = pg_mem_seen p \<and> pg_prev_cls q = pg_prev_cls p"
  proof cases
    case empty
    then show ?thesis using assms(2) by (simp add: emits_def same_config_def)
  next
    case run
    have "run_size_ok (run_command p ?v)"
      using assms(2) run(2) by (auto simp: runs_ok_def run_size_ok_def run_command_def word_neq_0_conv intro: less_imp_le)
    then have "runs_ok q" using assms(2) run(1) by (auto simp: runs_ok_def ipc_constants)
    moreover have "stream ctx q w = stream ctx p w" for w
      using delivered_run [OF run(2), of ctx] run(1) by (simp add: stream_def batched_def)
    ultimately show ?thesis using run(1) by (simp add: emits_def same_config_def)
  qed
  then show "emits ctx p ?v [] q" "pg_run_count q ?v = 0" "pg_mem_seen q = pg_mem_seen p" "pg_prev_cls q = pg_prev_cls p"
    by auto
qed

lemma run_count_suc:
  assumes "pg_run_count p v < QUETZ_COMPUTE_RUN_MAX"
  shows "unat (pg_run_count p v + 1) = unat (pg_run_count p v) + 1"
  using assms by (rule unat_suc_32)

lemma accumulate_emits:
  assumes "accumulate_compute vcpu pc cls p = Inr q" "runs_ok p"
  shows "emits ctx p (unat vcpu) [T_compute (class_code cls)] q" "pg_mem_seen q = pg_mem_seen p" "pg_prev_cls q = pg_prev_cls p"
proof -
  let ?v = "unat vcpu"
  obtain p1 where p1: "(if pg_run_count p ?v > 0 \<and> pg_run_cls p ?v \<noteq> cls then flush_run vcpu p else Inr p) = Inr p1"
    and q: "(let p2 = p1\<lparr>pg_run_cls := (pg_run_cls p1)(?v := cls), pg_run_pc := (pg_run_pc p1)(?v := pc),
                     pg_run_count := (pg_run_count p1)(?v := pg_run_count p1 ?v + 1)\<rparr>
         in if pg_run_count p2 ?v \<ge> QUETZ_COMPUTE_RUN_MAX then flush_run vcpu p2 else Inr p2) = Inr q"
    using assms(1) by (auto simp: accumulate_compute_def res_bind_Inr_iff Let_def)
  define p2 where "p2 = p1\<lparr>pg_run_cls := (pg_run_cls p1)(?v := cls), pg_run_pc := (pg_run_pc p1)(?v := pc),
                     pg_run_count := (pg_run_count p1)(?v := pg_run_count p1 ?v + 1)\<rparr>"
  have e1: "emits ctx p ?v [] p1" "pg_mem_seen p1 = pg_mem_seen p" "pg_prev_cls p1 = pg_prev_cls p"
    and c1: "pg_run_count p1 ?v = 0 \<or> pg_run_cls p1 ?v = cls"
    using p1 assms(2) flush_run_emits(1) [of vcpu p p1 ctx] flush_run_emits(2-4) [of vcpu p p1]
    by (auto simp: emits_def same_config_def word_gt_0 split: if_splits)
  have ok1: "runs_ok p1" using e1(1) by (simp add: emits_def)
  then have lt: "pg_run_count p1 ?v < QUETZ_COMPUTE_RUN_MAX" by (simp add: runs_ok_def)
  have b: "batched p2 ?v = batched p1 ?v @ [T_compute (class_code cls)]"
    using c1 run_count_suc [OF lt] by (auto simp: batched_def p2_def replicate_append_same [symmetric])
  have s2: "stream ctx p2 w = stream ctx p1 w @ (if w = ?v then [T_compute (class_code cls)] else [])" for w
    using b by (simp add: stream_def p2_def) (simp add: batched_def)
  have f2: "same_config p1 p2" "pg_mem_seen p2 = pg_mem_seen p1" "pg_prev_cls p2 = pg_prev_cls p1"
    by (simp_all add: p2_def same_config_def)
  have "emits ctx p1 ?v [T_compute (class_code cls)] q \<and> pg_mem_seen q = pg_mem_seen p1 \<and> pg_prev_cls q = pg_prev_cls p1"
  proof (cases "pg_run_count p2 ?v \<ge> QUETZ_COMPUTE_RUN_MAX")
    case False
    then have "q = p2" using q by (simp add: p2_def [symmetric] Let_def)
    moreover have "runs_ok p2" using ok1 False by (auto simp: runs_ok_def p2_def)
    ultimately show ?thesis using s2 f2 by (simp add: emits_def)
  next
    case True
    have fl: "flush_run vcpu p2 = Inr q" using q True by (simp add: p2_def [symmetric] Let_def)
    have "pg_run_count p2 ?v = QUETZ_COMPUTE_RUN_MAX"
      using True lt run_count_suc [OF lt] by (simp add: p2_def word_le_nat_alt word_less_nat_alt word_unat_eq_iff)
    then have nz: "pg_run_count p2 ?v \<noteq> 0" "run_size_ok (run_command p2 ?v)"
      by (simp_all add: ipc_constants run_size_ok_def run_command_def)
    have qq: "q = (writeMessage ?v (run_command p2 ?v) p2)\<lparr>pg_run_count := (pg_run_count p2)(?v := 0)\<rparr>"
      using fl nz by (auto simp: flush_run_def res_bind_Inr_iff Let_def)
    have ok2: "pg_run_count p2 w < QUETZ_COMPUTE_RUN_MAX" if "w \<noteq> ?v" for w using ok1 that by (simp add: runs_ok_def p2_def)
    have r2: "pg_ring p2 = pg_ring p1" by (simp add: p2_def)
    have "runs_ok q" using ok1 ok2 nz(2) r2 by (auto simp: runs_ok_def qq ipc_constants)
    moreover have "stream ctx q w = stream ctx p2 w" for w
      using delivered_run [OF nz(1), of ctx] qq by (simp add: stream_def batched_def)
    ultimately show ?thesis using s2 f2 qq by (simp add: emits_def same_config_def)
  qed
  with e1 show "emits ctx p ?v [T_compute (class_code cls)] q" "pg_mem_seen q = pg_mem_seen p" "pg_prev_cls q = pg_prev_cls p"
    using emits_trans [OF e1(1), of "[T_compute (class_code cls)]" q] by auto
qed

lemma write_cmd_emits:
  assumes "write_cmd vcpu type sz pc addr cls data p = Inr q" "runs_ok p" "pg_run_count p (unat vcpu) = 0"
    and "type = CMD_READ \<or> type = CMD_WRITE"
  shows "\<exists>c. emits ctx p (unat vcpu) [T_access c] q \<and> pg_mem_seen q = pg_mem_seen p \<and> pg_prev_cls q = pg_prev_cls p \<and>
    qc_cmd c = cmd_code type \<and> qc_size c = sz \<and> qc_pc c = pc \<and> qc_addr c = addr \<and> qc_insn_class c = class_code cls \<and>
    qc_data c = (case data of None \<Rightarrow> replicate 64 0
       | Some bs \<Rightarrow> let n = (if sz < 64 then unat sz else 64) in take n bs @ replicate (64 - n) 0)"
proof -
  define c where "c = \<lparr>qc_cmd = cmd_code type, qc_size = sz, qc_pc = pc, qc_addr = addr, qc_insn_class = class_code cls,
    qc_data = (case data of Some bs \<Rightarrow> let n = (if sz < 64 then unat sz else 64) in take n bs @ replicate (64 - n) 0
                     | None \<Rightarrow> replicate 64 0)\<rparr>"
  have q: "q = writeMessage (unat vcpu) c p" using assms(1) by (auto simp: write_cmd_def res_bind_Inr_iff c_def)
  have c: "qc_cmd c \<noteq> cmd_code CMD_COMPUTE_RUN" "traced_of c = T_access c"
    using assms(4) by (auto simp: c_def traced_of_def)
  have "runs_ok q" using assms(2) c(1) q by (auto simp: runs_ok_def run_size_ok_def)
  moreover have "stream ctx q w = stream ctx p w @ (if w = unat vcpu then [T_access c] else [])" for w
    using assms(3) delivered_single [OF c(1), of ctx] c(2) q by (simp add: stream_def batched_def)
  ultimately have "emits ctx p (unat vcpu) [T_access c] q" using q by (simp add: emits_def same_config_def)
  then show ?thesis using q by (intro exI [of _ c]) (simp add: c_def split: option.splits)
qed

lemma program_order_cong:
  assumes "same_config p q"
  shows "program_order q v s c es = program_order p v s c es"
proof (induction es arbitrary: s c)
  case (Cons e es)
  have "traced_access q = traced_access p" "access_command q = access_command p"
    using assms by (auto simp: same_config_def traced_access_def access_command_def fun_eq_iff)
  then show ?case using Cons by (cases e) (simp split: insn_cb.splits)
qed simp

lemma access_size_le: "access_size info \<le> 64 \<Longrightarrow> (if access_size info < 64 then unat (access_size info) else 64) = unat (access_size info)"
  by (auto simp: word_less_nat_alt word_le_nat_alt)

lemma mem_handle_emits:
  assumes "mem_handle vcpu info va pc cls p = Inr q" "runs_ok p" "vcpu < PLUGIN_MAX_VCPUS"
  shows "emits ctx p (unat vcpu) (if traced_access p va then [T_access (access_command p info va pc cls)] else []) q"
    and "pg_mem_seen q = (if traced_access p va then (pg_mem_seen p)(unat vcpu := True) else pg_mem_seen p)"
    and "pg_prev_cls q = pg_prev_cls p"
proof -
  let ?v = "unat vcpu"
  have nv: "\<not> PLUGIN_MAX_VCPUS \<le> vcpu" using assms(3) by simp
  have "emits ctx p ?v (if traced_access p va then [T_access (access_command p info va pc cls)] else []) q \<and>
    pg_mem_seen q = (if traced_access p va then (pg_mem_seen p)(?v := True) else pg_mem_seen p) \<and> pg_prev_cls q = pg_prev_cls p"
  proof (cases "traced_access p va")
    case False
    then have "flush_run vcpu p = Inr q"
      using assms(1) nv by (auto simp: mem_handle_def traced_access_def split: if_splits)
    from flush_run_emits [OF this assms(2)] False show ?thesis by auto
  next
    case True
    let ?p1 = "p\<lparr>pg_mem_seen := (pg_mem_seen p)(?v := True)\<rparr>"
    let ?cls = "if \<not> usesPreciseMemCallbacks (pg_classifier p) then refineMemClass (pg_classifier p) cls (access_size info) else cls"
    let ?type = "if mi_is_store info then CMD_WRITE else CMD_READ"
    obtain p2 where p2: "flush_run vcpu ?p1 = Inr p2"
      and q: "write_cmd vcpu ?type (access_size info) pc va ?cls (store_buf info) p2 = Inr q"
      using assms(1) nv True by (auto simp: mem_handle_def traced_access_def Let_def res_bind_Inr_iff)
    have ok1: "runs_ok ?p1" using assms(2) by (simp add: runs_ok_def)
    note f = flush_run_emits [OF p2 ok1]
    have "emits ctx p ?v [] ?p1"
      using ok1 stream_cong [of ?p1 p ctx] by (simp add: emits_def same_config_def)
    from emits_trans [OF this f(1)] have e: "emits ctx p ?v [] p2" by simp
    have ok2: "runs_ok p2" using e by (simp add: emits_def)
    have ty: "?type = CMD_READ \<or> ?type = CMD_WRITE" by simp
    from write_cmd_emits [OF q ok2 f(2) ty, of ctx] obtain c where
      c: "emits ctx p2 ?v [T_access c] q" "pg_mem_seen q = pg_mem_seen p2" "pg_prev_cls q = pg_prev_cls p2"
        "qc_cmd c = cmd_code ?type" "qc_size c = access_size info" "qc_pc c = pc" "qc_addr c = va"
        "qc_insn_class c = class_code ?cls"
        "qc_data c = (case store_buf info of None \<Rightarrow> replicate 64 0
           | Some bs \<Rightarrow> let n = (if access_size info < 64 then unat (access_size info) else 64) in take n bs @ replicate (64 - n) 0)"
      by blast
    have "?cls = (if usesPreciseMemCallbacks (pg_classifier p) then cls else classify_by_size (access_size info))"
      by (cases "pg_classifier p") simp_all
    moreover have "(case store_buf info of None \<Rightarrow> replicate 64 0
           | Some bs \<Rightarrow> let n = (if access_size info < 64 then unat (access_size info) else 64) in take n bs @ replicate (64 - n) 0) =
        (case store_buf info of None \<Rightarrow> replicate 64 0
           | Some bs \<Rightarrow> take (unat (access_size info)) bs @ replicate (64 - unat (access_size info)) 0)"
      using access_size_le [of info] by (auto simp: store_buf_def Let_def)
    ultimately have "c = access_command p info va pc cls"
      using c(4-9) by (intro quetz_command.equality) (simp_all add: access_command_def)
    with emits_trans [OF e c(1)] c(2,3) f(3,4) True show ?thesis by simp
  qed
  then show "emits ctx p ?v (if traced_access p va then [T_access (access_command p info va pc cls)] else []) q"
    "pg_mem_seen q = (if traced_access p va then (pg_mem_seen p)(?v := True) else pg_mem_seen p)" "pg_prev_cls q = pg_prev_cls p"
    by auto
qed

text \<open>One callback extends the stream of its vCPU as the specification says.\<close>

lemma fire_simulates:
  assumes "fire (Fire w cb pc info va) p = Inr q" "runs_ok p" "v < PLUGIN_MAX_VCPUS"
  shows "runs_ok q \<and> same_config p q \<and>
    stream ctx q (unat v) @ program_order p v (pg_mem_seen q (unat v)) (pg_prev_cls q (unat v)) es =
    stream ctx p (unat v) @ program_order p v (pg_mem_seen p (unat v)) (pg_prev_cls p (unat v)) (Fire w cb pc info va # es)"
proof (cases "PLUGIN_MAX_VCPUS \<le> w")
  case True
  then have "w \<noteq> v" using assms(3) by auto
  moreover have "require_vcpu p w \<noteq> Inr ()" using True by (simp add: require_vcpu_def)
  then have "q = p"
    using assms(1) True by (cases cb) (auto simp: emit_nop_now_def accumulate_compute_def res_bind_Inr_iff
        handle_exec_delayed_def mem_handle_def)
  ultimately show ?thesis using assms(2) by (simp add: same_config_def)
next
  case False
  have ne: "unat v = unat w \<longleftrightarrow> v = w" by (simp add: word_unat_eq_iff)
  show ?thesis
  proof (cases cb)
    case (Cb_nop cls)
    then have "accumulate_compute w pc cls p = Inr q" using assms(1) by (simp add: emit_nop_now_def)
    from accumulate_emits(1) [OF this assms(2), of ctx] accumulate_emits(2,3) [OF this assms(2)] Cb_nop ne
    show ?thesis by (auto simp: emits_def)
  next
    case Cb_exec_delayed_other
    let ?p1 = "p\<lparr>pg_prev_cls := (pg_prev_cls p)(unat w := OTHER), pg_mem_seen := (pg_mem_seen p)(unat w := False)\<rparr>"
    have ok: "runs_ok ?p1" "stream ctx ?p1 = stream ctx p" "same_config p ?p1"
      using assms(2) stream_cong [of ?p1 p ctx] by (simp_all add: runs_ok_def same_config_def)
    show ?thesis
    proof (cases "pg_mem_seen p (unat w)")
      case True
      then have "q = ?p1" using assms(1) False Cb_exec_delayed_other by (simp add: handle_exec_delayed_def Let_def)
      then show ?thesis using ok True Cb_exec_delayed_other ne by auto
    next
      case ns: False
      then have a: "accumulate_compute w pc (pg_prev_cls p (unat w)) ?p1 = Inr q"
        using assms(1) False Cb_exec_delayed_other by (simp add: handle_exec_delayed_def Let_def)
      from accumulate_emits(1) [OF a ok(1), of ctx] accumulate_emits(2,3) [OF a ok(1)] ok(2,3) ns Cb_exec_delayed_other ne
      show ?thesis by (auto simp: emits_def same_config_def)
    qed
  next
    case (Cb_mem cls)
    then have h: "mem_handle w info va pc cls p = Inr q" and lt: "w < PLUGIN_MAX_VCPUS" using assms(1) False by auto
    from mem_handle_emits(1) [OF h assms(2) lt, of ctx] mem_handle_emits(2,3) [OF h assms(2) lt] Cb_mem ne
    show ?thesis by (auto simp: emits_def)
  qed
qed

lemma plugin_run_simulates:
  assumes "plugin_run es p = Inr q" "runs_ok p" "v < PLUGIN_MAX_VCPUS"
  shows "runs_ok q \<and> same_config p q \<and>
    stream ctx q (unat v) = stream ctx p (unat v) @ program_order p v (pg_mem_seen p (unat v)) (pg_prev_cls p (unat v)) es"
  using assms(1,2)
proof (induction es arbitrary: p)
  case (Cons e es)
  obtain w cb pc info va where e: "e = Fire w cb pc info va" by (cases e)
  from Cons.prems(1) obtain p1 where f: "fire (Fire w cb pc info va) p = Inr p1" and r: "plugin_run es p1 = Inr q"
    by (auto simp: res_bind_Inr_iff e)
  note s = fire_simulates [OF f Cons.prems(2) assms(3), of ctx es]
  then have po: "program_order p1 v a b es = program_order p v a b es" for a b by (simp add: program_order_cong)
  have "same_config p q" using s Cons.IH [OF r] by (auto simp: same_config_def)
  with s Cons.IH [OF r] po e show ?case by metis
qed (simp add: same_config_def)

lemma plugin_arg_keeps [simp]:
  "pg_ring (plugin_arg a p) = pg_ring p" "pg_run_count (plugin_arg a p) = pg_run_count p"
  "pg_mem_seen (plugin_arg a p) = pg_mem_seen p" "pg_prev_cls (plugin_arg a p) = pg_prev_cls p"
  by (simp_all add: plugin_arg_def)

lemma plugin_args_keep [simp]:
  "pg_ring (fold plugin_arg args p) = pg_ring p" "pg_run_count (fold plugin_arg args p) = pg_run_count p"
  "pg_mem_seen (fold plugin_arg args p) = pg_mem_seen p" "pg_prev_cls (fold plugin_arg args p) = pg_prev_cls p"
  by (induction args arbitrary: p) simp_all

lemma installed_fresh:
  assumes "qemu_plugin_install info argv tunnel = Inr (p, sh)"
  shows "pg_ring p v = []" "pg_run_count p v = 0"
    "v < 256 \<Longrightarrow> \<not> pg_mem_seen p v" "v < 256 \<Longrightarrow> pg_prev_cls p v = OTHER"
    "pg_configured_vcpus p \<le> PLUGIN_MAX_VCPUS"
  using assms
  by (auto simp: qemu_plugin_install_def Let_def plugin_globals_def split: option.splits if_splits)

lemma exit_rings_stream:
  assumes "exit_rings vs q = Inr r" "runs_ok q" "distinct vs" "set vs \<subseteq> {0..<2 ^ 32}"
  shows "delivered ctx (pg_ring r v) = (if v \<in> set vs then stream ctx q v @ [T_exit] else delivered ctx (pg_ring q v))"
  using assms
proof (induction vs arbitrary: q)
  case (Cons u vs)
  then obtain q1 where f: "flush_run (of_nat u) q = Inr q1" and r: "exit_rings vs (writeMessage u exit_command q1) = Inr r"
    by (auto simp: res_bind_Inr_iff)
  have u: "unat (of_nat u :: u32) = u" using Cons.prems(4) by (intro unat_of_nat_small) simp
  note e = flush_run_emits(1) [OF f Cons.prems(2), of ctx, unfolded u] flush_run_emits(2) [OF f Cons.prems(2), unfolded u]
  have ok: "runs_ok (writeMessage u exit_command q1)"
    using e(1) by (auto simp: emits_def runs_ok_def run_size_ok_def exit_command_def)
  have ex: "delivered ctx [exit_command] = [T_exit]"
    by (subst delivered_single) (simp_all add: exit_command_def traced_of_def)
  have st: "stream ctx q1 w = stream ctx q w" for w using e(1) by (simp add: emits_def)
  have other: "pg_ring q1 w = pg_ring q w" if "w \<noteq> u" for w
    using f that u by (auto simp: flush_run_def res_bind_Inr_iff Let_def split: if_splits)
  have wm: "stream ctx (writeMessage u exit_command q1) w = stream ctx q w" if "w \<noteq> u" for w
    using that st [of w] by (simp add: stream_def batched_def)
  have du: "delivered ctx (pg_ring q1 u) = stream ctx q u" using st [of u] e(2) by (simp add: stream_def)
  have "u \<notin> set vs" "distinct vs" "set vs \<subseteq> {0..<2 ^ 32}" using Cons.prems(3,4) by auto
  with Cons.IH [OF r ok] show ?case
    by (cases "v = u") (simp_all add: du ex wm other)
qed simp

lemma exited_ring:
  assumes "qemu_plugin_install info argv tunnel = Inr (p, sh)" "plugin_run es p = Inr q"
    and "cb_atexit n q = Inr r" "int (unat v) < n" "v < PLUGIN_MAX_VCPUS" "n \<le> 2 ^ 32"
  shows "delivered ctx (pg_ring r (unat v)) = program_order p v False OTHER es @ [T_exit]" "runs_ok q"
proof -
  note p = installed_fresh [OF assms(1)]
  have v: "unat v < 256" using assms(5) by (simp add: PLUGIN_MAX_VCPUS_def word_less_nat_alt)
  have ok: "runs_ok p" using p(1,2) by (simp add: runs_ok_def ipc_constants)
  have s0: "stream ctx p (unat v) = []" using p(1,2) by (simp add: stream_def)
  have s: "runs_ok q" "stream ctx q (unat v) = program_order p v False OTHER es"
    using plugin_run_simulates [OF assms(2) ok assms(5), of ctx] s0 p(3,4) [OF v] by auto
  have "exit_rings [0..<nat n] q = Inr r" using assms(3,4) by (simp add: cb_atexit_def split: if_splits)
  from exit_rings_stream [OF this s(1), of ctx "unat v"] assms(4,6) s(2)
  show "delivered ctx (pg_ring r (unat v)) = program_order p v False OTHER es @ [T_exit]"
    by (auto simp: zless_nat_eq_int_zless)
  show "runs_ok q" by (rule s(1))
qed

section \<open>Properties\<close>


definition sample_argv :: "string list" where
  "sample_argv = [''shmname=quetz'', ''mmio_base=0x10000000'', ''mmio_size=256'']"

definition sample_info :: qemu_info where
  "sample_info = \<lparr>qi_target_name = Some ''riscv64'', qi_system_emulation = True, qi_smp_vcpus = 2\<rparr>"

definition sample_store :: meminfo where
  "sample_store = \<lparr>mi_is_store = True, mi_size_shift = 2, mi_value = VALUE_U32 0x01020304\<rparr>"

definition sample_events :: "plugin_event list" where
  "sample_events = [Fire 0 (Cb_nop INT_COMPUTE) 0 sample_store 0, Fire 1 (Cb_nop BRANCH) 0 sample_store 0,
     Fire 0 (Cb_nop INT_COMPUTE) 4 sample_store 0, Fire 0 (Cb_mem INT_MEM) 8 sample_store 0x80000000,
     Fire 0 (Cb_mem INT_MEM) 12 sample_store 0x10000010]"

lemma sample_install: "is_ok (qemu_plugin_install (Some sample_info) sample_argv (\<lambda>_. Some sample_segment))"
  by code_simp

lemma sample_plugin_run:
  "is_ok (res_bind (qemu_plugin_install (Some sample_info) sample_argv (\<lambda>_. Some sample_segment))
     (\<lambda>(p, sh). res_bind (plugin_run sample_events p) (cb_atexit 2)))"
  by code_simp

lemma sample_program_order:
  "case qemu_plugin_install (Some sample_info) sample_argv (\<lambda>_. Some sample_segment) of Inl e \<Rightarrow> False
   | Inr (p, sh) \<Rightarrow> program_order p 0 False OTHER sample_events =
      [T_compute 3, T_compute 3, T_access (access_command p sample_store 0x80000000 8 INT_MEM)]"
  by code_simp




end
