(* ===== verification/Quetz_Cache_Ops.thy ===== *)
theory Quetz_Cache_Ops
  imports Quetz_Plugin Quetz_Cpu_Mmio_Refine
begin

text \<open>
  ColdFire cache maintenance from the guest to the window cache: the plugin finds the registers of a
  vCPU, decodes MOVEC and CPUSHL when an instruction is translated, and on execution posts the operation
  in the mailbox (\<open>src/qemu_plugin/instrument.cpp\<close>); the simulator polls it and applies it to that
  vCPU's cache (\<open>Quetz_Cpu_Mmio\<close>). The theorem follows one operation across both sides.
\<close>

section \<open>Register discovery\<close>

record reg_descriptor =
  rd_feature :: "string option"
  rd_name :: "string option"
  rd_handle :: "nat option"

text \<open>The handles of one vCPU: D0-D7 and A0-A7 in encoding order, and the status register.\<close>

record cache_regs =
  cache_registers :: "nat \<Rightarrow> nat option"
  cache_status :: "nat option"

definition octal_digit :: "char \<Rightarrow> nat option" where
  "octal_digit c = (let n = of_char c :: nat in if 48 \<le> n \<and> n \<le> 55 then Some (n - 48) else None)"

definition numbered_register :: "string \<Rightarrow> nat option" where
  "numbered_register name =
     (case name of
        [k, d] \<Rightarrow> (case octal_digit d of
                    Some n \<Rightarrow> if k = CHR ''d'' then Some n else if k = CHR ''a'' then Some (8 + n) else None
                  | None \<Rightarrow> None)
      | _ \<Rightarrow> None)"

definition note_register :: "reg_descriptor \<Rightarrow> cache_regs \<Rightarrow> cache_regs" where
  "note_register reg r =
     (case rd_name reg of
        None \<Rightarrow> r
      | Some name \<Rightarrow>
          (case numbered_register name of
             Some n \<Rightarrow> r\<lparr>cache_registers := (cache_registers r)(n := rd_handle reg)\<rparr>
           | None \<Rightarrow>
               if name = ''fp'' then r\<lparr>cache_registers := (cache_registers r)(14 := rd_handle reg)\<rparr>
               else if name = ''sp'' then r\<lparr>cache_registers := (cache_registers r)(15 := rd_handle reg)\<rparr>
               else if name = ''ps'' \<or> name = ''sr'' then r\<lparr>cache_status := rd_handle reg\<rparr>
               else r))"

definition init_cache_registers :: "bool \<Rightarrow> u32 \<Rightarrow> reg_descriptor list option \<Rightarrow> cache_regs \<Rightarrow> cache_regs result" where
  "init_cache_registers cache_ops vi regs r =
     (if \<not> cache_ops then Inr r
      else if vi \<ge> PLUGIN_MAX_VCPUS then Inl (Fatal ''vCPU index exceeds mailbox capacity'')
      else case regs of
        None \<Rightarrow> Inl (Fatal ''ColdFire register descriptors unavailable'')
      | Some ds \<Rightarrow>
          let coldfire = (\<exists>d \<in> set ds. rd_feature d = Some ''org.gnu.gdb.coldfire.core'');
              r1 = fold note_register ds r
          in if \<not> coldfire \<or> cache_status r1 = None
               then Inl (Fatal ''ColdFire register descriptors (including SR) unavailable'')
             else if \<exists>i \<in> set [0..<16]. cache_registers r1 i = None
               then Inl (Fatal ''ColdFire D/A register descriptor unavailable'')
             else Inr r1)"

section \<open>The instruction callbacks\<close>

text \<open>\<open>rr\<close> is QEMU's register read: the count it returns and the bytes it appends, most significant
  first. \<open>None\<close> as a handle is a null pointer, which the code never passes.\<close>

type_synonym reg_read = "nat \<Rightarrow> int \<times> u8 list"

definition read_cache_register :: "reg_read \<Rightarrow> nat option \<Rightarrow> u32 result" where
  "read_cache_register rr reg =
     (case reg of
        None \<Rightarrow> Inl (Fatal ''null register handle'')
      | Some h \<Rightarrow>
          let (n, bytes) = rr h
          in if n \<noteq> 4 \<or> length bytes \<noteq> 4 then Inl (Fatal ''could not read a ColdFire 32-bit register'')
             else Inr (push_bit 24 (ucast (bytes ! 0)) OR push_bit 16 (ucast (bytes ! 1)) OR
                       push_bit 8 (ucast (bytes ! 2)) OR ucast (bytes ! 3)))"

definition encoding_bytes :: "u32 \<Rightarrow> u8 list" where
  "encoding_bytes e = [ucast (drop_bit 24 e), ucast (drop_bit 16 e), ucast (drop_bit 8 e), ucast e]"

text \<open>The operation and its operand: the value for MOVEC, the instruction for CPUSHL.\<close>

definition cache_op_operands :: "reg_read \<Rightarrow> cache_regs \<Rightarrow> u32 \<Rightarrow> u32 \<Rightarrow> (coldfire_cache_op \<times> u32) result" where
  "cache_op_operands rr r vi encoding =
     (let op = decodeColdFireCacheOp (encoding_bytes encoding) 4 in
      if vi \<ge> PLUGIN_MAX_VCPUS \<or> \<not> op_valid op then Inl (Fatal ''invalid cache-op callback'')
      else res_bind (read_cache_register rr (cache_status r)) (\<lambda>sr.
        if sr AND 0x2000 = 0 then Inl (Fatal ''cache instructions require supervisor firmware'')
        else res_bind (if op_kind op = 0 then read_cache_register rr (cache_registers r (unat (op_source op)))
                       else Inr (ucast (op_instruction op)))
               (\<lambda>value. Inr (op, value))))"

text \<open>The callback up to the release of the request; \<open>None\<close> is waiting for the lock.\<close>

definition cb_cache_op_post ::
    "reg_read \<Rightarrow> cache_regs \<Rightarrow> u32 \<Rightarrow> u32 \<Rightarrow> plugin \<Rightarrow> shared_data \<Rightarrow> (plugin \<times> shared_data) result option" where
  "cb_cache_op_post rr r vi encoding p sh =
     (case res_bind (cache_op_operands rr r vi encoding) (\<lambda>(op, value).
             res_bind (flush_run vi p) (\<lambda>p1. Inr (op, value, p1))) of
        Inl e \<Rightarrow> Some (Inl e)
      | Inr (op, value, p1) \<Rightarrow>
          let v = unat vi; req = mmio_req sh v in
          if shm_magic sh \<noteq> QUETZ_SHM_MAGIC then Some (Inl (Fatal ''invalid shared-memory cache mailbox''))
          else if busy req \<noteq> 0 then None
          else if pending req \<noteq> 0 \<or> ready (mmio_slot sh v) \<noteq> 0
            then Some (Inl (Fatal ''synchronous cache mailbox already in use''))
          else Some (res_bind (if op_kind op = 0 then Inr (ucast (op_control op))
                               else read_cache_register rr (cache_registers r (unat (op_source op))))
                 (\<lambda>addr. Inr (p1, sh\<lparr>mmio_req := (mmio_req sh)(v :=
                     req\<lparr>busy := 1, req_addr := ucast addr, req_size := op_kind op, write_val := ucast value,
                         req_cmd := cmd_code CMD_CACHE_OP, pending := 1\<rparr>)\<rparr>))))"

text \<open>The wait for the answer and the release of the lock; \<open>None\<close> is waiting.\<close>

definition cb_cache_op_finish :: "u32 \<Rightarrow> shared_data \<Rightarrow> shared_data option" where
  "cb_cache_op_finish vi sh =
     (let v = unat vi in
      if ready (mmio_slot sh v) = 0 then None
      else Some (sh\<lparr>mmio_slot := (mmio_slot sh)(v := (mmio_slot sh v)\<lparr>ready := 0\<rparr>),
                   mmio_req := (mmio_req sh)(v := (mmio_req sh v)\<lparr>busy := 0\<rparr>)\<rparr>))"

text \<open>The encoding a translated instruction registers, if it is a cache operation. \<open>size\<close> is the number
  of bytes QEMU copied into the four-byte buffer.\<close>

definition instrument_cache_op :: "bool \<Rightarrow> u8 list \<Rightarrow> nat \<Rightarrow> u32 option" where
  "instrument_cache_op cache_ops bytes sz =
     (if \<not> cache_ops \<or> \<not> op_valid (decodeColdFireCacheOp bytes sz) then None
      else Some (push_bit 24 (ucast (bytes ! 0)) OR push_bit 16 (ucast (bytes ! 1)) OR
                 push_bit 8 (ucast (bytes ! 2)) OR ucast (bytes ! 3)))"

section \<open>Initialisation and translation\<close>

definition cb_vcpu_init :: "u32 \<Rightarrow> reg_descriptor list option \<Rightarrow> plugin \<times> (nat \<Rightarrow> cache_regs) \<Rightarrow> (plugin \<times> (nat \<Rightarrow> cache_regs)) result" where
  "cb_vcpu_init vcpu regs pr =
     (case pr of (p, rs) \<Rightarrow>
        res_bind (require_vcpu p vcpu) (\<lambda>_.
        res_bind (init_cache_registers (pg_cache_ops p) vcpu regs (rs (unat vcpu))) (\<lambda>r.
          let v = unat vcpu; rs1 = rs(v := r) in
          if vcpu < PLUGIN_MAX_VCPUS
          then Inr (p\<lparr>pg_mem_seen := (pg_mem_seen p)(v := False), pg_prev_cls := (pg_prev_cls p)(v := OTHER),
                      pg_run_count := (pg_run_count p)(v := 0)\<rparr>, rs1)
          else Inr (p, rs1))))"

text \<open>A translated instruction is its bytes and address; the two reads copy at most four bytes into a
  zeroed buffer, the second into a host-order word.\<close>

record qemu_insn =
  in_data :: "u8 list"
  in_vaddr :: u64

definition insn_buffer :: "qemu_insn \<Rightarrow> u8 list" where
  "insn_buffer i = take 4 (in_data i) @ replicate (4 - length (in_data i)) 0"

definition insn_encoding :: "qemu_insn \<Rightarrow> u32" where
  "insn_encoding i = foldr (\<lambda>b acc. push_bit 8 acc OR ucast b) (insn_buffer i) 0"

definition cb_tb_trans :: "plugin \<Rightarrow> qemu_insn list \<Rightarrow> (u32 option \<times> insn_cb option list \<times> u64) list" where
  "cb_tb_trans p insns =
     map (\<lambda>i. (instrument_cache_op (pg_cache_ops p) (insn_buffer i) (min 4 (length (in_data i))),
              tb_trans_insn (pg_classifier p) (insn_encoding i), in_vaddr i)) insns"

lemma init_cache_registers_complete:
  assumes "init_cache_registers True vi regs r = Inr r'" "i < 16"
  shows "cache_registers r' i \<noteq> None \<and> cache_status r' \<noteq> None"
  using assms by (auto simp: init_cache_registers_def Let_def split: if_splits option.splits)

section \<open>Codecs\<close>

lemma bit_byte: "8 \<le> k \<Longrightarrow> \<not> bit (b :: u8) k"
  by (auto dest: bit_imp_le_length)

lemma bit_255: "bit (0xFF :: int) n \<longleftrightarrow> n < 8"
proof -
  have "(0xFF :: int) = mask 8" by (simp add: mask_numeral)
  then show ?thesis by (simp only: bit_mask_iff) simp
qed

lemma be32_bytes:
  "encoding_bytes (push_bit 24 (ucast a) OR push_bit 16 (ucast b) OR push_bit 8 (ucast c) OR ucast (d :: u8)) = [a, b, c, d]"
  unfolding encoding_bytes_def
  by (auto intro!: bit_word_eqI simp: bit_simps bit_byte)

lemma cache_operand_pack:
  assumes "qc_data cmd = copy_into (replicate 64 0) 0 (packMailbox False (ucast (x :: u32)) 4)"
  shows "cache_operand cmd = x"
proof -
  have d: "qc_data cmd ! i = ucast (drop_bit (8 * i) (ucast x :: u64) AND 0xFF)" if "i < 4" for i
    using that assms by (simp add: copy_into_def packMailbox_def nth_append)
  have b: "ucast (qc_data cmd ! i) = take_bit 8 (drop_bit (8 * i) x)" if "i < 4" for i
    unfolding d [OF that] using that by (intro bit_word_eqI) (auto simp: bit_simps bit_255)
  have "cache_operand cmd = take_bit 8 x OR push_bit 8 (take_bit 8 (drop_bit 8 x)) OR
      push_bit 16 (take_bit 8 (drop_bit 16 x)) OR push_bit 24 (take_bit 8 (drop_bit 24 x))"
  proof -
    have u: "[0..<4] = [0, 1, 2, 3 :: nat]" by (simp add: upt_conv_Cons)
    show ?thesis
      unfolding cache_operand_def u using b [of 0] b [of 1] b [of 2] b [of 3] by (simp add: or.assoc del: One_nat_def)
  qed
  also have "\<dots> = x"
  proof (rule bit_word_eqI)
    fix n assume "n < LENGTH(32)"
    then show "bit (take_bit 8 x OR push_bit 8 (take_bit 8 (drop_bit 8 x)) OR
      push_bit 16 (take_bit 8 (drop_bit 16 x)) OR push_bit 24 (take_bit 8 (drop_bit 24 x))) n = bit x n"
      by (cases "24 \<le> n"; cases "16 \<le> n") (auto simp: bit_simps)
  qed
  finally show ?thesis .
qed

section \<open>Delivery\<close>

text \<open>What the operation does to a cache, given the value of its source register.\<close>

definition cache_op_effect :: "coldfire_cache_op \<Rightarrow> u32 \<Rightarrow> wcache \<Rightarrow> wcache result" where
  "cache_op_effect op src s =
     (if op_kind op = 0 then movec s (ucast (op_control op)) src else push s (op_instruction op) src)"

lemma op_kind_01: "op_valid (decodeColdFireCacheOp bytes n) \<Longrightarrow> op_kind (decodeColdFireCacheOp bytes n) \<in> {0, 1}"
  by (auto simp: decodeColdFireCacheOp_def Let_def split: if_splits)

lemma cb_cache_op_postD:
  assumes "cb_cache_op_post rr r vi encoding p sh = Some (Inr (p', sh'))"
    and op: "op = decodeColdFireCacheOp (encoding_bytes encoding) 4"
  obtains src where "read_cache_register rr (cache_registers r (unat (op_source op))) = Inr src" "op_valid op"
    "mmio_req sh' (unat vi) = (mmio_req sh (unat vi))\<lparr>busy := 1,
       req_addr := ucast (if op_kind op = 0 then ucast (op_control op) else src :: u32), req_size := op_kind op,
       write_val := ucast (if op_kind op = 0 then src else ucast (op_instruction op) :: u32),
       req_cmd := cmd_code CMD_CACHE_OP, pending := 1\<rparr>"
    "flush_run vi p = Inr p'"
  using assms unfolding cb_cache_op_post_def cache_op_operands_def Let_def op
  by (auto simp: res_bind_Inr_iff split: sum.splits if_splits prod.splits)

text \<open>The callback decodes the operation that translation saw.\<close>

lemma instrumented_op:
  assumes "instrument_cache_op True bytes n = Some encoding" "length bytes = 4"
  shows "decodeColdFireCacheOp (encoding_bytes encoding) 4 = decodeColdFireCacheOp bytes n"
proof -
  obtain a b c d where bs: "bytes = [a, b, c, d]"
    using assms(2) by (auto simp: length_Suc_conv numeral_eq_Suc)
  have v: "op_valid (decodeColdFireCacheOp bytes n)" and e: "encoding_bytes encoding = bytes"
    using assms(1) bs by (auto simp: instrument_cache_op_def be32_bytes split: if_splits)
  from v have "n \<ge> 4 \<or> be16 a b \<noteq> 0x4e7b"
    by (auto simp: decodeColdFireCacheOp_def Let_def bs split: if_splits)
  moreover have "n \<ge> 2" using v by (auto simp: decodeColdFireCacheOp_def Let_def split: if_splits)
  ultimately show ?thesis unfolding e by (auto simp: decodeColdFireCacheOp_def Let_def bs)
qed

text \<open>The command the simulator rebuilds from the mailbox, and the effect it requests.\<close>

lemma mailbox_cache_op:
  assumes rq: "mmio_req (cm_shared c) (unat vi) = (q :: mmio_sync_request)\<lparr>busy := b, req_addr := ucast (addr :: u32),
      req_size := op_kind op, write_val := ucast (value :: u32), req_cmd := cmd_code CMD_CACHE_OP, pending := 1\<rparr>"
    and op: "op_kind op \<in> {0, 1}" and s: "bank_cache (cm_bank c') vi = Inr s"
  shows "\<exists>cmd. mailbox_command c vi = Inr cmd \<and> qc_cmd cmd = cmd_code CMD_CACHE_OP \<and>
    cached_request c' vi cmd = res_bind (if op_kind op = 0 then movec s addr value else push s (ucast value) addr)
      (\<lambda>ch. Inr (c'\<lparr>cm_bank := bank_update (cm_bank c') vi ch\<rparr>))"
proof -
  define cmd where "cmd = zero_command\<lparr>qc_cmd := cmd_code CMD_CACHE_OP, qc_addr := ucast addr, qc_size := op_kind op,
     qc_data := copy_into (replicate 64 0) 0 (packMailbox False (ucast value) 4)\<rparr>"
  have m: "mailbox_command c vi = Inr cmd"
    using rq by (simp add: mailbox_command_def Let_def cmd_def zero_command_def)
  have v: "cache_operand cmd = value" by (rule cache_operand_pack) (simp add: cmd_def)
  have "\<not> qc_addr cmd > 0xFFFFFFFF"
    using unat_less_32 [of addr] by (simp add: cmd_def word_less_nat_alt not_less)
  moreover have "(ucast (qc_addr cmd) :: u32) = addr"
    by (rule bit_word_eqI) (simp add: cmd_def bit_simps)
  ultimately have a: "\<not> qc_addr cmd > 0xFFFFFFFF" "(ucast (qc_addr cmd) :: u32) = addr" by auto
  have "cached_request c' vi cmd = res_bind (if op_kind op = 0 then movec s addr value else push s (ucast value) addr)
      (\<lambda>ch. Inr (c'\<lparr>cm_bank := bank_update (cm_bank c') vi ch\<rparr>))"
    using op a s v unfolding cached_request_def by (auto simp: cmd_def)
  with m show ?thesis by (auto simp: cmd_def)
qed

lemma poll_cache_op:
  assumes "v < cf_vcpu_count (cm_cfg c)" "cf_sst_window_cache (cm_cfg c)" "cm_mmio_if c (unat v)"
    and "cpu_reset_epoch (cm_shared c) (unat v) = cm_epochs c (unat v)" "pending (mmio_req (cm_shared c) (unat v)) \<noteq> 0"
    and "mailbox_command c v = Inr cmd" "qc_cmd cmd = cmd_code CMD_CACHE_OP"
    and c2: "c2 = c\<lparr>cm_shared := (cm_shared c)\<lparr>mmio_req := (mmio_req (cm_shared c))(unat v := (mmio_req (cm_shared c) (unat v))\<lparr>pending := 0\<rparr>)\<rparr>\<rparr>"
  shows "poll_vcpu n ids c v = (case cached_request c2 v cmd of Inl e \<Rightarrow> Some (Inl (Fatal ''Window cache''))
    | Inr c3 \<Rightarrow> map_option cache_fatal (serviceWindowCache n ids c3 v))"
proof -
  have m: "map_option (\<lambda>r. res_bind r (\<lambda>(c3, _). Inr c3)) (map_option (\<lambda>r. cache_fatal (res_bind r (\<lambda>c2. Inr (c2, True)))) x) = map_option cache_fatal x"
    for x :: "cpu_mmio result option"
    by (cases x) (auto simp: cache_fatal_def split: sum.splits)
  have r: "poll_reset c v = Inr c" using assms(4) by (simp add: poll_reset_def)
  have h: "handleMmioSyncCommand n ids c2 v cmd = (case cached_request c2 v cmd of Inl e \<Rightarrow> Some (Inl (Fatal ''Window cache''))
      | Inr c1 \<Rightarrow> map_option (\<lambda>r. cache_fatal (res_bind r (\<lambda>c2. Inr (c2, True)))) (serviceWindowCache n ids c1 v))"
    using assms(1-3,7) by (auto simp: handleMmioSyncCommand_def c2 not_le)
  show ?thesis
    using r assms(5,6) m unfolding poll_vcpu_def by (simp add: Let_def c2 [symmetric] h split: sum.splits)
qed

lemma movec_next:
  assumes "movec s reg value = Inr s1"
  shows "next_action s1 = Inr (s1\<lparr>wc_active := False\<rparr>, mk_action Done 0 0 [])"
proof -
  have "wc_active s1" "wc_pending s1 = PNone" "\<not> wc_pushing s1" "wc_offset s1 = wc_count s1" "wc_bytes s1 = []"
    using assms by (auto simp: movec_def start_def Let_def res_bind_Inr_iff discard_lines_def split: if_splits)
  then show ?thesis by (simp add: next_action_def next_loop.simps finish_def)
qed

lemma bank_cache_update: "bank_cache b v = Inr s \<Longrightarrow> bank_cache (cm_bank (c\<lparr>cm_bank := bank_update b v s'\<rparr>)) v = Inr s'"
  by (auto simp: bank_cache_def state_at_def bank_update_def set_state_def res_bind_Inr_iff split: if_splits)

text \<open>An accepted MOVEC needs no memory traffic: it is answered at once and the waiter finds the answer.\<close>

lemma movec_served:
  assumes "movec s reg value = Inr s1" "bank_cache (cm_bank c) v = Inr s1" "v < QUETZ_MAX_MMIO_VCORES"
    and "pending (mmio_req (cm_shared c) (unat v)) = 0" "0 < n"
  shows "\<exists>c3 sh3. serviceWindowCache n ids c v = Some (Inr c3) \<and> bank_cache (cm_bank c3) v = Inr (s1\<lparr>wc_active := False\<rparr>) \<and>
    cb_cache_op_finish v (cm_shared c3) = Some sh3 \<and> busy (mmio_req sh3 (unat v)) = 0 \<and>
    pending (mmio_req sh3 (unat v)) = 0 \<and> ready (mmio_slot sh3 (unat v)) = 0"
proof -
  obtain m where n: "n = Suc m" using assms(5) by (cases n) auto
  define c3 where "c3 = cpu_post (c\<lparr>cm_bank := bank_update (cm_bank c) v (s1\<lparr>wc_active := False\<rparr>)\<rparr>) v (be_value [])"
  have "service_round ids c v = Inr (c3, Service_done)"
    using assms(2) movec_next [OF assms(1)] by (simp add: service_round_def c3_def mk_action_def)
  then have "serviceWindowCache n ids c v = Some (Inr c3)" by (simp add: n)
  moreover have "bank_cache (cm_bank c3) v = Inr (s1\<lparr>wc_active := False\<rparr>)"
    using bank_cache_update [OF assms(2), where c = c] by (simp add: c3_def cpu_post_def)
  moreover have "ready (mmio_slot (cm_shared c3) (unat v)) = 1" "pending (mmio_req (cm_shared c3) (unat v)) = 0"
    using assms(3,4) by (auto simp: c3_def cpu_post_def postResponse_def slot_store_ready_def slot_store_value_def not_le)
  ultimately show ?thesis by (auto simp: cb_cache_op_finish_def Let_def)
qed

section \<open>Properties\<close>

text \<open>C32. A cache instruction acts on the cache of the CPU that executed it, with its own operands.
  Whenever translation registered the instruction and its callback posted the request, one poll of the
  simulator rebuilds the operation from the mailbox and applies to that vCPU's cache exactly the MOVEC
  with the decoded control number and the source register's value, or the CPUSHL of that instruction with
  the register as set/way operand; a refusal ends the simulation. An accepted MOVEC is answered in the same
  poll, after which the waiting callback completes and leaves the mailbox free.\<close>

theorem cache_op_delivered:
  assumes ins: "instrument_cache_op True bytes k = Some encoding" "length bytes = 4" "op = decodeColdFireCacheOp bytes k"
    and post: "cb_cache_op_post rr r v encoding p sh = Some (Inr (p', sh'))"
    and cpu: "cm_shared c = sh'" "v < cf_vcpu_count (cm_cfg c)" "cf_sst_window_cache (cm_cfg c)" "cm_mmio_if c (unat v)"
      "cpu_reset_epoch sh' (unat v) = cm_epochs c (unat v)" "bank_cache (cm_bank c) v = Inr s"
  shows "\<exists>src c2. read_cache_register rr (cache_registers r (unat (op_source op))) = Inr src \<and>
    poll_vcpu n ids c v = (case cache_op_effect op src s of Inl e \<Rightarrow> Some (Inl (Fatal ''Window cache''))
      | Inr s1 \<Rightarrow> map_option cache_fatal (serviceWindowCache n ids (c2\<lparr>cm_bank := bank_update (cm_bank c) v s1\<rparr>) v)) \<and>
    (\<forall>s1. op_kind op = 0 \<longrightarrow> 0 < n \<longrightarrow> cache_op_effect op src s = Inr s1 \<longrightarrow>
      (\<exists>c3 sh3. poll_vcpu n ids c v = Some (Inr c3) \<and> bank_cache (cm_bank c3) v = Inr (s1\<lparr>wc_active := False\<rparr>) \<and>
        cb_cache_op_finish v (cm_shared c3) = Some sh3 \<and> busy (mmio_req sh3 (unat v)) = 0 \<and>
        pending (mmio_req sh3 (unat v)) = 0 \<and> ready (mmio_slot sh3 (unat v)) = 0))"
proof -
  have op: "op = decodeColdFireCacheOp (encoding_bytes encoding) 4" using instrumented_op [OF ins(1,2)] ins(3) by simp
  obtain src where src: "read_cache_register rr (cache_registers r (unat (op_source op))) = Inr src" "op_valid op"
    and rq: "mmio_req sh' (unat v) = (mmio_req sh (unat v))\<lparr>busy := 1,
       req_addr := ucast (if op_kind op = 0 then ucast (op_control op) else src :: u32), req_size := op_kind op,
       write_val := ucast (if op_kind op = 0 then src else ucast (op_instruction op) :: u32),
       req_cmd := cmd_code CMD_CACHE_OP, pending := 1\<rparr>"
    by (rule cb_cache_op_postD [OF post op])
  have k: "op_kind op \<in> {0, 1}" using op_kind_01 src(2) op by blast
  define c2 where "c2 = c\<lparr>cm_shared := sh'\<lparr>mmio_req := (mmio_req sh')(unat v := (mmio_req sh' (unat v))\<lparr>pending := 0\<rparr>)\<rparr>\<rparr>"
  have b2: "bank_cache (cm_bank c2) v = Inr s" using cpu(6) by (simp add: c2_def)
  have "(ucast (ucast (x :: u16) :: u32) :: u16) = x" for x by (rule bit_word_eqI) (simp add: bit_simps)
  then have eff: "(if op_kind op = 0 then movec s (if op_kind op = 0 then ucast (op_control op) else src) (if op_kind op = 0 then src else ucast (op_instruction op))
      else push s (ucast (if op_kind op = 0 then src else ucast (op_instruction op) :: u32)) (if op_kind op = 0 then ucast (op_control op) else src)) = cache_op_effect op src s"
    by (simp add: cache_op_effect_def)
  from mailbox_cache_op [OF rq [folded cpu(1)] k b2, unfolded eff] obtain cmd where
    cmd: "mailbox_command c v = Inr cmd" "qc_cmd cmd = cmd_code CMD_CACHE_OP"
      "cached_request c2 v cmd = res_bind (cache_op_effect op src s) (\<lambda>ch. Inr (c2\<lparr>cm_bank := bank_update (cm_bank c2) v ch\<rparr>))"
    by blast
  have pv: "poll_vcpu n ids c v = (case cached_request c2 v cmd of Inl e \<Rightarrow> Some (Inl (Fatal ''Window cache''))
    | Inr c3 \<Rightarrow> map_option cache_fatal (serviceWindowCache n ids c3 v))"
    by (rule poll_cache_op) (use cpu cmd rq in \<open>simp_all add: c2_def\<close>)
  have poll: "poll_vcpu n ids c v = (case cache_op_effect op src s of Inl e \<Rightarrow> Some (Inl (Fatal ''Window cache''))
      | Inr s1 \<Rightarrow> map_option cache_fatal (serviceWindowCache n ids (c2\<lparr>cm_bank := bank_update (cm_bank c) v s1\<rparr>) v))"
    unfolding pv cmd(3) by (simp add: c2_def split: sum.splits)
  have v: "v < QUETZ_MAX_MMIO_VCORES" using post
    by (auto simp: cb_cache_op_post_def cache_op_operands_def Let_def res_bind_Inr_iff ipc_constants PLUGIN_MAX_VCPUS_def not_le
        split: sum.splits if_splits)
  have "\<exists>c3 sh3. poll_vcpu n ids c v = Some (Inr c3) \<and> bank_cache (cm_bank c3) v = Inr (s1\<lparr>wc_active := False\<rparr>) \<and>
        cb_cache_op_finish v (cm_shared c3) = Some sh3 \<and> busy (mmio_req sh3 (unat v)) = 0 \<and>
        pending (mmio_req sh3 (unat v)) = 0 \<and> ready (mmio_slot sh3 (unat v)) = 0"
    if "op_kind op = 0" "0 < n" "cache_op_effect op src s = Inr s1" for s1
  proof -
    note hyp = that
    have mv: "movec s (ucast (op_control op)) src = Inr s1" using hyp by (simp add: cache_op_effect_def)
    have "pending (mmio_req (cm_shared (c2\<lparr>cm_bank := bank_update (cm_bank c) v s1\<rparr>)) (unat v)) = 0" by (simp add: c2_def)
    from movec_served [OF mv bank_cache_update [OF cpu(6)] v this hyp(2), of ids] show ?thesis
      unfolding poll hyp(3) by (auto simp: cache_fatal_def)
  qed
  then show ?thesis using src(1) poll by blast
qed

text \<open>\<open>movec %d0,%cacr\<close> in supervisor mode, with the enable and invalidate bits in D0.\<close>

definition sample_regs :: cache_regs where
  "sample_regs = \<lparr>cache_registers = (\<lambda>i. Some i), cache_status = Some 16\<rparr>"

definition sample_rr :: reg_read where
  "sample_rr h = (4, if h = 16 then [0, 0, 0x20, 0] else [0x81, 0, 0, 0])"

definition sample_plugin :: plugin where
  "sample_plugin = plugin_globals\<lparr>pg_configured_vcpus := 1, pg_cache_ops := True\<rparr>"

lemma sample_post:
  "case cb_cache_op_post sample_rr sample_regs 0 0x4e7b0002 sample_plugin sample_native of Some (Inr x) \<Rightarrow> True | _ \<Rightarrow> False"
  by code_simp

lemma sample_post_epoch:
  "case cb_cache_op_post sample_rr sample_regs 0 0x4e7b0002 sample_plugin sample_native of
     Some (Inr (p, sh)) \<Rightarrow> cpu_reset_epoch sh 0 = cm_epochs sample_cpu 0 | _ \<Rightarrow> False"
  by code_simp

lemma sample_movec: "is_ok (movec copyback_cache 2 0x81000000)"
  by (simp add: movec_def start_def copyback_cache_def sample_cache_def wc_init_def)

theorem cache_op_delivered_witness:
  "\<exists>p sh c3 sh3 s1. cb_cache_op_post sample_rr sample_regs 0 0x4e7b0002 sample_plugin sample_native = Some (Inr (p, sh)) \<and>
     movec copyback_cache 2 0x81000000 = Inr s1 \<and>
     poll_vcpu 1 (\<lambda>n. n) (sample_cpu\<lparr>cm_shared := sh\<rparr>) 0 = Some (Inr c3) \<and>
     bank_cache (cm_bank c3) 0 = Inr (s1\<lparr>wc_active := False\<rparr>) \<and> cb_cache_op_finish 0 (cm_shared c3) = Some sh3"
proof -
  let ?op = "decodeColdFireCacheOp [0x4e, 0x7b, 0, 2] 4"
  obtain p sh where post: "cb_cache_op_post sample_rr sample_regs 0 0x4e7b0002 sample_plugin sample_native = Some (Inr (p, sh))"
    using sample_post by (auto split: option.splits sum.splits)
  have ep: "cpu_reset_epoch sh 0 = 0" using sample_post_epoch post by (simp add: sample_cpu_def)
  obtain s1 where s1: "movec copyback_cache 2 0x81000000 = Inr s1" using sample_movec by (rule is_okE)
  have i: "instrument_cache_op True [0x4e, 0x7b, 0, 2] 4 = Some 0x4e7b0002" by code_simp
  have op: "op_kind ?op = 0" "op_control ?op = 2" by code_simp+
  have rd: "read_cache_register sample_rr (cache_registers sample_regs (unat (op_source ?op))) = Inr 0x81000000" by code_simp
  have b: "bank_cache (cm_bank sample_cpu) 0 = Inr copyback_cache" using sample_settled by simp
  have eff: "cache_op_effect ?op 0x81000000 copyback_cache = Inr s1" using op s1 by (simp add: cache_op_effect_def)
  let ?c = "sample_cpu\<lparr>cm_shared := sh\<rparr>"
  have c: "cm_shared ?c = sh" "0 < cf_vcpu_count (cm_cfg ?c)" "cf_sst_window_cache (cm_cfg ?c)" "cm_mmio_if ?c (unat 0)"
      "cpu_reset_epoch sh (unat 0) = cm_epochs ?c (unat 0)" "bank_cache (cm_bank ?c) 0 = Inr copyback_cache"
    using ep b by (simp_all add: sample_cpu_def)
  have l: "length [0x4e, 0x7b, 0, 2 :: u8] = 4" by simp
  from cache_op_delivered [OF i l refl post c, of 1 "\<lambda>n. n"] show ?thesis
  proof (elim exE conjE)
    fix src c2
    assume r: "read_cache_register sample_rr (cache_registers sample_regs (unat (op_source ?op))) = Inr src"
      and d: "\<forall>s1. op_kind ?op = 0 \<longrightarrow> 0 < (1::nat) \<longrightarrow> cache_op_effect ?op src copyback_cache = Inr s1 \<longrightarrow>
        (\<exists>c3 sh3. poll_vcpu 1 (\<lambda>n. n) ?c 0 = Some (Inr c3) \<and> bank_cache (cm_bank c3) 0 = Inr (s1\<lparr>wc_active := False\<rparr>) \<and>
          cb_cache_op_finish 0 (cm_shared c3) = Some sh3 \<and> busy (mmio_req sh3 (unat 0)) = 0 \<and>
          pending (mmio_req sh3 (unat 0)) = 0 \<and> ready (mmio_slot sh3 (unat 0)) = 0)"
    have "src = 0x81000000" using r rd by simp
    with d op(1) eff post s1 show ?thesis by (metis zero_less_one)
  qed
qed

end
