(* ===== verification/Quetz_Linux_User.thy ===== *)
theory Quetz_Linux_User
  imports Quetz_Mailbox_Protocol Quetz_Ipc_Client Quetz_Cstring
begin

text \<open>
  Synchronous MMIO without a device model, \<open>qemu-overlay/linux-user/sst_mmio.c\<close>: registering the
  apertures, reserving them, and servicing the fault of a guest load or store by decoding the
  instruction (RV64, or m68k with \<open>sst_mmio_m68k.h\<close>) and calling the mailbox. A handler returns the
  thread's first program point in the mailbox protocol and what the CPU becomes when the call
  returns a value; \<open>None\<close> is the plain return, after which the guest takes its fault.
\<close>

section \<open>Ranges\<close>

definition MAX_RANGES :: nat where "MAX_RANGES = 8"

record mmio_range =
  rg_shmname :: string
  rg_base :: u64
  rg_size :: u64
  rg_vcpu_id :: u32
  rg_client :: "nat option"

definition invalid_range :: "string \<Rightarrow> 'a result" where
  "invalid_range reason = Inl (Fatal reason)"

definition range_number :: "string \<Rightarrow> u64 result" where
  "range_number value =
     (if value = [] \<or> hd value = CHR ''-'' then invalid_range ''expected an unsigned number''
      else let (n, rest, over) = strtoull_end value
           in if over \<or> rest \<noteq> [] then invalid_range ''invalid numeric field'' else Inr n)"

definition range_field :: "string \<Rightarrow> mmio_range \<Rightarrow> mmio_range result" where
  "range_field tok r =
     (if take 8 tok = ''shmname='' then
        if length (drop 8 tok) \<ge> 256 then invalid_range ''shared-memory name too long''
        else Inr (r\<lparr>rg_shmname := drop 8 tok\<rparr>)
      else if take 5 tok = ''base='' then res_bind (range_number (drop 5 tok)) (\<lambda>n. Inr (r\<lparr>rg_base := n\<rparr>))
      else if take 5 tok = ''size='' then res_bind (range_number (drop 5 tok)) (\<lambda>n. Inr (r\<lparr>rg_size := n\<rparr>))
      else if take 8 tok = ''vcpu_id='' then
        res_bind (range_number (drop 8 tok)) (\<lambda>n.
          if n > 0xFFFFFFFF then invalid_range ''vCPU index out of range'' else Inr (r\<lparr>rg_vcpu_id := ucast n\<rparr>))
      else invalid_range ''unknown field'')"

fun range_fields :: "string list \<Rightarrow> mmio_range \<Rightarrow> mmio_range result" where
  "range_fields [] r = Inr r"
| "range_fields (t # ts) r = res_bind (range_field t r) (range_fields ts)"

definition ranges_overlap :: "mmio_range \<Rightarrow> mmio_range \<Rightarrow> bool" where
  "ranges_overlap r old \<longleftrightarrow>
     (rg_base r \<ge> rg_base old \<and> rg_base r - rg_base old < rg_size old) \<or>
     (rg_base old \<ge> rg_base r \<and> rg_base old - rg_base r < rg_size r)"

fun check_old :: "mmio_range list \<Rightarrow> mmio_range \<Rightarrow> mmio_range result" where
  "check_old [] r = Inr r"
| "check_old (old # olds) r =
     (if ranges_overlap r old then invalid_range ''overlapping ranges''
      else check_old olds (if rg_shmname old = rg_shmname r then r\<lparr>rg_client := rg_client old\<rparr> else r))"

text \<open>The registered ranges and the process state of the IPC client. \<open>abi_max\<close> is \<open>(abi_ulong)-1\<close>.\<close>

record range_table =
  rt_ranges :: "mmio_range list"
  rt_process :: ipc_process

definition client_segment :: "ipc_process \<Rightarrow> nat option \<Rightarrow> shared_data option" where
  "client_segment p h = (case h of None \<Rightarrow> None | Some c \<Rightarrow> map_option (\<lambda>cl. segments p (cl_seg cl)) (clients p c))"

definition attach_range :: "nat option \<Rightarrow> (string \<Rightarrow> shm_object option) \<Rightarrow> ipc_process \<Rightarrow> mmio_range \<Rightarrow> ipc_process \<times> mmio_range" where
  "attach_range fresh shm p r =
     (if rg_client r = None
      then case quetz_ipc_attach fresh (shm (rg_shmname r)) p of (p', h) \<Rightarrow> (p', r\<lparr>rg_client := h\<rparr>)
      else (p, r))"

definition sst_mmio_register_range ::
    "u64 \<Rightarrow> nat option \<Rightarrow> (string \<Rightarrow> shm_object option) \<Rightarrow> string option \<Rightarrow> range_table \<Rightarrow> range_table result" where
  "sst_mmio_register_range abi_max fresh shm spec t =
     (case spec of
        None \<Rightarrow> invalid_range ''too many ranges or missing specification''
      | Some s \<Rightarrow>
          if length (rt_ranges t) \<ge> MAX_RANGES then invalid_range ''too many ranges or missing specification''
          else
            res_bind (range_fields (strtok (CHR '','') s)
                \<lparr>rg_shmname = [], rg_base = 0, rg_size = 0, rg_vcpu_id = 0, rg_client = None\<rparr>) (\<lambda>r.
            if rg_shmname r = [] \<or> rg_size r = 0 \<or> rg_base r > abi_max \<or> rg_size r > abi_max \<or>
               rg_size r - 1 > abi_max - rg_base r
              then invalid_range ''missing name, empty size, or address overflow''
            else res_bind (check_old (rt_ranges t) r) (\<lambda>r1.
              case attach_range fresh shm (rt_process t) r1 of (p, r2) \<Rightarrow>
                let count = quetz_ipc_vcpu_count (client_segment p (rg_client r2)) in
                if rg_vcpu_id r2 \<noteq> 0
                  then invalid_range ''user-mode mailboxes use CPU indices; vcpu_id must be zero''
                else if rg_client r2 = None \<or> count = 0 \<or> count > QUETZ_MAX_MMIO_VCORES
                  then invalid_range ''cannot attach shared memory or invalid vCPU index''
                else Inr \<lparr>rt_ranges = rt_ranges t @ [r2], rt_process = p\<rparr>)))"

text \<open>\<open>mmap_ok\<close> tells whether the fixed mapping of a range succeeds; the result lists the reservations.\<close>

fun sst_mmio_apply_reservation :: "(u64 \<Rightarrow> u64 \<Rightarrow> bool) \<Rightarrow> mmio_range list \<Rightarrow> (u64 \<times> u64) list result" where
  "sst_mmio_apply_reservation mmap_ok [] = Inr []"
| "sst_mmio_apply_reservation mmap_ok (r # rs) =
     (if rg_size r = 0 then sst_mmio_apply_reservation mmap_ok rs
      else if \<not> mmap_ok (rg_base r) (rg_size r) then invalid_range ''failed to reserve guest address space''
      else res_bind (sst_mmio_apply_reservation mmap_ok rs) (\<lambda>xs. Inr ((rg_base r, rg_size r) # xs)))"

definition find_range :: "mmio_range list \<Rightarrow> u64 \<Rightarrow> mmio_range option" where
  "find_range rs addr = find (\<lambda>r. addr \<ge> rg_base r \<and> addr - rg_base r < rg_size r) rs"

section \<open>RV64\<close>

record ldst =
  ls_store :: bool
  ls_size :: u32
  ls_rd :: u32
  ls_rs2 :: u32
  ls_signed :: bool

text \<open>The decoded access and the instruction length, \<open>None\<close> for the length 0.\<close>

definition decode_ldst :: "u32 \<Rightarrow> (ldst \<times> u64) option" where
  "decode_ldst insn =
     (let d = \<lparr>ls_store = False, ls_size = 0, ls_rd = 0, ls_rs2 = 0, ls_signed = False\<rparr> in
      if insn AND 3 \<noteq> 3 then
        let cq = insn AND 3; cfunct3 = drop_bit 13 insn AND 7; creg = 8 + (drop_bit 2 insn AND 7) in
        if cq \<noteq> 0 then None
        else if cfunct3 = 2 then Some (d\<lparr>ls_size := 4, ls_rd := creg, ls_signed := True\<rparr>, 2)
        else if cfunct3 = 3 then Some (d\<lparr>ls_size := 8, ls_rd := creg\<rparr>, 2)
        else if cfunct3 = 6 then Some (d\<lparr>ls_store := True, ls_size := 4, ls_rs2 := creg\<rparr>, 2)
        else if cfunct3 = 7 then Some (d\<lparr>ls_store := True, ls_size := 8, ls_rs2 := creg\<rparr>, 2)
        else None
      else
        let opcode = insn AND 0x7f; funct3 = drop_bit 12 insn AND 7;
            e = d\<lparr>ls_rd := drop_bit 7 insn AND 0x1f, ls_rs2 := drop_bit 20 insn AND 0x1f\<rparr> in
        if opcode = 0x03 then
          if funct3 = 0 then Some (e\<lparr>ls_size := 1, ls_signed := True\<rparr>, 4)
          else if funct3 = 1 then Some (e\<lparr>ls_size := 2, ls_signed := True\<rparr>, 4)
          else if funct3 = 2 then Some (e\<lparr>ls_size := 4, ls_signed := True\<rparr>, 4)
          else if funct3 = 3 then Some (e\<lparr>ls_size := 8\<rparr>, 4)
          else if funct3 = 4 then Some (e\<lparr>ls_size := 1\<rparr>, 4)
          else if funct3 = 5 then Some (e\<lparr>ls_size := 2\<rparr>, 4)
          else if funct3 = 6 then Some (e\<lparr>ls_size := 4\<rparr>, 4)
          else None
        else if opcode = 0x23 then
          let e = e\<lparr>ls_store := True\<rparr> in
          if funct3 = 0 then Some (e\<lparr>ls_size := 1\<rparr>, 4)
          else if funct3 = 1 then Some (e\<lparr>ls_size := 2\<rparr>, 4)
          else if funct3 = 2 then Some (e\<lparr>ls_size := 4\<rparr>, 4)
          else if funct3 = 3 then Some (e\<lparr>ls_size := 8\<rparr>, 4)
          else None
        else None)"

record riscv_env =
  rv_gpr :: "nat \<Rightarrow> u64"
  rv_pc :: u64

definition widen_load :: "u32 \<Rightarrow> bool \<Rightarrow> u64 \<Rightarrow> u64" where
  "widen_load sz is_signed val =
     (if sz < 8 then
        let shift = 64 - unat sz * 8
        in if is_signed then signed_drop_bit shift (push_bit shift val)
           else val AND (push_bit (unat sz * 8) 1 - 1)
      else val)"

text \<open>\<open>restored\<close> is QEMU's recovery of the CPU state and \<open>ld32\<close> its read of guest code.\<close>

definition riscv_fault ::
    "mmio_range list \<Rightarrow> ipc_process \<Rightarrow> bool \<Rightarrow> (u64 \<Rightarrow> u32 option) \<Rightarrow> u32 \<Rightarrow> u64 \<Rightarrow> bool \<Rightarrow> riscv_env \<Rightarrow>
     (thread_pc \<times> (u64 \<Rightarrow> riscv_env)) option" where
  "riscv_fault rs p restored ld32 vcpu guest_addr is_write env =
     (case find_range rs guest_addr of
        None \<Rightarrow> None
      | Some r \<Rightarrow>
          let sd = client_segment p (rg_client r) in
          if vcpu \<ge> quetz_ipc_vcpu_count sd then None
          else if \<not> restored then None
          else case ld32 (rv_pc env) of
            None \<Rightarrow> None
          | Some insn \<Rightarrow>
              (case decode_ldst insn of
                 None \<Rightarrow> None
               | Some (d, len) \<Rightarrow>
                   if ls_store d \<noteq> is_write \<or> ucast (ls_size d) > rg_size r - (guest_addr - rg_base r) then None
                   else if ls_store d then
                     Some (quetz_ipc_mmio_write sd vcpu guest_addr (ls_size d) (rv_gpr env (unat (ls_rs2 d))),
                       \<lambda>_. env\<lparr>rv_pc := rv_pc env + len\<rparr>)
                   else
                     Some (quetz_ipc_mmio_read sd vcpu guest_addr (ls_size d),
                       \<lambda>val. (if ls_rd d \<noteq> 0
                              then env\<lparr>rv_gpr := (rv_gpr env)(unat (ls_rd d) := widen_load (ls_size d) (ls_signed d) val)\<rparr>
                              else env)\<lparr>rv_pc := rv_pc env + len\<rparr>)))"

section \<open>m68k\<close>

text \<open>Extension bytes of a memory operand, \<open>None\<close> for -1.\<close>

definition m68k_ea_extlen :: "u16 \<Rightarrow> u16 \<Rightarrow> nat option" where
  "m68k_ea_extlen mode reg =
     (if mode = 2 then Some 0
      else if mode = 3 \<or> mode = 4 then None
      else if mode = 5 then Some 2
      else if mode = 6 then Some 2
      else if mode = 7 then
        (if reg = 0 then Some 2 else if reg = 1 then Some 4 else if reg = 2 then Some 2 else if reg = 3 then Some 2 else None)
      else None)"

text \<open>The register is 0-7 for Dn, 8-15 for An and -1 for an immediate source.\<close>

record m68k_move =
  mv_store :: bool
  mv_size :: nat
  mv_dreg :: int
  mv_index_offset :: nat

definition m68k_mmio_decode :: "u16 \<Rightarrow> (m68k_move \<times> nat) option" where
  "m68k_mmio_decode op =
     (if op AND 0xC000 \<noteq> 0 then None
      else
        let sc = drop_bit 12 op AND 3 in
        if sc \<noteq> 1 \<and> sc \<noteq> 3 \<and> sc \<noteq> 2 then None
        else
          let sz = (if sc = 1 then 1 else if sc = 3 then 2 else 4 :: nat);
              imm_bytes = (if sc = 1 then 2 else if sc = 3 then 2 else 4);
              dst_reg = drop_bit 9 op AND 7; dst_mode = drop_bit 6 op AND 7;
              src_mode = drop_bit 3 op AND 7; src_reg = op AND 7;
              dst_is_mem = (dst_mode \<ge> 2 \<and> (dst_mode \<noteq> 7 \<or> dst_reg \<le> 1)) in
          if sz = 1 \<and> (src_mode = 1 \<or> dst_mode = 1) then None
          else if (src_mode = 0 \<or> src_mode = 1) \<and> dst_is_mem then
            (case m68k_ea_extlen dst_mode dst_reg of
               None \<Rightarrow> None
             | Some ext \<Rightarrow>
                 Some (\<lparr>mv_store = True, mv_size = sz, mv_dreg = (if src_mode = 1 then 8 + uint src_reg else uint src_reg),
                        mv_index_offset = (if dst_mode = 6 then 2 else 0)\<rparr>, 2 + ext))
          else if src_mode = 7 \<and> src_reg = 4 \<and> dst_is_mem then
            (case m68k_ea_extlen dst_mode dst_reg of
               None \<Rightarrow> None
             | Some ext \<Rightarrow>
                 Some (\<lparr>mv_store = True, mv_size = sz, mv_dreg = - 1,
                        mv_index_offset = (if dst_mode = 6 then 2 + imm_bytes else 0)\<rparr>, 2 + imm_bytes + ext))
          else if dst_mode = 0 \<or> dst_mode = 1 then
            (case m68k_ea_extlen src_mode src_reg of
               None \<Rightarrow> None
             | Some ext \<Rightarrow>
                 Some (\<lparr>mv_store = False, mv_size = sz, mv_dreg = (if dst_mode = 1 then 8 + uint dst_reg else uint dst_reg),
                        mv_index_offset = (if src_mode = 6 \<or> (src_mode = 7 \<and> src_reg = 3) then 2 else 0)\<rparr>, 2 + ext))
          else None)"

definition m68k_mmio_move_ccr :: "u32 \<Rightarrow> nat \<Rightarrow> u32 \<Rightarrow> u32" where
  "m68k_mmio_move_ccr value sz previous_ccr =
     (let mask = (if sz = 4 then 0xFFFFFFFF else push_bit (sz * 8) 1 - 1); v = value AND mask
      in (previous_ccr AND 0x10) OR (if v = 0 then 0x04 else 0) OR (if v AND push_bit (sz * 8 - 1) 1 \<noteq> 0 then 0x08 else 0))"

text \<open>\<open>mk_ccr\<close> is the value handed to QEMU's \<open>cpu_m68k_set_ccr\<close>, if the handler calls it.\<close>

record m68k_env =
  mk_dregs :: "nat \<Rightarrow> u32"
  mk_aregs :: "nat \<Rightarrow> u32"
  mk_pc :: u32
  mk_cc_x :: u32
  mk_ccr :: "u32 option"

definition move_mask :: "nat \<Rightarrow> u32" where
  "move_mask sz = (if sz \<ge> 4 then 0xFFFFFFFF else push_bit (sz * 8) 1 - 1)"

text \<open>The value a store moves, \<open>None\<close> if the immediate cannot be read.\<close>

definition store_source :: "(u32 \<Rightarrow> u16 option) \<Rightarrow> (u32 \<Rightarrow> u32 option) \<Rightarrow> m68k_env \<Rightarrow> m68k_move \<Rightarrow> u32 option" where
  "store_source ld16 ld32 env d =
     (if mv_dreg d < 0 then
        if mv_size d \<ge> 4 then ld32 (mk_pc env + 2) else map_option ucast (ld16 (mk_pc env + 2))
      else if mv_dreg d < 8 then Some (mk_dregs env (nat (mv_dreg d)))
      else Some (mk_aregs env (nat (mv_dreg d - 8))))"

definition finish_move :: "m68k_env \<Rightarrow> m68k_move \<Rightarrow> nat \<Rightarrow> u32 \<Rightarrow> m68k_env" where
  "finish_move env d len moved =
     (if mv_store d \<or> mv_dreg d < 8
      then env\<lparr>mk_ccr := Some (m68k_mmio_move_ccr moved (mv_size d) (push_bit 4 (mk_cc_x env)))\<rparr> else env)
     \<lparr>mk_pc := mk_pc env + of_nat len\<rparr>"

definition load_register :: "m68k_env \<Rightarrow> m68k_move \<Rightarrow> u64 \<Rightarrow> m68k_env" where
  "load_register env d val =
     (let mask = move_mask (mv_size d) in
      if mv_dreg d < 8 then
        let n = nat (mv_dreg d)
        in env\<lparr>mk_dregs := (mk_dregs env)(n := (mk_dregs env n AND NOT mask) OR (ucast val AND mask))\<rparr>
      else env\<lparr>mk_aregs := (mk_aregs env)(nat (mv_dreg d - 8) :=
             (if mv_size d = 2 then scast (ucast val :: u16) else ucast val))\<rparr>)"

definition m68k_fault ::
    "mmio_range list \<Rightarrow> ipc_process \<Rightarrow> bool \<Rightarrow> (u32 \<Rightarrow> u16 option) \<Rightarrow> (u32 \<Rightarrow> u32 option) \<Rightarrow> u32 \<Rightarrow> u64 \<Rightarrow> bool \<Rightarrow> m68k_env \<Rightarrow>
     (thread_pc \<times> (u64 \<Rightarrow> m68k_env)) option" where
  "m68k_fault rs p restored ld16 ld32 vcpu guest_addr is_write env =
     (case find_range rs guest_addr of
        None \<Rightarrow> None
      | Some r \<Rightarrow>
          let sd = client_segment p (rg_client r) in
          if vcpu \<ge> quetz_ipc_vcpu_count sd then None
          else if \<not> restored then None
          else case ld16 (mk_pc env) of
            None \<Rightarrow> None
          | Some op \<Rightarrow>
              (case m68k_mmio_decode op of
                 None \<Rightarrow> None
               | Some (d, len) \<Rightarrow>
                   if mv_store d \<noteq> is_write \<or> of_nat (mv_size d) > rg_size r - (guest_addr - rg_base r) then None
                   else if mv_index_offset d \<noteq> 0 \<and>
                      (case ld16 (mk_pc env + of_nat (mv_index_offset d)) of None \<Rightarrow> True | Some ext \<Rightarrow> ext AND 0x0100 \<noteq> 0)
                     then None
                   else if mv_store d then
                     (case store_source ld16 ld32 env d of
                        None \<Rightarrow> None
                      | Some raw \<Rightarrow>
                          let moved = raw AND move_mask (mv_size d)
                          in Some (quetz_ipc_mmio_write sd vcpu guest_addr (of_nat (mv_size d)) (ucast moved),
                               \<lambda>_. finish_move env d len moved))
                   else
                     Some (quetz_ipc_mmio_read sd vcpu guest_addr (of_nat (mv_size d)),
                       \<lambda>val. finish_move (load_register env d val) d len (ucast val AND move_mask (mv_size d)))))"

section \<open>Range tables\<close>

inductive range_reachable :: "u64 \<Rightarrow> range_table \<Rightarrow> bool" for abi_max where
  none: "rt_ranges t = [] \<Longrightarrow> range_reachable abi_max t"
| register: "range_reachable abi_max t \<Longrightarrow> sst_mmio_register_range abi_max fresh shm spec t = Inr t' \<Longrightarrow> range_reachable abi_max t'"

definition range_addrs :: "mmio_range \<Rightarrow> nat set" where
  "range_addrs r = {unat (rg_base r) ..< unat (rg_base r) + unat (rg_size r)}"

definition range_ok :: "u64 \<Rightarrow> mmio_range \<Rightarrow> bool" where
  "range_ok abi_max r \<longleftrightarrow> 0 < unat (rg_size r) \<and> unat (rg_base r) + unat (rg_size r) \<le> unat abi_max + 1 \<and>
     rg_shmname r \<noteq> [] \<and> rg_client r \<noteq> None \<and> rg_vcpu_id r = 0"

definition ranges_ok :: "u64 \<Rightarrow> mmio_range list \<Rightarrow> bool" where
  "ranges_ok abi_max rs \<longleftrightarrow> length rs \<le> MAX_RANGES \<and> (\<forall>r \<in> set rs. range_ok abi_max r) \<and>
     (\<forall>i < length rs. \<forall>j < i. range_addrs (rs ! i) \<inter> range_addrs (rs ! j) = {})"

lemma diff_less_iff:
  fixes a b n :: u64
  shows "a \<ge> b \<and> a - b < n \<longleftrightarrow> unat b \<le> unat a \<and> unat a < unat b + unat n"
  by (auto simp: word_le_nat_alt word_less_nat_alt unat_sub)

lemma ranges_overlap_iff:
  assumes "0 < unat (rg_size r)" "0 < unat (rg_size q)"
  shows "ranges_overlap r q \<longleftrightarrow> range_addrs r \<inter> range_addrs q \<noteq> {}"
  unfolding ranges_overlap_def range_addrs_def ranges_meet_iff [OF assms] diff_less_iff
  using assms by (cases "unat (rg_base r) \<le> unat (rg_base q)") auto

lemma check_old_spec:
  "check_old olds r = Inr r' \<Longrightarrow> rg_base r' = rg_base r \<and> rg_size r' = rg_size r \<and> rg_shmname r' = rg_shmname r \<and>
     rg_vcpu_id r' = rg_vcpu_id r \<and> (\<forall>old \<in> set olds. \<not> ranges_overlap r old)"
proof (induction olds arbitrary: r)
  case (Cons old olds)
  let ?r = "if rg_shmname old = rg_shmname r then r\<lparr>rg_client := rg_client old\<rparr> else r"
  from Cons.prems have no: "\<not> ranges_overlap r old" and c: "check_old olds ?r = Inr r'"
    by (auto simp: invalid_range_def split: if_splits)
  have "ranges_overlap ?r q = ranges_overlap r q" for q by (simp add: ranges_overlap_def)
  with Cons.IH [OF c] no show ?case by (auto split: if_splits)
qed simp

lemma attach_range_keeps:
  "attach_range fresh shm p r = (p', r') \<Longrightarrow> rg_base r' = rg_base r \<and> rg_size r' = rg_size r \<and> rg_shmname r' = rg_shmname r \<and>
     rg_vcpu_id r' = rg_vcpu_id r"
  by (auto simp: attach_range_def split: prod.splits if_splits)

lemma range_fits:
  assumes "\<not> rg_base r > m" "\<not> rg_size r - 1 > m - rg_base r" "rg_size r \<noteq> 0"
  shows "0 < unat (rg_size r) \<and> unat (rg_base r) + unat (rg_size r) \<le> unat m + 1"
proof -
  have s: "0 < unat (rg_size r)" using assms(3) by (simp add: unat_gt_0)
  then have "unat (rg_size r - 1) = unat (rg_size r) - 1" by (simp add: unat_sub word_le_nat_alt)
  moreover have "unat (m - rg_base r) = unat m - unat (rg_base r)" "unat (rg_base r) \<le> unat m"
    using assms(1) by (simp_all add: unat_sub word_le_nat_alt not_less)
  ultimately show ?thesis using assms(2) s by (simp add: word_less_nat_alt not_less)
qed

lemma register_range_spec:
  assumes "sst_mmio_register_range abi_max fresh shm spec t = Inr t'"
  shows "\<exists>r. rt_ranges t' = rt_ranges t @ [r] \<and> range_ok abi_max r \<and> length (rt_ranges t) < MAX_RANGES \<and>
    (\<forall>old \<in> set (rt_ranges t). \<not> ranges_overlap r old)"
proof -
  from assms obtain s where s: "spec = Some s" by (cases spec) (auto simp: sst_mmio_register_range_def invalid_range_def)
  obtain r r1 where
    l: "length (rt_ranges t) < MAX_RANGES" and
    r: "\<not> (rg_shmname r = [] \<or> rg_size r = 0 \<or> rg_base r > abi_max \<or> rg_size r > abi_max \<or> rg_size r - 1 > abi_max - rg_base r)" and
    r1: "check_old (rt_ranges t) r = Inr r1" and
    k: "(case attach_range fresh shm (rt_process t) r1 of (p, r2) \<Rightarrow>
          let count = quetz_ipc_vcpu_count (client_segment p (rg_client r2)) in
          if rg_vcpu_id r2 \<noteq> 0 then invalid_range ''user-mode mailboxes use CPU indices; vcpu_id must be zero''
          else if rg_client r2 = None \<or> count = 0 \<or> count > QUETZ_MAX_MMIO_VCORES
            then invalid_range ''cannot attach shared memory or invalid vCPU index''
          else Inr \<lparr>rt_ranges = rt_ranges t @ [r2], rt_process = p\<rparr>) = Inr t'"
    using assms unfolding sst_mmio_register_range_def s option.case
    by (auto simp: res_bind_Inr_iff invalid_range_def not_le simp del: split_paired_Ex split: if_splits)
  obtain p r2 where r2: "attach_range fresh shm (rt_process t) r1 = (p, r2)" by fastforce
  with k have c: "rg_vcpu_id r2 = 0" "rg_client r2 \<noteq> None" and t': "t' = \<lparr>rt_ranges = rt_ranges t @ [r2], rt_process = p\<rparr>"
    by (auto simp: invalid_range_def Let_def split: if_splits)
  have e: "rg_base r2 = rg_base r" "rg_size r2 = rg_size r" "rg_shmname r2 = rg_shmname r"
    and no: "\<forall>old \<in> set (rt_ranges t). \<not> ranges_overlap r old"
    using check_old_spec [OF r1] attach_range_keeps [OF r2] by auto
  have "ranges_overlap r2 q = ranges_overlap r q" for q using e by (simp add: ranges_overlap_def)
  moreover have "range_ok abi_max r2" using range_fits [where r = r and m = abi_max] r e c by (simp add: range_ok_def)
  ultimately show ?thesis using t' no l by auto
qed

lemma range_reachable_ok: "range_reachable abi_max t \<Longrightarrow> ranges_ok abi_max (rt_ranges t)"
proof (induction rule: range_reachable.induct)
  case (register t fresh shm spec t')
  from register_range_spec [OF register.hyps(2)] obtain r where
    r: "rt_ranges t' = rt_ranges t @ [r]" "range_ok abi_max r" "length (rt_ranges t) < MAX_RANGES"
      "\<forall>old \<in> set (rt_ranges t). \<not> ranges_overlap r old" by blast
  have "range_addrs r \<inter> range_addrs (rt_ranges t ! j) = {}" if "j < length (rt_ranges t)" for j
    using r(2,4) register.IH that ranges_overlap_iff [of r "rt_ranges t ! j"] by (auto simp: ranges_ok_def range_ok_def)
  then show ?case
    using r register.IH by (auto simp: ranges_ok_def nth_append less_Suc_eq)
qed (simp add: ranges_ok_def)

lemma find_range_Some_iff:
  assumes "ranges_ok abi_max rs"
  shows "find_range rs a = Some r \<longleftrightarrow> r \<in> set rs \<and> unat a \<in> range_addrs r"
proof
  assume "find_range rs a = Some r"
  then show "r \<in> set rs \<and> unat a \<in> range_addrs r"
    unfolding find_range_def diff_less_iff by (auto dest!: find_SomeD simp: range_addrs_def)
next
  assume r: "r \<in> set rs \<and> unat a \<in> range_addrs r"
  then obtain i where i: "i < length rs" "rs ! i = r" by (auto simp: in_set_conv_nth)
  have "unat a \<notin> range_addrs (rs ! j)" if "j < i" for j
    using assms r i that by (fastforce simp: ranges_ok_def)
  then show "find_range rs a = Some r"
    unfolding find_range_def diff_less_iff find_Some_iff using i r by (auto simp: range_addrs_def)
qed

section \<open>What the decoders mean\<close>

text \<open>The RISC-V architecture's view of a load or store: direction, width code, data register and
  length, with the compressed word and doubleword forms expanded to the base ones.\<close>

definition rv_fields :: "u32 \<Rightarrow> bool \<times> u32 \<times> u32 \<times> u64" where
  "rv_fields insn =
     (if insn AND 3 = 3 then
        let st = (insn AND 0x7f = 0x23)
        in (st, drop_bit 12 insn AND 7, (if st then drop_bit 20 insn AND 0x1f else drop_bit 7 insn AND 0x1f), 4)
      else (bit insn 15, 2 + (drop_bit 13 insn AND 1), 8 + (drop_bit 2 insn AND 7), 2))"

definition rv_width :: "u32 \<Rightarrow> nat" where
  "rv_width f3 = 2 ^ unat (f3 AND 3)"

definition rv_extend :: "u32 \<Rightarrow> u64 \<Rightarrow> u64" where
  "rv_extend f3 v = (if bit f3 2 then take_bit (8 * rv_width f3) v else signed_take_bit (8 * rv_width f3 - 1) v)"

lemma arith_shift_back:
  assumes "s < 64"
  shows "signed_drop_bit s (push_bit s (v :: u64)) = signed_take_bit (63 - s) v"
proof (rule bit_word_eqI)
  fix n assume "n < LENGTH(64)"
  then show "bit (signed_drop_bit s (push_bit s v)) n \<longleftrightarrow> bit (signed_take_bit (63 - s) v) n"
    using assms
    by (cases "n = 63 - s") (auto simp: bit_signed_drop_bit_iff bit_signed_take_bit_iff bit_push_bit_iff min_def)
qed

lemma low_bits: "n < 64 \<Longrightarrow> v AND (push_bit n 1 - 1) = take_bit n (v :: u64)"
  by (simp add: take_bit_eq_mask mask_eq_exp_minus_1 push_bit_eq_mult)

lemma widen_load_extend:
  "widen_load (of_nat (rv_width f3)) (\<not> bit f3 2) v = rv_extend f3 v" if "f3 \<in> {0, 1, 2, 4, 5, 6}"
  using that low_bits [of 8 v] low_bits [of 16 v] low_bits [of 32 v]
    arith_shift_back [of 56 v] arith_shift_back [of 48 v] arith_shift_back [of 32 v]
  by (auto simp: widen_load_def rv_extend_def rv_width_def)

lemma widen_load_double: "widen_load 8 b v = rv_extend 3 v"
  using arith_shift_back [of 0 v] by (simp add: widen_load_def rv_extend_def rv_width_def)

lemma rvc_fields:
  "bit (insn :: u32) 15 = bit (drop_bit 13 insn AND 7) 2" "drop_bit 13 insn AND 1 = (drop_bit 13 insn AND 7) AND 1"
  by (simp_all add: bit_simps and.assoc)

lemma decode_ldst_fields:
  assumes "decode_ldst insn = Some (d, len)" "rv_fields insn = (st, f3, reg, l)"
  shows "ls_store d = st \<and> ls_size d = of_nat (rv_width f3) \<and> len = l \<and> (st \<longrightarrow> ls_rs2 d = reg) \<and>
    (\<not> st \<longrightarrow> ls_rd d = reg \<and> widen_load (ls_size d) (ls_signed d) v = rv_extend f3 v)"
proof (cases "insn AND 3 = 3")
  case True
  note w = widen_load_extend [of f3 v]
  show ?thesis
    using assms True w widen_load_double [of _ v]
    by (auto simp: decode_ldst_def rv_fields_def Let_def rv_width_def split: if_splits)
next
  case False
  show ?thesis
    using assms False widen_load_extend [of 2 v] widen_load_double [of _ v]
    by (auto simp: decode_ldst_def rv_fields_def Let_def rvc_fields rv_width_def split: if_splits)
qed

text \<open>The m68k architecture's view of MOVE: the bytes that follow the opcode word for an operand, and the
  four operand fields.\<close>

definition ea_bytes :: "nat \<Rightarrow> u16 \<Rightarrow> u16 \<Rightarrow> nat" where
  "ea_bytes sz mode reg =
     (if mode = 5 \<or> mode = 6 then 2
      else if mode = 7 then if reg = 1 then 4 else if reg = 4 then (if sz = 4 then 4 else 2) else 2
      else 0)"

definition dst_reg :: "u16 \<Rightarrow> u16" where "dst_reg op = drop_bit 9 op AND 7"
definition dst_mode :: "u16 \<Rightarrow> u16" where "dst_mode op = drop_bit 6 op AND 7"
definition src_mode :: "u16 \<Rightarrow> u16" where "src_mode op = drop_bit 3 op AND 7"
definition src_reg :: "u16 \<Rightarrow> u16" where "src_reg op = op AND 7"

definition move_size :: "u16 \<Rightarrow> nat" where
  "move_size op = (if drop_bit 12 op = 1 then 1 else if drop_bit 12 op = 3 then 2 else 4)"

lemma field_le_7: "(x AND 7 :: u16) \<le> 7"
  by (simp add: word_and_le1)

lemma size_code:
  assumes "op AND 0xC000 = 0"
  shows "drop_bit 12 op AND 3 = drop_bit 12 (op :: u16)"
proof (rule bit_word_eqI)
  fix n assume n: "n < LENGTH(16)"
  have "\<not> bit op 14" "\<not> bit op 15"
    using arg_cong [OF assms, of "\<lambda>w. bit w 14"] arg_cong [OF assms, of "\<lambda>w. bit w 15"] by (simp_all add: bit_simps)
  moreover have "12 + n < 16" if "bit op (12 + n)" using bit_imp_le_length [OF that] by simp
  ultimately have "n < 2" if "bit op (12 + n)"
  proof -
    have "n \<noteq> 2" "n \<noteq> 3" "12 + n < 16" using that \<open>\<not> bit op 14\<close> \<open>\<not> bit op 15\<close> bit_imp_le_length [OF that] by auto
    then show ?thesis by simp
  qed
  moreover have "bit (drop_bit 12 op AND mask 2) n \<longleftrightarrow> n < 2 \<and> bit op (12 + n)" using n by (auto simp: bit_simps)
  moreover have "(mask 2 :: u16) = 3" by (simp add: mask_numeral)
  ultimately show "bit (drop_bit 12 op AND 3) n \<longleftrightarrow> bit (drop_bit 12 op) n" by (auto simp: bit_drop_bit_eq)
qed

lemma ea_extlen_bytes:
  "m68k_ea_extlen mode reg = Some e \<Longrightarrow> ea_bytes sz mode reg = e \<and> mode \<in> {2, 5, 6, 7} \<and> \<not> (mode = 7 \<and> reg = 4)"
  by (auto simp: m68k_ea_extlen_def ea_bytes_def split: if_splits)

lemma ea_bytes_simps [simp]: "ea_bytes sz 0 r = 0" "ea_bytes sz 1 r = 0" "ea_bytes sz 7 4 = (if sz = 4 then 4 else 2)"
  by (simp_all add: ea_bytes_def)

text \<open>The three forms the decoder accepts.\<close>

lemma m68k_decode_cases:
  assumes "m68k_mmio_decode op = Some (d, len)"
  obtains
    (reg) ext where "mv_store d" "src_mode op \<in> {0, 1}" "m68k_ea_extlen (dst_mode op) (dst_reg op) = Some ext" "len = 2 + ext"
      "mv_dreg d = (if src_mode op = 1 then 8 + uint (src_reg op) else uint (src_reg op))" "mv_size d = move_size op"
  | (imm) ext where "mv_store d" "src_mode op = 7" "src_reg op = 4" "m68k_ea_extlen (dst_mode op) (dst_reg op) = Some ext"
      "len = 2 + (if move_size op = 4 then 4 else 2) + ext" "mv_dreg d = - 1" "mv_size d = move_size op"
  | (load) ext where "\<not> mv_store d" "dst_mode op \<in> {0, 1}" "m68k_ea_extlen (src_mode op) (src_reg op) = Some ext" "len = 2 + ext"
      "mv_dreg d = (if dst_mode op = 1 then 8 + uint (dst_reg op) else uint (dst_reg op))" "mv_size d = move_size op"
proof -
  have c: "op AND 0xC000 = 0" using assms by (auto simp: m68k_mmio_decode_def split: if_splits)
  note D = assms [unfolded m68k_mmio_decode_def Let_def size_code [OF c], folded dst_reg_def dst_mode_def src_mode_def src_reg_def]
  have z: "drop_bit 12 op = 1 \<or> drop_bit 12 op = 3 \<or> drop_bit 12 op = 2"
    using D c by (auto split: if_splits)
  have ms: "(if drop_bit 12 op = 1 then 1 else if drop_bit 12 op = 3 then 2 else 4) = move_size op" by (simp add: move_size_def)
  have mi: "(if drop_bit 12 op = 1 then 2 else if drop_bit 12 op = 3 then 2 else 4) = (if move_size op = 4 then 4 else 2 :: nat)"
    by (simp add: move_size_def)
  define dm where "dm = dst_mode op"
  define im where "im = (dm \<ge> 2 \<and> (dm \<noteq> 7 \<or> dst_reg op \<le> 1))"
  note D' = D [unfolded ms mi, folded dm_def im_def]
  show thesis
    using D' c z that
    by (auto simp: dm_def [symmetric] simp del: One_nat_def split: if_splits option.splits)
qed

lemma m68k_decode_fields:
  assumes "m68k_mmio_decode op = Some (d, len)"
  shows "mv_size d = move_size op"
    "len = 2 + ea_bytes (mv_size d) (src_mode op) (src_reg op) + ea_bytes (mv_size d) (dst_mode op) (dst_reg op)"
    "mv_store d \<Longrightarrow> mv_dreg d = (if src_mode op = 0 then uint (src_reg op) else if src_mode op = 1 then 8 + uint (src_reg op) else - 1)"
    "\<not> mv_store d \<Longrightarrow> mv_dreg d = (if dst_mode op = 0 then uint (dst_reg op) else 8 + uint (dst_reg op)) \<and> dst_mode op \<in> {0, 1}"
proof -
  have "mv_size d = move_size op \<and>
    len = 2 + ea_bytes (mv_size d) (src_mode op) (src_reg op) + ea_bytes (mv_size d) (dst_mode op) (dst_reg op) \<and>
    (mv_store d \<longrightarrow> mv_dreg d = (if src_mode op = 0 then uint (src_reg op) else if src_mode op = 1 then 8 + uint (src_reg op) else - 1)) \<and>
    (\<not> mv_store d \<longrightarrow> mv_dreg d = (if dst_mode op = 0 then uint (dst_reg op) else 8 + uint (dst_reg op)) \<and> dst_mode op \<in> {0, 1})"
    using assms
  proof (cases rule: m68k_decode_cases)
    case (reg ext)
    then show ?thesis using ea_extlen_bytes [OF reg(3), of "mv_size d"] by auto
  next
    case (imm ext)
    then show ?thesis using ea_extlen_bytes [OF imm(4), of "mv_size d"] by auto
  next
    case (load ext)
    then show ?thesis using ea_extlen_bytes [OF load(3), of "mv_size d"] by auto
  qed
  then show "mv_size d = move_size op"
    "len = 2 + ea_bytes (mv_size d) (src_mode op) (src_reg op) + ea_bytes (mv_size d) (dst_mode op) (dst_reg op)"
    "mv_store d \<Longrightarrow> mv_dreg d = (if src_mode op = 0 then uint (src_reg op) else if src_mode op = 1 then 8 + uint (src_reg op) else - 1)"
    "\<not> mv_store d \<Longrightarrow> mv_dreg d = (if dst_mode op = 0 then uint (dst_reg op) else 8 + uint (dst_reg op)) \<and> dst_mode op \<in> {0, 1}"
    by blast+
qed

lemma move_size_cases: "move_size op \<in> {1, 2, 4}"
  by (simp add: move_size_def)

lemma move_mask_eq: "sz \<in> {1, 2, 4} \<Longrightarrow> move_mask sz = mask (8 * sz)"
  by (auto simp: move_mask_def mask_numeral)

text \<open>The condition codes of a moved value: N and Z from the operand width, V and C clear, X kept.\<close>

definition ccr_ok :: "u32 \<Rightarrow> u32 \<Rightarrow> nat \<Rightarrow> u32 \<Rightarrow> bool" where
  "ccr_ok c x sz cc_x \<longleftrightarrow> (bit c 3 \<longleftrightarrow> bit x (8 * sz - 1)) \<and> (bit c 2 \<longleftrightarrow> take_bit (8 * sz) x = 0) \<and> \<not> bit c 1 \<and> \<not> bit c 0 \<and>
     (bit c 4 \<longleftrightarrow> bit cc_x 0)"

lemma move_ccr_ok:
  assumes "sz \<in> {1, 2, 4}"
  shows "ccr_ok (m68k_mmio_move_ccr (take_bit (8 * sz) x) sz (push_bit 4 cx)) x sz cx"
proof -
  define v where "v = take_bit (8 * sz) x"
  have m: "v AND (if sz = 4 then 0xFFFFFFFF else push_bit (sz * 8) 1 - 1) = v"
  proof -
    have "(if sz = 4 then 0xFFFFFFFF else push_bit (sz * 8) 1 - 1) = (mask (8 * sz) :: u32)"
      using assms by (auto simp: mask_numeral)
    then show ?thesis by (simp add: v_def take_bit_eq_mask and.assoc)
  qed
  have s: "v AND push_bit (sz * 8 - 1) 1 \<noteq> 0 \<longleftrightarrow> bit x (8 * sz - 1)"
    unfolding bit_iff_and_push_bit_not_eq_0 [symmetric] v_def bit_take_bit_iff using assms by (auto simp: mult.commute)
  have c: "m68k_mmio_move_ccr v sz (push_bit 4 cx) =
      (push_bit 4 cx AND 0x10) OR (if v = 0 then 0x04 else 0) OR (if bit x (8 * sz - 1) then 0x08 else 0)"
    unfolding m68k_mmio_move_ccr_def Let_def m s by (rule refl)
  have b: "bit (push_bit 4 cx AND 0x10) n \<longleftrightarrow> n = 4 \<and> bit cx 0" for n
  proof -
    have "(0x10 :: u32) = push_bit 4 1" by simp
    then show ?thesis by (simp only: bit_and_iff bit_push_bit_iff) (auto simp: bit_1_iff)
  qed
  show ?thesis
    unfolding ccr_ok_def v_def [symmetric] c bit_or_iff b by simp
qed

definition move_source :: "(u32 \<Rightarrow> u16 option) \<Rightarrow> (u32 \<Rightarrow> u32 option) \<Rightarrow> m68k_env \<Rightarrow> u16 \<Rightarrow> u32 option" where
  "move_source ld16 ld32 env op =
     (if src_mode op = 0 then Some (mk_dregs env (unat (src_reg op)))
      else if src_mode op = 1 then Some (mk_aregs env (unat (src_reg op)))
      else if move_size op = 4 then ld32 (mk_pc env + 2) else map_option ucast (ld16 (mk_pc env + 2)))"

lemma uint_field_8: "uint (x AND 7 :: u16) < 8"
  using word_and_le1 [of x 7] by (simp add: word_le_def)

lemma store_source_move:
  assumes "m68k_mmio_decode op = Some (d, len)" "mv_store d"
  shows "store_source ld16 ld32 env d = move_source ld16 ld32 env op"
proof -
  define u where "u = uint (src_reg op)"
  have u: "0 \<le> u" "u < 8" "unat (src_reg op) = nat u" using uint_field_8 [of op] by (simp_all add: u_def src_reg_def)
  have "move_size op \<ge> 4 \<longleftrightarrow> move_size op = 4" using move_size_cases [of op] by auto
  then show ?thesis
    using m68k_decode_fields(1,3) [OF assms(1)] assms(2) u
    unfolding store_source_def move_source_def u_def [symmetric] u(3) by auto
qed

lemma access_in_range:
  assumes "find_range rs a = Some r" "\<not> of_nat n > rg_size r - (a - rg_base r)" "n \<le> 8"
  shows "r \<in> set rs \<and> {unat a ..< unat a + n} \<subseteq> range_addrs r"
proof -
  from assms(1) have r: "r \<in> set rs" "a \<ge> rg_base r \<and> a - rg_base r < rg_size r"
    unfolding find_range_def by (auto dest!: find_SomeD)
  have "unat (rg_size r - (a - rg_base r)) = unat (rg_size r) - (unat a - unat (rg_base r))"
    using r(2) by (simp add: unat_sub less_imp_le)
  moreover have "unat (of_nat n :: u64) = n" using assms(3) by (intro unat_of_nat_64) simp
  ultimately have "n \<le> unat (rg_size r) - (unat a - unat (rg_base r))"
    using assms(2) by (simp add: word_less_nat_alt not_less)
  moreover have "unat (rg_base r) \<le> unat a" "unat a < unat (rg_base r) + unat (rg_size r)"
    using r(2) unfolding diff_less_iff by auto
  ultimately show ?thesis using r(1) by (auto simp: range_addrs_def)
qed

section \<open>Properties\<close>

text \<open>C35. However ranges are registered, there are at most eight, each is non-empty, named, attached and
  inside the guest address space, no two overlap, and the lookup finds the one range that holds an
  address, if there is one.\<close>

theorem ranges_registered:
  assumes "range_reachable abi_max t"
  shows "ranges_ok abi_max (rt_ranges t) \<and>
    (find_range (rt_ranges t) a = Some r \<longleftrightarrow> r \<in> set (rt_ranges t) \<and> unat a \<in> range_addrs r)"
  using range_reachable_ok [OF assms] find_range_Some_iff by blast

text \<open>C11. A serviced RV64 fault has the effect the architecture gives the instruction. The access lies in
  a registered range and matches the direction of the fault; a store hands the source register to the
  mailbox with the access width; a load writes the returned value, sign- or zero-extended from that width,
  to the destination register unless it is x0; every other register is unchanged and the program counter
  moves past the base or compressed instruction.\<close>

theorem riscv_access_architectural:
  assumes "riscv_fault rs p restored ld32 v addr is_write env = Some (call, k)"
    and "ld32 (rv_pc env) = Some insn" "rv_fields insn = (st, f3, reg, len)"
  shows "st = is_write \<and>
    (\<exists>r. find_range rs addr = Some r \<and> {unat addr ..< unat addr + rv_width f3} \<subseteq> range_addrs r \<and>
       call = (if st then quetz_ipc_mmio_write (client_segment p (rg_client r)) v addr (of_nat (rv_width f3)) (rv_gpr env (unat reg))
               else quetz_ipc_mmio_read (client_segment p (rg_client r)) v addr (of_nat (rv_width f3)))) \<and>
    k val = \<lparr>rv_gpr = (if st \<or> reg = 0 then rv_gpr env else (rv_gpr env)(unat reg := rv_extend f3 val)),
             rv_pc = rv_pc env + len\<rparr>"
proof -
  from assms(1,2) obtain r d l where r: "find_range rs addr = Some r" and d: "decode_ldst insn = Some (d, l)"
    and ok: "ls_store d = is_write" "\<not> ucast (ls_size d) > rg_size r - (addr - rg_base r)"
    and res: "(if ls_store d then
         Some (quetz_ipc_mmio_write (client_segment p (rg_client r)) v addr (ls_size d) (rv_gpr env (unat (ls_rs2 d))),
           \<lambda>_. env\<lparr>rv_pc := rv_pc env + l\<rparr>)
       else Some (quetz_ipc_mmio_read (client_segment p (rg_client r)) v addr (ls_size d),
         \<lambda>val. (if ls_rd d \<noteq> 0 then env\<lparr>rv_gpr := (rv_gpr env)(unat (ls_rd d) := widen_load (ls_size d) (ls_signed d) val)\<rparr>
                else env)\<lparr>rv_pc := rv_pc env + l\<rparr>)) = Some (call, k)"
    by (auto simp: riscv_fault_def Let_def split: option.splits if_splits prod.splits)
  note f = decode_ldst_fields [OF d assms(3), of val]
  have w: "rv_width f3 \<le> 8"
  proof -
    have "unat (f3 AND 3) \<le> 3" using and_mask_unat [of f3 2] by (simp add: mask_numeral)
    then have "(2::nat) ^ unat (f3 AND 3) \<le> 2 ^ 3" by (intro power_increasing) simp_all
    then show ?thesis by (simp add: rv_width_def)
  qed
  have "ucast (ls_size d) = (of_nat (rv_width f3) :: u64)"
    using f w by (simp add: word_unat_eq_iff unat_of_nat)
  with access_in_range [OF r, of "rv_width f3"] ok(2) w have "{unat addr ..< unat addr + rv_width f3} \<subseteq> range_addrs r" by simp
  then show ?thesis using f res r ok(1) by (auto split: if_splits)
qed

lemma m68k_load:
  assumes "m68k_mmio_decode op = Some (d, len)" "\<not> mv_store d" "sz = move_size op"
  shows "let t = finish_move (load_register env d val) d len (ucast val AND move_mask (mv_size d)); n = unat (dst_reg op) in
    mk_pc t = mk_pc env + of_nat len \<and>
    (dst_mode op = 0 \<longrightarrow> mk_aregs t = mk_aregs env \<and> (\<exists>c. mk_ccr t = Some c \<and> ccr_ok c (ucast val) sz (mk_cc_x env)) \<and>
       mk_dregs t = (mk_dregs env)(n := (mk_dregs env n AND NOT (mask (8 * sz))) OR take_bit (8 * sz) (ucast val))) \<and>
    (dst_mode op = 1 \<longrightarrow> mk_dregs t = mk_dregs env \<and> mk_ccr t = mk_ccr env \<and>
       mk_aregs t = (mk_aregs env)(n := (if sz = 2 then scast (ucast val :: u16) else ucast val)))"
proof -
  define u where "u = uint (dst_reg op)"
  have u: "0 \<le> u" "u < 8" "unat (dst_reg op) = nat u" using uint_field_8 [of "drop_bit 9 op"] by (simp_all add: u_def dst_reg_def)
  have sz: "mv_size d = sz" "sz \<in> {1, 2, 4}" using m68k_decode_fields(1) [OF assms(1)] assms(3) move_size_cases by auto
  have m: "move_mask sz = mask (8 * sz)" using move_mask_eq [OF sz(2)] .
  have tb: "ucast val AND move_mask sz = take_bit (8 * sz) (ucast val :: u32)" unfolding m by (simp add: take_bit_eq_mask)
  note ccr = move_ccr_ok [OF sz(2), of "ucast val" "mk_cc_x env"]
  note dr = m68k_decode_fields(4) [OF assms(1,2), folded u_def]
  show ?thesis
  proof (cases "dst_mode op = 0")
    case True
    then have "mv_dreg d = u" using dr by simp
    then show ?thesis
      using True u assms(2) ccr unfolding Let_def sz(1) tb u(3)
      by (simp add: finish_move_def load_register_def Let_def sz(1) m take_bit_eq_mask)
  next
    case False
    then have "mv_dreg d = 8 + u" using dr by simp
    then show ?thesis
      using False u assms(2) unfolding Let_def sz(1) tb u(3)
      by (simp add: finish_move_def load_register_def Let_def sz(1))
  qed
qed

text \<open>C34. A serviced m68k fault has the effect the architecture gives MOVE and MOVEA. The access lies in a
  registered range; the program counter moves past the opcode word and the extension words of both
  operands; a store hands the low bytes of its register or immediate to the mailbox; a load replaces
  the low bytes of a data register or sets an address register, sign-extended from a word; MOVE sets N and Z
  from the moved bytes, clears V and C and keeps X, MOVEA leaves the condition codes; nothing else changes.\<close>

theorem m68k_move_architectural:
  assumes "m68k_fault rs p restored ld16 ld32 v addr is_write env = Some (call, k)" "ld16 (mk_pc env) = Some op"
    and "sz = move_size op" "t = k val" "n = unat (dst_reg op)"
  shows "(\<exists>r. find_range rs addr = Some r \<and> {unat addr ..< unat addr + sz} \<subseteq> range_addrs r \<and>
      (is_write \<longrightarrow> (\<exists>x c. move_source ld16 ld32 env op = Some x \<and>
         call = quetz_ipc_mmio_write (client_segment p (rg_client r)) v addr (of_nat sz) (ucast (take_bit (8 * sz) x)) \<and>
         mk_dregs t = mk_dregs env \<and> mk_aregs t = mk_aregs env \<and> mk_ccr t = Some c \<and> ccr_ok c x sz (mk_cc_x env))) \<and>
      (\<not> is_write \<longrightarrow> call = quetz_ipc_mmio_read (client_segment p (rg_client r)) v addr (of_nat sz) \<and> dst_mode op \<in> {0, 1} \<and>
         (dst_mode op = 0 \<longrightarrow> mk_aregs t = mk_aregs env \<and> (\<exists>c. mk_ccr t = Some c \<and> ccr_ok c (ucast val) sz (mk_cc_x env)) \<and>
            mk_dregs t = (mk_dregs env)(n := (mk_dregs env n AND NOT (mask (8 * sz))) OR take_bit (8 * sz) (ucast val))) \<and>
         (dst_mode op = 1 \<longrightarrow> mk_dregs t = mk_dregs env \<and> mk_ccr t = mk_ccr env \<and>
            mk_aregs t = (mk_aregs env)(n := (if sz = 2 then scast (ucast val :: u16) else ucast val))))) \<and>
    mk_pc t = mk_pc env + of_nat (2 + ea_bytes sz (src_mode op) (src_reg op) + ea_bytes sz (dst_mode op) (dst_reg op))"
proof -
  from assms(1,2) obtain r d l where r: "find_range rs addr = Some r" and d: "m68k_mmio_decode op = Some (d, l)"
    and ok: "mv_store d = is_write" "\<not> of_nat (mv_size d) > rg_size r - (addr - rg_base r)"
    and res: "(if mv_store d then
         (case store_source ld16 ld32 env d of None \<Rightarrow> None
          | Some raw \<Rightarrow> Some (quetz_ipc_mmio_write (client_segment p (rg_client r)) v addr (of_nat (mv_size d)) (ucast (raw AND move_mask (mv_size d))),
               \<lambda>_. finish_move env d l (raw AND move_mask (mv_size d))))
       else Some (quetz_ipc_mmio_read (client_segment p (rg_client r)) v addr (of_nat (mv_size d)),
         \<lambda>val. finish_move (load_register env d val) d l (ucast val AND move_mask (mv_size d)))) = Some (call, k)"
    by (auto simp: m68k_fault_def Let_def split: option.splits if_splits prod.splits)
  have sz: "mv_size d = sz" "sz \<in> {1, 2, 4}" using m68k_decode_fields(1) [OF d] assms(3) move_size_cases by auto
  have len: "l = 2 + ea_bytes sz (src_mode op) (src_reg op) + ea_bytes sz (dst_mode op) (dst_reg op)"
    using m68k_decode_fields(2) [OF d] sz(1) by simp
  have rng: "{unat addr ..< unat addr + sz} \<subseteq> range_addrs r"
  proof -
    have "sz \<le> 8" using sz(2) by auto
    with access_in_range [OF r, of sz] ok(2) show ?thesis unfolding sz(1) by blast
  qed
  show ?thesis
  proof (cases is_write)
    case True
    from res True ok(1) obtain x where x: "store_source ld16 ld32 env d = Some x"
      and c: "call = quetz_ipc_mmio_write (client_segment p (rg_client r)) v addr (of_nat sz) (ucast (x AND move_mask sz))"
      and kk: "t = finish_move env d l (x AND move_mask sz)"
      using assms(4) sz(1) by (auto split: option.splits)
    have tb: "x AND move_mask sz = take_bit (8 * sz) x" using move_mask_eq [OF sz(2)] by (simp add: take_bit_eq_mask)
    show ?thesis
      using True r rng c kk ok(1) len x store_source_move [OF d, of ld16 ld32 env] move_ccr_ok [OF sz(2), of x "mk_cc_x env"]
      unfolding tb by (auto simp: finish_move_def sz(1))
  next
    case False
    then have ns: "\<not> mv_store d" using ok(1) by simp
    from res ns have c: "call = quetz_ipc_mmio_read (client_segment p (rg_client r)) v addr (of_nat sz)"
      and kk: "t = finish_move (load_register env d val) d l (ucast val AND move_mask (mv_size d))"
      using assms(4) sz(1) by auto
    note ld = m68k_load [OF d ns assms(3), of env val, folded kk, unfolded Let_def, folded assms(5)]
    show ?thesis using False r rng c ld len m68k_decode_fields(4) [OF d ns] by auto
  qed
qed

definition sample_ranges :: "mmio_range list" where
  "sample_ranges = [\<lparr>rg_shmname = ''quetz'', rg_base = 0x10000000, rg_size = 0x1000, rg_vcpu_id = 0, rg_client = Some 7\<rparr>]"

definition sample_attached :: ipc_process where
  "sample_attached = sample_process\<lparr>clients := (\<lambda>_. Some sample_client)\<rparr>"

definition sample_table :: range_table where
  "sample_table = \<lparr>rt_ranges = [], rt_process = sample_process\<rparr>"

lemma sample_register:
  "case sst_mmio_register_range 0xFFFFFFFFFFFFFFFF (Some 7) (\<lambda>_. Some sample_object)
      (Some ''shmname=quetz,base=0x10000000,size=4096'') sample_table of
     Inl e \<Rightarrow> False | Inr t \<Rightarrow> map rg_base (rt_ranges t) = [0x10000000]"
  by code_simp

theorem ranges_registered_witness:
  "\<exists>t. range_reachable 0xFFFFFFFFFFFFFFFF t \<and> length (rt_ranges t) = 1 \<and> ranges_ok 0xFFFFFFFFFFFFFFFF (rt_ranges t)"
proof -
  obtain t where t: "sst_mmio_register_range 0xFFFFFFFFFFFFFFFF (Some 7) (\<lambda>_. Some sample_object)
      (Some ''shmname=quetz,base=0x10000000,size=4096'') sample_table = Inr t" "map rg_base (rt_ranges t) = [0x10000000]"
    using sample_register by (auto split: sum.splits)
  have "range_reachable 0xFFFFFFFFFFFFFFFF t"
    by (rule range_reachable.register [OF range_reachable.none t(1)]) (simp add: sample_table_def)
  then show ?thesis using ranges_registered [of "0xFFFFFFFFFFFFFFFF" t] t(2) by (intro exI [of _ t]) auto
qed

text \<open>\<open>lh a0, 0(a1)\<close> from the aperture, answered with \<open>0xFFFF\<close>.\<close>

definition sample_rv :: riscv_env where
  "sample_rv = \<lparr>rv_gpr = (\<lambda>_. 0), rv_pc = 0x1000\<rparr>"

lemma sample_riscv_fault:
  "riscv_fault sample_ranges sample_attached True (\<lambda>_. Some 0x00059503) 1 0x10000010 False sample_rv \<noteq> None"
  by code_simp

theorem riscv_access_architectural_witness:
  "\<exists>call k. riscv_fault sample_ranges sample_attached True (\<lambda>_. Some 0x00059503) 1 0x10000010 False sample_rv = Some (call, k) \<and>
     k 0xFFFF = \<lparr>rv_gpr = (\<lambda>_. 0)(10 := 0xFFFFFFFFFFFFFFFF), rv_pc = 0x1004\<rparr>"
proof -
  obtain call k where f: "riscv_fault sample_ranges sample_attached True (\<lambda>_. Some 0x00059503) 1 0x10000010 False sample_rv = Some (call, k)"
    using sample_riscv_fault by auto
  have s: "rv_fields 0x00059503 = (False, 1, 10, 4)" by code_simp
  have e: "rv_extend 1 0xFFFF = 0xFFFFFFFFFFFFFFFF" by code_simp
  show ?thesis
    using riscv_access_architectural [OF f refl s, of "0xFFFF"] f by (auto simp: sample_rv_def e)
qed

text \<open>\<open>move.w (a0),%d3\<close> from the aperture.\<close>

definition sample_m68k :: m68k_env where
  "sample_m68k = \<lparr>mk_dregs = (\<lambda>_. 0xAAAAAAAA), mk_aregs = (\<lambda>_. 0), mk_pc = 0x2000, mk_cc_x = 1, mk_ccr = None\<rparr>"

lemma sample_m68k_fault:
  "m68k_fault sample_ranges sample_attached True (\<lambda>_. Some 0x3610) (\<lambda>_. None) 0 0x10000020 False sample_m68k \<noteq> None"
  by code_simp

theorem m68k_move_architectural_witness:
  "\<exists>call k. m68k_fault sample_ranges sample_attached True (\<lambda>_. Some 0x3610) (\<lambda>_. None) 0 0x10000020 False sample_m68k = Some (call, k) \<and>
     mk_dregs (k 0x1234) 3 = 0xAAAA1234 \<and> mk_pc (k 0x1234) = 0x2002"
proof -
  obtain call k where f: "m68k_fault sample_ranges sample_attached True (\<lambda>_. Some 0x3610) (\<lambda>_. None) 0 0x10000020 False sample_m68k = Some (call, k)"
    using sample_m68k_fault by auto
  have s: "move_size 0x3610 = 2" "dst_mode 0x3610 = 0" "unat (dst_reg 0x3610) = 3" "src_mode 0x3610 = 2" by code_simp+
  have v: "(0xAAAAAAAA AND NOT (mask 16)) OR take_bit 16 (ucast (0x1234 :: u64)) = (0xAAAA1234 :: u32)" by code_simp
  have "mk_dregs (k 0x1234) = (mk_dregs sample_m68k)(3 := (mk_dregs sample_m68k 3 AND NOT (mask 16)) OR take_bit 16 (ucast (0x1234 :: u64)))
      \<and> mk_pc (k 0x1234) = mk_pc sample_m68k + 2"
    using m68k_move_architectural [OF f refl refl refl refl, of "0x1234"] by (auto simp: s ea_bytes_def)
  then show ?thesis using f v by (intro exI [of _ call] exI [of _ k]) (simp add: sample_m68k_def)
qed

end
