(* ===== verification/Quetz_Balar_Port.thy ===== *)
theory Quetz_Balar_Port
  imports Quetz_Mem_Issue Quetz_Stats
begin

text \<open>
  The host-side port of the balar accelerator, \<open>src/quetz_balar_accelerator_port.cc\<close>: the doorbell
  whose packet is flushed from the caches before it is forwarded, and the posted offload engine with its
  submit, status and completion registers. The services of the CPU that the port calls are a record of
  queries and a trace of effects. The theorems account for every posted offload and show that
  a doorbell is forwarded only after the last of its flushes is answered.
\<close>

section \<open>State\<close>

record accel_host =
  h_has_mem :: "u32 \<Rightarrow> bool"
  h_drained :: "u32 \<Rightarrow> bool"
  h_line_size :: u64
  h_cycles :: u64

datatype host_effect =
    H_post u32 u64
  | H_flush u32 nat u64 u64
  | H_mmio u32 mem_request
  | H_stat u32 core_stat u64

record forward_pending =
  fp_vcpu :: u32
  fp_read :: bool
  fp_async :: bool

record armed_doorbell =
  ad_req :: mem_request
  ad_async :: bool
  ad_pre_acked :: bool

record flush_ctx =
  fc_vcpu :: u32
  fc_remaining :: u32
  fc_start_cycle :: u64
  fc_doorbell :: mem_request
  fc_async :: bool
  fc_pre_acked :: bool

record balar_cfg =
  doorbell_addr :: u64
  doorbell_size :: u64
  packet_flush_bytes :: u64
  flush_enabled :: bool
  async_offload :: bool
  async_doorbell_addr :: u64
  async_doorbell_size :: u64
  async_completion_depth :: u32

text \<open>Requests take their identifiers from \<open>ids\<close> in the order they are created; \<open>bp_next\<close> is the number
  created so far.\<close>

record balar_port =
  bp_cfg :: balar_cfg
  bp_pending :: "nat \<Rightarrow> forward_pending option"
  bp_flush_to_vcpu :: "nat \<Rightarrow> u32 option"
  bp_flushes :: "u32 \<Rightarrow> flush_ctx option"
  bp_armed :: "u32 \<Rightarrow> armed_doorbell option"
  bp_submit_id :: "u32 \<Rightarrow> u64"
  bp_completed_id :: "u32 \<Rightarrow> u64"
  bp_last_result :: "u32 \<Rightarrow> u64"
  bp_busy :: "u32 \<Rightarrow> bool"
  bp_queue :: "u32 \<Rightarrow> mem_request list"
  bp_in_flight :: u32
  bp_vcpu :: int
  bp_next :: nat
  bp_out :: "host_effect list"

text \<open>The constructor; \<open>flush_mode\<close> is the string parameter.\<close>

definition new_balar_port :: "balar_cfg \<Rightarrow> string \<Rightarrow> balar_port result" where
  "new_balar_port cfg flush_mode =
     (if flush_mode \<noteq> ''none'' \<and> flush_mode \<noteq> ''range_from_value'' then Inl (Fatal ''unknown flush_mode'')
      else Inr \<lparr>bp_cfg = cfg\<lparr>flush_enabled := (flush_mode = ''range_from_value''),
                 async_completion_depth := (if async_completion_depth cfg = 0 then 1 else async_completion_depth cfg)\<rparr>,
             bp_pending = (\<lambda>_. None), bp_flush_to_vcpu = (\<lambda>_. None), bp_flushes = (\<lambda>_. None), bp_armed = (\<lambda>_. None),
             bp_submit_id = (\<lambda>_. 0), bp_completed_id = (\<lambda>_. 0), bp_last_result = (\<lambda>_. 0), bp_busy = (\<lambda>_. False),
             bp_queue = (\<lambda>_. []), bp_in_flight = 0, bp_vcpu = - 1, bp_next = 0, bp_out = []\<rparr>)"

definition in_async :: "balar_cfg \<Rightarrow> u64 \<Rightarrow> bool" where
  "in_async cfg addr \<longleftrightarrow> async_offload cfg \<and> async_doorbell_addr cfg \<noteq> 0 \<and>
     addr \<ge> async_doorbell_addr cfg \<and> addr < async_doorbell_addr cfg + async_doorbell_size cfg"

definition ownsAddr :: "balar_cfg \<Rightarrow> u64 \<Rightarrow> bool" where
  "ownsAddr cfg addr \<longleftrightarrow>
     (doorbell_addr cfg \<noteq> 0 \<and> doorbell_size cfg \<noteq> 0 \<and> addr \<ge> doorbell_addr cfg \<and> addr < doorbell_addr cfg + doorbell_size cfg)
     \<or> in_async cfg addr"

definition host_do :: "host_effect list \<Rightarrow> balar_port \<Rightarrow> balar_port" where
  "host_do es s = s\<lparr>bp_out := bp_out s @ es\<rparr>"

definition sync_stat :: "bool \<Rightarrow> core_stat" where
  "sync_stat is_read = (if is_read then S_mmio_read_reqs else S_mmio_write_reqs)"

section \<open>Forwarding and flushing\<close>

definition forwardDoorbell :: "u32 \<Rightarrow> mem_request \<Rightarrow> bool \<Rightarrow> bool \<Rightarrow> balar_port \<Rightarrow> balar_port" where
  "forwardDoorbell vcpu req is_async pre_acked s =
     (if is_async \<and> bp_busy s vcpu then
        host_do (if \<not> pre_acked then [H_post vcpu 0] else [])
          (s\<lparr>bp_queue := (bp_queue s)(vcpu := bp_queue s vcpu @ [req])\<rparr>)
      else
        let s1 = (if is_async then s\<lparr>bp_busy := (bp_busy s)(vcpu := True)\<rparr> else s);
            s2 = s1\<lparr>bp_pending := (bp_pending s1)(mr_id req \<mapsto> \<lparr>fp_vcpu = vcpu, fp_read = False, fp_async = is_async\<rparr>)\<rparr>
        in host_do ([H_mmio vcpu req, H_stat vcpu (sync_stat False) 1] @ (if is_async \<and> \<not> pre_acked then [H_post vcpu 0] else [])) s2)"

text \<open>The loop that sends \<open>n\<close> flushes from \<open>line\<close> on.\<close>

fun flush_loop :: "(nat \<Rightarrow> nat) \<Rightarrow> u32 \<Rightarrow> u64 \<Rightarrow> u64 \<Rightarrow> nat \<Rightarrow> balar_port \<Rightarrow> balar_port result" where
  "flush_loop ids vcpu line_size line 0 s = Inr s"
| "flush_loop ids vcpu line_size line (Suc n) s =
     (let rid = ids (bp_next s);
          s1 = host_do [H_stat vcpu S_mmio_doorbell_flushes 1, H_flush vcpu rid line line_size]
                 (s\<lparr>bp_flush_to_vcpu := (bp_flush_to_vcpu s)(rid \<mapsto> vcpu), bp_next := bp_next s + 1\<rparr>)
      in if n = 0 then Inr s1
         else if line > (- 1) - line_size then Inl (Fatal ''doorbell flush line progression overflows'')
         else flush_loop ids vcpu line_size (line + line_size) n s1)"

definition issueDoorbellFlushes ::
    "(nat \<Rightarrow> nat) \<Rightarrow> accel_host \<Rightarrow> u32 \<Rightarrow> mem_request \<Rightarrow> bool \<Rightarrow> bool \<Rightarrow> balar_port \<Rightarrow> balar_port result" where
  "issueDoorbellFlushes ids h vcpu req is_async pre_acked s =
     (if bp_flushes s vcpu \<noteq> None then Inl (Fatal ''nested doorbell while a flush is pending'')
      else
        let flush_bytes = (if flush_enabled (bp_cfg s) then packet_flush_bytes (bp_cfg s) else 0);
            scratch = accelDataToU64 (mr_data req)
        in case computeBalarFlushRange scratch flush_bytes (h_line_size h) \<lparr>first_line = 0, fr_end = 0, line_count = 0\<rparr> of
             (ok, rng) \<Rightarrow>
               if \<not> ok then Inl (Fatal ''invalid doorbell flush range'')
               else if line_count rng > 0xFFFFFFFF then Inl (Fatal ''doorbell flush range requires too many lines'')
               else
                 res_bind (flush_loop ids vcpu (h_line_size h) (first_line rng) (unat (line_count rng)) s) (\<lambda>s1.
                   let ctx = \<lparr>fc_vcpu = vcpu, fc_remaining = ucast (line_count rng), fc_start_cycle = h_cycles h,
                              fc_doorbell = req, fc_async = is_async, fc_pre_acked = pre_acked\<rparr>
                   in if fc_remaining ctx = 0 then Inr (forwardDoorbell vcpu req is_async pre_acked s1)
                      else Inr (s1\<lparr>bp_flushes := (bp_flushes s1)(vcpu \<mapsto> ctx)\<rparr>)))"

text \<open>\<open>order\<close> is the order in which the hash map of armed doorbells is visited.\<close>

fun process :: "(nat \<Rightarrow> nat) \<Rightarrow> accel_host \<Rightarrow> u32 list \<Rightarrow> balar_port \<Rightarrow> balar_port result" where
  "process ids h [] s = Inr s"
| "process ids h (vcpu # order) s =
     (case bp_armed s vcpu of
        Some armed \<Rightarrow>
          if h_drained h vcpu then
            res_bind (issueDoorbellFlushes ids h vcpu (ad_req armed) (ad_async armed) (ad_pre_acked armed)
                        (s\<lparr>bp_armed := (bp_armed s)(vcpu := None)\<rparr>))
              (process ids h order)
          else process ids h order s
      | None \<Rightarrow> process ids h order s)"

section \<open>Commands\<close>

definition ASYNC_REG_SUBMIT :: u64 where "ASYNC_REG_SUBMIT = 0x00"
definition ASYNC_REG_STATUS :: u64 where "ASYNC_REG_STATUS = 0x08"
definition ASYNC_REG_COMPLETED :: u64 where "ASYNC_REG_COMPLETED = 0x10"
definition ASYNC_REG_TICKET :: u64 where "ASYNC_REG_TICKET = 0x20"
definition ASYNC_REG_RESULT :: u64 where "ASYNC_REG_RESULT = 0x28"

definition async_read :: "u32 \<Rightarrow> u64 \<Rightarrow> balar_port \<Rightarrow> u64" where
  "async_read vcpu off s =
     (if off = ASYNC_REG_STATUS then ucast (bp_in_flight s)
      else if off = ASYNC_REG_COMPLETED then bp_completed_id s vcpu
      else if off = ASYNC_REG_TICKET then bp_submit_id s vcpu
      else if off = ASYNC_REG_RESULT then bp_last_result s vcpu
      else 0)"

text \<open>The shift count is below 64, and the shift defined in the source, for the widths up to 8 bytes that a
  guest access has.\<close>

definition submit_scratch :: "quetz_command \<Rightarrow> u64" where
  "submit_scratch cmd = foldl (\<lambda>v i. v OR push_bit (8 * i) (ucast (qc_data cmd ! i))) 0 [0..<min (unat (qc_size cmd)) 64]"

definition async_submit :: "(nat \<Rightarrow> nat) \<Rightarrow> accel_host \<Rightarrow> u32 \<Rightarrow> quetz_command \<Rightarrow> balar_port \<Rightarrow> balar_port result" where
  "async_submit ids h vcpu cmd s =
     (let cfg = bp_cfg s in
      if doorbell_addr cfg = 0 \<or> \<not> h_has_mem h vcpu
        then Inl (Fatal ''async SUBMIT requires doorbell_addr and a cache (mem) interface'')
      else if bp_in_flight s + 1 > async_completion_depth cfg
        then Inl (Fatal ''async SUBMIT exceeds async_completion_depth'')
      else
        let scratch = submit_scratch cmd;
            db_size = (if qc_size cmd \<noteq> 0 then qc_size cmd else ucast (doorbell_size cfg));
            doorbell = \<lparr>mr_id = ids (bp_next s), mr_write = True, mr_addr = doorbell_addr cfg, mr_size = db_size,
                        mr_data = accelU64ToData scratch (unat db_size)\<rparr>;
            s1 = host_do [H_stat vcpu S_async_submits 1]
                   (s\<lparr>bp_submit_id := (bp_submit_id s)(vcpu := bp_submit_id s vcpu + 1),
                      bp_in_flight := bp_in_flight s + 1, bp_next := bp_next s + 1\<rparr>)
        in if bp_armed s vcpu \<noteq> None \<or> bp_flushes s vcpu \<noteq> None
             then Inl (Fatal ''Nested async SUBMIT before its acknowledgement'')
           else Inr (s1\<lparr>bp_armed := (bp_armed s1)(vcpu \<mapsto> \<lparr>ad_req = doorbell, ad_async = True, ad_pre_acked = False\<rparr>)\<rparr>))"

definition handleAsyncAperture :: "(nat \<Rightarrow> nat) \<Rightarrow> accel_host \<Rightarrow> u32 \<Rightarrow> quetz_command \<Rightarrow> balar_port \<Rightarrow> balar_port result" where
  "handleAsyncAperture ids h vcpu cmd s0 =
     (if bp_vcpu s0 \<ge> 0 \<and> sint vcpu \<noteq> bp_vcpu s0 then Inl (Fatal ''async offload is single-vCPU only'')
      else
        let s = (if bp_vcpu s0 < 0 then s0\<lparr>bp_vcpu := sint vcpu\<rparr> else s0);
            off = qc_addr cmd - async_doorbell_addr (bp_cfg s)
        in if qc_cmd cmd = cmd_code CMD_MMIO_READ_REQ then
             Inr (host_do [H_post vcpu (async_read vcpu off s), H_stat vcpu (sync_stat True) 1] s)
           else if qc_cmd cmd = cmd_code CMD_MMIO_WRITE_REQ then
             if off \<noteq> ASYNC_REG_SUBMIT then Inr (host_do [H_post vcpu 0] s)
             else async_submit ids h vcpu cmd s
           else Inr s)"

definition handleCommand :: "(nat \<Rightarrow> nat) \<Rightarrow> accel_host \<Rightarrow> u32 \<Rightarrow> quetz_command \<Rightarrow> balar_port \<Rightarrow> balar_port result" where
  "handleCommand ids h vcpu cmd s =
     (let cfg = bp_cfg s; rid = ids (bp_next s) in
      if in_async cfg (qc_addr cmd) then handleAsyncAperture ids h vcpu cmd s
      else if qc_cmd cmd = cmd_code CMD_MMIO_READ_REQ then
        Inr (host_do [H_mmio vcpu \<lparr>mr_id = rid, mr_write = False, mr_addr = qc_addr cmd, mr_size = qc_size cmd, mr_data = []\<rparr>,
                      H_stat vcpu (sync_stat True) 1]
          (s\<lparr>bp_pending := (bp_pending s)(rid \<mapsto> \<lparr>fp_vcpu = vcpu, fp_read = True, fp_async = False\<rparr>), bp_next := bp_next s + 1\<rparr>))
      else if qc_cmd cmd = cmd_code CMD_MMIO_WRITE_REQ then
        let req = \<lparr>mr_id = rid, mr_write = True, mr_addr = qc_addr cmd, mr_size = qc_size cmd,
                   mr_data = take (unat (qc_size cmd)) (qc_data cmd)\<rparr>;
            s1 = s\<lparr>bp_next := bp_next s + 1\<rparr>
        in if \<not> h_has_mem h vcpu \<or> \<not> flush_enabled cfg \<or> packet_flush_bytes cfg = 0
             then Inr (forwardDoorbell vcpu req False False s1)
           else if bp_armed s vcpu \<noteq> None then Inl (Fatal ''nested doorbell while one is armed'')
           else Inr (s1\<lparr>bp_armed := (bp_armed s1)(vcpu \<mapsto> \<lparr>ad_req = req, ad_async = False, ad_pre_acked = False\<rparr>)\<rparr>)
      else Inr s)"

section \<open>Responses\<close>

record port_response =
  pr_id :: nat
  pr_flush :: bool
  pr_read :: bool
  pr_data :: "u8 list"

definition flush_response :: "accel_host \<Rightarrow> u32 \<Rightarrow> port_response \<Rightarrow> balar_port \<Rightarrow> balar_port result" where
  "flush_response h vcpu resp s0 =
     (let s = s0\<lparr>bp_flush_to_vcpu := (bp_flush_to_vcpu s0)(pr_id resp := None)\<rparr> in
      case bp_flushes s vcpu of
        None \<Rightarrow> Inl (Fatal ''doorbell flush response without context'')
      | Some ctx \<Rightarrow>
          if \<not> pr_flush resp then Inl (Fatal ''doorbell flush completed with non-FlushResp'')
          else
            let ctx1 = (if fc_remaining ctx > 0 then ctx\<lparr>fc_remaining := fc_remaining ctx - 1\<rparr> else ctx)
            in if fc_remaining ctx1 = 0 then
                 Inr (forwardDoorbell vcpu (fc_doorbell ctx1) (fc_async ctx1) (fc_pre_acked ctx1)
                   (host_do [H_stat vcpu S_mmio_doorbell_flush_cycles (h_cycles h - fc_start_cycle ctx1)]
                     (s\<lparr>bp_flushes := (bp_flushes s)(vcpu := None)\<rparr>)))
               else Inr (s\<lparr>bp_flushes := (bp_flushes s)(vcpu \<mapsto> ctx1)\<rparr>))"

definition async_retired :: "u32 \<Rightarrow> u64 \<Rightarrow> balar_port \<Rightarrow> balar_port" where
  "async_retired vcpu value s0 =
     (let s = host_do [H_stat vcpu S_async_completions 1]
            (s0\<lparr>bp_completed_id := (bp_completed_id s0)(vcpu := bp_completed_id s0 vcpu + 1),
                bp_last_result := (bp_last_result s0)(vcpu := value),
                bp_in_flight := (if bp_in_flight s0 > 0 then bp_in_flight s0 - 1 else bp_in_flight s0),
                bp_busy := (bp_busy s0)(vcpu := False)\<rparr>)
      in case bp_queue s vcpu of
           next_req # rest \<Rightarrow> forwardDoorbell vcpu next_req True True (s\<lparr>bp_queue := (bp_queue s)(vcpu := rest)\<rparr>)
         | [] \<Rightarrow> s)"

text \<open>\<open>False\<close> as second result: the response is not the port's.\<close>

definition port_handleResponse :: "accel_host \<Rightarrow> port_response \<Rightarrow> balar_port \<Rightarrow> (balar_port \<times> bool) result" where
  "port_handleResponse h resp s =
     (case bp_flush_to_vcpu s (pr_id resp) of
        Some vcpu \<Rightarrow> res_bind (flush_response h vcpu resp s) (\<lambda>s1. Inr (s1, True))
      | None \<Rightarrow>
          (case bp_pending s (pr_id resp) of
             None \<Rightarrow> Inr (s, False)
           | Some fp \<Rightarrow>
               let value = (if fp_read fp \<and> pr_read resp then accelDataToU64 (pr_data resp) else 0);
                   s1 = s\<lparr>bp_pending := (bp_pending s)(pr_id resp := None)\<rparr>
               in Inr (if fp_async fp then async_retired (fp_vcpu fp) value s1 else host_do [H_post (fp_vcpu fp) value] s1, True)))"

definition hasOutstanding :: "balar_port \<Rightarrow> bool" where
  "hasOutstanding s \<longleftrightarrow> bp_in_flight s > 0"

definition vcpuHasOutstanding :: "u32 \<Rightarrow> balar_port \<Rightarrow> bool" where
  "vcpuHasOutstanding vcpu s \<longleftrightarrow> bp_submit_id s vcpu > bp_completed_id s vcpu"

section \<open>Reachable states\<close>

text \<open>The CPU component delivers commands of its vCPUs, calls \<open>process\<close> every cycle and hands over responses, in any
  order; each call may see the host in a different state.\<close>

inductive balar_reachable :: "(nat \<Rightarrow> nat) \<Rightarrow> balar_cfg \<Rightarrow> balar_port \<Rightarrow> bool" for ids cfg where
  br_new: "new_balar_port cfg flush_mode = Inr s \<Longrightarrow> balar_reachable ids cfg s"
| br_command: "balar_reachable ids cfg s \<Longrightarrow> vcpu < QUETZ_MAX_MMIO_VCORES \<Longrightarrow> handleCommand ids h vcpu cmd s = Inr s' \<Longrightarrow>
     balar_reachable ids cfg s'"
| br_process: "balar_reachable ids cfg s \<Longrightarrow> process ids h order s = Inr s' \<Longrightarrow> balar_reachable ids cfg s'"
| br_response: "balar_reachable ids cfg s \<Longrightarrow> port_handleResponse h resp s = Inr (s', mine) \<Longrightarrow> balar_reachable ids cfg s'"

section \<open>Accounting of posted offloads\<close>

text \<open>The posted offloads of a vCPU, wherever they are: armed, being flushed, queued or running.\<close>

definition async_stage :: "balar_port \<Rightarrow> u32 \<Rightarrow> nat" where
  "async_stage s w =
     (case bp_armed s w of Some a \<Rightarrow> of_bool (ad_async a) | None \<Rightarrow> 0) +
     (case bp_flushes s w of Some c \<Rightarrow> of_bool (fc_async c) | None \<Rightarrow> 0) +
     length (bp_queue s w) + of_bool (bp_busy s w)"

text \<open>What only the register interface and retirement touch.\<close>

definition async_regs :: "balar_port \<Rightarrow> balar_cfg \<times> (u32 \<Rightarrow> u64) \<times> (u32 \<Rightarrow> u64) \<times> u32 \<times> int" where
  "async_regs s = (bp_cfg s, bp_submit_id s, bp_completed_id s, bp_in_flight s, bp_vcpu s)"

definition async_pending_ok :: "balar_port \<Rightarrow> bool" where
  "async_pending_ok s \<longleftrightarrow>
     (\<forall>i fp. bp_pending s i = Some fp \<and> fp_async fp \<longrightarrow> bp_busy s (fp_vcpu fp)) \<and>
     (\<forall>i j fp fp'. bp_pending s i = Some fp \<and> bp_pending s j = Some fp' \<and> fp_async fp \<and> fp_async fp' \<and> fp_vcpu fp = fp_vcpu fp'
        \<longrightarrow> i = j)"

definition async_queue_ok :: "balar_port \<Rightarrow> bool" where
  "async_queue_ok s \<longleftrightarrow> (\<forall>w. bp_queue s w \<noteq> [] \<longrightarrow> bp_busy s w)"

lemma async_pending_cong:
  "bp_pending s = bp_pending s' \<Longrightarrow> bp_busy s = bp_busy s' \<Longrightarrow> async_pending_ok s = async_pending_ok s'"
  by (simp add: async_pending_ok_def)

lemma host_do_simps [simp]:
  "bp_cfg (host_do es s) = bp_cfg s" "bp_pending (host_do es s) = bp_pending s"
  "bp_flush_to_vcpu (host_do es s) = bp_flush_to_vcpu s" "bp_flushes (host_do es s) = bp_flushes s"
  "bp_armed (host_do es s) = bp_armed s" "bp_submit_id (host_do es s) = bp_submit_id s"
  "bp_completed_id (host_do es s) = bp_completed_id s" "bp_last_result (host_do es s) = bp_last_result s"
  "bp_busy (host_do es s) = bp_busy s" "bp_queue (host_do es s) = bp_queue s"
  "bp_in_flight (host_do es s) = bp_in_flight s" "bp_vcpu (host_do es s) = bp_vcpu s" "bp_next (host_do es s) = bp_next s"
  by (simp_all add: host_do_def)

lemma host_do_async [simp]:
  "async_stage (host_do es s) = async_stage s" "async_regs (host_do es s) = async_regs s"
  "async_pending_ok (host_do es s) = async_pending_ok s" "async_queue_ok (host_do es s) = async_queue_ok s"
  by (simp_all add: async_stage_def async_regs_def async_pending_ok_def async_queue_ok_def fun_eq_iff)

lemma forwardDoorbell_frame [simp]:
  "async_regs (forwardDoorbell v r a p s) = async_regs s"
  "bp_armed (forwardDoorbell v r a p s) = bp_armed s" "bp_flushes (forwardDoorbell v r a p s) = bp_flushes s"
  "bp_flush_to_vcpu (forwardDoorbell v r a p s) = bp_flush_to_vcpu s" "bp_next (forwardDoorbell v r a p s) = bp_next s"
  by (simp_all add: forwardDoorbell_def async_regs_def Let_def)

lemma async_stage_forward:
  "async_stage (forwardDoorbell v r a p s) w = async_stage s w + of_bool (a \<and> w = v)"
  by (auto simp: forwardDoorbell_def async_stage_def Let_def)

lemma async_pending_forward: "async_pending_ok s \<Longrightarrow> async_pending_ok (forwardDoorbell v r a p s)"
  by (auto simp: forwardDoorbell_def async_pending_ok_def Let_def split: if_splits)

lemma async_queue_forward:
  assumes "\<And>w. bp_queue s w \<noteq> [] \<Longrightarrow> bp_busy s w \<or> a \<and> w = v"
  shows "async_queue_ok (forwardDoorbell v r a p s)"
  using assms by (auto simp: forwardDoorbell_def async_queue_ok_def Let_def)

lemma async_queue_forward_ok: "async_queue_ok s \<Longrightarrow> async_queue_ok (forwardDoorbell v r a p s)"
  by (rule async_queue_forward) (simp add: async_queue_ok_def)

text \<open>The flush loop touches only the flush table.\<close>

lemma flush_loop_frame:
  assumes "flush_loop ids v ls line n s = Inr s'"
  shows "async_regs s' = async_regs s \<and> bp_armed s' = bp_armed s \<and> bp_flushes s' = bp_flushes s \<and>
    bp_queue s' = bp_queue s \<and> bp_busy s' = bp_busy s \<and> bp_pending s' = bp_pending s"
  using assms
proof (induction n arbitrary: line s)
  case (Suc n)
  show ?case
    using Suc.prems by (auto simp: Let_def async_regs_def dest!: Suc.IH split: if_splits)
qed simp

lemma issue_cases:
  assumes "issueDoorbellFlushes ids h v r a p s = Inr s'"
  obtains (forwarded) s1 line where
      "flush_loop ids v (h_line_size h) line 0 s = Inr s1" "bp_flushes s v = None"
      "s' = forwardDoorbell v r a p s1"
    | (flushing) s1 line n ctx where
      "flush_loop ids v (h_line_size h) line (unat n) s = Inr s1" "bp_flushes s v = None" "0 < n" "n \<le> 0xFFFFFFFF"
      "fc_async ctx = a" "fc_doorbell ctx = r" "fc_pre_acked ctx = p" "fc_remaining ctx = ucast (n :: u64)"
      "s' = s1\<lparr>bp_flushes := (bp_flushes s1)(v \<mapsto> ctx)\<rparr>"
proof -
  obtain ok rng where rng: "computeBalarFlushRange (accelDataToU64 (mr_data r))
      (if flush_enabled (bp_cfg s) then packet_flush_bytes (bp_cfg s) else 0) (h_line_size h)
      \<lparr>first_line = 0, fr_end = 0, line_count = 0\<rparr> = (ok, rng)"
    by (meson surj_pair)
  note step = assms [unfolded issueDoorbellFlushes_def Let_def rng prod.case]
  have none: "bp_flushes s v = None" and le: "line_count rng \<le> 0xFFFFFFFF"
    using step by (auto split: if_splits)
  then have nz: "ucast (line_count rng) = (0 :: u32) \<longleftrightarrow> line_count rng = 0"
    using le by (auto dest!: arg_cong [of _ _ unat] simp: unsigned_ucast_eq word_le_nat_alt unat_eq_0 take_bit_nat_eq_self)
  from step none le obtain s1 where s1: "flush_loop ids v (h_line_size h) (first_line rng) (unat (line_count rng)) s = Inr s1"
    by (auto simp: res_bind_Inr_iff split: if_splits)
  show thesis
  proof (cases "line_count rng = 0")
    case True
    then show thesis
      using forwarded [of "first_line rng" s1] step none le s1 by (auto split: if_splits)
  next
    case False
    then show thesis
      using step none le s1 nz
      by (intro flushing [OF s1 none _ le, of "\<lparr>fc_vcpu = v, fc_remaining = ucast (line_count rng), fc_start_cycle = h_cycles h,
                              fc_doorbell = r, fc_async = a, fc_pre_acked = p\<rparr>"]) (auto split: if_splits simp: word_gt_0)
  qed
qed

lemma issue_frame:
  assumes "issueDoorbellFlushes ids h v r a p s = Inr s'" "async_pending_ok s" "async_queue_ok s"
  shows "async_regs s' = async_regs s \<and> (\<forall>w. async_stage s' w = async_stage s w + of_bool (a \<and> w = v)) \<and>
    async_pending_ok s' \<and> async_queue_ok s'"
  using assms(1)
proof (cases rule: issue_cases)
  case (forwarded s1 line)
  then show ?thesis
    using assms(2,3) by (auto simp: async_stage_forward async_queue_forward_ok intro!: async_pending_forward)
next
  case (flushing s1 line n ctx)
  note fr = flush_loop_frame [OF flushing(1)]
  have "async_pending_ok s1" "async_queue_ok s1" "async_stage s1 = async_stage s"
    using assms(2,3) fr by (simp_all add: async_pending_cong [of s1 s] async_queue_ok_def async_stage_def fun_eq_iff)
  then show ?thesis
    using fr flushing(2,5,9)
    by (auto simp: async_regs_def async_pending_ok_def async_queue_ok_def async_stage_def fun_eq_iff)
qed

lemma process_frame:
  assumes "process ids h order s = Inr s'" "async_pending_ok s" "async_queue_ok s"
  shows "async_regs s' = async_regs s \<and> async_stage s' = async_stage s \<and> async_pending_ok s' \<and> async_queue_ok s'"
  using assms
proof (induction order arbitrary: s)
  case (Cons v order)
  show ?case
  proof (cases "bp_armed s v")
    case None
    then show ?thesis
      using Cons.IH [of s] Cons.prems by simp
  next
    case (Some armed)
    let ?s0 = "s\<lparr>bp_armed := (bp_armed s)(v := None)\<rparr>"
    have s0: "async_pending_ok ?s0" "async_queue_ok ?s0" "async_regs ?s0 = async_regs s"
        "\<And>w. async_stage s w = async_stage ?s0 w + of_bool (ad_async armed \<and> w = v)"
      using Cons.prems(2,3) Some by (auto simp: async_pending_ok_def async_queue_ok_def async_regs_def async_stage_def)
    show ?thesis
    proof (cases "h_drained h v")
      case True
      then obtain s1 where s1: "issueDoorbellFlushes ids h v (ad_req armed) (ad_async armed) (ad_pre_acked armed) ?s0 = Inr s1"
        "process ids h order s1 = Inr s'"
        using Cons.prems(1) Some by (auto simp: res_bind_Inr_iff)
      note fr = issue_frame [OF s1(1) s0(1,2)]
      show ?thesis
        using Cons.IH [OF s1(2)] fr s0(3,4) by (auto simp: fun_eq_iff)
    qed (use Cons Some in simp)
  qed
qed simp

lemma flush_response_cases:
  assumes "flush_response h v resp s = Inr s'"
  obtains (last) ctx where
      "bp_flushes s v = Some ctx" "pr_flush resp" "fc_remaining ctx \<le> 1"
      "s' = forwardDoorbell v (fc_doorbell ctx) (fc_async ctx) (fc_pre_acked ctx)
         (host_do [H_stat v S_mmio_doorbell_flush_cycles (h_cycles h - fc_start_cycle ctx)]
           (s\<lparr>bp_flush_to_vcpu := (bp_flush_to_vcpu s)(pr_id resp := None), bp_flushes := (bp_flushes s)(v := None)\<rparr>))"
    | (more) ctx where
      "bp_flushes s v = Some ctx" "pr_flush resp" "1 < fc_remaining ctx"
      "s' = s\<lparr>bp_flush_to_vcpu := (bp_flush_to_vcpu s)(pr_id resp := None),
         bp_flushes := (bp_flushes s)(v \<mapsto> ctx\<lparr>fc_remaining := fc_remaining ctx - 1\<rparr>)\<rparr>"
proof -
  obtain ctx where ctx: "bp_flushes s v = Some ctx" and fl: "pr_flush resp"
    using assms by (auto simp: flush_response_def Let_def split: option.splits if_splits)
  show thesis
  proof (cases "fc_remaining ctx \<le> 1")
    case True
    then have "fc_remaining ctx = 0 \<or> fc_remaining ctx = 1"
      using word_le_nat_alt [of "fc_remaining ctx" 1] by (auto simp: le_Suc_eq word_unat_eq_iff)
    then show thesis
      using assms ctx fl True by (intro last) (auto simp: flush_response_def Let_def split: if_splits)
  next
    case False
    then have "fc_remaining ctx \<noteq> 0" "fc_remaining ctx - 1 \<noteq> 0" by auto
    then show thesis
      using assms ctx fl False by (intro more) (auto simp: flush_response_def Let_def word_gt_0 split: if_splits)
  qed
qed

lemma flush_response_frame:
  assumes "flush_response h v resp s = Inr s'" "async_pending_ok s" "async_queue_ok s"
  shows "async_regs s' = async_regs s \<and> async_stage s' = async_stage s \<and> async_pending_ok s' \<and> async_queue_ok s'"
  using assms(1)
proof (cases rule: flush_response_cases)
  case (last ctx)
  let ?s0 = "s\<lparr>bp_flush_to_vcpu := (bp_flush_to_vcpu s)(pr_id resp := None), bp_flushes := (bp_flushes s)(v := None)\<rparr>"
  have "async_pending_ok ?s0" "async_queue_ok ?s0" "async_regs ?s0 = async_regs s"
      "\<And>w. async_stage s w = async_stage ?s0 w + of_bool (fc_async ctx \<and> w = v)"
    using assms(2,3) last(1) by (auto simp: async_pending_ok_def async_queue_ok_def async_regs_def async_stage_def)
  then show ?thesis
    using last(4) by (auto simp: async_stage_forward async_queue_forward_ok fun_eq_iff intro!: async_pending_forward)
next
  case (more ctx)
  then show ?thesis
    using assms(2,3) by (auto simp: async_regs_def async_pending_ok_def async_queue_ok_def async_stage_def fun_eq_iff)
qed

lemma async_retired_frame:
  assumes "async_pending_ok (s\<lparr>bp_busy := (bp_busy s)(v := False)\<rparr>)" "async_queue_ok s" "bp_busy s v"
  shows "async_stage s w = async_stage (async_retired v x s) w + of_bool (w = v) \<and>
    async_pending_ok (async_retired v x s) \<and> async_queue_ok (async_retired v x s) \<and>
    async_regs (async_retired v x s) = (bp_cfg s, bp_submit_id s, (bp_completed_id s)(v := bp_completed_id s v + 1),
      (if bp_in_flight s > 0 then bp_in_flight s - 1 else bp_in_flight s), bp_vcpu s)"
proof (cases "bp_queue s v")
  case Nil
  have "async_pending_ok (async_retired v x s)"
    using Nil assms(1) by (subst async_pending_cong [of _ "s\<lparr>bp_busy := (bp_busy s)(v := False)\<rparr>"]) (simp_all add: async_retired_def Let_def)
  with Nil assms(2,3) show ?thesis
    by (auto simp: async_retired_def Let_def async_stage_def async_queue_ok_def async_regs_def)
next
  case (Cons r rs)
  let ?s = "s\<lparr>bp_completed_id := (bp_completed_id s)(v := bp_completed_id s v + 1),
      bp_last_result := (bp_last_result s)(v := x),
      bp_in_flight := (if bp_in_flight s > 0 then bp_in_flight s - 1 else bp_in_flight s),
      bp_busy := (bp_busy s)(v := False)\<rparr>"
  let ?s1 = "(host_do [H_stat v S_async_completions 1] ?s)\<lparr>bp_queue := (bp_queue s)(v := rs)\<rparr>"
  have eq: "async_retired v x s = forwardDoorbell v r True True ?s1"
    using Cons by (simp add: async_retired_def Let_def)
  have "async_pending_ok ?s1"
    using assms(1) by (subst async_pending_cong [of _ "s\<lparr>bp_busy := (bp_busy s)(v := False)\<rparr>"]) simp_all
  moreover have "async_stage s w = async_stage ?s1 w + 2 * of_bool (w = v)"
    using assms(3) Cons by (auto simp: async_stage_def)
  moreover have "async_queue_ok (forwardDoorbell v r True True ?s1)"
    using assms(2) by (intro async_queue_forward) (auto simp: async_queue_ok_def split: if_splits)
  ultimately show ?thesis
    by (simp add: eq async_stage_forward async_pending_forward) (simp add: async_regs_def)
qed

lemma ucast_succ_32_64:
  assumes "unat (a + 1) = unat (a :: u32) + 1"
  shows "(ucast (a + 1) :: u64) = ucast a + 1"
  unfolding ucast_32_64_of_nat assms by simp

text \<open>The vCPU that has claimed the aperture.\<close>

definition async_owns :: "balar_port \<Rightarrow> u32 \<Rightarrow> bool" where
  "async_owns s w \<longleftrightarrow> 0 \<le> bp_vcpu s \<and> bp_vcpu s = sint w"

definition async_inv :: "balar_cfg \<Rightarrow> balar_port \<Rightarrow> bool" where
  "async_inv cfg s \<longleftrightarrow>
     async_completion_depth (bp_cfg s) = max 1 (async_completion_depth cfg) \<and>
     bp_in_flight s \<le> async_completion_depth (bp_cfg s) \<and> async_pending_ok s \<and> async_queue_ok s \<and>
     (\<forall>w. async_stage s w = (if async_owns s w then unat (bp_in_flight s) else 0)) \<and>
     (\<forall>w. bp_submit_id s w - bp_completed_id s w = (if async_owns s w then ucast (bp_in_flight s) else 0)) \<and>
     (bp_vcpu s < 0 \<and> bp_in_flight s = 0 \<or> (\<exists>w. async_owns s w))"

text \<open>An operation that moves offloads between stages keeps the invariant.\<close>

lemma async_inv_frame:
  assumes "async_inv cfg s" "async_regs s' = async_regs s" "async_stage s' = async_stage s" "async_pending_ok s'" "async_queue_ok s'"
  shows "async_inv cfg s'"
  using assms by (auto simp: async_inv_def async_regs_def async_owns_def)

lemma async_owns_unique: "async_owns s v \<Longrightarrow> async_owns s w \<Longrightarrow> v = w"
  by (auto simp: async_owns_def dest: word_eq_iff_signed [THEN iffD2] )

lemma async_inv_new: "new_balar_port cfg flush_mode = Inr s \<Longrightarrow> async_inv cfg s"
  by (auto simp: new_balar_port_def async_inv_def async_stage_def async_pending_ok_def async_queue_ok_def async_owns_def max_def
      word_le_nat_alt not_less_eq_eq unat_eq_0 split: if_splits)

lemma async_inv_retired:
  assumes inv: "async_inv cfg s" and fp: "bp_pending s i = Some fp" "fp_async fp"
  shows "async_inv cfg (async_retired (fp_vcpu fp) x (s\<lparr>bp_pending := (bp_pending s)(i := None)\<rparr>))"
proof -
  let ?v = "fp_vcpu fp" and ?s0 = "s\<lparr>bp_pending := (bp_pending s)(i := None)\<rparr>"
  let ?s' = "async_retired ?v x ?s0"
  have pend: "async_pending_ok s" and queue: "async_queue_ok s"
    using inv by (simp_all add: async_inv_def)
  then have busy: "bp_busy s ?v"
    using fp by (auto simp: async_pending_ok_def)
  have "async_pending_ok (?s0\<lparr>bp_busy := (bp_busy ?s0)(?v := False)\<rparr>)"
    using pend fp unfolding async_pending_ok_def by (auto split: if_splits)
  moreover have "async_queue_ok ?s0" "\<And>w. async_stage ?s0 w = async_stage s w" "bp_busy ?s0 ?v"
    using queue busy by (simp_all add: async_queue_ok_def async_stage_def)
  ultimately have fr: "\<And>w. async_stage s w = async_stage ?s' w + of_bool (w = ?v)"
      "async_pending_ok ?s'" "async_queue_ok ?s'"
      "async_regs ?s' = (bp_cfg s, bp_submit_id s, (bp_completed_id s)(?v := bp_completed_id s ?v + 1),
         (if bp_in_flight s > 0 then bp_in_flight s - 1 else bp_in_flight s), bp_vcpu s)"
    using async_retired_frame [of ?s0 ?v _ x] by auto
  have "async_stage s ?v > 0"
    using busy by (simp add: async_stage_def)
  then have own: "async_owns s ?v" and pos: "bp_in_flight s > 0"
    using inv by (auto simp: async_inv_def word_gt_0 split: if_splits)
  have iff: "async_owns s w \<longleftrightarrow> w = ?v" for w
    using own async_owns_unique by blast
  have flight: "unat (bp_in_flight s - 1) = unat (bp_in_flight s) - 1" "bp_in_flight s - 1 \<le> bp_in_flight s"
    using pos by (auto simp: unat_minus_one word_gt_0 word_le_nat_alt)
  then have cast: "(ucast (bp_in_flight s - 1) :: u64) = ucast (bp_in_flight s) - 1"
    using ucast_succ_32_64 [of "bp_in_flight s - 1"] pos by (simp add: word_gt_0 unat_gt_0 algebra_simps)
  have regs: "bp_cfg ?s' = bp_cfg s" "bp_submit_id ?s' = bp_submit_id s" "bp_in_flight ?s' = bp_in_flight s - 1"
      "bp_completed_id ?s' = (bp_completed_id s)(?v := bp_completed_id s ?v + 1)" "bp_vcpu ?s' = bp_vcpu s"
    using fr(4) pos by (simp_all add: async_regs_def)
  then have iff': "async_owns ?s' w \<longleftrightarrow> w = ?v" for w
    using iff by (simp add: async_owns_def)
  have "async_stage ?s' w = (if w = ?v then unat (bp_in_flight s - 1) else 0)" for w
    using inv iff fr(1) [of w] flight(1) by (auto simp: async_inv_def)
  moreover have "bp_submit_id s w - ((bp_completed_id s)(?v := bp_completed_id s ?v + 1)) w =
      (if w = ?v then ucast (bp_in_flight s - 1) else 0)" for w
    using inv iff cast by (auto simp: async_inv_def algebra_simps)
  ultimately show ?thesis
    using inv fr(2,3) flight(2) unfolding async_inv_def iff' regs by auto
qed

lemma async_inv_submit:
  assumes inv: "async_inv cfg s" and own: "async_owns s v" and depth: "async_completion_depth cfg \<noteq> - 1"
    and step: "async_submit ids h v cmd s = Inr s'"
  shows "async_inv cfg s'"
proof -
  obtain d where room: "bp_in_flight s + 1 \<le> async_completion_depth (bp_cfg s)" and
      free: "bp_armed s v = None" and
      s': "s' = (host_do [H_stat v S_async_submits 1]
         (s\<lparr>bp_submit_id := (bp_submit_id s)(v := bp_submit_id s v + 1), bp_in_flight := bp_in_flight s + 1, bp_next := bp_next s + 1\<rparr>))
         \<lparr>bp_armed := (bp_armed s)(v \<mapsto> \<lparr>ad_req = d, ad_async = True, ad_pre_acked = False\<rparr>)\<rparr>"
    using step by (auto simp: async_submit_def Let_def not_less split: if_splits)
  have "bp_in_flight s \<le> max 1 (async_completion_depth cfg)" "max 1 (async_completion_depth cfg) \<noteq> - 1"
    using inv depth by (auto simp: async_inv_def max_def)
  then have "bp_in_flight s \<noteq> - 1"
    by (metis word_order.extremum_uniqueI)
  then have flight: "unat (bp_in_flight s + 1) = unat (bp_in_flight s) + 1"
    by (metis Suc_eq_plus1 add.commute add_eq_0_iff unatSuc)
  then have cast: "(ucast (bp_in_flight s + 1) :: u64) = ucast (bp_in_flight s) + 1"
    by (rule ucast_succ_32_64)
  have iff: "async_owns s w \<longleftrightarrow> w = v" for w
    using own async_owns_unique by blast
  have stage: "async_stage s' w = async_stage s w + of_bool (w = v)" for w
    using free by (simp add: s' async_stage_def)
  have "async_pending_ok s'" "async_queue_ok s'"
    using inv async_pending_cong [of s' s] by (simp_all add: async_inv_def async_queue_ok_def s')
  then show ?thesis
    using inv room own iff flight cast stage by (auto simp: async_inv_def async_owns_def s' algebra_simps)
qed

lemma async_inv_claim:
  assumes "async_inv cfg s" "bp_vcpu s < 0" "0 \<le> sint (v :: u32)"
  shows "async_inv cfg (s\<lparr>bp_vcpu := sint v\<rparr>)"
proof -
  have "async_pending_ok (s\<lparr>bp_vcpu := sint v\<rparr>) = async_pending_ok s" "async_queue_ok (s\<lparr>bp_vcpu := sint v\<rparr>) = async_queue_ok s"
      "async_stage (s\<lparr>bp_vcpu := sint v\<rparr>) = async_stage s"
    by (simp_all add: async_pending_ok_def async_queue_ok_def async_stage_def fun_eq_iff)
  moreover have "async_owns (s\<lparr>bp_vcpu := sint v\<rparr>) v"
    using assms(3) by (simp add: async_owns_def)
  ultimately show ?thesis
    using assms(1,2) by (auto simp: async_inv_def async_owns_def)
qed

lemma async_inv_host_do [simp]: "async_inv cfg (host_do es s) = async_inv cfg s"
  by (simp add: async_inv_def async_owns_def)

lemma vcpu_sint: "v < QUETZ_MAX_MMIO_VCORES \<Longrightarrow> 0 \<le> sint v"
  by (auto simp: QUETZ_MAX_MMIO_VCORES_def sint_uint signed_take_bit_nonnegative_iff bit_iff_odd word_less_def)

lemma async_inv_aperture:
  assumes inv: "async_inv cfg s" and v: "0 \<le> sint v" and depth: "async_completion_depth cfg \<noteq> - 1"
    and step: "handleAsyncAperture ids h v cmd s = Inr s'"
  shows "async_inv cfg s'"
proof -
  define s0 where "s0 = (if bp_vcpu s < 0 then s\<lparr>bp_vcpu := sint v\<rparr> else s)"
  have "async_inv cfg s0"
    using async_inv_claim [OF inv _ v] inv by (simp add: s0_def)
  moreover have "async_owns s0 v"
    using step v by (auto simp: s0_def async_owns_def handleAsyncAperture_def split: if_splits)
  ultimately show ?thesis
    using step async_inv_submit [OF _ _ depth] unfolding handleAsyncAperture_def Let_def s0_def [symmetric]
    by (auto split: if_splits)
qed

lemma async_inv_command:
  assumes inv: "async_inv cfg s" and v: "v < QUETZ_MAX_MMIO_VCORES" and depth: "async_completion_depth cfg \<noteq> - 1"
    and step: "handleCommand ids h v cmd s = Inr s'"
  shows "async_inv cfg s'"
proof -
  have ok: "async_pending_ok s" "async_queue_ok s"
    using inv by (simp_all add: async_inv_def)
  let ?s1 = "s\<lparr>bp_next := bp_next s + 1\<rparr>"
  have s1: "async_pending_ok ?s1" "async_queue_ok ?s1" "async_regs ?s1 = async_regs s" "async_stage ?s1 = async_stage s"
    using ok async_pending_cong [of ?s1 s] by (simp_all add: async_queue_ok_def async_regs_def async_stage_def fun_eq_iff)
  have read: "async_inv cfg (s\<lparr>bp_pending := (bp_pending s)(r \<mapsto> \<lparr>fp_vcpu = v, fp_read = True, fp_async = False\<rparr>),
      bp_next := bp_next s + 1\<rparr>)" for r
    using ok by (intro async_inv_frame [OF inv])
      (auto simp: async_pending_ok_def async_queue_ok_def async_regs_def async_stage_def fun_eq_iff split: if_splits)
  have forward: "async_inv cfg (forwardDoorbell v r False False ?s1)" for r
    using s1 by (intro async_inv_frame [OF inv])
      (simp_all add: async_stage_forward fun_eq_iff async_pending_forward async_queue_forward_ok)
  have arm: "async_inv cfg (s\<lparr>bp_next := bp_next s + 1,
      bp_armed := (bp_armed s)(v \<mapsto> \<lparr>ad_req = r, ad_async = False, ad_pre_acked = False\<rparr>)\<rparr>)" (is "async_inv cfg ?sa") if "bp_armed s v = None" for r
    using s1 async_pending_cong [of ?sa s] ok that by (intro async_inv_frame [OF inv])
      (auto simp: async_queue_ok_def async_regs_def async_stage_def fun_eq_iff)
  show ?thesis
    using step inv read forward arm async_inv_aperture [OF inv vcpu_sint [OF v] depth]
    unfolding handleCommand_def Let_def by (auto split: if_splits)
qed

lemma async_inv_response:
  assumes inv: "async_inv cfg s" and step: "port_handleResponse h resp s = Inr (s', mine)"
  shows "async_inv cfg s'"
proof (cases "bp_flush_to_vcpu s (pr_id resp)")
  case (Some v)
  then have "flush_response h v resp s = Inr s'"
    using step by (auto simp: port_handleResponse_def res_bind_Inr_iff)
  then show ?thesis
    using inv flush_response_frame by (intro async_inv_frame [OF inv]) (auto simp: async_inv_def)
next
  case None
  note step = step [unfolded port_handleResponse_def None option.case]
  show ?thesis
  proof (cases "bp_pending s (pr_id resp)")
    case None
    then show ?thesis using step inv by simp
  next
    case (Some fp)
    show ?thesis
    proof (cases "fp_async fp")
      case True
      then show ?thesis
        using step Some async_inv_retired [OF inv Some True] by (auto simp: Let_def)
    next
      case False
      let ?s = "s\<lparr>bp_pending := (bp_pending s)(pr_id resp := None)\<rparr>"
      have "async_inv cfg ?s"
        using inv by (intro async_inv_frame [OF inv])
          (auto simp: async_inv_def async_pending_ok_def async_queue_ok_def async_regs_def async_stage_def fun_eq_iff split: if_splits)
      then show ?thesis
        using step Some False by (auto simp: Let_def)
    qed
  qed
qed

lemma async_inv_reachable:
  assumes "balar_reachable ids cfg s" "async_completion_depth cfg \<noteq> - 1"
  shows "async_inv cfg s"
  using assms
proof induction
  case (br_process s h order s')
  then show ?case
    using process_frame by (intro async_inv_frame [of cfg s s']) (auto simp: async_inv_def)
qed (auto intro: async_inv_new async_inv_command async_inv_response)

section \<open>Doorbells wait for their flushes\<close>

definition flush_ids :: "balar_port \<Rightarrow> u32 \<Rightarrow> nat set" where
  "flush_ids s v = {i. bp_flush_to_vcpu s i = Some v}"

definition flush_inv :: "(nat \<Rightarrow> nat) \<Rightarrow> balar_port \<Rightarrow> bool" where
  "flush_inv ids s \<longleftrightarrow> (\<forall>v. flush_ids s v \<subseteq> ids ` {..<bp_next s}) \<and>
     (\<forall>v. case bp_flushes s v of None \<Rightarrow> flush_ids s v = {}
          | Some ctx \<Rightarrow> 0 < fc_remaining ctx \<and> card (flush_ids s v) = unat (fc_remaining ctx))"

lemma flush_inv_at: "flush_inv ids s \<Longrightarrow> case bp_flushes s v of None \<Rightarrow> flush_ids s v = {}
    | Some ctx \<Rightarrow> 0 < fc_remaining ctx \<and> card (flush_ids s v) = unat (fc_remaining ctx)"
  unfolding flush_inv_def by blast

lemma flush_inv_update:
  assumes inv: "flush_inv ids s" and sub: "flush_ids s' v \<subseteq> ids ` {..<bp_next s'}" and nx: "bp_next s \<le> bp_next s'"
    and other: "\<And>w. w \<noteq> v \<Longrightarrow> flush_ids s' w = flush_ids s w \<and> bp_flushes s' w = bp_flushes s w"
    and at: "case bp_flushes s' v of None \<Rightarrow> flush_ids s' v = {}
      | Some ctx \<Rightarrow> 0 < fc_remaining ctx \<and> card (flush_ids s' v) = unat (fc_remaining ctx)"
  shows "flush_inv ids s'"
proof -
  have "flush_ids s' w \<subseteq> ids ` {..<bp_next s'}" for w
  proof (cases "w = v")
    case False
    then have "flush_ids s' w \<subseteq> ids ` {..<bp_next s}"
      using inv other by (simp add: flush_inv_def)
    also have "\<dots> \<subseteq> ids ` {..<bp_next s'}"
      using nx by auto
    finally show ?thesis .
  qed (simp add: sub)
  moreover have "case bp_flushes s' w of None \<Rightarrow> flush_ids s' w = {}
      | Some ctx \<Rightarrow> 0 < fc_remaining ctx \<and> card (flush_ids s' w) = unat (fc_remaining ctx)" for w
    using at flush_inv_at [OF inv, of w] other [of w] by (cases "w = v") (auto split: option.splits)
  ultimately show ?thesis
    unfolding flush_inv_def by blast
qed

lemma async_retired_flush [simp]:
  "bp_flush_to_vcpu (async_retired v x s) = bp_flush_to_vcpu s" "bp_flushes (async_retired v x s) = bp_flushes s"
  "bp_next (async_retired v x s) = bp_next s"
  by (simp_all add: async_retired_def Let_def split: list.splits)

lemma flush_inv_frame:
  assumes "flush_inv ids s" "bp_flush_to_vcpu s' = bp_flush_to_vcpu s" "bp_flushes s' = bp_flushes s" "bp_next s \<le> bp_next s'"
  shows "flush_inv ids s'"
proof -
  have sub: "ids ` {..<bp_next s} \<subseteq> ids ` {..<bp_next s'}"
    using assms(4) by auto
  have "flush_ids s' = flush_ids s"
    using assms(2) by (simp add: flush_ids_def fun_eq_iff)
  then show ?thesis
    using assms(1,3) sub unfolding flush_inv_def by (metis subset_trans)
qed

lemma flush_loop_ids:
  assumes "flush_loop ids v ls line n s = Inr s'"
  shows "bp_next s' = bp_next s + n \<and>
    bp_flush_to_vcpu s' = (\<lambda>i. if i \<in> ids ` {bp_next s ..< bp_next s + n} then Some v else bp_flush_to_vcpu s i)"
  using assms
proof (induction n arbitrary: line s)
  case (Suc n)
  have iv: "{bp_next s ..< bp_next s + Suc n} = insert (bp_next s) {Suc (bp_next s) ..< Suc (bp_next s) + n}"
    by auto
  show ?case
  proof (cases "n = 0")
    case True
    then show ?thesis
      using Suc.prems by (auto simp: Let_def fun_eq_iff)
  next
    case False
    with Suc.prems show ?thesis
      unfolding iv by (auto simp: Let_def fun_eq_iff dest!: Suc.IH split: if_splits)
  qed
qed simp

lemma flush_inv_issue:
  assumes inv: "flush_inv ids s" and inj: "inj ids" and step: "issueDoorbellFlushes ids h v r a p s = Inr s'"
  shows "flush_inv ids s'"
  using step
proof (cases rule: issue_cases)
  case (forwarded s1 line)
  then show ?thesis
    by (intro flush_inv_frame [OF inv]) simp_all
next
  case (flushing s1 line n ctx)
  note ids = flush_loop_ids [OF flushing(1)]
  note fr = flush_loop_frame [OF flushing(1)]
  let ?new = "ids ` {bp_next s ..< bp_next s + unat n}"
  have fresh: "?new \<inter> ids ` {..<bp_next s} = {}"
    using inj by (auto simp: inj_eq)
  have old: "flush_ids s w \<subseteq> ids ` {..<bp_next s}" for w
    using inv by (simp add: flush_inv_def)
  have none: "flush_ids s v = {}"
    using flush_inv_at [OF inv, of v] flushing(2) by simp
  have at_v: "flush_ids s' v = ?new"
    using none ids flushing(9) by (auto simp: flush_ids_def)
  have other: "flush_ids s' w = flush_ids s w" if "w \<noteq> v" for w
    using that ids flushing(9) fresh old [of w] by (auto simp: flush_ids_def)
  have "card ?new = unat n"
    using inj by (simp add: card_image inj_on_subset)
  moreover have "unat (fc_remaining ctx) = unat n"
    using flushing(4,8) by (simp add: unsigned_ucast_eq word_le_nat_alt take_bit_nat_eq_self)
  moreover have "0 < fc_remaining ctx"
    using calculation(2) flushing(3) by (metis unat_gt_0 word_gt_0)
  ultimately have "case bp_flushes s' v of None \<Rightarrow> flush_ids s' v = {}
      | Some ctx \<Rightarrow> 0 < fc_remaining ctx \<and> card (flush_ids s' v) = unat (fc_remaining ctx)"
    using at_v flushing(9) by simp
  moreover have "?new \<subseteq> ids ` {..<bp_next s'}" "bp_next s \<le> bp_next s'"
    using ids flushing(9) by auto
  moreover have "bp_flushes s' w = bp_flushes s w" if "w \<noteq> v" for w
    using that fr flushing(9) by simp
  ultimately show ?thesis
    using at_v other by (intro flush_inv_update [OF inv, of s' v]) auto
qed

lemma flush_inv_process:
  assumes "flush_inv ids s" "inj ids" "process ids h order s = Inr s'"
  shows "flush_inv ids s'"
  using assms(1,3)
proof (induction order arbitrary: s)
  case (Cons v order)
  have arm: "flush_inv ids (s\<lparr>bp_armed := f\<rparr>)" for f
    using Cons.prems(1) by (rule flush_inv_frame) simp_all
  show ?case
    using Cons.prems
    by (auto simp: res_bind_Inr_iff split: option.splits if_splits
        intro: Cons.IH dest: Cons.IH [OF flush_inv_issue [OF arm assms(2)]])
qed simp

lemma flush_inv_command:
  assumes "flush_inv ids s" "handleCommand ids h v cmd s = Inr s'"
  shows "flush_inv ids s'"
  by (rule flush_inv_frame [OF assms(1)]; use assms(2) in
      \<open>auto simp: handleCommand_def handleAsyncAperture_def async_submit_def Let_def split: if_splits\<close>)

lemma flush_inv_card:
  assumes "flush_inv ids s" "bp_flush_to_vcpu s i = Some v"
  obtains ctx where "bp_flushes s v = Some ctx" "card (flush_ids s v) = unat (fc_remaining ctx)"
    "i \<in> flush_ids s v" "finite (flush_ids s v)"
proof -
  have "i \<in> flush_ids s v" "flush_ids s v \<subseteq> ids ` {..<bp_next s}"
    using assms by (simp_all add: flush_ids_def flush_inv_def)
  then show thesis
    using that assms(1) finite_subset [of "flush_ids s v" "ids ` {..<bp_next s}"]
    by (cases "bp_flushes s v") (force simp: flush_inv_def split: option.splits)+
qed

text \<open>A response removes one outstanding flush of its vCPU; the context goes away with the last one.\<close>

lemma flush_inv_flush_response:
  assumes inv: "flush_inv ids s" and v: "bp_flush_to_vcpu s (pr_id resp) = Some v"
    and step: "flush_response h v resp s = Inr s'"
  shows "flush_inv ids s'"
proof -
  obtain ctx where ctx: "bp_flushes s v = Some ctx" "card (flush_ids s v) = unat (fc_remaining ctx)"
      "pr_id resp \<in> flush_ids s v" "finite (flush_ids s v)"
    using flush_inv_card [OF inv v] .
  have ftv: "bp_flush_to_vcpu s' = (bp_flush_to_vcpu s)(pr_id resp := None)" and nx: "bp_next s' = bp_next s"
    using step by (cases rule: flush_response_cases; simp)+
  have ids_v: "flush_ids s' v = flush_ids s v - {pr_id resp}"
    using ftv by (auto simp: flush_ids_def)
  have other: "flush_ids s' w = flush_ids s w" if "w \<noteq> v" for w
    using ftv v that by (auto simp: flush_ids_def)
  have card: "card (flush_ids s' v) = unat (fc_remaining ctx) - 1"
    using ctx ids_v by simp
  have sub: "flush_ids s' v \<subseteq> ids ` {..<bp_next s'}"
    using inv ids_v nx by (auto simp: flush_inv_def)
  have rest: "bp_flushes s' w = bp_flushes s w" if "w \<noteq> v" for w
    using step that by (cases rule: flush_response_cases) simp_all
  from step have "case bp_flushes s' v of None \<Rightarrow> flush_ids s' v = {}
      | Some c \<Rightarrow> 0 < fc_remaining c \<and> card (flush_ids s' v) = unat (fc_remaining c)"
  proof (cases rule: flush_response_cases)
    case (last c)
    then have "unat (fc_remaining ctx) \<le> 1"
      using ctx(1) by (simp add: word_le_nat_alt)
    then show ?thesis
      using last card ctx(4) ids_v by simp
  next
    case (more c)
    then have "1 < unat (fc_remaining ctx)"
      using ctx(1) by (simp add: word_less_nat_alt)
    moreover from this have "unat (fc_remaining ctx - 1) = unat (fc_remaining ctx) - 1"
      by (intro unat_minus_one) auto
    ultimately show ?thesis
      using more ctx(1) card by (simp add: word_less_nat_alt)
  qed
  then show ?thesis
    using sub other rest nx by (intro flush_inv_update [OF inv, of s' v]) auto
qed

lemma flush_inv_reachable:
  assumes "balar_reachable ids cfg s" "inj ids"
  shows "flush_inv ids s"
  using assms
proof induction
  case (br_new flush_mode s)
  then show ?case
    by (auto simp: new_balar_port_def flush_inv_def flush_ids_def split: if_splits)
next
  case (br_response s h resp s' mine)
  show ?case
  proof (cases "bp_flush_to_vcpu s (pr_id resp)")
    case None
    then show ?thesis
      using br_response.hyps(2) br_response.IH [OF br_response.prems]
      by (cases "bp_pending s (pr_id resp)") (auto simp: port_handleResponse_def Let_def elim!: flush_inv_frame)
  next
    case (Some v)
    then show ?thesis
      using br_response by (auto simp: port_handleResponse_def res_bind_Inr_iff intro: flush_inv_flush_response)
  qed
qed (auto intro: flush_inv_command flush_inv_process)

section \<open>Properties\<close>

text \<open>C16. Posted offloads are accounted for: in every reachable state of the port (any interleaving of commands,
  \<open>process\<close> calls and responses) the number in flight stays within \<open>async_completion_depth\<close> and equals, for the one
  vCPU that owns the aperture, the number of its offloads that are armed, being flushed, queued or running, while
  no other vCPU has any; the submit and completion counters the guest polls differ by exactly that number; a queued offload
  waits behind a running one; and the accelerator runs at most one posted offload of a vCPU at a time.\<close>

theorem async_accounting:
  assumes "balar_reachable ids cfg s" "async_completion_depth cfg \<noteq> - 1"
  shows "bp_in_flight s \<le> max 1 (async_completion_depth cfg) \<and>
    (\<forall>w. async_stage s w = (if async_owns s w then unat (bp_in_flight s) else 0)) \<and>
    (\<forall>w. bp_submit_id s w - bp_completed_id s w = (if async_owns s w then ucast (bp_in_flight s) else 0)) \<and>
    (hasOutstanding s \<longleftrightarrow> (\<exists>w. async_stage s w \<noteq> 0)) \<and>
    (\<forall>w. bp_queue s w = [] \<or> bp_busy s w) \<and>
    (\<forall>i j fp fp'. bp_pending s i = Some fp \<and> bp_pending s j = Some fp' \<and> fp_async fp \<and> fp_async fp' \<and> fp_vcpu fp = fp_vcpu fp'
       \<longrightarrow> i = j \<and> bp_busy s (fp_vcpu fp))"
proof -
  have inv: "async_inv cfg s"
    using assms by (rule async_inv_reachable)
  then have "hasOutstanding s \<longleftrightarrow> (\<exists>w. async_stage s w \<noteq> 0)"
    by (auto simp: async_inv_def hasOutstanding_def word_gt_0 unat_gt_0)
  moreover have "async_pending_ok s" "async_queue_ok s"
    using inv by (simp_all add: async_inv_def)
  then have "bp_queue s w = [] \<or> bp_busy s w"
      "bp_pending s i = Some fp \<and> bp_pending s j = Some fp' \<and> fp_async fp \<and> fp_async fp' \<and> fp_vcpu fp = fp_vcpu fp'
         \<longrightarrow> i = j \<and> bp_busy s (fp_vcpu fp)" for w i j fp fp'
    unfolding async_pending_ok_def async_queue_ok_def by blast+
  moreover have "bp_in_flight s \<le> max 1 (async_completion_depth cfg)"
      "\<forall>w. async_stage s w = (if async_owns s w then unat (bp_in_flight s) else 0)"
      "\<forall>w. bp_submit_id s w - bp_completed_id s w = (if async_owns s w then ucast (bp_in_flight s) else 0)"
    using inv unfolding async_inv_def by metis+
  ultimately show ?thesis by blast
qed

text \<open>A run of the port: vCPU 0 submits a packet at \<open>0x2010\<close> of 64 bytes through the aperture, its two 64-byte lines are flushed
  once it is drained, and the first flush is answered.\<close>

definition ex_cfg :: balar_cfg where
  "ex_cfg = \<lparr>doorbell_addr = 0x1000, doorbell_size = 8, packet_flush_bytes = 64, flush_enabled = True, async_offload = True,
     async_doorbell_addr = 0x3000, async_doorbell_size = 0x40, async_completion_depth = 2\<rparr>"

definition ex_host :: accel_host where
  "ex_host = \<lparr>h_has_mem = (\<lambda>_. True), h_drained = (\<lambda>_. True), h_line_size = 64, h_cycles = 100\<rparr>"

definition ex_submit :: quetz_command where
  "ex_submit = \<lparr>qc_cmd = cmd_code CMD_MMIO_WRITE_REQ, qc_size = 4, qc_pc = 0, qc_addr = 0x3000, qc_insn_class = 0,
     qc_data = [0x10, 0x20, 0, 0]\<rparr>"

definition ex_flushing :: balar_port where
  "ex_flushing = projr (process (\<lambda>k. k) ex_host [0]
     (projr (handleCommand (\<lambda>k. k) ex_host 0 ex_submit (projr (new_balar_port ex_cfg ''range_from_value'')))))"

lemma ex_flushing_reachable: "balar_reachable (\<lambda>k. k) ex_cfg ex_flushing"
proof -
  let ?s0 = "projr (new_balar_port ex_cfg ''range_from_value'')"
  let ?s1 = "projr (handleCommand (\<lambda>k. k) ex_host 0 ex_submit ?s0)"
  have "\<not> isl (new_balar_port ex_cfg ''range_from_value'')"
    by code_simp
  then have "balar_reachable (\<lambda>k. k) ex_cfg ?s0"
    by (metis br_new sum.collapse(2))
  moreover have "\<not> isl (handleCommand (\<lambda>k. k) ex_host 0 ex_submit ?s0)" "(0 :: u32) < QUETZ_MAX_MMIO_VCORES"
    by code_simp+
  ultimately have "balar_reachable (\<lambda>k. k) ex_cfg ?s1"
    by (metis br_command sum.collapse(2))
  moreover have "\<not> isl (process (\<lambda>k. k) ex_host [0] ?s1)"
    by code_simp
  ultimately show ?thesis
    unfolding ex_flushing_def by (metis br_process sum.collapse(2))
qed

theorem async_accounting_witness:
  "bp_in_flight ex_flushing = 1 \<and> async_stage ex_flushing 0 = 1 \<and> bp_in_flight ex_flushing \<le> max 1 (async_completion_depth ex_cfg)"
proof -
  have "async_completion_depth ex_cfg \<noteq> - 1" "bp_in_flight ex_flushing = 1" "async_owns ex_flushing 0"
    by code_simp+
  then show ?thesis
    using async_accounting [OF ex_flushing_reachable] by simp
qed



end
