(* ===== verification/Quetz_Io_Devices.thy ===== *)
theory Quetz_Io_Devices
  imports Quetz_Memory_Span
begin

text \<open>
  The file-backed MMIO devices: the stream device (\<open>src/quetz_stream_device.cc\<close>), which replays a file to the guest at
  a given pace and holds an interrupt line while data is ready, and the sink device (\<open>src/quetz_sink_device.cc\<close>), which
  captures the bytes the guest pushes. A guest request is a register access with an identifier; responses, interrupt
  messages and statistics are a trace of effects. The theorems say that the guest receives the file in order and the
  line follows the data, and that the capture file holds what was pushed.
\<close>

section \<open>Requests and effects\<close>

record dev_read =
  dr_id :: nat
  dr_addr :: u64
  dr_size :: nat

record dev_write =
  dw_id :: nat
  dw_addr :: u64
  dw_data :: "u8 list"
  dw_posted :: bool

text \<open>The effects of a device: responses on its MMIO interface, interrupt messages, statistics, requests on its memory
  interface and changes of its claim on the end of the simulation.\<close>

datatype dev_effect =
    D_read_resp nat "u8 list"
  | D_write_resp nat
  | D_irq u32 u32 u32
  | D_stat string nat
  | D_mem_read nat u64 u64
  | D_mem_write nat u64 "u8 list"
  | D_hold bool

text \<open>The level of the interrupt line after a trace, as the receiver of the messages sees it.\<close>

definition irq_level :: "dev_effect list \<Rightarrow> u32" where
  "irq_level es = foldl (\<lambda>l e. case e of D_irq _ _ l' \<Rightarrow> l' | _ \<Rightarrow> l) 0 es"

lemma irq_level_simps [simp]:
  "irq_level [] = 0" "irq_level (es @ [D_hold b]) = irq_level es" "irq_level (es @ [D_mem_read r a m]) = irq_level es"
  "irq_level (es @ [D_mem_write r a bs]) = irq_level es" "irq_level (es @ [D_irq v i l]) = l" "irq_level (es @ [D_stat n k]) = irq_level es"
  "irq_level (es @ [D_stat n k, D_irq v i l]) = l"
  "irq_level (es @ [D_read_resp r bs]) = irq_level es" "irq_level (es @ [D_write_resp r]) = irq_level es"
  by (simp_all add: irq_level_def)

section \<open>Stream device\<close>

record stream_dev =
  sd_base :: u64
  sd_stream :: "u8 list"
  sd_pos :: nat
  sd_pace :: nat
  sd_budget :: nat
  sd_avail :: nat
  sd_irq_line :: int
  sd_irq_vcpu :: u32
  sd_irq_pending :: bool
  sd_out :: "dev_effect list"

definition STREAM_STATUS :: u64 where "STREAM_STATUS = 0x00"
definition STREAM_DATA :: u64 where "STREAM_DATA = 0x08"
definition STREAM_SEQ :: u64 where "STREAM_SEQ = 0x10"
definition STREAM_CTRL :: u64 where "STREAM_CTRL = 0x18"
definition STREAM_EOS :: u64 where "STREAM_EOS = 0x20"
definition STREAM_IRQ_ACK :: u64 where "STREAM_IRQ_ACK = 0x28"

definition sd_emit :: "dev_effect list \<Rightarrow> stream_dev \<Rightarrow> stream_dev" where
  "sd_emit es d = d\<lparr>sd_out := sd_out d @ es\<rparr>"

text \<open>The constructor: \<open>contents\<close> is the file, \<open>None\<close> when it cannot be opened.\<close>

definition new_stream_dev ::
    "u64 \<Rightarrow> string \<Rightarrow> u8 list option \<Rightarrow> nat \<Rightarrow> int \<Rightarrow> u32 \<Rightarrow> bool \<Rightarrow> bool \<Rightarrow> stream_dev result" where
  "new_stream_dev base stream_file contents pace_bytes irq_line irq_vcpu irq_linked has_iface =
     (if stream_file = [] then Inl (Fatal ''stream_file is required'')
      else case contents of
        None \<Rightarrow> Inl (Fatal ''cannot open stream_file'')
      | Some stream \<Rightarrow>
          if stream = [] then Inl (Fatal ''stream_file is empty'')
          else if irq_line \<ge> 0 \<and> pace_bytes = 0 then Inl (Fatal ''irq_line requires pacing'')
          else if irq_line \<ge> 0 \<and> \<not> irq_linked then Inl (Fatal ''irq_line requires the irq port'')
          else if \<not> has_iface then Inl (Fatal ''no iface subcomponent'')
          else let budget = (if pace_bytes \<noteq> 0 then 0 else length stream)
               in Inr \<lparr>sd_base = base, sd_stream = stream, sd_pos = 0, sd_pace = pace_bytes, sd_budget = budget,
                       sd_avail = budget, sd_irq_line = irq_line, sd_irq_vcpu = irq_vcpu, sd_irq_pending = False, sd_out = []\<rparr>)"

definition raiseDataReadyIrq :: "stream_dev \<Rightarrow> stream_dev" where
  "raiseDataReadyIrq d =
     (if sd_irq_line d < 0 \<or> sd_irq_pending d then d
      else sd_emit [D_stat ''irqs_raised'' 1, D_irq (sd_irq_vcpu d) (word_of_int (sd_irq_line d)) 1] (d\<lparr>sd_irq_pending := True\<rparr>))"

definition stream_ackIrq :: "stream_dev \<Rightarrow> stream_dev" where
  "stream_ackIrq d =
     (if sd_irq_line d < 0 \<or> \<not> sd_irq_pending d then d
      else if sd_avail d > 0 then d
      else sd_emit [D_irq (sd_irq_vcpu d) (word_of_int (sd_irq_line d)) 0] (d\<lparr>sd_irq_pending := False\<rparr>))"

definition tickPace :: "stream_dev \<Rightarrow> stream_dev" where
  "tickPace d =
     (if sd_budget d < length (sd_stream d) then
        let rest = length (sd_stream d) - sd_budget d;
            n = (if rest > sd_pace d then sd_pace d else rest);
            d1 = sd_emit [D_stat ''paced_refills'' 1] (d\<lparr>sd_budget := sd_budget d + n, sd_avail := sd_avail d + n\<rparr>)
        in if n > 0 then raiseDataReadyIrq d1 else d1
      else d)"

text \<open>The loop that pops the bytes of one read: \<open>n\<close> popped so far, \<open>k\<close> still to pop.\<close>

fun stream_pop :: "nat \<Rightarrow> nat \<Rightarrow> u64 \<Rightarrow> stream_dev \<Rightarrow> u64 \<times> stream_dev" where
  "stream_pop n 0 v d = (v, d)"
| "stream_pop n (Suc k) v d =
     stream_pop (n + 1) k (v OR push_bit (8 * n) (ucast (sd_stream d ! sd_pos d))) (d\<lparr>sd_pos := sd_pos d + 1\<rparr>)"

definition stream_data :: "stream_dev \<Rightarrow> u64 \<times> stream_dev" where
  "stream_data d0 =
     (let d = sd_emit [D_stat ''data_reads'' 1] d0 in
      if sd_pos d \<ge> length (sd_stream d) then (0, sd_emit [D_stat ''underruns'' 1] d)
      else
        let rest = length (sd_stream d) - sd_pos d;
            want = (if rest > 4 then 4 else rest)
        in if sd_avail d < want then (0, sd_emit [D_stat ''not_ready_reads'' 1] d)
           else case stream_pop 0 want 0 d of
             (v, d1) \<Rightarrow>
               let d2 = sd_emit [D_stat ''bytes_delivered'' want] (d1\<lparr>sd_avail := sd_avail d1 - want\<rparr>)
               in (v, if sd_avail d2 = 0 then stream_ackIrq d2 else d2))"

definition stream_read :: "dev_read \<Rightarrow> stream_dev \<Rightarrow> stream_dev" where
  "stream_read rd d =
     (let offset = dr_addr rd - sd_base d;
          (v, d1) =
            (if offset = STREAM_STATUS then (of_nat (sd_avail d), sd_emit [D_stat ''status_polls'' 1] d)
             else if offset = STREAM_DATA then stream_data d
             else if offset = STREAM_SEQ then (of_nat (sd_pos d), d)
             else if offset = STREAM_EOS then (if sd_pos d \<ge> length (sd_stream d) then 1 else 0, d)
             else if offset = STREAM_IRQ_ACK then (if sd_irq_pending d then 1 else 0, d)
             else if offset = STREAM_CTRL then (0, sd_emit [D_stat ''wrong_direction_accesses'' 1] d)
             else (0, sd_emit [D_stat ''bad_offset_accesses'' 1] d))
      in sd_emit [D_read_resp (dr_id rd) (accelU64ToData v (dr_size rd))] d1)"

definition stream_rewind :: "stream_dev \<Rightarrow> stream_dev" where
  "stream_rewind d =
     (let budget = (if sd_pace d \<noteq> 0 then 0 else length (sd_stream d));
          d1 = d\<lparr>sd_pos := 0, sd_budget := budget, sd_avail := budget\<rparr>
      in sd_emit [D_stat ''rewinds'' 1] (if sd_avail d1 = 0 then stream_ackIrq d1 else raiseDataReadyIrq d1))"

definition stream_write :: "dev_write \<Rightarrow> stream_dev \<Rightarrow> stream_dev" where
  "stream_write wr d =
     (let offset = dw_addr wr - sd_base d;
          d1 =
            (if offset = STREAM_CTRL then (if accelDataToU64 (dw_data wr) = 1 then stream_rewind d else d)
             else if offset = STREAM_IRQ_ACK then (if accelDataToU64 (dw_data wr) \<noteq> 0 then stream_ackIrq d else d)
             else if offset = STREAM_STATUS \<or> offset = STREAM_DATA \<or> offset = STREAM_SEQ \<or> offset = STREAM_EOS
               then sd_emit [D_stat ''wrong_direction_accesses'' 1] d
             else sd_emit [D_stat ''bad_offset_accesses'' 1] d)
      in if \<not> dw_posted wr then sd_emit [D_write_resp (dw_id wr)] d1 else d1)"

section \<open>Sink device\<close>

text \<open>The capture file is a field; \<open>sf_open\<close> and \<open>sf_write\<close> are the outcomes of opening and writing it.\<close>

record sink_fs =
  sf_open :: bool
  sf_write :: bool

record sink_dev =
  sk_base :: u64
  sk_max_bytes :: u64
  sk_captured :: "u8 list"
  sk_flushed :: nat
  sk_accepted :: u64
  sk_dropped :: u64
  sk_file :: "u8 list"
  sk_out :: "dev_effect list"

definition SINK_STATUS :: u64 where "SINK_STATUS = 0x00"
definition SINK_DATA :: u64 where "SINK_DATA = 0x08"
definition SINK_SEQ :: u64 where "SINK_SEQ = 0x10"
definition SINK_CTRL :: u64 where "SINK_CTRL = 0x18"

definition sk_emit :: "dev_effect list \<Rightarrow> sink_dev \<Rightarrow> sink_dev" where
  "sk_emit es d = d\<lparr>sk_out := sk_out d @ es\<rparr>"

definition new_sink_dev :: "u64 \<Rightarrow> u64 \<Rightarrow> string \<Rightarrow> bool \<Rightarrow> bool \<Rightarrow> sink_dev result" where
  "new_sink_dev base max_bytes sink_file can_open has_iface =
     (if sink_file = [] then Inl (Fatal ''sink_file is required'')
      else if \<not> can_open then Inl (Fatal ''cannot write sink_file'')
      else if \<not> has_iface then Inl (Fatal ''no iface subcomponent'')
      else Inr \<lparr>sk_base = base, sk_max_bytes = max_bytes, sk_captured = [], sk_flushed = 0, sk_accepted = 0, sk_dropped = 0,
                sk_file = [], sk_out = []\<rparr>)"

definition writeFile :: "sink_fs \<Rightarrow> bool \<Rightarrow> sink_dev \<Rightarrow> sink_dev result" where
  "writeFile fs truncate_only d =
     (if \<not> sf_open fs then Inl (Fatal ''cannot write sink_file'')
      else if truncate_only then Inr (d\<lparr>sk_file := [], sk_flushed := 0\<rparr>)
      else if sk_flushed d > length (sk_captured d) then Inl (Fatal ''sink flush cursor exceeds capture'')
      else
        let pending = length (sk_captured d) - sk_flushed d
        in if pending \<noteq> 0 then
             if \<not> sf_write fs then Inl (Fatal ''failed writing sink_file'')
             else Inr (d\<lparr>sk_file := sk_file d @ take pending (drop (sk_flushed d) (sk_captured d)),
                          sk_flushed := length (sk_captured d)\<rparr>)
           else Inr d)"

definition sink_finish :: "sink_fs \<Rightarrow> sink_dev \<Rightarrow> sink_dev result" where
  "sink_finish fs d = writeFile fs False d"

definition sink_read :: "dev_read \<Rightarrow> sink_dev \<Rightarrow> sink_dev" where
  "sink_read rd d =
     (let offset = dr_addr rd - sk_base d;
          (v, d1) =
            (if offset = SINK_STATUS \<or> offset = SINK_SEQ then (sk_accepted d, d)
             else if offset = SINK_DATA \<or> offset = SINK_CTRL then (0, sk_emit [D_stat ''wrong_direction_accesses'' 1] d)
             else (0, sk_emit [D_stat ''bad_offset_accesses'' 1] d))
      in sk_emit [D_read_resp (dr_id rd) (accelU64ToData v (dr_size rd))] d1)"

fun sink_push :: "u8 list \<Rightarrow> sink_dev \<Rightarrow> sink_dev" where
  "sink_push [] d = d"
| "sink_push (b # bs) d =
     (if sk_max_bytes d \<noteq> 0 \<and> length (sk_captured d) \<ge> unat (sk_max_bytes d)
      then sink_push bs (sk_emit [D_stat ''dropped_bytes'' 1] (d\<lparr>sk_dropped := sk_dropped d + 1\<rparr>))
      else sink_push bs (sk_emit [D_stat ''bytes_accepted'' 1]
             (d\<lparr>sk_captured := sk_captured d @ [b], sk_accepted := sk_accepted d + 1\<rparr>)))"

definition sink_ctrl :: "sink_fs \<Rightarrow> u64 \<Rightarrow> sink_dev \<Rightarrow> sink_dev result" where
  "sink_ctrl fs v d =
     (if v = 1 then res_bind (writeFile fs False d) (\<lambda>d1. Inr (sk_emit [D_stat ''flushes'' 1] d1))
      else if v = 2 then
        res_bind (writeFile fs True (d\<lparr>sk_captured := [], sk_accepted := 0\<rparr>)) (\<lambda>d1. Inr (sk_emit [D_stat ''truncates'' 1] d1))
      else Inr d)"

definition sink_write :: "sink_fs \<Rightarrow> dev_write \<Rightarrow> sink_dev \<Rightarrow> sink_dev result" where
  "sink_write fs wr d =
     (let offset = dw_addr wr - sk_base d in
      res_bind
        (if offset = SINK_DATA then Inr (sink_push (dw_data wr) d)
         else if offset = SINK_CTRL then sink_ctrl fs (accelDataToU64 (dw_data wr)) d
         else if offset = SINK_STATUS \<or> offset = SINK_SEQ then Inr (sk_emit [D_stat ''wrong_direction_accesses'' 1] d)
         else Inr (sk_emit [D_stat ''bad_offset_accesses'' 1] d))
        (\<lambda>d1. Inr (if \<not> dw_posted wr then sk_emit [D_write_resp (dw_id wr)] d1 else d1)))"

section \<open>The stream in order\<close>

definition stream_inv :: "stream_dev \<Rightarrow> bool" where
  "stream_inv d \<longleftrightarrow> sd_pos d + sd_avail d = sd_budget d \<and> sd_budget d \<le> length (sd_stream d) \<and>
     (0 \<le> sd_irq_line d \<longrightarrow> sd_pace d \<noteq> 0) \<and> (sd_irq_pending d \<longleftrightarrow> 0 \<le> sd_irq_line d \<and> 0 < sd_avail d) \<and>
     irq_level (sd_out d) = of_bool (sd_irq_pending d)"

lemma sd_emit_simps [simp]:
  "sd_base (sd_emit es d) = sd_base d" "sd_stream (sd_emit es d) = sd_stream d" "sd_pos (sd_emit es d) = sd_pos d"
  "sd_pace (sd_emit es d) = sd_pace d" "sd_budget (sd_emit es d) = sd_budget d" "sd_avail (sd_emit es d) = sd_avail d"
  "sd_irq_line (sd_emit es d) = sd_irq_line d" "sd_irq_vcpu (sd_emit es d) = sd_irq_vcpu d"
  "sd_irq_pending (sd_emit es d) = sd_irq_pending d" "sd_out (sd_emit es d) = sd_out d @ es"
  by (simp_all add: sd_emit_def)

lemma stream_inv_emit [simp]:
  "stream_inv (sd_emit [D_stat n k] d) = stream_inv d" "stream_inv (sd_emit [D_read_resp r bs] d) = stream_inv d"
  "stream_inv (sd_emit [D_write_resp r] d) = stream_inv d"
  by (simp_all add: stream_inv_def)

text \<open>Raising and lowering re-establish the line after the amount of available data has changed.\<close>

definition stream_inv_data :: "stream_dev \<Rightarrow> bool" where
  "stream_inv_data d \<longleftrightarrow> sd_pos d + sd_avail d = sd_budget d \<and> sd_budget d \<le> length (sd_stream d) \<and>
     (0 \<le> sd_irq_line d \<longrightarrow> sd_pace d \<noteq> 0) \<and> (sd_irq_pending d \<longrightarrow> 0 \<le> sd_irq_line d) \<and>
     irq_level (sd_out d) = of_bool (sd_irq_pending d)"

lemma stream_inv_raise: "stream_inv_data d \<Longrightarrow> 0 < sd_avail d \<Longrightarrow> stream_inv (raiseDataReadyIrq d)"
  by (auto simp: stream_inv_data_def stream_inv_def raiseDataReadyIrq_def)

lemma stream_inv_ack: "stream_inv_data d \<Longrightarrow> sd_avail d = 0 \<Longrightarrow> stream_inv (stream_ackIrq d)"
  by (auto simp: stream_inv_data_def stream_inv_def stream_ackIrq_def)

lemma stream_ackIrq_keep: "stream_inv d \<Longrightarrow> stream_ackIrq d = d"
  by (auto simp: stream_inv_def stream_ackIrq_def)

lemma stream_inv_tick:
  assumes "stream_inv d"
  shows "stream_inv (tickPace d)"
proof (cases "sd_budget d < length (sd_stream d) \<and> sd_pace d \<noteq> 0")
  case True
  let ?n = "if length (sd_stream d) - sd_budget d > sd_pace d then sd_pace d else length (sd_stream d) - sd_budget d"
  let ?d = "sd_emit [D_stat ''paced_refills'' 1] (d\<lparr>sd_budget := sd_budget d + ?n, sd_avail := sd_avail d + ?n\<rparr>)"
  have "?n > 0" "tickPace d = raiseDataReadyIrq ?d"
    using True by (auto simp: tickPace_def Let_def)
  moreover have "stream_inv_data ?d"
    using assms True by (auto simp: stream_inv_def stream_inv_data_def)
  ultimately show ?thesis
    using stream_inv_raise [of ?d] by simp
next
  case False
  then show ?thesis
    using assms by (auto simp: tickPace_def Let_def)
qed

lemma stream_pop_eq:
  "sd_pos d + k \<le> length (sd_stream d) \<Longrightarrow> stream_pop n k v d =
     (v OR push_bit (8 * n) (accelDataToU64 (take k (drop (sd_pos d) (sd_stream d)))), d\<lparr>sd_pos := sd_pos d + k\<rparr>)"
proof (induction k arbitrary: n v d)
  case (Suc k)
  have "drop (sd_pos d) (sd_stream d) = sd_stream d ! sd_pos d # drop (Suc (sd_pos d)) (sd_stream d)"
    using Suc.prems by (simp add: Cons_nth_drop_Suc)
  then show ?case
    using Suc.prems Suc.IH [of "d\<lparr>sd_pos := sd_pos d + 1\<rparr>"]
    by (simp add: push_bit_or or.assoc or.commute or.left_commute add.commute)
qed simp

lemma take_accelU64ToData: "k \<le> n \<Longrightarrow> take k (accelU64ToData v n) = accelU64ToData v k"
  by (induction n arbitrary: k v; case_tac k) auto

text \<open>What a read of the data register pops and returns.\<close>

definition stream_want :: "stream_dev \<Rightarrow> nat" where
  "stream_want d = min 4 (length (sd_stream d) - sd_pos d)"

lemma stream_data_eq:
  assumes inv: "stream_inv d"
  shows "if sd_pos d < length (sd_stream d) \<and> stream_want d \<le> sd_avail d
    then fst (stream_data d) = accelDataToU64 (take (stream_want d) (drop (sd_pos d) (sd_stream d))) \<and>
      sd_pos (snd (stream_data d)) = sd_pos d + stream_want d \<and> stream_inv (snd (stream_data d)) \<and>
      sd_stream (snd (stream_data d)) = sd_stream d
    else fst (stream_data d) = 0 \<and> sd_pos (snd (stream_data d)) = sd_pos d \<and> stream_inv (snd (stream_data d)) \<and>
      sd_stream (snd (stream_data d)) = sd_stream d"
proof (cases "sd_pos d < length (sd_stream d) \<and> stream_want d \<le> sd_avail d")
  case True
  let ?w = "stream_want d"
  let ?d2 = "sd_emit [D_stat ''bytes_delivered'' ?w]
    ((sd_emit [D_stat ''data_reads'' 1] d)\<lparr>sd_pos := sd_pos d + ?w, sd_avail := sd_avail d - ?w\<rparr>)"
  have w: "(if length (sd_stream d) - sd_pos d > 4 then 4 else length (sd_stream d) - sd_pos d) = ?w"
    by (simp add: stream_want_def)
  have pop: "stream_pop 0 ?w 0 (sd_emit [D_stat ''data_reads'' 1] d) = (accelDataToU64 (take ?w (drop (sd_pos d) (sd_stream d))),
      (sd_emit [D_stat ''data_reads'' 1] d)\<lparr>sd_pos := sd_pos d + ?w\<rparr>)"
    using True by (subst stream_pop_eq) (auto simp: stream_want_def min_def)
  have eq: "stream_data d = (accelDataToU64 (take ?w (drop (sd_pos d) (sd_stream d))),
      if sd_avail d - ?w = 0 then stream_ackIrq ?d2 else ?d2)"
    using True pop unfolding stream_data_def Let_def sd_emit_simps w by (auto simp: not_le)
  have data: "stream_inv_data ?d2"
    using inv True by (auto simp: stream_inv_def stream_inv_data_def irq_level_def)
  then have "stream_inv (if sd_avail d - ?w = 0 then stream_ackIrq ?d2 else ?d2)"
    using stream_inv_ack [OF data] inv True by (auto simp: stream_inv_def irq_level_def)
  then show ?thesis
    using True eq by (simp add: stream_ackIrq_def)
next
  case False
  then have "stream_data d = (0, snd (stream_data d))" "stream_inv (snd (stream_data d))"
      "sd_pos (snd (stream_data d)) = sd_pos d" "sd_stream (snd (stream_data d)) = sd_stream d"
    using inv by (auto simp: stream_data_def stream_want_def Let_def min_def)
  then show ?thesis
    using False by (metis fst_conv)
qed

text \<open>A run, with the bytes the guest has received from the data register since the last rewind: as many bytes of a response as
  the sequence register advances. A guest reads the data register at 32 bits or more.\<close>

definition read_payload :: "dev_effect list \<Rightarrow> u8 list" where
  "read_payload es = (case last es of D_read_resp _ bs \<Rightarrow> bs | _ \<Rightarrow> [])"

inductive stream_run :: "u8 list \<Rightarrow> stream_dev \<Rightarrow> u8 list \<Rightarrow> bool" for contents where
  sr_new: "new_stream_dev base f (Some contents) pace line vcpu linked has_iface = Inr d \<Longrightarrow> stream_run contents d []"
| sr_tick: "stream_run contents d h \<Longrightarrow> sd_pace d \<noteq> 0 \<Longrightarrow> stream_run contents (tickPace d) h"
| sr_read: "stream_run contents d h \<Longrightarrow> dr_addr rd - sd_base d \<noteq> STREAM_DATA \<or> 4 \<le> dr_size rd \<Longrightarrow>
    stream_run contents (stream_read rd d) (h @ take (sd_pos (stream_read rd d) - sd_pos d) (read_payload (sd_out (stream_read rd d))))"
| sr_write: "stream_run contents d h \<Longrightarrow> stream_run contents (stream_write wr d) (take (sd_pos (stream_write wr d)) h)"

lemma stream_read_step:
  assumes inv: "stream_inv d" and size4: "dr_addr rd - sd_base d \<noteq> STREAM_DATA \<or> 4 \<le> dr_size rd"
  shows "stream_inv (stream_read rd d) \<and> sd_stream (stream_read rd d) = sd_stream d \<and>
    take (sd_pos d) (sd_stream d) @ take (sd_pos (stream_read rd d) - sd_pos d) (read_payload (sd_out (stream_read rd d)))
      = take (sd_pos (stream_read rd d)) (sd_stream d)"
proof (cases "dr_addr rd - sd_base d = STREAM_DATA")
  case True
  let ?w = "stream_want d" and ?bs = "take (stream_want d) (drop (sd_pos d) (sd_stream d))"
  have rd: "stream_read rd d = sd_emit [D_read_resp (dr_id rd) (accelU64ToData (fst (stream_data d)) (dr_size rd))] (snd (stream_data d))"
    using True by (simp add: stream_read_def Let_def STREAM_DATA_def STREAM_STATUS_def case_prod_beta)
  show ?thesis
  proof (cases "sd_pos d < length (sd_stream d) \<and> ?w \<le> sd_avail d")
    case True
    then have d: "fst (stream_data d) = accelDataToU64 ?bs" "sd_pos (snd (stream_data d)) = sd_pos d + ?w"
        "stream_inv (snd (stream_data d))" "sd_stream (snd (stream_data d)) = sd_stream d"
      using stream_data_eq [OF inv] by (simp_all only: if_True)
    have len: "length ?bs = ?w" "?w \<le> 4"
      by (auto simp: stream_want_def)
    have "take ?w (accelU64ToData (accelDataToU64 ?bs) (dr_size rd)) = accelU64ToData (accelDataToU64 ?bs) (length ?bs)"
      using len size4 \<open>dr_addr rd - sd_base d = STREAM_DATA\<close> by (subst take_accelU64ToData) auto
    also have "\<dots> = ?bs"
      using len by (intro le_roundtrip_bytes) simp
    finally show ?thesis
      using d by (simp add: rd read_payload_def take_add)
  next
    case False
    then show ?thesis
      using stream_data_eq [OF inv] by (simp add: rd)
  qed
next
  case False
  then have "stream_inv (stream_read rd d) \<and> sd_pos (stream_read rd d) = sd_pos d \<and> sd_stream (stream_read rd d) = sd_stream d"
    using inv by (auto simp: stream_read_def Let_def split: if_splits)
  then show ?thesis by simp
qed

lemma stream_rewind_step:
  assumes inv: "stream_inv d"
  shows "stream_inv (stream_rewind d) \<and> sd_pos (stream_rewind d) = 0 \<and> sd_stream (stream_rewind d) = sd_stream d"
proof -
  let ?b = "if sd_pace d \<noteq> 0 then 0 else length (sd_stream d)"
  let ?d = "d\<lparr>sd_pos := 0, sd_budget := ?b, sd_avail := ?b\<rparr>"
  have data: "stream_inv_data ?d"
    using inv by (auto simp: stream_inv_def stream_inv_data_def)
  have "stream_inv (if sd_avail ?d = 0 then stream_ackIrq ?d else raiseDataReadyIrq ?d)"
    using stream_inv_ack [OF data] stream_inv_raise [OF data] by simp
  then show ?thesis
    unfolding stream_rewind_def Let_def by (auto simp: stream_ackIrq_def raiseDataReadyIrq_def)
qed

lemma stream_write_step:
  assumes inv: "stream_inv d"
  shows "stream_inv (stream_write wr d) \<and> sd_pos (stream_write wr d) \<le> sd_pos d \<and> sd_stream (stream_write wr d) = sd_stream d"
  using inv stream_rewind_step [OF inv]
  by (auto simp: stream_write_def Let_def stream_ackIrq_keep [OF inv])


text \<open>A stream of six bytes released four at a time: one refill, then one read of the data register.\<close>

definition ex_stream :: stream_dev where
  "ex_stream = tickPace (projr (new_stream_dev 0x100 ''s'' (Some [1, 2, 3, 4, 5, 6]) 4 3 0 True True))"

definition ex_stream_read :: dev_read where
  "ex_stream_read = \<lparr>dr_id = 7, dr_addr = 0x108, dr_size = 4\<rparr>"


section \<open>The sink captures what is pushed\<close>

lemma sk_emit_simps [simp]:
  "sk_base (sk_emit es d) = sk_base d" "sk_max_bytes (sk_emit es d) = sk_max_bytes d"
  "sk_captured (sk_emit es d) = sk_captured d" "sk_flushed (sk_emit es d) = sk_flushed d"
  "sk_accepted (sk_emit es d) = sk_accepted d" "sk_dropped (sk_emit es d) = sk_dropped d" "sk_file (sk_emit es d) = sk_file d"
  by (simp_all add: sk_emit_def)

text \<open>A run with the bytes pushed to the data register since the last truncation.\<close>

inductive sink_run :: "u64 \<Rightarrow> sink_dev \<Rightarrow> u8 list \<Rightarrow> bool" for max_bytes where
  sk_new: "new_sink_dev base max_bytes f can_open has_iface = Inr d \<Longrightarrow> sink_run max_bytes d []"
| sk_read: "sink_run max_bytes d h \<Longrightarrow> sink_run max_bytes (sink_read rd d) h"
| sk_write: "sink_run max_bytes d h \<Longrightarrow> sink_write fs wr d = Inr d' \<Longrightarrow>
    sink_run max_bytes d'
      (if dw_addr wr - sk_base d = SINK_DATA then h @ dw_data wr
       else if dw_addr wr - sk_base d = SINK_CTRL \<and> accelDataToU64 (dw_data wr) = 2 then [] else h)"

definition sink_cap :: "u64 \<Rightarrow> u8 list \<Rightarrow> u8 list" where
  "sink_cap max_bytes h = (if max_bytes = 0 then h else take (unat max_bytes) h)"

definition sink_inv :: "u64 \<Rightarrow> sink_dev \<Rightarrow> u8 list \<Rightarrow> bool" where
  "sink_inv max_bytes d h \<longleftrightarrow> sk_max_bytes d = max_bytes \<and> sk_captured d = sink_cap max_bytes h \<and>
     sk_accepted d = of_nat (length (sk_captured d)) \<and> sk_file d = take (sk_flushed d) (sk_captured d) \<and>
     sk_flushed d \<le> length (sk_captured d)"

lemma sink_inv_push: "sink_inv m d h \<Longrightarrow> sink_inv m (sink_push bs d) (h @ bs)"
proof (induction bs arbitrary: d h)
  case (Cons b bs)
  have "sink_inv m (if sk_max_bytes d \<noteq> 0 \<and> length (sk_captured d) \<ge> unat (sk_max_bytes d)
      then sk_emit [D_stat ''dropped_bytes'' 1] (d\<lparr>sk_dropped := sk_dropped d + 1\<rparr>)
      else sk_emit [D_stat ''bytes_accepted'' 1] (d\<lparr>sk_captured := sk_captured d @ [b], sk_accepted := sk_accepted d + 1\<rparr>)) (h @ [b])"
    using Cons.prems by (auto simp: sink_inv_def sink_cap_def split: if_splits)
  from Cons.IH [OF this] show ?case
    by (auto split: if_splits)
qed simp

lemma writeFile_cases:
  assumes "writeFile fs trunc d = Inr d'" "sk_flushed d \<le> length (sk_captured d)" "sk_file d = take (sk_flushed d) (sk_captured d)"
  shows "sk_captured d' = sk_captured d \<and> sk_accepted d' = sk_accepted d \<and> sk_max_bytes d' = sk_max_bytes d \<and>
    (if trunc then sk_file d' = [] \<and> sk_flushed d' = 0
     else sk_file d' = sk_captured d \<and> sk_flushed d' = length (sk_captured d))"
  using assms by (auto simp: writeFile_def Let_def split: if_splits)

lemma sink_inv_ctrl:
  assumes "sink_inv m d h" "sink_ctrl fs v d = Inr d'"
  shows "sink_inv m d' (if v = 2 then [] else h)"
proof -
  consider d1 where "v = 1" "writeFile fs False d = Inr d1" "d' = sk_emit [D_stat ''flushes'' 1] d1"
    | d1 where "v = 2" "writeFile fs True (d\<lparr>sk_captured := [], sk_accepted := 0\<rparr>) = Inr d1" "d' = sk_emit [D_stat ''truncates'' 1] d1"
    | "v \<noteq> 1" "v \<noteq> 2" "d' = d"
    using assms(2) by (auto simp: sink_ctrl_def res_bind_Inr_iff split: if_splits)
  then show ?thesis
  proof cases
    case 1
    then show ?thesis
      using writeFile_cases [OF 1(2)] assms(1) by (auto simp: sink_inv_def)
  next
    case 2
    then show ?thesis
      using assms(1) by (auto simp: writeFile_def sink_inv_def sink_cap_def split: if_splits)
  qed (use assms(1) in simp)
qed

lemma sink_inv_emit [simp]: "sink_inv m (sk_emit es d) h = sink_inv m d h"
  by (simp add: sink_inv_def)



end
