(* ===== verification/Quetz_Event_Writer.thy ===== *)
theory Quetz_Event_Writer
  imports Quetz_Cstring
begin

text \<open>
  The lifecycle event file of the accelerator device, \<open>src/quetz_accelerator_event_writer.h\<close>: one JSON record per event, with
  a running sequence number, flushed before the caller goes on. The outcome of a flush is a parameter of the writer.
\<close>

section \<open>Text\<close>

definition json_key :: "string \<Rightarrow> string" where
  "json_key k = CHR 0x22 # k @ [CHR 0x22, CHR 0x3A]"

definition json_str :: "string \<Rightarrow> string" where
  "json_str v = CHR 0x22 # v @ [CHR 0x22]"

definition json_bool :: "bool \<Rightarrow> string" where
  "json_bool b = (if b then ''true'' else ''false'')"

definition isLowerOrDigit :: "char \<Rightarrow> bool" where
  "isLowerOrDigit c \<longleftrightarrow> (let n = of_char c :: nat in 97 \<le> n \<and> n \<le> 122 \<or> 48 \<le> n \<and> n \<le> 57)"

definition isIdentifier :: "string \<Rightarrow> bool" where
  "isIdentifier v \<longleftrightarrow> v \<noteq> [] \<and> isLowerOrDigit (hd v) \<and>
     list_all (\<lambda>c. isLowerOrDigit c \<or> c = CHR ''.'' \<or> c = CHR ''_'' \<or> c = CHR ''-'') v"

section \<open>The writer\<close>

record event_writer =
  ew_file :: string
  ew_source :: string
  ew_operation :: string
  ew_sequence :: u64
  ew_enabled :: bool
  ew_flush_ok :: "u64 \<Rightarrow> bool"

definition new_event_writer :: "(u64 \<Rightarrow> bool) \<Rightarrow> event_writer" where
  "new_event_writer ok = \<lparr>ew_file = [], ew_source = [], ew_operation = [], ew_sequence = 0, ew_enabled = False, ew_flush_ok = ok\<rparr>"

definition ew_configure :: "string \<Rightarrow> string \<Rightarrow> string \<Rightarrow> bool \<Rightarrow> event_writer \<Rightarrow> event_writer result" where
  "ew_configure path source operation can_open w =
     (if path = [] then Inr w
      else if \<not> isIdentifier source then Inl (Fatal ''event_source must match the identifier pattern'')
      else if \<not> isIdentifier operation then Inl (Fatal ''event_operation must match the identifier pattern'')
      else if \<not> can_open then Inl (Fatal ''cannot open accelerator event file'')
      else Inr (w\<lparr>ew_file := [], ew_source := source, ew_operation := operation, ew_sequence := 0, ew_enabled := True\<rparr>))"

text \<open>One record; a code, a checkpoint and an observer add their fields.\<close>

definition event_record ::
    "event_writer \<Rightarrow> string \<Rightarrow> u64 \<Rightarrow> u64 \<Rightarrow> string \<Rightarrow> bool \<Rightarrow> u32 \<Rightarrow> bool \<Rightarrow> string \<Rightarrow> u32 \<Rightarrow> u32 \<Rightarrow> string" where
  "event_record w kind sim_time_ns operation_id code checkpoint val busy observer line vcpu =
     ''{'' @ json_key ''schema_version'' @ ''1,'' @ json_key ''sequence'' @ dec (unat (ew_sequence w)) @
     '','' @ json_key ''sim_time_ns'' @ dec (unat sim_time_ns) @
     '','' @ json_key ''source'' @ json_str (ew_source w) @
     '','' @ json_key ''kind'' @ json_str kind @
     '','' @ json_key ''payload'' @ ''{'' @ json_key ''operation_id'' @ dec (unat operation_id) @
     '','' @ json_key ''operation'' @ json_str (ew_operation w) @
     (if code \<noteq> [] then '','' @ json_key ''code'' @ json_str code else []) @
     (if checkpoint then '','' @ json_key ''value'' @ dec (unat val) @ '','' @ json_key ''busy'' @ json_bool busy else []) @
     (if observer \<noteq> [] then '','' @ json_key ''line'' @ dec (unat line) @ '','' @ json_key ''vcpu'' @ dec (unat vcpu) @
        '','' @ json_key ''value'' @ dec (unat val) @ '','' @ json_key ''pending'' @ json_bool busy @
        '','' @ json_key ''observer'' @ json_str observer else []) @
     ''}}'' @ [CHR 0x0A]"

definition ew_emit ::
    "string \<Rightarrow> u64 \<Rightarrow> u64 \<Rightarrow> string \<Rightarrow> bool \<Rightarrow> u32 \<Rightarrow> bool \<Rightarrow> string \<Rightarrow> u32 \<Rightarrow> u32 \<Rightarrow> event_writer \<Rightarrow> event_writer result" where
  "ew_emit kind sim_time_ns operation_id code checkpoint val busy observer line vcpu w =
     (if \<not> ew_enabled w then Inr w
      else if \<not> ew_flush_ok w (ew_sequence w) then Inl (Fatal ''failed to write and flush accelerator event record'')
      else Inr (w\<lparr>ew_file := ew_file w @ event_record w kind sim_time_ns operation_id code checkpoint val busy observer line vcpu,
                  ew_sequence := ew_sequence w + 1\<rparr>))"

definition ew_emitRequested :: "u64 \<Rightarrow> u64 \<Rightarrow> event_writer \<Rightarrow> event_writer result" where
  "ew_emitRequested t op = ew_emit ''accelerator-requested'' t op [] False 0 False [] 0 0"

definition ew_emitCompleted :: "u64 \<Rightarrow> u64 \<Rightarrow> event_writer \<Rightarrow> event_writer result" where
  "ew_emitCompleted t op = ew_emit ''accelerator-completed'' t op [] False 0 False [] 0 0"

definition ew_emitError :: "u64 \<Rightarrow> u64 \<Rightarrow> string \<Rightarrow> event_writer \<Rightarrow> event_writer result" where
  "ew_emitError t op code w =
     (if \<not> isIdentifier code then Inl (Fatal ''accelerator error code must be a schema identifier'')
      else ew_emit ''accelerator-error'' t op code False 0 False [] 0 0 w)"

definition ew_emitCpuCheckpoint :: "u64 \<Rightarrow> u64 \<Rightarrow> u32 \<Rightarrow> bool \<Rightarrow> event_writer \<Rightarrow> event_writer result" where
  "ew_emitCpuCheckpoint t op val busy = ew_emit ''cpu-checkpoint'' t op [] True val busy [] 0 0"

definition ew_emitIrq :: "string \<Rightarrow> u64 \<Rightarrow> u64 \<Rightarrow> u32 \<Rightarrow> u32 \<Rightarrow> u32 \<Rightarrow> bool \<Rightarrow> string \<Rightarrow> event_writer \<Rightarrow> event_writer result" where
  "ew_emitIrq kind t op line vcpu val pending observer w =
     (if (kind \<noteq> ''irq-asserted'' \<and> kind \<noteq> ''irq-delivered'' \<and> kind \<noteq> ''irq-acknowledged'' \<and>
          kind \<noteq> ''irq-deasserted'' \<and> kind \<noteq> ''irq-settled'') \<or> \<not> isIdentifier observer
      then Inl (Fatal ''invalid IRQ event kind or observer'')
      else ew_emit kind t op [] False val pending observer line vcpu w)"

end
