(* ===== verification/Quetz_Kernel.thy ===== *)
theory Quetz_Kernel
  imports Quetz_Memory_Span
begin

text \<open>
  The compute kernels of the accelerator device: the interface \<open>QuetzKernel\<close> of \<open>src/quetz_kernel_api.h\<close>, with its contract
  as a locale, and the saturating 16-bit scale-and-offset kernel (\<open>src/quetz_scale_offset.h\<close>,
  \<open>src/quetz_scale_offset_kernel.cc\<close>), which fulfils it.
\<close>

section \<open>The kernel interface\<close>

definition kMaxKernelInputBytes :: u64 where
  "kMaxKernelInputBytes = push_bit 20 256"

record kernel_args =
  ka_src_addr :: u64
  ka_dst_addr :: u64
  ka_arg2 :: u64
  ka_arg3 :: u64

text \<open>A loaded kernel: \<open>inputBytes\<close>, where 0 rejects the arguments, and \<open>compute\<close>, which gives the latency and the output; an
  access outside a buffer is an error.\<close>

record quetz_kernel =
  k_inputBytes :: "kernel_args \<Rightarrow> u64"
  k_compute :: "kernel_args \<Rightarrow> u8 list \<Rightarrow> (u64 \<times> u8 list) result"

text \<open>The contract: the input is bounded, and on an input of the announced size the kernel produces a non-empty output
  no larger than the bound, without leaving its buffers.\<close>

locale kernel_contract =
  fixes k :: quetz_kernel
  assumes input_bound: "k_inputBytes k a \<le> kMaxKernelInputBytes"
    and compute_ok: "k_inputBytes k a \<noteq> 0 \<Longrightarrow> length bs = unat (k_inputBytes k a) \<Longrightarrow>
      \<exists>lat out. k_compute k a bs = Inr (lat, out) \<and> out \<noteq> [] \<and> length out \<le> unat kMaxKernelInputBytes"
begin

lemma compute_length_64:
  "k_inputBytes k a \<noteq> 0 \<Longrightarrow> length bs = unat (k_inputBytes k a) \<Longrightarrow> k_compute k a bs = Inr (lat, out) \<Longrightarrow> length out < 2 ^ 64"
  using compute_ok [of a bs] by (auto simp: kMaxKernelInputBytes_def)

end

section \<open>Scale and offset\<close>

definition quetz_scale_offset_sat16 :: "16 word \<Rightarrow> 16 word \<Rightarrow> 16 word \<Rightarrow> 16 word" where
  "quetz_scale_offset_sat16 x scale offset =
     (let v = (scast x :: 32 word) * scast scale + scast offset in
      if sint v > 32767 then 32767
      else if sint v < - 32768 then word_of_int (- 32768)
      else ucast v)"

definition so_inputBytes :: "kernel_args \<Rightarrow> u64" where
  "so_inputBytes a =
     (if ka_arg2 a = 0 then 0
      else if ka_arg2 a > kMaxKernelInputBytes div 2 then 0
      else ka_arg2 a * 2)"

text \<open>Checked vector accesses.\<close>

definition vec_get :: "'a list \<Rightarrow> nat \<Rightarrow> 'a result" where
  "vec_get xs i = (if i < length xs then Inr (xs ! i) else Inl (Out_of_range ''vector''))"

definition vec_set :: "'a list \<Rightarrow> nat \<Rightarrow> 'a \<Rightarrow> 'a list result" where
  "vec_set xs i b = (if i < length xs then Inr (xs[i := b]) else Inl (Out_of_range ''vector''))"

definition so_sample :: "nat \<Rightarrow> nat \<Rightarrow> 16 word \<Rightarrow> 16 word \<Rightarrow> u8 list \<Rightarrow> nat \<Rightarrow> u8 list \<Rightarrow> u8 list result" where
  "so_sample lo hi scale offset input i out =
     res_bind (vec_get input (2 * i + lo)) (\<lambda>bl.
     res_bind (vec_get input (2 * i + hi)) (\<lambda>bh.
       let s = (ucast bl :: 16 word) OR push_bit 8 (ucast bh);
           r = quetz_scale_offset_sat16 s scale offset
       in res_bind (vec_set out (2 * i + lo) (ucast r)) (\<lambda>out1.
          vec_set out1 (2 * i + hi) (ucast (drop_bit 8 r)))))"

text \<open>The loop over the samples from \<open>i\<close> on, \<open>k\<close> of them left.\<close>

fun so_loop :: "nat \<Rightarrow> nat \<Rightarrow> 16 word \<Rightarrow> 16 word \<Rightarrow> u8 list \<Rightarrow> nat \<Rightarrow> nat \<Rightarrow> u8 list \<Rightarrow> u8 list result" where
  "so_loop lo hi scale offset input i 0 out = Inr out"
| "so_loop lo hi scale offset input i (Suc k) out =
     res_bind (so_sample lo hi scale offset input i out) (so_loop lo hi scale offset input (i + 1) k)"

definition so_compute :: "u64 \<Rightarrow> bool \<Rightarrow> kernel_args \<Rightarrow> u8 list \<Rightarrow> (u64 \<times> u8 list) result" where
  "so_compute latency_coeff big_endian a input =
     (let scale = ucast (ka_arg3 a); offset = ucast (drop_bit 16 (ka_arg3 a));
          lo = (if big_endian then 1 else 0); hi = 1 - lo
      in res_bind (so_loop lo hi scale offset input 0 (unat (ka_arg2 a)) (replicate (length input) 0))
           (\<lambda>out. Inr (latency_coeff * ka_arg2 a, out)))"

definition ScaleOffsetKernel :: "u64 \<Rightarrow> bool \<Rightarrow> quetz_kernel" where
  "ScaleOffsetKernel latency_coeff big_endian = \<lparr>k_inputBytes = so_inputBytes, k_compute = so_compute latency_coeff big_endian\<rparr>"

section \<open>Arithmetic\<close>

text \<open>The 32-bit intermediate never overflows, so the result is the exact value cut to 16 bits.\<close>

lemma sint_16_bounds: "- 32768 \<le> sint (x :: 16 word)" "sint (x :: 16 word) \<le> 32767"
  using sint_range_size [of x] by (simp_all add: word_size)

lemma sint_of_int_16: "- 32768 \<le> k \<Longrightarrow> k \<le> 32767 \<Longrightarrow> sint (word_of_int k :: 16 word) = k"
  by (simp only: signed_of_int) (simp add: signed_take_bit_int_eq_self)

lemma sat16_exact:
  "sint (quetz_scale_offset_sat16 x scale offset) =
     max (- 32768) (min 32767 (sint x * sint scale + sint offset))"
proof -
  let ?v = "(scast x :: 32 word) * scast scale + scast offset"
  have "\<bar>sint x * sint scale\<bar> \<le> 32768 * 32768"
    unfolding abs_mult using sint_16_bounds [of x] sint_16_bounds [of scale] by (intro mult_mono) auto
  then have range: "- (2 ^ 31) \<le> sint x * sint scale + sint offset" "sint x * sint scale + sint offset < 2 ^ 31"
    using sint_16_bounds [of offset] by auto
  have "?v = word_of_int (sint x * sint scale + sint offset)"
    by simp
  then have v: "sint ?v = sint x * sint scale + sint offset"
    using range by (simp only: signed_of_int) (simp add: signed_take_bit_int_eq_self)
  have cut: "sint (ucast ?v :: 16 word) = sint ?v" if "- 32768 \<le> sint ?v" "sint ?v \<le> 32767"
  proof -
    have "(ucast ?v :: 16 word) = word_of_int (sint ?v)"
      by (rule bit_word_eqI) (auto simp: bit_simps min_def)
    then show ?thesis
      using that by (simp only: sint_of_int_16)
  qed
  show ?thesis
    unfolding quetz_scale_offset_sat16_def Let_def using cut by (auto simp: v)
qed

section \<open>The kernel\<close>

definition sample_at :: "nat \<Rightarrow> nat \<Rightarrow> u8 list \<Rightarrow> nat \<Rightarrow> 16 word" where
  "sample_at lo hi xs i = ucast (xs ! (2 * i + lo)) OR push_bit 8 (ucast (xs ! (2 * i + hi)))"

lemma bytes_of_16: "(ucast (ucast (r :: 16 word) :: u8) :: 16 word) OR push_bit 8 (ucast (ucast (drop_bit 8 r) :: u8)) = r"
  by (rule bit_word_eqI) (auto simp: bit_simps)

lemma so_sample_spec:
  assumes lanes: "lo \<le> 1" "hi = 1 - lo" and i: "2 * i + 1 < length input" and len: "length out = length input"
  obtains out' where "so_sample lo hi scale offset input i out = Inr out'" "length out' = length out"
    "sample_at lo hi out' i = quetz_scale_offset_sat16 (sample_at lo hi input i) scale offset"
    "\<And>m. m \<noteq> 2 * i \<Longrightarrow> m \<noteq> 2 * i + 1 \<Longrightarrow> out' ! m = out ! m"
proof -
  let ?r = "quetz_scale_offset_sat16 (sample_at lo hi input i) scale offset"
  let ?out = "out[2 * i + lo := ucast ?r, 2 * i + hi := ucast (drop_bit 8 ?r)]"
  have cases: "lo = 0 \<and> hi = 1 \<or> lo = 1 \<and> hi = 0"
    using lanes by auto
  have "so_sample lo hi scale offset input i out = Inr ?out"
    using cases i len by (auto simp: so_sample_def vec_get_def vec_set_def sample_at_def Let_def)
  moreover have "sample_at lo hi ?out i = ?r"
    using cases i len by (auto simp: sample_at_def [of lo hi ?out i] bytes_of_16)
  moreover have "?out ! m = out ! m" if "m \<noteq> 2 * i" "m \<noteq> 2 * i + 1" for m
    using cases that by auto
  ultimately show thesis
    using that [of ?out] by simp
qed

lemma so_loop_spec:
  assumes lanes: "lo \<le> 1" "hi = 1 - lo"
  shows "2 * (i + k) \<le> length input \<Longrightarrow> length out = length input \<Longrightarrow>
    \<exists>out'. so_loop lo hi scale offset input i k out = Inr out' \<and> length out' = length out \<and>
      (\<forall>j. i \<le> j \<and> j < i + k \<longrightarrow> sample_at lo hi out' j = quetz_scale_offset_sat16 (sample_at lo hi input j) scale offset) \<and>
      (\<forall>m < 2 * i. out' ! m = out ! m)"
proof (induction k arbitrary: i out)
  case (Suc k)
  obtain o1 where o1: "so_sample lo hi scale offset input i out = Inr o1" "length o1 = length out"
      "sample_at lo hi o1 i = quetz_scale_offset_sat16 (sample_at lo hi input i) scale offset"
      "\<And>m. m \<noteq> 2 * i \<Longrightarrow> m \<noteq> 2 * i + 1 \<Longrightarrow> o1 ! m = out ! m"
    using so_sample_spec [OF lanes _ Suc.prems(2), of i] Suc.prems(1) by auto
  obtain o2 where o2: "so_loop lo hi scale offset input (i + 1) k o1 = Inr o2" "length o2 = length o1"
      "\<forall>j. i + 1 \<le> j \<and> j < i + 1 + k \<longrightarrow> sample_at lo hi o2 j = quetz_scale_offset_sat16 (sample_at lo hi input j) scale offset"
      "\<forall>m < 2 * (i + 1). o2 ! m = o1 ! m"
    using Suc.IH [of "i + 1" o1] Suc.prems o1(2) by auto
  have "sample_at lo hi o2 i = sample_at lo hi o1 i"
    using o2(4) lanes by (auto simp: sample_at_def)
  then have "\<forall>j. i \<le> j \<and> j < i + Suc k \<longrightarrow> sample_at lo hi o2 j = quetz_scale_offset_sat16 (sample_at lo hi input j) scale offset"
    using o1(3) o2(3) by (metis Suc_eq_plus1 Suc_leI add_Suc_shift le_neq_implies_less)
  moreover have "\<forall>m < 2 * i. o2 ! m = out ! m"
    using o2(4) o1(4) by simp
  ultimately show ?case
    using o1(1,2) o2(1,2) by auto
qed auto

lemma so_inputBytes_unat:
  assumes "so_inputBytes a \<noteq> 0"
  shows "unat (so_inputBytes a) = 2 * unat (ka_arg2 a)" "so_inputBytes a \<le> kMaxKernelInputBytes"
proof -
  have le: "ka_arg2 a \<le> 0x8000000"
    using assms by (auto simp: so_inputBytes_def kMaxKernelInputBytes_def split: if_splits)
  then have "unat (ka_arg2 a) \<le> 0x8000000"
    by (simp add: word_le_nat_alt)
  moreover have "so_inputBytes a = ka_arg2 a * 2"
    using assms by (auto simp: so_inputBytes_def split: if_splits)
  ultimately show "unat (so_inputBytes a) = 2 * unat (ka_arg2 a)" "so_inputBytes a \<le> kMaxKernelInputBytes"
    by (simp_all add: unat_mult_lem [THEN iffD1] word_le_nat_alt kMaxKernelInputBytes_def)
qed

text \<open>Every sample of the output is the saturated transform of the sample of the input, in the configured byte order.\<close>

lemma so_compute_spec:
  assumes "so_inputBytes a \<noteq> 0" "length input = unat (so_inputBytes a)" "lo = (if be then 1 else (0 :: nat))"
  shows "\<exists>out. so_compute coeff be a input = Inr (coeff * ka_arg2 a, out) \<and> length out = length input \<and>
    (\<forall>j < unat (ka_arg2 a). sample_at lo (1 - lo) out j =
       quetz_scale_offset_sat16 (sample_at lo (1 - lo) input j) (ucast (ka_arg3 a)) (ucast (drop_bit 16 (ka_arg3 a))))"
proof -
  have "2 * (0 + unat (ka_arg2 a)) \<le> length input"
    using assms(1,2) so_inputBytes_unat(1) by simp
  from so_loop_spec [OF _ refl this, of lo "replicate (length input) 0" "ucast (ka_arg3 a)" "ucast (drop_bit 16 (ka_arg3 a))"]
  show ?thesis
    by (auto simp: so_compute_def Let_def assms(3))
qed

interpretation so: kernel_contract "ScaleOffsetKernel coeff be" for coeff be
proof
  fix a :: kernel_args and bs :: "u8 list"
  show "k_inputBytes (ScaleOffsetKernel coeff be) a \<le> kMaxKernelInputBytes"
    using so_inputBytes_unat(2) [of a] by (cases "so_inputBytes a = 0") (auto simp: ScaleOffsetKernel_def)
  assume nz: "k_inputBytes (ScaleOffsetKernel coeff be) a \<noteq> 0"
    and len: "length bs = unat (k_inputBytes (ScaleOffsetKernel coeff be) a)"
  then obtain out where out: "so_compute coeff be a bs = Inr (coeff * ka_arg2 a, out)" "length out = length bs"
    using so_compute_spec [OF _ _ refl, of a bs coeff be] by (auto simp: ScaleOffsetKernel_def)
  have "unat (so_inputBytes a) \<le> unat kMaxKernelInputBytes"
    using so_inputBytes_unat(2) [of a] nz by (simp add: ScaleOffsetKernel_def word_le_nat_alt)
  then show "\<exists>lat out. k_compute (ScaleOffsetKernel coeff be) a bs = Inr (lat, out) \<and> out \<noteq> [] \<and>
      length out \<le> unat kMaxKernelInputBytes"
    using out nz len by (auto simp: ScaleOffsetKernel_def unat_eq_0)
qed

end
