(* ===== verification/Quetz_Gpu_Device.thy ===== *)
theory Quetz_Gpu_Device
  imports Quetz_Io_Devices Quetz_Event_Writer Quetz_Kernel
begin

text \<open>
  The accelerator device, \<open>src/quetz_gpu_device.cc\<close>: its registers, the latency model with its queue of launches, the
  kernel operation (DMA-read the input, compute, stay busy, DMA-write the result, retire), the completion interrupt with
  its event count, the lifecycle events and the claim on the end of the simulation. A guest access, a memory response and a
  clock tick are operations on the state; what the device sends is a trace of effects.
\<close>

section \<open>State\<close>

record gpu_cfg =
  gc_base :: u64
  gc_kernel_latency :: u64
  gc_blocking :: bool
  gc_checkpoints :: bool
  gc_irq_witnesses :: bool
  gc_irq_line :: int
  gc_irq_vcpu :: u32
  gc_range_start :: u64
  gc_range_end :: u64
  gc_line_size :: u64
  gc_kernel :: "quetz_kernel option"

datatype op_phase = OP_IDLE | OP_READING | OP_WRITING

text \<open>A held response is the identifier of its request; \<open>gd_time\<close> is the simulated time the environment shows;
  memory requests take consecutive identifiers from \<open>gd_next_id\<close>.\<close>

record gpu_dev =
  gd_cfg :: gpu_cfg
  gd_clk :: u64
  gd_busy_until :: u64
  gd_kernel_id :: u64
  gd_submit_id :: u64
  gd_latency_override :: u64
  gd_holding :: bool
  gd_deferred :: "nat option"
  gd_pending :: "u64 list"
  gd_irq_pending :: bool
  gd_irq_events :: u64
  gd_arg_regs :: "u64 list"
  gd_op_args :: kernel_args
  gd_phase :: op_phase
  gd_in :: "u8 list"
  gd_outb :: "u8 list"
  gd_in_bytes :: u64
  gd_outstanding :: u64
  gd_next_off :: u64
  gd_writer :: event_writer
  gd_op_resp :: "nat option"
  gd_req_off :: "nat \<Rightarrow> u64 option"
  gd_next_id :: nat
  gd_time :: u64
  gd_out :: "dev_effect list"

definition kOpDmaChunk :: u64 where "kOpDmaChunk = 64"
definition kMaxOpDmaOutstanding :: u64 where "kMaxOpDmaOutstanding = 64"
definition kMaxPendingLaunches :: nat where "kMaxPendingLaunches = 8"

definition REG_DOORBELL :: u64 where "REG_DOORBELL = 0x00"
definition REG_STATUS :: u64 where "REG_STATUS = 0x08"
definition REG_KERNEL_ID :: u64 where "REG_KERNEL_ID = 0x10"
definition REG_LATENCY_OVERRIDE :: u64 where "REG_LATENCY_OVERRIDE = 0x18"
definition REG_TICKET :: u64 where "REG_TICKET = 0x20"
definition REG_RESULT :: u64 where "REG_RESULT = 0x28"
definition REG_ARG0 :: u64 where "REG_ARG0 = 0x30"
definition REG_ARG1 :: u64 where "REG_ARG1 = 0x38"
definition REG_ARG2 :: u64 where "REG_ARG2 = 0x40"
definition REG_ARG3 :: u64 where "REG_ARG3 = 0x48"
definition REG_IRQ_ACK :: u64 where "REG_IRQ_ACK = 0x50"
definition REG_CPU_CHECKPOINT :: u64 where "REG_CPU_CHECKPOINT = 0x60"
definition REG_ISR_ENTRY :: u64 where "REG_ISR_ENTRY = 0x68"
definition REG_IRQ_SETTLED :: u64 where "REG_IRQ_SETTLED = 0x70"

lemmas gpu_reg_defs = REG_DOORBELL_def REG_STATUS_def REG_KERNEL_ID_def REG_LATENCY_OVERRIDE_def REG_TICKET_def
  REG_RESULT_def REG_ARG0_def REG_ARG1_def REG_ARG2_def REG_ARG3_def REG_IRQ_ACK_def REG_CPU_CHECKPOINT_def
  REG_ISR_ENTRY_def REG_IRQ_SETTLED_def

text \<open>What the constructor reads from its parameters and finds in its slots.\<close>

record gpu_params =
  gp_cfg :: gpu_cfg
  gp_dma_bytes :: u64
  gp_clock_ok :: bool
  gp_has_iface :: bool
  gp_has_mem_iface :: bool
  gp_event_file :: string
  gp_event_source :: string
  gp_event_operation :: string
  gp_event_open :: bool
  gp_event_flush :: "u64 \<Rightarrow> bool"
  gp_irq_linked :: bool

definition gd_emit :: "dev_effect list \<Rightarrow> gpu_dev \<Rightarrow> gpu_dev" where
  "gd_emit es g = g\<lparr>gd_out := gd_out g @ es\<rparr>"

definition new_gpu_dev :: "gpu_params \<Rightarrow> gpu_dev result" where
  "new_gpu_dev p =
     (let c = gp_cfg p in
      if gp_dma_bytes p \<noteq> 0 then Inl (Fatal ''dma_bytes_per_kernel is not supported'')
      else if gc_range_start c \<noteq> 0 \<and> gc_range_end c = 0 then Inl (Fatal ''dma_range_start without dma_range_end'')
      else if gc_range_end c \<noteq> 0 \<and> gc_range_end c < gc_range_start c then Inl (Fatal ''dma_range_end below dma_range_start'')
      else if \<not> gp_clock_ok p then Inl (Fatal ''invalid clock'')
      else if \<not> gp_has_iface p then Inl (Fatal ''no iface subcomponent'')
      else if gc_kernel c \<noteq> None \<and> \<not> gp_has_mem_iface p then Inl (Fatal ''a kernel requires a mem_iface'')
      else if gp_event_file p \<noteq> [] \<and> gc_kernel c = None then Inl (Fatal ''event_file requires a kernel'')
      else
        res_bind (ew_configure (gp_event_file p) (gp_event_source p) (gp_event_operation p) (gp_event_open p)
                    (new_event_writer (gp_event_flush p))) (\<lambda>w.
          if gc_irq_witnesses c \<and> (gc_irq_line c < 0 \<or> gc_kernel c = None \<or> \<not> ew_enabled w)
            then Inl (Fatal ''IRQ witnesses require a kernel, IRQ line and event file'')
          else if gc_irq_line c \<ge> 0 \<and> \<not> gp_irq_linked p then Inl (Fatal ''irq_line requires the irq port'')
          else Inr \<lparr>gd_cfg = c, gd_clk = 0, gd_busy_until = 0, gd_kernel_id = 0, gd_submit_id = 0, gd_latency_override = 0,
                    gd_holding = True, gd_deferred = None, gd_pending = [], gd_irq_pending = False, gd_irq_events = 0,
                    gd_arg_regs = [0, 0, 0, 0], gd_op_args = \<lparr>ka_src_addr = 0, ka_dst_addr = 0, ka_arg2 = 0, ka_arg3 = 0\<rparr>,
                    gd_phase = OP_IDLE, gd_in = [], gd_outb = [], gd_in_bytes = 0, gd_outstanding = 0, gd_next_off = 0,
                    gd_writer = w, gd_op_resp = None, gd_req_off = (\<lambda>_. None), gd_next_id = 0, gd_time = 0,
                    gd_out = [D_hold True]\<rparr>))"

section \<open>Busy state and the end of the simulation\<close>

definition isBusyAt :: "gpu_dev \<Rightarrow> bool" where
  "isBusyAt g \<longleftrightarrow> gd_busy_until g \<noteq> 0"

definition hasOutstandingWork :: "gpu_dev \<Rightarrow> bool" where
  "hasOutstandingWork g \<longleftrightarrow> gd_busy_until g \<noteq> 0 \<or> gd_pending g \<noteq> [] \<or> gd_phase g \<noteq> OP_IDLE"

definition updatePrimaryHold :: "bool \<Rightarrow> gpu_dev \<Rightarrow> gpu_dev" where
  "updatePrimaryHold allow_ok_to_end g =
     (if hasOutstandingWork g then
        if \<not> gd_holding g then gd_emit [D_hold True] (g\<lparr>gd_holding := True\<rparr>) else g
      else if gd_holding g \<and> allow_ok_to_end then gd_emit [D_hold False] (g\<lparr>gd_holding := False\<rparr>)
      else g)"

section \<open>Lifecycle events\<close>

definition with_writer :: "(event_writer \<Rightarrow> event_writer result) \<Rightarrow> gpu_dev \<Rightarrow> gpu_dev result" where
  "with_writer f g = res_bind (f (gd_writer g)) (\<lambda>w. Inr (g\<lparr>gd_writer := w\<rparr>))"

definition emitOpRequested :: "gpu_dev \<Rightarrow> gpu_dev result" where
  "emitOpRequested g = with_writer (ew_emitRequested (gd_time g) (gd_submit_id g)) g"

definition emitOpCompleted :: "gpu_dev \<Rightarrow> gpu_dev result" where
  "emitOpCompleted g = with_writer (ew_emitCompleted (gd_time g) (gd_submit_id g)) g"

definition emitOpError :: "gpu_dev \<Rightarrow> gpu_dev result" where
  "emitOpError g = with_writer (ew_emitError (gd_time g) (gd_submit_id g) ''operation-rejected'') g"

definition emitIrqEvent :: "string \<Rightarrow> u32 \<Rightarrow> string \<Rightarrow> gpu_dev \<Rightarrow> gpu_dev result" where
  "emitIrqEvent kind val observer g =
     (if \<not> gc_irq_witnesses (gd_cfg g) then Inr g
      else with_writer (ew_emitIrq kind (gd_time g) (gd_submit_id g) (word_of_int (gc_irq_line (gd_cfg g)))
             (gc_irq_vcpu (gd_cfg g)) val (gd_irq_pending g) observer) g)"

section \<open>Completion interrupt\<close>

definition raiseIrqOnRetire :: "gpu_dev \<Rightarrow> gpu_dev result" where
  "raiseIrqOnRetire g =
     (if gc_irq_line (gd_cfg g) < 0 then Inr g
      else
        let g1 = g\<lparr>gd_irq_events := gd_irq_events g + 1\<rparr>
        in if gd_irq_pending g1 then Inr g1
           else res_bind (emitIrqEvent ''irq-asserted'' 1 ''device'' (g1\<lparr>gd_irq_pending := True\<rparr>)) (\<lambda>g2.
             Inr (gd_emit [D_stat ''irqs_raised'' 1,
                           D_irq (gc_irq_vcpu (gd_cfg g2)) (word_of_int (gc_irq_line (gd_cfg g2))) 1] g2)))"

definition ackIrq :: "u64 \<Rightarrow> gpu_dev \<Rightarrow> gpu_dev result" where
  "ackIrq consume g =
     (if gc_irq_line (gd_cfg g) < 0 \<or> \<not> gd_irq_pending g then Inr g
      else res_bind (emitIrqEvent ''irq-acknowledged'' (ucast consume) ''device'' g) (\<lambda>g1.
        let g2 = g1\<lparr>gd_irq_events := gd_irq_events g1 - (if consume < gd_irq_events g1 then consume else gd_irq_events g1)\<rparr>
        in if gd_irq_events g2 > 0 then Inr g2
           else res_bind (emitIrqEvent ''irq-deasserted'' 0 ''device'' (g2\<lparr>gd_irq_pending := False\<rparr>)) (\<lambda>g3.
             Inr (gd_emit [D_irq (gc_irq_vcpu (gd_cfg g3)) (word_of_int (gc_irq_line (gd_cfg g3))) 0] g3))))"

section \<open>Kernel operation\<close>

definition release_op_resp :: "gpu_dev \<Rightarrow> gpu_dev" where
  "release_op_resp g =
     (case gd_op_resp g of Some r \<Rightarrow> gd_emit [D_write_resp r] (g\<lparr>gd_op_resp := None\<rparr>) | None \<Rightarrow> g)"

definition opReject :: "gpu_dev \<Rightarrow> gpu_dev result" where
  "opReject g =
     res_bind (emitOpError g) (\<lambda>g1.
       Inr (updatePrimaryHold True (release_op_resp
         ((gd_emit [D_stat ''ops_rejected'' 1] g1)\<lparr>gd_phase := OP_IDLE, gd_busy_until := 0\<rparr>))))"

definition dmaRangeOk :: "gpu_cfg \<Rightarrow> u64 \<Rightarrow> u64 \<Rightarrow> bool" where
  "dmaRangeOk c addr len \<longleftrightarrow>
     memorySpanValid addr len \<and>
     (gc_range_end c = 0 \<or> len = 0 \<or>
      addr \<ge> gc_range_start c \<and> addr \<le> gc_range_end c \<and> len - 1 \<le> gc_range_end c - addr)"

definition dma_read_step :: "gpu_dev \<Rightarrow> gpu_dev" where
  "dma_read_step g =
     (let off = gd_next_off g;
          addr = ka_src_addr (gd_op_args g) + off;
          n = memoryChunkSize addr (gd_in_bytes g - off) (gc_line_size (gd_cfg g)) kOpDmaChunk
      in gd_emit [D_mem_read (gd_next_id g) addr n]
           (g\<lparr>gd_req_off := (gd_req_off g)(gd_next_id g \<mapsto> off), gd_next_off := off + n,
              gd_outstanding := gd_outstanding g + 1, gd_next_id := gd_next_id g + 1\<rparr>))"

function opIssueReadWindow :: "gpu_dev \<Rightarrow> gpu_dev" where
  "opIssueReadWindow g =
     (if gd_next_off g < gd_in_bytes g \<and> gd_outstanding g < kMaxOpDmaOutstanding then opIssueReadWindow (dma_read_step g) else g)"
  by pat_completeness auto

definition dma_write_step :: "gpu_dev \<Rightarrow> gpu_dev" where
  "dma_write_step g =
     (let off = gd_next_off g;
          addr = ka_dst_addr (gd_op_args g) + off;
          n = memoryChunkSize addr (of_nat (length (gd_outb g)) - off) (gc_line_size (gd_cfg g)) kOpDmaChunk
      in gd_emit [D_mem_write (gd_next_id g) addr (take (unat n) (drop (unat off) (gd_outb g)))]
           (g\<lparr>gd_next_off := off + n, gd_outstanding := gd_outstanding g + 1, gd_next_id := gd_next_id g + 1\<rparr>))"

function opIssueWriteWindow :: "gpu_dev \<Rightarrow> gpu_dev" where
  "opIssueWriteWindow g =
     (if gd_next_off g < of_nat (length (gd_outb g)) \<and> gd_outstanding g < kMaxOpDmaOutstanding
      then opIssueWriteWindow (dma_write_step g) else g)"
  by pat_completeness auto

lemma outstanding_step:
  "gd_outstanding g < kMaxOpDmaOutstanding \<Longrightarrow> unat (gd_outstanding g + 1) = unat (gd_outstanding g) + 1"
  by (simp add: kMaxOpDmaOutstanding_def word_less_nat_alt unat_word_ariths)

termination opIssueReadWindow
  by (relation "measure (\<lambda>g. 64 - unat (gd_outstanding g))")
    (auto simp: dma_read_step_def gd_emit_def Let_def outstanding_step, simp add: kMaxOpDmaOutstanding_def word_less_nat_alt)

termination opIssueWriteWindow
  by (relation "measure (\<lambda>g. 64 - unat (gd_outstanding g))")
    (auto simp: dma_write_step_def gd_emit_def Let_def outstanding_step, simp add: kMaxOpDmaOutstanding_def word_less_nat_alt)

declare opIssueReadWindow.simps [simp del] opIssueWriteWindow.simps [simp del]

definition opBeginWriteback :: "gpu_dev \<Rightarrow> gpu_dev result" where
  "opBeginWriteback g =
     (if \<not> dmaRangeOk (gd_cfg g) (ka_dst_addr (gd_op_args g)) (of_nat (length (gd_outb g))) then opReject g
      else Inr (updatePrimaryHold False (opIssueWriteWindow
             (g\<lparr>gd_phase := OP_WRITING, gd_outstanding := 0, gd_next_off := 0\<rparr>))))"

definition opComputeAndStartBusy :: "quetz_kernel \<Rightarrow> gpu_dev \<Rightarrow> gpu_dev result" where
  "opComputeAndStartBusy k g =
     res_bind (k_compute k (gd_op_args g) (gd_in g)) (\<lambda>(kernel_latency, out).
       if out = [] then Inl (Fatal ''kernel produced no output bytes'')
       else
         let latency = (if gd_latency_override g \<noteq> 0 then gd_latency_override g
                        else if kernel_latency \<noteq> 0 then kernel_latency else gc_kernel_latency (gd_cfg g));
             g1 = gd_emit [D_stat ''kernels_launched'' 1] (g\<lparr>gd_outb := out, gd_latency_override := 0\<rparr>)
         in if latency = 0 then opBeginWriteback g1
            else Inr (updatePrimaryHold False (g1\<lparr>gd_busy_until := gd_clk g1 + latency\<rparr>)))"

definition opStartDma :: "quetz_kernel \<Rightarrow> gpu_dev \<Rightarrow> gpu_dev result" where
  "opStartDma k g0 =
     (let n = k_inputBytes k (gd_op_args g0); g = g0\<lparr>gd_in_bytes := n\<rparr> in
      if n = 0 then opReject g
      else if \<not> dmaRangeOk (gd_cfg g) (ka_src_addr (gd_op_args g)) n then opReject g
      else if \<not> dmaRangeOk (gd_cfg g) (ka_dst_addr (gd_op_args g)) 1 then opReject g
      else Inr (updatePrimaryHold False (opIssueReadWindow
             (g\<lparr>gd_in := replicate (unat n) 0, gd_req_off := (\<lambda>_. None), gd_outstanding := 0, gd_next_off := 0,
                gd_phase := OP_READING\<rparr>))))"

text \<open>The loop that copies response bytes into the input buffer, from \<open>off\<close> and below \<open>lim\<close>.\<close>

fun copy_in :: "nat \<Rightarrow> nat \<Rightarrow> u8 list \<Rightarrow> u8 list \<Rightarrow> u8 list" where
  "copy_in off lim [] buf = buf"
| "copy_in off lim (b # bs) buf = (if off < lim then copy_in (off + 1) lim bs (buf[off := b]) else buf)"

definition opOnReadResp :: "quetz_kernel \<Rightarrow> nat \<Rightarrow> u8 list \<Rightarrow> gpu_dev \<Rightarrow> gpu_dev result" where
  "opOnReadResp k rid bs g =
     (case gd_req_off g rid of
        None \<Rightarrow> Inl (Fatal ''kernel-DMA ReadResp with unknown id'')
      | Some off \<Rightarrow>
          let g1 = opIssueReadWindow
                (g\<lparr>gd_req_off := (gd_req_off g)(rid := None), gd_in := copy_in (unat off) (unat (gd_in_bytes g)) bs (gd_in g),
                   gd_outstanding := gd_outstanding g - 1\<rparr>)
          in if gd_outstanding g1 = 0 \<and> gd_next_off g1 = gd_in_bytes g1 then opComputeAndStartBusy k g1 else Inr g1)"

definition opFinish :: "gpu_dev \<Rightarrow> gpu_dev result" where
  "opFinish g =
     res_bind (emitOpCompleted g) (\<lambda>g1.
     res_bind (raiseIrqOnRetire (release_op_resp (g1\<lparr>gd_phase := OP_IDLE, gd_kernel_id := gd_kernel_id g1 + 1\<rparr>))) (\<lambda>g2.
       Inr (updatePrimaryHold True g2)))"

definition opOnWriteResp :: "gpu_dev \<Rightarrow> gpu_dev result" where
  "opOnWriteResp g =
     (if gd_outstanding g = 0 then Inr g
      else
        let g1 = opIssueWriteWindow (g\<lparr>gd_outstanding := gd_outstanding g - 1\<rparr>)
        in if gd_outstanding g1 = 0 \<and> gd_next_off g1 = of_nat (length (gd_outb g1)) then opFinish g1 else Inr g1)"

section \<open>Latency model\<close>

definition startKernel :: "u64 \<Rightarrow> u64 \<Rightarrow> gpu_dev \<Rightarrow> gpu_dev result" where
  "startKernel now_clk latency g =
     (let g1 = gd_emit [D_stat ''kernels_launched'' 1] g in
      if latency = 0 then
        res_bind (raiseIrqOnRetire (g1\<lparr>gd_kernel_id := gd_kernel_id g1 + 1, gd_busy_until := 0\<rparr>)) (\<lambda>g2.
          Inr (updatePrimaryHold False g2))
      else Inr (updatePrimaryHold False (g1\<lparr>gd_busy_until := now_clk + latency\<rparr>)))"

text \<open>The loop that starts queued launches while the device is idle; the list is the queue.\<close>

fun start_pending :: "u64 \<Rightarrow> u64 list \<Rightarrow> gpu_dev \<Rightarrow> gpu_dev result" where
  "start_pending now_clk [] g = Inr g"
| "start_pending now_clk (latency # ls) g =
     (if gd_busy_until g = 0
      then res_bind (startKernel now_clk latency (g\<lparr>gd_pending := ls\<rparr>)) (start_pending now_clk ls)
      else Inr g)"

definition release_deferred :: "gpu_dev \<Rightarrow> gpu_dev" where
  "release_deferred g =
     (case gd_deferred g of Some r \<Rightarrow> (gd_emit [D_write_resp r] g)\<lparr>gd_deferred := None\<rparr> | None \<Rightarrow> g)"

definition retireIfReady :: "u64 \<Rightarrow> gpu_dev \<Rightarrow> gpu_dev result" where
  "retireIfReady now_clk g =
     (if gd_busy_until g = 0 \<or> now_clk < gd_busy_until g then Inr g
      else if gc_kernel (gd_cfg g) \<noteq> None \<and> gd_phase g = OP_READING then opBeginWriteback (g\<lparr>gd_busy_until := 0\<rparr>)
      else
        res_bind (raiseIrqOnRetire (release_deferred (g\<lparr>gd_kernel_id := gd_kernel_id g + 1, gd_busy_until := 0\<rparr>))) (\<lambda>g1.
          start_pending now_clk (gd_pending g1) g1))"

definition tickBusy :: "gpu_dev \<Rightarrow> gpu_dev result" where
  "tickBusy g =
     (let g1 = g\<lparr>gd_clk := gd_clk g + 1\<rparr>;
          g2 = (if gd_busy_until g1 \<noteq> 0 then gd_emit [D_stat ''busy_cycles'' 1] g1 else g1)
      in res_bind (retireIfReady (gd_clk g2) g2) (\<lambda>g3. Inr (updatePrimaryHold True g3)))"

section \<open>Registers\<close>

definition kernel_doorbell :: "quetz_kernel \<Rightarrow> dev_write \<Rightarrow> gpu_dev \<Rightarrow> gpu_dev result" where
  "kernel_doorbell k wr g0 =
     (let g = gd_emit [D_stat ''doorbell_writes'' 1] g0 in
      if gd_phase g \<noteq> OP_IDLE \<or> isBusyAt g then Inl (Fatal ''doorbell while a kernel op is in flight'')
      else
        let g1 = (if \<not> dw_posted wr \<and> gc_blocking (gd_cfg g) then g\<lparr>gd_op_resp := Some (dw_id wr)\<rparr> else g);
            g2 = g1\<lparr>gd_submit_id := gd_submit_id g1 + 1,
                     gd_op_args := \<lparr>ka_src_addr = gd_arg_regs g1 ! 0, ka_dst_addr = gd_arg_regs g1 ! 1,
                                    ka_arg2 = gd_arg_regs g1 ! 2, ka_arg3 = gd_arg_regs g1 ! 3\<rparr>\<rparr>
        in res_bind (emitOpRequested g2) (\<lambda>g3.
           res_bind (opStartDma k g3) (\<lambda>g4.
             Inr (if \<not> dw_posted wr \<and> \<not> gc_blocking (gd_cfg g4) then gd_emit [D_write_resp (dw_id wr)] g4 else g4))))"

definition latency_doorbell :: "gpu_dev \<Rightarrow> gpu_dev result" where
  "latency_doorbell g =
     (let latency = (if gd_latency_override g = 0 then gc_kernel_latency (gd_cfg g) else gd_latency_override g)
      in res_bind (retireIfReady (gd_clk g) (g\<lparr>gd_latency_override := 0\<rparr>)) (\<lambda>g1.
         res_bind
           (if \<not> isBusyAt g1 \<and> gd_pending g1 = [] then startKernel (gd_clk g1) latency (g1\<lparr>gd_submit_id := gd_submit_id g1 + 1\<rparr>)
            else if length (gd_pending g1) < kMaxPendingLaunches then
              Inr (updatePrimaryHold False (gd_emit [D_stat ''doorbell_while_busy'' 1]
                (g1\<lparr>gd_submit_id := gd_submit_id g1 + 1, gd_pending := gd_pending g1 @ [latency]\<rparr>)))
            else Inr (gd_emit [D_stat ''doorbell_while_busy'' 1] g1))
           (\<lambda>g2. Inr (gd_emit [D_stat ''doorbell_writes'' 1] g2))))"

definition irq_witness_write :: "u64 \<Rightarrow> dev_write \<Rightarrow> gpu_dev \<Rightarrow> gpu_dev result" where
  "irq_witness_write offset wr g =
     (if length (dw_data wr) \<noteq> 4 then Inl (Fatal ''IRQ witness must be a 32-bit write'')
      else emitIrqEvent (if offset = REG_ISR_ENTRY then ''irq-delivered'' else ''irq-settled'')
             (ucast (accelDataToU64 (dw_data wr)))
             (if offset = REG_ISR_ENTRY then ''guest-isr-entry'' else ''guest-intc-clear'') g)"

definition checkpoint_write :: "dev_write \<Rightarrow> gpu_dev \<Rightarrow> gpu_dev result" where
  "checkpoint_write wr g =
     (if length (dw_data wr) \<noteq> 4 \<or> gc_kernel (gd_cfg g) = None \<or> \<not> ew_enabled (gd_writer g)
      then Inl (Fatal ''invalid CPU checkpoint configuration or width'')
      else with_writer (ew_emitCpuCheckpoint (gd_time g) (gd_submit_id g) (ucast (accelDataToU64 (dw_data wr)))
             (gd_phase g \<noteq> OP_IDLE)) g)"

definition register_write :: "u64 \<Rightarrow> dev_write \<Rightarrow> gpu_dev \<Rightarrow> gpu_dev result" where
  "register_write offset wr g =
     (let v = accelDataToU64 (dw_data wr) in
      if offset = REG_DOORBELL then latency_doorbell g
      else if (offset = REG_ISR_ENTRY \<or> offset = REG_IRQ_SETTLED) \<and> gc_irq_witnesses (gd_cfg g) then irq_witness_write offset wr g
      else if offset = REG_CPU_CHECKPOINT \<and> gc_checkpoints (gd_cfg g) then checkpoint_write wr g
      else if offset = REG_LATENCY_OVERRIDE then
        Inr (gd_emit [D_stat ''latency_overrides'' 1] (g\<lparr>gd_latency_override := v\<rparr>))
      else if offset = REG_ARG0 then Inr (g\<lparr>gd_arg_regs := (gd_arg_regs g)[0 := v]\<rparr>)
      else if offset = REG_ARG1 then Inr (g\<lparr>gd_arg_regs := (gd_arg_regs g)[1 := v]\<rparr>)
      else if offset = REG_ARG2 then Inr (g\<lparr>gd_arg_regs := (gd_arg_regs g)[2 := v]\<rparr>)
      else if offset = REG_ARG3 then Inr (g\<lparr>gd_arg_regs := (gd_arg_regs g)[3 := v]\<rparr>)
      else if offset = REG_IRQ_ACK then (if v \<noteq> 0 then ackIrq v g else Inr g)
      else if offset = REG_STATUS \<or> offset = REG_KERNEL_ID \<or> offset = REG_TICKET \<or> offset = REG_RESULT
        then Inr (gd_emit [D_stat ''wrong_direction_accesses'' 1] g)
      else Inr (gd_emit [D_stat ''bad_offset_accesses'' 1] g))"

definition gpu_write :: "dev_write \<Rightarrow> gpu_dev \<Rightarrow> gpu_dev result" where
  "gpu_write wr g =
     (let offset = dw_addr wr - gc_base (gd_cfg g) in
      case (offset = REG_DOORBELL, gc_kernel (gd_cfg g)) of
        (True, Some k) \<Rightarrow> kernel_doorbell k wr g
      | _ \<Rightarrow>
          res_bind (register_write offset wr g) (\<lambda>g1.
            if offset = REG_DOORBELL \<and> gc_blocking (gd_cfg g1) \<and> isBusyAt g1 \<and> \<not> dw_posted wr then
              if gd_deferred g1 \<noteq> None then Inl (Fatal ''doorbell while a blocking doorbell is outstanding'')
              else Inr (g1\<lparr>gd_deferred := Some (dw_id wr)\<rparr>)
            else Inr (if \<not> dw_posted wr then gd_emit [D_write_resp (dw_id wr)] g1 else g1)))"

definition register_read :: "u64 \<Rightarrow> gpu_dev \<Rightarrow> (u64 \<times> gpu_dev) result" where
  "register_read offset g =
     (if offset = REG_STATUS then
        res_bind (retireIfReady (gd_clk g) g) (\<lambda>g1.
          Inr (if isBusyAt g1 \<or> gd_phase g1 \<noteq> OP_IDLE then 1 else 0, gd_emit [D_stat ''status_polls'' 1] g1))
      else if offset = REG_KERNEL_ID then res_bind (retireIfReady (gd_clk g) g) (\<lambda>g1. Inr (gd_kernel_id g1, g1))
      else if offset = REG_TICKET then Inr (gd_submit_id g, g)
      else if offset = REG_RESULT then res_bind (retireIfReady (gd_clk g) g) (\<lambda>g1. Inr (gd_kernel_id g1, g1))
      else if offset = REG_IRQ_ACK then Inr (if gd_irq_pending g then 1 else 0, g)
      else if offset = REG_DOORBELL \<or> offset = REG_LATENCY_OVERRIDE
        then Inr (0, gd_emit [D_stat ''wrong_direction_accesses'' 1] g)
      else Inr (0, gd_emit [D_stat ''bad_offset_accesses'' 1] g))"

definition gpu_read :: "dev_read \<Rightarrow> gpu_dev \<Rightarrow> gpu_dev result" where
  "gpu_read rd g =
     res_bind (register_read (dr_addr rd - gc_base (gd_cfg g)) g) (\<lambda>(v, g1).
       Inr (gd_emit [D_read_resp (dr_id rd) (accelU64ToData v (dr_size rd))] g1))"

end
