(* ===== verification/Quetz_Gpu_Dma.thy ===== *)
theory Quetz_Gpu_Dma
  imports Quetz_Gpu_Device
begin

text \<open>
  The kernel operation of the accelerator device against memory: a run of the device with a memory that answers its requests in
  any order, and the invariants of its reading and writing phases. The theorems say that every DMA request stays in the
  permitted range and within a cache line, and that a finished operation leaves in the output buffer what the
  kernel computes from the input buffer.
\<close>

section \<open>Memory requests\<close>

definition is_mem :: "dev_effect \<Rightarrow> bool" where
  "is_mem e = (case e of D_mem_read _ _ _ \<Rightarrow> True | D_mem_write _ _ _ \<Rightarrow> True | _ \<Rightarrow> False)"

definition mem_id :: "dev_effect \<Rightarrow> nat" where
  "mem_id e = (case e of D_mem_read i _ _ \<Rightarrow> i | D_mem_write i _ _ \<Rightarrow> i | _ \<Rightarrow> 0)"

definition mem_events :: "gpu_dev \<Rightarrow> dev_effect list" where
  "mem_events g = filter is_mem (gd_out g)"

lemma mem_simps [simp]:
  "is_mem (D_mem_read i a n)" "is_mem (D_mem_write i a bs)" "\<not> is_mem (D_read_resp r bs)" "\<not> is_mem (D_write_resp r)"
  "\<not> is_mem (D_irq v l x)" "\<not> is_mem (D_stat s m)" "\<not> is_mem (D_hold b)"
  "mem_id (D_mem_read i a n) = i" "mem_id (D_mem_write i a bs) = i"
  by (simp_all add: is_mem_def mem_id_def)

definition open_reads :: "nat set \<Rightarrow> gpu_dev \<Rightarrow> nat set" where
  "open_reads D g = {i. i \<notin> D \<and> (\<exists>a n. D_mem_read i a n \<in> set (mem_events g))}"

definition open_writes :: "nat set \<Rightarrow> gpu_dev \<Rightarrow> nat set" where
  "open_writes D g = {i. i \<notin> D \<and> (\<exists>a bs. D_mem_write i a bs \<in> set (mem_events g))}"

text \<open>A request of at most 64 bytes, inside the permitted range and one cache line.\<close>

definition span_ok :: "gpu_cfg \<Rightarrow> u64 \<Rightarrow> nat \<Rightarrow> bool" where
  "span_ok c a n \<longleftrightarrow> 0 < n \<and> n \<le> 64 \<and> unat a + n \<le> 2 ^ 64 \<and>
     (gc_range_end c \<noteq> 0 \<longrightarrow> gc_range_start c \<le> a \<and> unat a + n \<le> unat (gc_range_end c) + 1) \<and>
     (gc_line_size c \<noteq> 0 \<longrightarrow> unat a mod unat (gc_line_size c) + n \<le> unat (gc_line_size c))"

definition req_ok :: "gpu_cfg \<Rightarrow> dev_effect \<Rightarrow> bool" where
  "req_ok c e = (case e of D_mem_read i a n \<Rightarrow> span_ok c a (unat n) | D_mem_write i a bs \<Rightarrow> span_ok c a (length bs) | _ \<Rightarrow> True)"

definition ids_ok :: "nat set \<Rightarrow> gpu_dev \<Rightarrow> bool" where
  "ids_ok D g \<longleftrightarrow> distinct (map mem_id (mem_events g)) \<and> (\<forall>e \<in> set (mem_events g). mem_id e < gd_next_id g) \<and>
     D \<subseteq> {..<gd_next_id g} \<and> (\<forall>e \<in> set (mem_events g). req_ok (gd_cfg g) e)"

lemma ids_unique: "ids_ok D g \<Longrightarrow> e \<in> set (mem_events g) \<Longrightarrow> e' \<in> set (mem_events g) \<Longrightarrow> mem_id e = mem_id e' \<Longrightarrow> e = e'"
  by (auto simp: ids_ok_def distinct_map inj_on_def)

lemma open_finite: "ids_ok D g \<Longrightarrow> finite (open_reads D g)" "ids_ok D g \<Longrightarrow> finite (open_writes D g)"
proof -
  assume ok: "ids_ok D g"
  have "open_reads D g \<subseteq> mem_id ` set (mem_events g)" "open_writes D g \<subseteq> mem_id ` set (mem_events g)"
    by (force simp: open_reads_def open_writes_def)+
  then show "finite (open_reads D g)" "finite (open_writes D g)"
    by (auto intro: finite_subset)
qed

section \<open>The device with its memory\<close>

definition mem_bytes :: "(u64 \<Rightarrow> u8) \<Rightarrow> u64 \<Rightarrow> nat \<Rightarrow> u8 list" where
  "mem_bytes m a n = map (\<lambda>j. m (a + of_nat j)) [0..<n]"

definition mem_store :: "(u64 \<Rightarrow> u8) \<Rightarrow> u64 \<Rightarrow> u8 list \<Rightarrow> u64 \<Rightarrow> u8" where
  "mem_store m a bs = (\<lambda>x. if unat (x - a) < length bs then bs ! unat (x - a) else m x)"

text \<open>\<open>sy_done\<close> are the answered requests; \<open>sy_input\<close> is the content of the input buffer when the latest read was answered.\<close>

record gpu_sys =
  sy_mem :: "u64 \<Rightarrow> u8"
  sy_done :: "nat set"
  sy_input :: "u8 list"
  sy_dev :: gpu_dev

text \<open>Others may change memory at any time, except the input buffer while it is read and the output buffer while it is
  written.\<close>

definition env_ok :: "gpu_dev \<Rightarrow> (u64 \<Rightarrow> u8) \<Rightarrow> (u64 \<Rightarrow> u8) \<Rightarrow> bool" where
  "env_ok g m m' \<longleftrightarrow>
     (gd_phase g = OP_READING \<longrightarrow> mem_bytes m' (ka_src_addr (gd_op_args g)) (unat (gd_in_bytes g)) =
        mem_bytes m (ka_src_addr (gd_op_args g)) (unat (gd_in_bytes g))) \<and>
     (gd_phase g = OP_WRITING \<longrightarrow> mem_bytes m' (ka_dst_addr (gd_op_args g)) (length (gd_outb g)) =
        mem_bytes m (ka_dst_addr (gd_op_args g)) (length (gd_outb g)))"

text \<open>The runs: ticks, register accesses and memory responses in any order, a read answered with the memory's bytes, a write
  taking effect when it is answered. Times, latencies and tickets stay below \<open>2 ^ 63\<close>.\<close>

inductive gpu_run :: "gpu_params \<Rightarrow> gpu_sys \<Rightarrow> bool" for p where
  gr_new: "new_gpu_dev p = Inr g \<Longrightarrow> gpu_run p \<lparr>sy_mem = m, sy_done = {}, sy_input = [], sy_dev = g\<rparr>"
| gr_env: "gpu_run p s \<Longrightarrow> env_ok (sy_dev s) (sy_mem s) m' \<Longrightarrow>
    gpu_run p (s\<lparr>sy_mem := m', sy_dev := (sy_dev s)\<lparr>gd_time := t\<rparr>\<rparr>)"
| gr_tick: "gpu_run p s \<Longrightarrow> gd_clk (sy_dev s) + 1 < 2 ^ 63 \<Longrightarrow> tickBusy (sy_dev s) = Inr g' \<Longrightarrow> gpu_run p (s\<lparr>sy_dev := g'\<rparr>)"
| gr_write: "gpu_run p s \<Longrightarrow> gd_submit_id (sy_dev s) < 2 ^ 63 \<Longrightarrow>
    (dw_addr wr - gc_base (gd_cfg (sy_dev s)) = REG_LATENCY_OVERRIDE \<longrightarrow> accelDataToU64 (dw_data wr) < 2 ^ 63) \<Longrightarrow>
    gpu_write wr (sy_dev s) = Inr g' \<Longrightarrow> gpu_run p (s\<lparr>sy_dev := g'\<rparr>)"
| gr_read: "gpu_run p s \<Longrightarrow> gpu_read rd (sy_dev s) = Inr g' \<Longrightarrow> gpu_run p (s\<lparr>sy_dev := g'\<rparr>)"
| gr_read_resp: "gpu_run p s \<Longrightarrow> D_mem_read i a n \<in> set (mem_events (sy_dev s)) \<Longrightarrow> i \<notin> sy_done s \<Longrightarrow>
    gc_kernel (gd_cfg (sy_dev s)) = Some k \<Longrightarrow>
    opOnReadResp k i (mem_bytes (sy_mem s) a (unat n)) (sy_dev s) = Inr g' \<Longrightarrow>
    gpu_run p (s\<lparr>sy_done := insert i (sy_done s), sy_dev := g',
      sy_input := mem_bytes (sy_mem s) (ka_src_addr (gd_op_args (sy_dev s))) (unat (gd_in_bytes (sy_dev s)))\<rparr>)"
| gr_write_resp: "gpu_run p s \<Longrightarrow> D_mem_write i a bs \<in> set (mem_events (sy_dev s)) \<Longrightarrow> i \<notin> sy_done s \<Longrightarrow>
    opOnWriteResp (sy_dev s) = Inr g' \<Longrightarrow>
    gpu_run p (s\<lparr>sy_mem := mem_store (sy_mem s) a bs, sy_done := insert i (sy_done s), sy_dev := g'\<rparr>)"

section \<open>Chunks\<close>

lemma dma_chunk:
  assumes "r \<noteq> 0" and n: "n = memoryChunkSize a r line kOpDmaChunk"
  shows "0 < unat n \<and> unat n \<le> unat r \<and> unat n \<le> 64 \<and> (line \<noteq> 0 \<longrightarrow> unat a mod unat line + unat n \<le> unat line)"
proof -
  have r: "0 < unat r"
    using assms(1) by (simp add: unat_gt_0)
  have b: "unat (min r 64) = min (unat r) 64"
    by (simp add: min_def word_le_nat_alt)
  show ?thesis
  proof (cases "line = 0")
    case True
    then show ?thesis
      using r b by (simp add: n memoryChunkSize_def kOpDmaChunk_def)
  next
    case False
    then have "0 < unat line" by (simp add: unat_gt_0)
    then have lt: "unat a mod unat line < unat line"
      by simp
    then have "unat (line - a mod line) = unat line - unat a mod unat line"
      by (simp add: unat_sub word_le_nat_alt unat_mod less_imp_le)
    then have "unat n = min (min (unat r) 64) (unat line - unat a mod unat line)"
      using False b by (simp add: n memoryChunkSize_def kOpDmaChunk_def Let_def) (simp add: min_def word_le_nat_alt)
    then show ?thesis
      using r lt by auto
  qed
qed

lemma span_chunk:
  assumes range: "dmaRangeOk c base len" and off: "unat off < unat len" and n: "unat n \<le> unat len - unat off"
    and chunk: "0 < unat n \<and> unat n \<le> r \<and> unat n \<le> 64 \<and>
      (gc_line_size c \<noteq> 0 \<longrightarrow> unat (base + off) mod unat (gc_line_size c) + unat n \<le> unat (gc_line_size c))"
  shows "span_ok c (base + off) (unat n)" "unat (base + off) = unat base + unat off"
proof -
  have len: "unat base + unat len \<le> 2 ^ 64"
    using range by (simp add: dmaRangeOk_def memorySpanValid_nat)
  then show add: "unat (base + off) = unat base + unat off"
    using off by (intro unat_add_lt_64) simp
  have "gc_range_start c \<le> base + off \<and> unat (base + off) + unat n \<le> unat (gc_range_end c) + 1" if "gc_range_end c \<noteq> 0"
  proof -
    have "len \<noteq> 0" using off by auto
    then have r: "gc_range_start c \<le> base" "base \<le> gc_range_end c" "len - 1 \<le> gc_range_end c - base"
      using range that by (auto simp: dmaRangeOk_def)
    then have "unat len - 1 \<le> unat (gc_range_end c) - unat base"
      using \<open>len \<noteq> 0\<close> by (simp add: word_le_nat_alt unat_sub unat_minus_one)
    then show ?thesis
      using r(1,2) off n by (simp add: add word_le_nat_alt)
  qed
  then show "span_ok c (base + off) (unat n)"
    using chunk len off n by (simp add: span_ok_def add)
qed

lemma copy_in_nth:
  assumes "off + length bs \<le> lim" "lim \<le> length buf"
  shows "length (copy_in off lim bs buf) = length buf \<and>
    (\<forall>j. copy_in off lim bs buf ! j = (if off \<le> j \<and> j < off + length bs then bs ! (j - off) else buf ! j))"
  using assms
proof (induction bs arbitrary: off buf)
  case (Cons b bs)
  then have "length (copy_in (off + 1) lim bs (buf[off := b])) = length buf \<and>
    (\<forall>j. copy_in (off + 1) lim bs (buf[off := b]) ! j =
       (if off + 1 \<le> j \<and> j < off + 1 + length bs then bs ! (j - (off + 1)) else buf[off := b] ! j))"
    using Cons.IH [of "off + 1" "buf[off := b]"] by simp
  then show ?case
    using Cons.prems by (auto simp: nth_Cons' nth_list_update)
qed auto

section \<open>Reading\<close>

definition covers_read :: "gpu_dev \<Rightarrow> nat \<Rightarrow> bool" where
  "covers_read g j \<longleftrightarrow> (\<exists>i off a n. gd_req_off g i = Some off \<and> D_mem_read i a n \<in> set (mem_events g) \<and>
     unat off \<le> j \<and> j < unat off + unat n)"

definition read_inv :: "(u64 \<Rightarrow> u8) \<Rightarrow> nat set \<Rightarrow> gpu_dev \<Rightarrow> bool" where
  "read_inv m D g \<longleftrightarrow>
     dmaRangeOk (gd_cfg g) (ka_src_addr (gd_op_args g)) (gd_in_bytes g) \<and> length (gd_in g) = unat (gd_in_bytes g) \<and>
     gd_next_off g \<le> gd_in_bytes g \<and> ids_ok D g \<and> dom (gd_req_off g) = open_reads D g \<and>
     unat (gd_outstanding g) = card (dom (gd_req_off g)) \<and> gd_outstanding g \<le> kMaxOpDmaOutstanding \<and> open_writes D g = {} \<and>
     (\<forall>i off a n. gd_req_off g i = Some off \<and> D_mem_read i a n \<in> set (mem_events g) \<longrightarrow>
        a = ka_src_addr (gd_op_args g) + off \<and> unat off + unat n \<le> unat (gd_next_off g)) \<and>
     (\<forall>j < unat (gd_next_off g). covers_read g j \<or> gd_in g ! j = m (ka_src_addr (gd_op_args g) + of_nat j))"

lemma ids_ok_snoc:
  assumes "ids_ok D g" "mem_events g' = mem_events g @ [e]" "mem_id e = gd_next_id g" "gd_next_id g' = gd_next_id g + 1"
    "gd_cfg g' = gd_cfg g" "req_ok (gd_cfg g) e"
  shows "ids_ok D g'"
  using assms by (auto simp: ids_ok_def lessThan_Suc)

lemma dma_read_step_fields:
  "mem_events (dma_read_step g) = mem_events g @ [D_mem_read (gd_next_id g) (ka_src_addr (gd_op_args g) + gd_next_off g)
     (memoryChunkSize (ka_src_addr (gd_op_args g) + gd_next_off g) (gd_in_bytes g - gd_next_off g) (gc_line_size (gd_cfg g)) kOpDmaChunk)]"
  by (simp add: dma_read_step_def mem_events_def gd_emit_def Let_def)

lemma fresh_id:
  assumes "ids_ok D g"
  shows "gd_next_id g \<notin> D" "D_mem_read (gd_next_id g) a n \<notin> set (mem_events g)" "D_mem_write (gd_next_id g) a bs \<notin> set (mem_events g)"
  using assms by (force simp: ids_ok_def)+

lemma read_inv_step:
  assumes inv: "read_inv m D g" and more: "gd_next_off g < gd_in_bytes g" "gd_outstanding g < kMaxOpDmaOutstanding"
  shows "read_inv m D (dma_read_step g)"
proof -
  let ?src = "ka_src_addr (gd_op_args g)" and ?off = "gd_next_off g" and ?g = "dma_read_step g"
  define n where "n = memoryChunkSize (?src + ?off) (gd_in_bytes g - ?off) (gc_line_size (gd_cfg g)) kOpDmaChunk"
  have ids: "ids_ok D g"
    using inv by (simp add: read_inv_def)
  have rest: "unat (gd_in_bytes g - ?off) = unat (gd_in_bytes g) - unat ?off" "gd_in_bytes g - ?off \<noteq> 0"
    using more(1) by (auto simp: unat_sub less_imp_le)
  note chunk = dma_chunk [OF rest(2) n_def]
  have n: "0 < unat n" "unat n \<le> unat (gd_in_bytes g) - unat ?off"
    using chunk rest(1) by auto
  have range: "dmaRangeOk (gd_cfg g) ?src (gd_in_bytes g)"
    using inv by (simp add: read_inv_def)
  have ok: "req_ok (gd_cfg g) (D_mem_read (gd_next_id g) (?src + ?off) n)"
    using span_chunk(1) [OF range _ n(2) chunk] more(1) by (simp add: req_ok_def word_less_nat_alt)
  have next': "unat (?off + n) = unat ?off + unat n"
    using n more(1) unat_less_64 [of "gd_in_bytes g"] by (simp add: unat_word_ariths word_less_nat_alt)
  have fields: "gd_op_args ?g = gd_op_args g" "gd_in_bytes ?g = gd_in_bytes g" "gd_in ?g = gd_in g" "gd_next_off ?g = ?off + n"
      "gd_outstanding ?g = gd_outstanding g + 1" "gd_req_off ?g = (gd_req_off g)(gd_next_id g \<mapsto> ?off)"
      "gd_next_id ?g = gd_next_id g + 1" "gd_cfg ?g = gd_cfg g"
    by (simp_all add: dma_read_step_def gd_emit_def Let_def n_def)
  have ev: "mem_events ?g = mem_events g @ [D_mem_read (gd_next_id g) (?src + ?off) n]"
    by (simp add: dma_read_step_fields n_def)
  have ids': "ids_ok D ?g"
    using fields(7,8) ok by (intro ids_ok_snoc [OF ids ev]) simp_all
  have fresh: "gd_next_id g \<notin> dom (gd_req_off g)"
    using inv fresh_id [OF ids] by (auto simp: read_inv_def open_reads_def)
  have reads: "open_reads D ?g = insert (gd_next_id g) (open_reads D g)" "open_writes D ?g = open_writes D g"
    using fresh_id [OF ids] by (auto simp: open_reads_def open_writes_def ev)
  have out: "unat (gd_outstanding g + 1) = card (dom (gd_req_off ?g))" "gd_outstanding g + 1 \<le> kMaxOpDmaOutstanding"
    using inv fresh open_finite(1) [OF ids] outstanding_step [OF more(2)] more(2)
    by (auto simp: read_inv_def fields(6) word_le_nat_alt word_less_nat_alt)
  have r7: "a = ?src + off \<and> unat off + unat k \<le> unat (?off + n)"
    if "gd_req_off ?g i = Some off" "D_mem_read i a k \<in> set (mem_events ?g)" for i off a k
  proof (cases "i = gd_next_id g")
    case True
    then show ?thesis
      using that fresh_id [OF ids] next' by (auto simp: fields(6) ev)
  next
    case False
    then have "a = ?src + off \<and> unat off + unat k \<le> unat ?off"
      using that inv by (auto simp: fields(6) ev read_inv_def)
    then show ?thesis
      using next' by simp
  qed
  have r8: "covers_read ?g j \<or> gd_in g ! j = m (?src + of_nat j)" if "j < unat (?off + n)" for j
  proof (cases "j < unat ?off")
    case True
    then have "covers_read g j \<or> gd_in g ! j = m (?src + of_nat j)"
      using inv by (simp add: read_inv_def)
    moreover have "covers_read g j \<Longrightarrow> covers_read ?g j"
      using fresh unfolding covers_read_def fields(6) ev by (fastforce simp: dom_def)
    ultimately show ?thesis by blast
  next
    case False
    then have "covers_read ?g j"
      using that next' unfolding covers_read_def fields(6) ev by (intro exI [of _ "gd_next_id g"]) auto
    then show ?thesis by simp
  qed
  have le: "?off + n \<le> gd_in_bytes g"
    using n next' more(1) by (simp add: word_le_nat_alt word_less_nat_alt)
  have dom: "dom (gd_req_off ?g) = open_reads D ?g" "open_writes D ?g = {}"
      "length (gd_in g) = unat (gd_in_bytes g)"
    using inv reads by (simp_all add: read_inv_def fields(6))
  show ?thesis
    unfolding read_inv_def fields(1-5,8) using range dom ids' out r7 r8 le by blast
qed

lemma read_inv_window:
  assumes "read_inv m D g"
  shows "read_inv m D (opIssueReadWindow g) \<and>
    (gd_next_off (opIssueReadWindow g) = gd_in_bytes g \<or> gd_outstanding (opIssueReadWindow g) = kMaxOpDmaOutstanding)"
  using assms
proof (induction g rule: opIssueReadWindow.induct)
  case (1 g)
  show ?case
  proof (cases "gd_next_off g < gd_in_bytes g \<and> gd_outstanding g < kMaxOpDmaOutstanding")
    case True
    moreover have "gd_in_bytes (dma_read_step g) = gd_in_bytes g"
      by (simp add: dma_read_step_def gd_emit_def Let_def)
    ultimately show ?thesis
      using 1 read_inv_step by (subst (1 2 3) opIssueReadWindow.simps) auto
  next
    case False
    then have "gd_next_off g = gd_in_bytes g \<or> gd_outstanding g = kMaxOpDmaOutstanding"
      using 1(2) by (auto simp: read_inv_def not_less)
    then show ?thesis
      using 1(2) False by (subst (1 2 3) opIssueReadWindow.simps) auto
  qed
qed

lemma mem_bytes_simps [simp]: "length (mem_bytes m a n) = n" "j < n \<Longrightarrow> mem_bytes m a n ! j = m (a + of_nat j)"
  by (simp_all add: mem_bytes_def)

lemma unat_pred: "0 < unat (w :: u64) \<Longrightarrow> unat (w - 1) = unat w - 1"
  by (rule unat_minus_one) auto

lemma read_inv_answer:
  assumes inv: "read_inv m D g" and e: "D_mem_read i a n \<in> set (mem_events g)" "i \<notin> D"
  obtains off where "gd_req_off g i = Some off"
    "read_inv m (insert i D) (g\<lparr>gd_req_off := (gd_req_off g)(i := None),
       gd_in := copy_in (unat off) (unat (gd_in_bytes g)) (mem_bytes m a (unat n)) (gd_in g),
       gd_outstanding := gd_outstanding g - 1\<rparr>)"
proof -
  let ?src = "ka_src_addr (gd_op_args g)"
  have ids: "ids_ok D g" and dom: "dom (gd_req_off g) = open_reads D g"
    using inv by (simp_all add: read_inv_def)
  have "i \<in> dom (gd_req_off g)"
    using e dom by (auto simp: open_reads_def)
  then obtain off where off: "gd_req_off g i = Some off" by auto
  let ?in = "copy_in (unat off) (unat (gd_in_bytes g)) (mem_bytes m a (unat n)) (gd_in g)"
  let ?g = "g\<lparr>gd_req_off := (gd_req_off g)(i := None), gd_in := ?in, gd_outstanding := gd_outstanding g - 1\<rparr>"
  have ev: "mem_events ?g = mem_events g"
    by (simp add: mem_events_def)
  have a: "a = ?src + off" "unat off + unat n \<le> unat (gd_next_off g)" "unat (gd_next_off g) \<le> unat (gd_in_bytes g)"
      "length (gd_in g) = unat (gd_in_bytes g)"
    using inv off e(1) by (auto simp: read_inv_def word_le_nat_alt)
  have nth: "length ?in = unat (gd_in_bytes g)"
      "?in ! j = (if unat off \<le> j \<and> j < unat off + unat n then m (a + of_nat (j - unat off)) else gd_in g ! j)" for j
    using copy_in_nth [of "unat off" "mem_bytes m a (unat n)" "unat (gd_in_bytes g)" "gd_in g"] a by auto
  have dom': "dom (gd_req_off ?g) = open_reads (insert i D) ?g" "open_writes (insert i D) ?g = {}"
  proof -
    have "open_reads (insert i D) ?g = open_reads D g - {i}" "open_writes (insert i D) ?g = open_writes D g - {i}"
      unfolding open_reads_def open_writes_def ev by auto
    then show "dom (gd_req_off ?g) = open_reads (insert i D) ?g" "open_writes (insert i D) ?g = {}"
      using dom inv by (simp_all add: read_inv_def)
  qed
  have "i < gd_next_id g"
    using ids e(1) by (force simp: ids_ok_def)
  then have ids': "ids_ok (insert i D) ?g"
    using ids unfolding ids_ok_def ev by simp
  have "finite (dom (gd_req_off g))"
    using dom open_finite(1) [OF ids] by simp
  then have card: "card (dom (gd_req_off ?g)) = card (dom (gd_req_off g)) - 1" "0 < card (dom (gd_req_off g))"
    using \<open>i \<in> dom (gd_req_off g)\<close> by (auto simp: card_gt_0_iff simp del: domIff)
  have out: "unat (gd_outstanding g) = card (dom (gd_req_off g))" "gd_outstanding g \<le> kMaxOpDmaOutstanding"
    using inv by (simp_all add: read_inv_def)
  then have "unat (gd_outstanding g - 1) = card (dom (gd_req_off ?g))" "gd_outstanding g - 1 \<le> kMaxOpDmaOutstanding"
    using card unat_pred [of "gd_outstanding g"] by (auto simp: word_le_nat_alt)
  moreover have "covers_read ?g j \<or> ?in ! j = m (?src + of_nat j)" if "j < unat (gd_next_off g)" for j
  proof (cases "unat off \<le> j \<and> j < unat off + unat n")
    case True
    then have "(of_nat (unat off) + of_nat (j - unat off) :: u64) = of_nat j"
      by (simp flip: of_nat_add)
    then have "(off + of_nat (j - unat off) :: u64) = of_nat j"
      by simp
    then show ?thesis
      using True a(1) nth(2) by (simp add: add.assoc)
  next
    case False
    have "covers_read g j \<Longrightarrow> covers_read ?g j"
    proof -
      assume "covers_read g j"
      then obtain i' off' a' n' where c: "gd_req_off g i' = Some off'" "D_mem_read i' a' n' \<in> set (mem_events g)"
          "unat off' \<le> j" "j < unat off' + unat n'"
        unfolding covers_read_def by blast
      have "i' \<noteq> i"
      proof
        assume "i' = i"
        then have "off' = off" "n' = n"
          using c off ids_unique [OF ids c(2) e(1)] by auto
        then show False using c False by simp
      qed
      then show ?thesis
        using c unfolding covers_read_def ev by auto
    qed
    then show ?thesis
      using inv that False nth(2) by (auto simp: read_inv_def)
  qed
  moreover have "a' = ?src + off' \<and> unat off' + unat n' \<le> unat (gd_next_off g)"
    if "gd_req_off ?g i' = Some off'" "D_mem_read i' a' n' \<in> set (mem_events ?g)" for i' off' a' n'
    using that inv unfolding ev by (auto simp: read_inv_def split: if_splits)
  moreover have "gd_op_args ?g = gd_op_args g" "gd_in_bytes ?g = gd_in_bytes g" "gd_in ?g = ?in" "gd_next_off ?g = gd_next_off g"
      "gd_outstanding ?g = gd_outstanding g - 1" "dmaRangeOk (gd_cfg g) ?src (gd_in_bytes g)" "gd_next_off g \<le> gd_in_bytes g" "gd_cfg ?g = gd_cfg g"
    using inv by (simp_all add: read_inv_def)
  ultimately have "read_inv m (insert i D) ?g"
    using nth(1) dom' ids' unfolding read_inv_def by metis
  then show thesis
    using that off by blast
qed

lemma read_done:
  assumes "read_inv m D g" "dom (gd_req_off g) = {}" "gd_next_off g = gd_in_bytes g"
  shows "gd_in g = mem_bytes m (ka_src_addr (gd_op_args g)) (unat (gd_in_bytes g))"
proof (rule nth_equalityI)
  show "length (gd_in g) = length (mem_bytes m (ka_src_addr (gd_op_args g)) (unat (gd_in_bytes g)))"
    using assms(1) by (simp add: read_inv_def)
  fix j assume "j < length (gd_in g)"
  then have "j < unat (gd_in_bytes g)" "\<not> covers_read g j"
    using assms by (auto simp: read_inv_def covers_read_def)
  then show "gd_in g ! j = mem_bytes m (ka_src_addr (gd_op_args g)) (unat (gd_in_bytes g)) ! j"
    using assms(1,3) by (auto simp: read_inv_def)
qed

lemma read_inv_start:
  assumes "ids_ok D g" "open_reads D g = {}" "open_writes D g = {}" "dmaRangeOk (gd_cfg g) (ka_src_addr (gd_op_args g)) (gd_in_bytes g)"
  shows "read_inv m D (g\<lparr>gd_in := replicate (unat (gd_in_bytes g)) 0, gd_req_off := (\<lambda>_. None), gd_outstanding := 0,
    gd_next_off := 0, gd_phase := OP_READING\<rparr>)"
  using assms by (auto simp: read_inv_def ids_ok_def open_reads_def open_writes_def mem_events_def)

section \<open>Writing\<close>

definition covers_write :: "nat set \<Rightarrow> gpu_dev \<Rightarrow> nat \<Rightarrow> bool" where
  "covers_write D g j \<longleftrightarrow> (\<exists>i off bs. D_mem_write i (ka_dst_addr (gd_op_args g) + of_nat off) bs \<in> set (mem_events g) \<and> i \<notin> D \<and>
     off \<le> j \<and> j < off + length bs)"

definition write_inv :: "(u64 \<Rightarrow> u8) \<Rightarrow> nat set \<Rightarrow> gpu_dev \<Rightarrow> bool" where
  "write_inv m D g \<longleftrightarrow>
     dmaRangeOk (gd_cfg g) (ka_dst_addr (gd_op_args g)) (of_nat (length (gd_outb g))) \<and> length (gd_outb g) < 2 ^ 64 \<and>
     unat (gd_next_off g) \<le> length (gd_outb g) \<and> ids_ok D g \<and> dom (gd_req_off g) = {} \<and> open_reads D g = {} \<and>
     unat (gd_outstanding g) = card (open_writes D g) \<and> gd_outstanding g \<le> kMaxOpDmaOutstanding \<and>
     (\<forall>i a bs. D_mem_write i a bs \<in> set (mem_events g) \<and> i \<notin> D \<longrightarrow>
        (\<exists>off. a = ka_dst_addr (gd_op_args g) + of_nat off \<and> bs = take (length bs) (drop off (gd_outb g)) \<and>
           off + length bs \<le> unat (gd_next_off g))) \<and>
     (\<forall>j < unat (gd_next_off g). covers_write D g j \<or> m (ka_dst_addr (gd_op_args g) + of_nat j) = gd_outb g ! j)"

lemma write_inv_event:
  assumes "write_inv m D g" "D_mem_write i a bs \<in> set (mem_events g)" "i \<notin> D"
  obtains off where "a = ka_dst_addr (gd_op_args g) + of_nat off" "bs = take (length bs) (drop off (gd_outb g))"
    "off + length bs \<le> unat (gd_next_off g)"
  using assms unfolding write_inv_def by blast

lemma dma_write_step_fields:
  "mem_events (dma_write_step g) = mem_events g @ [D_mem_write (gd_next_id g) (ka_dst_addr (gd_op_args g) + gd_next_off g)
     (take (unat (memoryChunkSize (ka_dst_addr (gd_op_args g) + gd_next_off g) (of_nat (length (gd_outb g)) - gd_next_off g)
        (gc_line_size (gd_cfg g)) kOpDmaChunk)) (drop (unat (gd_next_off g)) (gd_outb g)))]"
  by (simp add: dma_write_step_def mem_events_def gd_emit_def Let_def)

lemma write_inv_step:
  assumes inv: "write_inv m D g" and more: "gd_next_off g < of_nat (length (gd_outb g))" "gd_outstanding g < kMaxOpDmaOutstanding"
  shows "write_inv m D (dma_write_step g)"
proof -
  let ?dst = "ka_dst_addr (gd_op_args g)" and ?off = "gd_next_off g" and ?g = "dma_write_step g"
  define n where "n = memoryChunkSize (?dst + ?off) (of_nat (length (gd_outb g)) - ?off) (gc_line_size (gd_cfg g)) kOpDmaChunk"
  let ?bs = "take (unat n) (drop (unat ?off) (gd_outb g))"
  have ids: "ids_ok D g" and len: "unat (of_nat (length (gd_outb g)) :: u64) = length (gd_outb g)"
    using inv by (simp_all add: write_inv_def unat_of_nat)
  have rest: "unat (of_nat (length (gd_outb g)) - ?off) = length (gd_outb g) - unat ?off" "of_nat (length (gd_outb g)) - ?off \<noteq> 0"
    using more(1) len by (auto simp: unat_sub less_imp_le)
  note chunk = dma_chunk [OF rest(2) n_def]
  have n: "0 < unat n" "unat n \<le> length (gd_outb g) - unat ?off"
    using chunk rest(1) by auto
  have lt: "unat ?off < length (gd_outb g)"
    using more(1) len by (simp add: word_less_nat_alt)
  then have next': "unat (?off + n) = unat ?off + unat n" "length ?bs = unat n"
    using n inv by (auto simp: unat_word_ariths write_inv_def)
  have range: "dmaRangeOk (gd_cfg g) ?dst (of_nat (length (gd_outb g)))"
    using inv by (simp add: write_inv_def)
  have ok: "req_ok (gd_cfg g) (D_mem_write (gd_next_id g) (?dst + ?off) ?bs)"
    using span_chunk(1) [OF range _ _ chunk] lt n(2) len next'(2) by (simp add: req_ok_def)
  have fields: "gd_op_args ?g = gd_op_args g" "gd_outb ?g = gd_outb g" "gd_next_off ?g = ?off + n"
      "gd_outstanding ?g = gd_outstanding g + 1" "gd_req_off ?g = gd_req_off g" "gd_next_id ?g = gd_next_id g + 1" "gd_cfg ?g = gd_cfg g"
    by (simp_all add: dma_write_step_def gd_emit_def Let_def n_def)
  have ev: "mem_events ?g = mem_events g @ [D_mem_write (gd_next_id g) (?dst + ?off) ?bs]"
    by (simp add: dma_write_step_fields n_def)
  have ids': "ids_ok D ?g"
    using fields(6,7) ok by (intro ids_ok_snoc [OF ids ev]) simp_all
  have fresh: "gd_next_id g \<notin> open_writes D g"
    using fresh_id [OF ids] by (auto simp: open_writes_def)
  have opens: "open_writes D ?g = insert (gd_next_id g) (open_writes D g)" "open_reads D ?g = open_reads D g"
    using fresh_id [OF ids] by (auto simp: open_reads_def open_writes_def ev)
  have out: "unat (gd_outstanding g + 1) = card (open_writes D ?g)" "gd_outstanding g + 1 \<le> kMaxOpDmaOutstanding"
    using inv fresh open_finite(2) [OF ids] outstanding_step [OF more(2)] more(2)
    by (auto simp: write_inv_def opens word_le_nat_alt word_less_nat_alt)
  have w7: "\<exists>off. a = ?dst + of_nat off \<and> bs = take (length bs) (drop off (gd_outb g)) \<and> off + length bs \<le> unat (?off + n)"
    if e: "D_mem_write i a bs \<in> set (mem_events ?g)" "i \<notin> D" for i a bs
  proof (cases "i = gd_next_id g")
    case True
    then show ?thesis
      using e fresh_id [OF ids] next' by (intro exI [of _ "unat ?off"]) (auto simp: ev)
  next
    case False
    then obtain off where "a = ?dst + of_nat off" "bs = take (length bs) (drop off (gd_outb g))" "off + length bs \<le> unat ?off"
      using e write_inv_event [OF inv, of i a bs] by (auto simp: ev)
    then show ?thesis
      using next'(1) by (intro exI [of _ off]) simp
  qed
  have w8: "covers_write D ?g j \<or> m (?dst + of_nat j) = gd_outb g ! j" if "j < unat (?off + n)" for j
  proof (cases "j < unat ?off")
    case True
    then have "covers_write D g j \<or> m (?dst + of_nat j) = gd_outb g ! j"
      using inv by (simp add: write_inv_def)
    moreover have "covers_write D g j \<Longrightarrow> covers_write D ?g j"
      unfolding covers_write_def fields(1) ev by fastforce
    ultimately show ?thesis by blast
  next
    case False
    then have "covers_write D ?g j"
      using that next' fresh_id(1) [OF ids] unfolding covers_write_def fields(1) ev
      by (intro exI [of _ "gd_next_id g"] exI [of _ "unat ?off"] exI [of _ ?bs]) auto
    then show ?thesis by simp
  qed
  have le: "unat (?off + n) \<le> length (gd_outb g)"
    using n(2) next'(1) lt by simp
  have keep: "length (gd_outb g) < 2 ^ 64" "dom (gd_req_off g) = {}" "open_reads D ?g = {}"
    using inv opens by (simp_all add: write_inv_def)
  show ?thesis
    unfolding write_inv_def fields(1-5,7) using range keep ids' out w7 w8 le by blast
qed

lemma write_inv_window:
  assumes "write_inv m D g"
  shows "write_inv m D (opIssueWriteWindow g) \<and>
    (gd_next_off (opIssueWriteWindow g) = of_nat (length (gd_outb g)) \<or> gd_outstanding (opIssueWriteWindow g) = kMaxOpDmaOutstanding)"
  using assms
proof (induction g rule: opIssueWriteWindow.induct)
  case (1 g)
  show ?case
  proof (cases "gd_next_off g < of_nat (length (gd_outb g)) \<and> gd_outstanding g < kMaxOpDmaOutstanding")
    case True
    moreover have "gd_outb (dma_write_step g) = gd_outb g"
      by (simp add: dma_write_step_def gd_emit_def Let_def)
    ultimately show ?thesis
      using 1 write_inv_step by (subst (1 2 3) opIssueWriteWindow.simps) auto
  next
    case False
    have "gd_next_off g \<le> of_nat (length (gd_outb g))"
      using 1(2) by (simp add: write_inv_def word_le_nat_alt unat_of_nat)
    then have "gd_next_off g = of_nat (length (gd_outb g)) \<or> gd_outstanding g = kMaxOpDmaOutstanding"
      using 1(2) False by (auto simp: write_inv_def not_less)
    then show ?thesis
      using 1(2) False by (subst (1 2 3) opIssueWriteWindow.simps) auto
  qed
qed

lemma offset_of_store:
  assumes "unat (a :: u64) + j < 2 ^ 64" "off \<le> j"
  shows "unat (a + of_nat j - (a + of_nat off)) = j - off"
proof -
  have eq: "a + of_nat j - (a + of_nat off) = of_nat (j - off)"
    using assms(2) by (simp add: of_nat_diff)
  show ?thesis
    unfolding eq using assms by (intro unat_of_nat_64) simp
qed

lemma write_inv_answer:
  assumes inv: "write_inv m D g" and e: "D_mem_write i a bs \<in> set (mem_events g)" "i \<notin> D"
  shows "gd_outstanding g \<noteq> 0 \<and> write_inv (mem_store m a bs) (insert i D) (g\<lparr>gd_outstanding := gd_outstanding g - 1\<rparr>)"
proof -
  let ?dst = "ka_dst_addr (gd_op_args g)" and ?g = "g\<lparr>gd_outstanding := gd_outstanding g - 1\<rparr>"
  have ids: "ids_ok D g"
    using inv by (simp add: write_inv_def)
  have ev: "mem_events ?g = mem_events g"
    by (simp add: mem_events_def)
  obtain off where off: "a = ?dst + of_nat off" "bs = take (length bs) (drop off (gd_outb g))" "off + length bs \<le> unat (gd_next_off g)"
    using write_inv_event [OF inv e] .
  have range: "dmaRangeOk (gd_cfg g) ?dst (of_nat (length (gd_outb g)))"
    using inv by (simp add: write_inv_def)
  have bound: "unat (gd_next_off g) \<le> length (gd_outb g)" "unat ?dst + length (gd_outb g) \<le> 2 ^ 64" "length (gd_outb g) < 2 ^ 64"
    using inv by (auto simp: write_inv_def dmaRangeOk_def memorySpanValid_nat unat_of_nat)
  have stored: "mem_store m a bs (?dst + of_nat j) = gd_outb g ! j" if "off \<le> j" "j < off + length bs" for j
  proof -
    have "unat (?dst + of_nat j - a) = j - off"
      using that off bound unfolding off(1) by (intro offset_of_store) auto
    moreover have "bs ! (j - off) = gd_outb g ! j"
      using that off(3) bound(1) by (subst off(2)) simp
    moreover have "j - off < length bs"
      using that by linarith
    ultimately show ?thesis
      by (simp add: mem_store_def)
  qed
  have kept: "mem_store m a bs (?dst + of_nat j) = m (?dst + of_nat j)" if "j < length (gd_outb g)" "\<not> (off \<le> j \<and> j < off + length bs)" for j
  proof (cases "off \<le> j")
    case True
    have "unat (?dst + of_nat j - a) = j - off"
      using that(1) True bound unfolding off(1) by (intro offset_of_store) auto
    moreover have "\<not> j - off < length bs"
      using that(2) True by linarith
    ultimately show ?thesis
      by (simp add: mem_store_def)
  next
    case False
    show ?thesis
    proof (cases "bs = []")
      case ne: False
      then have "off < length (gd_outb g)"
        using off(3) bound(1) by (cases bs) auto
      then have "unat a = unat ?dst + off" "unat (?dst + of_nat j) = unat ?dst + j"
        using off(1) bound that(1) by (auto simp: unat_add_of_nat_64)
      then have "unat (?dst + of_nat j - a) = 2 ^ 64 - (off - j)"
        using False by (simp add: unat_sub_if')
      then show ?thesis
        using off(3) bound False by (auto simp: mem_store_def)
    qed (simp add: mem_store_def)
  qed
  have "open_writes (insert i D) ?g = open_writes D g - {i}" "open_reads (insert i D) ?g = open_reads D g - {i}"
    unfolding open_reads_def open_writes_def ev by auto
  moreover have "i \<in> open_writes D g"
    using e by (auto simp: open_writes_def)
  ultimately have card: "card (open_writes (insert i D) ?g) = card (open_writes D g) - 1" "0 < card (open_writes D g)"
      "open_reads (insert i D) ?g = {}"
    using open_finite(2) [OF ids] inv by (auto simp: card_gt_0_iff write_inv_def)
  have "i < gd_next_id g"
    using ids e(1) by (force simp: ids_ok_def)
  then have ids': "ids_ok (insert i D) ?g"
    using ids unfolding ids_ok_def ev by simp
  have out: "gd_outstanding g \<noteq> 0" "unat (gd_outstanding g - 1) = card (open_writes (insert i D) ?g)"
      "gd_outstanding g - 1 \<le> kMaxOpDmaOutstanding"
    using inv card unat_pred [of "gd_outstanding g"] by (auto simp: write_inv_def word_le_nat_alt)
  have w8: "covers_write (insert i D) ?g j \<or> mem_store m a bs (?dst + of_nat j) = gd_outb g ! j" if j: "j < unat (gd_next_off g)" for j
  proof (cases "off \<le> j \<and> j < off + length bs")
    case False
    then have st: "mem_store m a bs (?dst + of_nat j) = m (?dst + of_nat j)"
      using kept j bound(1) by simp
    have "covers_write D g j \<Longrightarrow> covers_write (insert i D) ?g j"
    proof -
      assume "covers_write D g j"
      then obtain i' off' bs' where c: "D_mem_write i' (?dst + of_nat off') bs' \<in> set (mem_events g)" "i' \<notin> D" "off' \<le> j" "j < off' + length bs'"
        unfolding covers_write_def by blast
      have "i' \<noteq> i"
      proof
        assume "i' = i"
        then have eq: "?dst + of_nat off' = ?dst + of_nat off" "bs' = bs"
          using ids_unique [OF ids c(1) e(1)] off(1) by auto
        have "off' < 2 ^ 64" "off < 2 ^ 64"
          using c(3) j off(3) bound by auto
        then have "off' = off"
          using eq(1) by (metis add_left_cancel unat_of_nat_64)
        then show False
          using c False eq(2) by simp
      qed
      then show ?thesis
        using c unfolding covers_write_def ev by auto
    qed
    then show ?thesis
      using inv j st by (auto simp: write_inv_def)
  qed (use stored in simp)
  have w7: "\<exists>off. a' = ?dst + of_nat off \<and> bs' = take (length bs') (drop off (gd_outb g)) \<and> off + length bs' \<le> unat (gd_next_off g)"
    if "D_mem_write i' a' bs' \<in> set (mem_events ?g)" "i' \<notin> insert i D" for i' a' bs'
    using write_inv_event [OF inv, of i' a' bs'] that unfolding ev by auto
  have keep: "dom (gd_req_off g) = {}" using inv by (simp add: write_inv_def)
  have fields: "gd_op_args ?g = gd_op_args g" "gd_outb ?g = gd_outb g" "gd_next_off ?g = gd_next_off g"
      "gd_outstanding ?g = gd_outstanding g - 1" "gd_req_off ?g = gd_req_off g" "gd_cfg ?g = gd_cfg g"
    by simp_all
  have "write_inv (mem_store m a bs) (insert i D) ?g"
    unfolding write_inv_def fields using range bound keep ids' out(2,3) card(3) w7 w8 by blast
  then show ?thesis
    using out(1) by simp
qed

lemma write_done:
  assumes "write_inv m D g" "open_writes D g = {}" "gd_next_off g = of_nat (length (gd_outb g))"
  shows "mem_bytes m (ka_dst_addr (gd_op_args g)) (length (gd_outb g)) = gd_outb g"
proof (rule nth_equalityI)
  fix j assume j: "j < length (mem_bytes m (ka_dst_addr (gd_op_args g)) (length (gd_outb g)))"
  then have "j < unat (gd_next_off g)" "\<not> covers_write D g j"
    using assms by (auto simp: write_inv_def covers_write_def open_writes_def unat_of_nat)
  then show "mem_bytes m (ka_dst_addr (gd_op_args g)) (length (gd_outb g)) ! j = gd_outb g ! j"
    using assms(1) j by (auto simp: write_inv_def)
qed simp

lemma write_inv_start:
  assumes "ids_ok D g" "open_reads D g = {}" "open_writes D g = {}" "dom (gd_req_off g) = {}" "length (gd_outb g) < 2 ^ 64"
    "dmaRangeOk (gd_cfg g) (ka_dst_addr (gd_op_args g)) (of_nat (length (gd_outb g)))"
  shows "write_inv m D (g\<lparr>gd_phase := OP_WRITING, gd_outstanding := 0, gd_next_off := 0\<rparr>)"
proof -
  let ?g = "g\<lparr>gd_phase := OP_WRITING, gd_outstanding := 0, gd_next_off := 0\<rparr>"
  have "mem_events ?g = mem_events g"
    by (simp add: mem_events_def)
  then have "open_writes D ?g = {}" "open_reads D ?g = {}" "ids_ok D ?g"
    using assms(1-3) by (simp_all add: open_writes_def open_reads_def ids_ok_def)
  moreover from this have "D_mem_write i a bs \<notin> set (mem_events ?g) \<or> i \<in> D" for i a bs
    by (auto simp: open_writes_def)
  ultimately show ?thesis
    using assms(4-6) by (auto simp: write_inv_def)
qed

section \<open>Shapes of the operations\<close>

lemma gd_emit_shape: "gd_emit es g = g\<lparr>gd_out := gd_out g @ es\<rparr>"
  by (simp add: gd_emit_def)

lemma with_writer_shape: "with_writer f g = Inr g' \<Longrightarrow> \<exists>w. g' = g\<lparr>gd_writer := w\<rparr>"
  by (auto simp: with_writer_def res_bind_Inr_iff)

lemma emit_shapes:
  "emitOpRequested g = Inr g' \<Longrightarrow> \<exists>w. g' = g\<lparr>gd_writer := w\<rparr>"
  "emitOpCompleted g = Inr g' \<Longrightarrow> \<exists>w. g' = g\<lparr>gd_writer := w\<rparr>"
  "emitOpError g = Inr g' \<Longrightarrow> \<exists>w. g' = g\<lparr>gd_writer := w\<rparr>"
  by (simp_all add: emitOpRequested_def emitOpCompleted_def emitOpError_def with_writer_shape)

lemma emitIrqEvent_shape: "emitIrqEvent kd v ob g = Inr g' \<Longrightarrow> \<exists>w. g' = g\<lparr>gd_writer := w\<rparr>"
proof (cases "gc_irq_witnesses (gd_cfg g)")
  case False
  then show "emitIrqEvent kd v ob g = Inr g' \<Longrightarrow> ?thesis"
    by (intro exI [of _ "gd_writer g"]) (simp add: emitIrqEvent_def)
qed (simp add: emitIrqEvent_def with_writer_shape)

text \<open>What the DMA engine is made of.\<close>

definition dma_view where
  "dma_view g = (gd_cfg g, gd_phase g, gd_busy_until g, gd_op_args g, gd_in g, gd_outb g, gd_in_bytes g, gd_outstanding g,
     gd_next_off g, gd_req_off g, gd_next_id g, mem_events g)"

definition idle_inv :: "nat set \<Rightarrow> gpu_dev \<Rightarrow> bool" where
  "idle_inv D g \<longleftrightarrow> ids_ok D g \<and> dom (gd_req_off g) = {} \<and> open_reads D g = {} \<and> open_writes D g = {}"

definition computed :: "quetz_kernel \<Rightarrow> u8 list \<Rightarrow> gpu_dev \<Rightarrow> bool" where
  "computed k inp g \<longleftrightarrow> (\<exists>lat. k_compute k (gd_op_args g) inp = Inr (lat, gd_outb g)) \<and> gd_outb g \<noteq> [] \<and> length (gd_outb g) < 2 ^ 64"

definition dma_inv :: "gpu_cfg \<Rightarrow> (u64 \<Rightarrow> u8) \<Rightarrow> nat set \<Rightarrow> u8 list \<Rightarrow> gpu_dev \<Rightarrow> bool" where
  "dma_inv c m D inp g \<longleftrightarrow> gd_cfg g = c \<and>
     (case gd_phase g of
        OP_IDLE \<Rightarrow> idle_inv D g \<and> (gc_kernel c \<noteq> None \<longrightarrow> gd_busy_until g = 0)
      | OP_READING \<Rightarrow> \<exists>k. gc_kernel c = Some k \<and> gd_in_bytes g = k_inputBytes k (gd_op_args g) \<and> gd_in_bytes g \<noteq> 0 \<and>
          read_inv m D g \<and> (gd_next_off g = gd_in_bytes g \<or> gd_outstanding g = kMaxOpDmaOutstanding) \<and>
          (if dom (gd_req_off g) = {} then computed k inp g \<and> gd_in g = inp else gd_busy_until g = 0)
      | OP_WRITING \<Rightarrow> \<exists>k. gc_kernel c = Some k \<and> computed k inp g \<and> write_inv m D g \<and>
          (gd_next_off g = of_nat (length (gd_outb g)) \<or> gd_outstanding g = kMaxOpDmaOutstanding) \<and>
          gd_outstanding g \<noteq> 0 \<and> gd_busy_until g = 0)"

lemma dma_cong:
  assumes "dma_view g = dma_view h"
  shows "dma_inv c m D inp g = dma_inv c m D inp h" "idle_inv D g = idle_inv D h"
proof -
  have v: "gd_cfg g = gd_cfg h" "gd_phase g = gd_phase h" "gd_busy_until g = gd_busy_until h" "gd_op_args g = gd_op_args h"
      "gd_in g = gd_in h" "gd_outb g = gd_outb h" "gd_in_bytes g = gd_in_bytes h" "gd_outstanding g = gd_outstanding h"
      "gd_next_off g = gd_next_off h" "gd_req_off g = gd_req_off h" "gd_next_id g = gd_next_id h" "mem_events g = mem_events h"
    using assms by (simp_all add: dma_view_def)
  have opens: "ids_ok D g = ids_ok D h" "open_reads D g = open_reads D h" "open_writes D g = open_writes D h"
      "covers_read g = covers_read h" "covers_write D g = covers_write D h"
    unfolding ids_ok_def open_reads_def open_writes_def covers_read_def covers_write_def v by (simp_all add: fun_eq_iff)
  show "idle_inv D g = idle_inv D h"
    unfolding idle_inv_def opens v ..
  have invs: "read_inv m D g = read_inv m D h" "write_inv m D g = write_inv m D h" "computed k inp g = computed k inp h" for k
    unfolding read_inv_def write_inv_def computed_def opens v by (rule refl)+
  show "dma_inv c m D inp g = dma_inv c m D inp h"
    unfolding dma_inv_def v invs \<open>idle_inv D g = idle_inv D h\<close> ..
qed

lemma emit_dma [simp]: "list_all (\<lambda>e. \<not> is_mem e) es \<Longrightarrow> dma_view (gd_emit es g) = dma_view g"
  by (simp add: dma_view_def gd_emit_def mem_events_def list_all_iff filter_False)

lemma raise_dma: "raiseIrqOnRetire g = Inr g' \<Longrightarrow> dma_view g' = dma_view g"
  by (auto simp: raiseIrqOnRetire_def res_bind_Inr_iff Let_def dma_view_def gd_emit_def mem_events_def
      split: if_splits dest!: emitIrqEvent_shape)

lemma ack_dma: "ackIrq v g = Inr g' \<Longrightarrow> dma_view g' = dma_view g"
  by (auto simp: ackIrq_def res_bind_Inr_iff Let_def dma_view_def gd_emit_def mem_events_def
      split: if_splits dest!: emitIrqEvent_shape)

lemma hold_dma [simp]: "dma_view (updatePrimaryHold b g) = dma_view g"
  by (simp add: updatePrimaryHold_def) (simp add: dma_view_def gd_emit_def mem_events_def)

lemma release_dma [simp]: "dma_view (release_op_resp g) = dma_view g" "dma_view (release_deferred g) = dma_view g"
  by (auto simp: release_op_resp_def release_deferred_def dma_view_def gd_emit_def mem_events_def split: option.splits)

lemma reject_dma: "opReject g = Inr g' \<Longrightarrow> dma_view g' = dma_view (g\<lparr>gd_phase := OP_IDLE, gd_busy_until := 0\<rparr>)"
  by (auto simp: opReject_def res_bind_Inr_iff dest!: emit_shapes(3)) (simp add: dma_view_def gd_emit_def mem_events_def)

section \<open>The invariant is kept\<close>

lemma read_window_shape:
  "\<exists>r nx k i es. opIssueReadWindow g = g\<lparr>gd_req_off := r, gd_next_off := nx, gd_outstanding := k, gd_next_id := i, gd_out := gd_out g @ es\<rparr> \<and>
     list_all is_mem es \<and> unat (gd_outstanding g) \<le> unat k"
proof (induction g rule: opIssueReadWindow.induct)
  case (1 g)
  show ?case
  proof (cases "gd_next_off g < gd_in_bytes g \<and> gd_outstanding g < kMaxOpDmaOutstanding")
    case True
    then have eq: "opIssueReadWindow g = opIssueReadWindow (dma_read_step g)"
      by (subst opIssueReadWindow.simps) simp
    obtain r nx k i es where ih: "opIssueReadWindow (dma_read_step g) = (dma_read_step g)\<lparr>gd_req_off := r, gd_next_off := nx,
        gd_outstanding := k, gd_next_id := i, gd_out := gd_out (dma_read_step g) @ es\<rparr>"
        "list_all is_mem es" "unat (gd_outstanding (dma_read_step g)) \<le> unat k"
      using 1 True by blast
    have "opIssueReadWindow g = g\<lparr>gd_req_off := r, gd_next_off := nx, gd_outstanding := k, gd_next_id := i,
        gd_out := gd_out g @ (drop (length (gd_out g)) (gd_out (dma_read_step g)) @ es)\<rparr>"
      unfolding eq ih(1) by (simp add: dma_read_step_def gd_emit_def Let_def)
    moreover have "list_all is_mem (drop (length (gd_out g)) (gd_out (dma_read_step g)) @ es)"
      using ih(2) by (simp add: dma_read_step_def gd_emit_def Let_def)
    moreover have "unat (gd_outstanding g) \<le> unat k"
      using ih(3) True outstanding_step [of g] by (simp add: dma_read_step_def gd_emit_def Let_def)
    ultimately show ?thesis by blast
  next
    case False
    then have "opIssueReadWindow g = g"
      by (subst opIssueReadWindow.simps) auto
    then show ?thesis
      by (intro exI [of _ "gd_req_off g"] exI [of _ "gd_next_off g"] exI [of _ "gd_outstanding g"] exI [of _ "gd_next_id g"] exI [of _ "[]"]) simp
  qed
qed

lemma write_window_shape:
  "\<exists>nx k i es. opIssueWriteWindow g = g\<lparr>gd_next_off := nx, gd_outstanding := k, gd_next_id := i, gd_out := gd_out g @ es\<rparr> \<and>
     list_all is_mem es \<and> unat (gd_outstanding g) \<le> unat k"
proof (induction g rule: opIssueWriteWindow.induct)
  case (1 g)
  show ?case
  proof (cases "gd_next_off g < of_nat (length (gd_outb g)) \<and> gd_outstanding g < kMaxOpDmaOutstanding")
    case True
    then have eq: "opIssueWriteWindow g = opIssueWriteWindow (dma_write_step g)"
      by (subst opIssueWriteWindow.simps) simp
    obtain nx k i es where ih: "opIssueWriteWindow (dma_write_step g) = (dma_write_step g)\<lparr>gd_next_off := nx,
        gd_outstanding := k, gd_next_id := i, gd_out := gd_out (dma_write_step g) @ es\<rparr>"
        "list_all is_mem es" "unat (gd_outstanding (dma_write_step g)) \<le> unat k"
      using 1 True by blast
    have "opIssueWriteWindow g = g\<lparr>gd_next_off := nx, gd_outstanding := k, gd_next_id := i,
        gd_out := gd_out g @ (drop (length (gd_out g)) (gd_out (dma_write_step g)) @ es)\<rparr>"
      unfolding eq ih(1) by (simp add: dma_write_step_def gd_emit_def Let_def)
    moreover have "list_all is_mem (drop (length (gd_out g)) (gd_out (dma_write_step g)) @ es)"
      using ih(2) by (simp add: dma_write_step_def gd_emit_def Let_def)
    moreover have "unat (gd_outstanding g) \<le> unat k"
      using ih(3) True outstanding_step [of g] by (simp add: dma_write_step_def gd_emit_def Let_def)
    ultimately show ?thesis by blast
  next
    case False
    then have "opIssueWriteWindow g = g"
      by (subst opIssueWriteWindow.simps) auto
    then show ?thesis
      by (intro exI [of _ "gd_next_off g"] exI [of _ "gd_outstanding g"] exI [of _ "gd_next_id g"] exI [of _ "[]"]) simp
  qed
qed

lemma read_window_fields [simp]:
  "gd_cfg (opIssueReadWindow g) = gd_cfg g" "gd_phase (opIssueReadWindow g) = gd_phase g"
  "gd_busy_until (opIssueReadWindow g) = gd_busy_until g" "gd_op_args (opIssueReadWindow g) = gd_op_args g"
  "gd_outb (opIssueReadWindow g) = gd_outb g" "gd_in_bytes (opIssueReadWindow g) = gd_in_bytes g" "gd_in (opIssueReadWindow g) = gd_in g"
  using read_window_shape [of g] by (elim exE conjE, simp)+

lemma write_window_fields [simp]:
  "gd_cfg (opIssueWriteWindow g) = gd_cfg g" "gd_phase (opIssueWriteWindow g) = gd_phase g"
  "gd_busy_until (opIssueWriteWindow g) = gd_busy_until g" "gd_op_args (opIssueWriteWindow g) = gd_op_args g"
  "gd_outb (opIssueWriteWindow g) = gd_outb g" "gd_req_off (opIssueWriteWindow g) = gd_req_off g"
  using write_window_shape [of g] by (elim exE conjE, simp)+

lemma window_busy:
  assumes "gd_outstanding g = 0"
  shows "gd_next_off g < gd_in_bytes g \<Longrightarrow> gd_outstanding (opIssueReadWindow g) \<noteq> 0"
    "gd_next_off g < of_nat (length (gd_outb g)) \<Longrightarrow> gd_outstanding (opIssueWriteWindow g) \<noteq> 0"
proof -
  assume "gd_next_off g < gd_in_bytes g"
  then have "opIssueReadWindow g = opIssueReadWindow (dma_read_step g)"
    using assms by (subst opIssueReadWindow.simps) (simp add: kMaxOpDmaOutstanding_def)
  moreover have "gd_outstanding (dma_read_step g) = 1"
    using assms by (simp add: dma_read_step_def gd_emit_def Let_def)
  ultimately show "gd_outstanding (opIssueReadWindow g) \<noteq> 0"
    using read_window_shape [of "dma_read_step g"] by (auto dest: arg_cong [of _ _ gd_outstanding])
next
  assume "gd_next_off g < of_nat (length (gd_outb g))"
  then have "opIssueWriteWindow g = opIssueWriteWindow (dma_write_step g)"
    using assms by (subst opIssueWriteWindow.simps) (simp add: kMaxOpDmaOutstanding_def)
  moreover have "gd_outstanding (dma_write_step g) = 1"
    using assms by (simp add: dma_write_step_def gd_emit_def Let_def)
  ultimately show "gd_outstanding (opIssueWriteWindow g) \<noteq> 0"
    using write_window_shape [of "dma_write_step g"] by (auto dest: arg_cong [of _ _ gd_outstanding])
qed

lemma idle_cong:
  assumes "mem_events g = mem_events h" "gd_req_off g = gd_req_off h" "gd_next_id g = gd_next_id h" "gd_cfg g = gd_cfg h"
  shows "idle_inv D g = idle_inv D h"
  unfolding idle_inv_def ids_ok_def open_reads_def open_writes_def assms ..

lemma rejected_dma:
  assumes "opReject g = Inr g'" "idle_inv D g" "gd_cfg g = c"
  shows "dma_inv c m D inp g'"
proof -
  have "idle_inv D (g\<lparr>gd_phase := OP_IDLE, gd_busy_until := 0\<rparr>)"
    using assms(2) by (subst idle_cong [of _ g]) (simp_all add: mem_events_def)
  then show ?thesis
    unfolding dma_cong(1) [OF reject_dma [OF assms(1)]] using assms(3) by (simp add: dma_inv_def)
qed

lemma begin_writeback_dma:
  assumes idle: "idle_inv D g" and c: "gd_cfg g = c" "gc_kernel c = Some k" and comp: "computed k inp g"
    and busy: "gd_busy_until g = 0" and step: "opBeginWriteback g = Inr g'"
  shows "dma_inv c m D inp g'"
proof (cases "dmaRangeOk (gd_cfg g) (ka_dst_addr (gd_op_args g)) (of_nat (length (gd_outb g)))")
  case False
  then show ?thesis
    using step idle c by (intro rejected_dma [of g]) (auto simp: opBeginWriteback_def)
next
  case True
  let ?g = "g\<lparr>gd_phase := OP_WRITING, gd_outstanding := 0, gd_next_off := 0\<rparr>"
  have "write_inv m D ?g"
    using idle comp True by (intro write_inv_start) (auto simp: idle_inv_def computed_def)
  then have w: "write_inv m D (opIssueWriteWindow ?g)"
      "gd_next_off (opIssueWriteWindow ?g) = of_nat (length (gd_outb g)) \<or> gd_outstanding (opIssueWriteWindow ?g) = kMaxOpDmaOutstanding"
    using write_inv_window [of m D ?g] by auto
  have "0 < (of_nat (length (gd_outb g)) :: u64)"
    using comp by (auto simp: computed_def word_less_nat_alt unat_of_nat)
  then have "gd_outstanding (opIssueWriteWindow ?g) \<noteq> 0"
    by (intro window_busy(2)) simp_all
  then have "dma_inv c m D inp (opIssueWriteWindow ?g)"
    using w c busy comp by (simp add: dma_inv_def computed_def)
  moreover have "g' = updatePrimaryHold False (opIssueWriteWindow ?g)"
    using step True by (simp add: opBeginWriteback_def)
  ultimately show ?thesis
    using dma_cong(1) [OF hold_dma] by blast
qed

lemma read_idle: "read_inv m D g \<Longrightarrow> dom (gd_req_off g) = {} \<Longrightarrow> idle_inv D g"
  by (simp add: read_inv_def idle_inv_def)

lemma compute_dma:
  assumes c: "gd_cfg g = c" "gc_kernel c = Some k" and contract: "kernel_contract k"
    and phase: "gd_phase g = OP_READING" "gd_in_bytes g = k_inputBytes k (gd_op_args g)" "gd_in_bytes g \<noteq> 0"
    and inv: "read_inv m D g" "dom (gd_req_off g) = {}" "gd_next_off g = gd_in_bytes g" and inp: "gd_in g = inp"
    and busy: "gd_busy_until g = 0" and step: "opComputeAndStartBusy k g = Inr g'"
  shows "dma_inv c m D inp g'"
proof -
  obtain lat out where out: "k_compute k (gd_op_args g) (gd_in g) = Inr (lat, out)" "out \<noteq> []" "length out < 2 ^ 64"
  proof -
    have len: "length (gd_in g) = unat (k_inputBytes k (gd_op_args g))"
      using inv(1) phase(2) by (simp add: read_inv_def)
    then show thesis
      using that kernel_contract.compute_ok [OF contract _ len] kernel_contract.compute_length_64 [OF contract _ len] phase(2,3) by metis
  qed
  let ?g1 = "gd_emit [D_stat ''kernels_launched'' 1] (g\<lparr>gd_outb := out, gd_latency_override := 0\<rparr>)"
  have ev: "mem_events ?g1 = mem_events g"
    by (simp add: mem_events_def gd_emit_def)
  have fields: "gd_cfg ?g1 = c" "gd_busy_until ?g1 = 0" "gd_op_args ?g1 = gd_op_args g" "gd_outb ?g1 = out" "gd_phase ?g1 = OP_READING"
      "gd_req_off ?g1 = gd_req_off g" "gd_next_id ?g1 = gd_next_id g" "gd_in ?g1 = inp" "gd_in_bytes ?g1 = gd_in_bytes g"
      "gd_next_off ?g1 = gd_next_off g" "gd_outstanding ?g1 = gd_outstanding g"
    using c busy phase inp by (simp_all add: gd_emit_def)
  have comp: "computed k inp ?g1"
    using out inp by (simp add: computed_def gd_emit_def)
  show ?thesis
  proof (cases "(if gd_latency_override g \<noteq> 0 then gd_latency_override g else if lat \<noteq> 0 then lat else gc_kernel_latency (gd_cfg g)) = 0")
    case True
    then have "opBeginWriteback ?g1 = Inr g'"
      using step out by (simp add: opComputeAndStartBusy_def Let_def split: if_splits)
    moreover have "idle_inv D ?g1"
      using read_idle [OF inv(1,2)] idle_cong [OF ev fields(6,7)] fields(1) c(1) by simp
    ultimately show ?thesis
      using begin_writeback_dma [OF _ fields(1) c(2) comp fields(2)] by blast
  next
    case False
    then obtain b where g': "g' = updatePrimaryHold False (?g1\<lparr>gd_busy_until := b\<rparr>)"
      using step out by (auto simp: opComputeAndStartBusy_def Let_def split: if_splits)
    have "read_inv m D (?g1\<lparr>gd_busy_until := b\<rparr>) = read_inv m D g"
      using inp by (simp add: read_inv_def ids_ok_def open_reads_def open_writes_def covers_read_def gd_emit_def mem_events_def)
    then have "dma_inv c m D inp (?g1\<lparr>gd_busy_until := b\<rparr>)"
      using inv comp c phase fields by (simp add: dma_inv_def computed_def)
    then show ?thesis
      using g' dma_cong(1) [OF hold_dma] by blast
  qed
qed

lemma start_dma:
  assumes idle: "idle_inv D g" and c: "gd_cfg g = c" "gc_kernel c = Some k" and busy: "gd_busy_until g = 0"
    and step: "opStartDma k g = Inr g'"
  shows "dma_inv c m D inp g'"
proof -
  let ?n = "k_inputBytes k (gd_op_args g)"
  let ?g = "g\<lparr>gd_in_bytes := ?n\<rparr>"
  have idle': "idle_inv D ?g"
    using idle by (subst idle_cong [of _ g]) (simp_all add: mem_events_def)
  show ?thesis
  proof (cases "?n = 0 \<or> \<not> dmaRangeOk (gd_cfg g) (ka_src_addr (gd_op_args g)) ?n \<or> \<not> dmaRangeOk (gd_cfg g) (ka_dst_addr (gd_op_args g)) 1")
    case True
    then have "opReject ?g = Inr g'"
      using step by (auto simp: opStartDma_def Let_def split: if_splits)
    then show ?thesis
      using rejected_dma [OF _ idle'] c by simp
  next
    case False
    let ?r = "?g\<lparr>gd_in := replicate (unat ?n) 0, gd_req_off := (\<lambda>_. None), gd_outstanding := 0, gd_next_off := 0, gd_phase := OP_READING\<rparr>"
    have "read_inv m D ?r"
      using read_inv_start [of D ?g m] idle' False by (simp add: idle_inv_def)
    then have r: "read_inv m D (opIssueReadWindow ?r)"
        "gd_next_off (opIssueReadWindow ?r) = ?n \<or> gd_outstanding (opIssueReadWindow ?r) = kMaxOpDmaOutstanding"
      using read_inv_window [of m D ?r] by auto
    have "gd_outstanding (opIssueReadWindow ?r) \<noteq> 0"
      using False by (intro window_busy(1)) (simp_all add: word_gt_0)
    then have "dom (gd_req_off (opIssueReadWindow ?r)) \<noteq> {}"
      using r(1) by (auto simp: read_inv_def unat_eq_0)
    then have "dma_inv c m D inp (opIssueReadWindow ?r)"
      using r False c busy by (simp add: dma_inv_def)
    moreover have "g' = updatePrimaryHold False (opIssueReadWindow ?r)"
      using step False by (simp add: opStartDma_def Let_def)
    ultimately show ?thesis
      using dma_cong(1) [OF hold_dma] by blast
  qed
qed

text \<open>Without a kernel the DMA engine stays idle: the latency model touches none of it.\<close>

definition latency_view where
  "latency_view g = (gd_cfg g, gd_phase g, gd_req_off g, gd_next_id g, mem_events g)"

lemma latency_view_dma: "dma_view g = dma_view h \<Longrightarrow> latency_view g = latency_view h"
  by (simp add: dma_view_def latency_view_def)

lemma dma_inv_no_kernel:
  "gc_kernel c = None \<Longrightarrow> dma_inv c m D inp g \<longleftrightarrow> gd_cfg g = c \<and> gd_phase g = OP_IDLE \<and> idle_inv D g"
  by (auto simp: dma_inv_def split: op_phase.splits)

lemma dma_inv_latency:
  assumes "gc_kernel c = None" "latency_view g = latency_view h"
  shows "dma_inv c m D inp g = dma_inv c m D inp h"
  using assms(2) idle_cong [of g h] by (auto simp: dma_inv_no_kernel [OF assms(1)] latency_view_def)

lemma startKernel_latency: "startKernel now lat g = Inr g' \<Longrightarrow> latency_view g' = latency_view g"
  by (auto simp: startKernel_def Let_def res_bind_Inr_iff latency_view_dma [OF hold_dma] split: if_splits
      dest!: raise_dma latency_view_dma) (simp_all add: latency_view_def gd_emit_def mem_events_def)

lemma start_pending_latency: "start_pending now ls g = Inr g' \<Longrightarrow> latency_view g' = latency_view g"
proof (induction ls arbitrary: g)
  case (Cons l ls)
  have "latency_view (g\<lparr>gd_pending := ls\<rparr>) = latency_view g"
    by (simp add: latency_view_def mem_events_def)
  then show ?case
    using Cons by (auto simp: res_bind_Inr_iff split: if_splits dest!: startKernel_latency)
qed simp

lemma retire_latency:
  assumes "retireIfReady now g = Inr g'" "gc_kernel (gd_cfg g) = None \<or> gd_phase g \<noteq> OP_READING"
  shows "latency_view g' = latency_view g"
proof -
  have "latency_view (release_deferred (g\<lparr>gd_kernel_id := gd_kernel_id g + 1, gd_busy_until := 0\<rparr>)) = latency_view g"
    unfolding latency_view_dma [OF release_dma(2)] by (simp add: latency_view_def mem_events_def)
  then show ?thesis
    using assms by (auto simp: retireIfReady_def res_bind_Inr_iff split: if_splits
        dest!: start_pending_latency raise_dma latency_view_dma)
qed

lemma dma_inv_busy:
  assumes "dma_inv c m D inp g" "gc_kernel c = Some k" "gd_busy_until g \<noteq> 0"
  shows "gd_phase g = OP_READING \<and> dom (gd_req_off g) = {} \<and> computed k inp g \<and> idle_inv D g"
  using assms read_idle by (auto simp: dma_inv_def split: op_phase.splits if_splits)

lemma retire_dma:
  assumes inv: "dma_inv c m D inp g" and step: "retireIfReady now g = Inr g'"
  shows "dma_inv c m D inp g'"
proof (cases "gc_kernel c")
  case None
  have "gd_cfg g = c" using inv by (simp add: dma_inv_def)
  then have "latency_view g' = latency_view g"
    using retire_latency [OF step] None by simp
  from dma_inv_latency [OF None this] show ?thesis
    using inv by blast
next
  case (Some k)
  have c: "gd_cfg g = c"
    using inv by (simp add: dma_inv_def)
  show ?thesis
  proof (cases "gd_busy_until g = 0 \<or> now < gd_busy_until g")
    case True
    then show ?thesis
      using inv step by (auto simp: retireIfReady_def)
  next
    case False
    then have r: "gd_phase g = OP_READING" "computed k inp g" "idle_inv D g"
      using dma_inv_busy [OF inv Some] by auto
    then have wb: "opBeginWriteback (g\<lparr>gd_busy_until := 0\<rparr>) = Inr g'"
      using step False Some c by (simp add: retireIfReady_def)
    have "idle_inv D (g\<lparr>gd_busy_until := 0\<rparr>)"
      using r(3) by (subst idle_cong [of _ g]) (simp_all add: mem_events_def)
    then show ?thesis
      using wb c Some r(2) by (intro begin_writeback_dma [of D "g\<lparr>gd_busy_until := 0\<rparr>" c k]) (simp_all add: computed_def)
  qed
qed

lemma dma_same: "dma_inv c m D inp g \<Longrightarrow> dma_view h = dma_view g \<Longrightarrow> dma_inv c m D inp h"
  using dma_cong(1) by blast

lemma with_writer_dma: "with_writer f g = Inr g' \<Longrightarrow> dma_view g' = dma_view g"
  by (auto simp: dma_view_def mem_events_def dest!: with_writer_shape)

lemma tick_dma:
  assumes inv: "dma_inv c m D inp g" and step: "tickBusy g = Inr g'"
  shows "dma_inv c m D inp g'"
proof -
  let ?g1 = "g\<lparr>gd_clk := gd_clk g + 1\<rparr>"
  let ?g2 = "if gd_busy_until ?g1 \<noteq> 0 then gd_emit [D_stat ''busy_cycles'' 1] ?g1 else ?g1"
  have "dma_view ?g2 = dma_view g"
    by (simp add: dma_view_def gd_emit_def mem_events_def)
  then have "dma_inv c m D inp ?g2"
    using dma_same [OF inv] by blast
  moreover obtain g3 where "retireIfReady (gd_clk ?g2) ?g2 = Inr g3" "g' = updatePrimaryHold True g3"
    using step by (auto simp: tickBusy_def Let_def res_bind_Inr_iff)
  ultimately show ?thesis
    using dma_same [OF retire_dma] by simp
qed

lemma read_dma:
  assumes inv: "dma_inv c m D inp g" and step: "gpu_read rd g = Inr g'"
  shows "dma_inv c m D inp g'"
proof -
  obtain v g1 where reg: "register_read (dr_addr rd - gc_base (gd_cfg g)) g = Inr (v, g1)"
      and g': "dma_view g' = dma_view g1"
    using step by (auto simp: gpu_read_def res_bind_Inr_iff)
  have "dma_view g1 = dma_view g \<or> (\<exists>g2. retireIfReady (gd_clk g) g = Inr g2 \<and> dma_view g1 = dma_view g2)"
    using reg by (auto simp: register_read_def res_bind_Inr_iff split: if_splits)
  then have "dma_inv c m D inp g1"
    using dma_same [OF inv] dma_same [OF retire_dma [OF inv]] by blast
  then show ?thesis
    using g' dma_same by blast
qed

lemma register_write_dma:
  assumes inv: "dma_inv c m D inp g" and step: "register_write offset wr g = Inr g'"
    and mode: "offset = REG_DOORBELL \<Longrightarrow> gc_kernel c = None"
  shows "dma_inv c m D inp g'"
proof (cases "offset = REG_DOORBELL")
  case True
  note none = mode [OF True]
  have c: "gd_cfg g = c" using inv by (simp add: dma_inv_def)
  have "latency_doorbell g = Inr g'"
    using step True by (simp add: register_write_def)
  then obtain g1 lat g2 where g1: "retireIfReady (gd_clk g) (g\<lparr>gd_latency_override := 0\<rparr>) = Inr g1"
    and g2: "(if \<not> isBusyAt g1 \<and> gd_pending g1 = [] then startKernel (gd_clk g1) lat (g1\<lparr>gd_submit_id := gd_submit_id g1 + 1\<rparr>)
        else if length (gd_pending g1) < kMaxPendingLaunches then
          Inr (updatePrimaryHold False (gd_emit [D_stat ''doorbell_while_busy'' 1]
            (g1\<lparr>gd_submit_id := gd_submit_id g1 + 1, gd_pending := gd_pending g1 @ [lat]\<rparr>)))
        else Inr (gd_emit [D_stat ''doorbell_while_busy'' 1] g1)) = Inr g2"
    and g': "g' = gd_emit [D_stat ''doorbell_writes'' 1] g2"
    unfolding latency_doorbell_def Let_def res_bind_Inr_iff by blast
  have "latency_view g1 = latency_view g"
    using retire_latency [OF g1] none c by (simp add: latency_view_def mem_events_def)
  moreover have "latency_view (g1\<lparr>gd_submit_id := x\<rparr>) = latency_view g1" "latency_view (g1\<lparr>gd_submit_id := x, gd_pending := y\<rparr>) = latency_view g1" for x y
    by (simp_all add: latency_view_def mem_events_def)
  then have "latency_view g2 = latency_view g1"
    using g2 by (auto simp: latency_view_dma [OF hold_dma] latency_view_dma [OF emit_dma] split: if_splits dest!: startKernel_latency)
  moreover have "latency_view g' = latency_view g2"
    unfolding g' by (rule latency_view_dma) simp
  ultimately show ?thesis
    using dma_inv_latency [OF none, of g' g] inv by simp
next
  case False
  have "dma_view g' = dma_view g"
    using step False
    by (auto simp: register_write_def irq_witness_write_def emitIrqEvent_def checkpoint_write_def Let_def split: if_splits
        dest: with_writer_dma ack_dma) (simp_all add: dma_view_def mem_events_def gd_emit_def)
  then show ?thesis
    using dma_same [OF inv] by blast
qed

lemma gpu_write_register:
  assumes step: "gpu_write wr g = Inr g'" and off: "off = dw_addr wr - gc_base (gd_cfg g)"
    and reg: "\<not> (off = REG_DOORBELL \<and> gc_kernel (gd_cfg g) \<noteq> None)"
  shows "\<exists>g1. register_write off wr g = Inr g1 \<and>
    (off = REG_DOORBELL \<and> isBusyAt g1 \<and> g' = g1\<lparr>gd_deferred := Some (dw_id wr)\<rparr> \<or>
     g' = gd_emit [D_write_resp (dw_id wr)] g1 \<or> g' = g1)"
proof -
  have "\<exists>g1. register_write off wr g = Inr g1 \<and>
      (if off = REG_DOORBELL \<and> gc_blocking (gd_cfg g1) \<and> isBusyAt g1 \<and> \<not> dw_posted wr then
         if gd_deferred g1 \<noteq> None then Inl (Fatal ''doorbell while a blocking doorbell is outstanding'')
         else Inr (g1\<lparr>gd_deferred := Some (dw_id wr)\<rparr>)
       else Inr (if \<not> dw_posted wr then gd_emit [D_write_resp (dw_id wr)] g1 else g1)) = Inr g'"
    using step reg unfolding gpu_write_def Let_def off res_bind_Inr_iff [symmetric]
    by (auto split: bool.splits option.splits)
  then show ?thesis
    by (auto split: if_splits)
qed

lemma write_dma:
  assumes inv: "dma_inv c m D inp g" and step: "gpu_write wr g = Inr g'"
  shows "dma_inv c m D inp g'"
proof (cases "dw_addr wr - gc_base (gd_cfg g) = REG_DOORBELL \<and> gc_kernel c \<noteq> None")
  case True
  then obtain k where k: "gc_kernel c = Some k" by auto
  have c: "gd_cfg g = c" using inv by (simp add: dma_inv_def)
  let ?g = "gd_emit [D_stat ''doorbell_writes'' 1] g"
  let ?g1 = "if \<not> dw_posted wr \<and> gc_blocking (gd_cfg ?g) then ?g\<lparr>gd_op_resp := Some (dw_id wr)\<rparr> else ?g"
  let ?g2 = "?g1\<lparr>gd_submit_id := gd_submit_id ?g1 + 1, gd_op_args := \<lparr>ka_src_addr = gd_arg_regs ?g1 ! 0,
     ka_dst_addr = gd_arg_regs ?g1 ! 1, ka_arg2 = gd_arg_regs ?g1 ! 2, ka_arg3 = gd_arg_regs ?g1 ! 3\<rparr>\<rparr>"
  have kd: "kernel_doorbell k wr g = Inr g'"
    using step True k c by (simp add: gpu_write_def Let_def)
  then have idle: "gd_phase g = OP_IDLE" "gd_busy_until g = 0"
    by (auto simp: kernel_doorbell_def isBusyAt_def Let_def gd_emit_def split: if_splits)
  then have free: "\<not> (gd_phase ?g \<noteq> OP_IDLE \<or> isBusyAt ?g)"
    by (simp add: isBusyAt_def gd_emit_def)
  obtain g3 g4 where g3: "emitOpRequested ?g2 = Inr g3" and g4: "opStartDma k g3 = Inr g4"
      and g': "g' = (if \<not> dw_posted wr \<and> \<not> gc_blocking (gd_cfg g4) then gd_emit [D_write_resp (dw_id wr)] g4 else g4)"
    using kd [unfolded kernel_doorbell_def Let_def if_not_P [OF free] res_bind_Inr_iff] by blast
  have v: "dma_view g' = dma_view g4"
    by (simp add: g')
  have "latency_view g3 = latency_view g" "gd_busy_until g3 = 0"
    using g3 idle by (auto simp: latency_view_def mem_events_def gd_emit_def dest!: emit_shapes(1))
  then have "idle_inv D g3" "gd_cfg g3 = c"
    using inv idle c idle_cong [of g3 g D] by (auto simp: latency_view_def dma_inv_def)
  then have "dma_inv c m D inp g4"
    using start_dma [OF _ _ k \<open>gd_busy_until g3 = 0\<close> g4] by blast
  then show ?thesis
    using v dma_same by blast
next
  case False
  let ?off = "dw_addr wr - gc_base (gd_cfg g)"
  have c: "gd_cfg g = c" using inv by (simp add: dma_inv_def)
  obtain g1 where g1: "register_write ?off wr g = Inr g1"
      and cases: "?off = REG_DOORBELL \<and> isBusyAt g1 \<and> g' = g1\<lparr>gd_deferred := Some (dw_id wr)\<rparr> \<or>
        g' = gd_emit [D_write_resp (dw_id wr)] g1 \<or> g' = g1"
    using gpu_write_register [OF step refl] False c by blast
  then have v: "dma_view g' = dma_view g1"
    by (auto simp: dma_view_def mem_events_def gd_emit_def)
  have "dma_inv c m D inp g1"
    using False c by (intro register_write_dma [OF inv g1]) auto
  then show ?thesis
    using v dma_same by blast
qed

lemma read_resp_dma:
  assumes inv: "dma_inv c m D inp g" and contract: "kernel_contract k" and k: "gc_kernel c = Some k"
    and e: "D_mem_read i a n \<in> set (mem_events g)" "i \<notin> D"
    and step: "opOnReadResp k i (mem_bytes m a (unat n)) g = Inr g'"
  shows "dma_inv c m (insert i D) (mem_bytes m (ka_src_addr (gd_op_args g)) (unat (gd_in_bytes g))) g'"
proof -
  have "i \<in> open_reads D g"
    using e by (auto simp: open_reads_def)
  then have phase: "gd_phase g = OP_READING"
    using inv by (auto simp: dma_inv_def idle_inv_def write_inv_def split: op_phase.splits)
  then have r: "read_inv m D g" "gd_cfg g = c" "gd_in_bytes g = k_inputBytes k (gd_op_args g)" "gd_in_bytes g \<noteq> 0"
    using inv k by (auto simp: dma_inv_def)
  then have "dom (gd_req_off g) \<noteq> {}"
    using \<open>i \<in> open_reads D g\<close> by (auto simp: read_inv_def)
  then have busy: "gd_busy_until g = 0"
    using inv phase by (auto simp: dma_inv_def)
  obtain off where off: "gd_req_off g i = Some off"
      and inv1: "read_inv m (insert i D) (g\<lparr>gd_req_off := (gd_req_off g)(i := None),
        gd_in := copy_in (unat off) (unat (gd_in_bytes g)) (mem_bytes m a (unat n)) (gd_in g), gd_outstanding := gd_outstanding g - 1\<rparr>)"
        (is "read_inv m _ ?g1")
    using read_inv_answer [OF r(1) e] .
  define g2 where "g2 = opIssueReadWindow ?g1"
  have inv2: "read_inv m (insert i D) g2" "gd_next_off g2 = gd_in_bytes g2 \<or> gd_outstanding g2 = kMaxOpDmaOutstanding"
    using read_inv_window [OF inv1] by (auto simp: g2_def)
  have f2: "gd_cfg g2 = c" "gd_phase g2 = OP_READING" "gd_busy_until g2 = 0" "gd_op_args g2 = gd_op_args g" "gd_in_bytes g2 = gd_in_bytes g"
    using r phase busy by (simp_all add: g2_def)
  have out: "gd_outstanding g2 = 0 \<longleftrightarrow> dom (gd_req_off g2) = {}"
    using inv2(1) open_finite(1) [of "insert i D" g2] by (auto simp: read_inv_def unat_eq_0 dest!: arg_cong [of _ _ unat])
  have step2: "(if gd_outstanding g2 = 0 \<and> gd_next_off g2 = gd_in_bytes g2 then opComputeAndStartBusy k g2 else Inr g2) = Inr g'"
    using step unfolding opOnReadResp_def off option.case Let_def g2_def [symmetric] .
  show ?thesis
  proof (cases "gd_outstanding g2 = 0 \<and> gd_next_off g2 = gd_in_bytes g2")
    case True
    then have dom: "dom (gd_req_off g2) = {}" and nx: "gd_next_off g2 = gd_in_bytes g2"
      using out by auto
    have "gd_in g2 = mem_bytes m (ka_src_addr (gd_op_args g)) (unat (gd_in_bytes g))"
      using read_done [OF inv2(1) dom nx] f2 by simp
    then show ?thesis
      using step2 True f2 r k contract inv2 dom nx
      by (intro compute_dma [of g2 c k]) auto
  next
    case False
    then have "g' = g2" "gd_outstanding g2 \<noteq> 0"
      using step2 inv2(2) by (auto simp: kMaxOpDmaOutstanding_def)
    then show ?thesis
      using inv2 f2 r k out by (auto simp: dma_inv_def)
  qed
qed

lemma finish_dma:
  assumes "opFinish g = Inr g'"
  shows "dma_view g' = dma_view (g\<lparr>gd_phase := OP_IDLE\<rparr>) \<and> gd_kernel_id g' = gd_kernel_id g + 1"
proof -
  obtain g1 g2 where g1: "emitOpCompleted g = Inr g1"
      and g2: "raiseIrqOnRetire (release_op_resp (g1\<lparr>gd_phase := OP_IDLE, gd_kernel_id := gd_kernel_id g1 + 1\<rparr>)) = Inr g2"
      and g': "g' = updatePrimaryHold True g2"
    using assms by (auto simp: opFinish_def res_bind_Inr_iff)
  obtain w where "g1 = g\<lparr>gd_writer := w\<rparr>"
    using emit_shapes(2) [OF g1] by blast
  then have "dma_view g2 = dma_view (g\<lparr>gd_phase := OP_IDLE\<rparr>)"
    unfolding raise_dma [OF g2] release_dma(1) by (simp add: dma_view_def mem_events_def)
  moreover have "gd_kernel_id g2 = gd_kernel_id g + 1"
    using g2 \<open>g1 = _\<close> by (auto simp: raiseIrqOnRetire_def res_bind_Inr_iff Let_def gd_emit_def release_op_resp_def
        split: if_splits option.splits dest!: emitIrqEvent_shape)
  ultimately show ?thesis
    by (simp add: g') (simp add: updatePrimaryHold_def gd_emit_def)
qed

lemma write_resp_dma:
  assumes inv: "dma_inv c m D inp g" and e: "D_mem_write i a bs \<in> set (mem_events g)" "i \<notin> D"
    and step: "opOnWriteResp g = Inr g'"
  shows "dma_inv c (mem_store m a bs) (insert i D) inp g' \<and> gd_phase g = OP_WRITING \<and>
    (gd_phase g' = OP_IDLE \<longrightarrow> gd_kernel_id g' = gd_kernel_id g + 1 \<and> gd_op_args g' = gd_op_args g \<and>
       mem_bytes (mem_store m a bs) (ka_dst_addr (gd_op_args g)) (length (gd_outb g)) = gd_outb g)"
proof -
  have "i \<in> open_writes D g"
    using e by (auto simp: open_writes_def)
  then have phase: "gd_phase g = OP_WRITING"
    using inv by (auto simp: dma_inv_def idle_inv_def read_inv_def split: op_phase.splits)
  then obtain k where k: "gc_kernel c = Some k" "computed k inp g" "write_inv m D g" "gd_cfg g = c" "gd_busy_until g = 0"
    using inv by (auto simp: dma_inv_def)
  let ?m = "mem_store m a bs" and ?D = "insert i D"
  have inv1: "gd_outstanding g \<noteq> 0" "write_inv ?m ?D (g\<lparr>gd_outstanding := gd_outstanding g - 1\<rparr>)"
    using write_inv_answer [OF k(3) e] by auto
  define g2 where "g2 = opIssueWriteWindow (g\<lparr>gd_outstanding := gd_outstanding g - 1\<rparr>)"
  have inv2: "write_inv ?m ?D g2" "gd_next_off g2 = of_nat (length (gd_outb g2)) \<or> gd_outstanding g2 = kMaxOpDmaOutstanding"
    using write_inv_window [OF inv1(2)] by (auto simp: g2_def)
  have f2: "gd_cfg g2 = c" "gd_phase g2 = OP_WRITING" "gd_busy_until g2 = 0" "gd_op_args g2 = gd_op_args g" "gd_outb g2 = gd_outb g"
      "gd_kernel_id g2 = gd_kernel_id g"
    using k phase write_window_shape [of "g\<lparr>gd_outstanding := gd_outstanding g - 1\<rparr>"] by (auto simp: g2_def)
  have out: "gd_outstanding g2 = 0 \<longleftrightarrow> open_writes ?D g2 = {}"
    using inv2(1) open_finite(2) [of ?D g2] by (auto simp: write_inv_def unat_eq_0 dest!: arg_cong [of _ _ unat])
  have step2: "(if gd_outstanding g2 = 0 \<and> gd_next_off g2 = of_nat (length (gd_outb g2)) then opFinish g2 else Inr g2) = Inr g'"
    using step inv1(1) unfolding opOnWriteResp_def Let_def g2_def [symmetric] by simp
  show ?thesis
  proof (cases "gd_outstanding g2 = 0 \<and> gd_next_off g2 = of_nat (length (gd_outb g2))")
    case True
    then have fin: "opFinish g2 = Inr g'" using step2 by simp
    have none: "open_writes ?D g2 = {}" using True out by simp
    have "idle_inv ?D (g2\<lparr>gd_phase := OP_IDLE\<rparr>)"
      using inv2(1) none idle_cong [of "g2\<lparr>gd_phase := OP_IDLE\<rparr>" g2] by (auto simp: write_inv_def idle_inv_def mem_events_def)
    then have "dma_inv c ?m ?D inp (g2\<lparr>gd_phase := OP_IDLE\<rparr>)"
      using f2 by (simp add: dma_inv_def)
    then have "dma_inv c ?m ?D inp g'"
      using dma_same finish_dma [OF fin] by blast
    moreover have "mem_bytes ?m (ka_dst_addr (gd_op_args g)) (length (gd_outb g)) = gd_outb g"
      using write_done [OF inv2(1) none] True f2 by simp
    moreover have "gd_op_args g' = gd_op_args g"
      using finish_dma [OF fin] f2 by (simp add: dma_view_def)
    ultimately show ?thesis
      using phase finish_dma [OF fin] f2 by simp
  next
    case False
    then have "g' = g2" "gd_outstanding g2 \<noteq> 0"
      using step2 inv2(2) by (auto simp: kMaxOpDmaOutstanding_def)
    then show ?thesis
      using inv2 f2 k phase by (auto simp: dma_inv_def computed_def)
  qed
qed

lemma env_dma:
  assumes inv: "dma_inv c m D inp g" and env: "env_ok g m m'"
  shows "dma_inv c m' D inp g"
proof (cases "gd_phase g")
  case OP_IDLE
  then show ?thesis using inv by (simp add: dma_inv_def)
next
  case OP_READING
  have same: "m' (ka_src_addr (gd_op_args g) + of_nat j) = m (ka_src_addr (gd_op_args g) + of_nat j)" if "j < unat (gd_in_bytes g)" for j
    using env OP_READING that by (metis env_ok_def mem_bytes_simps(2))
  have r: "unat (gd_next_off g) \<le> unat (gd_in_bytes g)" "read_inv m D g"
    using inv OP_READING by (auto simp: dma_inv_def read_inv_def word_le_nat_alt)
  then have "covers_read g j \<or> gd_in g ! j = m' (ka_src_addr (gd_op_args g) + of_nat j)" if "j < unat (gd_next_off g)" for j
    using same that by (auto simp: read_inv_def)
  then have "read_inv m' D g"
    using r(2) unfolding read_inv_def by blast
  then show ?thesis
    using inv OP_READING by (auto simp: dma_inv_def)
next
  case OP_WRITING
  have same: "m' (ka_dst_addr (gd_op_args g) + of_nat j) = m (ka_dst_addr (gd_op_args g) + of_nat j)" if "j < length (gd_outb g)" for j
    using env OP_WRITING that by (metis env_ok_def mem_bytes_simps(2))
  have w: "unat (gd_next_off g) \<le> length (gd_outb g)" "write_inv m D g"
    using inv OP_WRITING by (auto simp: dma_inv_def write_inv_def)
  then have "covers_write D g j \<or> m' (ka_dst_addr (gd_op_args g) + of_nat j) = gd_outb g ! j" if "j < unat (gd_next_off g)" for j
    using same that by (auto simp: write_inv_def)
  then have "write_inv m' D g"
    using w(2) unfolding write_inv_def by blast
  then show ?thesis
    using inv OP_WRITING by (auto simp: dma_inv_def)
qed

lemma new_dma: "new_gpu_dev p = Inr g \<Longrightarrow> dma_inv (gp_cfg p) m {} [] g"
  by (auto simp: new_gpu_dev_def Let_def res_bind_Inr_iff dma_inv_def idle_inv_def ids_ok_def open_reads_def open_writes_def
      mem_events_def split: if_splits)

lemma dma_inv_run:
  assumes "gpu_run p s" and contract: "\<And>k. gc_kernel (gp_cfg p) = Some k \<Longrightarrow> kernel_contract k"
  shows "dma_inv (gp_cfg p) (sy_mem s) (sy_done s) (sy_input s) (sy_dev s)"
  using assms(1)
proof induction
  case (gr_env s m' t)
  have "dma_view ((sy_dev s)\<lparr>gd_time := t\<rparr>) = dma_view (sy_dev s)"
    by (simp add: dma_view_def mem_events_def)
  then show ?case
    using dma_same [OF env_dma [OF gr_env.IH gr_env.hyps(2)]] by simp
next
  case (gr_read_resp s i a n k g')
  then have "gc_kernel (gp_cfg p) = Some k"
    by (simp add: dma_inv_def)
  then show ?case
    using read_resp_dma [OF gr_read_resp.IH contract] gr_read_resp.hyps by simp
next
  case (gr_write_resp s i a bs g')
  then show ?case
    using write_resp_dma by fastforce
qed (auto intro: new_dma tick_dma write_dma read_dma)

section \<open>An operation\<close>

text \<open>Two samples at \<open>0x103E\<close>, across a cache line, scaled by 3 and offset by 1 into \<open>0x1100\<close>; the two reads are answered in
  reverse order.\<close>

definition ex_gpu :: gpu_params where
  "ex_gpu = \<lparr>gp_cfg = \<lparr>gc_base = 0, gc_kernel_latency = 0, gc_blocking = False, gc_checkpoints = False, gc_irq_witnesses = False,
       gc_irq_line = 5, gc_irq_vcpu = 0, gc_range_start = 0x1000, gc_range_end = 0x1FFF, gc_line_size = 64,
       gc_kernel = Some (ScaleOffsetKernel 0 False)\<rparr>,
     gp_dma_bytes = 0, gp_clock_ok = True, gp_has_iface = True, gp_has_mem_iface = True, gp_event_file = [],
     gp_event_source = [], gp_event_operation = [], gp_event_open = True, gp_event_flush = (\<lambda>_. True), gp_irq_linked = True\<rparr>"

definition ex_mem :: "u64 \<Rightarrow> u8" where
  "ex_mem a = (if a = 0x103E then 10 else if a = 0x1040 then 20 else 0)"

definition reg_write :: "u64 \<Rightarrow> u64 \<Rightarrow> dev_write" where
  "reg_write offset v = \<lparr>dw_id = 9, dw_addr = offset, dw_data = accelU64ToData v 8, dw_posted = False\<rparr>"

definition ex_dev0 :: gpu_dev where
  "ex_dev0 = projr (new_gpu_dev ex_gpu)"

text \<open>A sequence of register writes, and when it is a run.\<close>

fun do_writes :: "dev_write list \<Rightarrow> gpu_dev \<Rightarrow> gpu_dev" where
  "do_writes [] g = g"
| "do_writes (w # ws) g = do_writes ws (projr (gpu_write w g))"

fun writes_ok :: "dev_write list \<Rightarrow> gpu_dev \<Rightarrow> bool" where
  "writes_ok [] g = True"
| "writes_ok (w # ws) g \<longleftrightarrow> gd_submit_id g < 2 ^ 63 \<and> dw_addr w - gc_base (gd_cfg g) \<noteq> REG_LATENCY_OVERRIDE \<and>
     \<not> isl (gpu_write w g) \<and> writes_ok ws (projr (gpu_write w g))"

lemma run_writes: "gpu_run p s \<Longrightarrow> writes_ok ws (sy_dev s) \<Longrightarrow> gpu_run p (s\<lparr>sy_dev := do_writes ws (sy_dev s)\<rparr>)"
proof (induction ws arbitrary: s)
  case (Cons w ws)
  have "gpu_write w (sy_dev s) = Inr (projr (gpu_write w (sy_dev s)))"
    using Cons.prems(2) by simp
  then have "gpu_run p (s\<lparr>sy_dev := projr (gpu_write w (sy_dev s))\<rparr>)"
    using Cons.prems by (intro gr_write) auto
  then show ?case
    using Cons.IH [of "s\<lparr>sy_dev := projr (gpu_write w (sy_dev s))\<rparr>"] Cons.prems(2) by simp
qed simp

definition ex_started :: gpu_dev where
  "ex_started = do_writes [reg_write REG_ARG0 0x103E, reg_write REG_ARG1 0x1100, reg_write REG_ARG2 2, reg_write REG_ARG3 0x10003,
     reg_write REG_DOORBELL 1] ex_dev0"

definition ex_half :: gpu_dev where
  "ex_half = projr (opOnReadResp (ScaleOffsetKernel 0 False) 1 (mem_bytes ex_mem 0x1040 (unat (2 :: u64))) ex_started)"

definition ex_writing :: gpu_dev where
  "ex_writing = projr (opOnReadResp (ScaleOffsetKernel 0 False) 0 (mem_bytes ex_mem 0x103E (unat (2 :: u64))) ex_half)"

definition ex_done :: gpu_dev where
  "ex_done = projr (opOnWriteResp ex_writing)"

lemma ex_contract: "gc_kernel (gp_cfg ex_gpu) = Some k \<Longrightarrow> kernel_contract k"
  by (auto simp: ex_gpu_def intro: so.kernel_contract_axioms)

lemma ex_kernel: "gpu_run ex_gpu s \<Longrightarrow> gc_kernel (gd_cfg (sy_dev s)) = Some (ScaleOffsetKernel 0 False)"
  using dma_inv_run [of ex_gpu s, OF _ ex_contract] by (simp add: dma_inv_def ex_gpu_def)

lemma ex_run:
  "gpu_run ex_gpu \<lparr>sy_mem = ex_mem, sy_done = {0, 1},
     sy_input = mem_bytes ex_mem (ka_src_addr (gd_op_args ex_half)) (unat (gd_in_bytes ex_half)), sy_dev = ex_writing\<rparr>"
proof -
  have "\<not> isl (new_gpu_dev ex_gpu)"
    by code_simp
  then have "new_gpu_dev ex_gpu = Inr ex_dev0"
    by (simp add: ex_dev0_def)
  then have "gpu_run ex_gpu \<lparr>sy_mem = ex_mem, sy_done = {}, sy_input = [], sy_dev = ex_dev0\<rparr>"
    by (rule gr_new)
  moreover have "writes_ok [reg_write REG_ARG0 0x103E, reg_write REG_ARG1 0x1100, reg_write REG_ARG2 2, reg_write REG_ARG3 0x10003,
     reg_write REG_DOORBELL 1] ex_dev0"
    by code_simp
  ultimately have r0: "gpu_run ex_gpu \<lparr>sy_mem = ex_mem, sy_done = {}, sy_input = [], sy_dev = ex_started\<rparr>"
    using run_writes [of ex_gpu "\<lparr>sy_mem = ex_mem, sy_done = {}, sy_input = [], sy_dev = ex_dev0\<rparr>"]
    unfolding ex_started_def gpu_sys.simps by blast
  have e1: "D_mem_read 1 0x1040 2 \<in> set (mem_events ex_started)"
      "\<not> isl (opOnReadResp (ScaleOffsetKernel 0 False) 1 (mem_bytes ex_mem 0x1040 (unat (2 :: u64))) ex_started)"
    by code_simp+
  have r1: "gpu_run ex_gpu \<lparr>sy_mem = ex_mem, sy_done = {1},
      sy_input = mem_bytes ex_mem (ka_src_addr (gd_op_args ex_started)) (unat (gd_in_bytes ex_started)), sy_dev = ex_half\<rparr>"
    using gr_read_resp [OF r0, of 1 "0x1040" 2 "ScaleOffsetKernel 0 False" ex_half] e1 ex_kernel [OF r0] by (simp add: ex_half_def)
  have e2: "D_mem_read 0 0x103E 2 \<in> set (mem_events ex_half)"
      "\<not> isl (opOnReadResp (ScaleOffsetKernel 0 False) 0 (mem_bytes ex_mem 0x103E (unat (2 :: u64))) ex_half)"
    by code_simp+
  show ?thesis
    using gr_read_resp [OF r1, of 0 "0x103E" 2 "ScaleOffsetKernel 0 False" ex_writing] e2 ex_kernel [OF r1] by (simp add: ex_writing_def insert_commute)
qed

section \<open>Properties\<close>

text \<open>C13. A finished kernel operation leaves the kernel's result in memory: when the response to the last outstanding DMA write retires
  the operation, the output buffer at \<open>REG_ARG1\<close> holds exactly the bytes the kernel computes, with the arguments the
  doorbell captured, from the content of the input buffer when its last byte arrived, and the completion counter advances by
  one. Memory answers reads and writes in any order and the buffers may have any alignment.\<close>

theorem kernel_op_end_to_end:
  assumes "gpu_run p s" "\<And>k. gc_kernel (gp_cfg p) = Some k \<Longrightarrow> kernel_contract k"
    "D_mem_write i a bs \<in> set (mem_events (sy_dev s))" "i \<notin> sy_done s"
    "opOnWriteResp (sy_dev s) = Inr g'" "gd_phase g' = OP_IDLE"
  shows "\<exists>k lat out. gc_kernel (gp_cfg p) = Some k \<and> k_compute k (gd_op_args (sy_dev s)) (sy_input s) = Inr (lat, out) \<and>
    mem_bytes (mem_store (sy_mem s) a bs) (ka_dst_addr (gd_op_args (sy_dev s))) (length out) = out \<and>
    gd_kernel_id g' = gd_kernel_id (sy_dev s) + 1"
proof -
  have inv: "dma_inv (gp_cfg p) (sy_mem s) (sy_done s) (sy_input s) (sy_dev s)"
    using assms(1,2) by (rule dma_inv_run)
  have w: "gd_phase (sy_dev s) = OP_WRITING" "gd_kernel_id g' = gd_kernel_id (sy_dev s) + 1"
      "mem_bytes (mem_store (sy_mem s) a bs) (ka_dst_addr (gd_op_args (sy_dev s))) (length (gd_outb (sy_dev s))) = gd_outb (sy_dev s)"
    using write_resp_dma [OF inv assms(3-5)] assms(6) by auto
  then obtain k lat where "gc_kernel (gp_cfg p) = Some k" "k_compute k (gd_op_args (sy_dev s)) (sy_input s) = Inr (lat, gd_outb (sy_dev s))"
    using inv by (auto simp: dma_inv_def computed_def)
  then show ?thesis
    using w by blast
qed

theorem kernel_op_end_to_end_witness:
  "\<exists>out. mem_bytes (mem_store ex_mem 0x1100 [31, 0, 61, 0]) 0x1100 (length out) = out \<and>
     out = [31, 0, 61, 0] \<and> gd_kernel_id ex_done = gd_kernel_id ex_writing + 1"
proof -
  have e: "D_mem_write 2 0x1100 [31, 0, 61, 0] \<in> set (mem_events ex_writing)" "\<not> isl (opOnWriteResp ex_writing)"
      "gd_phase ex_done = OP_IDLE" "ka_dst_addr (gd_op_args ex_writing) = 0x1100"
      "k_compute (ScaleOffsetKernel 0 False) (gd_op_args ex_writing)
         (mem_bytes ex_mem (ka_src_addr (gd_op_args ex_half)) (unat (gd_in_bytes ex_half))) = Inr (0, [31, 0, 61, 0])"
    by code_simp+
  have "opOnWriteResp ex_writing = Inr ex_done"
    using e(2) by (simp add: ex_done_def)
  then show ?thesis
    using kernel_op_end_to_end [OF ex_run ex_contract, where i = 2 and a = "0x1100" and bs = "[31, 0, 61, 0]" and g' = ex_done] e
    by (auto simp: ex_gpu_def)
qed



end
