(* ===== verification/Quetz_Gpu_Accounting.thy ===== *)
theory Quetz_Gpu_Accounting
  imports Quetz_Gpu_Dma
begin

text \<open>
  Accounting in the accelerator device: every accepted doorbell is a ticket that is queued, running, completed or rejected; the
  completion interrupt is high exactly while completions are unacknowledged; a response is held only while the device works;
  and the simulation cannot end before the work does.
\<close>

section \<open>What a trace shows\<close>

definition hold_level :: "dev_effect list \<Rightarrow> bool" where
  "hold_level es = foldl (\<lambda>h e. case e of D_hold b \<Rightarrow> b | _ \<Rightarrow> h) False es"

definition rejections :: "dev_effect list \<Rightarrow> nat" where
  "rejections es = length (filter (\<lambda>e. e = D_stat ''ops_rejected'' 1) es)"

definition trace_view :: "dev_effect list \<Rightarrow> u32 \<times> bool \<times> nat" where
  "trace_view es = (irq_level es, hold_level es, rejections es)"

definition quiet :: "dev_effect list \<Rightarrow> bool" where
  "quiet es = list_all (\<lambda>e. case e of D_irq _ _ _ \<Rightarrow> False | D_hold _ \<Rightarrow> False | D_stat n _ \<Rightarrow> n \<noteq> ''ops_rejected'' | _ \<Rightarrow> True) es"

lemma quiet_simps [simp]: "quiet []" "quiet (es @ fs) = (quiet es \<and> quiet fs)"
  by (simp_all add: quiet_def)

lemma quiet_Cons [simp]:
  "quiet (D_read_resp r bs # es) = quiet es" "quiet (D_write_resp r # es) = quiet es"
  "quiet (D_mem_read i a n # es) = quiet es" "quiet (D_mem_write i a bs # es) = quiet es"
  "quiet (D_stat s k # es) = (s \<noteq> ''ops_rejected'' \<and> quiet es)"
  by (simp_all add: quiet_def)

lemma trace_view_quiet [simp]: "quiet es \<Longrightarrow> trace_view (xs @ es) = trace_view xs"
proof (induction es rule: rev_induct)
  case (snoc e es)
  then show ?case
    by (cases e) (auto simp: trace_view_def irq_level_def hold_level_def rejections_def quiet_def)
qed simp

lemma trace_view_snoc [simp]:
  "trace_view (xs @ [D_irq v i l]) = (l, snd (trace_view xs))"
  "trace_view (xs @ [D_hold b]) = (fst (trace_view xs), b, snd (snd (trace_view xs)))"
  "trace_view (xs @ [D_stat ''ops_rejected'' 1]) = (fst (trace_view xs), fst (snd (trace_view xs)), snd (snd (trace_view xs)) + 1)"
  "trace_view (xs @ [D_stat ''ops_rejected'' (Suc 0)]) = (fst (trace_view xs), fst (snd (trace_view xs)), snd (snd (trace_view xs)) + 1)"
  "trace_view (xs @ [D_stat ''irqs_raised'' k, D_irq v i l]) = (l, snd (trace_view xs))"
  by (simp_all add: trace_view_def irq_level_def hold_level_def rejections_def)

section \<open>Invariant\<close>

definition gpu_active :: "gpu_dev \<Rightarrow> bool" where
  "gpu_active g \<longleftrightarrow> gd_busy_until g \<noteq> 0 \<or> gd_phase g \<noteq> OP_IDLE"

text \<open>Tickets: completed, rejected, queued and running. \<open>n\<close> is the number of completions, which runs ahead of the interrupt
  count between a retirement and its interrupt.\<close>

definition acct_ok :: "gpu_dev \<Rightarrow> bool" where
  "acct_ok g \<longleftrightarrow>
     unat (gd_submit_id g) =
       unat (gd_kernel_id g) + snd (snd (trace_view (gd_out g))) + length (gd_pending g) + of_bool (gpu_active g) \<and>
     unat (gd_submit_id g) \<le> 2 ^ 63 \<and> length (gd_pending g) \<le> kMaxPendingLaunches \<and>
     (\<forall>l \<in> set (gd_pending g). l < 2 ^ 63) \<and> gd_latency_override g < 2 ^ 63 \<and> gd_clk g < 2 ^ 63 \<and>
     gc_kernel_latency (gd_cfg g) < 2 ^ 63 \<and>
     (gc_kernel (gd_cfg g) = None \<longrightarrow> gd_phase g = OP_IDLE) \<and>
     (gc_kernel (gd_cfg g) \<noteq> None \<longrightarrow> gd_pending g = [] \<and> gd_deferred g = None) \<and>
     (gd_phase g = OP_IDLE \<longrightarrow> gd_op_resp g = None) \<and>
     (gd_phase g \<noteq> OP_READING \<longrightarrow> gc_kernel (gd_cfg g) \<noteq> None \<longrightarrow> gd_busy_until g = 0)"

definition queue_ok :: "gpu_dev \<Rightarrow> bool" where
  "queue_ok g \<longleftrightarrow> (gd_pending g \<noteq> [] \<or> gd_deferred g \<noteq> None \<longrightarrow> gd_busy_until g \<noteq> 0)"

definition irq_ok :: "nat \<Rightarrow> gpu_dev \<Rightarrow> bool" where
  "irq_ok n g \<longleftrightarrow>
     (gd_irq_pending g \<longleftrightarrow> gd_irq_events g \<noteq> 0) \<and> (gc_irq_line (gd_cfg g) < 0 \<longrightarrow> gd_irq_events g = 0) \<and>
     fst (trace_view (gd_out g)) = of_bool (gd_irq_pending g) \<and> unat (gd_irq_events g) \<le> n"

definition hold_ok :: "gpu_dev \<Rightarrow> bool" where
  "hold_ok g \<longleftrightarrow> (hasOutstandingWork g \<longrightarrow> gd_holding g) \<and> fst (snd (trace_view (gd_out g))) = gd_holding g"

definition gpu_inv :: "gpu_dev \<Rightarrow> bool" where
  "gpu_inv g \<longleftrightarrow> acct_ok g \<and> queue_ok g \<and> irq_ok (unat (gd_kernel_id g)) g \<and> hold_ok g"

section \<open>Shapes of the operations\<close>

text \<open>The part of the state that the interrupt, the event file and the hold do not touch.\<close>

definition core_view where
  "core_view g = (gd_cfg g, gd_clk g, gd_busy_until g, gd_kernel_id g, gd_submit_id g, gd_latency_override g,
     gd_deferred g, gd_pending g, gd_phase g, gd_op_resp g, snd (snd (trace_view (gd_out g))))"

lemma core_view_cong: "core_view g = core_view h \<Longrightarrow> acct_ok g = acct_ok h \<and> queue_ok g = queue_ok h"
  by (simp add: core_view_def acct_ok_def queue_ok_def gpu_active_def)

lemma raise_shape:
  assumes "raiseIrqOnRetire g = Inr g'" "irq_ok n g" "n < 2 ^ 63"
  shows "core_view g' = core_view g \<and> irq_ok (n + 1) g' \<and> gd_holding g' = gd_holding g \<and>
    fst (snd (trace_view (gd_out g'))) = fst (snd (trace_view (gd_out g)))"
proof (cases "gc_irq_line (gd_cfg g) < 0")
  case True
  then show ?thesis
    using assms by (auto simp: raiseIrqOnRetire_def irq_ok_def)
next
  case False
  have "unat (gd_irq_events g) < 2 ^ 63"
    using assms(2,3) by (simp add: irq_ok_def)
  then have ev: "unat (gd_irq_events g + 1) = unat (gd_irq_events g) + 1"
    by (simp add: unat_word_ariths)
  then have nz: "gd_irq_events g + 1 \<noteq> 0"
    by (metis add_is_0 one_neq_zero unat_0)
  show ?thesis
  proof (cases "gd_irq_pending g")
    case True
    then show ?thesis
      using assms(1,2) False ev nz by (auto simp: raiseIrqOnRetire_def irq_ok_def core_view_def)
  next
    case pend: False
    then obtain w where "g' = g\<lparr>gd_irq_events := gd_irq_events g + 1, gd_irq_pending := True, gd_writer := w,
        gd_out := gd_out g @ [D_stat ''irqs_raised'' 1, D_irq (gc_irq_vcpu (gd_cfg g)) (word_of_int (gc_irq_line (gd_cfg g))) 1]\<rparr>"
      using assms(1) False by (auto simp: raiseIrqOnRetire_def res_bind_Inr_iff gd_emit_shape dest!: emitIrqEvent_shape)
    then show ?thesis
      using assms(2) False ev nz by (auto simp: irq_ok_def core_view_def)
  qed
qed

lemma hold_shape:
  assumes "fst (snd (trace_view (gd_out g))) = gd_holding g"
  shows "core_view (updatePrimaryHold b g) = core_view g \<and> hold_ok (updatePrimaryHold b g) \<and>
    irq_ok n (updatePrimaryHold b g) = irq_ok n g"
  using assms
  by (auto simp: updatePrimaryHold_def hold_ok_def core_view_def irq_ok_def gd_emit_shape hasOutstandingWork_def)

lemma ack_shape:
  assumes "ackIrq consume g = Inr g'" "irq_ok n g"
  shows "core_view g' = core_view g \<and> irq_ok n g' \<and> gd_holding g' = gd_holding g \<and>
    fst (snd (trace_view (gd_out g'))) = fst (snd (trace_view (gd_out g)))"
proof (cases "gc_irq_line (gd_cfg g) < 0 \<or> \<not> gd_irq_pending g")
  case True
  then show ?thesis
    using assms by (auto simp: ackIrq_def)
next
  case False
  let ?e = "gd_irq_events g - (if consume < gd_irq_events g then consume else gd_irq_events g)"
  have le: "unat ?e \<le> unat (gd_irq_events g)"
    by (simp add: unat_sub word_le_nat_alt word_less_nat_alt)
  obtain g1 where g1: "emitIrqEvent ''irq-acknowledged'' (ucast consume) ''device'' g = Inr g1"
    using assms(1) False by (auto simp: ackIrq_def res_bind_Inr_iff)
  then obtain w where w: "g1 = g\<lparr>gd_writer := w\<rparr>"
    using emitIrqEvent_shape by blast
  show ?thesis
  proof (cases "0 < ?e")
    case True
    then have "g' = g\<lparr>gd_writer := w, gd_irq_events := ?e\<rparr>"
      using assms(1) False g1 w by (auto simp: ackIrq_def Let_def split: if_splits)
    then show ?thesis
      using assms(2) False le True by (auto simp: irq_ok_def core_view_def word_gt_0)
  next
    case zero: False
    then obtain g2 where g2: "emitIrqEvent ''irq-deasserted'' 0 ''device'' (g1\<lparr>gd_irq_events := ?e, gd_irq_pending := False\<rparr>) = Inr g2"
        and g': "g' = gd_emit [D_irq (gc_irq_vcpu (gd_cfg g2)) (word_of_int (gc_irq_line (gd_cfg g2))) 0] g2"
      using assms(1) False g1 w by (auto simp: ackIrq_def res_bind_Inr_iff Let_def split: if_splits)
    from emitIrqEvent_shape [OF g2] obtain v where "g2 = g1\<lparr>gd_irq_events := ?e, gd_irq_pending := False, gd_writer := v\<rparr>"
      by auto
    then show ?thesis
      using assms(2) False zero w g' by (auto simp: irq_ok_def core_view_def word_gt_0 gd_emit_shape)
  qed
qed

section \<open>Kernel operations\<close>

definition gpu_view where
  "gpu_view g = (core_view g, gd_irq_pending g, gd_irq_events g, gd_holding g, trace_view (gd_out g))"

lemma gpu_view_cong:
  assumes "gpu_view g = gpu_view h"
  shows "gpu_inv g = gpu_inv h" "acct_ok g = acct_ok h" "queue_ok g = queue_ok h" "irq_ok n g = irq_ok n h" "hold_ok g = hold_ok h"
  using assms by (auto simp: gpu_view_def core_view_def gpu_inv_def acct_ok_def queue_ok_def irq_ok_def hold_ok_def
      gpu_active_def hasOutstandingWork_def)

lemma emit_view [simp]: "quiet es \<Longrightarrow> gpu_view (gd_emit es g) = gpu_view g"
  by (simp add: gpu_view_def core_view_def gd_emit_def)

lemma mem_quiet: "list_all is_mem es \<Longrightarrow> quiet es"
  by (auto simp: quiet_def list_all_iff is_mem_def split: dev_effect.splits)

lemma window_view [simp]: "gpu_view (opIssueReadWindow g) = gpu_view g" "gpu_view (opIssueWriteWindow g) = gpu_view g"
  using read_window_shape [of g] write_window_shape [of g]
  by (auto simp: gpu_view_def core_view_def dest!: mem_quiet)

text \<open>An operation in flight: one ticket is out, whatever the phase.\<close>

definition op_flight :: "gpu_dev \<Rightarrow> bool" where
  "op_flight g \<longleftrightarrow>
     unat (gd_submit_id g) = unat (gd_kernel_id g) + snd (snd (trace_view (gd_out g))) + 1 \<and> unat (gd_submit_id g) \<le> 2 ^ 63 \<and>
     gd_pending g = [] \<and> gd_deferred g = None \<and> gc_kernel (gd_cfg g) \<noteq> None \<and> gd_latency_override g < 2 ^ 63 \<and>
     gd_clk g < 2 ^ 63 \<and> gc_kernel_latency (gd_cfg g) < 2 ^ 63 \<and> irq_ok (unat (gd_kernel_id g)) g \<and>
     fst (snd (trace_view (gd_out g))) = gd_holding g"

lemma op_flight_cong: "gpu_view g = gpu_view h \<Longrightarrow> op_flight g = op_flight h"
  using gpu_view_cong(4) [of g h] by (auto simp: op_flight_def gpu_view_def core_view_def)

lemma flight_of_inv: "gpu_inv g \<Longrightarrow> gc_kernel (gd_cfg g) \<noteq> None \<Longrightarrow> gd_phase g \<noteq> OP_IDLE \<Longrightarrow> op_flight g"
  by (auto simp: gpu_inv_def acct_ok_def op_flight_def gpu_active_def hold_ok_def)

lemma flight_settle:
  assumes "op_flight g" "gd_phase g \<noteq> OP_IDLE" "gd_phase g = OP_WRITING \<Longrightarrow> gd_busy_until g = 0"
  shows "gpu_inv (updatePrimaryHold b g)"
proof -
  have "fst (snd (trace_view (gd_out g))) = gd_holding g" "irq_ok (unat (gd_kernel_id g)) g"
    using assms(1) by (simp_all add: op_flight_def)
  note h = hold_shape [OF this(1), of b "unat (gd_kernel_id g)"] this
  have "acct_ok g" "queue_ok g"
    using assms by (cases "gd_phase g"; auto simp: op_flight_def acct_ok_def queue_ok_def gpu_active_def)+
  moreover have "gd_kernel_id (updatePrimaryHold b g) = gd_kernel_id g"
    using h(1) by (simp add: core_view_def)
  ultimately show ?thesis
    using h core_view_cong [of "updatePrimaryHold b g" g] by (simp add: gpu_inv_def)
qed

lemma release_shape:
  "\<exists>es. release_op_resp g = g\<lparr>gd_op_resp := None, gd_out := gd_out g @ es\<rparr> \<and> quiet es"
  "\<exists>es. release_deferred g = g\<lparr>gd_deferred := None, gd_out := gd_out g @ es\<rparr> \<and> quiet es"
proof -
  show "\<exists>es. release_op_resp g = g\<lparr>gd_op_resp := None, gd_out := gd_out g @ es\<rparr> \<and> quiet es"
    by (intro exI [of _ "case gd_op_resp g of Some r \<Rightarrow> [D_write_resp r] | None \<Rightarrow> []"])
      (auto simp: release_op_resp_def gd_emit_def split: option.splits)
  show "\<exists>es. release_deferred g = g\<lparr>gd_deferred := None, gd_out := gd_out g @ es\<rparr> \<and> quiet es"
    by (intro exI [of _ "case gd_deferred g of Some r \<Rightarrow> [D_write_resp r] | None \<Rightarrow> []"])
      (auto simp: release_deferred_def gd_emit_def split: option.splits)
qed

lemma settle_hold:
  assumes "acct_ok g" "queue_ok g" "irq_ok (unat (gd_kernel_id g)) g" "fst (snd (trace_view (gd_out g))) = gd_holding g"
  shows "gpu_inv (updatePrimaryHold b g)"
proof -
  note h = hold_shape [OF assms(4), of b "unat (gd_kernel_id g)"]
  moreover from h have "gd_kernel_id (updatePrimaryHold b g) = gd_kernel_id g"
    by (simp add: core_view_def)
  ultimately show ?thesis
    using assms core_view_cong [of "updatePrimaryHold b g" g] by (simp add: gpu_inv_def)
qed

lemma reject_inv:
  assumes "op_flight g" "opReject g = Inr g'"
  shows "gpu_inv g'"
proof -
  obtain g1 where g1: "emitOpError g = Inr g1" and
      g': "g' = updatePrimaryHold True (release_op_resp
         ((gd_emit [D_stat ''ops_rejected'' 1] g1)\<lparr>gd_phase := OP_IDLE, gd_busy_until := 0\<rparr>))"
    using assms(2) by (auto simp: opReject_def res_bind_Inr_iff)
  obtain w where "g1 = g\<lparr>gd_writer := w\<rparr>"
    using emit_shapes(3) [OF g1] by blast
  with release_shape(1) [of "(gd_emit [D_stat ''ops_rejected'' 1] g1)\<lparr>gd_phase := OP_IDLE, gd_busy_until := 0\<rparr>"]
  obtain es where es: "quiet es" "release_op_resp ((gd_emit [D_stat ''ops_rejected'' 1] g1)\<lparr>gd_phase := OP_IDLE, gd_busy_until := 0\<rparr>) =
      g\<lparr>gd_writer := w, gd_phase := OP_IDLE, gd_busy_until := 0, gd_op_resp := None, gd_out := (gd_out g @ [D_stat ''ops_rejected'' 1]) @ es\<rparr>"
    by (auto simp: gd_emit_def)
  show ?thesis
    unfolding g' es(2) using assms(1) es(1)
    by (intro settle_hold) (auto simp: op_flight_def acct_ok_def queue_ok_def irq_ok_def gpu_active_def simp del: append_assoc)
qed

lemma finish_inv:
  assumes fl: "op_flight g" and busy: "gd_busy_until g = 0" and fin: "opFinish g = Inr g'"
  shows "gpu_inv g'"
proof -
  obtain g1 g2 where g1: "emitOpCompleted g = Inr g1"
      and g2: "raiseIrqOnRetire (release_op_resp (g1\<lparr>gd_phase := OP_IDLE, gd_kernel_id := gd_kernel_id g1 + 1\<rparr>)) = Inr g2"
      and g': "g' = updatePrimaryHold True g2"
    using fin by (auto simp: opFinish_def res_bind_Inr_iff)
  obtain w where w: "g1 = g\<lparr>gd_writer := w\<rparr>"
    using emit_shapes(2) [OF g1] by blast
  obtain es where es: "quiet es" "release_op_resp (g1\<lparr>gd_phase := OP_IDLE, gd_kernel_id := gd_kernel_id g1 + 1\<rparr>) =
      g\<lparr>gd_writer := w, gd_phase := OP_IDLE, gd_kernel_id := gd_kernel_id g + 1, gd_op_resp := None, gd_out := gd_out g @ es\<rparr>" (is "_ = ?h")
    using release_shape(1) [of "g1\<lparr>gd_phase := OP_IDLE, gd_kernel_id := gd_kernel_id g1 + 1\<rparr>"] w by auto
  have n: "unat (gd_kernel_id g) < 2 ^ 63"
    using fl by (simp add: op_flight_def)
  then have k: "unat (gd_kernel_id g + 1) = unat (gd_kernel_id g) + 1"
    by (simp add: unat_word_ariths)
  have "irq_ok (unat (gd_kernel_id g)) ?h" "acct_ok ?h" "queue_ok ?h"
    using fl busy es(1) k by (auto simp: op_flight_def irq_ok_def acct_ok_def queue_ok_def gpu_active_def)
  moreover have "fst (snd (trace_view (gd_out ?h))) = gd_holding ?h"
    using fl es(1) by (simp add: op_flight_def)
  ultimately have "core_view g2 = core_view ?h" "irq_ok (unat (gd_kernel_id g) + 1) g2"
      "fst (snd (trace_view (gd_out g2))) = gd_holding g2"
    using raise_shape [OF g2 [unfolded es(2)] _ n] by simp_all
  moreover from this(1) have "gd_kernel_id g2 = gd_kernel_id g + 1"
    by (simp add: core_view_def)
  ultimately show ?thesis
    unfolding g' using core_view_cong [of g2 ?h] \<open>acct_ok ?h\<close> \<open>queue_ok ?h\<close> k by (intro settle_hold) simp_all
qed

lemma begin_writeback_inv:
  assumes "op_flight g" "gd_busy_until g = 0" "opBeginWriteback g = Inr g'"
  shows "gpu_inv g'"
proof (cases "dmaRangeOk (gd_cfg g) (ka_dst_addr (gd_op_args g)) (of_nat (length (gd_outb g)))")
  case False
  then show ?thesis
    using assms reject_inv by (auto simp: opBeginWriteback_def)
next
  case True
  let ?g = "g\<lparr>gd_phase := OP_WRITING, gd_outstanding := 0, gd_next_off := 0\<rparr>"
  have "op_flight ?g"
    using assms(1) by (simp add: op_flight_def irq_ok_def)
  then have "op_flight (opIssueWriteWindow ?g)"
    using op_flight_cong [OF window_view(2)] by blast
  moreover have "g' = updatePrimaryHold False (opIssueWriteWindow ?g)"
    using assms(3) True by (simp add: opBeginWriteback_def)
  ultimately show ?thesis
    using assms(2) by (auto intro!: flight_settle)
qed

lemma compute_inv:
  assumes "op_flight g" "gd_busy_until g = 0" "gd_phase g = OP_READING" "opComputeAndStartBusy k g = Inr g'"
  shows "gpu_inv g'"
proof -
  obtain lat out where out: "k_compute k (gd_op_args g) (gd_in g) = Inr (lat, out)" "out \<noteq> []"
    using assms(4) by (auto simp: opComputeAndStartBusy_def res_bind_Inr_iff split: if_splits)
  let ?g1 = "gd_emit [D_stat ''kernels_launched'' 1] (g\<lparr>gd_outb := out, gd_latency_override := 0\<rparr>)"
  have fl: "op_flight ?g1"
    using assms(1) by (simp add: op_flight_def irq_ok_def gd_emit_def)
  have f: "gd_busy_until ?g1 = 0" "gd_phase ?g1 = OP_READING"
    using assms(2,3) by (simp_all add: gd_emit_def)
  have "opBeginWriteback ?g1 = Inr g' \<or> (\<exists>b. g' = updatePrimaryHold False (?g1\<lparr>gd_busy_until := b\<rparr>))"
    using assms(4) out by (auto simp: opComputeAndStartBusy_def Let_def split: if_splits)
  then show ?thesis
  proof
    assume "opBeginWriteback ?g1 = Inr g'"
    then show ?thesis using begin_writeback_inv fl f by blast
  next
    assume "\<exists>b. g' = updatePrimaryHold False (?g1\<lparr>gd_busy_until := b\<rparr>)"
    then obtain b where g': "g' = updatePrimaryHold False (?g1\<lparr>gd_busy_until := b\<rparr>)" by blast
    have "op_flight (?g1\<lparr>gd_busy_until := b\<rparr>)"
      using fl by (simp add: op_flight_def irq_ok_def)
    then show ?thesis
      unfolding g' using f by (intro flight_settle) simp_all
  qed
qed

lemma start_dma_inv:
  assumes "op_flight g" "gd_busy_until g = 0" "opStartDma k g = Inr g'"
  shows "gpu_inv g'"
proof -
  let ?n = "k_inputBytes k (gd_op_args g)"
  let ?g = "g\<lparr>gd_in_bytes := ?n\<rparr>"
  let ?r = "?g\<lparr>gd_in := replicate (unat ?n) 0, gd_req_off := (\<lambda>_. None), gd_outstanding := 0, gd_next_off := 0, gd_phase := OP_READING\<rparr>"
  have fl: "op_flight ?g" "op_flight ?r"
    using assms(1) by (simp_all add: op_flight_def irq_ok_def)
  have "opReject ?g = Inr g' \<or> g' = updatePrimaryHold False (opIssueReadWindow ?r)"
    using assms(3) by (auto simp: opStartDma_def Let_def split: if_splits)
  then show ?thesis
  proof
    assume "opReject ?g = Inr g'"
    then show ?thesis using fl(1) reject_inv by blast
  next
    assume g': "g' = updatePrimaryHold False (opIssueReadWindow ?r)"
    have "op_flight (opIssueReadWindow ?r)"
      using fl(2) op_flight_cong [OF window_view(1)] by blast
    then show ?thesis
      unfolding g' by (rule flight_settle) simp_all
  qed
qed

lemma read_resp_inv:
  assumes inv: "gpu_inv g" and kn: "gc_kernel (gd_cfg g) \<noteq> None" and phase: "gd_phase g = OP_READING" "gd_busy_until g = 0"
    and step: "opOnReadResp k i bs g = Inr g'"
  shows "gpu_inv g'"
proof -
  obtain off where off: "gd_req_off g i = Some off"
    using step by (auto simp: opOnReadResp_def split: option.splits)
  let ?g = "g\<lparr>gd_req_off := (gd_req_off g)(i := None), gd_in := copy_in (unat off) (unat (gd_in_bytes g)) bs (gd_in g),
    gd_outstanding := gd_outstanding g - 1\<rparr>"
  define g2 where "g2 = opIssueReadWindow ?g"
  have v: "gpu_view g2 = gpu_view g"
    unfolding g2_def window_view by (simp add: gpu_view_def core_view_def)
  have f: "gd_busy_until g2 = 0" "gd_phase g2 = OP_READING"
    using phase by (simp_all add: g2_def)
  have "opComputeAndStartBusy k g2 = Inr g' \<or> g' = g2"
    using step unfolding opOnReadResp_def off option.case Let_def g2_def [symmetric] by (auto split: if_splits)
  moreover have "op_flight g2"
    using flight_of_inv [OF inv kn] phase op_flight_cong [OF v] by simp
  ultimately show ?thesis
    using compute_inv f gpu_view_cong(1) [OF v] inv by blast
qed

lemma write_resp_inv:
  assumes inv: "gpu_inv g" and kn: "gc_kernel (gd_cfg g) \<noteq> None" and phase: "gd_phase g = OP_WRITING"
    and step: "opOnWriteResp g = Inr g'"
  shows "gpu_inv g'"
proof (cases "gd_outstanding g = 0")
  case True
  then show ?thesis using inv step by (simp add: opOnWriteResp_def)
next
  case False
  define g2 where "g2 = opIssueWriteWindow (g\<lparr>gd_outstanding := gd_outstanding g - 1\<rparr>)"
  have v: "gpu_view g2 = gpu_view g"
    unfolding g2_def window_view by (simp add: gpu_view_def core_view_def)
  have f: "gd_busy_until g2 = 0"
    using phase kn inv by (auto simp: g2_def gpu_inv_def acct_ok_def)
  have "opFinish g2 = Inr g' \<or> g' = g2"
    using step False unfolding opOnWriteResp_def Let_def g2_def [symmetric] by (auto split: if_splits)
  moreover have "op_flight g2"
    using flight_of_inv [OF inv kn] phase op_flight_cong [OF v] by simp
  ultimately show ?thesis
    using finish_inv f gpu_view_cong(1) [OF v] inv by blast
qed

section \<open>Latency model\<close>

text \<open>A launch about to start: one ticket more than is queued, and nothing running.\<close>

definition launch_ok :: "gpu_dev \<Rightarrow> bool" where
  "launch_ok g \<longleftrightarrow>
     unat (gd_submit_id g) = unat (gd_kernel_id g) + snd (snd (trace_view (gd_out g))) + length (gd_pending g) + 1 \<and>
     unat (gd_submit_id g) \<le> 2 ^ 63 \<and> length (gd_pending g) \<le> kMaxPendingLaunches \<and> (\<forall>l \<in> set (gd_pending g). l < 2 ^ 63) \<and>
     gd_latency_override g < 2 ^ 63 \<and> gd_clk g < 2 ^ 63 \<and> gc_kernel_latency (gd_cfg g) < 2 ^ 63 \<and> gc_kernel (gd_cfg g) = None \<and>
     gd_phase g = OP_IDLE \<and> gd_op_resp g = None \<and> gd_busy_until g = 0 \<and> irq_ok (unat (gd_kernel_id g)) g \<and>
     fst (snd (trace_view (gd_out g))) = gd_holding g"

lemma deadline_nonzero:
  assumes "now < (2 :: u64) ^ 63" "lat < 2 ^ 63" "lat \<noteq> 0"
  shows "now + lat \<noteq> 0"
proof -
  have "unat now < 2 ^ 63" "unat lat < 2 ^ 63" "0 < unat lat"
    using assms by (simp_all add: word_less_nat_alt unat_gt_0)
  then have "unat (now + lat) = unat now + unat lat"
    by (simp add: unat_word_ariths)
  then show ?thesis
    using \<open>0 < unat lat\<close> by (metis add_gr_0 less_numeral_extra(3) unat_0)
qed

lemma start_kernel_inv:
  assumes la: "launch_ok g" and lat: "lat < 2 ^ 63" and step: "startKernel (gd_clk g) lat g = Inr g'"
  shows "acct_ok g' \<and> irq_ok (unat (gd_kernel_id g')) g' \<and> hold_ok g' \<and> gd_pending g' = gd_pending g \<and>
    gd_deferred g' = gd_deferred g \<and> gd_clk g' = gd_clk g \<and> gd_cfg g' = gd_cfg g"
proof (cases "lat = 0")
  case True
  let ?h = "(gd_emit [D_stat ''kernels_launched'' 1] g)\<lparr>gd_kernel_id := gd_kernel_id g + 1, gd_busy_until := 0\<rparr>"
  obtain g2 where g2: "raiseIrqOnRetire ?h = Inr g2" and g': "g' = updatePrimaryHold False g2"
    using step True by (auto simp: startKernel_def Let_def res_bind_Inr_iff gd_emit_def)
  have n: "unat (gd_kernel_id g) < 2 ^ 63"
    using la by (simp add: launch_ok_def)
  then have k: "unat (gd_kernel_id g + 1) = unat (gd_kernel_id g) + 1"
    by (simp add: unat_word_ariths)
  have h: "irq_ok (unat (gd_kernel_id g)) ?h" "acct_ok ?h" "fst (snd (trace_view (gd_out ?h))) = gd_holding ?h"
    using la k by (auto simp: launch_ok_def irq_ok_def acct_ok_def gpu_active_def gd_emit_def)
  have r: "core_view g2 = core_view ?h" "irq_ok (unat (gd_kernel_id g) + 1) g2" "fst (snd (trace_view (gd_out g2))) = gd_holding g2"
    using raise_shape [OF g2 h(1) n] h(3) by auto
  have u: "core_view g' = core_view ?h" "hold_ok g'" "irq_ok (unat (gd_kernel_id g) + 1) g'"
    using hold_shape [OF r(3), of False "unat (gd_kernel_id g) + 1"] r unfolding g' by auto
  then have "gd_kernel_id g' = gd_kernel_id g + 1"
    by (simp add: core_view_def)
  then show ?thesis
    using u core_view_cong [OF u(1)] h(2) k by (simp add: core_view_def gd_emit_def)
next
  case False
  let ?h = "(gd_emit [D_stat ''kernels_launched'' 1] g)\<lparr>gd_busy_until := gd_clk g + lat\<rparr>"
  have g': "g' = updatePrimaryHold False ?h"
    using step False by (simp add: startKernel_def Let_def gd_emit_def)
  have "gd_clk g + lat \<noteq> 0"
    using la lat False by (intro deadline_nonzero) (auto simp: launch_ok_def)
  then have h: "irq_ok (unat (gd_kernel_id g)) ?h" "acct_ok ?h" "fst (snd (trace_view (gd_out ?h))) = gd_holding ?h"
    using la by (auto simp: launch_ok_def irq_ok_def acct_ok_def gpu_active_def gd_emit_def)
  have u: "core_view g' = core_view ?h" "hold_ok g'" "irq_ok (unat (gd_kernel_id g)) g'"
    using hold_shape [OF h(3), of False "unat (gd_kernel_id g)"] h(1) unfolding g' by auto
  then show ?thesis
    using core_view_cong [OF u(1)] h(2) by (simp add: core_view_def gd_emit_def)
qed

lemma start_pending_inv:
  assumes "acct_ok g" "irq_ok (unat (gd_kernel_id g)) g" "hold_ok g" "gc_kernel (gd_cfg g) = None" "gd_deferred g = None"
    "gd_pending g = ls" "start_pending (gd_clk g) ls g = Inr g'"
  shows "gpu_inv g'"
  using assms
proof (induction ls arbitrary: g)
  case Nil
  then show ?case by (simp add: gpu_inv_def queue_ok_def)
next
  case (Cons l ls)
  show ?case
  proof (cases "gd_busy_until g = 0")
    case False
    then show ?thesis
      using Cons.prems by (simp add: gpu_inv_def queue_ok_def)
  next
    case True
    let ?h = "g\<lparr>gd_pending := ls\<rparr>"
    obtain g1 where g1: "startKernel (gd_clk g) l ?h = Inr g1" and rest: "start_pending (gd_clk g) ls g1 = Inr g'"
      using Cons.prems(7) True by (auto simp: res_bind_Inr_iff)
    have la: "launch_ok ?h" "l < 2 ^ 63"
      using Cons.prems(1-6) True by (auto simp: launch_ok_def acct_ok_def irq_ok_def hold_ok_def gpu_active_def)
    then have s: "acct_ok g1 \<and> irq_ok (unat (gd_kernel_id g1)) g1 \<and> hold_ok g1 \<and> gd_pending g1 = ls \<and>
        gd_deferred g1 = None \<and> gd_clk g1 = gd_clk g \<and> gd_cfg g1 = gd_cfg g"
      using start_kernel_inv [OF la(1,2)] g1 Cons.prems(5) by simp
    then show ?thesis
      using rest Cons.prems(4) by (intro Cons.IH [of g1]) simp_all
  qed
qed

lemma retire_inv:
  assumes inv: "gpu_inv g" and step: "retireIfReady (gd_clk g) g = Inr g'"
  shows "gpu_inv g'"
proof (cases "gd_busy_until g = 0 \<or> gd_clk g < gd_busy_until g")
  case True
  then show ?thesis using inv step by (auto simp: retireIfReady_def)
next
  case busy: False
  show ?thesis
  proof (cases "gc_kernel (gd_cfg g)")
    case (Some k)
    then have phase: "gd_phase g = OP_READING"
      using inv busy by (auto simp: gpu_inv_def acct_ok_def)
    then have "opBeginWriteback (g\<lparr>gd_busy_until := 0\<rparr>) = Inr g'"
      using step busy Some by (simp add: retireIfReady_def)
    moreover have "op_flight (g\<lparr>gd_busy_until := 0\<rparr>)"
      using flight_of_inv [OF inv] Some phase by (simp add: op_flight_def irq_ok_def)
    ultimately show ?thesis
      using begin_writeback_inv by fastforce
  next
    case None
    obtain es where es: "quiet es" "release_deferred (g\<lparr>gd_kernel_id := gd_kernel_id g + 1, gd_busy_until := 0\<rparr>) =
        g\<lparr>gd_kernel_id := gd_kernel_id g + 1, gd_busy_until := 0, gd_deferred := None, gd_out := gd_out g @ es\<rparr>" (is "_ = ?h")
      using release_shape(2) [of "g\<lparr>gd_kernel_id := gd_kernel_id g + 1, gd_busy_until := 0\<rparr>"] by auto
    obtain g1 where g1: "raiseIrqOnRetire ?h = Inr g1" and rest: "start_pending (gd_clk g) (gd_pending g1) g1 = Inr g'"
      using step busy None es(2) by (auto simp: retireIfReady_def res_bind_Inr_iff)
    have n: "unat (gd_kernel_id g) < 2 ^ 63"
      using inv busy by (auto simp: gpu_inv_def acct_ok_def gpu_active_def)
    then have k: "unat (gd_kernel_id g + 1) = unat (gd_kernel_id g) + 1"
      by (simp add: unat_word_ariths)
    have h: "irq_ok (unat (gd_kernel_id g)) ?h" "acct_ok ?h" "gd_holding g" "fst (snd (trace_view (gd_out ?h))) = gd_holding ?h"
      using inv busy None es(1) k
      by (auto simp: gpu_inv_def irq_ok_def acct_ok_def gpu_active_def hold_ok_def hasOutstandingWork_def)
    have r: "core_view g1 = core_view ?h" "irq_ok (unat (gd_kernel_id g) + 1) g1" "gd_holding g1"
        "fst (snd (trace_view (gd_out g1))) = gd_holding g1"
      using raise_shape [OF g1 h(1) n] h(3,4) by auto
    then have "gd_kernel_id g1 = gd_kernel_id g + 1" "gd_clk g1 = gd_clk g" "gd_cfg g1 = gd_cfg g" "gd_deferred g1 = None"
      by (simp_all add: core_view_def)
    then show ?thesis
      using r core_view_cong [OF r(1)] h(2) k rest None
      by (intro start_pending_inv [of g1]) (simp_all add: hold_ok_def)
  qed
qed

section \<open>Register accesses and ticks\<close>

lemma raise_submit: "raiseIrqOnRetire g = Inr g' \<Longrightarrow> gd_submit_id g' = gd_submit_id g"
  by (auto simp: raiseIrqOnRetire_def res_bind_Inr_iff Let_def gd_emit_def split: if_splits dest!: emitIrqEvent_shape)

lemma hold_submit [simp]: "gd_submit_id (updatePrimaryHold b g) = gd_submit_id g"
  by (simp add: updatePrimaryHold_def gd_emit_def)

lemma start_pending_submit: "start_pending now ls g = Inr g' \<Longrightarrow> gd_submit_id g' = gd_submit_id g"
proof (induction ls arbitrary: g)
  case (Cons l ls)
  then show ?case
    by (auto simp: res_bind_Inr_iff startKernel_def Let_def gd_emit_def split: if_splits dest!: raise_submit)
qed simp

lemma begin_writeback_submit: "opBeginWriteback g = Inr g' \<Longrightarrow> gd_submit_id g' = gd_submit_id g"
  using write_window_shape [of "g\<lparr>gd_phase := OP_WRITING, gd_outstanding := 0, gd_next_off := 0\<rparr>"]
  by (auto simp: opBeginWriteback_def opReject_def res_bind_Inr_iff release_op_resp_def gd_emit_def split: if_splits option.splits
      dest!: emit_shapes(3))

lemma retire_submit: "retireIfReady now g = Inr g' \<Longrightarrow> gd_submit_id g' = gd_submit_id g"
  by (auto simp: retireIfReady_def res_bind_Inr_iff release_deferred_def gd_emit_def split: if_splits option.splits
      dest!: begin_writeback_submit start_pending_submit raise_submit)

lemma hold_settled: "gpu_inv g \<Longrightarrow> gpu_inv (updatePrimaryHold b g)"
  by (rule settle_hold) (auto simp: gpu_inv_def hold_ok_def)

lemma inv_same: "gpu_inv g \<Longrightarrow> gpu_view h = gpu_view g \<Longrightarrow> gpu_inv h"
  using gpu_view_cong(1) by blast

lemma tick_acct:
  assumes inv: "gpu_inv g" and clk: "gd_clk g + 1 < 2 ^ 63" and step: "tickBusy g = Inr g'"
  shows "gpu_inv g'"
proof -
  let ?g1 = "g\<lparr>gd_clk := gd_clk g + 1\<rparr>"
  let ?g2 = "if gd_busy_until ?g1 \<noteq> 0 then gd_emit [D_stat ''busy_cycles'' 1] ?g1 else ?g1"
  have "gpu_inv ?g1"
    using inv clk by (simp add: gpu_inv_def acct_ok_def queue_ok_def irq_ok_def hold_ok_def gpu_active_def hasOutstandingWork_def)
  then have "gpu_inv ?g2"
    using inv_same [of ?g1 "gd_emit [D_stat ''busy_cycles'' 1] ?g1"] by simp
  moreover obtain g3 where "retireIfReady (gd_clk ?g2) ?g2 = Inr g3" "g' = updatePrimaryHold True g3"
    using step by (auto simp: tickBusy_def Let_def res_bind_Inr_iff)
  ultimately show ?thesis
    using retire_inv hold_settled by blast
qed

lemma read_acct:
  assumes inv: "gpu_inv g" and step: "gpu_read rd g = Inr g'"
  shows "gpu_inv g'"
proof -
  obtain v g1 where reg: "register_read (dr_addr rd - gc_base (gd_cfg g)) g = Inr (v, g1)"
      and g': "gpu_view g' = gpu_view g1"
    using step by (auto simp: gpu_read_def res_bind_Inr_iff)
  have "gpu_view g1 = gpu_view g \<or> (\<exists>g2. retireIfReady (gd_clk g) g = Inr g2 \<and> gpu_view g1 = gpu_view g2)"
    using reg by (auto simp: register_read_def res_bind_Inr_iff split: if_splits)
  then have "gpu_inv g1"
    using inv_same [OF inv] inv_same [OF retire_inv [OF inv]] by blast
  then show ?thesis
    using g' inv_same by blast
qed

lemma latency_doorbell_inv:
  assumes inv: "gpu_inv g" and room: "gd_submit_id g < 2 ^ 63" and none: "gc_kernel (gd_cfg g) = None"
    and step: "latency_doorbell g = Inr g'"
  shows "gpu_inv g' \<and> gc_kernel (gd_cfg g') = None"
proof -
  let ?lat = "if gd_latency_override g = 0 then gc_kernel_latency (gd_cfg g) else gd_latency_override g"
  let ?g = "g\<lparr>gd_latency_override := 0\<rparr>"
  obtain g1 g2 where g1: "retireIfReady (gd_clk g) ?g = Inr g1"
    and g2: "(if \<not> isBusyAt g1 \<and> gd_pending g1 = [] then startKernel (gd_clk g1) ?lat (g1\<lparr>gd_submit_id := gd_submit_id g1 + 1\<rparr>)
        else if length (gd_pending g1) < kMaxPendingLaunches then
          Inr (updatePrimaryHold False (gd_emit [D_stat ''doorbell_while_busy'' 1]
            (g1\<lparr>gd_submit_id := gd_submit_id g1 + 1, gd_pending := gd_pending g1 @ [?lat]\<rparr>)))
        else Inr (gd_emit [D_stat ''doorbell_while_busy'' 1] g1)) = Inr g2"
    and g': "g' = gd_emit [D_stat ''doorbell_writes'' 1] g2"
    using step unfolding latency_doorbell_def Let_def res_bind_Inr_iff by blast
  have "gpu_inv ?g"
    using inv by (simp add: gpu_inv_def acct_ok_def queue_ok_def irq_ok_def hold_ok_def gpu_active_def hasOutstandingWork_def)
  then have inv1: "gpu_inv g1"
    using retire_inv g1 by simp
  have lat: "?lat < 2 ^ 63"
    using inv by (auto simp: gpu_inv_def acct_ok_def)
  have cfg: "gd_cfg g1 = gd_cfg g"
    using retire_latency [OF g1] none by (simp add: latency_view_def)
  have sub: "gd_submit_id g1 = gd_submit_id g"
    using retire_submit [OF g1] by simp
  then have s1: "unat (gd_submit_id g1 + 1) = unat (gd_submit_id g1) + 1" "unat (gd_submit_id g1) < 2 ^ 63"
    using room by (simp_all add: word_less_nat_alt unat_word_ariths)
  have "gpu_inv g2 \<and> gc_kernel (gd_cfg g2) = None"
  proof (cases "\<not> isBusyAt g1 \<and> gd_pending g1 = []")
    case True
    let ?h = "g1\<lparr>gd_submit_id := gd_submit_id g1 + 1\<rparr>"
    have "launch_ok ?h"
      using inv1 True none cfg s1
      by (auto simp: launch_ok_def gpu_inv_def acct_ok_def irq_ok_def hold_ok_def gpu_active_def isBusyAt_def)
    moreover have "gd_deferred g1 = None"
      using inv1 True by (auto simp: gpu_inv_def queue_ok_def isBusyAt_def)
    ultimately show ?thesis
      using start_kernel_inv [of ?h ?lat g2] lat g2 True none cfg by (auto simp: gpu_inv_def queue_ok_def)
  next
    case False
    then have busy: "gd_busy_until g1 \<noteq> 0"
      using inv1 by (auto simp: gpu_inv_def queue_ok_def isBusyAt_def)
    show ?thesis
    proof (cases "length (gd_pending g1) < kMaxPendingLaunches")
      case True
      let ?h = "gd_emit [D_stat ''doorbell_while_busy'' 1] (g1\<lparr>gd_submit_id := gd_submit_id g1 + 1, gd_pending := gd_pending g1 @ [?lat]\<rparr>)"
      have "acct_ok ?h" "queue_ok ?h" "irq_ok (unat (gd_kernel_id ?h)) ?h" "fst (snd (trace_view (gd_out ?h))) = gd_holding ?h"
        using inv1 busy True none cfg s1 lat
        by (auto simp: gpu_inv_def acct_ok_def queue_ok_def irq_ok_def hold_ok_def gpu_active_def gd_emit_def kMaxPendingLaunches_def)
      then have "gpu_inv (updatePrimaryHold False ?h)"
        by (rule settle_hold)
      moreover have "g2 = updatePrimaryHold False ?h"
        using g2 False True by auto
      moreover have "gd_cfg (updatePrimaryHold False ?h) = gd_cfg g1"
        by (simp add: updatePrimaryHold_def gd_emit_def)
      ultimately show ?thesis
        using none cfg by simp
    next
      case full: False
      then have "g2 = gd_emit [D_stat ''doorbell_while_busy'' 1] g1"
        using g2 False by auto
      then have "gpu_view g2 = gpu_view g1" "gd_cfg g2 = gd_cfg g1"
        by (simp, simp add: gd_emit_def)
      then show ?thesis
        using inv_same [OF inv1] none cfg by simp
    qed
  qed
  moreover have "gpu_view g' = gpu_view g2" "gd_cfg g' = gd_cfg g2"
    unfolding g' by (simp, simp add: gd_emit_def)
  ultimately show ?thesis
    using inv_same by metis
qed

lemma with_writer_view: "with_writer f g = Inr g' \<Longrightarrow> gpu_view g' = gpu_view g"
  by (auto simp: gpu_view_def core_view_def dest!: with_writer_shape)

lemma ack_inv: "gpu_inv g \<Longrightarrow> ackIrq v g = Inr g' \<Longrightarrow> gpu_inv g'"
proof -
  assume inv: "gpu_inv g" and step: "ackIrq v g = Inr g'"
  have a: "core_view g' = core_view g" "irq_ok (unat (gd_kernel_id g)) g'" "gd_holding g' = gd_holding g"
      "fst (snd (trace_view (gd_out g'))) = fst (snd (trace_view (gd_out g)))"
    using ack_shape [OF step] inv by (auto simp: gpu_inv_def)
  moreover have "gd_kernel_id g' = gd_kernel_id g" "hasOutstandingWork g' = hasOutstandingWork g"
    using a(1) by (simp_all add: core_view_def hasOutstandingWork_def)
  ultimately show "gpu_inv g'"
    using inv core_view_cong [OF a(1)] by (simp add: gpu_inv_def hold_ok_def)
qed

lemma register_write_inv:
  assumes inv: "gpu_inv g" and step: "register_write offset wr g = Inr g'" and off: "offset \<noteq> REG_DOORBELL"
    and ov: "offset = REG_LATENCY_OVERRIDE \<longrightarrow> accelDataToU64 (dw_data wr) < 2 ^ 63"
  shows "gpu_inv g'"
proof -
  consider "gpu_view g' = gpu_view g" | v where "ackIrq v g = Inr g'"
    | "offset = REG_LATENCY_OVERRIDE" "g' = gd_emit [D_stat ''latency_overrides'' 1] (g\<lparr>gd_latency_override := accelDataToU64 (dw_data wr)\<rparr>)"
  proof -
    have "gpu_view (g\<lparr>gd_arg_regs := rs\<rparr>) = gpu_view g" for rs
      by (simp add: gpu_view_def core_view_def)
    then show thesis
      using step off that
      by (auto simp: register_write_def irq_witness_write_def emitIrqEvent_def checkpoint_write_def Let_def split: if_splits
          dest: with_writer_view)
  qed
  then show ?thesis
  proof cases
    case 3
    then have "gpu_inv (g\<lparr>gd_latency_override := accelDataToU64 (dw_data wr)\<rparr>)"
      using inv ov by (simp add: gpu_inv_def acct_ok_def queue_ok_def irq_ok_def hold_ok_def gpu_active_def hasOutstandingWork_def)
    then show ?thesis
      using inv_same 3(2) emit_view [of "[D_stat ''latency_overrides'' 1]"] by simp
  qed (use inv inv_same ack_inv in blast)+
qed

lemma kernel_doorbell_inv:
  assumes inv: "gpu_inv g" and room: "gd_submit_id g < 2 ^ 63" and k: "gc_kernel (gd_cfg g) = Some k"
    and step: "kernel_doorbell k wr g = Inr g'"
  shows "gpu_inv g'"
proof -
  let ?g = "gd_emit [D_stat ''doorbell_writes'' 1] g"
  let ?g1 = "if \<not> dw_posted wr \<and> gc_blocking (gd_cfg ?g) then ?g\<lparr>gd_op_resp := Some (dw_id wr)\<rparr> else ?g"
  let ?g2 = "?g1\<lparr>gd_submit_id := gd_submit_id ?g1 + 1, gd_op_args := \<lparr>ka_src_addr = gd_arg_regs ?g1 ! 0,
     ka_dst_addr = gd_arg_regs ?g1 ! 1, ka_arg2 = gd_arg_regs ?g1 ! 2, ka_arg3 = gd_arg_regs ?g1 ! 3\<rparr>\<rparr>"
  have idle: "gd_phase g = OP_IDLE" "gd_busy_until g = 0"
    using step by (auto simp: kernel_doorbell_def isBusyAt_def Let_def gd_emit_def split: if_splits)
  then have free: "\<not> (gd_phase ?g \<noteq> OP_IDLE \<or> isBusyAt ?g)"
    by (simp add: isBusyAt_def gd_emit_def)
  obtain g3 g4 where g3: "emitOpRequested ?g2 = Inr g3" and g4: "opStartDma k g3 = Inr g4"
      and g': "g' = (if \<not> dw_posted wr \<and> \<not> gc_blocking (gd_cfg g4) then gd_emit [D_write_resp (dw_id wr)] g4 else g4)"
    using step [unfolded kernel_doorbell_def Let_def if_not_P [OF free] res_bind_Inr_iff] by blast
  have s1: "unat (gd_submit_id g + 1) = unat (gd_submit_id g) + 1" "unat (gd_submit_id g) < 2 ^ 63"
    using room by (simp_all add: word_less_nat_alt unat_word_ariths)
  have "op_flight ?g2 \<and> gd_busy_until ?g2 = 0"
    using inv idle k s1
    by (auto simp: op_flight_def gpu_inv_def acct_ok_def irq_ok_def hold_ok_def gpu_active_def gd_emit_def)
  moreover obtain w where "g3 = ?g2\<lparr>gd_writer := w\<rparr>"
    using emit_shapes(1) [OF g3] by blast
  then have "gpu_view g3 = gpu_view ?g2" "gd_busy_until g3 = gd_busy_until ?g2"
    by (simp_all add: gpu_view_def core_view_def)
  ultimately have "gpu_inv g4"
    using start_dma_inv [OF _ _ g4] op_flight_cong by metis
  moreover have "gpu_view g' = gpu_view g4"
    unfolding g' by simp
  ultimately show ?thesis
    using inv_same by blast
qed

lemma write_acct:
  assumes inv: "gpu_inv g" and room: "gd_submit_id g < 2 ^ 63"
    and ov: "dw_addr wr - gc_base (gd_cfg g) = REG_LATENCY_OVERRIDE \<longrightarrow> accelDataToU64 (dw_data wr) < 2 ^ 63"
    and step: "gpu_write wr g = Inr g'"
  shows "gpu_inv g'"
proof (cases "dw_addr wr - gc_base (gd_cfg g) = REG_DOORBELL \<and> gc_kernel (gd_cfg g) \<noteq> None")
  case True
  then show ?thesis
    using step kernel_doorbell_inv [OF inv room] by (auto simp: gpu_write_def Let_def)
next
  case False
  let ?off = "dw_addr wr - gc_base (gd_cfg g)"
  obtain g1 where g1: "register_write ?off wr g = Inr g1"
      and cases: "?off = REG_DOORBELL \<and> isBusyAt g1 \<and> g' = g1\<lparr>gd_deferred := Some (dw_id wr)\<rparr> \<or>
        g' = gd_emit [D_write_resp (dw_id wr)] g1 \<or> g' = g1"
    using gpu_write_register [OF step refl False] by blast
  have inv1: "gpu_inv g1 \<and> (?off = REG_DOORBELL \<longrightarrow> gc_kernel (gd_cfg g1) = None)"
  proof (cases "?off = REG_DOORBELL")
    case True
    then show ?thesis
      using latency_doorbell_inv [OF inv room] g1 False by (auto simp: register_write_def)
  qed (use register_write_inv [OF inv g1 _ ov] in auto)
  from cases consider "?off = REG_DOORBELL" "gd_busy_until g1 \<noteq> 0" "g' = g1\<lparr>gd_deferred := Some (dw_id wr)\<rparr>"
    | "gpu_view g' = gpu_view g1"
    by (auto simp: isBusyAt_def)
  then show ?thesis
  proof cases
    case 1
    then have "gc_kernel (gd_cfg g1) = None" "gpu_inv g1"
      using inv1 by auto
    then show ?thesis
      using 1 by (simp add: gpu_inv_def acct_ok_def queue_ok_def irq_ok_def hold_ok_def gpu_active_def hasOutstandingWork_def)
  qed (use inv1 inv_same in blast)
qed

lemma new_fields:
  assumes "new_gpu_dev p = Inr g"
  shows "gd_cfg g = gp_cfg p" "gd_clk g = 0" "gd_busy_until g = 0" "gd_kernel_id g = 0" "gd_submit_id g = 0"
    "gd_latency_override g = 0" "gd_holding g" "gd_deferred g = None" "gd_pending g = []" "\<not> gd_irq_pending g"
    "gd_irq_events g = 0" "gd_phase g = OP_IDLE" "gd_op_resp g = None" "gd_out g = [D_hold True]"
proof -
  define fresh where "fresh w = \<lparr>gd_cfg = gp_cfg p, gd_clk = 0, gd_busy_until = 0, gd_kernel_id = 0, gd_submit_id = 0,
      gd_latency_override = 0, gd_holding = True, gd_deferred = None, gd_pending = [], gd_irq_pending = False,
      gd_irq_events = 0, gd_arg_regs = [0, 0, 0, 0],
      gd_op_args = \<lparr>ka_src_addr = 0, ka_dst_addr = 0, ka_arg2 = 0, ka_arg3 = 0\<rparr>,
      gd_phase = OP_IDLE, gd_in = [], gd_outb = [], gd_in_bytes = 0, gd_outstanding = 0, gd_next_off = 0,
      gd_writer = w, gd_op_resp = None, gd_req_off = (\<lambda>_. None), gd_next_id = 0, gd_time = 0, gd_out = [D_hold True]\<rparr>" for w
  have "\<exists>w. g = fresh w"
    using assms unfolding new_gpu_dev_def Let_def fresh_def [symmetric] by (auto simp: res_bind_Inr_iff split: if_splits)
  then show "gd_cfg g = gp_cfg p" "gd_clk g = 0" "gd_busy_until g = 0" "gd_kernel_id g = 0" "gd_submit_id g = 0"
    "gd_latency_override g = 0" "gd_holding g" "gd_deferred g = None" "gd_pending g = []" "\<not> gd_irq_pending g"
    "gd_irq_events g = 0" "gd_phase g = OP_IDLE" "gd_op_resp g = None" "gd_out g = [D_hold True]"
    by (auto simp: fresh_def)
qed

lemma new_acct:
  assumes "new_gpu_dev p = Inr g" and lat: "gc_kernel_latency (gp_cfg p) < 2 ^ 63"
  shows "gpu_inv g"
proof -
  have "trace_view [D_hold True] = (0, True, 0)"
    by (simp add: trace_view_def irq_level_def hold_level_def rejections_def)
  then show ?thesis
    using lat by (simp add: gpu_inv_def acct_ok_def queue_ok_def irq_ok_def hold_ok_def gpu_active_def hasOutstandingWork_def
        new_fields [OF assms(1)] kMaxPendingLaunches_def)
qed

lemma gpu_inv_run:
  assumes "gpu_run p s" and contract: "\<And>k. gc_kernel (gp_cfg p) = Some k \<Longrightarrow> kernel_contract k"
    and lat: "gc_kernel_latency (gp_cfg p) < 2 ^ 63"
  shows "gpu_inv (sy_dev s)"
  using assms(1)
proof induction
  case (gr_new g m)
  then show ?case
    using new_acct lat by simp
next
  case (gr_env s m' t)
  have "gpu_view ((sy_dev s)\<lparr>gd_time := t\<rparr>) = gpu_view (sy_dev s)"
    by (simp add: gpu_view_def core_view_def)
  then show ?case
    using inv_same [OF gr_env.IH] by simp
next
  case (gr_read_resp s i a n k g')
  have dma: "dma_inv (gp_cfg p) (sy_mem s) (sy_done s) (sy_input s) (sy_dev s)"
    using gr_read_resp.hyps(1) contract by (rule dma_inv_run)
  have "i \<in> open_reads (sy_done s) (sy_dev s)"
    using gr_read_resp.hyps by (auto simp: open_reads_def)
  then have "gd_phase (sy_dev s) = OP_READING" "gd_busy_until (sy_dev s) = 0"
    using dma by (auto simp: dma_inv_def idle_inv_def write_inv_def read_inv_def split: op_phase.splits if_splits)
  then show ?case
    using read_resp_inv [OF gr_read_resp.IH] gr_read_resp.hyps by simp
next
  case (gr_write_resp s i a bs g')
  have dma: "dma_inv (gp_cfg p) (sy_mem s) (sy_done s) (sy_input s) (sy_dev s)"
    using gr_write_resp.hyps(1) contract by (rule dma_inv_run)
  then have "gd_phase (sy_dev s) = OP_WRITING"
    using write_resp_dma [OF dma gr_write_resp.hyps(2-4)] by simp
  moreover from this have "gc_kernel (gd_cfg (sy_dev s)) \<noteq> None"
    using dma by (auto simp: dma_inv_def)
  ultimately show ?case
    using write_resp_inv [OF gr_write_resp.IH] gr_write_resp.hyps by simp
qed (auto intro: tick_acct write_acct read_acct)



text \<open>The bound on the latency matters: a launch whose latency carries the clock to exactly \<open>2 ^ 64\<close> ends on the value that means
  idle. The ticket is then neither running nor queued, and it is never completed.\<close>

theorem launch_lost_on_wrap:
  assumes "now_clk \<noteq> 0" "startKernel now_clk (- now_clk) g = Inr g'"
  shows "gd_busy_until g' = 0 \<and> gd_kernel_id g' = gd_kernel_id g \<and> gd_pending g' = gd_pending g"
  using assms by (auto simp: startKernel_def updatePrimaryHold_def gd_emit_def Let_def)

end
