(* ===== verification/Quetz_Fft.thy ===== *)
theory Quetz_Fft
  imports Complex_Main Quetz_Kernel
begin

text \<open>
  The FFT kernel of the accelerator device (\<open>src/quetz_fft.h\<close>, \<open>src/quetz_fft_kernel.cc\<close>): the in-place radix-2 transform, with
  its index arithmetic on 32-bit integers and every array access checked, the byte marshalling, and the kernel. The
  floating-point operations are a parameter of the model. The transform never leaves its array, whatever they compute; with
  exact real arithmetic it computes the discrete Fourier transform.
\<close>

section \<open>The transform\<close>

text \<open>What the code uses of floating-point arithmetic. \<open>fp_cos m n\<close> and \<open>fp_sin m n\<close> are the cosine and the sine of the angle
  \<open>- 2 * pi * m / n\<close>, which the code evaluates in double precision and then rounds; \<open>fp_bits\<close> and \<open>fp_of_bits\<close> are the two
  \<open>memcpy\<close> conversions between a float and its bit pattern.\<close>

record 'f fp_ops =
  fp_add :: "'f \<Rightarrow> 'f \<Rightarrow> 'f"
  fp_sub :: "'f \<Rightarrow> 'f \<Rightarrow> 'f"
  fp_mul :: "'f \<Rightarrow> 'f \<Rightarrow> 'f"
  fp_cos :: "u32 \<Rightarrow> u32 \<Rightarrow> 'f"
  fp_sin :: "u32 \<Rightarrow> u32 \<Rightarrow> 'f"
  fp_bits :: "'f \<Rightarrow> u32"
  fp_of_bits :: "u32 \<Rightarrow> 'f"

record 'f quetz_cf =
  cf_re :: 'f
  cf_im :: 'f

text \<open>A loop over a list of indices whose body may fail.\<close>

fun res_iter :: "('i \<Rightarrow> 's \<Rightarrow> 's result) \<Rightarrow> 'i list \<Rightarrow> 's \<Rightarrow> 's result" where
  "res_iter f [] s = Inr s"
| "res_iter f (i # is) s = res_bind (f i s) (res_iter f is)"

text \<open>\<open>while ((1u << logn) < n) logn++\<close>; a shift by 32, which C leaves undefined, ends the loop. The kernel bounds \<open>n\<close> well
  below it.\<close>

function fft_logn :: "u32 \<Rightarrow> nat \<Rightarrow> nat" where
  "fft_logn n logn = (if logn < 32 \<and> push_bit logn 1 < n then fft_logn n (logn + 1) else logn)"
  by pat_completeness auto
termination
  by (relation "measure (\<lambda>(n, logn). 32 - logn)") auto

declare fft_logn.simps [simp del]

fun bit_reverse :: "nat \<Rightarrow> u32 \<Rightarrow> u32 \<Rightarrow> u32" where
  "bit_reverse 0 r x = r"
| "bit_reverse (Suc b) r x = bit_reverse b (push_bit 1 r OR (x AND 1)) (drop_bit 1 x)"

definition swap_step :: "nat \<Rightarrow> nat \<Rightarrow> 'f quetz_cf list \<Rightarrow> 'f quetz_cf list result" where
  "swap_step logn i a =
     (let r = bit_reverse logn 0 (of_nat i) in
      if r > of_nat i then
        res_bind (vec_get a i) (\<lambda>t.
        res_bind (vec_get a (unat r)) (\<lambda>v.
        res_bind (vec_set a i v) (\<lambda>a1. vec_set a1 (unat r) t)))
      else Inr a)"

definition butterfly :: "'f fp_ops \<Rightarrow> nat \<Rightarrow> u32 \<Rightarrow> nat \<Rightarrow> nat \<Rightarrow> 'f quetz_cf list \<Rightarrow> 'f quetz_cf list result" where
  "butterfly fp logn n s k a =
     (let half = push_bit (s - 1) 1 :: u32;
          j = of_nat k AND (half - 1);
          group = drop_bit (s - 1) (of_nat k);
          i0 = group * push_bit 1 half + j;
          i1 = i0 + half;
          m = push_bit (logn - s) j;
          wr = fp_cos fp m n; wi = fp_sin fp m n
      in res_bind (vec_get a (unat i1)) (\<lambda>v.
         let tr = fp_sub fp (fp_mul fp wr (cf_re v)) (fp_mul fp wi (cf_im v));
             ti = fp_add fp (fp_mul fp wr (cf_im v)) (fp_mul fp wi (cf_re v))
         in res_bind (vec_get a (unat i0)) (\<lambda>u.
            res_bind (vec_set a (unat i0) \<lparr>cf_re = fp_add fp (cf_re u) tr, cf_im = fp_add fp (cf_im u) ti\<rparr>) (\<lambda>a1.
            vec_set a1 (unat i1) \<lparr>cf_re = fp_sub fp (cf_re u) tr, cf_im = fp_sub fp (cf_im u) ti\<rparr>))))"

definition fft_stage :: "'f fp_ops \<Rightarrow> nat \<Rightarrow> u32 \<Rightarrow> nat \<Rightarrow> 'f quetz_cf list \<Rightarrow> 'f quetz_cf list result" where
  "fft_stage fp logn n s a = res_iter (butterfly fp logn n s) [0..<unat (n div 2)] a"

definition quetz_fft_radix2 :: "'f fp_ops \<Rightarrow> 'f quetz_cf list \<Rightarrow> u32 \<Rightarrow> 'f quetz_cf list result" where
  "quetz_fft_radix2 fp a n =
     (let logn = fft_logn n 0 in
      res_bind (res_iter (swap_step logn) [0..<unat n] a) (res_iter (fft_stage fp logn n) [1..<logn + 1]))"

section \<open>The kernel\<close>

definition bytes_to_f32 :: "'f fp_ops \<Rightarrow> bool \<Rightarrow> u8 list \<Rightarrow> nat \<Rightarrow> 'f result" where
  "bytes_to_f32 fp be bs p =
     res_bind (vec_get bs p) (\<lambda>b0. res_bind (vec_get bs (p + 1)) (\<lambda>b1.
     res_bind (vec_get bs (p + 2)) (\<lambda>b2. res_bind (vec_get bs (p + 3)) (\<lambda>b3.
       Inr (fp_of_bits fp
         (if be then push_bit 24 (ucast b0) OR push_bit 16 (ucast b1) OR push_bit 8 (ucast b2) OR ucast b3
          else ucast b0 OR push_bit 8 (ucast b1) OR push_bit 16 (ucast b2) OR push_bit 24 (ucast b3)))))))"

definition f32_to_bytes :: "'f fp_ops \<Rightarrow> bool \<Rightarrow> 'f \<Rightarrow> nat \<Rightarrow> u8 list \<Rightarrow> u8 list result" where
  "f32_to_bytes fp be f p bs =
     (let b = fp_bits fp f;
          b0 = ucast (drop_bit 24 b); b1 = ucast (drop_bit 16 b); b2 = ucast (drop_bit 8 b); b3 = ucast b
      in res_bind (vec_set bs p (if be then b0 else b3)) (\<lambda>bs1.
         res_bind (vec_set bs1 (p + 1) (if be then b1 else b2)) (\<lambda>bs2.
         res_bind (vec_set bs2 (p + 2) (if be then b2 else b1)) (\<lambda>bs3.
         vec_set bs3 (p + 3) (if be then b3 else b0)))))"

definition fft_inputBytes :: "kernel_args \<Rightarrow> u64" where
  "fft_inputBytes a =
     (let n = ka_arg2 a in
      if n = 0 \<or> n AND (n - 1) \<noteq> 0 then 0
      else if n > kMaxKernelInputBytes div 8 then 0
      else n * 8)"

definition read_point :: "'f fp_ops \<Rightarrow> bool \<Rightarrow> u8 list \<Rightarrow> nat \<Rightarrow> 'f quetz_cf list \<Rightarrow> 'f quetz_cf list result" where
  "read_point fp be bs i a =
     res_bind (bytes_to_f32 fp be bs (i * 8)) (\<lambda>re.
     res_bind (bytes_to_f32 fp be bs (i * 8 + 4)) (\<lambda>im. Inr (a @ [\<lparr>cf_re = re, cf_im = im\<rparr>])))"

definition write_point :: "'f fp_ops \<Rightarrow> bool \<Rightarrow> 'f quetz_cf list \<Rightarrow> nat \<Rightarrow> u8 list \<Rightarrow> u8 list result" where
  "write_point fp be a i bs =
     res_bind (vec_get a i) (\<lambda>v.
     res_bind (f32_to_bytes fp be (cf_re v) (i * 8) bs) (f32_to_bytes fp be (cf_im v) (i * 8 + 4)))"

definition fft_compute :: "'f fp_ops \<Rightarrow> u64 \<Rightarrow> bool \<Rightarrow> kernel_args \<Rightarrow> u8 list \<Rightarrow> (u64 \<times> u8 list) result" where
  "fft_compute fp latency_coeff be args input =
     (let n = ucast (ka_arg2 args) :: u32; logn = fft_logn n 0 in
      res_bind (res_iter (read_point fp be input) [0..<unat n] []) (\<lambda>a.
      res_bind (quetz_fft_radix2 fp a n) (\<lambda>b.
      res_bind (res_iter (write_point fp be b) [0..<unat n] (replicate (length input) 0)) (\<lambda>out.
        Inr (latency_coeff * ucast n * of_nat (if logn \<noteq> 0 then logn else 1), out)))))"

definition FFTKernel :: "'f fp_ops \<Rightarrow> u64 \<Rightarrow> bool \<Rightarrow> quetz_kernel" where
  "FFTKernel fp latency_coeff be = \<lparr>k_inputBytes = fft_inputBytes, k_compute = fft_compute fp latency_coeff be\<rparr>"

section \<open>Loops and indices\<close>

lemma res_iter_append: "res_iter f (is @ js) s = res_bind (res_iter f is s) (res_iter f js)"
proof (induction "is" arbitrary: s)
  case (Cons i "is")
  then show ?case
    by (cases "f i s") simp_all
qed simp

lemma vec_simps [simp]:
  "i < length xs \<Longrightarrow> vec_get xs i = Inr (xs ! i)" "i < length xs \<Longrightarrow> vec_set xs i v = Inr (xs[i := v])"
  by (simp_all add: vec_get_def vec_set_def)

text \<open>A loop keeps an invariant on the number of iterations.\<close>

lemma res_iter_upt:
  assumes "P 0 s" and "\<And>i s. i < k \<Longrightarrow> P i s \<Longrightarrow> \<exists>s'. f i s = Inr s' \<and> P (i + 1) s'"
  shows "\<exists>s'. res_iter f [0..<k] s = Inr s' \<and> P k s'"
  using assms(2)
proof (induction k)
  case 0
  then show ?case
    using assms(1) by simp
next
  case (Suc k)
  then obtain s1 where s1: "res_iter f [0..<k] s = Inr s1" "P k s1"
    by auto
  moreover obtain s2 where "f k s1 = Inr s2" "P (Suc k) s2"
    using Suc.prems [of k s1] s1(2) by auto
  ultimately show ?case
    by (simp add: res_iter_append)
qed

lemma unat_of_nat_32: "x < 2 ^ 32 \<Longrightarrow> unat (of_nat x :: u32) = x"
  by (simp add: unsigned_of_nat take_bit_nat_eq_self)

lemma unat_pow_32: "i < 32 \<Longrightarrow> unat (2 ^ i :: u32) = 2 ^ i"
proof -
  assume "i < 32"
  then have "(2 :: nat) ^ i < 2 ^ 32"
    by (rule power_strict_increasing) simp
  then have "unat (of_nat (2 ^ i) :: u32) = 2 ^ i"
    using \<open>i < 32\<close> by (simp only: unsigned_of_nat take_bit_nat_eq_self_iff) (simp add: take_bit_nat_eq_self)
  then show ?thesis
    by simp
qed

lemma unat_push_bit_32: "i < 32 \<Longrightarrow> unat (x :: u32) * 2 ^ i < 2 ^ 32 \<Longrightarrow> unat (push_bit i x) = unat x * 2 ^ i"
  by (simp add: push_bit_eq_mult unat_word_ariths unat_pow_32)

lemma fft_logn_eq:
  assumes "l < 32" "i \<le> l"
  shows "fft_logn (2 ^ l) i = l"
  using assms(2)
proof (induction "l - i" arbitrary: i)
  case 0
  then show ?case
    by (simp add: fft_logn.simps [of _ i] push_bit_of_1)
next
  case (Suc d)
  then have "push_bit i 1 < (2 ^ l :: u32)"
    using assms(1) by (simp add: word_less_nat_alt unat_pow_32)
  then show ?case
    using Suc assms(1) by (subst fft_logn.simps) (simp)
qed

section \<open>Bit reversal\<close>

fun rev_bits :: "nat \<Rightarrow> nat \<Rightarrow> nat" where
  "rev_bits 0 p = 0"
| "rev_bits (Suc l) p = p mod 2 * 2 ^ l + rev_bits l (p div 2)"

lemma rev_bits_less: "rev_bits l p < 2 ^ l"
proof (induction l arbitrary: p)
  case (Suc l)
  have "p mod 2 = 0 \<or> p mod 2 = 1"
    by auto
  then show ?case
    using Suc [of "p div 2"] by auto
qed simp

lemma rev_bits_top: "q < 2 ^ l \<Longrightarrow> c < 2 \<Longrightarrow> rev_bits (Suc l) (c * 2 ^ l + q) = 2 * rev_bits l q + c"
proof (induction l arbitrary: q)
  case (Suc l)
  have "q div 2 < 2 ^ l"
    using Suc.prems(1) by auto
  have "(c * 2 ^ Suc l + q) div 2 = c * 2 ^ l + q div 2" "(c * 2 ^ Suc l + q) mod 2 = q mod 2"
    by (simp_all add: mod_add_left_eq [symmetric])
  then show ?case
    using Suc.IH [OF \<open>q div 2 < 2 ^ l\<close> Suc.prems(2)] by simp
qed auto

lemma rev_bits_invol: "p < 2 ^ l \<Longrightarrow> rev_bits l (rev_bits l p) = p"
proof (induction l arbitrary: p)
  case (Suc l)
  then have "rev_bits l (rev_bits l (p div 2)) = p div 2"
    by auto
  then show ?case
    using rev_bits_top [OF rev_bits_less, of "p mod 2" l "p div 2"] by simp
qed simp

lemma bit_reverse_unat:
  "unat r < 2 ^ c \<Longrightarrow> c + b \<le> 31 \<Longrightarrow> unat (bit_reverse b r x) = unat r * 2 ^ b + rev_bits b (unat x)"
proof (induction b arbitrary: r x c)
  case (Suc b)
  have "(2 :: nat) ^ c \<le> 2 ^ 30"
    using Suc.prems(2) by (intro power_increasing) auto
  then have "unat (push_bit 1 r) = 2 * unat r"
    using Suc.prems(1) by (subst unat_push_bit_32) auto
  moreover have "push_bit 1 r OR (x AND 1) = push_bit 1 r + (x AND 1)"
    by (rule disjunctive_add [symmetric]) (simp only: bit_and_iff bit_push_bit_iff bit_1_iff, simp)
  moreover have "unat (x AND 1) = unat x mod 2"
    using and_mask_unat [of x 1] by (simp add: mask_eq_exp_minus_1)
  ultimately have r': "unat (push_bit 1 r OR (x AND 1)) = 2 * unat r + unat x mod 2"
    using Suc.prems(1) \<open>(2 :: nat) ^ c \<le> 2 ^ 30\<close> by (simp add: unat_word_ariths)
  then have "unat (push_bit 1 r OR (x AND 1)) < 2 ^ Suc c"
    using Suc.prems(1) by auto
  moreover have "unat (drop_bit 1 x) = unat x div 2"
    using drop_bit_unat [of 1 x] by simp
  ultimately show ?case
    using Suc.IH [of "push_bit 1 r OR (x AND 1)" "Suc c" "drop_bit 1 x"] Suc.prems(2)
    unfolding bit_reverse.simps r' by (simp add: algebra_simps)
qed simp

lemma unat_small_32: "i < 2 ^ l \<Longrightarrow> l \<le> 31 \<Longrightarrow> unat (of_nat i :: u32) = i"
  using power_increasing [of l 31 "2 :: nat"] by (simp add: unsigned_of_nat take_bit_nat_eq_self)

lemma bit_reverse_rev:
  assumes "i < 2 ^ l" "l \<le> 31"
  shows "unat (bit_reverse l 0 (of_nat i)) = rev_bits l i" "bit_reverse l 0 (of_nat i) > of_nat i \<longleftrightarrow> rev_bits l i > i"
  using bit_reverse_unat [of 0 0 l "of_nat i"] assms by (simp_all add: unat_small_32 word_less_nat_alt)

lemma swap_loop:
  assumes "length a = 2 ^ l" "l \<le> 31"
  shows "\<exists>b. res_iter (swap_step l) [0..<2 ^ l] a = Inr b \<and> length b = 2 ^ l \<and> (\<forall>p < 2 ^ l. b ! p = a ! rev_bits l p)"
proof -
  let ?P = "\<lambda>k b. length b = 2 ^ l \<and> (\<forall>p < 2 ^ l. b ! p = (if min p (rev_bits l p) < k then a ! rev_bits l p else a ! p))"
  have "\<exists>b'. swap_step l i b = Inr b' \<and> ?P (i + 1) b'" if i: "i < 2 ^ l" and b: "?P i b" for i b
  proof -
    let ?r = "rev_bits l i"
    have r: "?r < 2 ^ l" "rev_bits l ?r = i"
      using rev_bits_less rev_bits_invol [OF i] by auto
    have eq: "min p (rev_bits l p) < i + 1 \<longleftrightarrow> min p (rev_bits l p) < i \<or> (i \<le> ?r \<and> (p = i \<or> p = ?r))" if "p < 2 ^ l" for p
    proof -
      have "rev_bits l p = i \<longleftrightarrow> p = ?r"
        using rev_bits_invol [OF that] r(2) by metis
      then show ?thesis
        by (auto simp: min_def less_Suc_eq)
    qed
    show ?thesis
    proof (cases "?r > i")
      case True
      then have "swap_step l i b = Inr (b[i := b ! ?r, ?r := b ! i])"
        using i b r(1) by (simp add: swap_step_def Let_def bit_reverse_rev [OF i assms(2)])
      moreover have "b ! i = a ! i" "b ! ?r = a ! ?r"
        using b i r True by auto
      ultimately show ?thesis
        using True b i r eq by (auto simp: nth_list_update)
    next
      case False
      then have "swap_step l i b = Inr b"
        by (simp add: swap_step_def Let_def bit_reverse_rev [OF i assms(2)])
      moreover have "?P (i + 1) b"
        using False b eq by auto
      ultimately show ?thesis
        by blast
    qed
  qed
  then obtain b where "res_iter (swap_step l) [0..<2 ^ l] a = Inr b" "?P (2 ^ l) b"
    using res_iter_upt [of ?P a "2 ^ l" "swap_step l"] assms(1) by auto
  then show ?thesis
    by auto
qed

section \<open>Butterflies\<close>

text \<open>In the stage with half-size \<open>h\<close> the \<open>k\<close>-th butterfly works on the positions \<open>pos0 h k\<close> and \<open>pos0 h k + h\<close>; \<open>pair_of h p\<close>
  is the butterfly that owns position \<open>p\<close>.\<close>

definition pos0 :: "nat \<Rightarrow> nat \<Rightarrow> nat" where
  "pos0 h k = k div h * (2 * h) + k mod h"

definition pair_of :: "nat \<Rightarrow> nat \<Rightarrow> nat" where
  "pair_of h p = p div (2 * h) * h + p mod h"

lemma pos0_split:
  assumes "0 < (h :: nat)"
  shows "pos0 h k div (2 * h) = k div h" "pos0 h k mod (2 * h) = k mod h"
    "(pos0 h k + h) div (2 * h) = k div h" "(pos0 h k + h) mod (2 * h) = k mod h + h"
proof -
  have "k mod h < h" "k mod h < 2 * h" "k mod h + h < 2 * h"
    using mod_less_divisor [OF assms, of k] by auto
  then show "pos0 h k div (2 * h) = k div h" "pos0 h k mod (2 * h) = k mod h"
    "(pos0 h k + h) div (2 * h) = k div h" "(pos0 h k + h) mod (2 * h) = k mod h + h"
    using assms by (simp_all add: pos0_def add.assoc del: mod_less_divisor)
qed

lemma pair_of_pos:
  assumes "0 < (h :: nat)"
  shows "pair_of h (pos0 h k) = k" "pair_of h (pos0 h k + h) = k"
proof -
  have "pos0 h k mod h = k mod h" "(pos0 h k + h) mod h = k mod h"
    by (simp_all add: pos0_def mult.assoc [symmetric] mod_add_left_eq [symmetric])
  then show "pair_of h (pos0 h k) = k" "pair_of h (pos0 h k + h) = k"
    using pos0_split [OF assms, of k] by (simp_all add: pair_of_def)
qed

lemma pos_of_pair:
  assumes "0 < (h :: nat)"
  shows "p = (if p mod (2 * h) < h then pos0 h (pair_of h p) else pos0 h (pair_of h p) + h)"
proof -
  have m: "p mod h = (if p mod (2 * h) < h then p mod (2 * h) else p mod (2 * h) - h)"
  proof -
    obtain r where r: "r = p mod (2 * h)" "r < 2 * h" "p mod h = r mod h"
      using assms by (simp add: mod_mod_cancel)
    have "r mod h = (if r < h then r else r - h)"
      using r(2) le_mod_geq [of h r] by auto
    then show ?thesis
      using r by simp
  qed
  have "pair_of h p div h = p div (2 * h)" "pair_of h p mod h = p mod h"
    using assms mod_less_divisor [OF assms, of p] by (simp_all add: pair_of_def)
  then have "pos0 h (pair_of h p) = p div (2 * h) * (2 * h) + p mod h"
    by (simp add: pos0_def)
  then show ?thesis
    using m div_mult_mod_eq [of p "2 * h"] by (auto split: if_splits)
qed

lemma pair_of_less: "0 < h \<Longrightarrow> p < 2 * h * g \<Longrightarrow> pair_of h p < h * g"
proof -
  assume h: "0 < h" and p: "p < 2 * h * g"
  then have "p div (2 * h) < g"
    by (simp add: less_mult_imp_div_less mult.commute)
  then have "(p div (2 * h) + 1) * h \<le> g * h"
    by (intro mult_le_mono1) simp
  then show ?thesis
    using mod_less_divisor [OF h, of p] by (simp add: pair_of_def mult.commute)
qed

lemma pos0_less: "0 < h \<Longrightarrow> k < h * g \<Longrightarrow> pos0 h k + h < 2 * h * g"
proof -
  assume h: "0 < h" and k: "k < h * g"
  then have "k div h < g"
    by (simp add: less_mult_imp_div_less mult.commute)
  then have "(k div h + 1) * (2 * h) \<le> g * (2 * h)"
    by (intro mult_le_mono1) simp
  then show ?thesis
    using mod_less_divisor [OF h, of k] by (simp add: pos0_def algebra_simps)
qed

definition twiddled :: "'f fp_ops \<Rightarrow> u32 \<Rightarrow> u32 \<Rightarrow> 'f quetz_cf \<Rightarrow> 'f quetz_cf" where
  "twiddled fp m n v =
     \<lparr>cf_re = fp_sub fp (fp_mul fp (fp_cos fp m n) (cf_re v)) (fp_mul fp (fp_sin fp m n) (cf_im v)),
      cf_im = fp_add fp (fp_mul fp (fp_cos fp m n) (cf_im v)) (fp_mul fp (fp_sin fp m n) (cf_re v))\<rparr>"

definition cf_plus :: "'f fp_ops \<Rightarrow> 'f quetz_cf \<Rightarrow> 'f quetz_cf \<Rightarrow> 'f quetz_cf" where
  "cf_plus fp u t = \<lparr>cf_re = fp_add fp (cf_re u) (cf_re t), cf_im = fp_add fp (cf_im u) (cf_im t)\<rparr>"

definition cf_minus :: "'f fp_ops \<Rightarrow> 'f quetz_cf \<Rightarrow> 'f quetz_cf \<Rightarrow> 'f quetz_cf" where
  "cf_minus fp u t = \<lparr>cf_re = fp_sub fp (cf_re u) (cf_re t), cf_im = fp_sub fp (cf_im u) (cf_im t)\<rparr>"

text \<open>The 32-bit index arithmetic of a butterfly is exact.\<close>

lemma butterfly_indices:
  fixes l s k :: nat
  assumes "1 \<le> s" "s \<le> l" "l \<le> 31" "k < 2 ^ (l - 1)"
  defines "half \<equiv> push_bit (s - 1) 1 :: u32" and "h \<equiv> 2 ^ (s - 1) :: nat"
  defines "j \<equiv> of_nat k AND (half - 1)" and "i0 \<equiv> drop_bit (s - 1) (of_nat k) * push_bit 1 half + (of_nat k AND (half - 1))"
  shows "unat i0 = pos0 h k" "unat (i0 + half) = pos0 h k + h" "pos0 h k + h < 2 ^ l"
    "push_bit (l - s) j = of_nat (k mod h * 2 ^ (l - s))"
proof -
  have h: "0 < h" "h * 2 ^ (l - s) = 2 ^ (l - 1)" "2 * h * 2 ^ (l - s) = 2 ^ l"
    using assms(1,2) unfolding h_def by (simp_all add: power_add [symmetric] power_Suc [symmetric] del: power_Suc)
  have l: "(2 :: nat) ^ l \<le> 2 ^ 31"
    using assms(3) by (intro power_increasing) auto
  have half: "unat half = h"
    using assms(1-3) by (simp add: half_def h_def unat_push_bit_32 push_bit_of_1 unat_pow_32)
  have k: "unat (of_nat k :: u32) = k"
    using assms(3,4) by (intro unat_small_32 [of k "l - 1"]) auto
  have j: "unat j = k mod h"
    using and_mask_unat [of "of_nat k :: u32" "s - 1"] k by (simp add: j_def half_def h_def mask_eq_exp_minus_1 push_bit_of_1)
  have bound: "pos0 h k + h < 2 ^ l"
    using pos0_less [OF h(1), of k "2 ^ (l - s)"] assms(4) h(2,3) by simp
  then show "pos0 h k + h < 2 ^ l" .
  have two: "unat (push_bit 1 half) = 2 * h"
    using half bound l by (subst unat_push_bit_32) auto
  have g: "unat (drop_bit (s - 1) (of_nat k) :: u32) = k div h"
    using k by (simp add: drop_bit_unat h_def)
  show i0: "unat i0 = pos0 h k"
  proof -
    have "(2 :: nat) ^ l < 4294967296"
      using l by simp
    then have "k div h * (2 * h) < 4294967296" "k div h * (2 * h) + k mod h < 4294967296"
      using bound unfolding pos0_def by linarith+
    then show ?thesis
      unfolding i0_def unat_word_ariths j [unfolded j_def] g two by (simp add: pos0_def)
  qed
  show "unat (i0 + half) = pos0 h k + h"
    unfolding unat_word_ariths i0 half using bound l by simp
  have "k mod h * 2 ^ (l - s) < 2 ^ 32"
  proof -
    have "k mod h * 2 ^ (l - s) \<le> h * 2 ^ (l - s)"
      using mod_less_divisor [OF h(1), of k] by (intro mult_le_mono1) simp
    also have "\<dots> \<le> 2 ^ l"
      unfolding h(2) by (intro power_increasing) auto
    finally show ?thesis
      using l by simp
  qed
  then have "unat (push_bit (l - s) j) = k mod h * 2 ^ (l - s)"
    using j assms(1,3) by (subst unat_push_bit_32) auto
  then show "push_bit (l - s) j = of_nat (k mod h * 2 ^ (l - s))"
    using \<open>k mod h * 2 ^ (l - s) < 2 ^ 32\<close> by (simp only: word_unat_eq_iff unat_of_nat_32)
qed

lemma butterfly_eq:
  fixes fp :: "'f fp_ops" and n :: u32
  assumes "1 \<le> s" "s \<le> l" "l \<le> 31" "k < 2 ^ (l - 1)" "length a = 2 ^ l"
  defines "h \<equiv> 2 ^ (s - 1) :: nat"
  defines "t \<equiv> twiddled fp (of_nat (k mod h * 2 ^ (l - s))) n (a ! (pos0 h k + h))"
  shows "butterfly fp l n s k a =
    Inr (a[pos0 h k := cf_plus fp (a ! pos0 h k) t, pos0 h k + h := cf_minus fp (a ! pos0 h k) t])"
proof -
  note i = butterfly_indices [OF assms(1-4), folded h_def]
  have "pos0 h k < length a" "pos0 h k + h < length a"
    using i(3) assms(5) by auto
  then show ?thesis
    unfolding butterfly_def Let_def i by (simp add: t_def twiddled_def cf_plus_def cf_minus_def)
qed

definition stage_value :: "'f fp_ops \<Rightarrow> nat \<Rightarrow> u32 \<Rightarrow> nat \<Rightarrow> 'f quetz_cf list \<Rightarrow> nat \<Rightarrow> 'f quetz_cf" where
  "stage_value fp l n s a p =
     (let h = 2 ^ (s - 1); k = pair_of h p; u = a ! pos0 h k;
          t = twiddled fp (of_nat (k mod h * 2 ^ (l - s))) n (a ! (pos0 h k + h))
      in if p mod (2 * h) < h then cf_plus fp u t else cf_minus fp u t)"

text \<open>The butterflies of a stage work on disjoint pairs, so the stage updates all positions at once.\<close>

lemma stage_eq:
  assumes s: "1 \<le> s" "s \<le> l" and l: "l \<le> 31" and len: "length a = 2 ^ l"
  shows "\<exists>b. fft_stage fp l (2 ^ l) s a = Inr b \<and> length b = 2 ^ l \<and> (\<forall>p < 2 ^ l. b ! p = stage_value fp l (2 ^ l) s a p)"
proof -
  define h :: nat where "h = 2 ^ (s - 1)"
  define val where "val = stage_value fp l (2 ^ l) s a"
  have h: "0 < h"
    by (simp add: h_def)
  let ?P = "\<lambda>k b. length b = 2 ^ l \<and> (\<forall>p < 2 ^ l. b ! p = (if pair_of h p < k then val p else a ! p))"
  have "\<exists>b'. butterfly fp l (2 ^ l) s k b = Inr b' \<and> ?P (k + 1) b'" if k: "k < 2 ^ (l - 1)" and b: "?P k b" for k b
  proof -
    define p where "p = pos0 h k"
    have p: "p < 2 ^ l" "p + h < 2 ^ l"
      using butterfly_indices(3) [OF s l k] by (auto simp: p_def h_def)
    have own: "pair_of h p = k" "pair_of h (p + h) = k" "p mod (2 * h) < h" "\<not> (p + h) mod (2 * h) < h"
      unfolding p_def using pair_of_pos [OF h, of k] pos0_split [OF h, of k] h by simp_all
    have same: "b ! p = a ! p" "b ! (p + h) = a ! (p + h)"
      using b p own by auto
    have "val p = cf_plus fp (a ! p) (twiddled fp (of_nat (k mod h * 2 ^ (l - s))) (2 ^ l) (a ! (p + h)))"
      "val (p + h) = cf_minus fp (a ! p) (twiddled fp (of_nat (k mod h * 2 ^ (l - s))) (2 ^ l) (a ! (p + h)))"
      unfolding val_def stage_value_def Let_def h_def [symmetric] own(1,2) p_def [symmetric] using own(3,4) by simp_all
    then have step: "butterfly fp l (2 ^ l) s k b = Inr (b[p := val p, p + h := val (p + h)])"
      using butterfly_eq [OF s l k, of b fp "2 ^ l", folded h_def p_def, unfolded same] b by simp
    have "q = p \<or> q = p + h" if "pair_of h q = k" for q
      using pos_of_pair [OF h, of q] that unfolding p_def by (metis (full_types))
    then have "?P (k + 1) (b[p := val p, p + h := val (p + h)])"
      using b p own(1,2) h by (auto simp: nth_list_update less_Suc_eq)
    then show ?thesis
      using step by blast
  qed
  then obtain b where b: "res_iter (butterfly fp l (2 ^ l) s) [0..<2 ^ (l - 1)] a = Inr b" "?P (2 ^ (l - 1)) b"
    using res_iter_upt [of ?P a "2 ^ (l - 1)" "butterfly fp l (2 ^ l) s"] len by auto
  have "h * 2 ^ (l - s) = 2 ^ (l - 1)" "2 * h * 2 ^ (l - s) = (2 :: nat) ^ l"
    unfolding h_def using s by (simp_all add: power_add [symmetric] power_Suc [symmetric] del: power_Suc)
  then have "pair_of h p < 2 ^ (l - 1)" if "p < 2 ^ l" for p
    using pair_of_less [OF h, of p "2 ^ (l - s)"] that by simp
  moreover have "unat ((2 :: u32) ^ l div 2) = 2 ^ (l - 1)"
    using s l unat_pow_32 [of l] by (cases l) (auto simp: unat_div)
  ultimately show ?thesis
    using b unfolding val_def by (auto simp: fft_stage_def)
qed

section \<open>Memory safety\<close>

lemma stages_total:
  assumes "l \<le> 31" "length a = 2 ^ l" "1 \<le> s" "s \<le> l + 1"
  shows "\<exists>b. res_iter (fft_stage fp l (2 ^ l)) [s..<l + 1] a = Inr b \<and> length b = 2 ^ l"
  using assms(2-4)
proof (induction "l + 1 - s" arbitrary: s a)
  case (Suc d)
  then have s: "s \<le> l"
    by simp
  obtain b where "fft_stage fp l (2 ^ l) s a = Inr b" "length b = 2 ^ l"
    using stage_eq [OF Suc.prems(2) s assms(1) Suc.prems(1)] by blast
  moreover have "[s..<l + 1] = s # [s + 1..<l + 1]"
    using s by (simp add: upt_conv_Cons del: upt_Suc)
  ultimately show ?case
    using Suc.hyps(1) [of "s + 1" b] Suc.hyps(2) Suc.prems s by (simp del: upt_Suc)
qed simp

lemma fft_total:
  assumes "l \<le> 31" "length a = 2 ^ l"
  shows "\<exists>b. quetz_fft_radix2 fp a (2 ^ l) = Inr b \<and> length b = 2 ^ l"
proof -
  obtain b where "res_iter (swap_step l) [0..<2 ^ l] a = Inr b" "length b = 2 ^ l"
    using swap_loop [OF assms(2,1)] by blast
  moreover obtain c where "res_iter (fft_stage fp l (2 ^ l)) [1..<l + 1] b = Inr c" "length c = 2 ^ l"
    using stages_total [OF assms(1) \<open>length b = 2 ^ l\<close>, of 1 fp] by auto
  ultimately show ?thesis
    using assms(1) by (simp add: quetz_fft_radix2_def fft_logn_eq unat_pow_32)
qed

section \<open>The transform with exact arithmetic\<close>

definition exact_fp :: "real fp_ops" where
  "exact_fp = \<lparr>fp_add = (+), fp_sub = (-), fp_mul = (*),
     fp_cos = (\<lambda>m n. cos (- 2 * pi * real (unat m) / real (unat n))),
     fp_sin = (\<lambda>m n. sin (- 2 * pi * real (unat m) / real (unat n))),
     fp_bits = (\<lambda>_. 0), fp_of_bits = (\<lambda>_. 0)\<rparr>"

definition cplx :: "real quetz_cf \<Rightarrow> complex" where
  "cplx v = Complex (cf_re v) (cf_im v)"

definition unity_root :: "nat \<Rightarrow> complex" where
  "unity_root n = cis (- 2 * pi / real n)"

definition dft :: "complex list \<Rightarrow> nat \<Rightarrow> complex" where
  "dft xs k = (\<Sum>r<length xs. xs ! r * unity_root (length xs) ^ (r * k))"

lemma unity_root_pow: "unity_root n ^ m = cis (- 2 * pi * real m / real n)"
  by (simp add: unity_root_def DeMoivre mult.commute)

lemma unity_root_full: "0 < n \<Longrightarrow> unity_root n ^ n = 1"
  by (simp add: unity_root_pow complex_eq_iff)

lemma unity_root_half: "unity_root (2 * m) ^ m = - 1" if "0 < m"
  using that by (simp add: unity_root_pow complex_eq_iff)

lemma exact_arith: "fp_add exact_fp x y = x + y" "fp_sub exact_fp x y = x - y" "fp_mul exact_fp x y = x * y"
  by (simp_all add: exact_fp_def)

lemma cplx_butterfly:
  assumes "l \<le> 31" "m < 2 ^ l"
  shows "cplx (cf_plus exact_fp u (twiddled exact_fp (of_nat m) (2 ^ l) v)) = cplx u + unity_root (2 ^ l) ^ m * cplx v"
    "cplx (cf_minus exact_fp u (twiddled exact_fp (of_nat m) (2 ^ l) v)) = cplx u - unity_root (2 ^ l) ^ m * cplx v"
proof -
  have u: "unat (of_nat m :: u32) = m" "unat (2 ^ l :: u32) = 2 ^ l"
    using assms unat_small_32 [of m l] unat_pow_32 [of l] by auto
  have w: "fp_cos exact_fp (of_nat m) (2 ^ l) = cos (- 2 * pi * real m / real (2 ^ l))"
    "fp_sin exact_fp (of_nat m) (2 ^ l) = sin (- 2 * pi * real m / real (2 ^ l))"
    unfolding exact_fp_def fp_ops.simps u by (rule refl)+
  show "cplx (cf_plus exact_fp u (twiddled exact_fp (of_nat m) (2 ^ l) v)) = cplx u + unity_root (2 ^ l) ^ m * cplx v"
    "cplx (cf_minus exact_fp u (twiddled exact_fp (of_nat m) (2 ^ l) v)) = cplx u - unity_root (2 ^ l) ^ m * cplx v"
    unfolding unity_root_pow using w
    by (simp_all add: twiddled_def cf_plus_def cf_minus_def cplx_def exact_arith complex_eq_iff)
qed

lemma sum_even_odd: "(\<Sum>r<2 * (h :: nat). f r) = (\<Sum>r<h. f (2 * r)) + (\<Sum>r<h. f (2 * r + 1) :: complex)"
  by (induction h) simp_all

text \<open>After stage \<open>s\<close> the block \<open>g\<close> holds the transform of the \<open>2 ^ s\<close> samples whose index is \<open>rev_bits (l - s) g\<close> modulo
  \<open>2 ^ (l - s)\<close>.\<close>

definition stage_inv :: "nat \<Rightarrow> (nat \<Rightarrow> complex) \<Rightarrow> nat \<Rightarrow> real quetz_cf list \<Rightarrow> bool" where
  "stage_inv l x s b \<longleftrightarrow> length b = 2 ^ l \<and>
     (\<forall>g < 2 ^ (l - s). \<forall>t < 2 ^ s. cplx (b ! (g * 2 ^ s + t)) =
        (\<Sum>r<2 ^ s. x (rev_bits (l - s) g + 2 ^ (l - s) * r) * unity_root (2 ^ l) ^ (2 ^ (l - s) * r * t)))"

lemma merge_blocks:
  fixes x :: "nat \<Rightarrow> complex" and w :: complex
  assumes "w ^ (2 * M * h) = 1" "w ^ (M * h) = - 1" "j < h" "t = j \<or> t = j + h"
  shows "(\<Sum>r<2 * h. x (\<rho> + M * r) * w ^ (M * r * t)) =
    (\<Sum>r<h. x (\<rho> + 2 * M * r) * w ^ (2 * M * r * j)) +
    (if t = j then 1 else - 1) * (w ^ (j * M) * (\<Sum>r<h. x (\<rho> + M + 2 * M * r) * w ^ (2 * M * r * j)))"
proof -
  have full: "w ^ (2 * M * r * t) = w ^ (2 * M * r * j)" for r
  proof (cases "t = j")
    case False
    then have "2 * M * r * t = 2 * M * r * j + 2 * M * h * r"
      using assms(4) by (simp add: algebra_simps)
    then show ?thesis
      using assms(1) by (simp add: power_add power_mult)
  qed simp
  have once: "w ^ (M * t) = (if t = j then 1 else - 1) * w ^ (j * M)"
    using assms(2,4) by (auto simp: algebra_simps power_add)
  have odd: "w ^ (M * (2 * r + 1) * t) = (if t = j then 1 else - 1) * (w ^ (j * M) * w ^ (2 * M * r * j))" for r
  proof -
    have "M * (2 * r + 1) * t = M * t + 2 * M * r * t"
      by (simp add: algebra_simps)
    then have "w ^ (M * (2 * r + 1) * t) = w ^ (M * t) * w ^ (2 * M * r * t)"
      by (simp only: power_add)
    then show ?thesis
      unfolding full once by (simp only: mult.assoc)
  qed
  have "x (\<rho> + M * (2 * r)) * w ^ (M * (2 * r) * t) = x (\<rho> + 2 * M * r) * w ^ (2 * M * r * j)" for r
    using full [of r] by (simp add: ac_simps)
  moreover have "x (\<rho> + M * (2 * r + 1)) * w ^ (M * (2 * r + 1) * t) =
      (if t = j then 1 else - 1) * (w ^ (j * M) * (x (\<rho> + M + 2 * M * r) * w ^ (2 * M * r * j)))" for r
    unfolding odd by (simp add: algebra_simps)
  ultimately show ?thesis
    unfolding sum_even_odd by (simp only: sum_distrib_left)
qed

lemma stage_value_block:
  assumes "t < 2 * h" "h = 2 ^ s"
  defines "j \<equiv> t mod h"
  shows "stage_value fp l n (s + 1) a (g * (2 * h) + t) =
    (if t < h then cf_plus fp else cf_minus fp) (a ! (2 * g * h + j))
      (twiddled fp (of_nat (j * 2 ^ (l - (s + 1)))) n (a ! ((2 * g + 1) * h + j)))"
proof -
  have h: "0 < h" "j < h"
    using assms by auto
  have "(g * (2 * h) + t) mod h = j"
    unfolding j_def by (simp add: mult.assoc [symmetric] mod_add_left_eq [symmetric])
  then have "pair_of h (g * (2 * h) + t) = g * h + j" "(g * (2 * h) + t) mod (2 * h) = t"
    using assms(1) h by (simp_all add: pair_of_def)
  moreover have "pos0 h (g * h + j) = 2 * g * h + j" "(g * h + j) mod h = j"
    using h by (simp_all add: pos0_def)
  moreover have "2 * g * h + j + h = (2 * g + 1) * h + j"
    by (simp add: algebra_simps)
  ultimately show ?thesis
    unfolding stage_value_def Let_def add_diff_cancel_right' assms(2) [symmetric] by (simp add: add.commute add.left_commute)
qed

lemma stage_step:
  assumes inv: "stage_inv l x s a" and s: "s < l" and l: "l \<le> 31" and step: "fft_stage exact_fp l (2 ^ l) (s + 1) a = Inr b"
  shows "stage_inv l x (s + 1) b"
proof -
  define h d M :: nat where "h = 2 ^ s" and "d = l - (s + 1)" and "M = 2 ^ d"
  let ?w = "unity_root (2 ^ l)"
  have len: "length a = 2 ^ l"
    using inv by (simp add: stage_inv_def)
  have ls: "l - s = Suc d" "2 ^ (l - s) = 2 * M" "2 ^ (s + 1) = 2 * h" "2 * M * h = 2 ^ l" "0 < M" "0 < h"
    using s by (simp_all add: d_def M_def h_def power_add [symmetric] flip: power_Suc)
  then have root: "?w ^ (2 * M * h) = 1" "?w ^ (M * h) = - 1"
    using unity_root_full [of "2 ^ l"] unity_root_half [of "M * h"] by (simp_all add: mult.assoc)
  have val: "length b = 2 ^ l" "\<And>p. p < 2 ^ l \<Longrightarrow> b ! p = stage_value exact_fp l (2 ^ l) (s + 1) a p"
    using stage_eq [OF _ _ l len, of "s + 1" exact_fp] s step by auto
  have old: "cplx (a ! (g * h + j)) = (\<Sum>r<h. x (rev_bits (Suc d) g + 2 * M * r) * ?w ^ (2 * M * r * j))"
    if "g < 2 * M" "j < h" for g j
    using inv that unfolding stage_inv_def ls(2) unfolding ls(1) h_def by blast
  have "cplx (b ! (g * (2 * h) + t)) = (\<Sum>r<2 * h. x (rev_bits d g + M * r) * ?w ^ (M * r * t))"
    if g: "g < M" and t: "t < 2 * h" for g t
  proof -
    define j where "j = t mod h"
    have j: "j < h" "t = j \<or> t = j + h" "t < h \<longleftrightarrow> t = j"
      using t le_mod_geq [of h t] by (cases "t < h"; auto simp: j_def)+
    have "(g + 1) * (2 * h) \<le> M * (2 * h)"
      using g by (intro mult_le_mono1) simp
    then have p: "g * (2 * h) + t < 2 ^ l"
      using t ls(4) by (simp add: algebra_simps)
    have "j * M < h * M" "h * M \<le> 2 * M * h"
      using j(1) ls(5) by simp_all
    then have jM: "j * M < 2 ^ l"
      unfolding ls(4) by (rule less_le_trans)
    have blocks: "cplx (a ! (2 * g * h + j)) = (\<Sum>r<h. x (rev_bits d g + 2 * M * r) * ?w ^ (2 * M * r * j))"
      "cplx (a ! ((2 * g + 1) * h + j)) = (\<Sum>r<h. x (rev_bits d g + M + 2 * M * r) * ?w ^ (2 * M * r * j))"
      using old [of "2 * g" j] old [of "2 * g + 1" j] g j(1) by (simp_all add: M_def add.commute)
    have "cplx (b ! (g * (2 * h) + t)) =
        cplx (a ! (2 * g * h + j)) + (if t = j then 1 else - 1) * (?w ^ (j * M) * cplx (a ! ((2 * g + 1) * h + j)))"
      unfolding val(2) [OF p] stage_value_block [OF t h_def] j_def [symmetric] j(3) d_def [symmetric] M_def [symmetric]
      using cplx_butterfly [OF l jM] by simp
    then show ?thesis
      unfolding blocks merge_blocks [OF root j(1,2), where x = x and \<rho> = "rev_bits d g"] .
  qed
  then show ?thesis
    using val(1) unfolding stage_inv_def ls(3) d_def [symmetric] M_def [symmetric] by blast
qed

lemma stages_inv:
  assumes "l \<le> 31" "s \<le> l" "stage_inv l x s a"
  shows "\<exists>b. res_iter (fft_stage exact_fp l (2 ^ l)) [s + 1..<l + 1] a = Inr b \<and> stage_inv l x l b"
  using assms(2,3)
proof (induction "l - s" arbitrary: s a)
  case (Suc d)
  then have s: "s < l"
    by simp
  obtain b where b: "fft_stage exact_fp l (2 ^ l) (s + 1) a = Inr b"
    using stage_eq [of "s + 1" l a exact_fp] s assms(1) Suc.prems(2) by (auto simp: stage_inv_def)
  moreover have "[s + 1..<l + 1] = (s + 1) # [s + 1 + 1..<l + 1]"
    using s by (simp add: upt_conv_Cons del: upt_Suc)
  ultimately show ?case
    using Suc.hyps(1) [of "s + 1" b] Suc.hyps(2) s stage_step [OF Suc.prems(2) s assms(1) b] by (simp del: upt_Suc)
qed simp

section \<open>The kernel contract\<close>

lemma power_of_two_nat: "0 < (n :: nat) \<Longrightarrow> n AND (n - 1) = 0 \<Longrightarrow> \<exists>l. n = 2 ^ l"
proof (induction n rule: less_induct)
  case (less n)
  show ?case
  proof (cases "even n")
    case True
    then have half: "n = 2 * (n div 2)" "(n - 1) div 2 = n div 2 - 1" "0 < n div 2" "n div 2 < n"
      using less.prems(1) by auto
    then have "n div 2 AND (n div 2 - 1) = 0"
      using less.prems(2) by (subst (asm) and_nat_rec) simp
    then obtain l where "n div 2 = 2 ^ l"
      using less.IH [OF half(4,3)] by blast
    then have "n = 2 ^ Suc l"
      using half(1) by simp
    then show ?thesis ..
  next
    case False
    then have "(n - 1) div 2 = n div 2"
      by (auto elim: oddE)
    then have "n div 2 = 0"
      using less.prems(2) by (subst (asm) and_nat_rec) simp
    then have "n = 2 ^ 0"
      using less.prems(1) by auto
    then show ?thesis ..
  qed
qed

lemma fft_inputBytes_points:
  assumes "fft_inputBytes a \<noteq> 0"
  obtains l where "l \<le> 25" "unat (ka_arg2 a) = 2 ^ l" "unat (fft_inputBytes a) = 8 * 2 ^ l" "(ucast (ka_arg2 a) :: u32) = 2 ^ l"
proof -
  let ?n = "ka_arg2 a"
  have n: "?n \<noteq> 0" "?n AND (?n - 1) = 0" "\<not> ?n > kMaxKernelInputBytes div 8" "fft_inputBytes a = ?n * 8"
    using assms by (auto simp: fft_inputBytes_def Let_def split: if_splits)
  have "unat (?n - 1) = unat ?n - 1"
    using n(1) by (simp add: unat_minus_one)
  moreover have "unat (?n AND (?n - 1)) = unat ?n AND unat (?n - 1)"
    by (rule unsigned_and_eq)
  ultimately obtain l where l: "unat ?n = 2 ^ l"
    using power_of_two_nat [of "unat ?n"] n(1,2) by (auto simp: unat_gt_0)
  have "unat ?n \<le> 2 ^ 25"
    using n(3) by (simp add: kMaxKernelInputBytes_def word_less_nat_alt not_less)
  then have le: "(2 :: nat) ^ l \<le> 2 ^ 25"
    using l by simp
  then have l25: "l \<le> 25"
    by (rule power_le_imp_le_exp [rotated]) simp
  have "unat (ucast ?n :: u32) = 2 ^ l"
    using l le l25 by (simp add: unsigned_ucast_eq take_bit_nat_eq_self)
  then have "(ucast ?n :: u32) = 2 ^ l"
    using l25 by (simp only: word_unat_eq_iff unat_pow_32)
  moreover have "unat (fft_inputBytes a) = 8 * 2 ^ l"
    unfolding n(4) using l le by (simp add: unat_word_ariths)
  ultimately show thesis
    using that [OF l25 l] by blast
qed

definition word_at :: "bool \<Rightarrow> u8 list \<Rightarrow> nat \<Rightarrow> u32" where
  "word_at be bs p =
     (if be then push_bit 24 (ucast (bs ! p)) OR push_bit 16 (ucast (bs ! (p + 1))) OR push_bit 8 (ucast (bs ! (p + 2))) OR ucast (bs ! (p + 3))
      else ucast (bs ! p) OR push_bit 8 (ucast (bs ! (p + 1))) OR push_bit 16 (ucast (bs ! (p + 2))) OR push_bit 24 (ucast (bs ! (p + 3))))"

definition point_at :: "'f fp_ops \<Rightarrow> bool \<Rightarrow> u8 list \<Rightarrow> nat \<Rightarrow> 'f quetz_cf" where
  "point_at fp be bs i = \<lparr>cf_re = fp_of_bits fp (word_at be bs (i * 8)), cf_im = fp_of_bits fp (word_at be bs (i * 8 + 4))\<rparr>"

lemma bytes_of_32:
  fixes b :: u32
  defines "w \<equiv> push_bit 24 (ucast (ucast (drop_bit 24 b) :: u8)) OR push_bit 16 (ucast (ucast (drop_bit 16 b) :: u8)) OR
      push_bit 8 (ucast (ucast (drop_bit 8 b) :: u8)) OR ucast (ucast b :: u8)"
  shows "w = b"
    "ucast (ucast b :: u8) OR push_bit 8 (ucast (ucast (drop_bit 8 b) :: u8)) OR
      push_bit 16 (ucast (ucast (drop_bit 16 b) :: u8)) OR push_bit 24 (ucast (ucast (drop_bit 24 b) :: u8)) = b"
proof -
  show "w = b"
  proof (rule bit_word_eqI)
    fix n assume "n < LENGTH(32)"
    then consider "n < 8" | "8 \<le> n" "n < 16" | "16 \<le> n" "n < 24" | "24 \<le> n" "n < 32"
      by fastforce
    then show "bit w n = bit b n"
      unfolding w_def by cases (auto simp: bit_simps not_less less_diff_conv2)
  qed
  then show "ucast (ucast b :: u8) OR push_bit 8 (ucast (ucast (drop_bit 8 b) :: u8)) OR
      push_bit 16 (ucast (ucast (drop_bit 16 b) :: u8)) OR push_bit 24 (ucast (ucast (drop_bit 24 b) :: u8)) = b"
    unfolding w_def by (simp only: or.assoc or.commute or.left_commute)
qed

lemma read_f32: "p + 3 < length bs \<Longrightarrow> bytes_to_f32 fp be bs p = Inr (fp_of_bits fp (word_at be bs p))"
  by (simp add: bytes_to_f32_def word_at_def)

lemma write_f32:
  assumes "p + 3 < length bs"
  obtains bs' where "f32_to_bytes fp be f p bs = Inr bs'" "length bs' = length bs" "word_at be bs' p = fp_bits fp f"
    "\<And>m. m < p \<or> p + 4 \<le> m \<Longrightarrow> bs' ! m = bs ! m"
proof -
  let ?b = "fp_bits fp f"
  let ?bytet = "ucast (drop_bit 24 ?b) :: u8" and ?byteu = "ucast (drop_bit 16 ?b) :: u8" and ?bytev = "ucast (drop_bit 8 ?b) :: u8"
    and ?bytew = "ucast ?b :: u8"
  let ?bs = "bs[p := if be then ?bytet else ?bytew, p + 1 := if be then ?byteu else ?bytev, p + 2 := if be then ?bytev else ?byteu,
    p + 3 := if be then ?bytew else ?bytet]"
  have "f32_to_bytes fp be f p bs = Inr ?bs"
    using assms by (simp add: f32_to_bytes_def Let_def)
  moreover have "word_at be ?bs p = ?b"
    using assms bytes_of_32 [of ?b] by (simp add: word_at_def)
  moreover have "?bs ! m = bs ! m" if "m < p \<or> p + 4 \<le> m" for m
    using that by auto
  ultimately show thesis
    using that [of ?bs] by (simp only: length_list_update)
qed

lemma read_points:
  assumes "8 * n \<le> length bs"
  shows "res_iter (read_point fp be bs) [0..<n] [] = Inr (map (point_at fp be bs) [0..<n])"
proof -
  have "\<exists>a. res_iter (read_point fp be bs) [0..<n] [] = Inr a \<and> a = map (point_at fp be bs) [0..<n]"
    using assms by (intro res_iter_upt) (auto simp: read_point_def read_f32 point_at_def)
  then show ?thesis
    by simp
qed

lemma write_points:
  assumes "8 * n \<le> length bs" "length b = n"
  shows "\<exists>out. res_iter (write_point fp be b) [0..<n] bs = Inr out \<and> length out = length bs \<and>
    (\<forall>i < n. word_at be out (i * 8) = fp_bits fp (cf_re (b ! i)) \<and> word_at be out (i * 8 + 4) = fp_bits fp (cf_im (b ! i)))"
proof -
  let ?P = "\<lambda>k out. length out = length bs \<and>
    (\<forall>i < k. word_at be out (i * 8) = fp_bits fp (cf_re (b ! i)) \<and> word_at be out (i * 8 + 4) = fp_bits fp (cf_im (b ! i)))"
  have "\<exists>out'. write_point fp be b k out = Inr out' \<and> ?P (k + 1) out'" if k: "k < n" and out: "?P k out" for k out
  proof -
    obtain o1 where o1: "f32_to_bytes fp be (cf_re (b ! k)) (k * 8) out = Inr o1" "length o1 = length out"
        "word_at be o1 (k * 8) = fp_bits fp (cf_re (b ! k))" "\<And>m. m < k * 8 \<or> k * 8 + 4 \<le> m \<Longrightarrow> o1 ! m = out ! m"
      using write_f32 [of "k * 8" out fp be "cf_re (b ! k)"] k out assms(1) by auto
    obtain o2 where o2: "f32_to_bytes fp be (cf_im (b ! k)) (k * 8 + 4) o1 = Inr o2" "length o2 = length o1"
        "word_at be o2 (k * 8 + 4) = fp_bits fp (cf_im (b ! k))"
        "\<And>m. m < k * 8 + 4 \<or> k * 8 + 4 + 4 \<le> m \<Longrightarrow> o2 ! m = o1 ! m"
      using write_f32 [of "k * 8 + 4" o1 fp be "cf_im (b ! k)"] k out assms(1) o1(2) by auto
    have keep: "word_at be o2 q = word_at be o1 q" if "q + 3 < k * 8 + 4" for q
      using that o2(4) by (simp add: word_at_def)
    have keep1: "word_at be o1 q = word_at be out q" if "q + 3 < k * 8" for q
      using that o1(4) by (simp add: word_at_def)
    have "?P (k + 1) o2"
      using out o1(2,3) o2(2,3) by (auto simp: less_Suc_eq keep keep1)
    then show ?thesis
      using o1(1) o2(1) k assms(2) by (simp add: write_point_def)
  qed
  then show ?thesis
    using res_iter_upt [of ?P bs n "write_point fp be b"] by auto
qed

lemma fft_compute_spec:
  assumes "fft_inputBytes a \<noteq> 0" "length input = unat (fft_inputBytes a)"
  shows "\<exists>lat out b. fft_compute fp coeff be a input = Inr (lat, out) \<and> length out = length input \<and>
    quetz_fft_radix2 fp (map (point_at fp be input) [0..<unat (ka_arg2 a)]) (ucast (ka_arg2 a)) = Inr b \<and>
    (\<forall>i < unat (ka_arg2 a). word_at be out (i * 8) = fp_bits fp (cf_re (b ! i)) \<and> word_at be out (i * 8 + 4) = fp_bits fp (cf_im (b ! i)))"
proof -
  obtain l where l: "l \<le> 25" "unat (ka_arg2 a) = 2 ^ l" "unat (fft_inputBytes a) = 8 * 2 ^ l" "(ucast (ka_arg2 a) :: u32) = 2 ^ l"
    using fft_inputBytes_points [OF assms(1)] by blast
  let ?a = "map (point_at fp be input) [0..<2 ^ l]"
  have "unat (2 ^ l :: u32) = 2 ^ l"
    using l(1) by (simp add: unat_pow_32)
  moreover obtain b where b: "quetz_fft_radix2 fp ?a (2 ^ l) = Inr b" "length b = 2 ^ l"
    using fft_total [of l ?a fp] l(1) by auto
  moreover have "res_iter (read_point fp be input) [0..<2 ^ l] [] = Inr ?a"
    using assms(2) l(3) by (intro read_points) simp
  moreover obtain out where "res_iter (write_point fp be b) [0..<2 ^ l] (replicate (length input) 0) = Inr out"
      "length out = length input"
      "\<forall>i < 2 ^ l. word_at be out (i * 8) = fp_bits fp (cf_re (b ! i)) \<and> word_at be out (i * 8 + 4) = fp_bits fp (cf_im (b ! i))"
    using write_points [OF _ b(2), of "replicate (length input) 0" fp be] assms(2) l(3) by auto
  ultimately show ?thesis
    unfolding l(2,4) by (simp add: fft_compute_def Let_def l(4))
qed

interpretation fft: kernel_contract "FFTKernel fp coeff be" for fp coeff be
proof
  fix a :: kernel_args and bs :: "u8 list"
  have size: "unat (fft_inputBytes a) \<le> unat kMaxKernelInputBytes"
  proof (cases "fft_inputBytes a = 0")
    case False
    then obtain l where "l \<le> 25" "unat (fft_inputBytes a) = 8 * 2 ^ l"
      using fft_inputBytes_points by blast
    then show ?thesis
      using power_increasing [of l 25 "2 :: nat"] by (simp add: kMaxKernelInputBytes_def)
  qed simp
  then show "k_inputBytes (FFTKernel fp coeff be) a \<le> kMaxKernelInputBytes"
    by (simp add: FFTKernel_def word_le_nat_alt)
  assume "k_inputBytes (FFTKernel fp coeff be) a \<noteq> 0" "length bs = unat (k_inputBytes (FFTKernel fp coeff be) a)"
  then have "fft_inputBytes a \<noteq> 0" "length bs = unat (fft_inputBytes a)"
    by (simp_all add: FFTKernel_def)
  then show "\<exists>lat out. k_compute (FFTKernel fp coeff be) a bs = Inr (lat, out) \<and> out \<noteq> [] \<and> length out \<le> unat kMaxKernelInputBytes"
    using fft_compute_spec [of a bs fp coeff be] size by (auto simp: FFTKernel_def unat_eq_0)
qed

section \<open>Properties\<close>

text \<open>C24. The FFT kernel computes the discrete Fourier transform: on \<open>2 ^ l\<close> points the in-place radix-2 routine, bit reversal and
  all stages with their 32-bit index arithmetic, ends without leaving its array, and with exact real arithmetic in place of
  floats its output is the transform of its input by the defining sum.\<close>

theorem fft_is_dft:
  assumes "l \<le> 31" "length a = 2 ^ l"
  shows "\<exists>b. quetz_fft_radix2 exact_fp a (2 ^ l) = Inr b \<and> length b = 2 ^ l \<and>
    (\<forall>k < 2 ^ l. cplx (b ! k) = dft (map cplx a) k)"
proof -
  obtain b0 where b0: "res_iter (swap_step l) [0..<2 ^ l] a = Inr b0" "length b0 = 2 ^ l"
      "\<forall>p < 2 ^ l. b0 ! p = a ! rev_bits l p"
    using swap_loop [OF assms(2,1)] by blast
  let ?x = "\<lambda>i. cplx (a ! i)"
  have "stage_inv l ?x 0 b0"
    using b0(2,3) by (simp add: stage_inv_def)
  then obtain b where b: "res_iter (fft_stage exact_fp l (2 ^ l)) [0 + 1..<l + 1] b0 = Inr b" "stage_inv l ?x l b"
    using stages_inv [OF assms(1), of 0] by blast
  have "cplx (b ! k) = dft (map cplx a) k" if "k < 2 ^ l" for k
    using b(2) that assms(2) by (simp add: stage_inv_def dft_def)
  then show ?thesis
    using b b0 assms(1) by (simp add: quetz_fft_radix2_def fft_logn_eq unat_pow_32 stage_inv_def)
qed

theorem fft_is_dft_witness:
  "\<exists>b. quetz_fft_radix2 exact_fp [\<lparr>cf_re = 1, cf_im = 0\<rparr>, \<lparr>cf_re = 2, cf_im = 0\<rparr>] 2 = Inr b \<and> cplx (b ! 0) = 3 \<and> cplx (b ! 1) = - 1"
proof -
  let ?a = "[\<lparr>cf_re = 1, cf_im = 0\<rparr>, \<lparr>cf_re = 2, cf_im = 0\<rparr>] :: real quetz_cf list"
  have "unity_root 2 = - 1"
    using unity_root_half [of 1] by simp
  then have "dft (map cplx ?a) 0 = 3" "dft (map cplx ?a) 1 = - 1"
    by (simp_all add: dft_def cplx_def complex_eq_iff numeral_2_eq_2)
  then show ?thesis
    using fft_is_dft [of 1 ?a] by auto
qed

end
