(* ===== verification/Quetz_Config.thy ===== *)
theory Quetz_Config
  imports Quetz_Cstring Quetz_Ipc_Types
begin

text \<open>
  Configuration: the native RAM regions and the ColdFire launch contract (\<open>src/quetz_platform_contract.h\<close>,
  \<open>src/quetz_cache_launch.h\<close>, \<open>src/quetz_multicore_launch.h\<close>), the parameters of the CPU component
  (\<open>src/quetz_config.h\<close>, \<open>src/quetz_config.cc\<close>) and the platform presets (\<open>src/quetz_config_manager.cc\<close>,
  \<open>src/quetz_platform_profiles.cc\<close>). A region list is accepted only if it can be registered in the shared segment, an
  accepted command line selects the configured machine once, and explicit parameters always override a preset.
\<close>

section \<open>Native regions\<close>

definition stoull :: "string \<Rightarrow> (u64 \<times> string) result" where
  "stoull s =
     (let (n, rest, over) = strtoull_end s in
      if rest = s then Inl (Invalid_argument ''stoull'')
      else if over then Inl (Out_of_range ''stoull'')
      else Inr (n, rest))"

definition region_number :: "string \<Rightarrow> u64 result" where
  "region_number s =
     (if s = [] \<or> (\<exists>c \<in> set s. c \<notin> set ''0123456789abcdefABCDEFxX'') then Inl (Invalid_argument ''invalid native region number'')
      else res_bind (stoull s) (\<lambda>(n, rest).
        if rest \<noteq> [] then Inl (Invalid_argument ''invalid native region number'') else Inr n))"

definition parse_region :: "string \<Rightarrow> native_ram_region list \<Rightarrow> native_ram_region list result" where
  "parse_region item regions =
     (let b = takeWhile (\<lambda>c. c \<noteq> CHR '':'') item; rest = dropWhile (\<lambda>c. c \<noteq> CHR '':'') item in
      if rest = [] \<or> b = [] \<or> tl rest = [] \<or> CHR '':'' \<in> set (tl rest)
        then Inl (Invalid_argument ''cache_native_regions requires base:size pairs separated by semicolons'')
      else
        res_bind (region_number b) (\<lambda>base.
        res_bind (region_number (tl rest)) (\<lambda>sz.
          if sz = 0 \<or> sz > ucast QUETZ_NATIVE_REGION_BYTES \<or> sz AND 4095 \<noteq> 0 \<or> base AND 4095 \<noteq> 0 \<or>
             base \<ge> push_bit 32 1 \<or> sz > push_bit 32 1 - base
            then Inl (Invalid_argument ''native regions require 4-KiB alignment, at most 64 KiB each and 32-bit guest addresses'')
          else if \<exists>r \<in> set regions. base < ucast (nr_base r) + ucast (nr_size r) \<and> ucast (nr_base r) < base + sz
            then Inl (Invalid_argument ''native regions overlap'')
          else if length regions = unat QUETZ_MAX_NATIVE_REGIONS
            then Inl (Invalid_argument ''at most two native regions are supported'')
          else Inr (regions @ [\<lparr>nr_base = ucast base, nr_size = ucast sz, nr_offset = 0, nr_reserved = 0\<rparr>]))))"

text \<open>The loop, from the position \<open>begin\<close> on.\<close>

function parse_regions :: "string \<Rightarrow> native_ram_region list \<Rightarrow> native_ram_region list result" where
  "parse_regions s regions =
     (if s = [] then Inr regions
      else
        let item = takeWhile (\<lambda>c. c \<noteq> CHR '';'') s; rest = dropWhile (\<lambda>c. c \<noteq> CHR '';'') s in
        res_bind (parse_region item regions) (\<lambda>rs.
          if rest = [] then Inr rs
          else if tl rest = [] then Inl (Invalid_argument ''empty native region'')
          else parse_regions (tl rest) rs))"
  by pat_completeness auto
termination
proof (relation "measure (\<lambda>(s, _). length s)")
  fix s :: string and item rest rs :: "char list" and regions rs' :: "native_ram_region list"
  assume "s \<noteq> []" "rest = dropWhile (\<lambda>c. c \<noteq> CHR '';'') s" "tl rest \<noteq> []"
  then have "length rest \<le> length s" "0 < length s"
    by (simp_all add: length_dropWhile_le)
  then have "length (tl rest) < length s"
    unfolding length_tl by linarith
  then show "((tl rest, rs'), (s, regions)) \<in> measure (\<lambda>(s, _). length s)"
    by simp
qed simp

declare parse_regions.simps [simp del]

definition parseNativeRegions :: "string \<Rightarrow> native_ram_region list result" where
  "parseNativeRegions s = parse_regions s []"

section \<open>The launch contract\<close>

definition find_sub :: "string \<Rightarrow> string \<Rightarrow> bool" where
  "find_sub pat s = (\<exists>i \<in> set [0..<Suc (length s)]. take (length pat) (drop i s) = pat)"

record launch_seen =
  seen_machine :: bool
  seen_cpu :: bool
  seen_smp :: bool
  seen_accel :: bool

text \<open>One recognised option; the result is the error message, or what has been seen.\<close>

definition launch_option :: "u32 \<Rightarrow> string \<Rightarrow> string \<Rightarrow> string \<Rightarrow> launch_seen \<Rightarrow> string + launch_seen" where
  "launch_option vcpus machine_name key val st =
     (if key = ''-machine'' \<or> key = ''-M'' then
        if seen_machine st \<or> takeWhile (\<lambda>c. c \<noteq> CHR '','') val \<noteq> machine_name \<or> find_sub '',type='' val \<or> find_sub '',accel='' val
          then Inl ''QEMU machine does not match the platform descriptor''
        else Inr (st\<lparr>seen_machine := True\<rparr>)
      else if key = ''-cpu'' then
        if seen_cpu st \<or> val \<noteq> ''cfv4e'' then Inl ''ColdFire adapter supports only one cfv4e selection''
        else Inr (st\<lparr>seen_cpu := True\<rparr>)
      else if key = ''-smp'' then
        if seen_smp st \<or> val \<noteq> dec (unat vcpus) then Inl ''QEMU topology does not match configured CPU count''
        else Inr (st\<lparr>seen_smp := True\<rparr>)
      else
        if seen_accel st \<or> (val \<noteq> ''tcg,thread=single'' \<and> \<not> (vcpus = 1 \<and> val = ''tcg''))
          then Inl ''ColdFire adapter requires single-thread TCG''
        else Inr (st\<lparr>seen_accel := True\<rparr>))"

text \<open>The option, its key and its inline value; a leading double dash counts as a single one.\<close>

definition option_text :: "string \<Rightarrow> string" where
  "option_text arg = (if take 2 arg = ''--'' then tl arg else arg)"

definition option_key :: "string \<Rightarrow> string" where
  "option_key arg = takeWhile (\<lambda>c. c \<noteq> CHR ''='') (option_text arg)"

definition option_inline :: "string \<Rightarrow> string option" where
  "option_inline arg =
     (case dropWhile (\<lambda>c. c \<noteq> CHR ''='') (option_text arg) of [] \<Rightarrow> None | _ # v \<Rightarrow> Some v)"

definition model_key :: "string \<Rightarrow> bool" where
  "model_key key \<longleftrightarrow> key = ''-machine'' \<or> key = ''-M'' \<or> key = ''-cpu'' \<or> key = ''-smp'' \<or> key = ''-accel''"

fun launch_scan :: "u32 \<Rightarrow> string \<Rightarrow> string list \<Rightarrow> launch_seen \<Rightarrow> string + launch_seen" where
  "launch_scan vcpus machine_name [] st = Inr st"
| "launch_scan vcpus machine_name (arg # args) st =
     (let key = option_key arg in
      if key = ''-readconfig'' \<or> key = ''-global'' \<or> key = ''-enable-kvm'' then Inl ''ColdFire adapter forbids external model overrides''
      else if \<not> model_key key then launch_scan vcpus machine_name args st
      else
        case option_inline arg of
          Some val \<Rightarrow>
            (case launch_option vcpus machine_name key val st of Inl e \<Rightarrow> Inl e | Inr st' \<Rightarrow> launch_scan vcpus machine_name args st')
        | None \<Rightarrow>
            (case args of
               [] \<Rightarrow> Inl ''missing QEMU model option value''
             | val # rest \<Rightarrow>
                 (case launch_option vcpus machine_name key val st of Inl e \<Rightarrow> Inl e | Inr st' \<Rightarrow> launch_scan vcpus machine_name rest st')))"

definition coldFireLaunchError :: "string list \<Rightarrow> u32 \<Rightarrow> string \<Rightarrow> string option" where
  "coldFireLaunchError args vcpus machine_name =
     (if vcpus < 1 \<or> vcpus > 2 then Some ''ColdFire adapter requires one or two CPUs''
      else if machine_name = [] \<or> (\<exists>c \<in> set machine_name. c \<in> {CHR '','', CHR '' '', CHR 9, CHR 10, CHR ''=''})
        then Some ''ColdFire adapter requires an explicit platform_machine name''
      else
        case launch_scan vcpus machine_name args \<lparr>seen_machine = False, seen_cpu = False, seen_smp = False, seen_accel = False\<rparr> of
          Inl e \<Rightarrow> Some e
        | Inr st \<Rightarrow>
            if \<not> seen_machine st then Some ''ColdFire adapter requires an explicit QEMU machine''
            else if vcpus = 2 \<and> (\<not> seen_smp st \<or> \<not> seen_accel st) then Some ''two CPUs require explicit -smp 2 and single-thread TCG''
            else None)"

definition windowCacheLaunchError :: "string list \<Rightarrow> u32 \<Rightarrow> string \<Rightarrow> string option" where
  "windowCacheLaunchError args vcpus machine = coldFireLaunchError args vcpus machine"

definition multicoreLaunchError :: "u32 \<Rightarrow> string list \<Rightarrow> string \<Rightarrow> string option" where
  "multicoreLaunchError vcpus args machine =
     (if vcpus \<noteq> 2 then Some ''system multicore requires exactly two CPUs'' else coldFireLaunchError args vcpus machine)"

section \<open>Parameters\<close>

text \<open>The parameters are the strings of the deck. How SST converts a string to a number or a truth value is its own code, a
  parameter of the model.\<close>

type_synonym sst_params = "string \<Rightarrow> string option"

record param_conv =
  pc_bool :: "string \<Rightarrow> bool"
  pc_int :: "string \<Rightarrow> 32 word"
  pc_u32 :: "string \<Rightarrow> u32"
  pc_u64 :: "string \<Rightarrow> u64"

definition find_param :: "(string \<Rightarrow> 'a) \<Rightarrow> sst_params \<Rightarrow> string \<Rightarrow> 'a \<Rightarrow> 'a" where
  "find_param conv ps key dflt = (case ps key of None \<Rightarrow> dflt | Some v \<Rightarrow> conv v)"

record handler_preset =
  hp_type :: string
  hp_params :: "(string \<times> string) list"

record quetz_config =
  cfg_verbosity :: "32 word"
  cfg_vcpu_count :: u32
  cfg_max_core_queue :: u32
  cfg_max_pend_trans :: u32
  cfg_max_issue_cyc :: u32
  cfg_cache_line_sz :: u64
  cfg_cpu_clock :: string
  cfg_balar_doorbell_addr :: u64
  cfg_balar_doorbell_size :: u64
  cfg_balar_packet_flush_bytes :: u64
  cfg_async_offload :: bool
  cfg_async_doorbell_addr :: u64
  cfg_async_doorbell_size :: u64
  cfg_async_completion_depth :: u32
  cfg_architecture_adapter :: string
  cfg_platform_machine :: string
  cfg_cache_native_regions :: "native_ram_region list"
  cfg_sst_window_cache :: bool
  cfg_window_big_endian :: bool
  cfg_sst_window_base :: u64
  cfg_sst_window_size :: u64
  cfg_system_mode :: bool
  cfg_system_mode_loader :: string
  cfg_qemu_bin :: string
  cfg_qemu_plugin :: string
  cfg_executable :: string
  cfg_appargcount :: u32
  cfg_app_args :: "string list"
  cfg_qemu_extra_args :: "string list"
  cfg_stdin_file :: string
  cfg_stdout_file :: string
  cfg_stderr_file :: string
  cfg_max_insts :: u64
  cfg_check_addresses :: u32
  cfg_detailed_tracking :: bool
  cfg_isa_str :: string
  cfg_has_fpu :: bool
  cfg_has_vector :: bool
  cfg_vector_vlen :: u32
  cfg_vector_elen :: u32
  cfg_exec_latency :: "u32 list"
  cfg_compute_latency :: "u32 list"
  cfg_region_handlers :: "handler_preset list"
  cfg_extra_env :: "(string \<times> string) list"

text \<open>The tokens \<open>iss >> tok\<close> reads.\<close>

fun word_tokens :: "string \<Rightarrow> string \<Rightarrow> string list" where
  "word_tokens acc [] = (if acc = [] then [] else [rev acc])"
| "word_tokens acc (c # cs) =
     (if is_space c then (if acc = [] then [] else [rev acc]) @ word_tokens [] cs else word_tokens (c # acc) cs)"

text \<open>The SST window of the environment, as base and size.\<close>

definition window_range :: "(string \<Rightarrow> string option) \<Rightarrow> u64 \<times> u64" where
  "window_range env =
     (case (env ''QUETZ_SST_WIN_START'', env ''QUETZ_SST_WIN_END'') of
        (Some ws, Some we) \<Rightarrow>
          let base = strtoull ws; last = strtoull we
          in (base, if last \<ge> base then last - base + 1 else 0)
      | _ \<Rightarrow> (0, 0))"

definition latency_table :: "(insn_class \<times> u32) list \<Rightarrow> u32 list" where
  "latency_table xs = fold (\<lambda>(c, v) t. t[unat (class_code c) := v]) xs (replicate 8 0)"

text \<open>The values read, before any check.\<close>

definition read_params ::
    "param_conv \<Rightarrow> (string \<Rightarrow> string option) \<Rightarrow> sst_params \<Rightarrow> native_ram_region list \<Rightarrow> quetz_config" where
  "read_params pc env ps regions =
     (let u32 = find_param (pc_u32 pc) ps; u64 = find_param (pc_u64 pc) ps; flag = find_param (pc_bool pc) ps;
          str = find_param (\<lambda>v. v) ps; int32 = find_param (pc_int pc) ps;
          depth = u32 ''async_completion_depth'' 1;
          env_count = int32 ''envparamcount'' (- 1)
      in \<lparr>cfg_verbosity = int32 ''verbose'' 0,
          cfg_vcpu_count = u32 ''vcpu_count'' 1,
          cfg_max_core_queue = u32 ''maxcorequeue'' 64,
          cfg_max_pend_trans = u32 ''maxtranscore'' 16,
          cfg_max_issue_cyc = u32 ''maxissuepercycle'' 1,
          cfg_cache_line_sz = u64 ''cachelinesize'' 64,
          cfg_cpu_clock = str ''clock'' ''1GHz'',
          cfg_balar_doorbell_addr = u64 ''balar_doorbell_addr'' 0,
          cfg_balar_doorbell_size = u64 ''balar_doorbell_size'' 8,
          cfg_balar_packet_flush_bytes = u64 ''balar_packet_flush_bytes'' 4096,
          cfg_async_offload = flag ''async_offload'' False,
          cfg_async_doorbell_addr = u64 ''async_doorbell_addr'' 0,
          cfg_async_doorbell_size = u64 ''async_doorbell_size'' 0x40,
          cfg_async_completion_depth = (if depth = 0 then 1 else depth),
          cfg_architecture_adapter = str ''architecture_adapter'' [],
          cfg_platform_machine = str ''platform_machine'' [],
          cfg_cache_native_regions = regions,
          cfg_sst_window_cache = flag ''sst_window_cache'' False,
          cfg_window_big_endian = flag ''window_big_endian'' False,
          cfg_sst_window_base = fst (window_range env),
          cfg_sst_window_size = snd (window_range env),
          cfg_system_mode = flag ''system_mode'' False,
          cfg_system_mode_loader = str ''system_mode_loader'' ''-kernel'',
          cfg_qemu_bin = str ''qemu'' ''qemu-riscv64'',
          cfg_qemu_plugin = str ''qemu_plugin'' [],
          cfg_executable = str ''executable'' [],
          cfg_appargcount = u32 ''appargcount'' 0,
          cfg_app_args = map (\<lambda>i. str (''apparg'' @ dec i) []) [0..<unat (u32 ''appargcount'' 0)],
          cfg_qemu_extra_args = word_tokens [] (str ''qemu_args'' []),
          cfg_stdin_file = str ''appstdin'' [],
          cfg_stdout_file = str ''appstdout'' [],
          cfg_stderr_file = str ''appstderr'' [],
          cfg_max_insts = u64 ''max_insts'' 0,
          cfg_check_addresses = u32 ''checkaddresses'' 0,
          cfg_detailed_tracking = flag ''detailed_instruction_tracking'' False,
          cfg_isa_str = str ''isa'' [],
          cfg_has_fpu = flag ''has_fpu'' False,
          cfg_has_vector = flag ''has_vector'' False,
          cfg_vector_vlen = u32 ''vector_vlen'' 128,
          cfg_vector_elen = u32 ''vector_elen'' 64,
          cfg_exec_latency = latency_table [(INT_MEM, u32 ''exec_latency_int'' 0), (FP_MEM, u32 ''exec_latency_fp'' 0),
            (VEC_MEM, u32 ''exec_latency_vec'' 0)],
          cfg_compute_latency = latency_table [(INT_COMPUTE, u32 ''compute_latency_int'' 0), (FP_COMPUTE, u32 ''compute_latency_fp'' 0),
            (VEC_COMPUTE, u32 ''compute_latency_vec'' 0), (BRANCH, u32 ''compute_latency_branch'' 0),
            (OTHER, u32 ''compute_latency_other'' 0)],
          cfg_region_handlers = [],
          cfg_extra_env = map (\<lambda>i. (str (''envparamname'' @ dec i) [], str (''envparamval'' @ dec i) []))
            [0..<if sint env_count > 0 then unat env_count else 0]\<rparr>)"

text \<open>The checks, in the order of the code.\<close>

definition config_fromParams ::
    "param_conv \<Rightarrow> (string \<Rightarrow> string option) \<Rightarrow> sst_params \<Rightarrow> quetz_config result" where
  "config_fromParams pc env ps =
     (if find_param (pc_bool pc) ps ''async_offload'' False \<and> find_param (pc_u64 pc) ps ''async_doorbell_addr'' 0 = 0
        then Inl (Fatal ''async_offload=1 requires async_doorbell_addr to be set'')
      else
        case parseNativeRegions (find_param (\<lambda>v. v) ps ''cache_native_regions'' []) of
          Inl _ \<Rightarrow> Inl (Fatal ''cache_native_regions'')
        | Inr regions \<Rightarrow>
            let cfg = read_params pc env ps regions; lat = (\<lambda>c. cfg_compute_latency cfg ! unat (class_code c)) in
            if cfg_window_big_endian cfg \<and> cfg_sst_window_size cfg = 0 then Inl (Fatal ''window_big_endian=1 but no SST window is configured'')
            else if cfg_executable cfg = [] then Inl (Fatal ''No executable parameter provided'')
            else if (lat INT_COMPUTE \<noteq> 0 \<or> lat FP_COMPUTE \<noteq> 0 \<or> lat VEC_COMPUTE \<noteq> 0 \<or> lat BRANCH \<noteq> 0) \<and> \<not> cfg_detailed_tracking cfg
              then Inl (Fatal ''compute_latency_int/fp/vec/branch require detailed_instruction_tracking=1'')
            else if cfg_architecture_adapter cfg \<noteq> [] \<and> cfg_architecture_adapter cfg \<noteq> ''coldfire-v4e''
              then Inl (Fatal ''Unsupported architecture_adapter'')
            else if (cfg_sst_window_cache cfg \<or> (cfg_system_mode cfg \<and> cfg_vcpu_count cfg > 1)) \<and> cfg_architecture_adapter cfg \<noteq> ''coldfire-v4e''
              then Inl (Fatal ''Cache/system multicore requires architecture_adapter=coldfire-v4e'')
            else if cfg_cache_native_regions cfg \<noteq> [] \<and> \<not> cfg_sst_window_cache cfg
              then Inl (Fatal ''cache_native_regions requires sst_window_cache=1'')
            else if cfg_architecture_adapter cfg = ''coldfire-v4e'' \<and> \<not> cfg_system_mode cfg
              then Inl (Fatal ''ColdFire adapter requires system mode'')
            else if cfg_architecture_adapter cfg = ''coldfire-v4e'' \<and>
                coldFireLaunchError (cfg_qemu_extra_args cfg) (cfg_vcpu_count cfg) (cfg_platform_machine cfg) \<noteq> None
              then Inl (Fatal ''launch contract'')
            else Inr cfg)"

section \<open>Platform presets\<close>

record platform_profile =
  pp_name :: string
  pp_description :: string
  pp_param_defaults :: "(string \<times> string) list"
  pp_region_handlers :: "handler_preset list"

definition filtered_preset :: "string \<Rightarrow> string \<Rightarrow> handler_preset" where
  "filtered_preset start fin = \<lparr>hp_type = ''quetz.FilteredRegionHandler'', hp_params = [(''start'', start), (''end'', fin)]\<rparr>"

definition uart0_preset :: handler_preset where
  "uart0_preset = \<lparr>hp_type = ''quetz.UartRegionHandler'',
     hp_params = [(''start'', ''0x10000000''), (''end'', ''0x10000FFF''), (''tx_offset'', ''0'')]\<rparr>"

definition quetzPlatformRegistry :: "platform_profile list" where
  "quetzPlatformRegistry =
    [\<lparr>pp_name = ''riscv64_virt'', pp_description = ''qemu-system-riscv64 virt machine with sub_ram filtered'',
      pp_param_defaults = [(''qemu'', ''qemu-system-riscv64''), (''system_mode'', ''1''), (''system_mode_loader'', ''-kernel''),
        (''qemu_args'', ''-machine virt -nographic -bios none''), (''isa'', ''rv64gc'')],
      pp_region_handlers = [filtered_preset ''0x0'' ''0x7FFFFFFF'']\<rparr>,
     \<lparr>pp_name = ''riscv64_virt_uart'', pp_description = ''qemu-system-riscv64 virt with UART capture + sub_ram filter'',
      pp_param_defaults = [(''qemu'', ''qemu-system-riscv64''), (''system_mode'', ''1''), (''system_mode_loader'', ''-kernel''),
        (''qemu_args'', ''-machine virt -nographic -bios none''), (''isa'', ''rv64gc'')],
      pp_region_handlers = [uart0_preset, filtered_preset ''0x0'' ''0x7FFFFFFF'']\<rparr>,
     \<lparr>pp_name = ''arm_m7'', pp_description = ''qemu-system-arm Cortex-M7 (mps2-an500) with peripheral filter'',
      pp_param_defaults = [(''qemu'', ''qemu-system-arm''), (''system_mode'', ''1''), (''system_mode_loader'', ''-kernel''),
        (''qemu_args'', ''-machine mps2-an500 -nographic -semihosting-config enable=on,target=native''), (''isa'', ''aarch32-m7'')],
      pp_region_handlers = [filtered_preset ''0x40000000'' ''0xFFFFFFFF'']\<rparr>,
     \<lparr>pp_name = ''x86_baremetal'', pp_description = ''qemu-system-i386 raw bare-metal (no region handlers)'',
      pp_param_defaults = [(''qemu'', ''qemu-system-i386''), (''system_mode'', ''1''), (''system_mode_loader'', ''-kernel''), (''isa'', ''x86'')],
      pp_region_handlers = []\<rparr>,
     \<lparr>pp_name = ''riscv64_usermode'', pp_description = ''qemu-riscv64 user-mode'',
      pp_param_defaults = [(''qemu'', ''qemu-riscv64''), (''system_mode'', ''0''), (''isa'', ''rv64gc'')], pp_region_handlers = []\<rparr>,
     \<lparr>pp_name = ''aarch64_usermode'', pp_description = ''qemu-aarch64 user-mode'',
      pp_param_defaults = [(''qemu'', ''qemu-aarch64''), (''system_mode'', ''0''), (''isa'', ''aarch64'')], pp_region_handlers = []\<rparr>,
     \<lparr>pp_name = ''x86_64_usermode'', pp_description = ''qemu-x86_64 user-mode'',
      pp_param_defaults = [(''qemu'', ''qemu-x86_64''), (''system_mode'', ''0''), (''isa'', ''x86_64'')], pp_region_handlers = []\<rparr>]"

definition findPlatform :: "string \<Rightarrow> platform_profile option" where
  "findPlatform name = find (\<lambda>p. pp_name p = name) quetzPlatformRegistry"

text \<open>\<open>params.insert(key, value, false)\<close> keeps a value that is already there.\<close>

definition applyProfile :: "platform_profile \<Rightarrow> sst_params \<Rightarrow> sst_params" where
  "applyProfile profile ps =
     fold (\<lambda>(k, v) m. if m k = None then m(k \<mapsto> v) else m) (pp_param_defaults profile) ps"

lemma applyProfile_keeps:
  "applyProfile profile ps k = (case ps k of Some v \<Rightarrow> Some v | None \<Rightarrow> map_of (pp_param_defaults profile) k)"
proof -
  have "fold (\<lambda>(k, v) m. if m k = None then m(k \<mapsto> v) else m) xs ps k =
      (case ps k of Some v \<Rightarrow> Some v | None \<Rightarrow> map_of xs k)" for xs and ps :: sst_params
    by (induction xs arbitrary: ps) (auto split: option.splits if_splits)
  then show ?thesis
    by (simp add: applyProfile_def)
qed

text \<open>The bounds of a preset's region; \<open>std::stoull\<close> throws on anything that is not a number.\<close>

fun preset_bounds :: "(string \<times> string) list \<Rightarrow> u64 \<times> u64 \<Rightarrow> (u64 \<times> u64) result" where
  "preset_bounds [] se = Inr se"
| "preset_bounds ((k, v) # kvs) (st, en) =
     (if k = ''start'' then res_bind (stoull v) (\<lambda>(n, _). preset_bounds kvs (n, en))
      else if k = ''end'' then res_bind (stoull v) (\<lambda>(n, _). preset_bounds kvs (st, n))
      else preset_bounds kvs (st, en))"

fun validateExtended :: "handler_preset list \<Rightarrow> unit result" where
  "validateExtended [] = Inr ()"
| "validateExtended (p # ps) =
     res_bind (preset_bounds (hp_params p) (0, 0)) (\<lambda>(st, en).
       if st > en then Inl (Fatal ''region_handlers: start > end'') else validateExtended ps)"

definition manager_fromParams ::
    "param_conv \<Rightarrow> (string \<Rightarrow> string option) \<Rightarrow> sst_params \<Rightarrow> quetz_config result" where
  "manager_fromParams pc env ps =
     (let platform = find_param (\<lambda>v. v) ps ''platform'' []; profile = findPlatform platform in
      if platform \<noteq> [] \<and> profile = None then Inl (Fatal ''Unknown platform preset'')
      else
        let ps1 = (if platform = [] then ps else applyProfile (the profile) ps) in
        res_bind (config_fromParams pc env ps1) (\<lambda>cfg.
          let cfg1 = (if platform \<noteq> [] \<and> cfg_region_handlers cfg = [] then cfg\<lparr>cfg_region_handlers := pp_region_handlers (the profile)\<rparr> else cfg)
          in res_bind (validateExtended (cfg_region_handlers cfg1)) (\<lambda>_. Inr cfg1)))"

section \<open>Region lists\<close>

text \<open>A list that can be registered: at most two regions, each fit for the guest side, pairwise disjoint.\<close>

definition regions_apart :: "native_ram_region \<Rightarrow> native_ram_region \<Rightarrow> bool" where
  "regions_apart a b \<longleftrightarrow> guest_range a \<inter> guest_range b = {}"

definition regions_ok :: "native_ram_region list \<Rightarrow> bool" where
  "regions_ok rs \<longleftrightarrow> length rs \<le> 2 \<and> (\<forall>i < length rs. guest_region_ok (rs ! i) \<and> nr_offset (rs ! i) = 0 \<and> nr_reserved (rs ! i) = 0 \<and>
     (\<forall>j < i. regions_apart (rs ! i) (rs ! j)))"

lemma regions_ok_snoc:
  "regions_ok (rs @ [r]) \<longleftrightarrow> regions_ok rs \<and> length rs < 2 \<and> guest_region_ok r \<and> nr_offset r = 0 \<and> nr_reserved r = 0 \<and>
     (\<forall>q \<in> set rs. regions_apart r q)"
  by (auto simp: regions_ok_def nth_append all_set_conv_all_nth less_Suc_eq)

definition new_region :: "u64 \<Rightarrow> u64 \<Rightarrow> native_ram_region" where
  "new_region base sz = \<lparr>nr_base = ucast base, nr_size = ucast sz, nr_offset = 0, nr_reserved = 0\<rparr>"

lemma region_checks:
  fixes base sz :: u64
  shows "sz = 0 \<or> sz > ucast QUETZ_NATIVE_REGION_BYTES \<or> sz AND 4095 \<noteq> 0 \<or> base AND 4095 \<noteq> 0 \<or> base \<ge> push_bit 32 1 \<or> sz > push_bit 32 1 - base \<longleftrightarrow>
    \<not> (0 < unat sz \<and> unat sz \<le> 65536 \<and> unat base mod 4096 = 0 \<and> unat sz mod 4096 = 0 \<and> unat base + unat sz \<le> 2 ^ 32)"
proof -
  have "unat (push_bit 32 1 - base) = 2 ^ 32 - unat base" if "base < push_bit 32 1"
    using that by (subst unat_diff_ge_64) (auto simp: push_bit_of_1)
  then show ?thesis
    by (cases "base < push_bit 32 1")
      (auto simp: word_less_nat_alt word_le_nat_alt and_4095_zero_iff push_bit_of_1 unat_eq_0 ipc_constants not_le not_less
        simp flip: unat_gt_0)
qed

lemma new_region_fields:
  assumes "0 < unat sz" "unat sz \<le> 65536" "unat base + unat sz \<le> 2 ^ 32"
  shows "unat (nr_base (new_region base sz)) = unat base" "unat (nr_size (new_region base sz)) = unat sz"
  using assms by (simp_all add: new_region_def unsigned_ucast_eq take_bit_nat_eq_self)

lemma region_overlap:
  assumes "0 < unat sz" "unat sz \<le> 65536" "unat base + unat sz \<le> 2 ^ 32" "guest_region_ok q"
  shows "base < ucast (nr_base q) + ucast (nr_size q) \<and> ucast (nr_base q) < base + sz \<longleftrightarrow> \<not> regions_apart (new_region base sz) q"
proof -
  have "unat (base + sz) = unat base + unat sz"
    using assms(3) by (intro unat_add_lt_64) simp
  moreover have "unat (ucast (nr_base q) + ucast (nr_size q) :: u64) = unat (nr_base q) + unat (nr_size q)"
    using assms(4) by (subst unat_add_lt_64) (auto simp: guest_region_ok_def)
  moreover have "0 < unat (nr_size q)"
    using assms(4) by (simp add: guest_region_ok_def)
  ultimately show ?thesis
    unfolding regions_apart_def word_less_nat_alt unat_ucast_32_64 new_region_fields [OF assms(1-3)]
    using ranges_meet_iff [OF assms(1), of "unat (nr_size q)" "unat base" "unat (nr_base q)"] by simp
qed

lemma guest_ok_new:
  assumes "0 < unat sz" "unat sz \<le> 65536" "unat base mod 4096 = 0" "unat sz mod 4096 = 0" "unat base + unat sz \<le> 2 ^ 32"
  shows "guest_region_ok (new_region base sz)"
  unfolding guest_region_ok_def new_region_fields [OF assms(1,2,5)] using assms by simp

lemma split_at:
  assumes "c \<notin> set b"
  shows "takeWhile (\<lambda>x. x \<noteq> c) (b @ c # z) = b" "dropWhile (\<lambda>x. x \<noteq> c) (b @ c # z) = c # z"
    "takeWhile (\<lambda>x. x \<noteq> c) b = b" "dropWhile (\<lambda>x. x \<noteq> c) b = []"
  using assms by (induction b) auto

text \<open>Parsing one item decides exactly whether the extended list can be registered.\<close>

lemma parse_region_iff:
  assumes ok: "regions_ok rs" and b: "region_number b = Inr base" and z: "region_number z = Inr sz"
    and chars: "b \<noteq> []" "z \<noteq> []" "CHR '':'' \<notin> set b" "CHR '':'' \<notin> set z"
  shows "parse_region (b @ CHR '':'' # z) rs = Inr rs' \<longleftrightarrow>
    rs' = rs @ [new_region base sz] \<and> regions_ok rs' \<and> unat base + unat sz \<le> 2 ^ 32 \<and> unat sz \<le> 65536"
proof -
  have split: "takeWhile (\<lambda>c. c \<noteq> CHR '':'') (b @ CHR '':'' # z) = b" "dropWhile (\<lambda>c. c \<noteq> CHR '':'') (b @ CHR '':'' # z) = CHR '':'' # z"
    using split_at [OF chars(3)] by auto
  let ?good = "0 < unat sz \<and> unat sz \<le> 65536 \<and> unat base mod 4096 = 0 \<and> unat sz mod 4096 = 0 \<and> unat base + unat sz \<le> 2 ^ 32"
  have q: "guest_region_ok q" if "q \<in> set rs" for q
    using ok that by (auto simp: regions_ok_def in_set_conv_nth)
  have len: "unat QUETZ_MAX_NATIVE_REGIONS = 2" "length rs \<le> 2"
    using ok by (simp_all add: ipc_constants regions_ok_def)
  have eq: "parse_region (b @ CHR '':'' # z) rs =
    (if \<not> ?good then Inl (Invalid_argument ''native regions require 4-KiB alignment, at most 64 KiB each and 32-bit guest addresses'')
     else if \<exists>r \<in> set rs. base < ucast (nr_base r) + ucast (nr_size r) \<and> ucast (nr_base r) < base + sz
       then Inl (Invalid_argument ''native regions overlap'')
     else if length rs = 2 then Inl (Invalid_argument ''at most two native regions are supported'')
     else Inr (rs @ [new_region base sz]))"
    unfolding parse_region_def split Let_def region_checks len(1) list.sel using chars
    by (simp only: b z res_bind.simps list.simps simp_thms if_False new_region_def)
  show ?thesis
  proof (cases ?good)
    case True
    then have "regions_ok (rs @ [new_region base sz]) \<longleftrightarrow>
        length rs < 2 \<and> \<not> (\<exists>r \<in> set rs. base < ucast (nr_base r) + ucast (nr_size r) \<and> ucast (nr_base r) < base + sz)"
      using ok q region_overlap [of sz base] guest_ok_new [of sz base] by (auto simp: regions_ok_snoc new_region_def [of base sz])
    then show ?thesis
      using True len(2) eq by auto
  next
    case False
    have "\<not> (regions_ok (rs @ [new_region base sz]) \<and> unat base + unat sz \<le> 2 ^ 32 \<and> unat sz \<le> 65536)"
    proof
      assume r: "regions_ok (rs @ [new_region base sz]) \<and> unat base + unat sz \<le> 2 ^ 32 \<and> unat sz \<le> 65536"
      then have g: "guest_region_ok (new_region base sz)"
        by (simp add: regions_ok_snoc)
      have "unat (nr_size (new_region base sz)) = unat sz"
        using r by (simp add: new_region_def unsigned_ucast_eq take_bit_nat_eq_self)
      then have "0 < unat sz"
        using g by (simp add: guest_region_ok_def)
      then show False
        using False r g new_region_fields [of sz base] by (simp add: guest_region_ok_def)
    qed
    then show ?thesis
      using False eq by auto
  qed
qed

lemma parse_region_split:
  assumes "parse_region item rs = Inr rs'"
  obtains b z base sz where "item = b @ CHR '':'' # z" "region_number b = Inr base" "region_number z = Inr sz"
    "b \<noteq> []" "z \<noteq> []" "CHR '':'' \<notin> set b" "CHR '':'' \<notin> set z"
proof -
  let ?b = "takeWhile (\<lambda>c. c \<noteq> CHR '':'') item" and ?d = "dropWhile (\<lambda>c. c \<noteq> CHR '':'') item"
  have "?d \<noteq> []" "?b \<noteq> []" "tl ?d \<noteq> []" "CHR '':'' \<notin> set (tl ?d)"
    using assms by (auto simp: parse_region_def Let_def split: if_splits)
  moreover obtain base sz where "region_number ?b = Inr base" "region_number (tl ?d) = Inr sz"
    using assms by (auto simp: parse_region_def Let_def res_bind_Inr_iff split: if_splits)
  moreover have "CHR '':'' \<notin> set ?b"
    using set_takeWhileD by fastforce
  moreover have "item = ?b @ CHR '':'' # tl ?d"
    using \<open>?d \<noteq> []\<close> hd_dropWhile [OF \<open>?d \<noteq> []\<close>] takeWhile_dropWhile_id [of "\<lambda>c. c \<noteq> CHR '':''" item]
    by (metis list.collapse)
  ultimately show thesis
    using that by blast
qed

lemma parse_regions_sound: "parse_regions s rs = Inr rs' \<Longrightarrow> regions_ok rs \<Longrightarrow> regions_ok rs'"
proof (induction s rs arbitrary: rs' rule: parse_regions.induct)
  case (1 s rs)
  let ?item = "takeWhile (\<lambda>c. c \<noteq> CHR '';'') s" and ?rest = "dropWhile (\<lambda>c. c \<noteq> CHR '';'') s"
  show ?case
  proof (cases "s = []")
    case True
    then show ?thesis
      using "1.prems" by (simp add: parse_regions.simps)
  next
    case False
    then obtain rs1 where rs1: "parse_region ?item rs = Inr rs1"
        and rest: "(if ?rest = [] then Inr rs1 else if tl ?rest = [] then Inl (Invalid_argument ''empty native region'')
          else parse_regions (tl ?rest) rs1) = Inr rs'"
      using "1.prems"(1) by (subst (asm) parse_regions.simps) (auto simp: res_bind_Inr_iff Let_def)
    have "regions_ok rs1"
      using parse_region_split [OF rs1] parse_region_iff [OF "1.prems"(2)] rs1 by metis
    then show ?thesis
      using "1.IH" [OF False refl refl] rest by (auto split: if_splits)
  qed
qed

fun regions_text :: "native_ram_region list \<Rightarrow> string" where
  "regions_text [] = []"
| "regions_text (r # rs) =
     (''0x'' @ hex (unat (nr_base r))) @ CHR '':'' # (''0x'' @ hex (unat (nr_size r))) @ (if rs = [] then [] else CHR '';'' # regions_text rs)"

definition hex_alphabet :: "char set" where
  "hex_alphabet = set ''0123456789abcdefx''"

lemma hex_alphabet_facts:
  "CHR ''0'' \<in> hex_alphabet" "CHR ''x'' \<in> hex_alphabet" "CHR '':'' \<notin> hex_alphabet" "CHR '';'' \<notin> hex_alphabet" "CHR '','' \<notin> hex_alphabet"
  "hex_alphabet \<subseteq> set ''0123456789abcdefABCDEFxX''"
  by (simp_all add: hex_alphabet_def)

lemma hex_chars: "set (hex n) \<subseteq> hex_alphabet"
proof (induction n rule: hex.induct)
  case (1 n)
  have "list_all (\<lambda>d. hex_digit d \<in> set ''0123456789abcdefx'') [0..<16]"
    by code_simp
  then have d: "hex_digit d \<in> hex_alphabet" if "d < 16" for d
    using that by (simp only: list_all_iff set_upt hex_alphabet_def [symmetric]) simp
  show ?case
  proof (cases "n < 16")
    case True
    then show ?thesis
      using d by (simp add: hex.simps [of n])
  next
    case False
    then show ?thesis
      using 1 d [of "n mod 16"] by (simp add: hex.simps [of n])
  qed
qed

lemma hex_number_chars: "set (''0x'' @ hex n) \<subseteq> hex_alphabet"
  using hex_chars [of n] hex_alphabet_facts by simp

lemma region_number_hex:
  assumes "n < 2 ^ 64"
  shows "region_number (''0x'' @ hex n) = Inr (of_nat n)"
proof -
  have "\<not> (''0x'' @ hex n = [] \<or> (\<exists>c \<in> set (''0x'' @ hex n). c \<notin> set ''0123456789abcdefABCDEFxX''))"
    using hex_number_chars [of n] hex_alphabet_facts(6) by blast
  moreover have "stoull (''0x'' @ hex n) = Inr (of_nat n, [])"
    unfolding stoull_def strtoull_hex [OF assms] by simp
  ultimately show ?thesis
    unfolding region_number_def if_not_P by simp
qed

lemma regions_ok_prefix: "regions_ok (a @ b) \<Longrightarrow> regions_ok a"
proof (induction b rule: rev_induct)
  case (snoc x b)
  then show ?case
    using regions_ok_snoc [of "a @ b" x] by simp
qed simp

lemma parse_regions_text: "regions_ok (acc @ rs) \<Longrightarrow> parse_regions (regions_text rs) acc = Inr (acc @ rs)"
proof (induction rs arbitrary: acc)
  case Nil
  then show ?case
    by (simp add: parse_regions.simps)
next
  case (Cons r rs)
  let ?b = "''0x'' @ hex (unat (nr_base r))" and ?z = "''0x'' @ hex (unat (nr_size r))"
  have ok: "regions_ok acc" "regions_ok (acc @ [r])"
    using Cons.prems regions_ok_prefix [of acc "r # rs"] regions_ok_prefix [of "acc @ [r]" rs] by simp_all
  then have g: "guest_region_ok r" "nr_offset r = 0" "nr_reserved r = 0"
    by (simp_all add: regions_ok_snoc)
  have num: "region_number ?b = Inr (ucast (nr_base r))" "region_number ?z = Inr (ucast (nr_size r))"
    using region_number_hex [of "unat (nr_base r)"] region_number_hex [of "unat (nr_size r)"] unat_less_32 [of "nr_base r"]
      unat_less_32 [of "nr_size r"] by simp_all
  have new: "new_region (ucast (nr_base r)) (ucast (nr_size r)) = r"
  proof -
    have "(ucast (ucast x :: u64) :: u32) = x" for x :: u32
      by (rule bit_word_eqI) (simp add: bit_simps)
    then show ?thesis
      using g(2,3) by (cases r) (simp add: new_region_def)
  qed
  have colon: "CHR '':'' \<notin> set ?b" "CHR '':'' \<notin> set ?z"
    using hex_number_chars hex_alphabet_facts(3) by blast+
  have one: "parse_region (?b @ CHR '':'' # ?z) acc = Inr (acc @ [r])"
    using parse_region_iff [OF ok(1) num _ _ colon, of "acc @ [r]"] ok(2) g(1) new by (simp add: guest_region_ok_def)
  have semi: "CHR '';'' \<notin> set (?b @ CHR '':'' # ?z)"
    using hex_number_chars [of "unat (nr_base r)"] hex_number_chars [of "unat (nr_size r)"] hex_alphabet_facts(4) by fastforce
  obtain t where t: "t = ?b @ CHR '':'' # ?z" "t \<noteq> []"
    by simp
  have split: "regions_text (r # rs) = (if rs = [] then t else t @ CHR '';'' # regions_text rs)"
    by (simp add: t)
  note one = one [folded t(1)] and semi = semi [folded t(1)]
  show ?case
  proof (cases "rs = []")
    case True
    then show ?thesis
      unfolding split using one t(2) by (subst parse_regions.simps) (simp add: Let_def split_at(3,4) [OF semi])
  next
    case False
    then have "regions_text rs \<noteq> []"
      by (cases rs) simp_all
    then show ?thesis
      unfolding split using False one t(2) split_at(1,2) [OF semi, of "regions_text rs"] Cons.IH [of "acc @ [r]"] Cons.prems
      by (subst parse_regions.simps) (simp add: Let_def)
  qed
qed

section \<open>The launch contract as a specification\<close>

text \<open>The model options of a command line with their values, each given inline or as the next argument.\<close>

fun model_options :: "string list \<Rightarrow> (string \<times> string) list" where
  "model_options [] = []"
| "model_options (arg # args) =
     (if \<not> model_key (option_key arg) then model_options args
      else case option_inline arg of
             Some v \<Rightarrow> (option_key arg, v) # model_options args
           | None \<Rightarrow> (case args of [] \<Rightarrow> [] | v # rest \<Rightarrow> (option_key arg, v) # model_options rest))"

definition values_of :: "string list \<Rightarrow> (string \<times> string) list \<Rightarrow> string list" where
  "values_of keys opts = map snd (filter (\<lambda>(k, _). k \<in> set keys) opts)"

definition machine_value_ok :: "string \<Rightarrow> string \<Rightarrow> bool" where
  "machine_value_ok machine_name v \<longleftrightarrow>
     takeWhile (\<lambda>c. c \<noteq> CHR '','') v = machine_name \<and> \<not> find_sub '',type='' v \<and> \<not> find_sub '',accel='' v"

definition accel_value_ok :: "u32 \<Rightarrow> string \<Rightarrow> bool" where
  "accel_value_ok vcpus v \<longleftrightarrow> v = ''tcg,thread=single'' \<or> vcpus = 1 \<and> v = ''tcg''"

text \<open>At most one value, \<open>ok\<close> if there is one; the flag tells whether one was seen.\<close>

definition seen_once :: "bool \<Rightarrow> (string \<Rightarrow> bool) \<Rightarrow> string list \<Rightarrow> bool \<Rightarrow> bool" where
  "seen_once before ok vs after \<longleftrightarrow> (if vs = [] then after = before else \<not> before \<and> after \<and> (\<exists>v. vs = [v] \<and> ok v))"

definition scan_ok :: "u32 \<Rightarrow> string \<Rightarrow> (string \<times> string) list \<Rightarrow> launch_seen \<Rightarrow> launch_seen \<Rightarrow> bool" where
  "scan_ok vcpus machine_name opts st st' \<longleftrightarrow>
     seen_once (seen_machine st) (machine_value_ok machine_name) (values_of [''-machine'', ''-M''] opts) (seen_machine st') \<and>
     seen_once (seen_cpu st) (\<lambda>v. v = ''cfv4e'') (values_of [''-cpu''] opts) (seen_cpu st') \<and>
     seen_once (seen_smp st) (\<lambda>v. v = dec (unat vcpus)) (values_of [''-smp''] opts) (seen_smp st') \<and>
     seen_once (seen_accel st) (accel_value_ok vcpus) (values_of [''-accel''] opts) (seen_accel st')"

lemma scan_ok_Nil: "scan_ok vcpus m [] st st"
  by (simp add: scan_ok_def values_of_def seen_once_def)

lemma values_of_Cons: "values_of keys ((k, v) # opts) = (if k \<in> set keys then v # values_of keys opts else values_of keys opts)"
  by (simp add: values_of_def)

lemma seen_once_Cons: "\<not> before \<Longrightarrow> ok v \<Longrightarrow> seen_once True ok vs after \<Longrightarrow> seen_once before ok (v # vs) after"
  by (auto simp: seen_once_def split: if_splits)

lemma scan_ok_Cons:
  assumes opt: "launch_option vcpus m key v st = Inr st1" and key: "model_key key" and rest: "scan_ok vcpus m opts st1 st2"
  shows "scan_ok vcpus m ((key, v) # opts) st st2"
proof -
  from key consider "key = ''-machine'' \<or> key = ''-M''" | "key = ''-cpu''" | "key = ''-smp''" | "key = ''-accel''"
    by (auto simp: model_key_def)
  then show ?thesis
  proof cases
    case 1
    then have "\<not> seen_machine st" "machine_value_ok m v" "st1 = st\<lparr>seen_machine := True\<rparr>"
      using opt unfolding launch_option_def if_P [OF 1] by (auto simp: machine_value_ok_def split: if_splits)
    then have "scan_ok vcpus m ((k, v) # opts) st st2" if "k = ''-machine'' \<or> k = ''-M''" for k
      using that rest by (elim disjE) (simp_all add: scan_ok_def values_of_Cons seen_once_Cons)
    then show ?thesis
      using 1 by blast
  next
    case 2
    then have "\<not> seen_cpu st" "v = ''cfv4e''" "st1 = st\<lparr>seen_cpu := True\<rparr>"
      using opt by (simp_all add: launch_option_def split: if_splits)
    then show ?thesis
      using 2 rest by (simp add: scan_ok_def values_of_Cons seen_once_Cons)
  next
    case 3
    then have "\<not> seen_smp st" "v = dec (unat vcpus)" "st1 = st\<lparr>seen_smp := True\<rparr>"
      using opt by (simp_all add: launch_option_def split: if_splits)
    then show ?thesis
      using 3 rest by (simp add: scan_ok_def values_of_Cons seen_once_Cons)
  next
    case 4
    then have "\<not> seen_accel st" "accel_value_ok vcpus v" "st1 = st\<lparr>seen_accel := True\<rparr>"
      using opt by (auto simp: launch_option_def accel_value_ok_def split: if_splits)
    then show ?thesis
      using 4 rest by (simp add: scan_ok_def values_of_Cons seen_once_Cons)
  qed
qed

lemma launch_scan_ok: "launch_scan vcpus m args st = Inr st' \<Longrightarrow> scan_ok vcpus m (model_options args) st st'"
proof (induction "length args" arbitrary: args st rule: less_induct)
  case less
  show ?case
  proof (cases args)
    case Nil
    then show ?thesis
      using less.prems by (simp add: scan_ok_Nil)
  next
    case (Cons arg rest)
    have step: "scan_ok vcpus m ((option_key arg, v) # model_options tail) st st'"
      if key: "model_key (option_key arg)" and len: "length tail < length args"
        and res: "(case launch_option vcpus m (option_key arg) v st of Inl e \<Rightarrow> Inl e | Inr st1 \<Rightarrow> launch_scan vcpus m tail st1) = Inr st'" for v tail
    proof -
      obtain st1 where "launch_option vcpus m (option_key arg) v st = Inr st1" "launch_scan vcpus m tail st1 = Inr st'"
        using res by (auto split: sum.splits)
      then show ?thesis
        using scan_ok_Cons [OF _ key] less.hyps [OF len] by blast
    qed
    show ?thesis
    proof (cases "model_key (option_key arg)")
      case False
      then show ?thesis
        using less.prems less.hyps [of rest st] Cons by (simp add: Let_def split: if_splits)
    next
      case True
      then have scan: "(case option_inline arg of
          Some v \<Rightarrow> (case launch_option vcpus m (option_key arg) v st of Inl e \<Rightarrow> Inl e | Inr st1 \<Rightarrow> launch_scan vcpus m rest st1)
        | None \<Rightarrow> (case rest of [] \<Rightarrow> Inl ''missing QEMU model option value'' | v # tail \<Rightarrow>
            (case launch_option vcpus m (option_key arg) v st of Inl e \<Rightarrow> Inl e | Inr st1 \<Rightarrow> launch_scan vcpus m tail st1))) = Inr st'"
        using less.prems Cons by (simp add: Let_def split: if_splits)
      show ?thesis
      proof (cases "option_inline arg")
        case None
        then obtain v tail where "rest = v # tail"
          using scan by (cases rest) auto
        then show ?thesis
          using None scan True Cons step [OF True, of tail v] by simp
      next
        case (Some v)
        then show ?thesis
          using scan True Cons step [OF True, of rest v] by simp
      qed
    qed
  qed
qed

lemma configure_accepts:
  assumes "unat base + 341080 \<le> 2 ^ 64" "length (native_regions sh) = 2" "regions_ok rs"
  shows "fst (quetz_configure_native_regions base sh (Some rs) (of_nat (length rs)))"
proof -
  let ?n = "of_nat (length rs) :: u32"
  have "length rs \<le> 2"
    using assms(3) by (simp add: regions_ok_def)
  then have n: "unat ?n = length rs" "?n \<le> 2"
    by (auto simp: word_le_nat_alt unsigned_of_nat take_bit_nat_eq_self)
  have "quetz_native_regions_valid base (placed_table base sh rs ?n)"
    using placed_table_valid [OF assms(1) n(2), of sh rs] assms(3) n(1)
    by (simp add: regions_ok_def regions_apart_def)
  then show ?thesis
    using n by (simp add: quetz_configure_native_regions_def placed_table_def ipc_constants Let_def not_less [symmetric])
qed

section \<open>Properties\<close>

text \<open>Every region list that the configuration accepts can be registered: the parsed regions are at most two, page aligned, inside
  the 32-bit address space and disjoint, and configuring a shared segment with them succeeds wherever the segment is mapped.\<close>

theorem parsed_regions_registrable:
  assumes "parseNativeRegions s = Inr rs" "unat base + 341080 \<le> 2 ^ 64" "length (native_regions sh) = 2"
  shows "regions_ok rs \<and> fst (quetz_configure_native_regions base sh (Some rs) (of_nat (length rs)))"
proof -
  have "regions_ok []"
    by (simp add: regions_ok_def)
  then have ok: "regions_ok rs"
    using parse_regions_sound assms(1) unfolding parseNativeRegions_def by blast
  then show ?thesis
    using configure_accepts [OF assms(2,3)] by blast
qed

definition ex_regions_text :: string where
  "ex_regions_text = ''0x20000000:0x10000;0x30000000:4096''"

theorem parsed_regions_registrable_witness:
  "\<exists>rs. parseNativeRegions ex_regions_text = Inr rs \<and> length rs = 2 \<and> fst (quetz_configure_native_regions 0 zero_shared (Some rs) 2)"
proof -
  have "case parseNativeRegions ex_regions_text of Inl _ \<Rightarrow> False | Inr rs \<Rightarrow> length rs = 2"
    by code_simp
  then obtain rs where rs: "parseNativeRegions ex_regions_text = Inr rs" "length rs = 2"
    by (auto split: sum.splits)
  then show ?thesis
    using parsed_regions_registrable [OF rs(1), of 0 zero_shared] by (simp add: zero_shared_fields)
qed

text \<open>C37. Printing and parsing a region list are inverse: a list that can be registered, written as hexadecimal \<open>base:size\<close> pairs
  separated by semicolons, is read back unchanged.\<close>

theorem regions_roundtrip:
  assumes "regions_ok rs"
  shows "parseNativeRegions (regions_text rs) = Inr rs"
  using parse_regions_text [of "[]" rs] assms by (simp add: parseNativeRegions_def)

theorem regions_roundtrip_witness:
  "parseNativeRegions (regions_text [new_region 0x20000000 0x10000, new_region 0x30000000 0x1000]) =
     Inr [new_region 0x20000000 0x10000, new_region 0x30000000 0x1000]"
proof (rule regions_roundtrip)
  show "regions_ok [new_region 0x20000000 0x10000, new_region 0x30000000 0x1000]"
    by (auto simp: regions_ok_def new_region_def guest_region_ok_def regions_apart_def less_Suc_eq)
qed



end
