(* ===== verification/Quetz_Launch.thy ===== *)
theory Quetz_Launch
  imports Quetz_Config Quetz_Plugin Quetz_Linux_User
begin

text \<open>
  Launching and stopping the QEMU child: the command line (\<open>QemuLauncher::spawn\<close>), inspecting, terminating and killing the
  child (\<open>src/quetz_launcher.cc\<close>) and waiting for its plugin to attach (\<open>src/quetz_qemu_frontend.cc\<close>). What the operating
  system answers is a parameter: \<open>os\<close> gives the answer of \<open>waitpid\<close> after any history of the launcher's own system calls. A
  fatal error is a result beside the state it leaves, since the emergency shutdown still runs on that state.
\<close>

section \<open>The command line\<close>

definition getenv_set :: "(string \<Rightarrow> string option) \<Rightarrow> string \<Rightarrow> bool" where
  "getenv_set env k = (case env k of Some (c # cs) \<Rightarrow> True | _ \<Rightarrow> False)"

text \<open>The plugin of the configuration, or the installed one when it can be read.\<close>

definition resolve_plugin :: "string \<Rightarrow> bool \<Rightarrow> quetz_config \<Rightarrow> string result" where
  "resolve_plugin install_dir readable cfg =
     (if cfg_qemu_plugin cfg \<noteq> [] then Inr (cfg_qemu_plugin cfg)
      else if readable then Inr (install_dir @ ''/libqemu_sst_plugin.so'')
      else Inl (Fatal ''qemu_plugin path not specified and could not find libqemu_sst_plugin.so''))"

text \<open>The MMIO aperture of the environment, base and size, when payload delivery is on.\<close>

definition mmio_aperture :: "(string \<Rightarrow> string option) \<Rightarrow> (u64 \<times> u64) option" where
  "mmio_aperture env =
     (case (env ''QUETZ_MMIO_PAYLOAD'', env ''QUETZ_MMIO_START'', env ''QUETZ_MMIO_END'') of
        (Some (CHR ''1'' # _), Some s, Some e) \<Rightarrow>
          let base = strtoull s; fin = strtoull e in Some (base, if fin \<ge> base then fin - base + 1 else 0)
      | _ \<Rightarrow> None)"

definition hex_arg :: "string \<Rightarrow> u64 \<Rightarrow> string" where
  "hex_arg key n = key @ ''=0x'' @ hex (unat n)"

text \<open>\<open>snprintf\<close> into a buffer of \<open>n\<close> bytes keeps \<open>n - 1\<close> characters.\<close>

definition snprintf_cut :: "nat \<Rightarrow> string \<Rightarrow> string" where
  "snprintf_cut n s = take (n - 1) s"

definition plugin_argument :: "(string \<Rightarrow> string option) \<Rightarrow> quetz_config \<Rightarrow> string \<Rightarrow> bool \<Rightarrow> string \<Rightarrow> string" where
  "plugin_argument env cfg shmname detailed plugin =
     plugin @ '',shmname='' @ shmname @
     (if detailed then '',detailed=1'' else []) @
     (if cfg_sst_window_cache cfg then '',cache_ops=1'' else []) @
     (case mmio_aperture env of
        Some (b, s) \<Rightarrow> snprintf_cut 128 (hex_arg '',mmio_base'' b @ hex_arg '',mmio_size'' s)
      | None \<Rightarrow> []) @
     (if cfg_sst_window_size cfg \<noteq> 0
      then snprintf_cut 128 (hex_arg '',win_base'' (cfg_sst_window_base cfg) @ hex_arg '',win_size'' (cfg_sst_window_size cfg))
      else [])"

definition has_prefix :: "string \<Rightarrow> string \<Rightarrow> bool" where
  "has_prefix pre s \<longleftrightarrow> take (length pre) s = pre"

definition explicit_cpu :: "string list \<Rightarrow> bool" where
  "explicit_cpu args = (\<exists>a \<in> set args. a = ''-cpu'' \<or> a = ''--cpu'' \<or> has_prefix ''-cpu='' a \<or> has_prefix ''--cpu='' a)"

definition cpu_arguments :: "quetz_config \<Rightarrow> string list" where
  "cpu_arguments cfg =
     (if cfg_architecture_adapter cfg = ''coldfire-v4e'' \<and> \<not> explicit_cpu (cfg_qemu_extra_args cfg) then [''-cpu'', ''cfv4e''] else [])"

definition bridge_text :: "string \<Rightarrow> u64 \<Rightarrow> u64 \<Rightarrow> string" where
  "bridge_text shmname b s =
     snprintf_cut 256 (''sst-mmio-bridge,shmname='' @ shmname @ hex_arg '',base'' b @ hex_arg '',size'' s @ '',vcpu_id=0'')"

definition irq_properties :: "(string \<Rightarrow> string option) \<Rightarrow> string" where
  "irq_properties env =
     (case env ''QUETZ_IRQ_LINES'' of
        Some ls \<Rightarrow>
          if strtoull ls > 0 then
            '',irq-count='' @ ls @
            (if getenv_set env ''QUETZ_IRQ_POLL_NS'' then '',irq-poll-ns='' @ the (env ''QUETZ_IRQ_POLL_NS'') else []) @
            (if getenv_set env ''QUETZ_IRQ_INTC_TYPE'' then '',intc-type='' @ the (env ''QUETZ_IRQ_INTC_TYPE'') else [])
          else []
      | None \<Rightarrow> [])"

definition per_vcpu :: "quetz_config \<Rightarrow> string" where
  "per_vcpu cfg = (if cfg_vcpu_count cfg > 1 then '',per-vcpu=on'' else [])"

definition range_text :: "string \<Rightarrow> u64 \<Rightarrow> u64 \<Rightarrow> string" where
  "range_text shmname b s = snprintf_cut 256 (''shmname='' @ shmname @ hex_arg '',base'' b @ hex_arg '',size'' s)"

text \<open>The synchronous aperture: a bridge device in system mode, a reserved range in user mode.\<close>

definition mmio_arguments :: "(string \<Rightarrow> string option) \<Rightarrow> quetz_config \<Rightarrow> string \<Rightarrow> string list" where
  "mmio_arguments env cfg shmname =
     (case mmio_aperture env of
        Some (b, s) \<Rightarrow>
          if s = 0 then []
          else if cfg_system_mode cfg then [''-device'', bridge_text shmname b s @ per_vcpu cfg @ irq_properties env]
          else [''-sst-mmio-range'', range_text shmname b s]
      | None \<Rightarrow> [])"

definition window_arguments :: "quetz_config \<Rightarrow> string \<Rightarrow> string list result" where
  "window_arguments cfg shmname =
     (if cfg_sst_window_size cfg = 0 then Inr []
      else if \<not> cfg_system_mode cfg then Inl (Fatal ''QUETZ_SST_WIN_START/END is only supported in system mode'')
      else Inr [''-device'', bridge_text shmname (cfg_sst_window_base cfg) (cfg_sst_window_size cfg) @ per_vcpu cfg])"

definition loader_arguments :: "quetz_config \<Rightarrow> string list" where
  "loader_arguments cfg =
     (if cfg_system_mode cfg \<and> cfg_system_mode_loader cfg \<noteq> [] then [cfg_system_mode_loader cfg] else [])"

definition launch_argv ::
    "string \<Rightarrow> bool \<Rightarrow> (string \<Rightarrow> string option) \<Rightarrow> quetz_config \<Rightarrow> string \<Rightarrow> bool \<Rightarrow> string list result" where
  "launch_argv install_dir readable env cfg shmname detailed =
     (if cfg_system_mode cfg \<and> cfg_vcpu_count cfg > 1 \<and>
         multicoreLaunchError (cfg_vcpu_count cfg) (cfg_qemu_extra_args cfg) (cfg_platform_machine cfg) \<noteq> None
        then Inl (Fatal ''system multicore'')
      else if cfg_sst_window_cache cfg \<and>
         windowCacheLaunchError (cfg_qemu_extra_args cfg) (cfg_vcpu_count cfg) (cfg_platform_machine cfg) \<noteq> None
        then Inl (Fatal ''sst_window_cache=1'')
      else
        res_bind (resolve_plugin install_dir readable cfg) (\<lambda>plugin.
        res_bind (window_arguments cfg shmname) (\<lambda>window.
          Inr (cfg_qemu_bin cfg # cfg_qemu_extra_args cfg @ cpu_arguments cfg @
               [''-plugin'', plugin_argument env cfg shmname detailed plugin] @
               mmio_arguments env cfg shmname @ window @
               loader_arguments cfg @ cfg_executable cfg # cfg_app_args cfg))))"

section \<open>The child\<close>

datatype signal_name = SIGTERM | SIGKILL

datatype wait_errno = ECHILD | EINTR | EOTHER

datatype wait_answer = W_reaped u32 | W_running | W_error wait_errno

text \<open>The system calls of the launcher, with the answer of \<open>waitpid\<close>; \<open>L_sleep\<close> is in milliseconds.\<close>

datatype launch_call = L_wait wait_answer | L_kill signal_name | L_sleep nat

type_synonym os = "launch_call list \<Rightarrow> wait_answer"

definition WIFEXITED :: "u32 \<Rightarrow> bool" where
  "WIFEXITED status \<longleftrightarrow> status AND 0x7f = 0"

definition WEXITSTATUS :: "u32 \<Rightarrow> u32" where
  "WEXITSTATUS status = drop_bit 8 (status AND 0xff00)"

definition WTERMSIG :: "u32 \<Rightarrow> u32" where
  "WTERMSIG status = status AND 0x7f"

definition WIFSIGNALED :: "u32 \<Rightarrow> bool" where
  "WIFSIGNALED status \<longleftrightarrow> status AND 0x7f \<noteq> 0 \<and> status AND 0x7f \<noteq> 0x7f"

record launcher =
  ln_pid :: u32
  ln_calls :: "launch_call list"

definition QemuLauncher :: launcher where
  "QemuLauncher = \<lparr>ln_pid = 0, ln_calls = []\<rparr>"

definition call_waitpid :: "os \<Rightarrow> launcher \<Rightarrow> wait_answer \<times> launcher" where
  "call_waitpid os l = (let a = os (ln_calls l) in (a, l\<lparr>ln_calls := ln_calls l @ [L_wait a]\<rparr>))"

definition call_kill :: "signal_name \<Rightarrow> launcher \<Rightarrow> launcher" where
  "call_kill s l = l\<lparr>ln_calls := ln_calls l @ [L_kill s]\<rparr>"

definition call_sleep :: "nat \<Rightarrow> launcher \<Rightarrow> launcher" where
  "call_sleep ms l = l\<lparr>ln_calls := ln_calls l @ [L_sleep ms]\<rparr>"

definition checkChild :: "os \<Rightarrow> launcher \<Rightarrow> launcher \<times> bool result" where
  "checkChild os l =
     (if ln_pid l = 0 then (l, Inr False)
      else
        case call_waitpid os l of (a, l1) \<Rightarrow>
          (case a of
             W_running \<Rightarrow> (l1, Inr True)
           | W_error EINTR \<Rightarrow> (l1, Inr True)
           | W_error _ \<Rightarrow> (l1, Inl (Fatal ''Cannot inspect QEMU child''))
           | W_reaped status \<Rightarrow>
               let l2 = l1\<lparr>ln_pid := 0\<rparr> in
               if WIFEXITED status \<and> WEXITSTATUS status \<noteq> 0 then (l2, Inl (Fatal ''QEMU exited with status''))
               else if WIFSIGNALED status then (l2, Inl (Fatal ''QEMU was terminated by signal''))
               else (l2, Inr False)))"

text \<open>The polling loop, \<open>waited\<close> and \<open>timeout_ms\<close> in milliseconds; the result is whether the child is gone, and its status
  where the loop reaped it.\<close>

function reap_loop :: "os \<Rightarrow> nat \<Rightarrow> nat \<Rightarrow> launcher \<Rightarrow> launcher \<times> bool \<times> u32 option" where
  "reap_loop os timeout_ms waited l =
     (case call_waitpid os l of (a, l1) \<Rightarrow>
        (case a of
           W_reaped status \<Rightarrow> (l1, True, Some status)
         | W_error ECHILD \<Rightarrow> (l1, True, None)
         | _ \<Rightarrow> if waited \<ge> timeout_ms then (l1, False, None) else reap_loop os timeout_ms (waited + 10) (call_sleep 10 l1)))"
  by pat_completeness auto
termination
  by (relation "measure (\<lambda>(_, t, w, _). t - w)") auto

declare reap_loop.simps [simp del]

definition reapBounded :: "os \<Rightarrow> nat \<Rightarrow> launcher \<Rightarrow> launcher \<times> bool \<times> u32 option" where
  "reapBounded os timeout_ms l = reap_loop os timeout_ms 0 l"

text \<open>\<open>status\<close> is 0 until a reap stores one.\<close>

definition status_of :: "u32 option \<Rightarrow> u32" where
  "status_of s = (case s of Some st \<Rightarrow> st | None \<Rightarrow> 0)"

definition teardown_result :: "u32 \<Rightarrow> unit result" where
  "teardown_result status =
     (if WIFEXITED status \<and> WEXITSTATUS status \<noteq> 0 then Inl (Fatal ''QEMU exited with status during teardown'')
      else if WIFSIGNALED status \<and> WTERMSIG status \<noteq> 15 \<and> WTERMSIG status \<noteq> 9 then Inl (Fatal ''QEMU failed with signal during teardown'')
      else Inr ())"

definition terminate_child :: "os \<Rightarrow> bool \<Rightarrow> launcher \<Rightarrow> launcher \<times> unit result" where
  "terminate_child os expect_guest_exit l =
     (case checkChild os l of
        (l1, Inl e) \<Rightarrow> (l1, Inl e)
      | (l1, Inr False) \<Rightarrow> (l1, Inr ())
      | (l1, Inr True) \<Rightarrow>
          if expect_guest_exit then
            (case reapBounded os 2000 l1 of (l2, gone, st) \<Rightarrow>
               if \<not> gone then (l2, Inl (Fatal ''QEMU did not exit after its plugin EXIT records''))
               else (l2\<lparr>ln_pid := 0\<rparr>,
                     if \<not> WIFEXITED (status_of st) \<or> WEXITSTATUS (status_of st) \<noteq> 0 then Inl (Fatal ''QEMU failed after plugin EXIT'') else Inr ()))
          else
            (case reapBounded os 2000 (call_kill SIGTERM l1) of (l2, gone, st) \<Rightarrow>
               if gone then (l2\<lparr>ln_pid := 0\<rparr>, teardown_result (status_of st))
               else case reapBounded os 2000 (call_kill SIGKILL l2) of (l3, _, st') \<Rightarrow>
                 (l3\<lparr>ln_pid := 0\<rparr>, teardown_result (status_of st'))))"

definition forceKill :: "os \<Rightarrow> launcher \<Rightarrow> launcher" where
  "forceKill os l =
     (if ln_pid l = 0 then l
      else case reapBounded os 500 (call_kill SIGKILL l) of (l1, _, _) \<Rightarrow> l1\<lparr>ln_pid := 0\<rparr>)"

section \<open>Spawning\<close>

text \<open>What the new process does: it exits before running QEMU, or runs it on an argument vector in an environment, or the program
  cannot be executed.\<close>

datatype child_image = Child_exit u32 | Child_exec "string list" "string \<Rightarrow> string option"

definition child_environment :: "quetz_config \<Rightarrow> string \<Rightarrow> (string \<Rightarrow> string option) \<Rightarrow> string \<Rightarrow> string option" where
  "child_environment cfg shmname env =
     (fold (\<lambda>(k, v) m. m(k \<mapsto> v)) (cfg_extra_env cfg) env)
       (''QUETZ_CACHE_RAM_SHM'' := (if cfg_sst_window_cache cfg then Some shmname else None))"

definition run_child :: "(string \<Rightarrow> bool) \<Rightarrow> (string \<Rightarrow> bool) \<Rightarrow> quetz_config \<Rightarrow> string \<Rightarrow> (string \<Rightarrow> string option) \<Rightarrow> string list \<Rightarrow> child_image" where
  "run_child freopen_ok exec_ok cfg shmname env argv =
     (if cfg_stdin_file cfg \<noteq> [] \<and> \<not> freopen_ok (cfg_stdin_file cfg) then Child_exit 1
      else if cfg_stdout_file cfg \<noteq> [] \<and> \<not> freopen_ok (cfg_stdout_file cfg) then Child_exit 1
      else if cfg_stderr_file cfg \<noteq> [] \<and> \<not> freopen_ok (cfg_stderr_file cfg) then Child_exit 1
      else if exec_ok (hd argv) then Child_exec argv (child_environment cfg shmname env)
      else Child_exit 127)"

text \<open>\<open>fork_pid\<close> is the child's process number, if there is one.\<close>

definition spawn ::
    "string \<Rightarrow> bool \<Rightarrow> (string \<Rightarrow> bool) \<Rightarrow> (string \<Rightarrow> bool) \<Rightarrow> (string \<Rightarrow> string option) \<Rightarrow> u32 option \<Rightarrow> quetz_config \<Rightarrow> string \<Rightarrow> bool \<Rightarrow>
     launcher \<Rightarrow> (launcher \<times> child_image) result" where
  "spawn install_dir readable freopen_ok exec_ok env fork_pid cfg shmname detailed l =
     res_bind (launch_argv install_dir readable env cfg shmname detailed) (\<lambda>argv.
       case fork_pid of
         None \<Rightarrow> Inl (Fatal ''fork() failed'')
       | Some pid \<Rightarrow> Inr (l\<lparr>ln_pid := pid\<rparr>, run_child freopen_ok exec_ok cfg shmname env argv))"

text \<open>One round of the wait for the plugin: \<open>attached\<close> is the flag the loop tests.\<close>

definition attach_round :: "os \<Rightarrow> bool \<Rightarrow> launcher \<Rightarrow> launcher \<times> bool result" where
  "attach_round os attached l =
     (if attached then (l, Inr True)
      else
        case call_waitpid os l of (a, l1) \<Rightarrow>
          (case a of
             W_reaped status \<Rightarrow>
               (l1, Inl (Fatal (if WIFEXITED status then ''QEMU exited before its SST plugin attached''
                                else if WIFSIGNALED status then ''QEMU was terminated by signal before its SST plugin attached''
                                else ''QEMU stopped before its SST plugin attached'')))
           | _ \<Rightarrow> (call_sleep 1 l1, Inr False)))"

section \<open>Histories of system calls\<close>

definition reaped :: "launch_call list \<Rightarrow> bool" where
  "reaped cs \<longleftrightarrow> (\<exists>s. L_wait (W_reaped s) \<in> set cs)"

text \<open>No signal is sent once the child has been reaped: its process number may belong to another process by then.\<close>

definition signals_safe :: "launch_call list \<Rightarrow> bool" where
  "signals_safe cs \<longleftrightarrow> (\<forall>pre s post. cs = pre @ L_kill s # post \<longrightarrow> \<not> reaped pre)"

fun is_wait :: "launch_call \<Rightarrow> bool" where
  "is_wait (L_wait a) = True"
| "is_wait _ = False"

fun sleep_ms :: "launch_call \<Rightarrow> nat" where
  "sleep_ms (L_sleep n) = n"
| "sleep_ms _ = 0"

definition waits :: "launch_call list \<Rightarrow> nat" where
  "waits cs = length (filter is_wait cs)"

definition slept :: "launch_call list \<Rightarrow> nat" where
  "slept cs = sum_list (map sleep_ms cs)"

lemma history_simps [simp]:
  "waits [] = 0" "slept [] = 0" "\<not> reaped []"
  "waits (c # cs) = (if is_wait c then Suc (waits cs) else waits cs)" "slept (c # cs) = sleep_ms c + slept cs"
  "reaped (c # cs) \<longleftrightarrow> (\<exists>s. c = L_wait (W_reaped s)) \<or> reaped cs"
  "waits (cs @ ds) = waits cs + waits ds" "slept (cs @ ds) = slept cs + slept ds" "reaped (cs @ ds) \<longleftrightarrow> reaped cs \<or> reaped ds"
  by (auto simp: waits_def slept_def reaped_def)

lemma signals_safe_Nil [simp]: "signals_safe []"
  by (simp add: signals_safe_def)

lemma signals_safe_snoc:
  "signals_safe (cs @ [c]) \<longleftrightarrow> signals_safe cs \<and> ((\<exists>s. c = L_kill s) \<longrightarrow> \<not> reaped cs)"
proof
  assume safe: "signals_safe (cs @ [c])"
  have "\<not> reaped pre" if "cs = pre @ L_kill s # post" for pre s post
    using safe that by (simp add: signals_safe_def)
  moreover have "\<not> reaped cs" if "c = L_kill s" for s
    using safe that by (simp add: signals_safe_def)
  ultimately show "signals_safe cs \<and> ((\<exists>s. c = L_kill s) \<longrightarrow> \<not> reaped cs)"
    by (auto simp: signals_safe_def)
next
  assume safe: "signals_safe cs \<and> ((\<exists>s. c = L_kill s) \<longrightarrow> \<not> reaped cs)"
  show "signals_safe (cs @ [c])"
    unfolding signals_safe_def
  proof (intro allI impI)
    fix pre s post assume "cs @ [c] = pre @ L_kill s # post"
    then show "\<not> reaped pre"
      using safe by (cases post rule: rev_cases) (auto simp: signals_safe_def)
  qed
qed

lemma signals_safe_no_kill:
  "(\<And>s. L_kill s \<notin> set ds) \<Longrightarrow> signals_safe (cs @ ds) \<longleftrightarrow> signals_safe cs"
proof (induction ds rule: rev_induct)
  case (snoc d ds)
  then show ?case
    using signals_safe_snoc [of "cs @ ds" d] by auto
qed simp

text \<open>What the polling loop adds to the history: bounded waiting, no signal, and the status it returns is the one it reaped.\<close>

definition polled :: "nat \<Rightarrow> launcher \<Rightarrow> launcher \<Rightarrow> u32 option \<Rightarrow> bool" where
  "polled n l l' st \<longleftrightarrow> ln_pid l' = ln_pid l \<and>
     (\<exists>cs. ln_calls l' = ln_calls l @ cs \<and> waits cs \<le> Suc n \<and> slept cs \<le> 10 * n \<and> (\<forall>s. L_kill s \<notin> set cs) \<and>
           (\<forall>s. L_wait (W_reaped s) \<in> set cs \<longleftrightarrow> st = Some s))"

lemma polled_once:
  assumes "call_waitpid os l = (a, l')" "st = (case a of W_reaped s \<Rightarrow> Some s | _ \<Rightarrow> None)"
  shows "polled n l l' st"
  unfolding polled_def
  using assms by (auto simp: call_waitpid_def Let_def intro!: exI [of _ "[L_wait a]"] split: wait_answer.splits)

lemma polled_again:
  assumes "call_waitpid os l = (a, l1)" "\<And>s. a \<noteq> W_reaped s" "polled n (call_sleep 10 l1) l' st"
  shows "polled (Suc n) l l' st"
proof -
  obtain cs where cs: "ln_calls l' = ln_calls (call_sleep 10 l1) @ cs" "waits cs \<le> Suc n" "slept cs \<le> 10 * n"
      "\<forall>s. L_kill s \<notin> set cs" "\<forall>s. L_wait (W_reaped s) \<in> set cs \<longleftrightarrow> st = Some s" "ln_pid l' = ln_pid l1"
    using assms(3) by (auto simp: polled_def call_sleep_def)
  then show ?thesis
    unfolding polled_def using assms(1) assms(2) [symmetric]
    by (auto simp: call_waitpid_def Let_def call_sleep_def intro!: exI [of _ "L_wait a # L_sleep 10 # cs"])
qed

lemma reap_loop_cases:
  assumes "reap_loop os t w l = (l', gone, st)" "call_waitpid os l = (a, l1)"
  obtains "l' = l1" "st = (case a of W_reaped s \<Rightarrow> Some s | _ \<Rightarrow> None)" "\<not> gone \<longrightarrow> st = None"
    | "w < t" "reap_loop os t (w + 10) (call_sleep 10 l1) = (l', gone, st)" "\<And>s. a \<noteq> W_reaped s"
  using assms by (subst (asm) reap_loop.simps) (auto split: wait_answer.splits wait_errno.splits if_splits)

lemma reap_loop_polled:
  "reap_loop os t w l = (l', gone, st) \<Longrightarrow> t \<le> w + 10 * n \<Longrightarrow> polled n l l' st \<and> (\<not> gone \<longrightarrow> st = None)"
proof (induction n arbitrary: w l)
  case 0
  obtain a l1 where call: "call_waitpid os l = (a, l1)"
    by (cases "call_waitpid os l")
  show ?case
    by (rule reap_loop_cases [OF 0(1) call]) (use 0(2) polled_once [OF call] in auto)
next
  case (Suc n)
  obtain a l1 where call: "call_waitpid os l = (a, l1)"
    by (cases "call_waitpid os l")
  show ?case
  proof (rule reap_loop_cases [OF Suc.prems(1) call])
    assume "l' = l1" "st = (case a of W_reaped s \<Rightarrow> Some s | _ \<Rightarrow> None)" "\<not> gone \<longrightarrow> st = None"
    then show ?thesis
      using polled_once [OF call, of st "Suc n"] by simp
  next
    assume again: "reap_loop os t (w + 10) (call_sleep 10 l1) = (l', gone, st)" "\<And>s. a \<noteq> W_reaped s"
    then show ?thesis
      using Suc.IH [OF again(1)] Suc.prems(2) polled_again [OF call again(2)] by simp
  qed
qed

lemma reapBounded_polled:
  "reapBounded os t l = (l', gone, st) \<Longrightarrow> t \<le> 10 * n \<Longrightarrow> polled n l l' st \<and> (\<not> gone \<longrightarrow> st = None)"
  using reap_loop_polled [of os t 0 l l' gone st n] by (simp add: reapBounded_def)

section \<open>The operations on the history\<close>

definition launcher_inv :: "launcher \<Rightarrow> bool" where
  "launcher_inv l \<longleftrightarrow> signals_safe (ln_calls l) \<and> (ln_pid l \<noteq> 0 \<longrightarrow> \<not> reaped (ln_calls l))"

lemma polled_inv:
  assumes "polled n l l' st" "launcher_inv l" "ln_pid l \<noteq> 0"
  shows "signals_safe (ln_calls l')" "st = None \<Longrightarrow> launcher_inv l'"
proof -
  obtain cs where cs: "ln_calls l' = ln_calls l @ cs" "\<forall>s. L_kill s \<notin> set cs" "\<forall>s. L_wait (W_reaped s) \<in> set cs \<longleftrightarrow> st = Some s"
    using assms(1) by (auto simp: polled_def)
  then show safe: "signals_safe (ln_calls l')"
    using assms(2) signals_safe_no_kill [of cs "ln_calls l"] by (simp add: launcher_inv_def)
  show "launcher_inv l'" if "st = None"
    using safe cs that assms(2,3) by (simp add: launcher_inv_def reaped_def)
qed

lemma call_kill_inv: "launcher_inv l \<Longrightarrow> ln_pid l \<noteq> 0 \<Longrightarrow> launcher_inv (call_kill s l)"
  by (auto simp: launcher_inv_def call_kill_def signals_safe_snoc)

lemma cleared_inv: "signals_safe (ln_calls l) \<Longrightarrow> launcher_inv (l\<lparr>ln_pid := 0\<rparr>)"
  by (simp add: launcher_inv_def)

text \<open>Killing and polling: the common part of the teardown paths.\<close>

lemma kill_poll_inv:
  assumes "launcher_inv l" "ln_pid l \<noteq> 0" "reapBounded os t (call_kill s l) = (l', gone, st)"
  shows "signals_safe (ln_calls l')" "\<not> gone \<Longrightarrow> launcher_inv l' \<and> ln_pid l' \<noteq> 0"
proof -
  have p: "polled t (call_kill s l) l' st" "\<not> gone \<longrightarrow> st = None"
    using reapBounded_polled [OF assms(3), of t] by simp_all
  have pid: "ln_pid (call_kill s l) \<noteq> 0" "ln_pid l' = ln_pid l"
    using assms(2) p(1) by (simp_all add: call_kill_def polled_def)
  note inv = polled_inv [OF p(1) call_kill_inv [OF assms(1,2)] pid(1)]
  show "signals_safe (ln_calls l')" "\<not> gone \<Longrightarrow> launcher_inv l' \<and> ln_pid l' \<noteq> 0"
    using inv p(2) pid assms(2) by simp_all
qed

lemma checkChild_inv: "launcher_inv l \<Longrightarrow> launcher_inv (fst (checkChild os l))"
  by (auto simp: checkChild_def call_waitpid_def Let_def launcher_inv_def signals_safe_snoc
      split: wait_answer.splits wait_errno.splits)

lemma checkChild_running: "checkChild os l = (l', Inr True) \<Longrightarrow> ln_pid l' \<noteq> 0"
  by (auto simp: checkChild_def call_waitpid_def Let_def split: wait_answer.splits wait_errno.splits if_splits)

lemma terminate_child_inv:
  assumes "launcher_inv l"
  shows "launcher_inv (fst (terminate_child os e l))"
proof -
  obtain l1 r where check: "checkChild os l = (l1, r)"
    by (cases "checkChild os l")
  have inv1: "launcher_inv l1"
    using checkChild_inv [OF assms, of os] check by simp
  show ?thesis
  proof (cases "r = Inr True")
    case False
    then show ?thesis
      using inv1 check by (auto simp: terminate_child_def split: sum.splits bool.splits)
  next
    case True
    then have pid: "ln_pid l1 \<noteq> 0"
      using checkChild_running check by simp
    show ?thesis
    proof (cases e)
      case e: True
      obtain l2 gone st where reap: "reapBounded os 2000 l1 = (l2, gone, st)"
        by (cases "reapBounded os 2000 l1") auto
      have p: "polled 200 l1 l2 st" "\<not> gone \<longrightarrow> st = None"
        using reapBounded_polled [OF reap, of 200] by simp_all
      show ?thesis
        using polled_inv [OF p(1) inv1 pid] p(2) check True e reap
        by (auto simp: terminate_child_def intro: cleared_inv)
    next
      case e: False
      obtain l2 gone st where reap: "reapBounded os 2000 (call_kill SIGTERM l1) = (l2, gone, st)"
        by (cases "reapBounded os 2000 (call_kill SIGTERM l1)") auto
      obtain l3 gone' st' where reap': "reapBounded os 2000 (call_kill SIGKILL l2) = (l3, gone', st')"
        by (cases "reapBounded os 2000 (call_kill SIGKILL l2)") auto
      show ?thesis
        using kill_poll_inv [OF inv1 pid reap] kill_poll_inv(1) [of l2, OF _ _ reap'] check True e reap reap'
        by (auto simp: terminate_child_def intro: cleared_inv)
    qed
  qed
qed

lemma forceKill_inv: "launcher_inv l \<Longrightarrow> launcher_inv (forceKill os l)"
  using kill_poll_inv(1) [of l os 500 SIGKILL]
  by (auto simp: forceKill_def split: prod.splits intro: cleared_inv)

lemma attach_round_inv: "launcher_inv l \<Longrightarrow> attach_round os b l = (l', Inr r) \<Longrightarrow> launcher_inv l'"
  by (auto simp: attach_round_def call_waitpid_def Let_def call_sleep_def launcher_inv_def signals_safe_snoc
      signals_safe_no_kill [of "[_, _]"] split: if_splits wait_answer.splits)

text \<open>The life of a launcher: spawned once, then any of its operations in any order. An attach round that reaps the child is fatal
  and is not one of them.\<close>

inductive launcher_run :: "os \<Rightarrow> launcher \<Rightarrow> bool" for os where
  spawned: "spawn dir readable freopen_ok exec_ok env (Some pid) cfg shmname detailed QemuLauncher = Inr (l, child) \<Longrightarrow> launcher_run os l"
| waiting: "launcher_run os l \<Longrightarrow> attach_round os attached l = (l', Inr r) \<Longrightarrow> launcher_run os l'"
| checked: "launcher_run os l \<Longrightarrow> launcher_run os (fst (checkChild os l))"
| terminated: "launcher_run os l \<Longrightarrow> launcher_run os (fst (terminate_child os e l))"
| killed: "launcher_run os l \<Longrightarrow> launcher_run os (forceKill os l)"

lemma launcher_run_inv: "launcher_run os l \<Longrightarrow> launcher_inv l"
proof (induction rule: launcher_run.induct)
  case (spawned dir readable freopen_ok exec_ok env pid cfg shmname detailed l child)
  then show ?case
    by (auto simp: spawn_def res_bind_Inr_iff QemuLauncher_def launcher_inv_def)
qed (blast intro: attach_round_inv checkChild_inv terminate_child_inv forceKill_inv)+

text \<open>Bounded histories: \<open>n\<close> waits, \<open>t\<close> milliseconds and the statuses reaped.\<close>

definition history :: "launcher \<Rightarrow> launcher \<Rightarrow> nat \<Rightarrow> nat \<Rightarrow> u32 set \<Rightarrow> bool" where
  "history l l' n t S \<longleftrightarrow>
     (\<exists>cs. ln_calls l' = ln_calls l @ cs \<and> waits cs \<le> n \<and> slept cs \<le> t \<and> {s. L_wait (W_reaped s) \<in> set cs} = S)"

lemma history_trans:
  "history l l1 n t S \<Longrightarrow> history l1 l2 n' t' S' \<Longrightarrow> history l l2 (n + n') (t + t') (S \<union> S')"
  unfolding history_def by (elim exE) (rule_tac x = "cs @ csa" in exI, auto)

lemma history_mono: "history l l' n t S \<Longrightarrow> n \<le> n' \<Longrightarrow> t \<le> t' \<Longrightarrow> history l l' n' t' S"
  unfolding history_def by (elim exE) (rule_tac x = cs in exI, auto)

lemma history_pid [simp]:
  "history l (l'\<lparr>ln_pid := p\<rparr>) n t S \<longleftrightarrow> history l l' n t S" "history (l\<lparr>ln_pid := p\<rparr>) l' n t S \<longleftrightarrow> history l l' n t S"
  by (simp_all add: history_def)

lemma polled_history: "polled n l l' st \<Longrightarrow> history l l' (Suc n) (10 * n) (set_option st)"
  unfolding polled_def history_def by (elim conjE exE) (rule_tac x = cs in exI, auto)

lemma kill_history: "history l (call_kill s l) 0 0 {}"
  by (simp add: history_def call_kill_def)

lemma kill_polled_history:
  "reapBounded os 2000 (call_kill s l) = (l', gone, st) \<Longrightarrow> history l l' 201 2000 (set_option st) \<and> (\<not> gone \<longrightarrow> st = None)"
  using reapBounded_polled [of os 2000 "call_kill s l" l' gone st 200]
    history_trans [OF kill_history polled_history [of 200 _ l' st], of s l] by simp

text \<open>A status that must not be passed over: a failing exit, or a signal that the launcher has not sent.\<close>

definition bad_exit :: "bool \<Rightarrow> u32 \<Rightarrow> bool" where
  "bad_exit expect s \<longleftrightarrow> (WIFEXITED s \<and> WEXITSTATUS s \<noteq> 0) \<or> (WIFSIGNALED s \<and> (expect \<or> WTERMSIG s \<noteq> 15 \<and> WTERMSIG s \<noteq> 9))"

lemma clean_exit: "WIFEXITED s \<Longrightarrow> WEXITSTATUS s = 0 \<Longrightarrow> \<not> bad_exit e s"
  by (simp add: bad_exit_def WIFSIGNALED_def WIFEXITED_def)

lemma teardown_result_ok: "teardown_result (status_of st) = Inr () \<Longrightarrow> \<forall>s \<in> set_option st. \<not> bad_exit False s"
  by (auto simp: teardown_result_def bad_exit_def status_of_def split: if_splits)

lemma checkChild_history:
  assumes "checkChild os l = (l', r)"
  obtains S where "history l l' 1 0 S" "r = Inr False \<Longrightarrow> ln_pid l' = 0 \<and> (\<forall>s \<in> S. \<not> bad_exit e s)" "r = Inr True \<Longrightarrow> S = {}"
proof (cases "ln_pid l = 0")
  case True
  then have "history l l' 1 0 {}" "ln_pid l' = 0"
    using assms by (simp_all add: checkChild_def history_def)
  then show thesis
    using that [of "{}"] by simp
next
  case False
  define a where "a = os (ln_calls l)"
  have "history l l' 1 0 (case a of W_reaped s \<Rightarrow> {s} | _ \<Rightarrow> {})"
    using assms False
    by (auto simp: checkChild_def call_waitpid_def Let_def a_def [symmetric] history_def intro!: exI [of _ "[L_wait a]"]
        split: wait_answer.splits wait_errno.splits if_splits)
  moreover have "r = Inr False \<Longrightarrow> ln_pid l' = 0 \<and> (\<forall>s \<in> (case a of W_reaped s \<Rightarrow> {s} | _ \<Rightarrow> {}). \<not> bad_exit e s)"
    "r = Inr True \<Longrightarrow> (case a of W_reaped s \<Rightarrow> {s} | _ \<Rightarrow> {}) = {}"
    using assms False
    by (auto simp: checkChild_def call_waitpid_def Let_def a_def [symmetric] bad_exit_def
        split: wait_answer.splits wait_errno.splits if_splits)
  ultimately show thesis
    by (rule that)
qed

lemma terminate_history:
  assumes "terminate_child os e l = (l', r)"
  obtains S where "history l l' 403 4000 S" "r = Inr () \<Longrightarrow> ln_pid l' = 0 \<and> (\<forall>s \<in> S. \<not> bad_exit e s)"
proof -
  obtain l1 c where check: "checkChild os l = (l1, c)"
    by (cases "checkChild os l")
  obtain S1 where S1: "history l l1 1 0 S1" "c = Inr False \<Longrightarrow> ln_pid l1 = 0 \<and> (\<forall>s \<in> S1. \<not> bad_exit e s)" "c = Inr True \<Longrightarrow> S1 = {}"
    using checkChild_history [OF check] by blast
  show thesis
  proof (cases "c = Inr True")
    case False
    then have "l' = l1" "r = Inr () \<Longrightarrow> c = Inr False"
      using assms check by (auto simp: terminate_child_def split: sum.splits bool.splits)
    then show thesis
      using that [of S1] history_mono [OF S1(1), of 403 4000] S1(2) by simp
  next
    case True
    note first = S1(1) [unfolded S1(3) [OF True]]
    show thesis
    proof (cases e)
      case e: True
      obtain l2 gone st where reap: "reapBounded os 2000 l1 = (l2, gone, st)"
        by (cases "reapBounded os 2000 l1") auto
      have p: "history l1 l2 201 2000 (set_option st)"
        using reapBounded_polled [OF reap, of 200] polled_history [of 200 l1 l2 st] by simp
      have "history l l' 403 4000 (set_option st)"
        using history_mono [OF history_trans [OF first p]] assms check True e reap
        by (auto simp: terminate_child_def split: if_splits)
      then show thesis
        by (rule that) (use assms check True e reap in \<open>auto simp: terminate_child_def status_of_def clean_exit split: if_splits\<close>)
    next
      case e: False
      obtain l2 gone st where reap: "reapBounded os 2000 (call_kill SIGTERM l1) = (l2, gone, st)"
        by (cases "reapBounded os 2000 (call_kill SIGTERM l1)") auto
      obtain l3 gone' st' where reap': "reapBounded os 2000 (call_kill SIGKILL l2) = (l3, gone', st')"
        by (cases "reapBounded os 2000 (call_kill SIGKILL l2)") auto
      note h2 = history_trans [OF first kill_polled_history [OF reap, THEN conjunct1]]
      note h3 = history_trans [OF h2 kill_polled_history [OF reap', THEN conjunct1]]
      show thesis
      proof (cases gone)
        case True
        then show thesis
          using that [OF history_mono, of 202 2000 "set_option st"] h2 assms check \<open>c = Inr True\<close> e reap
          by (auto simp: terminate_child_def teardown_result_ok)
      next
        case False
        then show thesis
          using that [OF history_mono, of 403 4000 "set_option st'"] h3 assms check \<open>c = Inr True\<close> e reap reap'
            kill_polled_history [OF reap]
          by (auto simp: terminate_child_def teardown_result_ok)
      qed
    qed
  qed
qed

section \<open>The options of the plugin\<close>

text \<open>QEMU hands a plugin the comma-separated options behind its path; \<open>split\<close> stands for that.\<close>

definition splits_options :: "(string \<Rightarrow> string list) \<Rightarrow> bool" where
  "splits_options split \<longleftrightarrow>
     (\<forall>path opts. CHR '','' \<notin> set path \<longrightarrow> (\<forall>opt \<in> set opts. CHR '','' \<notin> set opt) \<longrightarrow>
        split (path @ concat (map (\<lambda>opt. CHR '','' # opt) opts)) = opts)"

definition plugin_options :: "(string \<Rightarrow> string option) \<Rightarrow> quetz_config \<Rightarrow> string \<Rightarrow> bool \<Rightarrow> string list" where
  "plugin_options env cfg shmname detailed =
     [''shmname='' @ shmname] @ (if detailed then [''detailed=1''] else []) @
     (if cfg_sst_window_cache cfg then [''cache_ops=1''] else []) @
     (case mmio_aperture env of Some (b, s) \<Rightarrow> [hex_arg ''mmio_base'' b, hex_arg ''mmio_size'' s] | None \<Rightarrow> []) @
     (if cfg_sst_window_size cfg \<noteq> 0 then [hex_arg ''win_base'' (cfg_sst_window_base cfg), hex_arg ''win_size'' (cfg_sst_window_size cfg)] else [])"

lemma hex_length: "n < 16 ^ Suc k \<Longrightarrow> length (hex n) \<le> Suc k"
proof (induction k arbitrary: n)
  case (Suc k)
  then have "n div 16 < 16 ^ Suc k"
    by (simp add: less_mult_imp_div_less mult.commute)
  then show ?case
    using Suc.IH [of "n div 16"] by (simp add: hex.simps [of n])
qed (simp add: hex.simps)

lemma hex_length_64: "length (hex (unat (n :: u64))) \<le> 16"
  using hex_length [of "unat n" 15] unat_less_64 [of n] by simp

lemma hex_no_comma: "CHR '','' \<notin> set (hex n)"
  using hex_chars [of n] hex_alphabet_facts(5) by blast

lemma hex_arg_facts:
  "length (hex_arg key n) \<le> length key + 19" "CHR '','' \<in> set (hex_arg key n) \<longleftrightarrow> CHR '','' \<in> set key"
  "hex_arg (c # key) n = c # hex_arg key n"
  using hex_length_64 [of n] hex_no_comma [of "unat n"] by (auto simp: hex_arg_def)

lemma snprintf_cut_fits: "length s < n \<Longrightarrow> snprintf_cut n s = s"
  by (simp add: snprintf_cut_def)

lemma hex_args_fit:
  "length k + length k' < 86 \<Longrightarrow>
    snprintf_cut 128 (CHR '','' # hex_arg k a @ CHR '','' # hex_arg k' b) = CHR '','' # hex_arg k a @ CHR '','' # hex_arg k' b"
  using hex_arg_facts(1) [of k a] hex_arg_facts(1) [of k' b] by (intro snprintf_cut_fits) simp

lemma plugin_argument_options:
  "plugin_argument env cfg shmname detailed plugin = plugin @ concat (map (\<lambda>opt. CHR '','' # opt) (plugin_options env cfg shmname detailed))"
  by (cases "mmio_aperture env")
    (auto simp: plugin_argument_def plugin_options_def hex_args_fit hex_arg_facts(3) [of "CHR '',''"])

lemma split_plugin_argument:
  assumes "splits_options split" "CHR '','' \<notin> set plugin" "CHR '','' \<notin> set shmname"
  shows "split (plugin_argument env cfg shmname detailed plugin) = plugin_options env cfg shmname detailed"
  unfolding plugin_argument_options
  using assms(1) unfolding splits_options_def
  by (elim allE [of _ plugin] allE [of _ "plugin_options env cfg shmname detailed"])
    (use assms(2,3) in \<open>auto simp: plugin_options_def hex_arg_facts split: option.splits if_splits\<close>)

lemma strtoull_hex_arg: "strtoull (CHR ''0'' # CHR ''x'' # hex (unat (n :: u64))) = n"
  using strtoull_of_hex [of "unat n"] unat_less_64 [of n] by simp

lemma plugin_reads_options:
  "fold plugin_arg (plugin_options env cfg shmname detailed) plugin_globals = plugin_globals
     \<lparr>pg_shmem_name := shmname, pg_detailed := detailed, pg_cache_ops := cfg_sst_window_cache cfg,
      pg_mmio_base := (case mmio_aperture env of Some (b, s) \<Rightarrow> b | None \<Rightarrow> 0),
      pg_mmio_size := (case mmio_aperture env of Some (b, s) \<Rightarrow> s | None \<Rightarrow> 0),
      pg_win_base := (if cfg_sst_window_size cfg = 0 then 0 else cfg_sst_window_base cfg), pg_win_size := cfg_sst_window_size cfg\<rparr>"
  by (simp add: plugin_options_def plugin_arg_def hex_arg_def strtoull_hex_arg plugin_globals_def split: option.splits)

text \<open>The aperture text of user mode, read back by the linux-user side.\<close>

lemma split_tokens_fields:
  "CHR '','' \<notin> set a \<Longrightarrow> split_tokens (CHR '','') acc (a @ CHR '','' # s) = (rev acc @ a) # split_tokens (CHR '','') [] s"
  "CHR '','' \<notin> set a \<Longrightarrow> split_tokens (CHR '','') acc a = [rev acc @ a]"
  by (induction a arbitrary: acc) auto

lemma range_text_fields:
  assumes "CHR '','' \<notin> set shmname" "length shmname < 200"
  shows "strtok (CHR '','') (range_text shmname b s) = [''shmname='' @ shmname, hex_arg ''base'' b, hex_arg ''size'' s]"
proof -
  have "range_text shmname b s = (''shmname='' @ shmname) @ CHR '','' # hex_arg ''base'' b @ CHR '','' # hex_arg ''size'' s"
    using hex_arg_facts(1) [of "'',base''" b] hex_arg_facts(1) [of "'',size''" s] assms(2)
    unfolding range_text_def by (subst snprintf_cut_fits) (simp_all add: hex_arg_facts(3))
  then have "split_tokens (CHR '','') [] (range_text shmname b s) = [''shmname='' @ shmname, hex_arg ''base'' b, hex_arg ''size'' s]"
    using assms(1) hex_arg_facts(2) [of "''base''" b] hex_arg_facts(2) [of "''size''" s]
      split_tokens_fields(1) [of "''shmname='' @ shmname" "[]"]
      split_tokens_fields(1) [of "hex_arg ''base'' b" "[]"] split_tokens_fields(2) [of "hex_arg ''size'' s" "[]"]
    by simp
  then show ?thesis
    by (simp add: strtok_def hex_arg_def)
qed

lemma range_text_read:
  assumes "CHR '','' \<notin> set shmname" "length shmname < 200"
  shows "range_fields (strtok (CHR '','') (range_text shmname b s)) r = Inr (r\<lparr>rg_shmname := shmname, rg_base := b, rg_size := s\<rparr>)"
proof -
  have number: "range_number (CHR ''0'' # CHR ''x'' # hex (unat n)) = Inr n" for n :: u64
    using strtoull_hex [of "unat n"] unat_less_64 [of n] by (simp add: range_number_def)
  show ?thesis
    unfolding range_text_fields [OF assms] using assms(2)
    by (simp add: range_field_def hex_arg_def number)
qed

section \<open>Properties\<close>

text \<open>C39. Stopping QEMU terminates whatever the child does: it polls at most 403 times and sleeps at most four seconds. If it
  reports no error the launcher has forgotten the child, and no status it reaped was a failing exit or a signal it did not send.\<close>

theorem terminate_bounded:
  "\<exists>cs. ln_calls (fst (terminate_child os e l)) = ln_calls l @ cs \<and> waits cs \<le> 403 \<and> slept cs \<le> 4000 \<and>
    (snd (terminate_child os e l) = Inr () \<longrightarrow>
      ln_pid (fst (terminate_child os e l)) = 0 \<and> (\<forall>s. L_wait (W_reaped s) \<in> set cs \<longrightarrow> \<not> bad_exit e s))"
  by (rule terminate_history [of os e l "fst (terminate_child os e l)" "snd (terminate_child os e l)"])
    (auto simp: history_def)

theorem terminate_bounded_witness:
  "\<exists>cs. ln_calls (fst (terminate_child (\<lambda>cs. if L_kill SIGTERM \<in> set cs then W_reaped 15 else W_running) False \<lparr>ln_pid = 42, ln_calls = []\<rparr>)) = cs \<and>
    waits cs \<le> 403 \<and> slept cs \<le> 4000 \<and> \<not> bad_exit False 15"
proof -
  let ?os = "\<lambda>cs. if L_kill SIGTERM \<in> set cs then W_reaped 15 else W_running"
  have run: "terminate_child ?os False \<lparr>ln_pid = 42, ln_calls = []\<rparr> =
      (\<lparr>ln_pid = 0, ln_calls = [L_wait W_running, L_kill SIGTERM, L_wait (W_reaped 15)]\<rparr>, Inr ())"
    by code_simp
  show ?thesis
    using terminate_bounded [of ?os False "\<lparr>ln_pid = 42, ln_calls = []\<rparr>"] unfolding run by simp
qed


definition sample_conv :: param_conv where
  "sample_conv = \<lparr>pc_bool = (\<lambda>s. s = ''1''), pc_int = (\<lambda>s. ucast (strtoull s)), pc_u32 = (\<lambda>s. ucast (strtoull s)), pc_u64 = strtoull\<rparr>"


text \<open>The wait for the plugin does not keep to this: when the child dies before attaching it is reaped, the fatal error runs the
  emergency shutdown, and \<open>forceKill\<close> signals the process number although it is free.\<close>

theorem attach_failure_signals_reaped:
  "\<exists>os l l' e. launcher_inv l \<and> attach_round os False l = (l', Inl e) \<and> \<not> signals_safe (ln_calls (forceKill os l'))"
proof -
  let ?os = "\<lambda>cs. if cs = [] then W_reaped 0x100 else W_error ECHILD"
  let ?l = "\<lparr>ln_pid = 42, ln_calls = []\<rparr>"
  let ?l' = "\<lparr>ln_pid = 42, ln_calls = [L_wait (W_reaped 0x100)]\<rparr>"
  have "attach_round ?os False ?l = (?l', Inl (Fatal ''QEMU exited before its SST plugin attached''))"
    by code_simp
  moreover have "ln_calls (forceKill ?os ?l') = [L_wait (W_reaped 0x100), L_kill SIGKILL, L_wait (W_error ECHILD)]"
    by code_simp
  moreover have "\<not> signals_safe [L_wait (W_reaped 0x100), L_kill SIGKILL, L_wait (W_error ECHILD)]"
    using signals_safe_snoc [of "[L_wait (W_reaped 0x100)]" "L_kill SIGKILL"]
      signals_safe_snoc [of "[L_wait (W_reaped 0x100), L_kill SIGKILL]" "L_wait (W_error ECHILD)"] by simp
  moreover have "launcher_inv ?l"
    by (simp add: launcher_inv_def)
  ultimately show ?thesis
    by metis
qed

text \<open>C23. What the launcher prints, the guest side reads back. The plugin, reading its options, gets exactly the launcher's
  segment name, tracking mode and cache mode, the MMIO aperture of the environment and the window of the configuration; in
  user mode the range option, read by the linux-user side, names the same segment and the same aperture.\<close>

theorem launch_apertures:
  assumes "splits_options split" "launch_argv dir readable env cfg shmname detailed = Inr argv"
    and "resolve_plugin dir readable cfg = Inr plugin" "CHR '','' \<notin> set plugin" "CHR '','' \<notin> set shmname" "length shmname < 200"
  shows "\<exists>pre arg post. argv = pre @ ''-plugin'' # arg # post \<and>
    (let p = fold plugin_arg (split arg) plugin_globals in
       pg_shmem_name p = shmname \<and> pg_detailed p = detailed \<and> pg_cache_ops p = cfg_sst_window_cache cfg \<and>
       (pg_mmio_base p, pg_mmio_size p) = (case mmio_aperture env of Some bs \<Rightarrow> bs | None \<Rightarrow> (0, 0)) \<and>
       pg_win_size p = cfg_sst_window_size cfg \<and> (pg_win_size p \<noteq> 0 \<longrightarrow> pg_win_base p = cfg_sst_window_base cfg) \<and>
       (\<not> cfg_system_mode cfg \<and> pg_mmio_size p \<noteq> 0 \<longrightarrow>
          (\<exists>spec rest. post = ''-sst-mmio-range'' # spec # rest \<and>
             (\<forall>r. range_fields (strtok (CHR '','') spec) r =
                Inr (r\<lparr>rg_shmname := shmname, rg_base := pg_mmio_base p, rg_size := pg_mmio_size p\<rparr>)))))"
proof -
  let ?arg = "plugin_argument env cfg shmname detailed plugin"
  obtain window where argv: "argv = (cfg_qemu_bin cfg # cfg_qemu_extra_args cfg @ cpu_arguments cfg) @ ''-plugin'' # ?arg #
      mmio_arguments env cfg shmname @ window @ loader_arguments cfg @ cfg_executable cfg # cfg_app_args cfg"
    using assms(2,3) by (auto simp: launch_argv_def res_bind_Inr_iff split: if_splits)
  define p where "p = fold plugin_arg (split ?arg) plugin_globals"
  have p: "p = fold plugin_arg (plugin_options env cfg shmname detailed) plugin_globals"
    by (simp add: p_def split_plugin_argument [OF assms(1,4,5)])
  have range: "mmio_arguments env cfg shmname = [''-sst-mmio-range'', range_text shmname (pg_mmio_base p) (pg_mmio_size p)]"
    if "\<not> cfg_system_mode cfg" "pg_mmio_size p \<noteq> 0"
    using that by (auto simp: mmio_arguments_def p plugin_reads_options split: option.splits)
  have read: "pg_shmem_name p = shmname" "pg_detailed p = detailed" "pg_cache_ops p = cfg_sst_window_cache cfg"
    "(pg_mmio_base p, pg_mmio_size p) = (case mmio_aperture env of Some bs \<Rightarrow> bs | None \<Rightarrow> (0, 0))"
    "pg_win_size p = cfg_sst_window_size cfg" "pg_win_size p \<noteq> 0 \<Longrightarrow> pg_win_base p = cfg_sst_window_base cfg"
    by (simp_all add: p plugin_reads_options split: option.splits)
  show ?thesis
    using range range_text_read [OF assms(5,6)] read
    by (intro exI [of _ "cfg_qemu_bin cfg # cfg_qemu_extra_args cfg @ cpu_arguments cfg"] exI [of _ ?arg]
          exI [of _ "mmio_arguments env cfg shmname @ window @ loader_arguments cfg @ cfg_executable cfg # cfg_app_args cfg"])
      (auto simp: argv p_def [symmetric] Let_def)
qed

definition option_split :: "string \<Rightarrow> string list" where
  "option_split s = tl (split_tokens (CHR '','') [] s)"

lemma option_split_splits: "splits_options option_split"
proof -
  have "split_tokens (CHR '','') acc (path @ concat (map (\<lambda>opt. CHR '','' # opt) opts)) = (rev acc @ path) # opts"
    if "CHR '','' \<notin> set path" "\<forall>opt \<in> set opts. CHR '','' \<notin> set opt" for acc path opts
    using that
  proof (induction opts arbitrary: acc path)
    case Nil
    then show ?case
      by (simp add: split_tokens_fields)
  next
    case (Cons opt opts)
    then show ?case
      by (simp add: split_tokens_fields)
  qed
  then show ?thesis
    by (simp add: splits_options_def option_split_def)
qed

definition sample_env :: "string \<Rightarrow> string option" where
  "sample_env = map_of [(''QUETZ_MMIO_PAYLOAD'', ''1''), (''QUETZ_MMIO_START'', ''0x40''), (''QUETZ_MMIO_END'', ''0x4f'')]"

theorem launch_apertures_witness:
  "\<exists>pre arg post. [''qemu-riscv64'', ''-plugin'', ''p.so,shmname=shm,mmio_base=0x40,mmio_size=0x10'',
       ''-sst-mmio-range'', ''shmname=shm,base=0x40,size=0x10'', ''a.out''] = pre @ ''-plugin'' # arg # post \<and>
     pg_mmio_base (fold plugin_arg (option_split arg) plugin_globals) = 0x40 \<and>
     pg_mmio_size (fold plugin_arg (option_split arg) plugin_globals) = 0x10"
proof -
  let ?cfg = "read_params sample_conv (\<lambda>_. None) (map_of [(''executable'', ''a.out''), (''qemu_plugin'', ''p.so'')]) []"
  have argv: "launch_argv [] False sample_env ?cfg ''shm'' False =
      Inr [''qemu-riscv64'', ''-plugin'', ''p.so,shmname=shm,mmio_base=0x40,mmio_size=0x10'',
       ''-sst-mmio-range'', ''shmname=shm,base=0x40,size=0x10'', ''a.out'']"
    by code_simp
  have plugin: "resolve_plugin [] False ?cfg = Inr ''p.so''"
    by code_simp
  have aperture: "mmio_aperture sample_env = Some (0x40, 0x10)"
    by code_simp
  have small: "CHR '','' \<notin> set ''p.so''" "CHR '','' \<notin> set ''shm''" "length ''shm'' < 200"
    by simp_all
  note * = launch_apertures [OF option_split_splits argv plugin small]
  show ?thesis
  proof (rule exE [OF *], elim exE)
    fix pre arg post
    assume **: "[''qemu-riscv64'', ''-plugin'', ''p.so,shmname=shm,mmio_base=0x40,mmio_size=0x10'',
       ''-sst-mmio-range'', ''shmname=shm,base=0x40,size=0x10'', ''a.out''] = pre @ ''-plugin'' # arg # post \<and>
      (let p = fold plugin_arg (option_split arg) plugin_globals in
       pg_shmem_name p = ''shm'' \<and> pg_detailed p = False \<and> pg_cache_ops p = cfg_sst_window_cache ?cfg \<and>
       (pg_mmio_base p, pg_mmio_size p) = (case mmio_aperture sample_env of Some bs \<Rightarrow> bs | None \<Rightarrow> (0, 0)) \<and>
       pg_win_size p = cfg_sst_window_size ?cfg \<and> (pg_win_size p \<noteq> 0 \<longrightarrow> pg_win_base p = cfg_sst_window_base ?cfg) \<and>
       (\<not> cfg_system_mode ?cfg \<and> pg_mmio_size p \<noteq> 0 \<longrightarrow>
          (\<exists>spec rest. post = ''-sst-mmio-range'' # spec # rest \<and>
             (\<forall>r. range_fields (strtok (CHR '','') spec) r =
                Inr (r\<lparr>rg_shmname := ''shm'', rg_base := pg_mmio_base p, rg_size := pg_mmio_size p\<rparr>)))))"
    show ?thesis
      by (rule exI [of _ pre], rule exI [of _ arg], rule exI [of _ post]) (use ** in \<open>simp add: Let_def aperture\<close>)
  qed
qed

end
