(* ===== verification/Quetz_Tunnel.thy ===== *)
theory Quetz_Tunnel
  imports Quetz_Launch Quetz_Ipc_Client
begin

text \<open>
  The simulator's side of the shared segment: initialising it (\<open>QuetzTunnel::initialize\<close> in \<open>src/quetz_shmem.h\<close> with
  \<open>src/quetz_sync_manager.h\<close> and \<open>src/quetz_statistics_collector.h\<close>), registering the native regions and spawning QEMU
  (\<open>src/quetz_qemu_frontend.cc\<close>), and reading trace commands (\<open>src/quetz_core_backend.cc\<close>). A segment prepared this way is
  accepted by the IPC client of QEMU wherever QEMU maps it.
\<close>

section \<open>Initialising the segment\<close>

definition sync_initMaster :: "u64 \<Rightarrow> shared_data \<Rightarrow> shared_data" where
  "sync_initMaster n sh = sh\<lparr>num_cores := n, child_attached := 0\<rparr>"

definition announceAttach :: "shared_data \<Rightarrow> shared_data" where
  "announceAttach sh = sh\<lparr>child_attached := child_attached sh + 1\<rparr>"

definition childAttached :: "shared_data \<Rightarrow> bool" where
  "childAttached sh \<longleftrightarrow> child_attached sh \<noteq> 0"

definition statistics_initMaster :: "shared_data \<Rightarrow> shared_data" where
  "statistics_initMaster sh = sh\<lparr>sim_time := 0, sim_cycles := 0\<rparr>"

definition updateSimTime :: "u64 \<Rightarrow> shared_data \<Rightarrow> shared_data" where
  "updateSimTime ns sh = sh\<lparr>sim_time := ns\<rparr>"

definition incrementSimCycles :: "shared_data \<Rightarrow> shared_data" where
  "incrementSimCycles sh = sh\<lparr>sim_cycles := sim_cycles sh + 1\<rparr>"

text \<open>The statistics a collector is bound to, if any: which of them are registered, and what was added to them. Unregistered ones are
  skipped.\<close>

record stats_collector =
  sc_core_stats :: "((core_stat \<Rightarrow> bool) \<times> stat_trace) option"

definition bindCoreStats :: "(core_stat \<Rightarrow> bool) \<times> stat_trace \<Rightarrow> stats_collector \<Rightarrow> stats_collector" where
  "bindCoreStats st c = c\<lparr>sc_core_stats := Some st\<rparr>"

definition record_stat :: "core_stat \<Rightarrow> u64 \<Rightarrow> stats_collector \<Rightarrow> stats_collector" where
  "record_stat k v c = c\<lparr>sc_core_stats := map_option (\<lambda>(reg, st). (reg, if reg k then st @ [(k, v)] else st)) (sc_core_stats c)\<rparr>"

definition recordCycle :: "stats_collector \<Rightarrow> stats_collector" where "recordCycle = record_stat S_cycles 1"

definition recordActiveCycle :: "stats_collector \<Rightarrow> stats_collector" where "recordActiveCycle = record_stat S_active_cycles 1"

definition recordInsnCount :: "stats_collector \<Rightarrow> stats_collector" where "recordInsnCount = record_stat S_insn_count 1"

definition recordNoop :: "stats_collector \<Rightarrow> stats_collector" where "recordNoop = record_stat S_noop_count 1"

definition recordReadLatency :: "u64 \<Rightarrow> stats_collector \<Rightarrow> stats_collector" where "recordReadLatency lat = record_stat S_read_lat lat"

definition recordWriteLatency :: "u64 \<Rightarrow> stats_collector \<Rightarrow> stats_collector" where "recordWriteLatency lat = record_stat S_write_lat lat"

definition recordStallCycle :: "stats_collector \<Rightarrow> stats_collector" where "recordStallCycle = record_stat S_stall_cycles 1"

definition recordComputeStallCycle :: "stats_collector \<Rightarrow> stats_collector" where "recordComputeStallCycle = record_stat S_compute_stall_cycles 1"

definition recordIntCompute :: "stats_collector \<Rightarrow> stats_collector" where "recordIntCompute = record_stat S_int_compute 1"

definition recordFpCompute :: "stats_collector \<Rightarrow> stats_collector" where "recordFpCompute = record_stat S_fp_compute 1"

definition recordVecCompute :: "stats_collector \<Rightarrow> stats_collector" where "recordVecCompute = record_stat S_vec_compute 1"

definition recordBranch :: "stats_collector \<Rightarrow> stats_collector" where "recordBranch = record_stat S_branch 1"

text \<open>The body of the loop over the mailbox rows.\<close>

definition clear_row :: "nat \<Rightarrow> shared_data \<Rightarrow> shared_data" where
  "clear_row i sh =
     (let sh1 = the (clearIrqSlots (clearSlot (Some sh) (of_nat i)) (of_nat i))
      in sh1\<lparr>cpu_reset_epoch := (cpu_reset_epoch sh1)(i := 0)\<rparr>)"

definition zero_storage :: "shared_data \<Rightarrow> shared_data" where
  "zero_storage sh =
     sh\<lparr>native_bytes := (\<lambda>x. if unat native_storage_begin \<le> x \<and> x < unat native_storage_end then 0 else native_bytes sh x)\<rparr>"

definition tunnel_initialize :: "bool \<Rightarrow> u64 \<Rightarrow> shared_data \<Rightarrow> shared_data" where
  "tunnel_initialize master num_buffers sh =
     (if \<not> master then sh
      else
        let sh1 = fold clear_row [0..<unat QUETZ_MAX_MMIO_VCORES] (statistics_initMaster (sync_initMaster num_buffers sh));
            sh2 = zero_storage (sh1\<lparr>irq_generation := 0, native_region_count := 0\<rparr>)
        in sh2\<lparr>shm_magic := QUETZ_SHM_MAGIC\<rparr>)"

section \<open>The frontend\<close>

text \<open>Registration and launch; \<open>base\<close> is the address the simulator maps the segment at.\<close>

definition frontend_spawn ::
    "string \<Rightarrow> bool \<Rightarrow> (string \<Rightarrow> bool) \<Rightarrow> (string \<Rightarrow> bool) \<Rightarrow> (string \<Rightarrow> string option) \<Rightarrow> u32 option \<Rightarrow> u64 \<Rightarrow> quetz_config \<Rightarrow>
     string \<Rightarrow> bool \<Rightarrow> launcher \<Rightarrow> shared_data \<Rightarrow> (launcher \<times> child_image \<times> shared_data) result" where
  "frontend_spawn dir readable freopen_ok exec_ok env fork_pid base cfg shmname detailed l sh =
     (let rs = cfg_cache_native_regions cfg in
      case quetz_configure_native_regions base sh (Some rs) (of_nat (length rs)) of (ok, sh') \<Rightarrow>
        if \<not> ok then Inl (Fatal ''Invalid shared native RAM registration'')
        else res_bind (spawn dir readable freopen_ok exec_ok env fork_pid cfg shmname detailed l)
               (\<lambda>(l', child). Inr (l', child, sh')))"

section \<open>Trace commands\<close>

record tunnel_backend =
  tb_deferred :: "nat \<Rightarrow> quetz_command list"
  tb_rings :: "nat \<Rightarrow> quetz_command list"

definition readCommandNB :: "u32 \<Rightarrow> tunnel_backend \<Rightarrow> tunnel_backend \<times> quetz_command option" where
  "readCommandNB core_id b =
     (let i = unat core_id in
      if core_id \<ge> QUETZ_MAX_MMIO_VCORES then (b, None)
      else case tb_deferred b i of
             c # cs \<Rightarrow> (b\<lparr>tb_deferred := (tb_deferred b)(i := cs)\<rparr>, Some c)
           | [] \<Rightarrow>
               (case tb_rings b i of
                  c # cs \<Rightarrow> (b\<lparr>tb_rings := (tb_rings b)(i := cs)\<rparr>, Some c)
                | [] \<Rightarrow> (b, None)))"

section \<open>The initialised segment\<close>

lemma clear_row_eq:
  assumes "i < 256"
  shows "clear_row i sh = sh\<lparr>mmio_slot := (mmio_slot sh)(i := zero_slot),
    irq_slot := (irq_slot sh)(i := (\<lambda>l. if l < 64 then zero_irq else irq_slot sh i l)), cpu_reset_epoch := (cpu_reset_epoch sh)(i := 0)\<rparr>"
proof -
  have "unat (of_nat i :: u32) = i" "\<not> (of_nat i :: u32) \<ge> 256"
    using assms by (simp_all add: unsigned_of_nat take_bit_nat_eq_self word_le_nat_alt)
  then show ?thesis
    by (intro shared_data.equality)
      (auto simp: clear_row_def clearSlot_def clearIrqSlots_def ipc_constants zero_slot_def zero_irq_def fun_eq_iff)
qed

lemma clear_rows_eq:
  "n \<le> 256 \<Longrightarrow> fold clear_row [0..<n] sh = sh\<lparr>mmio_slot := (\<lambda>i. if i < n then zero_slot else mmio_slot sh i),
    irq_slot := (\<lambda>i l. if i < n \<and> l < 64 then zero_irq else irq_slot sh i l),
    cpu_reset_epoch := (\<lambda>i. if i < n then 0 else cpu_reset_epoch sh i)\<rparr>"
proof (induction n)
  case (Suc n)
  then show ?case
    by (intro shared_data.equality) (auto simp: clear_row_eq fun_eq_iff)
qed simp

lemma tunnel_initialize_fields:
  "num_cores (tunnel_initialize True n sh) = n" "child_attached (tunnel_initialize True n sh) = 0"
  "shm_magic (tunnel_initialize True n sh) = QUETZ_SHM_MAGIC" "native_regions (tunnel_initialize True n sh) = native_regions sh"
  "native_region_count (tunnel_initialize True n sh) = 0" "irq_generation (tunnel_initialize True n sh) = 0"
  "v < 256 \<Longrightarrow> k < 64 \<Longrightarrow> irq_slot (tunnel_initialize True n sh) v k = zero_irq"
  "v < 256 \<Longrightarrow> mmio_slot (tunnel_initialize True n sh) v = zero_slot"
  by (simp_all add: tunnel_initialize_def Let_def ipc_constants clear_rows_eq zero_storage_def statistics_initMaster_def sync_initMaster_def)

text \<open>Validity does not depend on where the segment is mapped, as long as pages stay pages.\<close>

lemma native_regions_valid_move:
  "unat base mod 4096 = unat base' mod 4096 \<Longrightarrow> quetz_native_regions_valid base sh \<longleftrightarrow> quetz_native_regions_valid base' sh"
proof -
  assume "unat base mod 4096 = unat base' mod 4096"
  then have "(unat base + k) mod 4096 = (unat base' + k) mod 4096" for k
    by (metis mod_add_left_eq)
  then show ?thesis
    by (simp add: quetz_native_regions_valid_def native_region_ok_nat)
qed

lemma configured_segment:
  assumes "quetz_configure_native_regions base sh (Some rs) (of_nat (length rs)) = (True, sh')" "length rs \<le> 2" "length (native_regions sh) = 2"
  shows "sh' = sh\<lparr>native_region_count := of_nat (length rs), native_regions := native_regions sh'\<rparr>"
    "quetz_native_regions_valid base sh'" "i < length rs \<Longrightarrow> native_regions sh' ! i = place_native_region base i (rs ! i)"
proof -
  have n: "unat (of_nat (length rs) :: u32) = length rs"
    using assms(2) by (simp add: unsigned_of_nat take_bit_nat_eq_self)
  show "sh' = sh\<lparr>native_region_count := of_nat (length rs), native_regions := native_regions sh'\<rparr>"
    "quetz_native_regions_valid base sh'"
    using assms(1) by (auto simp: quetz_configure_native_regions_def Let_def split: if_splits)
  show "native_regions sh' ! i = place_native_region base i (rs ! i)" if "i < length rs"
    using assms(1-3) n that
    by (auto simp: quetz_configure_native_regions_def Let_def copy_into_def nth_append split: if_splits)
qed

lemma publish_epochs_more [simp]:
  "num_cores (publish_epochs es vs sh) = num_cores sh" "irq_slot (publish_epochs es vs sh) = irq_slot sh"
  by (induction vs arbitrary: sh) (simp_all add: store_epoch_def)

lemma native_regions_valid_cong:
  "native_region_count sh = native_region_count sh' \<Longrightarrow> native_regions sh = native_regions sh' \<Longrightarrow>
    quetz_native_regions_valid base sh \<longleftrightarrow> quetz_native_regions_valid base sh'"
  by (simp add: quetz_native_regions_valid_def)

text \<open>In a valid table a region is found by its guest base and size.\<close>

lemma valid_region_found:
  assumes "quetz_native_regions_valid base sh" "i < unat (native_region_count sh)"
    and "unat base mod 4096 = unat base' mod 4096"
  shows "quetz_ipc_native_ram base' (Some sh) (nr_base (native_regions sh ! i)) (nr_size (native_regions sh ! i)) =
    Some (unat (nr_offset (native_regions sh ! i)))"
proof -
  let ?same = "\<lambda>k. nr_base (native_regions sh ! k) = nr_base (native_regions sh ! i) \<and>
    nr_size (native_regions sh ! k) = nr_size (native_regions sh ! i)"
  have count: "native_region_count sh \<le> 2"
    using assms(1) by (simp add: quetz_native_regions_valid_def ipc_constants)
  have same_overlap: "native_regions_overlap (native_regions sh ! a) (native_regions sh ! b)"
    if "?same a" "?same b" "native_region_ok base (native_regions sh ! a)" "native_region_ok base (native_regions sh ! b)" for a b
    using that native_regions_overlap_nat [OF that(3,4)] by (auto simp: native_region_ok_nat guest_region_ok_def)
  have unique: "k = i" if "?same k" "k < unat (native_region_count sh)" for k
    using that assms(1,2) same_overlap [of k i] same_overlap [of i k]
    by (cases k i rule: linorder_cases) (auto simp: quetz_native_regions_valid_def)
  obtain k where k: "find ?same [0..<unat (native_region_count sh)] = Some k"
    using assms(2) by (cases "find ?same [0..<unat (native_region_count sh)]") (auto simp: find_None_iff)
  have "?same k" "k < unat (native_region_count sh)"
    using k by (auto dest: find_SomeD)
  then have "k = i"
    by (rule unique)
  moreover have "i < 2"
    using assms(2) count by (simp add: word_le_nat_alt)
  then have "unat (of_nat i :: u32) = i"
    by (simp add: unsigned_of_nat take_bit_nat_eq_self)
  ultimately show ?thesis
    using k assms native_regions_valid_move [OF assms(3), of sh]
    by (simp add: quetz_ipc_native_ram_def quetz_native_ram_def word_le_nat_alt)
qed

lemma map_shmem_accepts:
  assumes "so_size so = Some n" "n > 0" "so_hdr_mapped so" "\<not> header_rejected (so_shmSegSize so) (word_of_int n) (so_offset so)"
    and "so_map so = Some addr" "shm_magic (segs (so_seg so)) = QUETZ_SHM_MAGIC"
    and "quetz_native_regions_valid (addr + so_offset so) (segs (so_seg so))"
  obtains cl where "map_shmem (Some so) segs = Some cl" "cl_seg cl = so_seg so" "cl_base cl = addr + so_offset so"
  using that assms by (auto simp: map_shmem_def Let_def)

section \<open>Properties\<close>

text \<open>C19. A segment prepared by the simulator is accepted by QEMU: initialising it and registering the regions the configuration
  parsed always succeeds, and the IPC client attaches to it wherever it is mapped (at the same offset in a page), sees the
  configured number of CPUs and no interrupt, and finds every region at the bytes the simulator uses for it.\<close>

theorem launched_segment_attaches:
  assumes parsed: "parseNativeRegions spec = Inr (cfg_cache_native_regions cfg)"
    and raw: "length (native_regions raw) = 2" "unat base + 341080 \<le> 2 ^ 64"
    and launched: "spawn dir readable freopen_ok exec_ok env fork_pid cfg shmname detailed l = Inr (l', child)"
    and object: "so_size so = Some n" "n > 0" "so_hdr_mapped so" "\<not> header_rejected (so_shmSegSize so) (word_of_int n) (so_offset so)"
      "so_map so = Some addr" "unat base mod 4096 = unat (addr + so_offset so) mod 4096"
  shows "\<exists>sh. frontend_spawn dir readable freopen_ok exec_ok env fork_pid base cfg shmname detailed l (tunnel_initialize True cores raw) =
      Inr (l', child, sh) \<and>
    (segments p (so_seg so) = sh \<longrightarrow>
      (\<exists>p' seg. quetz_ipc_attach (Some h) (Some so) p = (p', Some h) \<and> client_segment p' (Some h) = Some seg \<and>
         num_cores seg = cores \<and> (\<forall>v < 256. \<forall>k < 64. irq_slot seg v k = zero_irq) \<and>
         (\<forall>i < length (cfg_cache_native_regions cfg). \<exists>off. quetz_native_ram base sh (of_nat i) = Some off \<and>
            quetz_ipc_native_ram (addr + so_offset so) (Some seg)
              (nr_base (cfg_cache_native_regions cfg ! i)) (nr_size (cfg_cache_native_regions cfg ! i)) = Some off)))"
proof -
  define rs where "rs = cfg_cache_native_regions cfg"
  let ?init = "tunnel_initialize True cores raw"
  have ok: "regions_ok rs" "length rs \<le> 2"
    using parsed parse_regions_sound [of spec "[]" rs] by (simp_all add: rs_def regions_ok_def parseNativeRegions_def)
  have "fst (quetz_configure_native_regions base ?init (Some rs) (of_nat (length rs)))"
    using configure_accepts [OF raw(2), of ?init rs] raw(1) ok(1) by (simp add: tunnel_initialize_fields)
  then obtain sh where conf: "quetz_configure_native_regions base ?init (Some rs) (of_nat (length rs)) = (True, sh)"
    by (cases "quetz_configure_native_regions base ?init (Some rs) (of_nat (length rs))") auto
  note seg = configured_segment [OF conf ok(2)]
  have valid: "quetz_native_regions_valid base sh" "quetz_native_regions_valid (addr + so_offset so) sh"
    using seg(2) raw(1) native_regions_valid_move [OF object(6)] by (simp_all add: tunnel_initialize_fields)
  have fields: "shm_magic sh = QUETZ_SHM_MAGIC" "num_cores sh = cores" "native_region_count sh = of_nat (length rs)"
    "\<And>v k. v < 256 \<Longrightarrow> k < 64 \<Longrightarrow> irq_slot sh v k = zero_irq"
    by (subst seg(1), simp add: tunnel_initialize_fields raw(1), simp add: tunnel_initialize_fields)+
  have place: "nr_base (native_regions sh ! i) = nr_base (rs ! i)" "nr_size (native_regions sh ! i) = nr_size (rs ! i)" if "i < length rs" for i
    using seg(3) [of i] that raw(1) by (simp_all add: tunnel_initialize_fields place_native_region_def)
  have count: "unat (native_region_count sh) = length rs"
    using ok(2) fields(3) by (simp add: unsigned_of_nat take_bit_nat_eq_self)
  have "\<exists>p' seg. quetz_ipc_attach (Some h) (Some so) p = (p', Some h) \<and> client_segment p' (Some h) = Some seg \<and>
      num_cores seg = cores \<and> (\<forall>v < 256. \<forall>k < 64. irq_slot seg v k = zero_irq) \<and>
      (\<forall>i < length rs. \<exists>off. quetz_native_ram base sh (of_nat i) = Some off \<and>
        quetz_ipc_native_ram (addr + so_offset so) (Some seg) (nr_base (rs ! i)) (nr_size (rs ! i)) = Some off)"
    if p: "segments p (so_seg so) = sh"
  proof -
    obtain cl where cl: "map_shmem (Some so) (segments p) = Some cl" "cl_seg cl = so_seg so" "cl_base cl = addr + so_offset so"
      using map_shmem_accepts [of so n addr "segments p"] object fields(1) valid(2) p by metis
    define seg' where "seg' = publish_epochs (reset_epochs p) [0..<unat QUETZ_MAX_MMIO_VCORES] sh"
    have ram: "\<exists>off. quetz_native_ram base sh (of_nat i) = Some off \<and>
        quetz_ipc_native_ram (addr + so_offset so) (Some seg') (nr_base (rs ! i)) (nr_size (rs ! i)) = Some off" if "i < length rs" for i
    proof -
      have same: "quetz_native_regions_valid base seg'" "native_regions seg' = native_regions sh" "native_region_count seg' = native_region_count sh"
        using valid(1) native_regions_valid_cong [of seg' sh base] by (simp_all add: seg'_def)
      have "unat (of_nat i :: u32) = i"
        using that ok(2) by (simp add: unsigned_of_nat take_bit_nat_eq_self)
      then show ?thesis
        using valid_region_found [OF same(1) _ object(6), of i] that place [OF that] count same valid(1)
        by (simp add: quetz_native_ram_def word_le_nat_alt)
    qed
    show ?thesis
      using cl p ram fields(2,4)
      by (intro exI [of _ "fst (quetz_ipc_attach (Some h) (Some so) p)"] exI [of _ seg'])
        (simp add: quetz_ipc_attach_def client_segment_def seg'_def)
  qed
  then show ?thesis
    using conf launched by (auto simp: frontend_spawn_def rs_def [symmetric])
qed

definition sample_config :: quetz_config where
  "sample_config = read_params sample_conv (\<lambda>_. None) (map_of [(''executable'', ''a.out''), (''qemu_plugin'', ''p.so'')]) [new_region 0x1000 0x1000]"

definition sample_spawn :: "launcher \<times> child_image" where
  "sample_spawn = (QemuLauncher\<lparr>ln_pid := 42\<rparr>, Child_exit 127)"

definition sample_segment :: shm_object where
  "sample_segment = \<lparr>so_size = Some 400000, so_hdr_mapped = True, so_shmSegSize = 400000, so_offset = 0x1000,
     so_map = Some 0x7f0000000000, so_seg = 3\<rparr>"

definition sample_raw :: shared_data where
  "sample_raw = \<lparr>num_cores = 0, sim_time = 0, sim_cycles = 0, child_attached = 0, mmio_slot = (\<lambda>_. zero_slot), mmio_req = (\<lambda>_. zero_req),
     irq_slot = (\<lambda>_ _. zero_irq), irq_generation = 0, cpu_reset_epoch = (\<lambda>_. 0), native_region_count = 0,
     native_regions = [zero_region, zero_region], native_bytes = (\<lambda>_. 0), shm_magic = 0\<rparr>"

definition sample_process :: "shared_data \<Rightarrow> ipc_process" where
  "sample_process sh = \<lparr>reset_clients = [], reset_epochs = (\<lambda>_. 0), clients = (\<lambda>_. None), segments = (\<lambda>_. sh)\<rparr>"

lemma sample_config_regions: "parseNativeRegions (regions_text [new_region 0x1000 0x1000]) = Inr (cfg_cache_native_regions sample_config)"
proof -
  have "regions_ok [new_region 0x1000 0x1000]"
    by (simp add: regions_ok_def new_region_def guest_region_ok_def)
  then show ?thesis
    using parse_regions_text [of "[]" "[new_region 0x1000 0x1000]"]
    by (simp add: parseNativeRegions_def sample_config_def read_params_def Let_def)
qed

lemma sample_spawns:
  "spawn [] False (\<lambda>_. True) (\<lambda>_. False) (\<lambda>_. None) (Some 42) sample_config ''shm'' False QemuLauncher = Inr sample_spawn"
proof -
  have argv: "launch_argv [] False (\<lambda>_. None) sample_config ''shm'' False = Inr [''qemu-riscv64'', ''-plugin'', ''p.so,shmname=shm'', ''a.out'']"
    by code_simp
  have files: "cfg_stdin_file sample_config = []" "cfg_stdout_file sample_config = []" "cfg_stderr_file sample_config = []"
    by (simp_all add: sample_config_def read_params_def Let_def find_param_def)
  show ?thesis
    by (simp add: spawn_def argv run_child_def files sample_spawn_def)
qed

theorem launched_segment_attaches_witness:
  "\<exists>sh p'. frontend_spawn [] False (\<lambda>_. True) (\<lambda>_. False) (\<lambda>_. None) (Some 42) 0x5000 sample_config ''shm'' False QemuLauncher
       (tunnel_initialize True 2 sample_raw) = Inr (fst sample_spawn, snd sample_spawn, sh) \<and>
     quetz_ipc_attach (Some 7) (Some sample_segment) (sample_process sh) = (p', Some 7)"
proof -
  have raw: "length (native_regions sample_raw) = 2" "unat (0x5000 :: u64) + 341080 \<le> 2 ^ 64"
    by (simp_all add: sample_raw_def)
  have spawned: "spawn [] False (\<lambda>_. True) (\<lambda>_. False) (\<lambda>_. None) (Some 42) sample_config ''shm'' False QemuLauncher =
      Inr (fst sample_spawn, snd sample_spawn)"
    by (simp add: sample_spawns)
  have object: "so_size sample_segment = Some 400000" "(400000 :: int) > 0" "so_hdr_mapped sample_segment"
    "\<not> header_rejected (so_shmSegSize sample_segment) (word_of_int 400000) (so_offset sample_segment)"
    "so_map sample_segment = Some 0x7f0000000000"
    "unat (0x5000 :: u64) mod 4096 = unat (0x7f0000000000 + so_offset sample_segment) mod 4096"
    by (simp_all add: sample_segment_def header_rejected_def sizeof_internal_def sizeof_shared_def native_storage_eval)
  note * = launched_segment_attaches [OF sample_config_regions raw spawned object, of 2]
  obtain sh where sh: "frontend_spawn [] False (\<lambda>_. True) (\<lambda>_. False) (\<lambda>_. None) (Some 42) 0x5000 sample_config ''shm'' False QemuLauncher
       (tunnel_initialize True 2 sample_raw) = Inr (fst sample_spawn, snd sample_spawn, sh)"
    using * by blast
  have "\<exists>p'. quetz_ipc_attach (Some 7) (Some sample_segment) (sample_process sh) = (p', Some 7)"
    using * [of "sample_process sh" 7] unfolding sh by (auto simp: sample_process_def)
  then show ?thesis
    using sh by blast
qed

end
