(* ===== verification/Quetz_Memory_Map.thy ===== *)
theory Quetz_Memory_Map
  imports Quetz_Config Quetz_Region
begin

text \<open>
  From a configuration to the memory map of the cores: the construction of region handlers by type
  (\<open>src/quetz_region_handlers.cc\<close>) and \<open>QuetzCPU::loadRegionHandlers\<close> (\<open>src/quetzcpu.cc\<close>). Together with the presets and the
  access strategy this gives, for every platform, what happens to every access and which text its UART prints.
\<close>

section \<open>Handlers from parameters\<close>

definition BoundedRegionHandler :: "param_conv \<Rightarrow> sst_params \<Rightarrow> handler_kind \<Rightarrow> region_handler" where
  "BoundedRegionHandler pc ps k = mk_handler (find_param (pc_u64 pc) ps ''start'' 0) (find_param (pc_u64 pc) ps ''end'' 0) k"

text \<open>The types the element library registers; the simulator refuses any other name.\<close>

definition new_region_handler :: "param_conv \<Rightarrow> string \<Rightarrow> sst_params \<Rightarrow> region_handler result" where
  "new_region_handler pc type ps =
     (let n = find_param (pc_u32 pc) ps; mk = BoundedRegionHandler pc ps in
      if type = ''quetz.ForwardRegionHandler'' then Inr (mk HForward)
      else if type = ''quetz.FilteredRegionHandler'' then Inr (mk HFiltered)
      else if type = ''quetz.UartRegionHandler'' then Inr (mk (new_uart (n ''tx_offset'' 0)))
      else if type = ''quetz.GpuTraceRegionHandler''
        then Inr (mk (new_gpu_trace (n ''doorbell_offset'' 0) (n ''status_offset'' 8) (n ''max_payload_log'' 8)))
      else if type = ''quetz.MmioForwardRegionHandler'' then Inr (mk HMmioForward)
      else if type = ''quetz.TestFinisherRegionHandler'' then Inr (mk (new_test_finisher (n ''pass_value'' 0x5555)))
      else Inl (Fatal ''unknown region handler type''))"

definition preset_params :: "handler_preset \<Rightarrow> sst_params" where
  "preset_params p = fold (\<lambda>(k, v) m. m(k \<mapsto> v)) (hp_params p) (\<lambda>_. None)"

text \<open>\<open>slots\<close> are the handlers of a populated \<open>region_handler\<close> slot, in slot order.\<close>

definition loadRegionHandlers :: "param_conv \<Rightarrow> region_handler option list \<Rightarrow> quetz_config \<Rightarrow> region_handler option list result" where
  "loadRegionHandlers pc slots cfg =
     (if slots \<noteq> [] then Inr slots
      else res_bind (res_map (\<lambda>p. new_region_handler pc (hp_type p) (preset_params p)) (cfg_region_handlers cfg)) (\<lambda>hs. Inr (map Some hs)))"

section \<open>The maps of the platforms\<close>

text \<open>The numbers of parameters: SST reads a C literal as its value.\<close>

definition sst_numbers :: "param_conv \<Rightarrow> bool" where
  "sst_numbers pc \<longleftrightarrow> (\<forall>s n. stoull s = Inr (n, []) \<longrightarrow> pc_u64 pc s = n \<and> (n < 0x100000000 \<longrightarrow> pc_u32 pc s = ucast n))"

definition filtered_range :: "string \<Rightarrow> (u64 \<times> u64) option" where
  "filtered_range name =
     (if name = ''riscv64_virt'' \<or> name = ''riscv64_virt_uart'' then Some (0, 0x7FFFFFFF)
      else if name = ''arm_m7'' then Some (0x40000000, 0xFFFFFFFF) else None)"

definition platform_action :: "string \<Rightarrow> bool \<Rightarrow> quetz_command \<Rightarrow> mem_action" where
  "platform_action name filter_unmatched cmd =
     (if qc_cmd cmd \<noteq> cmd_code CMD_READ \<and> qc_cmd cmd \<noteq> cmd_code CMD_WRITE then FORWARD
      else if filter_unmatched \<or> (case filtered_range name of Some (s, e) \<Rightarrow> s \<le> qc_addr cmd \<and> qc_addr cmd \<le> e | None \<Rightarrow> False) then CONSUME
      else FORWARD)"

definition platform_uart :: "string \<Rightarrow> quetz_command list \<Rightarrow> u8 list" where
  "platform_uart name cmds =
     (if name = ''riscv64_virt_uart''
      then map (\<lambda>c. qc_data c ! 0) (filter (\<lambda>c. qc_cmd c = cmd_code CMD_WRITE \<and> qc_addr c = 0x10000000 \<and> 1 \<le> qc_size c) cmds) else [])"

definition platform_table :: "string \<Rightarrow> u8 list \<Rightarrow> region_handler option list" where
  "platform_table name buf =
     (if name = ''riscv64_virt_uart'' then [Some (mk_handler 0x10000000 0x10000FFF (HUart 0 buf))] else []) @
     (case filtered_range name of Some (s, e) \<Rightarrow> [Some (mk_handler s e HFiltered)] | None \<Rightarrow> [])"

lemma literals:
  "stoull ''0x0'' = Inr (0, [])" "stoull ''0x7FFFFFFF'' = Inr (0x7FFFFFFF, [])" "stoull ''0x40000000'' = Inr (0x40000000, [])"
  "stoull ''0xFFFFFFFF'' = Inr (0xFFFFFFFF, [])" "stoull ''0x10000000'' = Inr (0x10000000, [])"
  "stoull ''0x10000FFF'' = Inr (0x10000FFF, [])" "stoull ''0'' = Inr (0, [])"
  by code_simp+

lemma platform_loads:
  assumes "sst_numbers pc" "profile \<in> set quetzPlatformRegistry" "cfg_region_handlers cfg = pp_region_handlers profile"
  shows "loadRegionHandlers pc [] cfg = Inr (platform_table (pp_name profile) [])"
proof -
  have num: "pc_u64 pc s = n" "n < 0x100000000 \<Longrightarrow> pc_u32 pc s = ucast n" if "stoull s = Inr (n, [])" for s n
    using assms(1) that by (auto simp: sst_numbers_def)
  note nums = literals [THEN num(1)] num(2) [OF literals(7)]
  show ?thesis
    using assms(2,3)
    by (auto simp: quetzPlatformRegistry_def loadRegionHandlers_def filtered_preset_def uart0_preset_def new_region_handler_def
        preset_params_def BoundedRegionHandler_def find_param_def nums platform_table_def filtered_range_def new_uart_def)
qed

lemma find_two: "findHandler [Some a, Some b] addr = (if handler_owns a addr then Some 0 else if handler_owns b addr then Some 1 else None)"
  and find_one: "findHandler [Some a] addr = (if handler_owns a addr then Some 0 else None)"
  and find_none: "findHandler [] addr = None"
  by (simp_all add: findHandler_def upt_rec)


lemma platform_access:
  "\<exists>st. handleMemoryAccess \<lparr>ma_table = platform_table name buf, ma_filter_unmatched = unm\<rparr> c =
     (\<lparr>ma_table = platform_table name (buf @ platform_uart name [c]), ma_filter_unmatched = unm\<rparr>, st, platform_action name unm c)"
proof (cases "qc_cmd c = cmd_code CMD_READ \<or> qc_cmd c = cmd_code CMD_WRITE")
  case True
  have in_range: "0x10000000 \<le> a \<and> a \<le> 0x10000FFF \<Longrightarrow> a \<le> (0x7FFFFFFF :: u64)" for a by (simp add: word_le_nat_alt)
  have start: "(0x10000000 :: u64) \<le> 0x10000FFF" by simp
  consider (uart) "name = ''riscv64_virt_uart''" | (filtered) s e where "name \<noteq> ''riscv64_virt_uart''" "filtered_range name = Some (s, e)"
    | (plain) "name \<noteq> ''riscv64_virt_uart''" "filtered_range name = None" by (cases "filtered_range name") auto
  then show ?thesis
  proof cases
    case uart
    show ?thesis
    proof (cases "0x10000000 \<le> qc_addr c \<and> qc_addr c \<le> 0x10000FFF")
      case in_uart: True
      then show ?thesis using True in_range [OF in_uart]
        by (auto simp: uart handleMemoryAccess_def platform_table_def filtered_range_def find_two handler_owns_def platform_action_def platform_uart_def
            onRead_def onWrite_def uart_onRead_def uart_onWrite_def mk_handler_def)
    next
      case False
      then have "qc_addr c \<noteq> 0x10000000" using start by auto
      then show ?thesis using True False
        by (auto simp: uart handleMemoryAccess_def platform_table_def filtered_range_def find_two handler_owns_def platform_action_def platform_uart_def
            onRead_def onWrite_def filtered_onRead_def filtered_onWrite_def mk_handler_def)
    qed
  next
    case (filtered s e)
    then show ?thesis using True
      by (auto simp: handleMemoryAccess_def platform_table_def find_one handler_owns_def platform_action_def platform_uart_def
          onRead_def onWrite_def filtered_onRead_def filtered_onWrite_def mk_handler_def)
  next
    case plain
    then show ?thesis using True
      by (auto simp: handleMemoryAccess_def platform_table_def find_none platform_action_def platform_uart_def)
  qed
next
  case False
  then show ?thesis by (auto simp: handleMemoryAccess_def platform_action_def platform_uart_def)
qed

lemma platform_run:
  "\<exists>st. run_accesses \<lparr>ma_table = platform_table name buf, ma_filter_unmatched = unm\<rparr> cs =
     (\<lparr>ma_table = platform_table name (buf @ platform_uart name cs), ma_filter_unmatched = unm\<rparr>, st, map (platform_action name unm) cs)"
proof (induction cs arbitrary: buf)
  case Nil
  then show ?case by (simp add: platform_uart_def)
next
  case (Cons c cs)
  have u: "platform_uart name (c # cs) = platform_uart name [c] @ platform_uart name cs" by (simp add: platform_uart_def)
  from platform_access [of name buf unm c] Cons.IH [of "buf @ platform_uart name [c]"] show ?case
    unfolding u by (auto simp del: append_assoc simp: append_assoc [symmetric])
qed

lemma platform_finish:
  "access_finish \<lparr>ma_table = platform_table name buf, ma_filter_unmatched = unm\<rparr> =
     (if name = ''riscv64_virt_uart'' then uart_finish buf else [])"
  by (auto simp: access_finish_def platform_table_def handler_finish_def mk_handler_def split: option.splits)

lemma config_no_handlers: "config_fromParams pc env ps = Inr cfg \<Longrightarrow> cfg_region_handlers cfg = []"
proof -
  have "cfg_region_handlers (read_params pc env ps regions) = []" for regions by (simp add: read_params_def Let_def)
  then show "config_fromParams pc env ps = Inr cfg \<Longrightarrow> cfg_region_handlers cfg = []"
    unfolding config_fromParams_def Let_def by (simp split: sum.splits if_splits) metis
qed

section \<open>Properties\<close>

text \<open>C3. The memory map of every platform preset. A configuration that names a platform is accepted only with handlers that load, and then, over
  any sequence of commands, exactly the accesses below 2 GB on the two RISC-V machines and from 1 to 4 GB on the Cortex-M7 are kept
  from the memory system (all accesses outside the handlers too, if unmatched accesses are filtered), everything else is forwarded, and what is printed
  at the end is the text the guest stored to the UART of the machine that has one: the first byte of each store to its data register, in
  order, up to the first null byte. That the UART lies inside the filtered range does not hide it.\<close>

theorem platform_memory_map:
  assumes "sst_numbers pc" "manager_fromParams pc env ps = Inr cfg" "find_param (\<lambda>v. v) ps ''platform'' [] = name" "name \<noteq> []"
  shows "\<exists>hs. loadRegionHandlers pc [] cfg = Inr hs \<and>
    (\<forall>unm cmds. \<exists>ma st. run_accesses \<lparr>ma_table = hs, ma_filter_unmatched = unm\<rparr> cmds = (ma, st, map (platform_action name unm) cmds) \<and>
       access_finish ma = uart_finish (platform_uart name cmds))"
proof -
  obtain profile where pf: "findPlatform name = Some profile"
    using assms(2-4) by (auto simp: manager_fromParams_def Let_def split: if_splits)
  then have reg: "profile \<in> set quetzPlatformRegistry" "pp_name profile = name"
    by (auto simp: findPlatform_def find_Some_iff)
  obtain cfg0 where c0: "config_fromParams pc env (applyProfile profile ps) = Inr cfg0"
      "cfg = (if cfg_region_handlers cfg0 = [] then cfg0\<lparr>cfg_region_handlers := pp_region_handlers profile\<rparr> else cfg0)"
    using assms(2,4) unfolding manager_fromParams_def assms(3) Let_def pf by (auto simp: res_bind_Inr_iff)
  have "cfg_region_handlers cfg = pp_region_handlers profile" using config_no_handlers [OF c0(1)] c0(2) by simp
  then have "loadRegionHandlers pc [] cfg = Inr (platform_table name [])"
    using platform_loads [OF assms(1) reg(1)] reg(2) by simp
  moreover have "uart_finish (platform_uart name cmds) = (if name = ''riscv64_virt_uart'' then uart_finish (platform_uart name cmds) else [])" for cmds
    by (simp add: platform_uart_def uart_finish_def)
  ultimately show ?thesis
    using platform_run [of name "[]"] platform_finish [of name] by fastforce
qed

definition c_numbers :: param_conv where
  "c_numbers = \<lparr>pc_bool = (\<lambda>s. s = ''1''), pc_int = (\<lambda>s. ucast (strtoull s)), pc_u32 = (\<lambda>s. ucast (strtoull s)), pc_u64 = strtoull\<rparr>"

lemma c_numbers_ok: "sst_numbers c_numbers"
  by (auto simp: sst_numbers_def c_numbers_def stoull_def strtoull_def split: prod.splits if_splits)

definition uart_params :: sst_params where
  "uart_params = [''platform'' \<mapsto> ''riscv64_virt_uart'', ''executable'' \<mapsto> ''a.elf'']"

lemma uart_config: "is_ok (manager_fromParams c_numbers (\<lambda>_. None) uart_params)"
  by code_simp

text \<open>A guest that prints two letters and reads its RAM.\<close>

theorem platform_memory_map_witness:
  "\<exists>cfg hs. manager_fromParams c_numbers (\<lambda>_. None) uart_params = Inr cfg \<and> loadRegionHandlers c_numbers [] cfg = Inr hs \<and>
     (\<exists>ma st. run_accesses \<lparr>ma_table = hs, ma_filter_unmatched = False\<rparr>
          [sample_cmd CMD_WRITE 0x10000000, sample_cmd CMD_WRITE 0x10000000, sample_cmd CMD_READ 0x80000000] =
        (ma, st, [CONSUME, CONSUME, FORWARD]) \<and> access_finish ma = [Uart_msg [65, 65]])"
proof -
  obtain cfg where cfg: "manager_fromParams c_numbers (\<lambda>_. None) uart_params = Inr cfg" using uart_config by (rule is_okE)
  have "find_param (\<lambda>v. v) uart_params ''platform'' [] = ''riscv64_virt_uart''" by (simp add: find_param_def uart_params_def)
  from platform_memory_map [OF c_numbers_ok cfg this] obtain hs where hs: "loadRegionHandlers c_numbers [] cfg = Inr hs"
    and run: "\<And>cmds. \<exists>ma st. run_accesses \<lparr>ma_table = hs, ma_filter_unmatched = False\<rparr> cmds =
        (ma, st, map (platform_action ''riscv64_virt_uart'' False) cmds) \<and>
       access_finish ma = uart_finish (platform_uart ''riscv64_virt_uart'' cmds)" by auto
  let ?cs = "[sample_cmd CMD_WRITE 0x10000000, sample_cmd CMD_WRITE 0x10000000, sample_cmd CMD_READ 0x80000000]"
  have "map (platform_action ''riscv64_virt_uart'' False) ?cs = [CONSUME, CONSUME, FORWARD]"
      "uart_finish (platform_uart ''riscv64_virt_uart'' ?cs) = [Uart_msg [65, 65]]"
    by (simp_all add: platform_action_def filtered_range_def platform_uart_def uart_finish_def sample_cmd_def)
  with run [of ?cs] cfg hs show ?thesis by metis
qed

end
