(* ===== verification/Quetz_Cpu.thy ===== *)
theory Quetz_Cpu
  imports Quetz_Cpu_Mmio Quetz_Balar_Port Quetz_Pipeline Quetz_Tunnel Quetz_Memory_Map
begin

text \<open>
  The CPU component \<open>QuetzCPU\<close> (\<open>src/quetzcpu.cc\<close>, \<open>src/quetzcpu_mmio_sync.cc\<close>, \<open>src/quetzcore.cc\<close>): construction, the clock
  tick that polls the mailboxes, advances the cores and the accelerator ports and watches the child, the memory responses, the
  interrupts, and the end of the simulation. It composes the mailbox service, the pipelines, the balar ports and the launcher.
  A fatal error is \<open>Inl\<close>; \<open>None\<close> is running out of the fuel \<open>n\<close> of the cache service loop.
\<close>

section \<open>State\<close>

text \<open>Request identifiers are handed out by SST's generator. Each part of the component that creates requests counts its own and
  takes the identifiers of its source.\<close>

datatype request_source = From_core nat | From_cpu | From_port nat

type_synonym request_ids = "request_source \<Rightarrow> nat \<Rightarrow> nat"

record quetz_cpu =
  qp_config :: quetz_config
  qp_mmio :: cpu_mmio
  qp_mem_if :: "nat \<Rightarrow> bool"
  qp_mem_sent :: "(u32 \<times> nat \<times> u64 \<times> u64) list"
  qp_ports :: "balar_port list"
  qp_cores :: "pipeline list"
  qp_handlers :: "region_handler option list"
  qp_backend :: tunnel_backend
  qp_launcher :: launcher
  qp_stop_ticking :: bool
  qp_may_end :: bool
  qp_halted_count :: u32
  qp_child_poll_ticks :: u32
  qp_child_running :: bool

fun opt_bind :: "'a result option \<Rightarrow> ('a \<Rightarrow> 'b result option) \<Rightarrow> 'b result option" where
  "opt_bind None f = None"
| "opt_bind (Some (Inl e)) f = Some (Inl e)"
| "opt_bind (Some (Inr x)) f = f x"

lemma opt_bind_ok_iff: "opt_bind r f = Some (Inr y) \<longleftrightarrow> (\<exists>x. r = Some (Inr x) \<and> f x = Some (Inr y))"
  by (cases "(r, f)" rule: opt_bind.cases) auto

definition on_core :: "nat \<Rightarrow> (pipeline \<Rightarrow> pipeline) \<Rightarrow> quetz_cpu \<Rightarrow> quetz_cpu" where
  "on_core i f c = c\<lparr>qp_cores := (qp_cores c)[i := f (qp_cores c ! i)]\<rparr>"

section \<open>Accelerator ports\<close>

text \<open>The services of \<open>AcceleratorHost\<close>: queries, and effects.\<close>

definition cpu_host :: "quetz_cpu \<Rightarrow> accel_host" where
  "cpu_host c =
     \<lparr>h_has_mem = (\<lambda>v. qp_mem_if c (unat v)), h_drained = (\<lambda>v. isDrained (qp_cores c ! unat v)),
      h_line_size = cfg_cache_line_sz (qp_config c), h_cycles = sim_cycles (cm_shared (qp_mmio c))\<rparr>"

fun host_effect_on :: "host_effect \<Rightarrow> quetz_cpu \<Rightarrow> quetz_cpu" where
  "host_effect_on (H_post v x) c = c\<lparr>qp_mmio := cpu_post (qp_mmio c) v x\<rparr>"
| "host_effect_on (H_flush v rid addr sz) c = c\<lparr>qp_mem_sent := qp_mem_sent c @ [(v, rid, addr, sz)]\<rparr>"
| "host_effect_on (H_mmio v rq) c = c\<lparr>qp_mmio := (qp_mmio c)\<lparr>cm_sent := cm_sent (qp_mmio c) @ [(v, rq)]\<rparr>\<rparr>"
| "host_effect_on (H_stat v s k) c = on_core (unat v) (pl_stat [(s, k)]) c"

text \<open>A call of port \<open>k\<close>: the effects it produced act on the component.\<close>

definition port_effects :: "nat \<Rightarrow> balar_port \<Rightarrow> quetz_cpu \<Rightarrow> quetz_cpu" where
  "port_effects k p' c =
     fold host_effect_on (drop (length (bp_out (qp_ports c ! k))) (bp_out p')) (c\<lparr>qp_ports := (qp_ports c)[k := p']\<rparr>)"

definition hasAsyncInFlight :: "quetz_cpu \<Rightarrow> bool" where
  "hasAsyncInFlight c \<longleftrightarrow> (\<exists>p \<in> set (qp_ports c). hasOutstanding p)"

definition asyncOutstandingForVcpu :: "quetz_cpu \<Rightarrow> u32 \<Rightarrow> bool" where
  "asyncOutstandingForVcpu c v \<longleftrightarrow> (\<exists>p \<in> set (qp_ports c). vcpuHasOutstanding v p)"

section \<open>Construction\<close>

definition mmio_config :: "quetz_config \<Rightarrow> cpu_cfg" where
  "mmio_config cfg =
     \<lparr>cf_vcpu_count = cfg_vcpu_count cfg, cf_sst_window_cache = cfg_sst_window_cache cfg,
      cf_window_big_endian = cfg_window_big_endian cfg, cf_sst_window_base = cfg_sst_window_base cfg,
      cf_sst_window_size = cfg_sst_window_size cfg\<rparr>"

fun add_regions :: "native_ram_region list \<Rightarrow> wbank \<Rightarrow> wbank result" where
  "add_regions [] b = Inr b"
| "add_regions (r # rs) b = res_bind (bank_addRegion b (ucast (nr_base r)) (ucast (nr_size r))) (add_regions rs)"

definition configure_caches :: "quetz_config \<Rightarrow> wbank result" where
  "configure_caches cfg =
     (if \<not> cfg_sst_window_cache cfg then Inr wb_init
      else if \<not> cfg_system_mode cfg \<or> \<not> cfg_window_big_endian cfg
        then Inl (Fatal ''sst_window_cache=1 requires big-endian system mode'')
      else if windowCacheLaunchError (cfg_qemu_extra_args cfg) (cfg_vcpu_count cfg) (cfg_platform_machine cfg) \<noteq> None
        then Inl (Fatal ''sst_window_cache=1'')
      else cache_fatal (res_bind (bank_configure wb_init (cfg_vcpu_count cfg) (cfg_sst_window_base cfg) (cfg_sst_window_size cfg))
             (add_regions (cfg_cache_native_regions cfg))))"

definition core_context :: "quetz_config \<Rightarrow> core_ctx" where
  "core_context cfg =
     \<lparr>max_queue_len = cfg_max_core_queue cfg, max_issue_per_cycle = cfg_max_issue_cyc cfg, max_pending = cfg_max_pend_trans cfg,
      max_insts = cfg_max_insts cfg, detailed_tracking = cfg_detailed_tracking cfg,
      exec_latency = cfg_exec_latency cfg, compute_latency = cfg_compute_latency cfg\<rparr>"

text \<open>\<open>QuetzCore\<close> with the default stages, and its links.\<close>

definition new_core :: "quetz_config \<Rightarrow> bool \<Rightarrow> region_handler option list \<Rightarrow> pipeline result" where
  "new_core cfg filter_unmatched handlers =
     new_pipeline (core_context cfg) (cfg_cache_line_sz cfg) (Some \<lparr>ma_table = handlers, ma_filter_unmatched = filter_unmatched\<rparr>)"

definition link_core :: "bool \<Rightarrow> pipeline \<Rightarrow> pipeline" where
  "link_core mmio p = p\<lparr>pl_emitter := setMmioLink (setLink (pl_emitter p) True) mmio\<rparr>"

text \<open>\<open>slot\<close> gives the ports of a populated accelerator slot; without one, a doorbell in the configuration makes a default port.\<close>

definition loadAcceleratorPorts :: "balar_port list option \<Rightarrow> quetz_config \<Rightarrow> balar_port list result" where
  "loadAcceleratorPorts slot cfg =
     (case slot of
        Some ps \<Rightarrow> Inr ps
      | None \<Rightarrow>
          if cfg_balar_doorbell_addr cfg \<noteq> 0 then
            res_bind (new_balar_port
                \<lparr>doorbell_addr = cfg_balar_doorbell_addr cfg, doorbell_size = cfg_balar_doorbell_size cfg,
                 packet_flush_bytes = cfg_balar_packet_flush_bytes cfg, flush_enabled = True, async_offload = cfg_async_offload cfg,
                 async_doorbell_addr = cfg_async_doorbell_addr cfg, async_doorbell_size = cfg_async_doorbell_size cfg,
                 async_completion_depth = cfg_async_completion_depth cfg\<rparr> ''range_from_value'') (\<lambda>p. Inr [p])
          else Inr [])"

text \<open>What the deck plugs into the component: region handlers, the memory slot (whether all of it is populated, and its highest
  number), MMIO ports and MMIO slots, and accelerator ports.\<close>

record deck =
  dk_handlers :: "region_handler option list"
  dk_memory :: "(bool \<times> u32) option"
  dk_mmio_port :: "nat \<Rightarrow> bool"
  dk_mmio_slot :: "nat \<Rightarrow> bool"
  dk_accelerators :: "balar_port list option"

definition want_mmio :: "deck \<Rightarrow> nat \<Rightarrow> bool" where
  "want_mmio dk i \<longleftrightarrow> dk_mmio_port dk i \<or> dk_mmio_slot dk i"

definition new_quetz_cpu :: "param_conv \<Rightarrow> quetz_config \<Rightarrow> bool \<Rightarrow> deck \<Rightarrow> u64 \<Rightarrow> shared_data \<Rightarrow> quetz_cpu result" where
  "new_quetz_cpu pc cfg filter_unmatched dk base raw =
     res_bind (configure_caches cfg) (\<lambda>bank.
       if cfg_system_mode cfg \<and> cfg_vcpu_count cfg > 1 \<and>
          multicoreLaunchError (cfg_vcpu_count cfg) (cfg_qemu_extra_args cfg) (cfg_platform_machine cfg) \<noteq> None
         then Inl (Fatal ''system multicore'')
       else
         res_bind (loadRegionHandlers pc (dk_handlers dk) cfg) (\<lambda>handlers.
         res_bind (res_map (\<lambda>i. res_bind (new_core cfg filter_unmatched handlers) (\<lambda>p. Inr (link_core (want_mmio dk i) p)))
             [0..<unat (cfg_vcpu_count cfg)]) (\<lambda>cores.
           if (case dk_memory dk of Some (full, highest) \<Rightarrow> \<not> full \<or> highest \<noteq> cfg_vcpu_count cfg - 1 | None \<Rightarrow> False)
             then Inl (Fatal ''memory subcomponent slots must match vcpu_count'')
           else if cfg_sst_window_cache cfg \<and> (\<exists>i \<in> set [0..<unat (cfg_vcpu_count cfg)]. \<not> want_mmio dk i)
             then Inl (Fatal ''Window cache requires an MMIO interface'')
           else
             res_bind (loadAcceleratorPorts (dk_accelerators dk) cfg) (\<lambda>ports.
               Inr \<lparr>qp_config = cfg,
                    qp_mmio = \<lparr>cm_cfg = mmio_config cfg, cm_bank = bank, cm_epochs = (\<lambda>_. 0), cm_base = base,
                      cm_shared = tunnel_initialize True (ucast (cfg_vcpu_count cfg)) raw,
                      cm_mmio_if = (\<lambda>i. i < unat (cfg_vcpu_count cfg) \<and> want_mmio dk i),
                      cm_ports = map (\<lambda>p. ownsAddr (bp_cfg p)) ports, cm_port_ids = {}, cm_port_cmds = [],
                      cm_generic = (\<lambda>_. None), cm_next = 0, cm_sent = [], cm_stats = []\<rparr>,
                    qp_mem_if = (\<lambda>i. i < unat (cfg_vcpu_count cfg)), qp_mem_sent = [], qp_ports = ports, qp_cores = cores,
                    qp_handlers = handlers, qp_backend = \<lparr>tb_deferred = (\<lambda>_. []), tb_rings = (\<lambda>_. [])\<rparr>,
                    qp_launcher = QemuLauncher, qp_stop_ticking = True, qp_may_end = False, qp_halted_count = 0,
                    qp_child_poll_ticks = 0, qp_child_running = True\<rparr>))))"

text \<open>The constructor from the component's parameters, to which a preset adds its defaults.\<close>

definition preset_applied :: "sst_params \<Rightarrow> sst_params" where
  "preset_applied ps = (case findPlatform (find_param (\<lambda>v. v) ps ''platform'' []) of Some p \<Rightarrow> applyProfile p ps | None \<Rightarrow> ps)"

definition QuetzCPU :: "param_conv \<Rightarrow> (string \<Rightarrow> string option) \<Rightarrow> sst_params \<Rightarrow> deck \<Rightarrow> u64 \<Rightarrow> shared_data \<Rightarrow> quetz_cpu result" where
  "QuetzCPU pc env ps dk base raw =
     res_bind (manager_fromParams pc env ps)
       (\<lambda>cfg. new_quetz_cpu pc cfg (find_param (pc_bool pc) (preset_applied ps) ''filter_unmatched_regions'' False) dk base raw)"

text \<open>The interrupt links: \<open>connected i\<close> says that \<open>irq_link_i\<close> is connected, \<open>link_ok i\<close> that the simulator can configure it. The loop
  stops at the first unconnected number and returns how many links it made; with all numbers connected it would not return.\<close>

partial_function (option) irq_links_from :: "(u32 \<Rightarrow> bool) \<Rightarrow> (u32 \<Rightarrow> bool) \<Rightarrow> u32 \<Rightarrow> nat \<Rightarrow> nat result option" where
  [code]: "irq_links_from connected link_ok i n =
     (if \<not> connected i then Some (Inr n)
      else if \<not> link_ok i then Some (Inl (Fatal ''Failed to configure irq_link''))
      else irq_links_from connected link_ok (i + 1) (n + 1))"

definition configureIrqLinks :: "(u32 \<Rightarrow> bool) \<Rightarrow> (u32 \<Rightarrow> bool) \<Rightarrow> nat result option" where
  "configureIrqLinks connected link_ok = irq_links_from connected link_ok 0 0"

lemma irq_links_contiguous:
  assumes "\<And>i. i < n \<Longrightarrow> connected (of_nat i) \<and> link_ok (of_nat i)" "\<not> connected (of_nat n)"
  shows "configureIrqLinks connected link_ok = Some (Inr n)"
proof -
  have "irq_links_from connected link_ok (of_nat k) k = Some (Inr n)" if "k \<le> n" for k
    using that
  proof (induction k rule: inc_induct)
    case base
    then show ?case using assms(2) by (subst irq_links_from.simps) simp
  next
    case (step k)
    then show ?case using assms(1) [of k] by (subst irq_links_from.simps) (simp add: add.commute)
  qed
  from this [of 0] show ?thesis by (simp add: configureIrqLinks_def)
qed

section \<open>Polling the mailboxes\<close>

text \<open>A command for an accelerator aperture is the last thing a poll of one CPU does; it goes to the port at once.\<close>

fun deliver_commands :: "request_ids \<Rightarrow> (nat \<times> u32 \<times> quetz_command) list \<Rightarrow> quetz_cpu \<Rightarrow> quetz_cpu result" where
  "deliver_commands ids [] c = Inr c"
| "deliver_commands ids ((k, v, cmd) # cs) c =
     res_bind (handleCommand (ids (From_port k)) (cpu_host c) v cmd (qp_ports c ! k))
       (\<lambda>p. deliver_commands ids cs (port_effects k p c))"

definition cpu_poll_vcpu :: "nat \<Rightarrow> request_ids \<Rightarrow> u32 \<Rightarrow> quetz_cpu \<Rightarrow> quetz_cpu result option" where
  "cpu_poll_vcpu n ids v c =
     opt_bind (poll_vcpu n (ids From_cpu) (qp_mmio c) v) (\<lambda>m.
       Some (deliver_commands ids (drop (length (cm_port_cmds (qp_mmio c))) (cm_port_cmds m)) (c\<lparr>qp_mmio := m\<rparr>)))"

fun cpu_poll :: "nat \<Rightarrow> request_ids \<Rightarrow> nat list \<Rightarrow> quetz_cpu \<Rightarrow> quetz_cpu result option" where
  "cpu_poll n ids [] c = Some (Inr c)"
| "cpu_poll n ids (v # vs) c = opt_bind (cpu_poll_vcpu n ids (of_nat v) c) (cpu_poll n ids vs)"

section \<open>The tick\<close>

text \<open>The commands \<open>readCommandNB\<close> still has for a core, and what is left of them after some were read.\<close>

definition core_source :: "tunnel_backend \<Rightarrow> nat \<Rightarrow> quetz_command list" where
  "core_source b i = (if i < unat QUETZ_MAX_MMIO_VCORES then tb_deferred b i @ tb_rings b i else [])"

definition keep_source :: "nat \<Rightarrow> quetz_command list \<Rightarrow> tunnel_backend \<Rightarrow> tunnel_backend" where
  "keep_source i src b =
     (if i < unat QUETZ_MAX_MMIO_VCORES then
        b\<lparr>tb_deferred := (tb_deferred b)(i := take (length src - length (tb_rings b i)) src),
          tb_rings := (tb_rings b)(i := drop (length src - length (tb_rings b i)) src)\<rparr>
      else b)"

text \<open>The region handlers are shared by all cores.\<close>

definition with_handlers :: "region_handler option list \<Rightarrow> pipeline \<Rightarrow> pipeline" where
  "with_handlers hs p = p\<lparr>pl_filter := map_option (\<lambda>ma. ma\<lparr>ma_table := hs\<rparr>) (pl_filter p)\<rparr>"

definition handlers_of :: "region_handler option list \<Rightarrow> pipeline \<Rightarrow> region_handler option list" where
  "handlers_of hs p = (case pl_filter p of Some ma \<Rightarrow> ma_table ma | None \<Rightarrow> hs)"

definition core_tick :: "request_ids \<Rightarrow> u64 \<Rightarrow> nat \<Rightarrow> quetz_cpu \<Rightarrow> quetz_cpu result" where
  "core_tick ids now i c =
     (let p0 = qp_cores c ! i; was_halted = pl_halted p0;
          p1 = (if \<not> was_halted \<and> asyncOutstandingForVcpu c (of_nat i) then pl_stat [(S_async_overlap_cycles, 1)] p0 else p0)
      in res_bind (tick (ids (From_core i)) now (with_handlers (qp_handlers c) p1) (core_source (qp_backend c) i)) (\<lambda>(p2, src).
           Inr (c\<lparr>qp_cores := (qp_cores c)[i := p2], qp_handlers := handlers_of (qp_handlers c) p2,
                  qp_backend := keep_source i src (qp_backend c),
                  qp_halted_count := qp_halted_count c + (if \<not> was_halted \<and> pl_halted p2 then 1 else 0)\<rparr>)))"

fun cores_tick :: "request_ids \<Rightarrow> u64 \<Rightarrow> nat list \<Rightarrow> quetz_cpu \<Rightarrow> quetz_cpu result" where
  "cores_tick ids now [] c = Inr c"
| "cores_tick ids now (i # is) c = res_bind (core_tick ids now i c) (cores_tick ids now is)"

text \<open>\<open>order k\<close> is the order in which port \<open>k\<close> iterates its armed doorbells.\<close>

fun ports_process :: "request_ids \<Rightarrow> (nat \<Rightarrow> u32 list) \<Rightarrow> nat list \<Rightarrow> quetz_cpu \<Rightarrow> quetz_cpu result" where
  "ports_process ids order [] c = Inr c"
| "ports_process ids order (k # ks) c =
     res_bind (process (ids (From_port k)) (cpu_host c) (order k) (qp_ports c ! k))
       (\<lambda>p. ports_process ids order ks (port_effects k p c))"

definition poll_child :: "os \<Rightarrow> quetz_cpu \<Rightarrow> quetz_cpu result" where
  "poll_child os c =
     (let ticks = qp_child_poll_ticks c + 1; c1 = c\<lparr>qp_child_poll_ticks := ticks\<rparr> in
      if ticks AND 1023 = 0 \<or> qp_halted_count c = cfg_vcpu_count (qp_config c)
      then case checkChild os (qp_launcher c1) of
             (l, Inl e) \<Rightarrow> Inl e
           | (l, Inr running) \<Rightarrow> Inr (c1\<lparr>qp_launcher := l, qp_child_running := running\<rparr>)
      else Inr c1)"

definition tick_verdict :: "bool \<Rightarrow> quetz_cpu \<Rightarrow> (quetz_cpu \<times> bool) result" where
  "tick_verdict child_was_running c =
     (let vcpus = [0..<unat (cfg_vcpu_count (qp_config c))] in
      if qp_halted_count c < cfg_vcpu_count (qp_config c) then
        if \<not> qp_child_running c \<and> \<not> child_was_running \<and> (\<forall>i \<in> set vcpus. isDrained (qp_cores c ! i))
        then Inl (Fatal ''QEMU exited before all vCPU EXIT records arrived'')
        else Inr (c, False)
      else if \<exists>i \<in> set vcpus. pendingCount (pl_emitter (qp_cores c ! i)) > 0 then Inr (c, False)
      else if bank_active (cm_bank (qp_mmio c)) \<or> (\<exists>rid. cm_generic (qp_mmio c) rid \<noteq> None) \<or> hasAsyncInFlight c then Inr (c, False)
      else if \<not> qp_stop_ticking c then Inr (c\<lparr>qp_may_end := True, qp_stop_ticking := True\<rparr>, True)
      else Inr (c, True))"

definition clock_shared :: "u64 \<Rightarrow> quetz_cpu \<Rightarrow> quetz_cpu" where
  "clock_shared ns c = c\<lparr>qp_mmio := (qp_mmio c)\<lparr>cm_shared := incrementSimCycles (updateSimTime ns (cm_shared (qp_mmio c)))\<rparr>\<rparr>"

definition cpu_tick ::
    "nat \<Rightarrow> request_ids \<Rightarrow> os \<Rightarrow> (nat \<Rightarrow> u32 list) \<Rightarrow> u64 \<Rightarrow> u64 \<Rightarrow> quetz_cpu \<Rightarrow> (quetz_cpu \<times> bool) result option" where
  "cpu_tick n ids os order ns now c =
     (let vcpus = [0..<unat (cfg_vcpu_count (qp_config c))] in
      opt_bind (cpu_poll n ids vcpus (clock_shared ns c)) (\<lambda>c1. Some (
        res_bind (cores_tick ids now vcpus c1) (\<lambda>c2.
        res_bind (ports_process ids order [0..<length (qp_ports c2)] c2) (\<lambda>c3.
        res_bind (poll_child os c3) (\<lambda>c4. tick_verdict (qp_child_running c3) c4))))))"

section \<open>Responses, interrupts and the end\<close>

record response =
  rs_std :: std_response
  rs_flush :: bool

text \<open>Ports are offered a response in turn.\<close>

fun offer_ports :: "response \<Rightarrow> nat list \<Rightarrow> quetz_cpu \<Rightarrow> (quetz_cpu \<times> bool) result" where
  "offer_ports resp [] c = Inr (c, False)"
| "offer_ports resp (k # ks) c =
     res_bind (port_handleResponse (cpu_host c)
         \<lparr>pr_id = sr_id (rs_std resp), pr_flush = rs_flush resp, pr_read = sr_read (rs_std resp), pr_data = sr_data (rs_std resp)\<rparr>
         (qp_ports c ! k))
       (\<lambda>(p, mine). if mine then Inr (port_effects k p c, True) else offer_ports resp ks c)"

definition cpu_complete :: "nat \<Rightarrow> request_ids \<Rightarrow> u32 \<Rightarrow> response \<Rightarrow> quetz_cpu \<Rightarrow> (quetz_cpu \<times> bool) result option" where
  "cpu_complete n ids hint resp c =
     (let cache_or_generic = (\<lambda>c. opt_bind (completeMmioSyncResponse n (ids From_cpu) (qp_mmio c) hint (rs_std resp))
                                    (\<lambda>(m, mine). Some (Inr (c\<lparr>qp_mmio := m\<rparr>, mine)))) in
      if wb_pending (cm_bank (qp_mmio c)) (sr_id (rs_std resp)) \<noteq> None then cache_or_generic c
      else case offer_ports resp [0..<length (qp_ports c)] c of
             Inl e \<Rightarrow> Some (Inl e)
           | Inr (c1, True) \<Rightarrow> Some (Inr (c1, True))
           | Inr (c1, False) \<Rightarrow> cache_or_generic c1)"

definition latency_stat :: "bool \<Rightarrow> bool \<Rightarrow> core_stat" where
  "latency_stat was_mmio was_read =
     (if was_mmio then if was_read then S_mmio_read_lat else S_mmio_write_lat else if was_read then S_read_lat else S_write_lat)"

definition core_response :: "u64 \<Rightarrow> nat \<Rightarrow> response \<Rightarrow> quetz_cpu \<Rightarrow> quetz_cpu" where
  "core_response now i resp c =
     (case pipeline_handleResponse now (qp_cores c ! i) \<lparr>rsp_id = sr_id (rs_std resp), rsp_is_read = sr_read (rs_std resp)\<rparr> of
        (p, out) \<Rightarrow> c\<lparr>qp_cores := (qp_cores c)[i :=
          (case out of None \<Rightarrow> p | Some (lat, was_read, was_mmio) \<Rightarrow> pl_stat [(latency_stat was_mmio was_read, lat)] p)]\<rparr>)"

text \<open>\<open>QuetzCore::handleMemResponse\<close> of core \<open>i\<close>; only a core with an MMIO link has a completer.\<close>

definition handleMemResponse :: "nat \<Rightarrow> request_ids \<Rightarrow> u64 \<Rightarrow> nat \<Rightarrow> response \<Rightarrow> quetz_cpu \<Rightarrow> quetz_cpu result option" where
  "handleMemResponse n ids now i resp c =
     opt_bind (if cm_mmio_if (qp_mmio c) i then cpu_complete n ids (of_nat i) resp c else Some (Inr (c, False)))
       (\<lambda>(c1, mine). Some (Inr (if mine then c1 else core_response now i resp c1)))"

definition handleIrqEvent :: "u32 \<Rightarrow> u32 \<Rightarrow> u32 \<Rightarrow> quetz_cpu \<Rightarrow> quetz_cpu result" where
  "handleIrqEvent vcpu line level c =
     (if cfg_system_mode (qp_config c) \<and> vcpu \<noteq> 0 then Inl (Fatal ''System-mode device IRQs route only to vCPU 0'')
      else Inr (c\<lparr>qp_mmio := (qp_mmio c)\<lparr>cm_shared := the (postIrq (Some (cm_shared (qp_mmio c))) vcpu line level)\<rparr>\<rparr>))"

definition cpu_finish :: "os \<Rightarrow> quetz_cpu \<Rightarrow> finish_msg list \<times> launcher \<times> unit result" where
  "cpu_finish os c =
     (concat (map (\<lambda>p. pipeline_finish (with_handlers (qp_handlers c) p)) (qp_cores c)),
      terminate_child os (\<forall>p \<in> set (qp_cores c). pl_guest_exit p) (qp_launcher c))"

definition emergencyShutdown :: "os \<Rightarrow> quetz_cpu \<Rightarrow> launcher" where
  "emergencyShutdown os c = forceKill os (qp_launcher c)"

text \<open>The first phase of \<open>init\<close>: launching, and a successful wait for the plugin.\<close>

definition init_launch ::
    "string \<Rightarrow> bool \<Rightarrow> (string \<Rightarrow> bool) \<Rightarrow> (string \<Rightarrow> bool) \<Rightarrow> (string \<Rightarrow> string option) \<Rightarrow> u32 option \<Rightarrow> string \<Rightarrow> quetz_cpu \<Rightarrow>
     (quetz_cpu \<times> child_image) result" where
  "init_launch dir readable freopen_ok exec_ok env fork_pid shmname c =
     res_bind (frontend_spawn dir readable freopen_ok exec_ok env fork_pid (cm_base (qp_mmio c)) (qp_config c) shmname
                (cfg_detailed_tracking (qp_config c)) (qp_launcher c) (cm_shared (qp_mmio c)))
       (\<lambda>(l, child, sh). Inr (c\<lparr>qp_launcher := l, qp_mmio := (qp_mmio c)\<lparr>cm_shared := sh\<rparr>\<rparr>, child))"

definition init_attached :: "quetz_cpu \<Rightarrow> quetz_cpu" where
  "init_attached c = c\<lparr>qp_stop_ticking := False\<rparr>"

section \<open>What the steps leave alone\<close>

text \<open>A core that only recorded statistics.\<close>

definition stat_more :: "pipeline \<Rightarrow> pipeline \<Rightarrow> bool" where
  "stat_more p p' \<longleftrightarrow> (\<exists>st. p' = pl_stat st p)"

lemma stat_more_refl: "stat_more p p"
  unfolding stat_more_def by (rule exI [of _ "[]"]) (simp add: pl_stat_def)

lemma stat_more_trans: "stat_more p q \<Longrightarrow> stat_more q r \<Longrightarrow> stat_more p r"
  unfolding stat_more_def by (auto simp: pl_stat_def)

definition same_cores :: "quetz_cpu \<Rightarrow> quetz_cpu \<Rightarrow> bool" where
  "same_cores c c' \<longleftrightarrow> qp_config c' = qp_config c \<and> qp_child_running c' = qp_child_running c \<and> qp_backend c' = qp_backend c \<and>
     qp_halted_count c' = qp_halted_count c \<and> length (qp_ports c') = length (qp_ports c) \<and> list_all2 stat_more (qp_cores c) (qp_cores c')"

lemma same_cores_refl: "same_cores c c"
  by (simp add: same_cores_def list_all2_refl stat_more_refl)

lemma same_cores_trans:
  assumes "same_cores c c1" "same_cores c1 c2"
  shows "same_cores c c2"
proof -
  have "list_all2 stat_more (qp_cores c) (qp_cores c2)"
    using list_all2_trans [of stat_more stat_more stat_more "qp_cores c" "qp_cores c1" "qp_cores c2"] assms
    by (auto simp: same_cores_def intro: stat_more_trans)
  then show ?thesis
    using assms by (simp add: same_cores_def)
qed

lemma same_cores_mmio: "same_cores c (c\<lparr>qp_mmio := m\<rparr>)"
  by (simp add: same_cores_def list_all2_refl stat_more_refl)

lemma on_core_stat_same: "same_cores c (on_core i (pl_stat st) c)"
proof -
  have "stat_more p (pl_stat st p)" for p
    by (auto simp: stat_more_def)
  then show ?thesis
    by (cases "i < length (qp_cores c)")
      (auto simp: same_cores_def on_core_def list_all2_conv_all_nth nth_list_update stat_more_refl)
qed

lemma same_cores_traces: "same_cores c (c\<lparr>qp_mem_sent := ms\<rparr>)" "same_cores c (c\<lparr>qp_ports := (qp_ports c)[k := p]\<rparr>)"
  by (simp_all add: same_cores_def list_all2_refl stat_more_refl)

lemma host_effect_same: "same_cores c (host_effect_on e c)"
  by (cases e) (simp_all add: same_cores_mmio on_core_stat_same same_cores_traces)

lemma host_effects_same: "same_cores c (fold host_effect_on es c)"
proof (induction es arbitrary: c)
  case (Cons e es)
  then show ?case
    using same_cores_trans [OF host_effect_same [of c e]] by simp
qed (simp add: same_cores_refl)

lemma port_effects_same: "same_cores c (port_effects k p c)"
  unfolding port_effects_def by (rule same_cores_trans [OF same_cores_traces(2) host_effects_same])

lemma deliver_commands_same: "deliver_commands ids cs c = Inr c' \<Longrightarrow> same_cores c c'"
proof (induction ids cs c rule: deliver_commands.induct)
  case (2 ids k v cmd cs c)
  then show ?case
    by (auto simp: res_bind_Inr_iff intro: same_cores_trans port_effects_same)
qed (simp add: same_cores_refl)

lemma cpu_poll_vcpu_same: "cpu_poll_vcpu n ids v c = Some (Inr c') \<Longrightarrow> same_cores c c'"
  using same_cores_trans [OF same_cores_mmio deliver_commands_same] by (auto simp: cpu_poll_vcpu_def opt_bind_ok_iff)

lemma cpu_poll_same: "cpu_poll n ids vs c = Some (Inr c') \<Longrightarrow> same_cores c c'"
proof (induction vs arbitrary: c)
  case (Cons v vs)
  then show ?case
    by (auto simp: opt_bind_ok_iff intro: same_cores_trans cpu_poll_vcpu_same)
qed (simp add: same_cores_refl)

lemma ports_process_same: "ports_process ids order ks c = Inr c' \<Longrightarrow> same_cores c c'"
proof (induction ids order ks c rule: ports_process.induct)
  case (2 ids order k ks c)
  then show ?case
    by (auto simp: res_bind_Inr_iff intro: same_cores_trans port_effects_same)
qed (simp add: same_cores_refl)

lemma offer_ports_same: "offer_ports resp ks c = Inr (c', b) \<Longrightarrow> same_cores c c'"
proof (induction resp ks c rule: offer_ports.induct)
  case (2 resp k ks c)
  then show ?case
    by (auto simp: res_bind_Inr_iff same_cores_refl port_effects_same split: if_splits)
qed (simp add: same_cores_refl)

lemma cpu_complete_same: "cpu_complete n ids hint resp c = Some (Inr (c', b)) \<Longrightarrow> same_cores c c'"
  using offer_ports_same same_cores_mmio same_cores_trans [OF offer_ports_same same_cores_mmio]
  by (auto simp: cpu_complete_def Let_def opt_bind_ok_iff split: if_splits sum.splits prod.splits bool.splits)

section \<open>The invariant of the component\<close>

definition cpu_inv :: "request_ids \<Rightarrow> quetz_cpu \<Rightarrow> bool" where
  "cpu_inv ids c \<longleftrightarrow> length (qp_cores c) = unat (cfg_vcpu_count (qp_config c)) \<and>
     (qp_cores c \<noteq> [] \<longrightarrow> 0 < max_queue_len (core_context (qp_config c))) \<and>
     unat (qp_halted_count c) = length (filter pl_halted (qp_cores c)) \<and>
     (\<forall>i < length (qp_cores c). pipeline_inv (ids (From_core i)) (core_context (qp_config c)) (qp_cores c ! i))"

lemma stat_more_facts:
  assumes "stat_more p p'"
  shows "pl_halted p' = pl_halted p" "pipeline_inv ids' ctx p' \<longleftrightarrow> pipeline_inv ids' ctx p"
    "pl_coreQ p' = pl_coreQ p" "isDrained p' \<longleftrightarrow> isDrained p" "pl_input p' = pl_input p"
proof -
  obtain st where "p' = pl_stat st p"
    using assms by (auto simp: stat_more_def)
  then show "pl_halted p' = pl_halted p" "pipeline_inv ids' ctx p' \<longleftrightarrow> pipeline_inv ids' ctx p"
    "pl_coreQ p' = pl_coreQ p" "isDrained p' \<longleftrightarrow> isDrained p" "pl_input p' = pl_input p"
    by (simp_all add: pipeline_inv_def pend_ok_def limits_ok_def outstanding_ok_def isDrained_def pl_stat_def)
qed

lemma count_halted: "length (filter pl_halted ps) = length (filter (\<lambda>b. b) (map pl_halted ps))"
  by (simp add: filter_map comp_def)

lemma same_cores_inv:
  assumes "same_cores c c'" "cpu_inv ids c"
  shows "cpu_inv ids c'"
proof -
  have l2: "list_all2 stat_more (qp_cores c) (qp_cores c')"
    using assms(1) by (simp add: same_cores_def)
  then have "map pl_halted (qp_cores c') = map pl_halted (qp_cores c)"
    by (auto simp: list_all2_conv_all_nth stat_more_facts intro!: nth_equalityI)
  then have "length (filter pl_halted (qp_cores c')) = length (filter pl_halted (qp_cores c))"
    by (simp only: count_halted)
  moreover have "pipeline_inv (ids (From_core i)) (core_context (qp_config c)) (qp_cores c' ! i)" if "i < length (qp_cores c')" for i
  proof -
    have "i < length (qp_cores c)" "stat_more (qp_cores c ! i) (qp_cores c' ! i)"
      using l2 that by (simp_all add: list_all2_conv_all_nth)
    then show ?thesis
      using assms(2) stat_more_facts(2) by (auto simp: cpu_inv_def)
  qed
  ultimately show ?thesis
    using assms list_all2_lengthD [OF l2] by (auto simp: cpu_inv_def same_cores_def)
qed

lemma with_handlers_facts [simp]:
  "pl_halted (with_handlers hs p) = pl_halted p" "pipeline_inv ids' ctx (with_handlers hs p) \<longleftrightarrow> pipeline_inv ids' ctx p"
  "pl_coreQ (with_handlers hs p) = pl_coreQ p" "pl_input (with_handlers hs p) = pl_input p"
  by (simp_all add: with_handlers_def pipeline_inv_def pend_ok_def limits_ok_def)

lemma core_tick_cases:
  assumes "core_tick ids now i c = Inr c'"
  obtains p p2 src where "stat_more (qp_cores c ! i) p"
    "tick (ids (From_core i)) now (with_handlers (qp_handlers c) p) (core_source (qp_backend c) i) = Inr (p2, src)"
    "qp_cores c' = (qp_cores c)[i := p2]" "qp_backend c' = keep_source i src (qp_backend c)"
    "qp_halted_count c' = qp_halted_count c + (if \<not> pl_halted (qp_cores c ! i) \<and> pl_halted p2 then 1 else 0)"
    "qp_config c' = qp_config c" "qp_child_running c' = qp_child_running c"
proof -
  define p where "p = (if \<not> pl_halted (qp_cores c ! i) \<and> asyncOutstandingForVcpu c (of_nat i)
    then pl_stat [(S_async_overlap_cycles, 1)] (qp_cores c ! i) else qp_cores c ! i)"
  have "stat_more (qp_cores c ! i) p"
    by (auto simp: p_def stat_more_refl) (auto simp: stat_more_def)
  moreover obtain p2 src where "tick (ids (From_core i)) now (with_handlers (qp_handlers c) p) (core_source (qp_backend c) i) = Inr (p2, src)"
      "c' = c\<lparr>qp_cores := (qp_cores c)[i := p2], qp_handlers := handlers_of (qp_handlers c) p2,
         qp_backend := keep_source i src (qp_backend c),
         qp_halted_count := qp_halted_count c + (if \<not> pl_halted (qp_cores c ! i) \<and> pl_halted p2 then 1 else 0)\<rparr>"
    using assms by (auto simp: core_tick_def Let_def p_def res_bind_Inr_iff)
  ultimately show thesis
    using that by simp
qed

lemma tick_halted: "pl_halted p \<Longrightarrow> tick ids' now p src = Inr (p', src') \<Longrightarrow> p' = p \<and> src' = src"
  by (simp add: tick_def)

lemma filter_update_length:
  assumes "i < length xs"
  shows "length (filter P (xs[i := x])) + of_bool (P (xs ! i)) = length (filter P xs) + of_bool (P x)"
  using assms
proof (induction xs arbitrary: i)
  case (Cons y ys)
  then show ?case
    using Cons.IH [of "i - 1"] by (cases i) auto
qed simp

lemma core_tick_inv:
  assumes "core_tick ids now i c = Inr c'" "cpu_inv ids c" "i < length (qp_cores c)"
  shows "cpu_inv ids c'"
proof -
  obtain p p2 src where tick: "stat_more (qp_cores c ! i) p"
    "tick (ids (From_core i)) now (with_handlers (qp_handlers c) p) (core_source (qp_backend c) i) = Inr (p2, src)"
    "qp_cores c' = (qp_cores c)[i := p2]"
    "qp_halted_count c' = qp_halted_count c + (if \<not> pl_halted (qp_cores c ! i) \<and> pl_halted p2 then 1 else 0)" "qp_config c' = qp_config c"
    using core_tick_cases [OF assms(1)] by metis
  have p: "pl_halted p = pl_halted (qp_cores c ! i)" "pipeline_inv (ids (From_core i)) (core_context (qp_config c)) p"
    using assms(2,3) stat_more_facts [OF tick(1)] by (simp_all add: cpu_inv_def)
  have p2: "pipeline_inv (ids (From_core i)) (core_context (qp_config c)) p2"
    using tick_inv [OF tick(2)] p(2) by simp
  have stays: "pl_halted p2" if "pl_halted (qp_cores c ! i)"
    using tick_halted [OF _ tick(2)] that p(1) by simp
  have count: "length (filter pl_halted ((qp_cores c)[i := p2])) =
      length (filter pl_halted (qp_cores c)) + (if \<not> pl_halted (qp_cores c ! i) \<and> pl_halted p2 then 1 else 0)"
    using filter_update_length [OF assms(3), of pl_halted p2] stays by (cases "pl_halted (qp_cores c ! i)") simp_all
  have "length (filter pl_halted ((qp_cores c)[i := p2])) \<le> unat (cfg_vcpu_count (qp_config c))"
    using length_filter_le [of pl_halted "(qp_cores c)[i := p2]"] assms(2) by (simp add: cpu_inv_def)
  then have "length (filter pl_halted ((qp_cores c)[i := p2])) < 2 ^ 32"
    using unat_less_32 [of "cfg_vcpu_count (qp_config c)"] by linarith
  then have "unat (qp_halted_count c') = length (filter pl_halted (qp_cores c'))"
    using assms(2) count tick(3,4) by (cases "\<not> pl_halted (qp_cores c ! i) \<and> pl_halted p2") (simp_all add: cpu_inv_def unat_word_ariths)
  then show ?thesis
    using assms(2,3) tick(3,5) p2 by (auto simp: cpu_inv_def nth_list_update)
qed

lemma cores_tick_inv:
  "cores_tick ids now is c = Inr c' \<Longrightarrow> cpu_inv ids c \<Longrightarrow> \<forall>i \<in> set is. i < length (qp_cores c) \<Longrightarrow> cpu_inv ids c'"
proof (induction "is" arbitrary: c)
  case (Cons i "is")
  obtain c1 where c1: "core_tick ids now i c = Inr c1" "cores_tick ids now is c1 = Inr c'"
    using Cons.prems(1) by (auto simp: res_bind_Inr_iff)
  have "cpu_inv ids c1"
    using core_tick_inv [OF c1(1) Cons.prems(2)] Cons.prems(3) by simp
  moreover have "length (qp_cores c1) = length (qp_cores c)"
    by (rule core_tick_cases [OF c1(1)]) simp
  ultimately show ?case
    using Cons.IH [OF c1(2)] Cons.prems(3) by simp
qed simp

text \<open>A tick, stage by stage.\<close>

lemma cpu_tick_stages:
  assumes "cpu_tick n ids os order ns now c = Some r"
  obtains (poll) e where "r = Inl e" "cpu_poll n ids [0..<unat (cfg_vcpu_count (qp_config c))] (clock_shared ns c) = Some (Inl e)"
  | (cores) c1 e where "r = Inl e" "same_cores c c1" "cores_tick ids now [0..<unat (cfg_vcpu_count (qp_config c))] c1 = Inl e"
  | (ports) c1 c2 e where "r = Inl e" "same_cores c c1" "cores_tick ids now [0..<unat (cfg_vcpu_count (qp_config c))] c1 = Inr c2"
      "ports_process ids order [0..<length (qp_ports c2)] c2 = Inl e"
  | (child) c1 c2 c3 e where "r = Inl e" "same_cores c c1" "cores_tick ids now [0..<unat (cfg_vcpu_count (qp_config c))] c1 = Inr c2"
      "same_cores c2 c3" "poll_child os c3 = Inl e"
  | (verdict) c1 c2 c3 c4 where "same_cores c c1" "cores_tick ids now [0..<unat (cfg_vcpu_count (qp_config c))] c1 = Inr c2"
      "same_cores c2 c3" "poll_child os c3 = Inr c4" "r = tick_verdict (qp_child_running c3) c4"
proof -
  let ?vs = "[0..<unat (cfg_vcpu_count (qp_config c))]"
  have clock: "same_cores c (clock_shared ns c)"
    by (simp add: clock_shared_def same_cores_mmio)
  consider (a) e where "r = Inl e" "cpu_poll n ids ?vs (clock_shared ns c) = Some (Inl e)"
    | (b) c1 where "cpu_poll n ids ?vs (clock_shared ns c) = Some (Inr c1)"
        "r = res_bind (cores_tick ids now ?vs c1) (\<lambda>c2. res_bind (ports_process ids order [0..<length (qp_ports c2)] c2) (\<lambda>c3.
               res_bind (poll_child os c3) (\<lambda>c4. tick_verdict (qp_child_running c3) c4)))"
    using assms
    by (cases "cpu_poll n ids ?vs (clock_shared ns c)")
      (auto simp: cpu_tick_def Let_def elim: opt_bind.elims)
  then show thesis
  proof cases
    case a
    then show thesis by (rule poll)
  next
    case b
    have same: "same_cores c c1"
      by (rule same_cores_trans [OF clock cpu_poll_same [OF b(1)]])
    show thesis
    proof (cases "cores_tick ids now ?vs c1")
      case (Inl e)
      then show thesis using cores [OF _ same] b(2) by simp
    next
      case c2: (Inr c2)
      show thesis
      proof (cases "ports_process ids order [0..<length (qp_ports c2)] c2")
        case (Inl e)
        then show thesis using ports [OF _ same c2] b(2) c2 by simp
      next
        case c3: (Inr c3)
        note same3 = ports_process_same [OF c3]
        show thesis
        proof (cases "poll_child os c3")
          case (Inl e)
          then show thesis using child [OF _ same c2 same3] b(2) c2 c3 by simp
        next
          case (Inr c4)
          then show thesis using verdict [OF same c2 same3] b(2) c2 c3 by simp
        qed
      qed
    qed
  qed
qed

lemma poll_child_same:
  assumes "poll_child os c = Inr c'"
  shows "qp_config c' = qp_config c" "qp_cores c' = qp_cores c" "qp_halted_count c' = qp_halted_count c" "qp_backend c' = qp_backend c"
    "cpu_inv ids c' \<longleftrightarrow> cpu_inv ids c"
proof -
  show same: "qp_config c' = qp_config c" "qp_cores c' = qp_cores c" "qp_halted_count c' = qp_halted_count c" "qp_backend c' = qp_backend c"
    using assms by (auto simp: poll_child_def Let_def split: if_splits prod.splits sum.splits)
  show "cpu_inv ids c' \<longleftrightarrow> cpu_inv ids c"
    by (simp add: cpu_inv_def same)
qed

lemma tick_verdict_cases:
  assumes "tick_verdict w c = Inr (c', r)"
  shows "qp_config c' = qp_config c" "qp_cores c' = qp_cores c" "qp_halted_count c' = qp_halted_count c" "qp_mmio c' = qp_mmio c"
    "qp_ports c' = qp_ports c"
    "r \<Longrightarrow> qp_halted_count c \<ge> cfg_vcpu_count (qp_config c) \<and>
       (\<forall>i < unat (cfg_vcpu_count (qp_config c)). pendingCount (pl_emitter (qp_cores c ! i)) = 0) \<and>
       \<not> bank_active (cm_bank (qp_mmio c)) \<and> (\<forall>rid. cm_generic (qp_mmio c) rid = None) \<and> \<not> hasAsyncInFlight c"
  using assms by (auto simp: tick_verdict_def Let_def not_less simp del: not_None_eq split: if_splits)

lemma cpu_tick_inv:
  assumes "cpu_tick n ids os order ns now c = Some (Inr (c', r))" "cpu_inv ids c"
  shows "cpu_inv ids c'"
proof -
  obtain c1 c2 c3 c4 where st: "same_cores c c1" "cores_tick ids now [0..<unat (cfg_vcpu_count (qp_config c))] c1 = Inr c2"
      "same_cores c2 c3" "poll_child os c3 = Inr c4" "tick_verdict (qp_child_running c3) c4 = Inr (c', r)"
    by (rule cpu_tick_stages [OF assms(1)]) auto
  have 1: "cpu_inv ids c1" "qp_config c1 = qp_config c"
    using same_cores_inv [OF st(1) assms(2)] st(1) by (simp_all add: same_cores_def)
  have "cpu_inv ids c2"
    by (rule cores_tick_inv [OF st(2) 1(1)]) (use 1 in \<open>simp add: cpu_inv_def\<close>)
  then have "cpu_inv ids c4"
    using same_cores_inv [OF st(3)] poll_child_same(5) [OF st(4)] by simp
  then show ?thesis
    using tick_verdict_cases(1-3) [OF st(5)] by (simp add: cpu_inv_def)
qed

section \<open>Runs of the component\<close>

text \<open>Between the component's own steps the guest may do anything to the shared segment and append to the trace rings.\<close>

inductive cpu_run :: "request_ids \<Rightarrow> os \<Rightarrow> quetz_cpu \<Rightarrow> bool" for ids os where
  built: "new_quetz_cpu pc cfg filter_unmatched dk base raw = Inr c \<Longrightarrow> cpu_run ids os c"
| launched: "cpu_run ids os c \<Longrightarrow> init_launch dir readable freopen_ok exec_ok env fork_pid shmname c = Inr (c', child) \<Longrightarrow> cpu_run ids os c'"
| attached: "cpu_run ids os c \<Longrightarrow> cpu_run ids os (init_attached c)"
| guest: "cpu_run ids os c \<Longrightarrow> cpu_run ids os (c\<lparr>qp_mmio := (qp_mmio c)\<lparr>cm_shared := sh\<rparr>, qp_backend := b\<rparr>)"
| ticked: "cpu_run ids os c \<Longrightarrow> cpu_tick n ids os order ns now c = Some (Inr (c', r)) \<Longrightarrow> cpu_run ids os c'"
| response: "cpu_run ids os c \<Longrightarrow> i < length (qp_cores c) \<Longrightarrow> handleMemResponse n ids now i resp c = Some (Inr c') \<Longrightarrow> cpu_run ids os c'"
| irq: "cpu_run ids os c \<Longrightarrow> handleIrqEvent vcpu line level c = Inr c' \<Longrightarrow> cpu_run ids os c'"

lemma new_core_inv:
  assumes "new_core cfg fu hs = Inr p" "inj ids'"
  shows "pipeline_inv ids' (core_context cfg) (link_core m p)" "\<not> pl_halted (link_core m p)" "0 < max_queue_len (core_context cfg)"
  using assms
  by (auto simp: new_core_def new_pipeline_def link_core_def pipeline_inv_def pend_ok_def limits_ok_def outstanding_ok_def
      emitter_init_def setLink_def setMmioLink_def word_neq_0_conv split: if_splits)

lemma new_cpu_inv:
  assumes "new_quetz_cpu pc cfg fu dk base raw = Inr c" "\<And>i. inj (ids (From_core i))"
  shows "cpu_inv ids c"
proof -
  let ?n = "unat (cfg_vcpu_count cfg)"
  obtain hs cores where cores: "res_map (\<lambda>i. res_bind (new_core cfg fu hs) (\<lambda>p. Inr (link_core (want_mmio dk i) p))) [0..<?n] = Inr cores"
      "qp_cores c = cores" "qp_config c = cfg" "qp_halted_count c = 0"
    using assms(1) by (auto simp: new_quetz_cpu_def res_bind_Inr_iff split: if_splits)
  have len: "length cores = ?n"
    using cores(1) by (auto simp: res_map_Inr_iff dest: list_all2_lengthD)
  have each: "\<exists>p. new_core cfg fu hs = Inr p \<and> cores ! i = link_core (want_mmio dk i) p" if "i < ?n" for i
    using cores(1) that len by (auto simp: res_map_Inr_iff list_all2_conv_all_nth res_bind_Inr_iff)
  then have "pipeline_inv (ids (From_core i)) (core_context cfg) (cores ! i) \<and> \<not> pl_halted (cores ! i) \<and> 0 < max_queue_len (core_context cfg)"
    if "i < ?n" for i
    using new_core_inv [OF _ assms(2)] that by metis
  then show ?thesis
    using cores(2-4) len by (auto simp: cpu_inv_def filter_empty_conv in_set_conv_nth) (metis gr0I length_0_conv)
qed

lemma core_response_inv:
  assumes "cpu_inv ids c" "i < length (qp_cores c)"
  shows "cpu_inv ids (core_response now i resp c)"
proof -
  obtain p out where resp: "pipeline_handleResponse now (qp_cores c ! i) \<lparr>rsp_id = sr_id (rs_std resp), rsp_is_read = sr_read (rs_std resp)\<rparr> = (p, out)"
    by (cases "pipeline_handleResponse now (qp_cores c ! i) \<lparr>rsp_id = sr_id (rs_std resp), rsp_is_read = sr_read (rs_std resp)\<rparr>")
  define p' where "p' = (case out of None \<Rightarrow> p | Some (lat, was_read, was_mmio) \<Rightarrow> pl_stat [(latency_stat was_mmio was_read, lat)] p)"
  have "stat_more p p'"
    unfolding p'_def by (auto simp: stat_more_refl split: option.splits) (auto simp: stat_more_def)
  note stat = stat_more_facts [OF this]
  have "pl_halted p' = pl_halted (qp_cores c ! i)"
    using resp stat(1) by (auto simp: pipeline_handleResponse_def split: prod.splits)
  moreover have "pipeline_inv (ids (From_core i)) (core_context (qp_config c)) p'"
    using response_inv [OF resp] assms stat(2) by (simp add: cpu_inv_def)
  ultimately have "cpu_inv ids (c\<lparr>qp_cores := (qp_cores c)[i := p']\<rparr>)"
    using assms filter_update_length [OF assms(2), of pl_halted p'] by (auto simp: cpu_inv_def nth_list_update)
  then show ?thesis
    by (simp add: core_response_def resp p'_def)
qed

lemma response_cpu_inv:
  assumes "handleMemResponse n ids now i resp c = Some (Inr c')" "cpu_inv ids c" "i < length (qp_cores c)"
  shows "cpu_inv ids c'"
proof -
  have "\<exists>c1. same_cores c c1 \<and> (c' = c1 \<or> c' = core_response now i resp c1)"
    using assms(1) cpu_complete_same [of n ids "of_nat i" resp c] same_cores_refl [of c]
    by (cases "cm_mmio_if (qp_mmio c) i") (auto simp: handleMemResponse_def opt_bind_ok_iff split: if_splits)
  then obtain c1 where c1: "same_cores c c1" "c' = c1 \<or> c' = core_response now i resp c1"
    by blast
  then show ?thesis
    using same_cores_inv [OF c1(1) assms(2)] core_response_inv [of ids c1 i] assms(3)
    by (auto simp: same_cores_def dest: list_all2_lengthD)
qed

lemma cpu_run_inv:
  assumes "cpu_run ids os c" "\<And>i. inj (ids (From_core i))"
  shows "cpu_inv ids c"
  using assms(1)
proof (induction rule: cpu_run.induct)
  case (built pc cfg filter_unmatched dk base raw c)
  then show ?case by (rule new_cpu_inv) (rule assms(2))
next
  case (launched c dir readable freopen_ok exec_ok env fork_pid shmname c' child)
  then show ?case by (auto simp: init_launch_def res_bind_Inr_iff cpu_inv_def)
next
  case (ticked c n order ns now c' r)
  then show ?case using cpu_tick_inv by blast
next
  case (response c i n now resp c')
  then show ?case using response_cpu_inv by blast
next
  case (irq c vcpu line level c')
  then show ?case by (auto simp: handleIrqEvent_def cpu_inv_def split: if_splits)
qed (auto simp: init_attached_def cpu_inv_def)

section \<open>A core that stays behind\<close>

lemma core_source_keep:
  "core_source (keep_source i src b) j = (if i = j \<and> i < unat QUETZ_MAX_MMIO_VCORES then src else core_source b j)"
  by (auto simp: core_source_def keep_source_def)

text \<open>In a round over all cores, core \<open>i\<close> ticks once, on its own commands.\<close>

lemma cores_tick_core:
  assumes "cores_tick ids now is c = Inr c'" "distinct is" "i \<in> set is" "i < length (qp_cores c)"
  shows "\<exists>c1 c2. core_tick ids now i c1 = Inr c2 \<and> qp_config c1 = qp_config c \<and> length (qp_cores c1) = length (qp_cores c) \<and>
    qp_cores c1 ! i = qp_cores c ! i \<and> core_source (qp_backend c1) i = core_source (qp_backend c) i \<and> qp_cores c' ! i = qp_cores c2 ! i"
  using assms
proof (induction "is" arbitrary: c)
  case (Cons k ks)
  obtain c1 where c1: "core_tick ids now k c = Inr c1" "cores_tick ids now ks c1 = Inr c'"
    using Cons.prems(1) by (auto simp: res_bind_Inr_iff)
  obtain p2 src where step: "qp_cores c1 = (qp_cores c)[k := p2]" "qp_backend c1 = keep_source k src (qp_backend c)" "qp_config c1 = qp_config c"
    using core_tick_cases [OF c1(1)] by metis
  show ?case
  proof (cases "k = i")
    case True
    have rest: "qp_cores c' ! i = qp_cores c1 ! i" if "cores_tick ids now js c1 = Inr c'" "i \<notin> set js" for js
      using that
    proof (induction js arbitrary: c1)
      case (Cons j js)
      then obtain d where d: "core_tick ids now j c1 = Inr d" "cores_tick ids now js d = Inr c'"
        by (auto simp: res_bind_Inr_iff)
      obtain q where "qp_cores d = (qp_cores c1)[j := q]"
        using core_tick_cases [OF d(1)] by metis
      then show ?case
        using Cons d by simp
    qed simp
    then show ?thesis
      using c1 True Cons.prems(2) by (intro exI [of _ c] exI [of _ c1]) auto
  next
    case False
    have "\<exists>d e. core_tick ids now i d = Inr e \<and> qp_config d = qp_config c1 \<and> length (qp_cores d) = length (qp_cores c1) \<and>
      qp_cores d ! i = qp_cores c1 ! i \<and> core_source (qp_backend d) i = core_source (qp_backend c1) i \<and> qp_cores c' ! i = qp_cores e ! i"
      using Cons.IH [OF c1(2)] Cons.prems(2-4) False step(1) by simp
    then show ?thesis
      using step False by (auto simp: core_source_keep)
  qed
qed simp

lemma exit_undelivered:
  "cmd \<in> set src \<Longrightarrow> qc_cmd cmd = cmd_code CMD_EXIT \<Longrightarrow> cmd \<in> ev_cmd ` set (undelivered ctx inp src)"
proof -
  assume cmd: "cmd \<in> set src" "qc_cmd cmd = cmd_code CMD_EXIT"
  have "cmd_code CMD_EXIT \<noteq> cmd_code CMD_COMPUTE_RUN"
    by simp
  then have "expand ctx cmd = [\<lparr>ev_cmd = cmd, ev_stall = event_stall ctx cmd\<rparr>]"
    using cmd(2) by (simp add: expand_def)
  then show ?thesis
    using cmd(1) by (force simp: undelivered_def)
qed

lemma drained_no_exit:
  assumes "pipeline_inv ids' ctx p" "\<not> pl_halted p" "tick ids' now p src = Inr (p', src')" "isDrained p'" "\<not> pl_halted p'" "0 < max_queue_len ctx"
  shows "\<forall>cmd \<in> set src. qc_cmd cmd \<noteq> cmd_code CMD_EXIT"
proof -
  have inv: "pl_ctx p = ctx" "pend_ok p" "limits_ok ids' p 0"
    using assms(1) by (simp_all add: pipeline_inv_def)
  obtain q inp ex p1 p2 issued ret fin st where
    rf: "refill (pl_ctx p) (pl_coreQ p) (pl_input p) src (max_queue_len (pl_ctx p)) = (q, inp, src', ex)" and
    p1: "p1 = p\<lparr>pl_coreQ := q, pl_input := inp,
       pl_refill_hit_cap := (max_queue_len (pl_ctx p) > 0 \<and> length q \<ge> unat (max_queue_len (pl_ctx p)))\<rparr>" and
    adv: "advanced ids' p1 0 ret fin p2 issued" "p' = pl_stat st p2"
    by (rule tick_advanced [OF assms(3,2) inv(2,3)])
  have rest: "pl_coreQ p' = []" "undelivered ctx (pl_input p') src' = []"
    using drained_is_exhausted [OF assms(1-3)] assms(4-6) by auto
  have run: "fin = []" "pl_input p' = inp" "map ev_cmd q = ret @ fin @ map ev_cmd (pl_coreQ p')" "\<forall>c \<in> set ret. qc_cmd c \<noteq> cmd_code CMD_EXIT"
    using adv assms(5) p1 by (auto simp: advanced_def)
  have "ev_cmd ` set q = set ret"
    using run(1,3) rest(1) by (simp flip: set_map)
  moreover have "q = pl_coreQ p @ undelivered ctx (pl_input p) src"
    using refill_spec(1) [OF rf] rest(2) run(2) inv(1) by simp
  ultimately show ?thesis
    using run(4) exit_undelivered [of _ src ctx "pl_input p"] by (metis UnI2 imageI image_Un set_append)
qed

lemma cores_tick_same: "cores_tick ids now is c = Inr c' \<Longrightarrow> qp_child_running c' = qp_child_running c \<and> qp_config c' = qp_config c"
proof (induction "is" arbitrary: c)
  case (Cons i "is")
  then obtain c1 where c1: "core_tick ids now i c = Inr c1" "cores_tick ids now is c1 = Inr c'"
    by (auto simp: res_bind_Inr_iff)
  have "qp_child_running c1 = qp_child_running c \<and> qp_config c1 = qp_config c"
    by (rule core_tick_cases [OF c1(1)]) simp
  then show ?case
    using Cons.IH [OF c1(2)] by simp
qed simp

lemma core_tick_drained:
  assumes "core_tick ids now i c = Inr c'" "i < length (qp_cores c)" "\<not> pl_halted (qp_cores c' ! i)" "isDrained (qp_cores c' ! i)"
    and "0 < max_queue_len ctx" "pipeline_inv (ids (From_core i)) ctx (qp_cores c ! i)" "h = pl_halted (qp_cores c ! i)"
  shows "\<not> h \<and> (\<forall>cmd \<in> set (core_source (qp_backend c) i). qc_cmd cmd \<noteq> cmd_code CMD_EXIT)"
proof -
  obtain p p2 src where tick: "stat_more (qp_cores c ! i) p"
    "tick (ids (From_core i)) now (with_handlers (qp_handlers c) p) (core_source (qp_backend c) i) = Inr (p2, src)"
    "qp_cores c' = (qp_cores c)[i := p2]"
    using core_tick_cases [OF assms(1)] by metis
  have p2: "\<not> pl_halted p2" "isDrained p2"
    using assms(2-4) tick(3) by simp_all
  have p: "pl_halted p = h" "pipeline_inv (ids (From_core i)) ctx p"
    using stat_more_facts [OF tick(1)] assms(6,7) by simp_all
  have "\<not> h"
    using tick_halted [OF _ tick(2)] p(1) p2(1) by auto
  moreover from this have "\<forall>cmd \<in> set (core_source (qp_backend c) i). qc_cmd cmd \<noteq> cmd_code CMD_EXIT"
    using drained_no_exit [OF _ _ tick(2) p2(2,1) assms(5)] p by simp
  ultimately show ?thesis
    by blast
qed

section \<open>Properties\<close>

text \<open>A component with one core, and the tick in which the core reads its exit record.\<close>

definition bare_deck :: deck where
  "bare_deck = \<lparr>dk_handlers = [], dk_memory = None, dk_mmio_port = (\<lambda>_. False), dk_mmio_slot = (\<lambda>_. False), dk_accelerators = None\<rparr>"

definition one_core :: quetz_cpu where
  "one_core = (case new_quetz_cpu c_numbers sample_config False bare_deck 0x5000 sample_raw of Inr c \<Rightarrow> c)"

definition exit_record :: quetz_command where
  "exit_record = \<lparr>qc_cmd = cmd_code CMD_EXIT, qc_size = 0, qc_pc = 0, qc_addr = 0, qc_insn_class = 0, qc_data = replicate 64 0\<rparr>"

definition plain_ids :: request_ids where
  "plain_ids = (\<lambda>_ k. k)"

lemma sample_config_fields:
  "cfg_sst_window_cache sample_config = False" "cfg_system_mode sample_config = False" "cfg_vcpu_count sample_config = 1"
  "cfg_balar_doorbell_addr sample_config = 0" "cfg_max_core_queue sample_config = 64" "cfg_max_issue_cyc sample_config = 1"
  "cfg_max_pend_trans sample_config = 16" "cfg_cache_line_sz sample_config = 64" "cfg_max_insts sample_config = 0"
  "cfg_region_handlers sample_config = []"
  by (simp_all add: sample_config_def read_params_def Let_def find_param_def)

lemma one_core_built: "new_quetz_cpu c_numbers sample_config False bare_deck 0x5000 sample_raw = Inr one_core"
proof -
  have "\<exists>c. new_quetz_cpu c_numbers sample_config False bare_deck 0x5000 sample_raw = Inr c"
    by (simp add: new_quetz_cpu_def configure_caches_def sample_config_fields loadAcceleratorPorts_def loadRegionHandlers_def bare_deck_def want_mmio_def new_core_def new_pipeline_def core_context_def)
  then show ?thesis
    by (auto simp: one_core_def)
qed

definition core0 :: pipeline where
  "core0 = link_core False (case new_core sample_config False [] of Inr p \<Rightarrow> p)"

lemma core0_new: "res_bind (new_core sample_config False []) (\<lambda>p. Inr (link_core False p)) = Inr core0"
  by (simp add: core0_def new_core_def new_pipeline_def core_context_def sample_config_fields)

lemma tunnel_keeps_requests: "mmio_req (tunnel_initialize True n sh) = mmio_req sh"
  by (simp add: tunnel_initialize_def Let_def ipc_constants clear_rows_eq zero_storage_def statistics_initMaster_def sync_initMaster_def)

lemma one_core_fields:
  "qp_config one_core = sample_config" "qp_cores one_core = [core0]" "qp_ports one_core = []" "qp_handlers one_core = []"
  "qp_launcher one_core = QemuLauncher" "qp_halted_count one_core = 0" "qp_child_poll_ticks one_core = 0" "qp_child_running one_core"
  "cm_bank (qp_mmio one_core) = wb_init" "cm_generic (qp_mmio one_core) = (\<lambda>_. None)" "cm_cfg (qp_mmio one_core) = mmio_config sample_config"
  "cm_port_cmds (qp_mmio one_core) = []" "pending (mmio_req (cm_shared (qp_mmio one_core)) 0) = 0"
    "qp_backend one_core = \<lparr>tb_deferred = (\<lambda>_. []), tb_rings = (\<lambda>_. [])\<rparr>"
proof -
  have req: "mmio_req sample_raw 0 = zero_req" "pending zero_req = 0"
    by (simp_all add: sample_raw_def zero_req_def)
  have eq: "one_core = \<lparr>qp_config = sample_config,
      qp_mmio = \<lparr>cm_cfg = mmio_config sample_config, cm_bank = wb_init, cm_epochs = (\<lambda>_. 0), cm_base = 0x5000,
        cm_shared = tunnel_initialize True (ucast (cfg_vcpu_count sample_config)) sample_raw, cm_mmio_if = (\<lambda>_. False),
        cm_ports = [], cm_port_ids = {}, cm_port_cmds = [], cm_generic = (\<lambda>_. None), cm_next = 0, cm_sent = [], cm_stats = []\<rparr>,
      qp_mem_if = (\<lambda>i. i < unat (cfg_vcpu_count sample_config)), qp_mem_sent = [], qp_ports = [], qp_cores = [core0],
      qp_handlers = [], qp_backend = \<lparr>tb_deferred = (\<lambda>_. []), tb_rings = (\<lambda>_. [])\<rparr>,
      qp_launcher = QemuLauncher, qp_stop_ticking = True, qp_may_end = False, qp_halted_count = 0,
      qp_child_poll_ticks = 0, qp_child_running = True\<rparr>"
    using one_core_built
    by (simp add: new_quetz_cpu_def configure_caches_def sample_config_fields loadAcceleratorPorts_def loadRegionHandlers_def bare_deck_def want_mmio_def core0_new)
  show "qp_config one_core = sample_config" "qp_cores one_core = [core0]" "qp_ports one_core = []" "qp_handlers one_core = []"
    "qp_launcher one_core = QemuLauncher" "qp_halted_count one_core = 0" "qp_child_poll_ticks one_core = 0" "qp_child_running one_core"
    "cm_bank (qp_mmio one_core) = wb_init" "cm_generic (qp_mmio one_core) = (\<lambda>_. None)" "cm_cfg (qp_mmio one_core) = mmio_config sample_config"
    "cm_port_cmds (qp_mmio one_core) = []" "pending (mmio_req (cm_shared (qp_mmio one_core)) 0) = 0"
    "qp_backend one_core = \<lparr>tb_deferred = (\<lambda>_. []), tb_rings = (\<lambda>_. [])\<rparr>"
    unfolding eq by (simp_all add: tunnel_keeps_requests req)
qed

definition exiting :: quetz_cpu where
  "exiting = (init_attached one_core)\<lparr>qp_mmio := (qp_mmio (init_attached one_core))\<lparr>cm_shared := cm_shared (qp_mmio one_core)\<rparr>,
     qp_backend := \<lparr>tb_deferred = (\<lambda>_. []), tb_rings = (\<lambda>_. [exit_record])\<rparr>\<rparr>"

lemma exiting_run: "cpu_run plain_ids os exiting"
  unfolding exiting_def by (rule cpu_run.guest [OF cpu_run.attached [OF cpu_run.built [OF one_core_built]]])

lemma exiting_core:
  obtains p src where "tick (plain_ids (From_core 0)) 0 (with_handlers [] core0) [exit_record] = Inr (p, src)"
    "pl_halted p" "em_pending_count (pl_emitter p) = 0"
proof -
  have "case tick (plain_ids (From_core 0)) 0 (with_handlers [] core0) [exit_record] of
      Inr (p, src) \<Rightarrow> pl_halted p \<and> em_pending_count (pl_emitter p) = 0 | Inl _ \<Rightarrow> False"
    by code_simp
  then show thesis
    using that by (auto split: sum.splits)
qed

lemma idle_poll: "poll_vcpu n ids' m 0 = Some (Inr m)" if "\<not> cf_sst_window_cache (cm_cfg m)" "pending (mmio_req (cm_shared m) 0) = 0"
  using that by (simp add: poll_vcpu_def poll_reset_def Let_def)

lemma one_core_run: "cpu_run plain_ids os (init_attached one_core)"
  by (rule cpu_run.attached [OF cpu_run.built [OF one_core_built]])

lemma plain_ids_inj: "inj (plain_ids s)"
  by (simp add: plain_ids_def)

text \<open>C40. In every run of the CPU component the count of halted cores is exact, so the comparison that ends the simulation means
  what it says, and every core respects its queue and request limits.\<close>

theorem halted_count_exact:
  assumes "cpu_run ids os c" "\<And>i. inj (ids (From_core i))"
  shows "unat (qp_halted_count c) = card {i. i < unat (cfg_vcpu_count (qp_config c)) \<and> pl_halted (qp_cores c ! i)} \<and>
    (\<forall>p \<in> set (qp_cores c). length (pl_coreQ p) \<le> unat (cfg_max_core_queue (qp_config c)) \<and>
       em_pending_count (pl_emitter p) \<le> cfg_max_pend_trans (qp_config c))"
proof -
  have inv: "cpu_inv ids c"
    by (rule cpu_run_inv [OF assms])
  then have "unat (qp_halted_count c) = card {i. i < length (qp_cores c) \<and> pl_halted (qp_cores c ! i)}"
    by (simp add: cpu_inv_def length_filter_conv_card)
  moreover have "length (pl_coreQ p) \<le> unat (cfg_max_core_queue (qp_config c)) \<and>
      em_pending_count (pl_emitter p) \<le> cfg_max_pend_trans (qp_config c)" if p: "p \<in> set (qp_cores c)" for p
  proof -
    obtain i where "pipeline_inv (ids (From_core i)) (core_context (qp_config c)) p"
      using inv p by (auto simp: cpu_inv_def in_set_conv_nth)
    then show ?thesis
      by (auto simp: pipeline_inv_def limits_ok_def core_context_def)
  qed
  ultimately show ?thesis
    using inv by (simp add: cpu_inv_def)
qed

theorem halted_count_exact_witness:
  "unat (qp_halted_count (init_attached one_core)) =
    card {i. i < unat (cfg_vcpu_count (qp_config (init_attached one_core))) \<and> pl_halted (qp_cores (init_attached one_core) ! i)}"
  using halted_count_exact [OF one_core_run [of "\<lambda>_. W_running"] plain_ids_inj] by blast



text \<open>C21. A lost guest is reported, and only a lost guest. In every state that satisfies the component's invariant, as all
  states of a run do: if the last check of a tick fails then the child was seen dead before this tick, and some running core has no exit record left to read: had the record been in its trace ring, the core would have
  halted or would not have been drained.\<close>

theorem lost_guest_exact:
  assumes inv: "cpu_inv ids c"
    and tick: "cpu_poll n ids [0..<unat (cfg_vcpu_count (qp_config c))] (clock_shared ns c) = Some (Inr c1)"
      "cores_tick ids now [0..<unat (cfg_vcpu_count (qp_config c))] c1 = Inr c2"
      "ports_process ids order [0..<length (qp_ports c2)] c2 = Inr c3" "poll_child os c3 = Inr c4"
    and lost: "tick_verdict (qp_child_running c3) c4 = Inl e"
  shows "cpu_tick n ids os order ns now c = Some (Inl e) \<and> \<not> qp_child_running c \<and>
    (\<exists>i < length (qp_cores c). \<not> pl_halted (qp_cores c ! i) \<and>
       (\<forall>cmd \<in> set (core_source (qp_backend c) i). qc_cmd cmd \<noteq> cmd_code CMD_EXIT))"
proof -
  let ?n = "unat (cfg_vcpu_count (qp_config c))"
  have s1: "same_cores c c1"
    using same_cores_trans [OF same_cores_mmio cpu_poll_same [OF tick(1) [unfolded clock_shared_def]]] .
  have inv1: "cpu_inv ids c1" and cfg1: "qp_config c1 = qp_config c" and len1: "length (qp_cores c1) = ?n"
    using same_cores_inv [OF s1 inv] s1 by (simp_all add: same_cores_def cpu_inv_def)
  have inv2: "cpu_inv ids c2"
    by (rule cores_tick_inv [OF tick(2) inv1]) (simp add: len1)
  have s3: "same_cores c2 c3"
    by (rule ports_process_same [OF tick(3)])
  have c4: "cpu_inv ids c4" "qp_cores c4 = qp_cores c3" "qp_halted_count c4 = qp_halted_count c3" "qp_config c4 = qp_config c3"
    using same_cores_inv [OF s3 inv2] poll_child_same [OF tick(4)] by simp_all
  have verdict: "qp_halted_count c4 < cfg_vcpu_count (qp_config c4)" "\<not> qp_child_running c3"
    "\<forall>i < unat (cfg_vcpu_count (qp_config c4)). isDrained (qp_cores c4 ! i)"
    using lost by (auto simp: tick_verdict_def Let_def split: if_splits)
  have "length (filter pl_halted (qp_cores c4)) < length (qp_cores c4)"
    using verdict(1) c4(1) by (simp add: cpu_inv_def word_less_nat_alt)
  then obtain i where i: "i < length (qp_cores c4)" "\<not> pl_halted (qp_cores c4 ! i)"
    by (metis filter_True in_set_conv_nth less_irrefl)
  have cfg2: "qp_child_running c2 = qp_child_running c1" "qp_config c2 = qp_config c1"
    using cores_tick_same [OF tick(2)] by simp_all
  have len: "i < ?n" "length (qp_cores c4) = ?n" "qp_child_running c3 = qp_child_running c"
    using i(1) c4 s1 s3 cfg1 cfg2 by (simp_all add: cpu_inv_def same_cores_def)
  obtain d e' where core: "core_tick ids now i d = Inr e'" "length (qp_cores d) = length (qp_cores c1)"
      "qp_cores d ! i = qp_cores c1 ! i" "core_source (qp_backend d) i = core_source (qp_backend c1) i" "qp_cores c2 ! i = qp_cores e' ! i"
    using cores_tick_core [OF tick(2) distinct_upt, of i] len(1) len1 by auto
  have "stat_more (qp_cores e' ! i) (qp_cores c4 ! i)" "stat_more (qp_cores c ! i) (qp_cores d ! i)"
    using s1 s3 c4(2) i(1) core(3,5) len(1) len1 by (auto simp: same_cores_def list_all2_conv_all_nth)
  note after = stat_more_facts [OF this(1)] and before = stat_more_facts [OF this(2)]
  have running: "\<not> pl_halted (qp_cores c ! i) \<and> (\<forall>cmd \<in> set (core_source (qp_backend d) i). qc_cmd cmd \<noteq> cmd_code CMD_EXIT)"
  proof (rule core_tick_drained [OF core(1)])
    show "i < length (qp_cores d)" "\<not> pl_halted (qp_cores e' ! i)" "isDrained (qp_cores e' ! i)" "0 < max_queue_len (core_context (qp_config c))"
      using len(1) len1 core(2) i(2) after verdict(3) c4 inv len(2) by (auto simp: cpu_inv_def)
    show "pipeline_inv (ids (From_core i)) (core_context (qp_config c)) (qp_cores d ! i)"
      using inv1 cfg1 core(3) len(1) len1 by (simp add: cpu_inv_def)
    show "pl_halted (qp_cores c ! i) = pl_halted (qp_cores d ! i)"
      using before(1) by simp
  qed
  have "cpu_tick n ids os order ns now c = Some (Inl e)"
    using tick lost by (simp add: cpu_tick_def)
  then show ?thesis
    using running verdict(2) len(1,3) inv core(4) s1 by (auto simp: cpu_inv_def same_cores_def)
qed

theorem lost_guest_exact_witness:
  "\<exists>e. cpu_tick 1 plain_ids (\<lambda>_. W_running) (\<lambda>_. []) 0 0 (one_core\<lparr>qp_child_running := False\<rparr>) = Some (Inl e) \<and>
    \<not> qp_child_running (one_core\<lparr>qp_child_running := False\<rparr>)"
proof -
  have "case tick (plain_ids (From_core 0)) 0 (with_handlers [] core0) [] of
      Inr (p, src) \<Rightarrow> \<not> pl_halted p \<and> isDrained p | Inl _ \<Rightarrow> False"
    by code_simp
  then obtain p src where core: "tick (plain_ids (From_core 0)) 0 (with_handlers [] core0) [] = Inr (p, src)" "\<not> pl_halted p" "isDrained p"
    by (auto split: sum.splits)
  define c where "c = one_core\<lparr>qp_child_running := False\<rparr>"
  have "cpu_inv plain_ids one_core"
    by (rule cpu_run_inv [OF cpu_run.built [OF one_core_built]]) (rule plain_ids_inj)
  then have inv: "cpu_inv plain_ids c"
    by (simp add: c_def cpu_inv_def)
  have cfg: "qp_config c = sample_config"
    by (simp add: c_def one_core_fields)
  define c1 where "c1 = clock_shared 0 c"
  have c1: "qp_cores c1 = [core0]" "qp_config c1 = sample_config" "qp_handlers c1 = []" "core_source (qp_backend c1) 0 = []"
    "qp_ports c1 = []" "qp_halted_count c1 = 0" "qp_launcher c1 = QemuLauncher" "qp_child_poll_ticks c1 = 0" "\<not> qp_child_running c1"
    "cm_cfg (qp_mmio c1) = mmio_config sample_config" "cm_port_cmds (qp_mmio c1) = []" "pending (mmio_req (cm_shared (qp_mmio c1)) 0) = 0"
    by (simp_all add: c1_def c_def clock_shared_def one_core_fields core_source_def incrementSimCycles_def updateSimTime_def)
  have poll: "cpu_poll 1 plain_ids [0] c1 = Some (Inr c1)"
    by (simp add: cpu_poll_vcpu_def idle_poll c1 mmio_config_def sample_config_fields)
  define c2 where "c2 = c1\<lparr>qp_cores := [p], qp_handlers := handlers_of [] p, qp_backend := keep_source 0 src (qp_backend c1)\<rparr>"
  have cores: "cores_tick plain_ids 0 [0] c1 = Inr c2"
    using core by (simp add: core_tick_def c1 asyncOutstandingForVcpu_def c2_def)
  have ports: "ports_process plain_ids (\<lambda>_. []) [0..<length (qp_ports c2)] c2 = Inr c2"
    by (simp add: c2_def c1)
  define c4 where "c4 = c2\<lparr>qp_child_poll_ticks := 1\<rparr>"
  have child: "poll_child (\<lambda>_. W_running) c2 = Inr c4"
    by (simp add: poll_child_def c4_def c2_def c1 sample_config_fields)
  have lost: "tick_verdict (qp_child_running c2) c4 = Inl (Fatal ''QEMU exited before all vCPU EXIT records arrived'')"
    using core(3) by (simp add: tick_verdict_def c4_def c2_def c1 sample_config_fields)
  have n: "[0..<unat (cfg_vcpu_count (qp_config c))] = [0]"
    by (simp add: cfg sample_config_fields)
  show ?thesis
    using lost_guest_exact [OF inv _ _ ports child lost, of 1 0 c1 0] poll cores
    unfolding n c_def [symmetric] c1_def [symmetric] by blast
qed

end
