(* ===== verification/Quetz_Core_Run.thy ===== *)
theory Quetz_Core_Run
  imports Quetz_Pipeline Quetz_Plugin "HOL-Library.Sublist"
begin

text \<open>
  A core from the QEMU callbacks to the memory system: the commands the plugin wrote arrive in the trace ring in any portions,
  and cycles and memory responses interleave with them in any order. The theorems say that the requests a core sends are, in
  order, those of the program, and that a core whose trace ends in an exit halts after a bounded number of cycles that are not
  blocked.
\<close>

section \<open>Runs of a core\<close>

datatype core_event = Feed "quetz_command list" | Cycle u64 | Answer u64 mem_response

type_synonym core_state = "pipeline \<times> quetz_command list"

fun core_step :: "(nat \<Rightarrow> nat) \<Rightarrow> core_event \<Rightarrow> core_state \<Rightarrow> core_state result" where
  "core_step ids (Feed cmds) (p, src) = Inr (p, src @ cmds)"
| "core_step ids (Cycle now) (p, src) = tick ids now p src"
| "core_step ids (Answer now resp) (p, src) = Inr (fst (pipeline_handleResponse now p resp), src)"

fun core_run :: "(nat \<Rightarrow> nat) \<Rightarrow> core_event list \<Rightarrow> core_state \<Rightarrow> core_state result" where
  "core_run ids [] s = Inr s"
| "core_run ids (e # es) s = res_bind (core_step ids e s) (core_run ids es)"

fun fed :: "core_event list \<Rightarrow> quetz_command list" where
  "fed [] = []"
| "fed (Feed cmds # es) = cmds @ fed es"
| "fed (_ # es) = fed es"

definition linked :: "bool \<Rightarrow> bool \<Rightarrow> pipeline \<Rightarrow> pipeline" where
  "linked mem mmio p = p\<lparr>pl_emitter := setMmioLink (setLink (pl_emitter p) mem) mmio\<rparr>"

text \<open>The commands a list of ring commands stands for, and the cycles they take at most.\<close>

definition expanded :: "core_ctx \<Rightarrow> quetz_command list \<Rightarrow> quetz_command list" where
  "expanded ctx cmds = map ev_cmd (concat (map (expand ctx) cmds))"

definition trace_work :: "core_ctx \<Rightarrow> quetz_command list \<Rightarrow> nat" where
  "trace_work ctx cmds = sum_list (map event_work (concat (map (expand ctx) cmds)))"

definition core_work :: "core_ctx \<Rightarrow> core_state \<Rightarrow> nat" where
  "core_work ctx s = queue_work (fst s) + sum_list (map event_work (undelivered ctx (pl_input (fst s)) (snd s)))"

text \<open>A cycle is blocked when an operation waits and no further request may be outstanding.\<close>

definition blocked :: "pipeline \<Rightarrow> bool" where
  "blocked p \<longleftrightarrow> pl_has_pending_op p \<and> max_pending (pl_ctx p) \<le> em_pending_count (pl_emitter p)"

fun free_cycles :: "(nat \<Rightarrow> nat) \<Rightarrow> core_event list \<Rightarrow> core_state \<Rightarrow> nat" where
  "free_cycles ids [] s = 0"
| "free_cycles ids (e # es) s =
     (case core_step ids e s of
        Inl _ \<Rightarrow> 0
      | Inr s' \<Rightarrow> (case e of Cycle _ \<Rightarrow> if blocked (fst s) then 0 else 1 | _ \<Rightarrow> 0) + free_cycles ids es s')"

section \<open>One step\<close>

text \<open>What a core has done with the commands \<open>cmds\<close> it was fed.\<close>

definition accounts :: "(nat \<Rightarrow> nat) \<Rightarrow> core_ctx \<Rightarrow> mem_access option \<Rightarrow> u64 \<Rightarrow> quetz_command list \<Rightarrow> core_state \<Rightarrow> bool" where
  "accounts ids ctx strat line cmds s \<longleftrightarrow>
     pipeline_inv ids ctx (fst s) \<and>
     (\<exists>ret fin. expanded ctx cmds = ret @ fin @ map ev_cmd (pl_coreQ (fst s) @ undelivered ctx (pl_input (fst s)) (snd s)) \<and>
        pl_inst_count (fst s) = of_nat (length ret) \<and> (\<forall>c \<in> set ret. qc_cmd c \<noteq> cmd_code CMD_EXIT) \<and>
        length fin \<le> 1 \<and> (fin \<noteq> [] \<longrightarrow> pl_halted (fst s) \<and> \<not> pl_has_pending_op (fst s)) \<and>
        pl_guest_exit (fst s) = (fin \<noteq> [] \<and> qc_cmd (hd fin) = cmd_code CMD_EXIT) \<and>
        wires_ok strat line ret (fst s))"

lemma tick_full:
  assumes "tick ids now p src = Inr (p', src')" "\<not> pl_halted p" "pipeline_inv ids ctx p"
  obtains ret fin where
    "map ev_cmd (pl_coreQ p @ undelivered ctx (pl_input p) src) =
       ret @ fin @ map ev_cmd (pl_coreQ p' @ undelivered ctx (pl_input p') src')"
    "pl_inst_count p' = pl_inst_count p + of_nat (length ret)" "\<forall>c \<in> set ret. qc_cmd c \<noteq> cmd_code CMD_EXIT" "length fin \<le> 1"
    "fin \<noteq> [] \<longrightarrow> pl_halted p' \<and> \<not> pl_has_pending_op p'"
    "pl_guest_exit p' = (if fin = [] then pl_guest_exit p else qc_cmd (hd fin) = cmd_code CMD_EXIT)"
    "\<forall>strat line ret0. wires_ok strat line ret0 p \<longrightarrow> wires_ok strat line (ret0 @ ret) p'"
    "core_work ctx (p', src') \<le> core_work ctx (p, src)"
    "0 < max_queue_len ctx \<and> 0 < max_issue_per_cycle ctx \<and> \<not> blocked p \<longrightarrow>
       core_work ctx (p', src') < core_work ctx (p, src) \<or> pl_coreQ p @ undelivered ctx (pl_input p) src = []"
proof -
  have inv: "pl_ctx p = ctx" "pend_ok p" "limits_ok ids p 0" using assms(3) by (auto simp: pipeline_inv_def)
  from tick_advanced [OF assms(1,2) inv(2,3)] obtain q inp ex p1 p2 issued ret fin st where
    rf: "refill (pl_ctx p) (pl_coreQ p) (pl_input p) src (max_queue_len (pl_ctx p)) = (q, inp, src', ex)"
    and p1: "p1 = p\<lparr>pl_coreQ := q, pl_input := inp,
       pl_refill_hit_cap := (max_queue_len (pl_ctx p) > 0 \<and> length q \<ge> unat (max_queue_len (pl_ctx p)))\<rparr>"
    and adv: "advanced ids p1 0 ret fin p2 issued" "p' = pl_stat st p2"
    and pr: "q \<noteq> [] \<and> 0 < max_issue_per_cycle (pl_ctx p) \<and>
      (\<not> pl_has_pending_op p \<or> em_pending_count (pl_emitter p) < max_pending (pl_ctx p)) \<longrightarrow> queue_work p2 < queue_work p1" .
  have st: "q @ undelivered ctx inp src' = pl_coreQ p @ undelivered ctx (pl_input p) src" using refill_spec(1) [OF rf] inv(1) by simp
  obtain r where r: "q = pl_coreQ p @ r" using refill_spec(2) [OF rf] by blast
  have inp: "pl_input p' = inp" using adv p1 by (simp add: advanced_def)
  have sum: "sum_list (map event_work q) + sum_list (map event_work (undelivered ctx inp src')) =
      sum_list (map event_work (pl_coreQ p)) + sum_list (map event_work (undelivered ctx (pl_input p) src))"
    using arg_cong [OF st, of "\<lambda>x. sum_list (map event_work x)"] by simp
  have le: "pl_has_pending_op p \<Longrightarrow> 1 + unat (pl_offset p) \<le> sum_list (map event_work (pl_coreQ p))"
    using inv(2) op_bytes_le [of "pl_pending_op p"]
    by (cases "pl_coreQ p") (auto simp: pend_ok_def event_work_def word_le_nat_alt)
  have w1: "core_work ctx (p, src) = queue_work p1 + sum_list (map event_work (undelivered ctx inp src'))"
    using sum le by (auto simp: core_work_def queue_work_def p1 r)
  have w2: "core_work ctx (p', src') = queue_work p2 + sum_list (map event_work (undelivered ctx inp src'))"
    using inp adv(2) by (simp add: core_work_def)
  have "wires_ok strat line ret0 p1" if "wires_ok strat line ret0 p" for strat line ret0
    using that inv(2) by (auto simp: wires_ok_def p1 r pend_ok_def split: if_splits)
  then have wires: "wires_ok strat line (ret0 @ ret) p'" if "wires_ok strat line ret0 p" for strat line ret0
    using that adv by (simp add: advanced_def)
  have "q = [] \<Longrightarrow> 0 < max_queue_len ctx \<Longrightarrow> pl_coreQ p @ undelivered ctx (pl_input p) src = []"
    using refill_spec(3) [OF rf] st inv(1) by (auto simp: undelivered_def run_events_def word_less_nat_alt)
  moreover have "core_work ctx (p', src') < core_work ctx (p, src)"
    if "q \<noteq> []" "0 < max_issue_per_cycle ctx" "\<not> blocked p"
    unfolding w1 w2 using pr that inv(1) by (auto simp: blocked_def not_le)
  moreover have "core_work ctx (p', src') \<le> core_work ctx (p, src)" unfolding w1 w2 using adv(1) by (simp add: advanced_def)
  moreover have "map ev_cmd (q @ undelivered ctx inp src') = ret @ fin @ map ev_cmd (pl_coreQ p' @ undelivered ctx (pl_input p') src')"
    using adv p1 inp by (simp add: advanced_def)
  ultimately show thesis
    using adv p1 wires unfolding st by (intro that [of ret fin]) (auto simp: advanced_def)
qed

section \<open>Runs\<close>

lemma response_keeps:
  "pl_coreQ (fst (pipeline_handleResponse now p resp)) = pl_coreQ p" "pl_input (fst (pipeline_handleResponse now p resp)) = pl_input p"
  "pl_inst_count (fst (pipeline_handleResponse now p resp)) = pl_inst_count p" "pl_halted (fst (pipeline_handleResponse now p resp)) = pl_halted p"
  "pl_has_pending_op (fst (pipeline_handleResponse now p resp)) = pl_has_pending_op p"
  "pl_guest_exit (fst (pipeline_handleResponse now p resp)) = pl_guest_exit p"
  "wires_ok strat line ret (fst (pipeline_handleResponse now p resp)) = wires_ok strat line ret p"
  "queue_work (fst (pipeline_handleResponse now p resp)) = queue_work p"
  by (auto simp: pipeline_handleResponse_def emitter_handleResponse_def wires_ok_def queue_work_def split: option.splits)

lemma accounts_tick:
  assumes "tick ids now p src = Inr (p', src')" "accounts ids ctx strat line cmds (p, src)"
  shows "accounts ids ctx strat line cmds (p', src')"
proof (cases "pl_halted p")
  case True
  then show ?thesis using assms by (simp add: tick_def)
next
  case False
  from assms(2) have inv: "pipeline_inv ids ctx p" by (simp add: accounts_def)
  from assms(2) obtain ret0 fin0 where a:
    "expanded ctx cmds = ret0 @ fin0 @ map ev_cmd (pl_coreQ p @ undelivered ctx (pl_input p) src)"
    "pl_inst_count p = of_nat (length ret0)" "\<forall>c \<in> set ret0. qc_cmd c \<noteq> cmd_code CMD_EXIT" "fin0 = []"
    "\<not> pl_guest_exit p" "wires_ok strat line ret0 p"
    using False by (auto simp: accounts_def)
  from tick_full [OF assms(1) False inv] obtain ret fin where t:
    "map ev_cmd (pl_coreQ p @ undelivered ctx (pl_input p) src) =
       ret @ fin @ map ev_cmd (pl_coreQ p' @ undelivered ctx (pl_input p') src')"
    "pl_inst_count p' = pl_inst_count p + of_nat (length ret)" "\<forall>c \<in> set ret. qc_cmd c \<noteq> cmd_code CMD_EXIT" "length fin \<le> 1"
    "fin \<noteq> [] \<longrightarrow> pl_halted p' \<and> \<not> pl_has_pending_op p'"
    "pl_guest_exit p' = (if fin = [] then pl_guest_exit p else qc_cmd (hd fin) = cmd_code CMD_EXIT)"
    "\<forall>strat line ret0. wires_ok strat line ret0 p \<longrightarrow> wires_ok strat line (ret0 @ ret) p'" .
  show ?thesis
    unfolding accounts_def fst_conv snd_conv
    using a t tick_inv [OF assms(1) inv] by (intro conjI exI [of _ "ret0 @ ret"] exI [of _ fin]) (auto split: if_splits)
qed

lemma accounts_feed:
  assumes "accounts ids ctx strat line cmds (p, src)"
  shows "accounts ids ctx strat line (cmds @ cs) (p, src @ cs)"
proof -
  have u: "undelivered ctx (pl_input p) (src @ cs) = undelivered ctx (pl_input p) src @ concat (map (expand ctx) cs)"
    by (simp add: undelivered_def)
  have e: "expanded ctx (cmds @ cs) = expanded ctx cmds @ map ev_cmd (concat (map (expand ctx) cs))" by (simp add: expanded_def)
  show ?thesis using assms unfolding accounts_def fst_conv snd_conv u e by (elim conjE exE) (simp, blast)
qed

lemma accounts_step:
  assumes "core_step ids e s = Inr s'" "accounts ids ctx strat line cmds s"
  shows "accounts ids ctx strat line (cmds @ fed [e]) s'"
proof (cases "(ids, e, s)" rule: core_step.cases)
  case (1 ids cs p src)
  then show ?thesis using assms accounts_feed by auto
next
  case (2 ids now p src)
  then show ?thesis using assms accounts_tick by (cases s') auto
next
  case (3 ids now resp p src)
  then have s': "s' = (fst (pipeline_handleResponse now p resp), src)" using assms(1) by simp
  then show ?thesis using assms(2) 3 response_inv [of now p resp] by (auto simp: accounts_def response_keeps prod_eq_iff)
qed

lemma accounts_run:
  "core_run ids es s = Inr s' \<Longrightarrow> accounts ids ctx strat line cmds s \<Longrightarrow> accounts ids ctx strat line (cmds @ fed es) s'"
proof (induction es arbitrary: s cmds)
  case (Cons e es)
  then obtain s1 where s1: "core_step ids e s = Inr s1" "core_run ids es s1 = Inr s'" by (auto simp: res_bind_Inr_iff)
  have "cmds @ fed (e # es) = (cmds @ fed [e]) @ fed es" by (cases e) auto
  then show ?case using Cons.IH [OF s1(2) accounts_step [OF s1(1) Cons.prems(2)]] by simp
qed simp

lemma accounts_init:
  assumes "new_pipeline ctx line strat = Inr p0" "inj ids"
  shows "accounts ids ctx strat line [] (linked mem mmio p0, [])"
  using assms
  by (auto simp: new_pipeline_def accounts_def pipeline_inv_def pend_ok_def limits_ok_def outstanding_ok_def emitter_init_def linked_def
      setLink_def setMmioLink_def expanded_def undelivered_def run_events_def wires_ok_def split: if_splits)

section \<open>The program and the memory system\<close>

definition traced_wires :: "mem_access option \<Rightarrow> u64 \<Rightarrow> traced \<Rightarrow> wire list" where
  "traced_wires strat line t = (case t of T_access c \<Rightarrow> cmd_wires strat line c | _ \<Rightarrow> [])"

lemma traced_wires_of: "qc_cmd c \<noteq> cmd_code CMD_EXIT \<Longrightarrow> traced_wires strat line (traced_of c) = cmd_wires strat line c"
  by (simp add: traced_wires_def traced_of_def cmd_wires_def)

lemma traced_exit_iff: "traced_of c = T_exit \<longleftrightarrow> qc_cmd c = cmd_code CMD_EXIT"
  by (simp add: traced_of_def)

lemma program_order_no_exit: "T_exit \<notin> set (program_order p v seen prev es)"
  by (induction p v seen prev es rule: program_order.induct) (auto split: insn_cb.splits)

lemma before_exit:
  assumes "po @ [T_exit] = xs @ ys" "T_exit \<notin> set xs" "T_exit \<notin> set po"
  shows "xs = take (length xs) po" "length xs \<le> length po" "ys \<noteq> []"
    "hd ys = (if length xs < length po then po ! length xs else T_exit)"
proof -
  have "ys \<noteq> []"
  proof
    assume "ys = []"
    then have "xs = po @ [T_exit]" using assms(1) by simp
    then show False using assms(2) by simp
  qed
  then obtain zs z where ys: "ys = zs @ [z]" by (cases ys rule: rev_cases) auto
  then have po: "po = xs @ zs" using assms(1) by simp
  show "xs = take (length xs) po" "length xs \<le> length po" "ys \<noteq> []" using po ys by auto
  show "hd ys = (if length xs < length po then po ! length xs else T_exit)"
    using po ys assms(1) by (cases zs) (auto simp: nth_append)
qed

text \<open>The state of a core over a finished trace: how much of the program it has retired and sent.\<close>

lemma accounts_program:
  assumes "accounts ids ctx strat line cmds (p, src)" "delivered ctx (cmds @ later) = po @ [T_exit]" "T_exit \<notin> set po"
  obtains k part where "k \<le> length po" "pl_inst_count p = of_nat k"
    "map wire_of (em_sent (pl_emitter p)) = concat (map (traced_wires strat line) (take k po)) @ part"
    "prefix part (if k < length po then traced_wires strat line (po ! k) else [])" "pl_guest_exit p \<longrightarrow> k = length po \<and> part = []"
proof -
  from assms(1) obtain ret fin where a: "expanded ctx cmds = ret @ fin @ map ev_cmd (pl_coreQ p @ undelivered ctx (pl_input p) src)"
    "pl_inst_count p = of_nat (length ret)" "\<forall>c \<in> set ret. qc_cmd c \<noteq> cmd_code CMD_EXIT" "length fin \<le> 1"
    "fin \<noteq> [] \<longrightarrow> pl_halted p \<and> \<not> pl_has_pending_op p" "pl_guest_exit p = (fin \<noteq> [] \<and> qc_cmd (hd fin) = cmd_code CMD_EXIT)"
    "wires_ok strat line ret p"
    and inv: "pend_ok p" by (auto simp: accounts_def pipeline_inv_def)
  define tail where "tail = map traced_of (fin @ map ev_cmd (pl_coreQ p @ undelivered ctx (pl_input p) src)) @ delivered ctx later"
  have eq: "po @ [T_exit] = map traced_of ret @ tail"
    using assms(2) arg_cong [OF a(1), of "map traced_of"] by (simp add: delivered_def expanded_def tail_def)
  have "T_exit \<notin> set (map traced_of ret)" using a(3) by (auto simp: traced_exit_iff [THEN iffD1] image_iff dest: sym)
  note b = before_exit [OF eq this assms(3)]
  from a(7) obtain part where w: "map wire_of (em_sent (pl_emitter p)) = concat (map (cmd_wires strat line) ret) @ part"
      "if pl_has_pending_op p then cmd_wires strat line (ev_cmd (hd (pl_coreQ p))) = part @ op_rest line (pl_pending_op p) (pl_offset p)
       else part = []" by (auto simp: wires_ok_def)
  have "map (cmd_wires strat line) ret = map (traced_wires strat line) (map traced_of ret)"
    using a(3) by (simp add: traced_wires_of)
  then have sent: "map wire_of (em_sent (pl_emitter p)) = concat (map (traced_wires strat line) (take (length ret) po)) @ part"
    unfolding w(1) b(1) [unfolded length_map, symmetric] by (rule arg_cong)
  have pre: "prefix part (if length ret < length po then traced_wires strat line (po ! length ret) else [])"
  proof (cases "pl_has_pending_op p")
    case True
    then obtain ev q where q: "pl_coreQ p = ev # q" "qc_cmd (ev_cmd ev) \<noteq> cmd_code CMD_EXIT" "fin = []"
      using inv a(5) by (cases "pl_coreQ p") (auto simp: pend_ok_def is_exit_def)
    then have "hd tail = traced_of (ev_cmd ev)" by (simp add: tail_def)
    moreover have "traced_of (ev_cmd ev) \<noteq> T_exit" using q(2) by (simp add: traced_exit_iff)
    ultimately have "length ret < length po" "po ! length ret = traced_of (ev_cmd ev)" using b(4) by (auto split: if_splits)
    then show ?thesis using w(2) True q by (simp add: traced_wires_of)
  qed (use w(2) in simp)
  have "length ret = length po \<and> part = []" if "pl_guest_exit p"
  proof -
    from that a(6) have f: "fin \<noteq> []" "traced_of (hd fin) = T_exit" by (auto simp: traced_exit_iff)
    then have "hd tail = T_exit" by (cases fin) (auto simp: tail_def)
    then have "\<not> length ret < length po" using b(4) assms(3) nth_mem by fastforce
    then show ?thesis using b(2) w(2) a(5) f(1) by (auto split: if_splits)
  qed
  then show thesis using that [OF _ a(2) sent pre] b(2) by simp
qed

section \<open>Progress\<close>

lemma core_work_zero:
  assumes "core_work ctx (p, src) = 0" "pend_ok p"
  shows "pl_coreQ p @ undelivered ctx (pl_input p) src = []"
proof -
  have "event_work ev > 0" for ev by (simp add: event_work_def)
  then have z: "sum_list (map event_work evs) = 0 \<longleftrightarrow> evs = []" for evs by (cases evs) auto
  have "undelivered ctx (pl_input p) src = []" "queue_work p = 0" using assms(1) z by (auto simp: core_work_def)
  moreover have "pl_coreQ p = []"
  proof (cases "pl_has_pending_op p")
    case True
    then obtain ev q where "pl_coreQ p = ev # q" "mo_size (pl_pending_op p) = qc_size (ev_cmd ev)" "pl_offset p \<le> op_bytes (pl_pending_op p)"
      using assms(2) by (cases "pl_coreQ p") (auto simp: pend_ok_def)
    then show ?thesis using \<open>queue_work p = 0\<close> True order_trans [OF _ op_bytes_le]
      by (fastforce simp: queue_work_def event_work_def word_le_nat_alt)
  qed (use \<open>queue_work p = 0\<close> z in \<open>simp add: queue_work_def\<close>)
  ultimately show ?thesis by simp
qed

lemma exhausted_halted:
  assumes "accounts ids ctx strat line cmds (p, src)" "pl_coreQ p @ undelivered ctx (pl_input p) src = []"
    and "c \<in> set (expanded ctx cmds)" "qc_cmd c = cmd_code CMD_EXIT"
  shows "pl_halted p"
  using assms unfolding accounts_def fst_conv snd_conv by (auto simp del: append_is_Nil_conv)

lemma step_work:
  assumes "core_step ids e s = Inr s'" "fed [e] = []" "accounts ids ctx strat line cmds s" "0 < max_queue_len ctx" "0 < max_issue_per_cycle ctx"
    and "c \<in> set (expanded ctx cmds)" "qc_cmd c = cmd_code CMD_EXIT"
  shows "pl_halted (fst s) \<Longrightarrow> pl_halted (fst s')"
    and "pl_halted (fst s') \<or> core_work ctx s' + (case e of Cycle _ \<Rightarrow> if blocked (fst s) then 0 else 1 | _ \<Rightarrow> 0) \<le> core_work ctx s"
proof -
  obtain p src where s: "s = (p, src)" by fastforce
  have "(pl_halted p \<longrightarrow> pl_halted (fst s')) \<and> (pl_halted (fst s') \<or>
      core_work ctx s' + (case e of Cycle _ \<Rightarrow> if blocked p then 0 else 1 | _ \<Rightarrow> 0) \<le> core_work ctx s)"
  proof (cases e)
    case (Feed cs)
    then show ?thesis using assms(1,2) s by auto
  next
    case (Answer now resp)
    then show ?thesis using assms(1) s by (auto simp: response_keeps core_work_def)
  next
    case (Cycle now)
    obtain p' src' where s': "s' = (p', src')" by fastforce
    have t: "tick ids now p src = Inr (p', src')" using assms(1) Cycle s s' by simp
    have inv: "pipeline_inv ids ctx p" using assms(3) s by (simp add: accounts_def)
    show ?thesis
    proof (cases "pl_halted p")
      case True
      then show ?thesis using t s' by (simp add: tick_def)
    next
      case False
      from tick_full [OF t False inv] have w: "core_work ctx (p', src') \<le> core_work ctx (p, src)"
        "\<not> blocked p \<longrightarrow> core_work ctx (p', src') < core_work ctx (p, src) \<or> pl_coreQ p @ undelivered ctx (pl_input p) src = []"
        using assms(4,5) by blast+
      moreover have "pl_coreQ p @ undelivered ctx (pl_input p) src \<noteq> []"
        using exhausted_halted [OF assms(3) [unfolded s]] assms(6,7) False by blast
      ultimately show ?thesis using Cycle s s' False by auto
    qed
  qed
  then show "pl_halted (fst s) \<Longrightarrow> pl_halted (fst s')"
    and "pl_halted (fst s') \<or> core_work ctx s' + (case e of Cycle _ \<Rightarrow> if blocked (fst s) then 0 else 1 | _ \<Rightarrow> 0) \<le> core_work ctx s"
    unfolding s fst_conv by blast+
qed

lemma run_work:
  assumes "core_run ids es s = Inr s'" "fed es = []" "accounts ids ctx strat line cmds s" "0 < max_queue_len ctx" "0 < max_issue_per_cycle ctx"
    and "c \<in> set (expanded ctx cmds)" "qc_cmd c = cmd_code CMD_EXIT"
  shows "(pl_halted (fst s) \<longrightarrow> pl_halted (fst s')) \<and> (pl_halted (fst s') \<or> core_work ctx s' + free_cycles ids es s \<le> core_work ctx s)"
  using assms(1-3)
proof (induction es arbitrary: s)
  case (Cons e es)
  then obtain s1 where s1: "core_step ids e s = Inr s1" "core_run ids es s1 = Inr s'" by (auto simp: res_bind_Inr_iff)
  have f: "fed [e] = []" "fed es = []" using Cons.prems(2) by (cases e; simp)+
  have "accounts ids ctx strat line cmds s1" using accounts_step [OF s1(1) Cons.prems(3)] f(1) by simp
  from Cons.IH [OF s1(2) f(2) this] step_work [OF s1(1) f(1) Cons.prems(3) assms(4-7)] show ?case
    using s1(1) by (auto split: core_event.splits)
qed simp

definition sample_core :: "core_event list \<Rightarrow> quetz_command list \<Rightarrow> core_state result" where
  "sample_core steps cmds = core_run id steps (linked True True sample_pipeline, cmds)"

definition sample_cycles :: "core_event list" where
  "sample_cycles = [Cycle 0, Cycle 1, Cycle 2]"

lemma sample_trace:
  "case qemu_plugin_install (Some sample_info) sample_argv (\<lambda>_. Some sample_segment) of Inl e \<Rightarrow> False
   | Inr (pg, sh) \<Rightarrow> (case res_bind (plugin_run sample_events pg) (cb_atexit 2) of Inl e \<Rightarrow> False
     | Inr r \<Rightarrow> (case sample_core (Feed (pg_ring r 0) # sample_cycles) [] of Inl e \<Rightarrow> False
       | Inr (p, src) \<Rightarrow> pl_guest_exit p \<and> length (program_order pg 0 False OTHER sample_events) = 3))"
  by code_simp

lemma sample_halts:
  "case sample_core (sample_cycles @ sample_cycles @ sample_cycles @ sample_cycles) sample_src of Inl e \<Rightarrow> False
   | Inr (p, src) \<Rightarrow> trace_work sample_ctx sample_src \<le>
       free_cycles id (sample_cycles @ sample_cycles @ sample_cycles @ sample_cycles) (linked True True sample_pipeline, sample_src) \<and>
       list_ex (\<lambda>c. qc_cmd c = cmd_code CMD_EXIT) (expanded sample_ctx sample_src)"
  by code_simp

section \<open>Properties\<close>

text \<open>C1. From the guest to the memory system. Take any run of the plugin on any vCPUs up to the exit callback, and any run of a core
  that is fed the ring of vCPU \<open>v\<close> in any portions, with cycles and memory responses in any order. At every point of that run the core has
  retired some number \<open>k\<close> of the instructions of the guest's program order, its instruction counter is \<open>k\<close>, and the requests it
  has sent are exactly those of these instructions, in program order - each access that the memory map forwards as its line-sized
  pieces or as one MMIO request, with the stored bytes - followed by a first part of those of the next one. When the guest has exited
  all of the program is retired and sent.\<close>

theorem guest_trace_to_memory:
  assumes "qemu_plugin_install info argv tunnel = Inr (pg, sh)" "plugin_run es pg = Inr pg1" "cb_atexit n pg1 = Inr pg2"
    and "int (unat v) < n" "v < PLUGIN_MAX_VCPUS" "n \<le> 2 ^ 32"
    and "new_pipeline ctx line strat = Inr p0" "inj ids" "core_run ids steps (linked mem mmio p0, []) = Inr (p, src)"
    and "fed steps @ later = pg_ring pg2 (unat v)"
  shows "\<exists>k part. let po = program_order pg v False OTHER es in k \<le> length po \<and> pl_inst_count p = of_nat k \<and>
    map wire_of (em_sent (pl_emitter p)) = concat (map (traced_wires strat line) (take k po)) @ part \<and>
    prefix part (if k < length po then traced_wires strat line (po ! k) else []) \<and>
    (pl_guest_exit p \<longrightarrow> k = length po \<and> part = [])"
proof -
  have "accounts ids ctx strat line (fed steps) (p, src)"
    using accounts_run [OF assms(9) accounts_init [OF assms(7,8)]] by simp
  moreover have "delivered ctx (fed steps @ later) = program_order pg v False OTHER es @ [T_exit]"
    unfolding assms(10) by (rule exited_ring(1) [OF assms(1-6)])
  ultimately obtain k part where "k \<le> length (program_order pg v False OTHER es)" "pl_inst_count p = of_nat k"
    "map wire_of (em_sent (pl_emitter p)) = concat (map (traced_wires strat line) (take k (program_order pg v False OTHER es))) @ part"
    "prefix part (if k < length (program_order pg v False OTHER es) then traced_wires strat line (program_order pg v False OTHER es ! k) else [])"
    "pl_guest_exit p \<longrightarrow> k = length (program_order pg v False OTHER es) \<and> part = []"
    by (rule accounts_program [OF _ _ program_order_no_exit])
  then show ?thesis unfolding Let_def by blast
qed

text \<open>The sample program on a core that is given its whole trace and three cycles.\<close>

theorem guest_trace_to_memory_witness:
  "\<exists>pg sh pg1 pg2 p src. qemu_plugin_install (Some sample_info) sample_argv (\<lambda>_. Some sample_segment) = Inr (pg, sh) \<and>
     plugin_run sample_events pg = Inr pg1 \<and> cb_atexit 2 pg1 = Inr pg2 \<and>
     sample_core (Feed (pg_ring pg2 0) # sample_cycles) [] = Inr (p, src) \<and> pl_inst_count p = 3 \<and>
     map wire_of (em_sent (pl_emitter p)) = concat (map (traced_wires None 64) (program_order pg 0 False OTHER sample_events))"
proof -
  obtain pg sh where i: "qemu_plugin_install (Some sample_info) sample_argv (\<lambda>_. Some sample_segment) = Inr (pg, sh)"
    using sample_install by (auto elim: is_okE)
  from sample_plugin_run i have "is_ok (res_bind (plugin_run sample_events pg) (cb_atexit 2))" by simp
  then obtain pg2 where r: "res_bind (plugin_run sample_events pg) (cb_atexit 2) = Inr pg2" by (rule is_okE)
  then obtain pg1 where r1: "plugin_run sample_events pg = Inr pg1" "cb_atexit 2 pg1 = Inr pg2" by (auto simp: res_bind_Inr_iff)
  from sample_trace [unfolded i sum.case prod.case r] obtain p src where
    "sample_core (Feed (pg_ring pg2 0) # sample_cycles) [] = Inr (p, src)" "pl_guest_exit p"
      "length (program_order pg 0 False OTHER sample_events) = 3" by (auto split: sum.splits)
  note s = i r1 this
  have "fed (Feed (pg_ring pg2 0) # sample_cycles) @ [] = pg_ring pg2 (unat 0)" by (simp add: sample_cycles_def)
  from guest_trace_to_memory [OF s(1-3) _ _ _ sample_pipeline_init inj_on_id s(4) [unfolded sample_core_def] this]
  show ?thesis using s by (auto simp: Let_def PLUGIN_MAX_VCPUS_def)
qed

text \<open>C2. A core halts. Once the trace of a core contains an exit command, the core has halted after at most \<open>trace_work\<close> cycles
  that are not blocked, whatever the memory system answers and when: a cycle is only lost while a partly issued access waits because the
  limit on outstanding requests is reached. The bound adds, over the expanded commands, the stall, the size and two.\<close>

theorem core_halts:
  assumes "new_pipeline ctx line strat = Inr p0" "inj ids" "core_run ids steps (linked mem mmio p0, cmds) = Inr (p, src)"
    and "fed steps = []" "list_ex (\<lambda>c. qc_cmd c = cmd_code CMD_EXIT) (expanded ctx cmds)"
    and "trace_work ctx cmds \<le> free_cycles ids steps (linked mem mmio p0, cmds)"
  shows "pl_halted p"
proof (rule ccontr)
  assume no: "\<not> pl_halted p"
  let ?s = "(linked mem mmio p0, cmds)"
  obtain c where c: "c \<in> set (expanded ctx cmds)" "qc_cmd c = cmd_code CMD_EXIT" using assms(5) by (auto simp: list_ex_iff)
  have acc: "accounts ids ctx strat line cmds ?s"
    using accounts_feed [OF accounts_init [OF assms(1,2)], of cmds] by simp
  have ctx: "0 < max_queue_len ctx" "0 < max_issue_per_cycle ctx"
    using assms(1) by (auto simp: new_pipeline_def word_neq_0_conv split: if_splits)
  have "core_work ctx ?s = trace_work ctx cmds"
    using assms(1) by (auto simp: new_pipeline_def core_work_def queue_work_def linked_def trace_work_def undelivered_def run_events_def
        split: if_splits)
  then have "core_work ctx (p, src) = 0" using run_work [OF assms(3,4) acc ctx c] no assms(6) by auto
  moreover have acc': "accounts ids ctx strat line cmds (p, src)" using accounts_run [OF assms(3) acc] assms(4) by simp
  ultimately show False using exhausted_halted [OF acc' core_work_zero c] no by (auto simp: accounts_def pipeline_inv_def)
qed

theorem core_halts_witness:
  "\<exists>p src. sample_core (sample_cycles @ sample_cycles @ sample_cycles @ sample_cycles) sample_src = Inr (p, src) \<and> pl_halted p"
proof -
  let ?es = "sample_cycles @ sample_cycles @ sample_cycles @ sample_cycles"
  obtain p src where s: "sample_core ?es sample_src = Inr (p, src)"
      "trace_work sample_ctx sample_src \<le> free_cycles id ?es (linked True True sample_pipeline, sample_src)"
      "list_ex (\<lambda>c. qc_cmd c = cmd_code CMD_EXIT) (expanded sample_ctx sample_src)"
    using sample_halts by (auto split: sum.splits)
  have "fed ?es = []" by (simp add: sample_cycles_def)
  from core_halts [OF sample_pipeline_init inj_on_id s(1) [unfolded sample_core_def] this s(3,2)] show ?thesis using s(1) by blast
qed

end
