(* ===== verification/Spec2Isabelle.thy ===== *)
theory Spec2Isabelle
  imports Quetz_Window_Cache_Refine Quetz_Pipeline Quetz_Bridge Quetz_Irq_Mailbox
    Quetz_Mailbox_Protocol Quetz_Cpu_Mmio_Refine Quetz_Cache_Ops
    Quetz_Linux_User Quetz_Balar_Port Quetz_Io_Devices Quetz_Gpu_Accounting
    Quetz_Fft Quetz_Cpu Quetz_Core_Run
begin

text \<open>
  Verification of Quetz, a component of the SST simulator that runs a guest program in QEMU and simulates its memory system.
  File names are relative to the repository.

  \<^bold>\<open>The program.\<close> SST starts QEMU as a child process and shares one memory segment with it
  (\<open>include/quetz/quetz_ipc_types.h\<close>). Two flows cross the segment.

  \<^item> \<^emph>\<open>The trace.\<close> A QEMU plugin (\<open>src/qemu_plugin\<close>) classifies each translated instruction and writes what executes to one
    ring per vCPU. On the SST side a pipeline per core (\<open>src/quetz_pipeline*.cc\<close>) reads the ring, routes each access through the
    region handlers (\<open>src/quetz_region_*.cc\<close>) and sends memory requests (\<open>src/quetz_mem_issue.cc\<close>).
  \<^item> \<^emph>\<open>Synchronous accesses.\<close> A guest access to a device aperture is posted in a mailbox, by the bridge device in system mode
    (\<open>qemu-overlay/hw/misc/sst_mmio_bridge.c\<close>) or from the fault handler in user mode (\<open>qemu-overlay/linux-user\<close>), both through
    \<open>qemu-overlay/quetz_ipc_client.c\<close>. The CPU component polls the mailbox and serves the request from a window cache
    (\<open>src/quetz_window_cache.h\<close>), an accelerator port (\<open>src/quetz_balar_accelerator_port.cc\<close>) or the MMIO link, behind which the
    devices are (\<open>src/quetz_gpu_device.cc\<close>, \<open>src/quetz_stream_device.cc\<close>, \<open>src/quetz_sink_device.cc\<close>). Device interrupts go
    back to QEMU as levels in the segment.

  \<open>QuetzCPU\<close> (\<open>src/quetzcpu.cc\<close>) owns the cores, the caches, the ports and the child process (\<open>src/quetz_launcher.cc\<close>), and decides when
  the simulation ends.

  \<^bold>\<open>Foundations.\<close>

  \<^item> \<open>Quetz_Prelude\<close>: the machine integers, the error values \<open>exn\<close> and results \<open>exn + 'a\<close>, byte memories, and the shared lemmas
    and collections. \<open>Quetz_Cstring\<close>: \<open>strtoull\<close>, \<open>strtok_r\<close> and number printing, with their round trips.
  \<^item> \<open>Quetz_Memory_Span\<close>: \<open>src/quetz_memory_span.h\<close>, \<open>src/quetz_balar_flush_range.h\<close> and the two byte codecs, which share the locale
    \<open>byte_codec\<close>. Chunks tile an access; a flush range is minimal.
  \<^item> \<open>Quetz_Ipc_Types\<close>: the shared segment and its native RAM regions; what is configured validates and is disjoint.
  \<^item> \<open>Quetz_Stats\<close>: statistics as a trace of additions.

  \<^bold>\<open>The trace.\<close>

  \<^item> \<open>Quetz_Decoders\<close>, \<open>Quetz_Plugin\<close>: the instruction decoders and registry, and the plugin with its callbacks, batching, installation and
    exit. The ring of a vCPU expands to its program order.
  \<^item> \<open>Quetz_Mem_Issue\<close>, \<open>Quetz_Region\<close>: the emitter, and the region handlers (interface \<open>region_handler_if\<close>) with the access strategy.
  \<^item> \<open>Quetz_Stages\<close>, \<open>Quetz_Pipeline\<close>: the pipeline stages and \<open>tick\<close>. The locale \<open>output_stage\<close> is what the pipeline needs of its
    output; the default and the logging stage (\<open>src/quetz_logging_pipeline_output.cc\<close>) both provide it. Events are conserved, limits
    hold, counts are exact, and a tick that is not blocked does work.
  \<^item> \<open>Quetz_Core_Run\<close>: one core from the callbacks of QEMU to the memory requests, in any interleaving of callbacks, ticks and
    responses. The requests are those of the guest's accesses in program order, and a core halts within a number of free cycles
    that its trace bounds.

  \<^bold>\<open>Synchronous accesses.\<close>

  \<^item> \<open>Quetz_Ipc_Client\<close>: both ends of the mailboxes as sequential operations. \<open>Quetz_Mailbox_Protocol\<close> and \<open>Quetz_Irq_Mailbox\<close> run the
    same code as interleaved atomic steps: every call gets its own answer, the protocol never deadlocks, and no level is missed.
  \<^item> \<open>Quetz_Bridge\<close>, \<open>Quetz_Linux_User\<close>: the two QEMU front ends; the second decodes the faulting RV64 or m68k instruction and has its
    architectural effect.
  \<^item> \<open>Quetz_Window_Cache\<close>, \<open>Quetz_Window_Cache_Refine\<close>, \<open>Quetz_Window_Bank\<close>: the cache as a transaction machine, its invariant, its
    refinement of flat memory over any backing that satisfies the locale \<open>line_memory\<close>, and the caches of all vCPUs.
  \<^item> \<open>Quetz_Cpu_Mmio\<close>, \<open>Quetz_Cpu_Mmio_Refine\<close>: the mailbox service of the CPU component; native RAM and the memory system together
    interpret \<open>line_memory\<close>, which gives the end-to-end theorem. \<open>Quetz_Cache_Ops\<close>: cache instructions from the guest to the cache.
  \<^item> \<open>Quetz_Balar_Port\<close>: the accelerator port; a doorbell follows its flushes and every posted offload is accounted for.

  \<^bold>\<open>Devices.\<close>

  \<^item> \<open>Quetz_Io_Devices\<close>: the stream and the sink device. \<open>Quetz_Event_Writer\<close>: the event file of the accelerator.
  \<^item> \<open>Quetz_Kernel\<close>, \<open>Quetz_Fft\<close>: the compute kernels and the locale \<open>kernel_contract\<close> they fulfil; the FFT computes the discrete
    Fourier transform when its arithmetic is exact.
  \<^item> \<open>Quetz_Gpu_Device\<close>, \<open>Quetz_Gpu_Dma\<close>, \<open>Quetz_Gpu_Accounting\<close>: the accelerator, its memory traffic against a memory that answers
    in any order, and the accounting of its tickets, interrupt and held responses.

  \<^bold>\<open>The component.\<close>

  \<^item> \<open>Quetz_Config\<close>, \<open>Quetz_Launch\<close>, \<open>Quetz_Tunnel\<close>: parameters, presets and the launch contract; the command line and the life of the
    child; the initialisation of the segment, which the client of QEMU accepts.
  \<^item> \<open>Quetz_Memory_Map\<close>: the region handlers from their parameters and the memory maps of the shipped platforms; each range gets
    the handler its platform lists, and the UART prints what is stored to it.
  \<^item> \<open>Quetz_Cpu\<close>: construction from the parameters and from what the simulation's input file attaches (\<open>deck\<close>), the tick, responses, interrupts and the end of the simulation, composed from the parts above.

  \<^bold>\<open>Conventions.\<close> Integers have their width and wrap. A thrown exception, \<open>fatal\<close>, \<open>exit\<close> or \<open>error_setg\<close> is \<open>Inl\<close>. What a component sends or
  prints to a file is a trace in its state; log output is left out. What the code obtains from elsewhere is an argument: fresh request
  identifiers (\<open>ids\<close>, injective where a theorem needs it), the simulated time, the answers of the operating system (\<open>os\<close>), QEMU's data
  structures, the conversion of parameter strings by SST (\<open>param_conv\<close>; \<open>sst_numbers\<close> says
  that it reads C number literals), floating-point operations (\<open>fp_ops\<close>), and the iteration
  order of hash maps. Shared objects are explicit: mapped segments live in a store, the region handlers of all cores in the component.

  \<^bold>\<open>Termination.\<close> Loops are structural recursions or have a termination proof; those of the pipeline, the plugin, the parsers, the FFT and the
  launcher need no fuel. The cache service loop, which the code runs until the cache waits or is idle, has fuel, and running out is
  \<open>None\<close>. Fuel 5 is enough: an access needs at most four backing transactions, two per line it touches, and the theorems prove that
  the result is not \<open>None\<close>. The search for interrupt links ends only when a link is missing, so it is a partial function
  (\<open>irq_links_from\<close>), defined when finitely many are connected. Stopping the child polls it at most 403 times.

  \<^bold>\<open>Not modelled.\<close> The creation of SST links, ports and clocks and the ELI tables, which are declarations for the simulator;
  QOM type registration in the bridge; log output; the scripts that patch QEMU; tests and guest firmware.
  Relaxed memory is modelled by the interleavings that the acquire and release accesses of the code permit. Futex waits are polls.
\<close>

end
